(* ===== verification/Prelude.thy ===== *)
theory Prelude
  imports Main "HOL-Library.Word"
begin

text \<open>
  Prelude of the development: the machine types of the C sources, the collections of
  simplification rules the component theories extend, and the facts about bytes, words
  and lists that several components share.

  The C sources are compiled for LP64 targets (iOS arm64 and the 64-bit simulator):
  \<open>size_t\<close> has 64 bits, \<open>int\<close> and \<open>unsigned\<close> have 32 bits, \<open>uint_fast8_t\<close> has 8 bits and
  integers are stored little-endian.
\<close>

unbundle bit_operations_syntax

type_synonym byte = "8 word"
type_synonym u16 = "16 word"
type_synonym u32 = "32 word"
type_synonym u64 = "64 word"

text \<open>The number of values of a \<open>size_t\<close>; sums of sizes are reduced modulo it where C wraps.\<close>

abbreviation size_mod :: nat where
  "size_mod \<equiv> 18446744073709551616"

text \<open>
  Rules that turn a stream operation on a stream of known shape into its result
  (\<open>stream_simps\<close>), and facts that an operation keeps a well-formedness predicate
  (\<open>inv_intros\<close>).
\<close>

named_theorems stream_simps
named_theorems inv_intros

section \<open>Bits of words\<close>

lemma take_bit_step:
  fixes v :: "'a::len word"
  shows "take_bit k v OR push_bit k (take_bit n (drop_bit k v)) = take_bit (k + n) v"
  by (rule bit_word_eqI) (auto simp: bit_simps)

lemma push_bit_split:
  fixes acc v :: "'a::len word"
  shows "(acc OR push_bit k (take_bit n v)) OR push_bit (k + n) (drop_bit n v) = acc OR push_bit k v"
proof (rule bit_word_eqI)
  fix i
  assume "i < LENGTH('a)"
  show "bit ((acc OR push_bit k (take_bit n v)) OR push_bit (k + n) (drop_bit n v)) i
      = bit (acc OR push_bit k v) i"
  proof (cases "i < k + n")
    case True
    then show ?thesis by (auto simp: bit_simps)
  next
    case False
    then have "n + (i - (k + n)) = i - k" by simp
    then show ?thesis using False by (auto simp: bit_simps)
  qed
qed

lemma drop_bit_eq_0_imp_take_bit:
  fixes v :: "'a::len word"
  assumes "drop_bit k v = 0"
  shows "take_bit k v = v"
proof (rule bit_word_eqI)
  fix n
  assume n: "n < LENGTH('a)"
  have "bit (drop_bit k v) (n - k) = False"
    using assms by simp
  then show "bit (take_bit k v) n = bit v n"
    using n by (cases "n < k") (auto simp: bit_simps)
qed

lemma drop_0_bit: "drop_bit k (v :: 'a::len word) = 0 \<Longrightarrow> bit v n \<Longrightarrow> n < k"
  using drop_bit_eq_0_imp_take_bit [of k v] bit_take_bit_iff [of k v n] by metis

lemma and_mask_7F: "(v :: 'a::len word) AND 0x7F = take_bit 7 v"
  by (simp add: take_bit_eq_mask mask_eq_exp_minus_1)

lemma and_80_eq_0 [simp]: "(x AND 0x80 = 0) \<longleftrightarrow> \<not> bit (x::'a::len word) 7"
  using and_exp_eq_0_iff_not_bit [of x 7] by simp

lemma bit_7F [simp]:
  "bit (0x7F :: 'a::ring_bit_operations) n \<longleftrightarrow> possible_bit TYPE('a) n \<and> n < 7"
proof -
  have "(0x7F :: 'a) = mask 7" by (simp add: mask_eq_exp_minus_1)
  then show ?thesis by (simp only: bit_simps)
qed

lemma bit_80 [simp]:
  "bit (0x80 :: 'a::ring_bit_operations) n \<longleftrightarrow> possible_bit TYPE('a) n \<and> n = 7"
proof -
  have "(0x80 :: 'a) = 2 ^ 7" by simp
  then show ?thesis by (simp only: bit_simps)
qed

lemma bit_FF [simp]:
  "bit (0xFF :: 'a::ring_bit_operations) n \<longleftrightarrow> possible_bit TYPE('a) n \<and> n < 8"
proof -
  have "(0xFF :: 'a) = mask 8" by (simp add: mask_eq_exp_minus_1)
  then show ?thesis by (simp only: bit_simps)
qed

lemma bit_3F: "bit (0x3F :: 'a::ring_bit_operations) n \<longleftrightarrow> possible_bit TYPE('a) n \<and> n < 6"
proof -
  have "(0x3F :: 'a) = mask 6" by (simp add: mask_eq_exp_minus_1)
  then show ?thesis by (simp only: bit_simps)
qed

lemma byte_eqI:
  fixes a b :: byte
  assumes "bit a 0 = bit b 0" "bit a 1 = bit b 1" "bit a 2 = bit b 2" "bit a 3 = bit b 3"
    "bit a 4 = bit b 4" "bit a 5 = bit b 5" "bit a 6 = bit b 6" "bit a 7 = bit b 7"
  shows "a = b"
proof (rule bit_word_eqI)
  fix n assume "n < LENGTH(8)"
  then have "n = 0 \<or> n = 1 \<or> n = 2 \<or> n = 3 \<or> n = 4 \<or> n = 5 \<or> n = 6 \<or> n = 7" by auto
  then show "bit a n = bit b n" using assms by blast
qed

lemma byte_bits: "(a :: byte) = b \<longleftrightarrow> bit a 0 = bit b 0 \<and> bit a 1 = bit b 1 \<and> bit a 2 = bit b 2 \<and>
  bit a 3 = bit b 3 \<and> bit a 4 = bit b 4 \<and> bit a 5 = bit b 5 \<and> bit a 6 = bit b 6 \<and> bit a 7 = bit b 7"
  using byte_eqI [of a b] by auto

lemma drop_bit_word_0: "LENGTH('a) \<le> k \<Longrightarrow> drop_bit k (v :: 'a::len word) = 0"
  by (rule bit_word_eqI) (auto simp: bit_simps dest: bit_imp_le_length)

lemma unat_drop_bit_word: "unat (drop_bit k v) = unat v div 2 ^ k"
  by (simp only: unat_drop_bit_eq) (simp only: drop_bit_eq_div)

text \<open>A word below \<open>2 ^ k\<close> has no bit at \<open>k\<close> or above.\<close>

lemma drop_bit_word_less:
  fixes v :: "'a::len word"
  assumes "v < 2 ^ k"
  shows "drop_bit k v = 0"
proof -
  have "unat v < unat (2 ^ k :: 'a word)"
    using assms by (simp only: word_less_nat_alt)
  also have "\<dots> = unat (of_nat (2 ^ k) :: 'a word)" by simp
  also have "\<dots> \<le> 2 ^ k" by (simp only: unat_of_nat mod_less_eq_dividend)
  finally have "unat (drop_bit k v) = 0" by (simp add: unat_drop_bit_word)
  then show ?thesis by (simp add: unat_eq_0)
qed

lemma bit_word_less: "(v::'a::len word) < 2 ^ k \<Longrightarrow> bit v n \<Longrightarrow> n < k"
  using drop_bit_word_less [of v k] bit_drop_bit_eq [of k v]
  by (metis (no_types) bit_0_eq bot_apply bot_bool_def le_add_diff_inverse linorder_not_less
      comp_apply)

text \<open>A sum of two sizes that wraps around.\<close>

lemma mod_add_wrap:
  fixes a b m :: nat
  assumes "a < m" "b < m" "m \<le> a + b"
  shows "(a + b) mod m = a + b - m"
proof -
  have "(a + b) mod m = (a + b - m) mod m"
    using assms by (intro le_mod_geq)
  also have "\<dots> = a + b - m"
    using assms by (intro mod_less) arith
  finally show ?thesis .
qed

section \<open>Lists\<close>

lemma take_append_exact [simp]: "length xs = n \<Longrightarrow> take n (xs @ ys) = xs"
  by simp

lemma drop_append_exact [simp]: "length xs = n \<Longrightarrow> drop n (xs @ ys) = ys"
  by simp


section \<open>Little-endian and big-endian byte sequences\<close>

text \<open>
  The \<open>k\<close> low bytes of a word, least significant first (\<open>le_bytes\<close>) or last (\<open>be_bytes\<close>),
  and the word that a byte sequence represents.
\<close>

fun le_bytes :: "nat \<Rightarrow> 'a::len word \<Rightarrow> byte list" where
  "le_bytes 0 v = []"
| "le_bytes (Suc k) v = ucast v # le_bytes k (drop_bit 8 v)"

fun le_val :: "byte list \<Rightarrow> 'a::len word" where
  "le_val [] = 0"
| "le_val (b # bs) = ucast b OR push_bit 8 (le_val bs)"

definition be_bytes :: "nat \<Rightarrow> 'a::len word \<Rightarrow> byte list" where
  "be_bytes k v = rev (le_bytes k v)"

definition be_val :: "byte list \<Rightarrow> 'a::len word" where
  "be_val bs = le_val (rev bs)"

lemma length_le_bytes [simp]: "length (le_bytes k v) = k"
  by (induction k v rule: le_bytes.induct) auto

lemma le_bytes_numeral [simp]:
  "le_bytes (numeral k) v = ucast v # le_bytes (pred_numeral k) (drop_bit 8 v)"
  by (simp add: numeral_eq_Suc)

lemma ucast_and_FF [simp]: "(ucast (v AND 0xFF :: 'a::len word) :: byte) = ucast v"
  by (rule bit_word_eqI) (auto simp: bit_simps dest: bit_imp_le_length)

lemma length_be_bytes [simp]: "length (be_bytes k v) = k"
  by (simp add: be_bytes_def)

lemma bit_le_val: "bit (le_val bs :: 'a::len word) n \<longleftrightarrow>
    n < LENGTH('a) \<and> n div 8 < length bs \<and> bit (bs ! (n div 8)) (n mod 8)"
proof (induction bs arbitrary: n)
  case (Cons b bs)
  show ?case
  proof (cases "n < 8")
    case True
    then show ?thesis by (auto simp: bit_simps)
  next
    case False
    then have "n div 8 = Suc ((n - 8) div 8)" "n mod 8 = (n - 8) mod 8"
      by (simp_all add: le_div_geq le_mod_geq)
    then show ?thesis using False Cons.IH [of "n - 8"]
      by (auto simp: bit_simps dest: bit_imp_le_length)
  qed
qed simp

lemma nth_le_bytes: "i < k \<Longrightarrow> le_bytes k v ! i = ucast (drop_bit (8 * i) v)"
proof (induction k v arbitrary: i rule: le_bytes.induct)
  case (2 k v)
  then show ?case
    by (cases i) (auto simp: drop_bit_drop_bit add.commute)
qed simp

lemma le_val_le_bytes: "le_val (le_bytes k v) = take_bit (8 * k) (v :: 'a::len word)"
proof (rule bit_word_eqI)
  fix n
  assume n: "n < LENGTH('a)"
  have "8 * (n div 8) + n mod 8 = n" by simp
  moreover have "n mod 8 < 8" by simp
  moreover have "n div 8 < k \<longleftrightarrow> n < 8 * k" by (simp add: div_less_iff_less_mult mult.commute)
  ultimately show "bit (le_val (le_bytes k v) :: 'a word) n = bit (take_bit (8 * k) v) n"
    using n by (auto simp: bit_le_val nth_le_bytes bit_simps simp del: mod_less_divisor)
qed

lemma be_val_be_bytes: "be_val (be_bytes k v) = take_bit (8 * k) v"
  by (simp add: be_val_def be_bytes_def le_val_le_bytes)

lemma le_bytes_le_val:
  assumes "8 * length bs \<le> LENGTH('a)"
  shows "le_bytes (length bs) (le_val bs :: 'a::len word) = bs"
proof (rule nth_equalityI)
  fix i
  assume "i < length (le_bytes (length bs) (le_val bs :: 'a word))"
  then have i: "i < length bs" by simp
  show "le_bytes (length bs) (le_val bs :: 'a word) ! i = bs ! i"
  proof (rule bit_word_eqI)
    fix n
    assume n: "n < LENGTH(8)"
    have "(8 * i + n) div 8 = i" "(8 * i + n) mod 8 = n" using n by simp_all
    then show "bit (le_bytes (length bs) (le_val bs :: 'a word) ! i) n = bit (bs ! i) n"
      using n i assms by (auto simp: nth_le_bytes bit_simps bit_le_val)
  qed
qed simp

lemma be_bytes_be_val:
  "8 * length bs \<le> LENGTH('a) \<Longrightarrow> be_bytes (length bs) (be_val bs :: 'a::len word) = bs"
  using le_bytes_le_val [of "rev bs", where 'a = 'a] by (simp add: be_bytes_def be_val_def)

end
