(* ===== verification/Pb_Stream.thy ===== *)
theory Pb_Stream
  imports Prelude
begin

text \<open>
  The byte streams of nanopb (\<open>nanopb/pb_decode.c\<close>, \<open>nanopb/pb_encode.c\<close>): input streams
  with \<open>buf_read\<close>, \<open>pb_read\<close> and \<open>pb_readbyte\<close>, output streams with \<open>buf_write\<close> and
  \<open>pb_write\<close>, their memory-safety invariants and what each operation does to the bytes.

  A C function that returns \<open>bool\<close> and fills an out-parameter is a function that returns
  \<open>Some\<close> of the value for \<open>true\<close> and \<open>None\<close> for \<open>false\<close>, together with the stream it leaves.
\<close>

section \<open>Input streams\<close>

text \<open>
  The pair of the stream's callback and its state: \<open>Buf_read\<close> is the built-in callback
  \<open>buf_read\<close> with the bytes from the state pointer to the end of the memory block;
  \<open>Buf_wild\<close> is \<open>buf_read\<close> with a state pointer that has left its memory block, which no
  correct use reaches (lemma \<open>istream_ok\<close> below); \<open>Read_cb\<close> is a callback of the caller with
  its own state, which is asked for a number of bytes, says whether it succeeded, fills
  the buffer (a function of the index) and leaves a new state.
\<close>

datatype 's source =
    Buf_read "byte list"
  | Buf_wild
  | Read_cb "'s \<Rightarrow> nat \<Rightarrow> bool \<times> (nat \<Rightarrow> byte) \<times> 's" 's

record 's pb_istream =
  source :: "'s source"
  bytes_left :: nat
  ierrmsg :: "string option"

text \<open>\<open>PB_SET_ERROR\<close>: the first error message stays.\<close>

definition pb_set_error :: "'s pb_istream \<Rightarrow> string \<Rightarrow> 's pb_istream" where
  "pb_set_error s msg =
     s\<lparr>ierrmsg := (case ierrmsg s of None \<Rightarrow> Some msg | Some m \<Rightarrow> Some m)\<rparr>"

definition pb_return_error :: "'s pb_istream \<Rightarrow> string \<Rightarrow> 'a option \<times> 's pb_istream" where
  "pb_return_error s msg = (None, pb_set_error s msg)"

text \<open>
  \<open>buf_read\<close> copies \<open>count\<close> bytes and moves the state pointer. Reading past the block is
  undefined in C; here it gives zero bytes and the state \<open>Buf_wild\<close>.
\<close>

definition buf_read :: "byte list \<Rightarrow> nat \<Rightarrow> byte list \<times> 's source" where
  "buf_read bs count =
     (if count \<le> length bs then (take count bs, Buf_read (drop count bs))
      else (replicate count 0, Buf_wild))"

text \<open>The call \<open>stream->callback(stream, buf, count)\<close>.\<close>

fun read_callback :: "'s source \<Rightarrow> nat \<Rightarrow> byte list option \<times> 's source" where
  "read_callback (Buf_read bs) count = (let (d, src) = buf_read bs count in (Some d, src))"
| "read_callback Buf_wild count = (Some (replicate count 0), Buf_wild)"
| "read_callback (Read_cb f st) count =
     (let (ok, d, st') = f st count
      in (if ok then Some (map d [0..<count]) else None, Read_cb f st'))"

fun is_buf_read :: "'s source \<Rightarrow> bool" where
  "is_buf_read (Read_cb f st) = False"
| "is_buf_read _ = True"

text \<open>The part of \<open>pb_read\<close> after the skipping loop, which is all of it for a non-null buffer.\<close>

definition pb_read_buf :: "'s pb_istream \<Rightarrow> nat \<Rightarrow> byte list option \<times> 's pb_istream" where
  "pb_read_buf s count =
     (if count = 0 then (Some [], s)
      else if bytes_left s < count then pb_return_error s ''end-of-stream''
      else (case read_callback (source s) count of
              (None, src) \<Rightarrow> pb_return_error (s\<lparr>source := src\<rparr>) ''io error''
            | (Some d, src) \<Rightarrow>
                (Some d, s\<lparr>source := src, bytes_left := bytes_left s - count\<rparr>)))"

text \<open>The loop that skips input in blocks of 16 bytes when there is no buffer to read into.\<close>

function pb_read_skip :: "'s pb_istream \<Rightarrow> nat \<Rightarrow> byte list option \<times> 's pb_istream" where
  "pb_read_skip s count =
     (if count > 16 then
        (case pb_read_buf s 16 of
           (None, s') \<Rightarrow> (None, s')
         | (Some _, s') \<Rightarrow> pb_read_skip s' (count - 16))
      else (case pb_read_buf s count of
              (None, s') \<Rightarrow> (None, s')
            | (Some _, s') \<Rightarrow> (Some [], s')))"
  by pat_completeness auto
termination
  by (relation "measure snd") auto

declare pb_read_skip.simps [simp del]

text \<open>
  \<open>pb_read(stream, NULL, count)\<close> is \<open>pb_read s True count\<close>, with no bytes delivered;
  \<open>pb_read(stream, buf, count)\<close> is \<open>pb_read s False count\<close>.
\<close>

definition pb_read :: "'s pb_istream \<Rightarrow> bool \<Rightarrow> nat \<Rightarrow> byte list option \<times> 's pb_istream" where
  "pb_read s null count =
     (if count = 0 then (Some [], s)
      else if null \<and> \<not> is_buf_read (source s) then pb_read_skip s count
      else (case pb_read_buf s count of
              (None, s') \<Rightarrow> (None, s')
            | (Some d, s') \<Rightarrow> (Some (if null then [] else d), s')))"

definition pb_readbyte :: "'s pb_istream \<Rightarrow> byte option \<times> 's pb_istream" where
  "pb_readbyte s =
     (if bytes_left s = 0 then pb_return_error s ''end-of-stream''
      else (case read_callback (source s) 1 of
              (None, src) \<Rightarrow> pb_return_error (s\<lparr>source := src\<rparr>) ''io error''
            | (Some d, src) \<Rightarrow>
                (Some (hd d), s\<lparr>source := src, bytes_left := bytes_left s - 1\<rparr>)))"

definition pb_istream_from_buffer :: "byte list \<Rightarrow> nat \<Rightarrow> 's pb_istream" where
  "pb_istream_from_buffer buf bufsize =
     \<lparr>source = Buf_read buf, bytes_left = bufsize, ierrmsg = None\<rparr>"


subsection \<open>Memory safety of input streams\<close>

text \<open>
  The bytes a buffer stream may still read lie inside its block, with \<open>m\<close> more bytes of
  the block after them (which belong to the parent stream when the stream is a
  substream). Every operation keeps this, so \<open>buf_read\<close> never leaves the block.
\<close>

definition istream_margin :: "nat \<Rightarrow> 's pb_istream \<Rightarrow> bool" where
  "istream_margin m s =
     (case source s of
        Buf_read bs \<Rightarrow> bytes_left s + m \<le> length bs
      | Buf_wild \<Rightarrow> False
      | Read_cb f st \<Rightarrow> True)"

abbreviation istream_ok :: "'s pb_istream \<Rightarrow> bool" where
  "istream_ok \<equiv> istream_margin 0"

lemma istream_ok_from_buffer [inv_intros]:
  "n \<le> length buf \<Longrightarrow> istream_ok (pb_istream_from_buffer buf n)"
  by (simp add: istream_margin_def pb_istream_from_buffer_def)

lemma pb_return_error_simps [simp]:
  "fst (pb_return_error s m) = None"
  "source (snd (pb_return_error s m)) = source s"
  "bytes_left (snd (pb_return_error s m)) = bytes_left s"
  by (simp_all add: pb_return_error_def pb_set_error_def)

lemma pb_return_error_eq [simp]:
  "pb_return_error s m = (r, s') \<longleftrightarrow> r = None \<and> s' = pb_set_error s m"
  by (auto simp: pb_return_error_def)

lemma pb_set_error_sel [simp]:
  "source (pb_set_error s m) = source s"
  "bytes_left (pb_set_error s m) = bytes_left s"
  by (simp_all add: pb_set_error_def)

lemma istream_ok_set_error [simp]: "istream_margin m (pb_set_error s msg) = istream_margin m s"
  by (simp add: istream_margin_def split: source.splits)

lemma istream_ok_return_error [simp]: "istream_margin m (snd (pb_return_error s msg)) = istream_margin m s"
  by (simp add: pb_return_error_def)

lemma istream_ok_callback:
  assumes "istream_margin m s" "count \<le> bytes_left s" "read_callback (source s) count = (r, src)"
  shows "istream_margin m (s\<lparr>source := src, bytes_left := bytes_left s - count\<rparr>)"
    and "r = None \<Longrightarrow> istream_margin m (s\<lparr>source := src\<rparr>)"
  using assms
  by (cases "source s"; auto simp: istream_margin_def buf_read_def split: prod.splits if_splits)+

lemma pb_read_buf_ok [inv_intros]:
  "istream_margin m s \<Longrightarrow> istream_margin m (snd (pb_read_buf s count))"
  using istream_ok_callback [of m s count]
  by (auto simp: pb_read_buf_def split: prod.splits option.splits)

lemma pb_read_skip_ok [inv_intros]:
  "istream_margin m s \<Longrightarrow> istream_margin m (snd (pb_read_skip s count))"
proof (induction s count rule: pb_read_skip.induct)
  case (1 s count)
  have a: "istream_margin m (snd (pb_read_buf s n))" for n
    using "1.prems" by (rule pb_read_buf_ok)
  show ?case
    using a [of 16] a [of count] "1.IH"
    by (subst pb_read_skip.simps) (auto split: prod.splits option.splits)
qed

lemma pb_read_ok [inv_intros]: "istream_margin m s \<Longrightarrow> istream_margin m (snd (pb_read s null count))"
  using pb_read_buf_ok [of m s count] pb_read_skip_ok [of m s count]
  by (auto simp: pb_read_def split: prod.splits option.splits)

lemma pb_readbyte_ok [inv_intros]: "istream_margin m s \<Longrightarrow> istream_margin m (snd (pb_readbyte s))"
  using istream_ok_callback [of m s 1]
  by (auto simp: pb_readbyte_def split: prod.splits option.splits)

text \<open>What a successful read takes off \<open>bytes_left\<close>; no read puts bytes back.\<close>

lemma pb_read_buf_left:
  "pb_read_buf s count = (Some d, s') \<Longrightarrow> bytes_left s' + count = bytes_left s"
  by (auto simp: pb_read_buf_def split: if_splits option.splits prod.splits)

lemma pb_read_skip_left:
  "pb_read_skip s count = (Some d, s') \<Longrightarrow> bytes_left s' + count = bytes_left s"
proof (induction s count rule: pb_read_skip.induct)
  case (1 s count)
  show ?case
    using "1.prems" "1.IH" pb_read_buf_left [of s]
    by (subst (asm) pb_read_skip.simps) (fastforce split: if_splits option.splits prod.splits)
qed

lemma pb_read_left:
  "pb_read s null count = (Some d, s') \<Longrightarrow> bytes_left s' + count = bytes_left s"
  using pb_read_buf_left [of s count] pb_read_skip_left [of s count]
  by (auto simp: pb_read_def split: if_splits option.splits prod.splits)

lemma pb_readbyte_left [termination_simp]:
  "pb_readbyte s = (Some b, s') \<Longrightarrow> Suc (bytes_left s') = bytes_left s"
  by (auto simp: pb_readbyte_def split: if_splits option.splits prod.splits)

lemma pb_readbyte_le: "bytes_left (snd (pb_readbyte s)) \<le> bytes_left s"
  by (auto simp: pb_readbyte_def split: if_splits option.splits prod.splits)

subsection \<open>Reading from a buffer\<close>

text \<open>
  A buffer stream whose next bytes are \<open>bs\<close>: what the codec lemmas of the wire format
  are stated on. \<open>n\<close> is the number of bytes the stream may still read.
\<close>

abbreviation bufstream :: "byte list \<Rightarrow> nat \<Rightarrow> string option \<Rightarrow> 's pb_istream" where
  "bufstream bs n e \<equiv> \<lparr>source = Buf_read bs, bytes_left = n, ierrmsg = e\<rparr>"

lemma pb_readbyte_buf [stream_simps]:
  "pb_readbyte (bufstream (b # bs) (Suc n) e) = (Some b, bufstream bs n e)"
  by (simp add: pb_readbyte_def buf_read_def)

lemma pb_read_buf_buf [stream_simps]:
  "length d \<le> n \<Longrightarrow> count = length d \<Longrightarrow>
   pb_read_buf (bufstream (d @ bs) n e) count = (Some d, bufstream bs (n - count) e)"
  by (simp add: pb_read_buf_def buf_read_def)

lemma pb_read_bufstream [stream_simps]:
  "length d \<le> n \<Longrightarrow> count = length d \<Longrightarrow>
   pb_read (bufstream (d @ bs) n e) null count =
     (Some (if null then [] else d), bufstream bs (n - count) e)"
  by (simp add: pb_read_def stream_simps)

section \<open>Output streams\<close>

text \<open>
  \<open>Sizing\<close> is the null callback of \<open>PB_OSTREAM_SIZING\<close>; \<open>Buf_write w room\<close> is
  \<open>buf_write\<close> after it wrote \<open>w\<close>, with \<open>room\<close> bytes between the state pointer and the end
  of the block; \<open>Write_wild\<close> is \<open>buf_write\<close> after a write past the block (undefined in C);
  \<open>Write_cb\<close> is a callback of the caller.
\<close>

datatype 's sink =
    Sizing
  | Buf_write "byte list" nat
  | Write_wild
  | Write_cb "'s \<Rightarrow> byte list \<Rightarrow> bool \<times> 's" 's

record 's pb_ostream =
  sink :: "'s sink"
  max_size :: nat
  bytes_written :: nat
  oerrmsg :: "string option"

definition pb_oset_error :: "'s pb_ostream \<Rightarrow> string \<Rightarrow> 's pb_ostream" where
  "pb_oset_error s msg =
     s\<lparr>oerrmsg := (case oerrmsg s of None \<Rightarrow> Some msg | Some m \<Rightarrow> Some m)\<rparr>"

definition pb_oreturn_error :: "'s pb_ostream \<Rightarrow> string \<Rightarrow> bool \<times> 's pb_ostream" where
  "pb_oreturn_error s msg = (False, pb_oset_error s msg)"

definition buf_write :: "byte list \<Rightarrow> nat \<Rightarrow> byte list \<Rightarrow> 's sink" where
  "buf_write w room bs =
     (if length bs \<le> room then Buf_write (w @ bs) (room - length bs) else Write_wild)"

fun write_callback :: "'s sink \<Rightarrow> byte list \<Rightarrow> bool \<times> 's sink" where
  "write_callback Sizing bs = (True, Sizing)"
| "write_callback (Buf_write w room) bs = (True, buf_write w room bs)"
| "write_callback Write_wild bs = (True, Write_wild)"
| "write_callback (Write_cb f st) bs = (let (ok, st') = f st bs in (ok, Write_cb f st'))"

fun is_sizing :: "'s sink \<Rightarrow> bool" where
  "is_sizing Sizing = True"
| "is_sizing _ = False"

text \<open>
  \<open>pb_write(stream, buf, count)\<close>: \<open>buf\<close> is the bytes at the pointer (none for a null
  pointer, which the code passes to a sizing stream only).
\<close>

definition pb_write :: "'s pb_ostream \<Rightarrow> byte list \<Rightarrow> nat \<Rightarrow> bool \<times> 's pb_ostream" where
  "pb_write s buf count =
     (if count > 0 \<and> \<not> is_sizing (sink s) then
        (if (bytes_written s + count) mod size_mod < bytes_written s
            \<or> (bytes_written s + count) mod size_mod > max_size s
         then pb_oreturn_error s ''stream full''
         else (case write_callback (sink s) (take count buf) of
                 (False, k) \<Rightarrow> pb_oreturn_error (s\<lparr>sink := k\<rparr>) ''io error''
               | (True, k) \<Rightarrow>
                   (True, s\<lparr>sink := k,
                            bytes_written := (bytes_written s + count) mod size_mod\<rparr>)))
      else (True, s\<lparr>bytes_written := (bytes_written s + count) mod size_mod\<rparr>))"

definition pb_ostream_from_buffer :: "nat \<Rightarrow> nat \<Rightarrow> 's pb_ostream" where
  "pb_ostream_from_buffer room bufsize =
     \<lparr>sink = Buf_write [] room, max_size = bufsize, bytes_written = 0, oerrmsg = None\<rparr>"

definition PB_OSTREAM_SIZING :: "'s pb_ostream" where
  "PB_OSTREAM_SIZING = \<lparr>sink = Sizing, max_size = 0, bytes_written = 0, oerrmsg = None\<rparr>"


subsection \<open>Memory safety of output streams\<close>

definition ostream_ok :: "'s pb_ostream \<Rightarrow> bool" where
  "ostream_ok s \<longleftrightarrow>
     bytes_written s < size_mod \<and> max_size s < size_mod \<and>
     (case sink s of
        Sizing \<Rightarrow> True
      | Buf_write w room \<Rightarrow> bytes_written s \<le> max_size s \<and> max_size s \<le> bytes_written s + room
      | Write_wild \<Rightarrow> False
      | Write_cb f st \<Rightarrow> True)"

lemma ostream_ok_from_buffer [inv_intros]:
  "bufsize \<le> room \<Longrightarrow> bufsize < size_mod \<Longrightarrow> ostream_ok (pb_ostream_from_buffer room bufsize)"
  by (simp add: ostream_ok_def pb_ostream_from_buffer_def)

lemma ostream_ok_sizing [inv_intros]: "ostream_ok PB_OSTREAM_SIZING"
  by (simp add: ostream_ok_def PB_OSTREAM_SIZING_def)

lemma pb_oset_error_sel [simp]:
  "sink (pb_oset_error s m) = sink s"
  "max_size (pb_oset_error s m) = max_size s"
  "bytes_written (pb_oset_error s m) = bytes_written s"
  by (simp_all add: pb_oset_error_def)

lemma pb_oreturn_error_eq [simp]:
  "pb_oreturn_error s m = (r, s') \<longleftrightarrow> r = False \<and> s' = pb_oset_error s m"
  by (auto simp: pb_oreturn_error_def)

lemma ostream_ok_set_error [simp]: "ostream_ok (pb_oset_error s m) = ostream_ok s"
  by (simp add: ostream_ok_def split: sink.splits)

text \<open>The three outcomes of a write to a well-formed buffer stream, and to a sizing stream.\<close>

lemma pb_write_buf_full [stream_simps]:
  assumes "ostream_ok s" "sink s = Buf_write w room" "count < size_mod"
    and "bytes_written s + count > max_size s"
  shows "pb_write s buf count = (False, pb_oset_error s ''stream full'')"
proof -
  have "count > 0" using assms by (auto simp: ostream_ok_def)
  moreover have "(bytes_written s + count) mod size_mod < bytes_written s
      \<or> (bytes_written s + count) mod size_mod > max_size s"
  proof (cases "bytes_written s + count < size_mod")
    case True
    then show ?thesis using assms by simp
  next
    case False
    then have "(bytes_written s + count) mod size_mod = bytes_written s + count - size_mod"
      using assms by (intro mod_add_wrap) (auto simp: ostream_ok_def)
    moreover have "bytes_written s + count - size_mod < bytes_written s"
      using assms False by arith
    ultimately show ?thesis by simp
  qed
  ultimately show ?thesis using assms by (simp add: pb_write_def pb_oreturn_error_def)
qed

lemma pb_write_buf_fits [stream_simps]:
  assumes "ostream_ok s" "sink s = Buf_write w room" "count \<le> length buf"
    and "bytes_written s + count \<le> max_size s"
  shows "pb_write s buf count =
    (True, s\<lparr>sink := Buf_write (w @ take count buf) (room - count),
             bytes_written := bytes_written s + count\<rparr>)"
proof -
  have "(bytes_written s + count) mod size_mod = bytes_written s + count"
    using assms by (simp add: ostream_ok_def)
  moreover have "count \<le> room" using assms by (simp add: ostream_ok_def)
  ultimately show ?thesis using assms
    by (auto simp: pb_write_def buf_write_def min_def ostream_ok_def)
qed

lemma pb_write_sizing [stream_simps]:
  "sink s = Sizing \<Longrightarrow>
   pb_write s buf count = (True, s\<lparr>bytes_written := (bytes_written s + count) mod size_mod\<rparr>)"
  by (simp add: pb_write_def)

lemma pb_write_ok [inv_intros]:
  assumes "ostream_ok s" "count \<le> length buf" "count < size_mod"
  shows "ostream_ok (snd (pb_write s buf count))"
proof (cases "sink s")
  case Sizing
  then show ?thesis using assms by (simp add: pb_write_sizing ostream_ok_def)
next
  case (Buf_write w room)
  then show ?thesis
    using assms pb_write_buf_full [OF assms(1) Buf_write assms(3), of buf]
      pb_write_buf_fits [OF assms(1) Buf_write assms(2)]
    by (cases "bytes_written s + count \<le> max_size s") (auto simp: ostream_ok_def)
next
  case Write_wild
  then show ?thesis using assms by (simp add: ostream_ok_def)
next
  case (Write_cb f st)
  then show ?thesis using assms
    by (auto simp: pb_write_def ostream_ok_def pb_oreturn_error_def split: prod.splits bool.splits)
qed

text \<open>A failed write to a buffer leaves the bytes already written as they are.\<close>

lemma pb_write_buf_False:
  assumes "ostream_ok s" "sink s = Buf_write w room" "count \<le> length buf" "count < size_mod"
    and "pb_write s buf count = (False, s')"
  shows "sink s' = sink s \<and> bytes_written s' = bytes_written s"
  using assms pb_write_buf_full [OF assms(1,2,4), of buf] pb_write_buf_fits [OF assms(1,2,3)]
  by (cases "bytes_written s + count \<le> max_size s") auto

end
