(* ===== verification/Codec.thy ===== *)
theory Codec
  imports Prelude
begin

text \<open>
  The interface of a self-delimiting byte encoding: an encoder of values and a decoder
  that takes a value off the front of a byte list. The wire format of nanopb and the DER
  readers and writers of BoringSSL are instances; what follows from the round trip alone
  (unique decoding, sequences of values) is proved here once.
\<close>

text \<open>Decode a sequence of \<open>n\<close> values.\<close>

fun decode_many ::
  "(byte list \<Rightarrow> ('v \<times> byte list) option) \<Rightarrow> nat \<Rightarrow> byte list \<Rightarrow> ('v list \<times> byte list) option"
where
  "decode_many dec 0 bs = Some ([], bs)"
| "decode_many dec (Suc n) bs =
     (case dec bs of
        None \<Rightarrow> None
      | Some (v, rest) \<Rightarrow>
          (case decode_many dec n rest of
             None \<Rightarrow> None
           | Some (vs, rest') \<Rightarrow> Some (v # vs, rest')))"

locale codec =
  fixes enc :: "'v \<Rightarrow> byte list"
    and dec :: "byte list \<Rightarrow> ('v \<times> byte list) option"
    and valid :: "'v \<Rightarrow> bool"
  assumes dec_enc: "valid v \<Longrightarrow> dec (enc v @ rest) = Some (v, rest)"
begin

lemma enc_unique:
  assumes "valid v" "valid w" "enc v @ r = enc w @ r'"
  shows "v = w \<and> r = r'"
  using assms dec_enc [of v r] dec_enc [of w r'] by (metis option.inject prod.inject)

lemma enc_prefix_free: "valid v \<Longrightarrow> valid w \<Longrightarrow> enc v = enc w @ r \<Longrightarrow> r = []"
  using enc_unique [of v w "[]" r] by simp

lemma decode_many_enc:
  "list_all valid vs \<Longrightarrow>
   decode_many dec (length vs) (concat (map enc vs) @ rest) = Some (vs, rest)"
  by (induction vs) (auto simp: dec_enc)

lemma concat_enc_unique:
  assumes "list_all valid vs" "list_all valid ws" "length vs = length ws"
    and "concat (map enc vs) = concat (map enc ws)"
  shows "vs = ws"
  using decode_many_enc [OF assms(1), of "[]"] decode_many_enc [OF assms(2), of "[]"] assms(3,4)
  by (metis option.inject prod.inject)

end

text \<open>A canonical encoding: the decoder accepts nothing but encodings.\<close>

locale canonical_codec = codec +
  assumes dec_sound: "dec bs = Some (v, rest) \<Longrightarrow> valid v \<and> bs = enc v @ rest"
begin

lemma dec_iff: "dec bs = Some (v, rest) \<longleftrightarrow> valid v \<and> bs = enc v @ rest"
  using dec_sound dec_enc by blast

lemma decode_many_iff:
  "decode_many dec n bs = Some (vs, rest) \<longleftrightarrow>
   length vs = n \<and> list_all valid vs \<and> bs = concat (map enc vs) @ rest"
proof
  show "decode_many dec n bs = Some (vs, rest) \<Longrightarrow>
    length vs = n \<and> list_all valid vs \<and> bs = concat (map enc vs) @ rest"
  proof (induction n arbitrary: bs vs)
    case (Suc n)
    then obtain v r ws where "dec bs = Some (v, r)" "decode_many dec n r = Some (ws, rest)"
      and vs: "vs = v # ws"
      by (auto split: option.splits)
    with Suc.IH [of r ws] show ?case by (auto simp: dec_iff)
  qed simp
qed (auto simp: decode_many_enc)

end

end
