(* ===== verification/Pb_Wire.thy ===== *)
theory Pb_Wire
  imports Pb_Stream Codec
begin

text \<open>
  The protocol buffer wire format of nanopb: varints, zigzag varints, fixed-width
  integers, tags, length-delimited substreams and the skipping of unknown fields, as
  \<open>nanopb/pb_encode.c\<close> writes them and \<open>nanopb/pb_decode.c\<close> reads them.
\<close>

section \<open>Encoding\<close>

text \<open>
  The \<open>while (value)\<close> loop of \<open>pb_encode_varint\<close>: the bytes it stores into \<open>buffer\<close>.
  Lemma \<open>length_varint_loop\<close> shows that they fit into its ten bytes.
\<close>

function varint_loop :: "u64 \<Rightarrow> byte list" where
  "varint_loop value =
     (if value = 0 then []
      else (ucast (value AND 0x7F) OR 0x80) # varint_loop (drop_bit 7 value))"
  by pat_completeness auto
termination
proof (relation "measure unat", simp)
  fix v :: u64
  assume "v \<noteq> 0"
  then have "unat v > 0" by (simp add: unat_gt_0)
  then show "(drop_bit 7 v, v) \<in> measure unat"
    by (simp add: unat_drop_bit_word)
qed

declare varint_loop.simps [simp del]

definition varint_bytes :: "u64 \<Rightarrow> byte list" where
  "varint_bytes value =
     (let buffer = varint_loop value; i = length buffer
      in buffer[i - 1 := (buffer ! (i - 1)) AND 0x7F])"

definition pb_encode_varint :: "'s pb_ostream \<Rightarrow> u64 \<Rightarrow> bool \<times> 's pb_ostream" where
  "pb_encode_varint stream value =
     (if value \<le> 0x7F then pb_write stream [ucast value] 1
      else pb_write stream (varint_bytes value) (length (varint_bytes value)))"

definition pb_encode_svarint :: "'s pb_ostream \<Rightarrow> u64 \<Rightarrow> bool \<times> 's pb_ostream" where
  "pb_encode_svarint stream value =
     (let zigzagged = (if sint value < 0 then NOT (push_bit 1 value) else push_bit 1 value)
      in pb_encode_varint stream zigzagged)"

definition pb_encode_fixed32 :: "'s pb_ostream \<Rightarrow> u32 \<Rightarrow> bool \<times> 's pb_ostream" where
  "pb_encode_fixed32 stream val =
     pb_write stream
       [ucast (val AND 0xFF), ucast (drop_bit 8 val AND 0xFF),
        ucast (drop_bit 16 val AND 0xFF), ucast (drop_bit 24 val AND 0xFF)] 4"

definition pb_encode_fixed64 :: "'s pb_ostream \<Rightarrow> u64 \<Rightarrow> bool \<times> 's pb_ostream" where
  "pb_encode_fixed64 stream val =
     pb_write stream
       [ucast (val AND 0xFF), ucast (drop_bit 8 val AND 0xFF),
        ucast (drop_bit 16 val AND 0xFF), ucast (drop_bit 24 val AND 0xFF),
        ucast (drop_bit 32 val AND 0xFF), ucast (drop_bit 40 val AND 0xFF),
        ucast (drop_bit 48 val AND 0xFF), ucast (drop_bit 56 val AND 0xFF)] 8"

text \<open>The wire types of \<open>pb_wire_type_t\<close>; a decoded one is any number below 8.\<close>

abbreviation "PB_WT_VARINT \<equiv> 0 :: u32"
abbreviation "PB_WT_64BIT \<equiv> 1 :: u32"
abbreviation "PB_WT_STRING \<equiv> 2 :: u32"
abbreviation "PB_WT_32BIT \<equiv> 5 :: u32"

definition pb_encode_tag :: "'s pb_ostream \<Rightarrow> u32 \<Rightarrow> u32 \<Rightarrow> bool \<times> 's pb_ostream" where
  "pb_encode_tag stream wiretype field_number =
     (let tag = push_bit 3 (ucast field_number :: u64) OR ucast wiretype
      in pb_encode_varint stream tag)"

definition pb_encode_string ::
  "'s pb_ostream \<Rightarrow> byte list \<Rightarrow> nat \<Rightarrow> bool \<times> 's pb_ostream"
where
  "pb_encode_string stream buffer sz =
     (case pb_encode_varint stream (of_nat sz) of
        (False, stream') \<Rightarrow> (False, stream')
      | (True, stream') \<Rightarrow> pb_write stream' buffer sz)"

section \<open>Decoding\<close>

text \<open>
  The loop of \<open>pb_decode_varint32_eof\<close> for the bytes after the first: \<open>bitpos\<close> is a
  \<open>uint_fast8_t\<close>, so it is reduced modulo 256 when it is advanced.
\<close>

function varint32_loop :: "'s pb_istream \<Rightarrow> nat \<Rightarrow> u32 \<Rightarrow> u32 option \<times> 's pb_istream" where
  "varint32_loop stream bitpos result =
     (case pb_readbyte stream of
        (None, stream') \<Rightarrow> (None, stream')
      | (Some byte, stream') \<Rightarrow>
          (let sign_extension = (if bitpos < 63 then 0xFF else 0x01 :: byte) in
           if bitpos \<ge> 32 \<and> byte AND 0x7F \<noteq> 0
              \<and> (drop_bit 31 result = 0 \<or> byte \<noteq> sign_extension)
           then pb_return_error stream' ''varint overflow''
           else
             (let result' = (if bitpos \<ge> 32 then result
                             else result OR push_bit bitpos (ucast (byte AND 0x7F)));
                  bitpos' = (bitpos + 7) mod 256
              in if byte AND 0x80 \<noteq> 0 then varint32_loop stream' bitpos' result'
                 else if bitpos' = 35 \<and> byte AND 0x70 \<noteq> 0
                 then pb_return_error stream' ''varint overflow''
                 else (Some result', stream'))))"
  by pat_completeness auto
termination
  by (relation "measure (\<lambda>(stream, bitpos, result). bytes_left stream)")
    (auto dest: pb_readbyte_left [OF sym])

declare varint32_loop.simps [simp del]

text \<open>
  The second component says whether \<open>*eof = true\<close> was executed (when \<open>eof\<close> is not null).
\<close>

definition pb_decode_varint32_eof ::
  "'s pb_istream \<Rightarrow> u32 option \<times> bool \<times> 's pb_istream"
where
  "pb_decode_varint32_eof stream =
     (case pb_readbyte stream of
        (None, stream') \<Rightarrow> (None, bytes_left stream' = 0, stream')
      | (Some byte, stream') \<Rightarrow>
          (if byte AND 0x80 = 0 then (Some (ucast byte), False, stream')
           else (case varint32_loop stream' 7 (ucast (byte AND 0x7F)) of
                   (r, stream'') \<Rightarrow> (r, False, stream''))))"

definition pb_decode_varint32 :: "'s pb_istream \<Rightarrow> u32 option \<times> 's pb_istream" where
  "pb_decode_varint32 stream =
     (case pb_decode_varint32_eof stream of (r, eof, stream') \<Rightarrow> (r, stream'))"

function varint64_loop :: "'s pb_istream \<Rightarrow> nat \<Rightarrow> u64 \<Rightarrow> u64 option \<times> 's pb_istream" where
  "varint64_loop stream bitpos result =
     (if bitpos \<ge> 64 then pb_return_error stream ''varint overflow''
      else (case pb_readbyte stream of
              (None, stream') \<Rightarrow> (None, stream')
            | (Some byte, stream') \<Rightarrow>
                (let result' = result OR push_bit bitpos (ucast (byte AND 0x7F));
                     bitpos' = (bitpos + 7) mod 256
                 in if byte AND 0x80 \<noteq> 0 then varint64_loop stream' bitpos' result'
                    else (Some result', stream'))))"
  by pat_completeness auto
termination
  by (relation "measure (\<lambda>(stream, bitpos, result). bytes_left stream)")
    (auto dest: pb_readbyte_left [OF sym])

declare varint64_loop.simps [simp del]

definition pb_decode_varint :: "'s pb_istream \<Rightarrow> u64 option \<times> 's pb_istream" where
  "pb_decode_varint stream = varint64_loop stream 0 0"

text \<open>The value of a zigzag varint, as the word that represents the \<open>int64_t\<close>.\<close>

definition pb_decode_svarint :: "'s pb_istream \<Rightarrow> u64 option \<times> 's pb_istream" where
  "pb_decode_svarint stream =
     (case pb_decode_varint stream of
        (None, stream') \<Rightarrow> (None, stream')
      | (Some value, stream') \<Rightarrow>
          (Some (if value AND 1 \<noteq> 0 then NOT (drop_bit 1 value) else drop_bit 1 value),
           stream'))"

definition pb_decode_fixed32 :: "'s pb_istream \<Rightarrow> u32 option \<times> 's pb_istream" where
  "pb_decode_fixed32 stream =
     (case pb_read stream False 4 of
        (None, stream') \<Rightarrow> (None, stream')
      | (Some bytes, stream') \<Rightarrow>
          (Some (push_bit 0 (ucast (bytes ! 0)) OR push_bit 8 (ucast (bytes ! 1)) OR
                 push_bit 16 (ucast (bytes ! 2)) OR push_bit 24 (ucast (bytes ! 3))),
           stream'))"

definition pb_decode_fixed64 :: "'s pb_istream \<Rightarrow> u64 option \<times> 's pb_istream" where
  "pb_decode_fixed64 stream =
     (case pb_read stream False 8 of
        (None, stream') \<Rightarrow> (None, stream')
      | (Some bytes, stream') \<Rightarrow>
          (Some (push_bit 0 (ucast (bytes ! 0)) OR push_bit 8 (ucast (bytes ! 1)) OR
                 push_bit 16 (ucast (bytes ! 2)) OR push_bit 24 (ucast (bytes ! 3)) OR
                 push_bit 32 (ucast (bytes ! 4)) OR push_bit 40 (ucast (bytes ! 5)) OR
                 push_bit 48 (ucast (bytes ! 6)) OR push_bit 56 (ucast (bytes ! 7))),
           stream'))"

function pb_skip_varint :: "'s pb_istream \<Rightarrow> bool \<times> 's pb_istream" where
  "pb_skip_varint stream =
     (case pb_read stream False 1 of
        (None, stream') \<Rightarrow> (False, stream')
      | (Some d, stream') \<Rightarrow>
          (if hd d AND 0x80 \<noteq> 0 then pb_skip_varint stream' else (True, stream')))"
  by pat_completeness auto
termination
  by (relation "measure bytes_left") (auto dest: pb_read_left [OF sym])

declare pb_skip_varint.simps [simp del]

definition pb_skip_string :: "'s pb_istream \<Rightarrow> bool \<times> 's pb_istream" where
  "pb_skip_string stream =
     (case pb_decode_varint32 stream of
        (None, stream') \<Rightarrow> (False, stream')
      | (Some len, stream') \<Rightarrow>
          (case pb_read stream' True (unat len) of (r, stream'') \<Rightarrow> (r \<noteq> None, stream'')))"

text \<open>
  \<open>pb_decode_tag\<close> returns whether it succeeded and the values it leaves in \<open>*wire_type\<close>,
  \<open>*tag\<close> and \<open>*eof\<close>.
\<close>

definition pb_decode_tag ::
  "'s pb_istream \<Rightarrow> bool \<times> u32 \<times> u32 \<times> bool \<times> 's pb_istream"
where
  "pb_decode_tag stream =
     (case pb_decode_varint32_eof stream of
        (None, eof, stream') \<Rightarrow> (False, 0, 0, eof, stream')
      | (Some temp, eof, stream') \<Rightarrow>
          (if temp = 0 then (False, 0, 0, True, stream')
           else (True, temp AND 7, drop_bit 3 temp, False, stream')))"

definition pb_skip_field :: "'s pb_istream \<Rightarrow> u32 \<Rightarrow> bool \<times> 's pb_istream" where
  "pb_skip_field stream wire_type =
     (if wire_type = PB_WT_VARINT then pb_skip_varint stream
      else if wire_type = PB_WT_64BIT
      then (case pb_read stream True 8 of (r, stream') \<Rightarrow> (r \<noteq> None, stream'))
      else if wire_type = PB_WT_STRING then pb_skip_string stream
      else if wire_type = PB_WT_32BIT
      then (case pb_read stream True 4 of (r, stream') \<Rightarrow> (r \<noteq> None, stream'))
      else (False, pb_set_error stream ''invalid wire_type''))"

text \<open>
  \<open>read_raw_value\<close>: the bytes it puts into the caller's buffer, at most \<open>max_sz\<close> of
  them for a varint; the C leaves their number in \<open>*size\<close>.
\<close>

function read_raw_varint ::
  "'s pb_istream \<Rightarrow> byte list \<Rightarrow> nat \<Rightarrow> byte list option \<times> 's pb_istream"
where
  "read_raw_varint stream buf max_sz =
     (if length buf + 1 > max_sz then (None, stream)
      else (case pb_read stream False 1 of
              (None, stream') \<Rightarrow> (None, stream')
            | (Some d, stream') \<Rightarrow>
                (if hd d AND 0x80 \<noteq> 0 then read_raw_varint stream' (buf @ [hd d]) max_sz
                 else (Some (buf @ [hd d]), stream'))))"
  by pat_completeness auto
termination
  by (relation "measure (\<lambda>(stream, buf, max_sz). bytes_left stream)")
    (auto dest: pb_read_left [OF sym])

declare read_raw_varint.simps [simp del]

definition read_raw_value ::
  "'s pb_istream \<Rightarrow> u32 \<Rightarrow> nat \<Rightarrow> byte list option \<times> 's pb_istream"
where
  "read_raw_value stream wire_type max_sz =
     (if wire_type = PB_WT_VARINT then read_raw_varint stream [] max_sz
      else if wire_type = PB_WT_64BIT then pb_read stream False 8
      else if wire_type = PB_WT_32BIT then pb_read stream False 4
      else pb_return_error stream ''invalid wire_type'')"

text \<open>The result of \<open>pb_make_string_substream\<close> is the substream.\<close>

definition pb_make_string_substream ::
  "'s pb_istream \<Rightarrow> 's pb_istream option \<times> 's pb_istream"
where
  "pb_make_string_substream stream =
     (case pb_decode_varint32 stream of
        (None, stream') \<Rightarrow> (None, stream')
      | (Some sz, stream') \<Rightarrow>
          (if bytes_left stream' < unat sz
           then pb_return_error stream' ''parent stream too short''
           else (Some (stream'\<lparr>bytes_left := unat sz\<rparr>),
                 stream'\<lparr>bytes_left := bytes_left stream' - unat sz\<rparr>)))"

text \<open>Closing returns the flag, the parent stream and the substream.\<close>

definition pb_close_string_substream ::
  "'s pb_istream \<Rightarrow> 's pb_istream \<Rightarrow> bool \<times> 's pb_istream \<times> 's pb_istream"
where
  "pb_close_string_substream stream substream =
     (case (if bytes_left substream \<noteq> 0
            then pb_read substream True (bytes_left substream)
            else (Some [], substream)) of
        (None, substream') \<Rightarrow> (False, stream, substream')
      | (Some _, substream') \<Rightarrow>
          (True, stream\<lparr>source := source substream', ierrmsg := ierrmsg substream'\<rparr>,
           substream'))"

end
