(* ===== verification/Pb_Wire_Laws.thy ===== *)
theory Pb_Wire_Laws
  imports Pb_Wire
begin

text \<open>
  What the wire format of nanopb guarantees: every encoder writes a canonical byte
  sequence, every decoder reads it back and leaves the rest of the stream, skipping takes
  the same bytes off as decoding, and no operation reads outside the memory block of a
  buffer stream.
\<close>

section \<open>Varints\<close>

text \<open>
  The minimal base-128 encoding of a value, by recursion on the value: what the loop and
  the patch of the last byte compute.
\<close>

definition varint_more :: "u64 \<Rightarrow> byte" where
  "varint_more v = ucast (v AND 0x7F) OR 0x80"

lemma bit_varint_more: "bit (varint_more v) n \<longleftrightarrow> n < 8 \<and> (n < 7 \<and> bit v n \<or> n = 7)"
  by (auto simp: varint_more_def bit_simps)

lemma varint_more_low: "(ucast (varint_more v AND 0x7F) :: u64) = take_bit 7 v"
  by (rule bit_word_eqI) (auto simp: bit_varint_more bit_simps)

lemma varint_more_last: "v < 128 \<Longrightarrow> varint_more v AND 0x7F = ucast v"
  using bit_word_less [of v 7]
  by (intro bit_word_eqI) (auto simp: bit_varint_more bit_simps)

function varint_enc :: "u64 \<Rightarrow> byte list" where
  "varint_enc v = (if v < 128 then [ucast v] else varint_more v # varint_enc (drop_bit 7 v))"
  by pat_completeness auto
termination
proof (relation "measure unat", simp)
  fix v :: u64
  assume "\<not> v < 128"
  then have "unat v > 0" by (simp add: word_less_nat_alt)
  then show "(drop_bit 7 v, v) \<in> measure unat"
    by (simp add: unat_drop_bit_word)
qed

declare varint_enc.simps [simp del]

lemma drop_7_nonzero: "\<not> v < 128 \<Longrightarrow> drop_bit 7 (v::u64) \<noteq> 0"
  using unat_drop_bit_word [of 7 v] by (auto simp: word_less_nat_alt div_eq_0_iff)

lemma varint_bytes_enc:
  assumes "v \<noteq> 0"
  shows "varint_bytes v = varint_enc v"
  using assms
proof (induction v rule: varint_enc.induct)
  case (1 v)
  have loop: "varint_loop v = varint_more v # varint_loop (drop_bit 7 v)"
    using 1 by (subst varint_loop.simps) (simp add: varint_more_def)
  show ?case
  proof (cases "v < 128")
    case True
    then have "varint_loop (drop_bit 7 v) = []"
      using drop_bit_word_less [of v 7] by (simp add: varint_loop.simps)
    then show ?thesis
      using True loop varint_more_last by (simp add: varint_bytes_def varint_enc.simps [of v])
  next
    case False
    then have nz: "drop_bit 7 v \<noteq> 0" by (rule drop_7_nonzero)
    then have "varint_loop (drop_bit 7 v) \<noteq> []"
      by (subst varint_loop.simps) simp
    then have "varint_bytes v = varint_more v # varint_bytes (drop_bit 7 v)"
      by (cases "length (varint_loop (drop_bit 7 v))") (simp_all add: varint_bytes_def loop Let_def)
    then show ?thesis using False nz 1 by (simp add: varint_enc.simps [of v])
  qed
qed

text \<open>At most ten bytes: the loop stays inside the local array \<open>buffer\<close>.\<close>

lemma length_varint_enc_le:
  "unat v < 2 ^ (7 * k) \<Longrightarrow> k > 0 \<Longrightarrow> length (varint_enc v) \<le> k"
proof (induction k arbitrary: v)
  case (Suc k)
  show ?case
  proof (cases "v < 128")
    case True
    then show ?thesis by (simp add: varint_enc.simps [of v])
  next
    case False
    then have "k > 0" using Suc.prems by (cases k) (auto simp: word_less_nat_alt)
    moreover have "unat (drop_bit 7 v) < 2 ^ (7 * k)"
      using Suc.prems by (simp add: unat_drop_bit_word less_mult_imp_div_less power_add)
    ultimately show ?thesis
      using Suc.IH False by (simp add: varint_enc.simps [of v])
  qed
qed simp

lemma length_varint_enc: "length (varint_enc v) \<le> 10" and varint_enc_nonempty: "varint_enc v \<noteq> []"
proof -
  have "unat v < 2 ^ 64" using unsigned_less [of v] by simp
  also have "(2::nat) ^ 64 \<le> 2 ^ (7 * 10)" by (rule power_increasing) simp_all
  finally have "unat v < 2 ^ (7 * 10)" .
  then show "length (varint_enc v) \<le> 10" by (rule length_varint_enc_le) simp
  show "varint_enc v \<noteq> []" by (subst varint_enc.simps) simp
qed

lemma pb_encode_varint_enc:
  "pb_encode_varint s v = pb_write s (varint_enc v) (length (varint_enc v))"
proof (cases "v \<le> 0x7F")
  case True
  then have "v < 128" by (simp add: word_less_nat_alt word_le_nat_alt)
  then show ?thesis
    using True by (simp add: pb_encode_varint_def varint_enc.simps [of v])
next
  case False
  then have "v \<noteq> 0" by auto
  then show ?thesis using False by (simp add: pb_encode_varint_def varint_bytes_enc)
qed

text \<open>The decoding loop on an encoding, at any position of the accumulated value.\<close>

lemma varint64_loop_enc:
  assumes "k < 10" "unat v < 2 ^ (64 - 7 * k)" "length (varint_enc v) \<le> n"
  shows "varint64_loop (bufstream (varint_enc v @ rest) n e) (7 * k) acc =
    (Some (acc OR push_bit (7 * k) v), bufstream rest (n - length (varint_enc v)) e)"
  using assms
proof (induction v arbitrary: k n acc rule: varint_enc.induct)
  case (1 v)
  obtain m where n: "n = Suc m"
    using "1.prems"(3) varint_enc_nonempty [of v] by (cases n) auto
  show ?case
  proof (cases "v < 128")
    case True
    have "\<not> bit (ucast v :: byte) 7" using True bit_word_less [of v 7 7] by (auto simp: bit_simps)
    moreover have "(ucast ((ucast v :: byte) AND 0x7F) :: u64) = v"
      using True bit_word_less [of v 7] by (intro bit_word_eqI) (fastforce simp: bit_simps)
    ultimately show ?thesis
      using True "1.prems" n
      by (subst varint64_loop.simps) (simp add: varint_enc.simps [of v] stream_simps)
  next
    case False
    have k: "Suc k < 10"
    proof (rule ccontr)
      assume "\<not> Suc k < 10"
      then have "k = 9" using "1.prems"(1) by simp
      then show False using "1.prems"(2) False by (simp add: word_less_nat_alt)
    qed
    define j where "j = 57 - 7 * k"
    have j: "64 - 7 * k = 7 + j" "64 - 7 * Suc k = j" using k by (simp_all add: j_def)
    have less: "unat (drop_bit 7 v) < 2 ^ (64 - 7 * Suc k)"
      using "1.prems"(2) unfolding j
      by (simp add: unat_drop_bit_word less_mult_imp_div_less power_add)
    have len: "length (varint_enc (drop_bit 7 v)) \<le> m"
      using "1.prems"(3) False n by (simp add: varint_enc.simps [of v])
    note IH = "1.IH" [OF False k less len, of "acc OR push_bit (7 * k) (take_bit 7 v)"]
    have "(acc OR push_bit (7 * k) (take_bit 7 v)) OR push_bit (7 * Suc k) (drop_bit 7 v)
        = acc OR push_bit (7 * k) v"
      using push_bit_split [of acc "7 * k" 7 v] by (simp add: add.commute)
    moreover have "(7 * k + 7) mod 256 = 7 * Suc k" using k by simp
    ultimately show ?thesis
      using IH False n k
      by (subst varint64_loop.simps)
        (simp add: varint_enc.simps [of v] stream_simps varint_more_low bit_varint_more
          del: mult_Suc_right)
  qed
qed

lemma pb_decode_varint_enc [stream_simps]:
  assumes "length (varint_enc v) \<le> n"
  shows "pb_decode_varint (bufstream (varint_enc v @ rest) n e) =
    (Some v, bufstream rest (n - length (varint_enc v)) e)"
proof -
  have "unat v < 2 ^ (64 - 7 * 0)" using unsigned_less [of v] by simp
  from varint64_loop_enc [OF _ this assms, of rest e 0] show ?thesis
    by (simp add: pb_decode_varint_def)
qed

lemma varint_enc_32:
  assumes "unat v < 2 ^ 32" shows "length (varint_enc v) \<le> 5"
proof -
  have "unat v < 2 ^ (7 * 5)" using assms by simp
  then show ?thesis by (rule length_varint_enc_le) simp
qed

lemma bit_70 [simp]:
  "bit (0x70 :: 'a::ring_bit_operations) n \<longleftrightarrow> possible_bit TYPE('a) n \<and> 4 \<le> n \<and> n < 7"
proof -
  have "(0x70 :: 'a) = push_bit 4 (mask 3)" by (simp add: mask_eq_exp_minus_1 push_bit_eq_mult)
  then show ?thesis by (simp only: bit_simps) (auto intro: possible_bit_less_imp)
qed

lemma varint32_loop_enc:
  assumes "0 < k" "k < 5" "unat v < 2 ^ (32 - 7 * k)" "length (varint_enc v) \<le> n"
  shows "varint32_loop (bufstream (varint_enc v @ rest) n e) (7 * k) acc =
    (Some (acc OR push_bit (7 * k) (ucast v)), bufstream rest (n - length (varint_enc v)) e)"
  using assms
proof (induction v arbitrary: k n acc rule: varint_enc.induct)
  case (1 v)
  obtain m where n: "n = Suc m"
    using "1.prems"(4) varint_enc_nonempty [of v] by (cases n) auto
  have mod: "(7 * k + 7) mod 256 = 7 * Suc k" using "1.prems"(2) by simp
  have k32: "\<not> 32 \<le> 7 * k" using "1.prems"(2) by simp
  show ?case
  proof (cases "v < 128")
    case True
    have b7: "\<not> bit (ucast v :: byte) 7" using True bit_word_less [of v 7 7] by (auto simp: bit_simps)
    have uc: "(ucast ((ucast v :: byte) AND 0x7F) :: u32) = ucast v"
      using True bit_word_less [of v 7] by (intro bit_word_eqI) (fastforce simp: bit_simps)
    have "7 * Suc k = 35 \<Longrightarrow> (ucast v :: byte) AND 0x70 = 0"
    proof -
      assume "7 * Suc k = 35"
      then have "k = 4" by simp
      then have "v < 2 ^ 4" using "1.prems"(3) by (simp add: word_less_nat_alt)
      then show ?thesis
        using bit_word_less [of v 4] by (intro bit_word_eqI) (fastforce simp: bit_simps)
    qed
    then show ?thesis
      using True "1.prems" n b7 uc mod k32
      by (subst varint32_loop.simps)
        (simp add: varint_enc.simps [of v] stream_simps del: mult_Suc_right)
  next
    case False
    have k: "Suc k < 5"
    proof (rule ccontr)
      assume "\<not> Suc k < 5"
      then have "k = 4" using "1.prems"(2) by simp
      then show False using "1.prems"(3) False by (simp add: word_less_nat_alt)
    qed
    define j where "j = 25 - 7 * k"
    have j: "32 - 7 * k = 7 + j" "32 - 7 * Suc k = j" using k by (simp_all add: j_def)
    have less: "unat (drop_bit 7 v) < 2 ^ (32 - 7 * Suc k)"
      using "1.prems"(3) unfolding j
      by (simp add: unat_drop_bit_word less_mult_imp_div_less power_add)
    have len: "length (varint_enc (drop_bit 7 v)) \<le> m"
      using "1.prems"(4) False n by (simp add: varint_enc.simps [of v])
    note IH = "1.IH" [OF False _ k less len, of "acc OR push_bit (7 * k) (take_bit 7 (ucast v))"]
    have uc: "push_bit (7 * Suc k) (ucast (drop_bit 7 v) :: u32)
        = push_bit (7 * Suc k) (drop_bit 7 (ucast v))"
      by (rule bit_word_eqI) (auto simp: bit_simps)
    have "(acc OR push_bit (7 * k) (take_bit 7 (ucast v))) OR push_bit (7 * Suc k) (ucast (drop_bit 7 v))
        = acc OR push_bit (7 * k) (ucast v)"
      using push_bit_split [of acc "7 * k" 7 "ucast v"] uc by (simp add: add.commute)
    moreover have "(ucast (varint_more v AND 0x7F) :: u32) = take_bit 7 (ucast v)"
      by (rule bit_word_eqI) (auto simp: bit_varint_more bit_simps)
    ultimately show ?thesis
      using IH False n k mod k32
      by (subst varint32_loop.simps)
        (simp add: varint_enc.simps [of v] stream_simps bit_varint_more
          del: mult_Suc_right)
  qed
qed


lemma pb_decode_varint32_eof_enc [stream_simps]:
  assumes "unat v < 2 ^ 32" "length (varint_enc v) \<le> n"
  shows "pb_decode_varint32_eof (bufstream (varint_enc v @ rest) n e) =
    (Some (ucast v), False, bufstream rest (n - length (varint_enc v)) e)"
proof -
  obtain m where n: "n = Suc m"
    using assms(2) varint_enc_nonempty [of v] by (cases n) auto
  show ?thesis
  proof (cases "v < 128")
    case True
    have "\<not> bit (ucast v :: byte) 7"
      using True bit_word_less [of v 7 7] by (auto simp: bit_simps)
    moreover have "(ucast (ucast v :: byte) :: u32) = ucast v"
      using True bit_word_less [of v 7] by (intro bit_word_eqI) (fastforce simp: bit_simps)
    ultimately show ?thesis
      using True n by (simp add: pb_decode_varint32_eof_def varint_enc.simps [of v] stream_simps)
  next
    case False
    have less: "unat (drop_bit 7 v) < 2 ^ (32 - 7 * 1)"
      using assms(1) by (simp add: unat_drop_bit_word)
    have len: "length (varint_enc (drop_bit 7 v)) \<le> m"
      using assms(2) False n by (simp add: varint_enc.simps [of v])
    note loop = varint32_loop_enc [where k = 1, OF _ _ less len, simplified]
    have "(ucast (varint_more v AND 0x7F) :: u32) = take_bit 7 (ucast v)"
      by (rule bit_word_eqI) (auto simp: bit_varint_more bit_simps)
    moreover have "take_bit 7 (ucast v) OR push_bit 7 (ucast (drop_bit 7 v)) = (ucast v :: u32)"
      by (rule bit_word_eqI) (auto simp: bit_simps)
    ultimately show ?thesis
      using False n
      by (simp add: loop pb_decode_varint32_eof_def varint_enc.simps [of v] stream_simps bit_varint_more)
  qed
qed

lemma pb_decode_varint32_enc [stream_simps]:
  assumes "unat v < 2 ^ 32" "length (varint_enc v) \<le> n"
  shows "pb_decode_varint32 (bufstream (varint_enc v @ rest) n e) =
    (Some (ucast v), bufstream rest (n - length (varint_enc v)) e)"
  using assms by (simp add: pb_decode_varint32_def stream_simps)

section \<open>Zigzag varints and fixed-width integers\<close>

definition zigzag :: "u64 \<Rightarrow> u64" where
  "zigzag v = (if sint v < 0 then NOT (push_bit 1 v) else push_bit 1 v)"

lemma pb_encode_svarint_enc: "pb_encode_svarint s v = pb_encode_varint s (zigzag v)"
  by (simp add: pb_encode_svarint_def zigzag_def)

lemma unzigzag:
  "(if zigzag v AND 1 \<noteq> 0 then NOT (drop_bit 1 (zigzag v)) else drop_bit 1 (zigzag v)) = v"
proof -
  have neg: "sint v < 0 \<longleftrightarrow> bit v 63" using bit_last_iff [of v] by simp
  have one: "x AND 1 \<noteq> 0 \<longleftrightarrow> bit x 0" for x :: u64
    by (simp add: bit_0 and_one_eq odd_iff_mod_2_eq_one)
  show ?thesis
  proof (cases "bit v 63")
    case True
    have "NOT (drop_bit 1 (NOT (push_bit 1 v))) = v"
    proof (rule bit_word_eqI)
      fix n
      assume "n < LENGTH(64)"
      then show "bit (NOT (drop_bit 1 (NOT (push_bit 1 v)))) n = bit v n"
        using True by (cases "n = 63") (auto simp: bit_simps simp del: push_bit_Suc drop_bit_Suc)
    qed
    then show ?thesis unfolding zigzag_def one neg using True by (simp add: bit_simps del: push_bit_Suc drop_bit_Suc)
  next
    case False
    have "drop_bit 1 (push_bit 1 v) = v"
    proof (rule bit_word_eqI)
      fix n
      assume "n < LENGTH(64)"
      then show "bit (drop_bit 1 (push_bit 1 v)) n = bit v n"
        using False by (cases "n = 63") (auto simp: bit_simps simp del: push_bit_Suc drop_bit_Suc)
    qed
    then show ?thesis unfolding zigzag_def one neg using False by (simp add: bit_simps del: push_bit_Suc drop_bit_Suc)
  qed
qed

lemma pb_decode_svarint_enc [stream_simps]:
  assumes "length (varint_enc (zigzag v)) \<le> n"
  shows "pb_decode_svarint (bufstream (varint_enc (zigzag v) @ rest) n e) =
    (Some v, bufstream rest (n - length (varint_enc (zigzag v))) e)"
  using assms unzigzag [of v] by (simp add: pb_decode_svarint_def stream_simps)

definition fixed32_enc :: "u32 \<Rightarrow> byte list" where
  "fixed32_enc v = [ucast (v AND 0xFF), ucast (drop_bit 8 v AND 0xFF),
     ucast (drop_bit 16 v AND 0xFF), ucast (drop_bit 24 v AND 0xFF)]"

definition fixed64_enc :: "u64 \<Rightarrow> byte list" where
  "fixed64_enc v = [ucast (v AND 0xFF), ucast (drop_bit 8 v AND 0xFF),
     ucast (drop_bit 16 v AND 0xFF), ucast (drop_bit 24 v AND 0xFF),
     ucast (drop_bit 32 v AND 0xFF), ucast (drop_bit 40 v AND 0xFF),
     ucast (drop_bit 48 v AND 0xFF), ucast (drop_bit 56 v AND 0xFF)]"

lemma length_fixed_enc [simp]: "length (fixed32_enc v) = 4" "length (fixed64_enc w) = 8"
  by (simp_all add: fixed32_enc_def fixed64_enc_def)

lemma pb_encode_fixed32_enc: "pb_encode_fixed32 s v = pb_write s (fixed32_enc v) 4"
  by (simp add: pb_encode_fixed32_def fixed32_enc_def)

lemma pb_encode_fixed64_enc: "pb_encode_fixed64 s v = pb_write s (fixed64_enc v) 8"
  by (simp add: pb_encode_fixed64_def fixed64_enc_def)

lemma fixed32_enc_bytes: "fixed32_enc v = le_bytes 4 v"
  by (simp add: fixed32_enc_def)

lemma fixed32_value:
  "push_bit 0 (ucast (fixed32_enc v ! 0)) OR push_bit 8 (ucast (fixed32_enc v ! 1)) OR
   push_bit 16 (ucast (fixed32_enc v ! 2)) OR push_bit 24 (ucast (fixed32_enc v ! 3)) = v"
  using le_val_le_bytes [of 4 v]
  by (simp add: fixed32_enc_bytes push_bit_or take_bit_word_eq_self)

lemma pb_decode_fixed32_enc [stream_simps]:
  assumes "4 \<le> n"
  shows "pb_decode_fixed32 (bufstream (fixed32_enc v @ rest) n e) = (Some v, bufstream rest (n - 4) e)"
  using assms fixed32_value [of v] by (simp add: pb_decode_fixed32_def stream_simps)

lemma fixed64_enc_bytes: "fixed64_enc v = le_bytes 8 v"
  by (simp add: fixed64_enc_def)

lemma fixed64_value:
  "push_bit 0 (ucast (fixed64_enc v ! 0)) OR push_bit 8 (ucast (fixed64_enc v ! 1)) OR
   push_bit 16 (ucast (fixed64_enc v ! 2)) OR push_bit 24 (ucast (fixed64_enc v ! 3)) OR
   push_bit 32 (ucast (fixed64_enc v ! 4)) OR push_bit 40 (ucast (fixed64_enc v ! 5)) OR
   push_bit 48 (ucast (fixed64_enc v ! 6)) OR push_bit 56 (ucast (fixed64_enc v ! 7)) = v"
  using le_val_le_bytes [of 8 v]
  by (simp add: fixed64_enc_bytes push_bit_or take_bit_word_eq_self)

lemma pb_decode_fixed64_enc [stream_simps]:
  assumes "8 \<le> n"
  shows "pb_decode_fixed64 (bufstream (fixed64_enc v @ rest) n e) = (Some v, bufstream rest (n - 8) e)"
  using assms fixed64_value [of v] by (simp add: pb_decode_fixed64_def stream_simps)

section \<open>Tags\<close>

definition tag_word :: "u32 \<Rightarrow> u32 \<Rightarrow> u64" where
  "tag_word wiretype field_number = push_bit 3 (ucast field_number) OR ucast wiretype"

lemma pb_encode_tag_enc:
  "pb_encode_tag s wiretype field_number = pb_encode_varint s (tag_word wiretype field_number)"
  by (simp add: pb_encode_tag_def tag_word_def)

lemma bit_7 [simp]:
  "bit (7 :: 'a::ring_bit_operations) n \<longleftrightarrow> possible_bit TYPE('a) n \<and> n < 3"
proof -
  have "(7 :: 'a) = mask 3" by (simp add: mask_eq_exp_minus_1)
  then show ?thesis by (simp only: bit_simps)
qed

lemma tag_word_fields:
  assumes "wiretype < 8" "field_number < 2 ^ 29"
  shows "(ucast (tag_word wiretype field_number) :: u32) AND 7 = wiretype"
    and "drop_bit 3 (ucast (tag_word wiretype field_number) :: u32) = field_number"
    and "unat (tag_word wiretype field_number) < 2 ^ 32"
proof -
  have w: "bit wiretype n \<Longrightarrow> n < 3" and f: "bit field_number n \<Longrightarrow> n < 29" for n
    using bit_word_less [of wiretype 3] bit_word_less [of field_number 29] assms by auto
  show "(ucast (tag_word wiretype field_number) :: u32) AND 7 = wiretype"
    by (rule bit_word_eqI) (auto simp: tag_word_def bit_simps dest: w)
  show "drop_bit 3 (ucast (tag_word wiretype field_number) :: u32) = field_number"
    by (rule bit_word_eqI) (auto simp: tag_word_def bit_simps dest: w f)
  have "drop_bit 32 (tag_word wiretype field_number) = 0"
    by (rule bit_word_eqI) (auto simp: tag_word_def bit_simps dest: w f)
  then have "unat (tag_word wiretype field_number) div 2 ^ 32 = 0"
    by (metis unat_0 unat_drop_bit_word)
  then show "unat (tag_word wiretype field_number) < 2 ^ 32"
    by (simp add: div_eq_0_iff)
qed

lemma pb_decode_tag_enc [stream_simps]:
  assumes "wiretype < 8" "field_number < 2 ^ 29" "field_number \<noteq> 0"
    and "length (varint_enc (tag_word wiretype field_number)) \<le> n"
  shows "pb_decode_tag (bufstream (varint_enc (tag_word wiretype field_number) @ rest) n e) =
    (True, wiretype, field_number, False,
     bufstream rest (n - length (varint_enc (tag_word wiretype field_number))) e)"
proof -
  note fields = tag_word_fields [OF assms(1,2)]
  have "(ucast (tag_word wiretype field_number) :: u32) \<noteq> 0"
    using fields(2) assms(3) by auto
  then show ?thesis
    using assms fields by (simp add: pb_decode_tag_def stream_simps)
qed

section \<open>Emitting bytes\<close>

text \<open>
  \<open>emits f bs\<close>: on every well-formed buffer stream with room for \<open>bs\<close>, and on every sizing
  stream, the operation \<open>f\<close> succeeds and adds exactly the bytes \<open>bs\<close>; on a buffer stream
  without the room it fails.
\<close>

definition emits :: "('s pb_ostream \<Rightarrow> bool \<times> 's pb_ostream) \<Rightarrow> byte list \<Rightarrow> bool" where
  "emits f bs \<longleftrightarrow>
     (\<forall>s w room. ostream_ok s \<longrightarrow> sink s = Buf_write w room \<longrightarrow>
        (if bytes_written s + length bs \<le> max_size s
         then f s = (True, s\<lparr>sink := Buf_write (w @ bs) (room - length bs),
                            bytes_written := bytes_written s + length bs\<rparr>)
         else \<not> fst (f s))) \<and>
     (\<forall>s. sink s = Sizing \<longrightarrow>
        f s = (True, s\<lparr>bytes_written := (bytes_written s + length bs) mod size_mod\<rparr>))"

lemma emitsD_buf:
  assumes "emits f bs" "ostream_ok s" "sink s = Buf_write w room"
    and "bytes_written s + length bs \<le> max_size s"
  shows "f s = (True, s\<lparr>sink := Buf_write (w @ bs) (room - length bs),
                       bytes_written := bytes_written s + length bs\<rparr>)"
  using assms by (simp add: emits_def)

lemma emitsD_full:
  assumes "emits f bs" "ostream_ok s" "sink s = Buf_write w room"
    and "max_size s < bytes_written s + length bs"
  shows "\<not> fst (f s)"
proof -
  have "\<not> bytes_written s + length bs \<le> max_size s" using assms(4) by simp
  then show ?thesis using assms(1-3) unfolding emits_def by metis
qed

lemma emitsD_sizing:
  "emits f bs \<Longrightarrow> sink s = Sizing \<Longrightarrow>
   f s = (True, s\<lparr>bytes_written := (bytes_written s + length bs) mod size_mod\<rparr>)"
  by (simp add: emits_def)

lemma emits_write:
  assumes "n \<le> length bs" "n < size_mod"
  shows "emits (\<lambda>s :: 's pb_ostream. pb_write s bs n) (take n bs)"
  unfolding emits_def
proof (intro conjI allI impI)
  fix s :: "'s pb_ostream" and w room
  assume s: "ostream_ok s" "sink s = Buf_write w room"
  have len: "length (take n bs) = n" using assms(1) by simp
  show "if bytes_written s + length (take n bs) \<le> max_size s
    then pb_write s bs n = (True, s\<lparr>sink := Buf_write (w @ take n bs) (room - length (take n bs)),
                            bytes_written := bytes_written s + length (take n bs)\<rparr>)
    else \<not> fst (pb_write s bs n)"
    unfolding len
    using pb_write_buf_fits [OF s assms(1)] pb_write_buf_full [OF s assms(2), of bs] by simp
next
  fix s :: "'s pb_ostream"
  assume "sink s = Sizing"
  then show "pb_write s bs n =
      (True, s\<lparr>bytes_written := (bytes_written s + length (take n bs)) mod size_mod\<rparr>)"
    using assms by (simp add: pb_write_sizing)
qed

lemma ostream_ok_emit:
  assumes "ostream_ok s" "sink s = Buf_write w room" "bytes_written s + n \<le> max_size s"
  shows "ostream_ok (s\<lparr>sink := Buf_write (w @ bs) (room - n), bytes_written := bytes_written s + n\<rparr>)"
  using assms by (simp add: ostream_ok_def)

lemma emits_seq:
  fixes f g :: "'s pb_ostream \<Rightarrow> bool \<times> 's pb_ostream"
  assumes f: "emits f bs" and g: "emits g cs"
  shows "emits (\<lambda>s. case f s of (False, s') \<Rightarrow> (False, s') | (True, s') \<Rightarrow> g s') (bs @ cs)"
  unfolding emits_def
proof (intro conjI allI impI)
  fix s :: "'s pb_ostream" and w room
  assume s: "ostream_ok s" "sink s = Buf_write w room"
  let ?h = "case f s of (False, s') \<Rightarrow> (False, s') | (True, s') \<Rightarrow> g s'"
  show "if bytes_written s + length (bs @ cs) \<le> max_size s
    then ?h = (True, s\<lparr>sink := Buf_write (w @ bs @ cs) (room - length (bs @ cs)),
                      bytes_written := bytes_written s + length (bs @ cs)\<rparr>)
    else \<not> fst ?h"
  proof (cases "bytes_written s + length bs \<le> max_size s")
    case True
    note fs = emitsD_buf [OF f s True]
    note ok = ostream_ok_emit [OF s True, of bs]
    show ?thesis
      using fs emitsD_buf [OF g ok] emitsD_full [OF g ok] by (simp add: add.assoc)
  next
    case False
    then show ?thesis
      using emitsD_full [OF f s] by (auto split: prod.splits bool.splits)
  qed
next
  fix s :: "'s pb_ostream"
  assume s: "sink s = Sizing"
  show "(case f s of (False, s') \<Rightarrow> (False, s') | (True, s') \<Rightarrow> g s') =
      (True, s\<lparr>bytes_written := (bytes_written s + length (bs @ cs)) mod size_mod\<rparr>)"
    using s emitsD_sizing [OF f s] emitsD_sizing [OF g, of "s\<lparr>bytes_written := _\<rparr>"]
    by (simp add: mod_add_left_eq add.assoc)
qed

lemma emits_varint: "emits (\<lambda>s. pb_encode_varint s v) (varint_enc v)"
  using emits_write [of "length (varint_enc v)" "varint_enc v"] length_varint_enc [of v]
  by (simp add: pb_encode_varint_enc)

lemma emits_svarint: "emits (\<lambda>s. pb_encode_svarint s v) (varint_enc (zigzag v))"
  using emits_varint by (simp add: pb_encode_svarint_enc)

lemma emits_fixed32: "emits (\<lambda>s. pb_encode_fixed32 s v) (fixed32_enc v)"
  using emits_write [of 4 "fixed32_enc v"] by (simp add: pb_encode_fixed32_enc)

lemma emits_fixed64: "emits (\<lambda>s. pb_encode_fixed64 s v) (fixed64_enc v)"
  using emits_write [of 8 "fixed64_enc v"] by (simp add: pb_encode_fixed64_enc)

lemma emits_tag: "emits (\<lambda>s. pb_encode_tag s wt f) (varint_enc (tag_word wt f))"
  using emits_varint by (simp add: pb_encode_tag_enc)

lemma emits_string:
  assumes "sz \<le> length buf" "sz < size_mod"
  shows "emits (\<lambda>s. pb_encode_string s buf sz) (varint_enc (of_nat sz) @ take sz buf)"
  unfolding pb_encode_string_def by (intro emits_seq emits_varint emits_write assms)

section \<open>Memory safety of the decoders\<close>

lemma varint64_loop_ok [inv_intros]:
  "istream_margin m s \<Longrightarrow> istream_margin m (snd (varint64_loop s p r))"
proof (induction s p r rule: varint64_loop.induct)
  case (1 s p r)
  show ?case
    using "1.prems" "1.IH" pb_readbyte_ok [OF "1.prems"]
    by (subst varint64_loop.simps) (auto simp: Let_def split: prod.splits option.splits)
qed

lemma varint32_loop_ok [inv_intros]:
  "istream_margin m s \<Longrightarrow> istream_margin m (snd (varint32_loop s p r))"
proof (induction s p r rule: varint32_loop.induct)
  case (1 s p r)
  show ?case
    using "1.IH" pb_readbyte_ok [OF "1.prems"]
    by (subst varint32_loop.simps) (auto simp: Let_def split: prod.splits option.splits)
qed

lemma pb_decode_varint_ok [inv_intros]:
  "istream_margin m s \<Longrightarrow> istream_margin m (snd (pb_decode_varint s))"
  by (simp add: pb_decode_varint_def inv_intros)

lemma pb_decode_varint32_eof_ok [inv_intros]:
  "istream_margin m s \<Longrightarrow> istream_margin m (snd (snd (pb_decode_varint32_eof s)))"
  using pb_readbyte_ok [of m s] varint32_loop_ok [of m "snd (pb_readbyte s)"]
  by (auto simp: pb_decode_varint32_eof_def split: prod.splits option.splits) (metis snd_conv)

lemma pb_decode_varint32_ok [inv_intros]:
  "istream_margin m s \<Longrightarrow> istream_margin m (snd (pb_decode_varint32 s))"
  using pb_decode_varint32_eof_ok [of m s]
  by (auto simp: pb_decode_varint32_def split: prod.splits)

lemma pb_decode_svarint_ok [inv_intros]:
  "istream_margin m s \<Longrightarrow> istream_margin m (snd (pb_decode_svarint s))"
  using pb_decode_varint_ok [of m s]
  by (auto simp: pb_decode_svarint_def split: prod.splits option.splits)

lemma pb_decode_fixed_ok [inv_intros]:
  "istream_margin m s \<Longrightarrow> istream_margin m (snd (pb_decode_fixed32 s))"
  "istream_margin m s \<Longrightarrow> istream_margin m (snd (pb_decode_fixed64 s))"
  using pb_read_ok [of m s False]
  by (auto simp: pb_decode_fixed32_def pb_decode_fixed64_def split: prod.splits option.splits)
    (metis snd_conv)+

lemma pb_skip_varint_ok [inv_intros]:
  "istream_margin m s \<Longrightarrow> istream_margin m (snd (pb_skip_varint s))"
proof (induction s rule: pb_skip_varint.induct)
  case (1 s)
  show ?case
    using "1.IH" pb_read_ok [OF "1.prems", of False 1]
    by (subst pb_skip_varint.simps) (auto split: prod.splits option.splits)
qed

lemma pb_skip_string_ok [inv_intros]:
  "istream_margin m s \<Longrightarrow> istream_margin m (snd (pb_skip_string s))"
  using pb_decode_varint32_ok [of m s] pb_read_ok [of m "snd (pb_decode_varint32 s)"]
  by (auto simp: pb_skip_string_def split: prod.splits option.splits) (metis snd_conv)

lemma pb_skip_field_ok [inv_intros]:
  "istream_margin m s \<Longrightarrow> istream_margin m (snd (pb_skip_field s wt))"
  using pb_skip_varint_ok [of m s] pb_skip_string_ok [of m s] pb_read_ok [of m s True]
  by (auto simp: pb_skip_field_def split: prod.splits) (metis snd_conv)+

lemma pb_decode_tag_ok [inv_intros]:
  "istream_margin m s \<Longrightarrow> istream_margin m (snd (snd (snd (snd (pb_decode_tag s)))))"
  using pb_decode_varint32_eof_ok [of m s]
  by (auto simp: pb_decode_tag_def split: prod.splits option.splits)

lemma read_raw_varint_ok [inv_intros]:
  "istream_margin m s \<Longrightarrow> istream_margin m (snd (read_raw_varint s buf mx))"
proof (induction s buf mx rule: read_raw_varint.induct)
  case (1 s buf mx)
  show ?case
    using "1.prems" "1.IH" pb_read_ok [OF "1.prems", of False 1]
    by (subst read_raw_varint.simps) (auto split: prod.splits option.splits)
qed

lemma read_raw_value_ok [inv_intros]:
  "istream_margin m s \<Longrightarrow> istream_margin m (snd (read_raw_value s wt mx))"
  by (simp add: read_raw_value_def inv_intros)

text \<open>The caller's buffer of \<open>read_raw_value\<close> never overflows.\<close>

lemma read_raw_varint_length:
  "read_raw_varint s buf mx = (Some d, s') \<Longrightarrow> length d \<le> mx"
proof (induction s buf mx arbitrary: d s' rule: read_raw_varint.induct)
  case (1 s buf mx)
  show ?case
    using "1.prems" "1.IH"
    by (subst (asm) read_raw_varint.simps)
      (fastforce split: if_splits prod.splits option.splits)
qed

text \<open>
  A substream keeps the parent's part of the block as its margin; closing it gives the
  parent back a state pointer behind the substream.
\<close>

lemma pb_make_string_substream_ok:
  assumes "istream_margin m s" "pb_make_string_substream s = (Some sub, s')"
  shows "istream_margin (m + bytes_left s') sub" and "istream_margin m s'"
  using assms pb_decode_varint32_ok [OF assms(1)]
  by (auto simp: pb_make_string_substream_def istream_margin_def
      split: prod.splits option.splits if_splits source.splits)

lemma pb_make_string_substream_None_ok:
  assumes "istream_margin m s" "pb_make_string_substream s = (None, s')"
  shows "istream_margin m s'"
  using assms pb_decode_varint32_ok [OF assms(1)]
  by (auto simp: pb_make_string_substream_def split: prod.splits option.splits if_splits)

lemma pb_close_string_substream_ok:
  assumes sub: "istream_margin (m + bytes_left s) sub"
    and close: "pb_close_string_substream s sub = (True, s', sub')"
  shows "istream_margin m s'"
proof -
  define r :: "byte list option \<times> 'a pb_istream"
    where "r = (if bytes_left sub \<noteq> 0 then pb_read sub True (bytes_left sub) else (Some [], sub))"
  have "istream_margin (m + bytes_left s) (snd r)"
    using sub pb_read_ok [OF sub] by (simp add: r_def)
  moreover obtain d where "r = (Some d, sub')" "s' = s\<lparr>source := source sub', ierrmsg := ierrmsg sub'\<rparr>"
    using close unfolding pb_close_string_substream_def r_def [symmetric]
    by (auto split: prod.splits option.splits)
  ultimately show ?thesis by (auto simp: istream_margin_def split: source.splits)
qed

section \<open>Skipping\<close>

text \<open>The value part of a field as the encoder writes it, for each wire type.\<close>

datatype wire_value = WVarint u64 | W64 u64 | WString "byte list" | W32 u32

fun wire_type_of :: "wire_value \<Rightarrow> u32" where
  "wire_type_of (WVarint v) = PB_WT_VARINT"
| "wire_type_of (W64 v) = PB_WT_64BIT"
| "wire_type_of (WString d) = PB_WT_STRING"
| "wire_type_of (W32 v) = PB_WT_32BIT"

fun wire_enc :: "wire_value \<Rightarrow> byte list" where
  "wire_enc (WVarint v) = varint_enc v"
| "wire_enc (W64 v) = fixed64_enc v"
| "wire_enc (WString d) = varint_enc (of_nat (length d)) @ d"
| "wire_enc (W32 v) = fixed32_enc v"

fun wire_ok :: "wire_value \<Rightarrow> bool" where
  "wire_ok (WString d) = (length d < 2 ^ 32)"
| "wire_ok _ = True"

lemma pb_skip_varint_enc [stream_simps]:
  "length (varint_enc v) \<le> n \<Longrightarrow>
   pb_skip_varint (bufstream (varint_enc v @ rest) n e) =
     (True, bufstream rest (n - length (varint_enc v)) e)"
proof (induction v arbitrary: n rule: varint_enc.induct)
  case (1 v)
  obtain m where n: "n = Suc m"
    using "1.prems" varint_enc_nonempty [of v] by (cases n) auto
  have rd: "pb_read (bufstream (b # bs) (Suc m) e) False (Suc 0) = (Some [b], bufstream bs m e)"
    for b bs
    by (simp add: pb_read_def pb_read_buf_def buf_read_def)
  show ?case
  proof (cases "v < 128")
    case True
    have "\<not> bit (ucast v :: byte) 7" using True bit_word_less [of v 7 7] by (auto simp: bit_simps)
    then show ?thesis
      using True n by (subst pb_skip_varint.simps) (simp add: varint_enc.simps [of v] rd)
  next
    case False
    then show ?thesis
      using n "1.prems" "1.IH" [OF False, of m]
      by (subst pb_skip_varint.simps)
        (simp add: varint_enc.simps [of v] rd bit_varint_more)
  qed
qed

lemma pb_skip_string_enc [stream_simps]:
  assumes "length d < 2 ^ 32" "length (varint_enc (of_nat (length d))) + length d \<le> n"
  shows "pb_skip_string (bufstream (varint_enc (of_nat (length d)) @ d @ rest) n e) =
    (True, bufstream rest (n - (length (varint_enc (of_nat (length d))) + length d)) e)"
proof -
  have "unat (of_nat (length d) :: u64) = length d"
    "unat (ucast (of_nat (length d) :: u64) :: u32) = length d"
    using assms(1) by (simp_all add: unat_of_nat unsigned_ucast_eq take_bit_eq_mod)
  then show ?thesis
    using assms by (simp add: pb_skip_string_def stream_simps)
qed

lemma pb_skip_field_enc:
  assumes "wire_ok v" "length (wire_enc v) \<le> n"
  shows "pb_skip_field (bufstream (wire_enc v @ rest) n e) (wire_type_of v) =
    (True, bufstream rest (n - length (wire_enc v)) e)"
  using assms
  by (cases v) (auto simp: pb_skip_field_def stream_simps)

section \<open>Substreams\<close>

lemma pb_make_string_substream_enc [stream_simps]:
  assumes "k < 2 ^ 32" "length (varint_enc (of_nat k)) + k \<le> n"
  shows "pb_make_string_substream (bufstream (varint_enc (of_nat k) @ rest) n e) =
    (Some (bufstream rest k e), bufstream rest (n - length (varint_enc (of_nat k)) - k) e)"
proof -
  have "unat (of_nat k :: u64) = k" "unat (ucast (of_nat k :: u64) :: u32) = k"
    using assms(1) by (simp_all add: unat_of_nat unsigned_ucast_eq take_bit_eq_mod)
  then show ?thesis
    using assms by (simp add: pb_make_string_substream_def stream_simps)
qed

lemma pb_close_string_substream_enc [stream_simps]:
  assumes "length d = k"
  shows "pb_close_string_substream (bufstream rest' n e) (bufstream (d @ rest) k e) =
    (True, bufstream rest n e, bufstream rest 0 e)"
  using assms by (auto simp: pb_close_string_substream_def stream_simps)


section \<open>Negative 32-bit values\<close>

text \<open>
  A negative \<open>int32\<close> is written as the ten bytes of its 64-bit sign extension. The 32-bit
  decoder accepts the six bytes above bit 31 because they repeat the sign.
\<close>

definition sign_extended32 :: "u64 \<Rightarrow> bool" where
  "sign_extended32 v \<longleftrightarrow> drop_bit 31 v = mask 33"

lemma bit_sign_extended32: "sign_extended32 v \<Longrightarrow> 31 \<le> n \<Longrightarrow> n < 64 \<Longrightarrow> bit v n"
proof -
  assume "sign_extended32 v" "31 \<le> n" "n < 64"
  then have "bit (drop_bit 31 v) (n - 31)"
    by (auto simp: sign_extended32_def bit_simps)
  with \<open>31 \<le> n\<close> show "bit v n" by (simp add: bit_drop_bit_eq)
qed

lemma varint32_loop_sign:
  assumes "sign_extended32 v" "k \<le> 9" "0 < k" "10 - k \<le> n"
  shows "varint32_loop (bufstream (varint_enc (drop_bit (7 * k) v) @ rest) n e) (7 * k)
      (take_bit (7 * k) (ucast v)) = (Some (ucast v), bufstream rest (n - (10 - k)) e)"
  using assms(2-)
proof (induction "9 - k" arbitrary: k n)
  case 0
  then have k: "k = 9" by simp
  obtain m where n: "n = Suc m" using 0 by (cases n) auto
  have one: "drop_bit 63 v = 1"
  proof (rule bit_word_eqI)
    fix i assume "i < LENGTH(64)"
    then show "bit (drop_bit 63 v) i = bit 1 i"
      using bit_sign_extended32 [OF assms(1), of 63]
      by (cases i) (auto simp: bit_simps bit_1_iff dest: bit_imp_le_length)
  qed
  have "take_bit 63 (ucast v :: u32) = ucast v" by (simp add: take_bit_word_eq_self)
  moreover have "drop_bit 31 (ucast v :: u32) \<noteq> 0"
  proof
    assume "drop_bit 31 (ucast v :: u32) = 0"
    then have "\<not> bit (drop_bit 31 (ucast v :: u32)) 0" by simp
    then show False using bit_sign_extended32 [OF assms(1), of 31] by (simp add: bit_simps)
  qed
  ultimately show ?case
    using one unfolding k n
    by (subst varint32_loop.simps) (simp add: varint_enc.simps [of 1] stream_simps)
next
  case (Suc j)
  then have k: "k < 9" "9 - Suc k = j" by simp_all
  obtain m where n: "n = Suc m" using Suc k by (cases n) auto
  have big: "\<not> drop_bit (7 * k) v < 128"
    using bit_word_less [of "drop_bit (7 * k) v" 7 "63 - 7 * k"] k
      bit_sign_extended32 [OF assms(1), of 63] by (auto simp: bit_simps)
  have enc: "varint_enc (drop_bit (7 * k) v) =
      varint_more (drop_bit (7 * k) v) # varint_enc (drop_bit (7 * Suc k) v)"
    using big by (simp add: varint_enc.simps [of "drop_bit (7 * k) v"] drop_bit_drop_bit add.commute)
  have low: "(ucast (varint_more x AND 0x7F) :: u32) = take_bit 7 (ucast x)" for x
    by (rule bit_word_eqI) (auto simp: bit_varint_more bit_simps)
  have acc: "take_bit (7 * k) (ucast v) OR push_bit (7 * k) (take_bit 7 (ucast (drop_bit (7 * k) v)))
      = (take_bit (7 * Suc k) (ucast v) :: u32)"
    by (rule bit_word_eqI) (auto simp: bit_simps)
  have high: "take_bit (7 * k) (ucast v :: u32) = take_bit (7 * Suc k) (ucast v)" if "\<not> k < 5"
    using that by (simp add: take_bit_word_eq_self)
  have ff: "varint_more (drop_bit (7 * k) v) = 0xFF" if "\<not> k < 5"
    using that k bit_sign_extended32 [OF assms(1)]
    by (intro bit_word_eqI) (auto simp: bit_varint_more bit_simps)
  have bit31: "drop_bit 31 (take_bit (7 * Suc k) (ucast v) :: u32) \<noteq> 0" if "\<not> k < 5"
  proof
    assume "drop_bit 31 (take_bit (7 * Suc k) (ucast v) :: u32) = 0"
    then have "\<not> bit (drop_bit 31 (take_bit (7 * Suc k) (ucast v) :: u32)) 0" by simp
    then show False using bit_sign_extended32 [OF assms(1), of 31] that by (simp add: bit_simps)
  qed
  have mod: "(7 * k + 7) mod 256 = 7 * Suc k" using k by simp
  note IH = Suc.hyps(1) [of "Suc k" m]
  show ?case
  proof (cases "k < 5")
    case True
    then show ?thesis
      using k n enc IH Suc.prems acc mod
      by (subst varint32_loop.simps)
        (simp add: stream_simps low bit_varint_more del: mult_Suc_right)
  next
    case False
    then have "7 * k < 63" "32 \<le> 7 * k" using k by simp_all
    moreover have b: "((128 :: byte) = 0) = False" "((127 :: byte) = 0) = False" by simp_all
    ultimately show ?thesis
      using k n enc IH Suc.prems high [OF False] ff [OF False] bit31 [OF False] mod
      by (subst varint32_loop.simps)
        (simp add: stream_simps b del: mult_Suc_right)
  qed
qed

lemma varint_enc_sign_length:
  assumes "sign_extended32 v" "k \<le> 9"
  shows "length (varint_enc (drop_bit (7 * k) v)) = 10 - k"
  using assms(2)
proof (induction "9 - k" arbitrary: k)
  case 0
  then have "k = 9" by simp
  have "unat v < 2 ^ 64" using unsigned_less [of v] by simp
  then have "drop_bit 63 v < 128"
    by (simp add: word_less_nat_alt unat_drop_bit_word less_mult_imp_div_less)
  then show ?case using \<open>k = 9\<close> by (simp add: varint_enc.simps [of "drop_bit 63 v"])
next
  case (Suc j)
  then have k: "k < 9" "9 - Suc k = j" by simp_all
  have big: "\<not> drop_bit (7 * k) v < 128"
    using bit_word_less [of "drop_bit (7 * k) v" 7 "63 - 7 * k"] k
      bit_sign_extended32 [OF assms(1), of 63] by (auto simp: bit_simps)
  then show ?case
    using Suc.hyps(1) [of "Suc k"] k
    by (simp add: varint_enc.simps [of "drop_bit (7 * k) v"] drop_bit_drop_bit add.commute)
qed

lemma pb_decode_varint32_sign:
  assumes "sign_extended32 v" "length (varint_enc v) \<le> n"
  shows "pb_decode_varint32 (bufstream (varint_enc v @ rest) n e) =
    (Some (ucast v), bufstream rest (n - length (varint_enc v)) e)"
proof -
  have len: "length (varint_enc v) = 10" using varint_enc_sign_length [OF assms(1), of 0] by simp
  obtain m where n: "n = Suc m" and m: "9 \<le> m" using assms(2) len by (cases n) auto
  have big: "\<not> v < 128"
    using bit_word_less [of v 7 63] bit_sign_extended32 [OF assms(1), of 63] by auto
  have low: "(ucast (varint_more v AND 0x7F) :: u32) = take_bit 7 (ucast v)"
    by (rule bit_word_eqI) (auto simp: bit_varint_more bit_simps)
  note loop = varint32_loop_sign [OF assms(1), of 1 m, simplified]
  show ?thesis
    using big n len m
    by (simp add: loop pb_decode_varint32_def pb_decode_varint32_eof_def varint_enc.simps [of v]
        stream_simps bit_varint_more low)
qed

section \<open>The codecs of the wire format\<close>

text \<open>Run a decoder on a buffer: the value and the bytes left of the buffer.\<close>

definition run_buf ::
  "(unit pb_istream \<Rightarrow> 'a option \<times> unit pb_istream) \<Rightarrow> byte list \<Rightarrow> ('a \<times> byte list) option"
where
  "run_buf op bs =
     (case op (pb_istream_from_buffer bs (length bs)) of
        (Some v, s) \<Rightarrow> (case source s of Buf_read rest \<Rightarrow> Some (v, rest) | _ \<Rightarrow> None)
      | (None, s) \<Rightarrow> None)"

lemma run_buf_enc:
  assumes "op (bufstream (d @ rest) (length (d @ rest)) None) = (Some v, bufstream rest n e)"
  shows "run_buf op (d @ rest) = Some (v, rest)"
  using assms by (simp add: run_buf_def pb_istream_from_buffer_def)

interpretation pb_varint: codec varint_enc "run_buf pb_decode_varint" "\<lambda>v. True"
  by unfold_locales (rule run_buf_enc, simp add: stream_simps)

interpretation pb_svarint: codec "\<lambda>v. varint_enc (zigzag v)" "run_buf pb_decode_svarint" "\<lambda>v. True"
  by unfold_locales (rule run_buf_enc, simp add: stream_simps)

interpretation pb_fixed32: codec fixed32_enc "run_buf pb_decode_fixed32" "\<lambda>v. True"
  by unfold_locales (rule run_buf_enc, simp add: stream_simps)

interpretation pb_fixed64: codec fixed64_enc "run_buf pb_decode_fixed64" "\<lambda>v. True"
  by unfold_locales (rule run_buf_enc, simp add: stream_simps)

interpretation pb_string: codec "\<lambda>d. varint_enc (of_nat (length d)) @ d"
  "run_buf (\<lambda>s. case pb_make_string_substream s of
       (None, s') \<Rightarrow> (None, s')
     | (Some sub, s') \<Rightarrow>
         (case pb_read sub False (bytes_left sub) of
            (None, sub') \<Rightarrow> (None, s')
          | (Some d, sub') \<Rightarrow>
              (case pb_close_string_substream s' sub' of
                 (ok, s'', _) \<Rightarrow> (if ok then Some d else None, s''))))"
  "\<lambda>d. length d < 2 ^ 32"
proof unfold_locales
  fix d rest :: "byte list"
  assume d: "length d < 2 ^ 32"
  have "pb_close_string_substream (bufstream (d @ rest) (length rest) None :: unit pb_istream)
      (bufstream rest 0 None) =
      (True, bufstream rest (length rest) None, bufstream rest 0 None)"
    by (simp add: pb_close_string_substream_def)
  then show "run_buf (\<lambda>s. case pb_make_string_substream s of
       (None, s') \<Rightarrow> (None, s')
     | (Some sub, s') \<Rightarrow>
         (case pb_read sub False (bytes_left sub) of
            (None, sub') \<Rightarrow> (None, s')
          | (Some d, sub') \<Rightarrow>
              (case pb_close_string_substream s' sub' of
                 (ok, s'', _) \<Rightarrow> (if ok then Some d else None, s''))))
     ((varint_enc (of_nat (length d)) @ d) @ rest) = Some (d, rest)"
    using d by (intro run_buf_enc) (simp add: stream_simps)
qed

end
