(* ===== verification/Pb_Wire_Correct.thy ===== *)
theory Pb_Wire_Correct
  imports Pb_Wire_Laws
begin

text \<open>
  The properties of nanopb's streams and wire format: what is written is read back, a field
  is skipped exactly, a sizing stream predicts a write, no reader leaves its block, and
  what the 32-bit varint decoder accepts.
\<close>

section \<open>Round trips\<close>

text \<open>
  C3. Varints round-trip: on a well-formed buffer stream with ten free bytes,
  \<open>pb_encode_varint\<close> succeeds for every 64-bit value, appends between one and ten bytes to
  what was written before, and \<open>pb_decode_varint\<close> reads the value back from these bytes and
  leaves exactly what follows them.
\<close>

theorem pb_varint_roundtrip:
  assumes "ostream_ok s" "sink s = Buf_write w room" "bytes_written s + 10 \<le> max_size s"
  shows "\<exists>bs s'. pb_encode_varint s v = (True, s') \<and>
      sink s' = Buf_write (w @ bs) (room - length bs) \<and>
      bytes_written s' = bytes_written s + length bs \<and> 1 \<le> length bs \<and> length bs \<le> 10 \<and>
      (\<forall>rest k e. pb_decode_varint (bufstream (bs @ rest) (length bs + k) e) =
         (Some v, bufstream rest k e))"
proof -
  have len: "1 \<le> length (varint_enc v)" "length (varint_enc v) \<le> 10"
    using length_varint_enc [of v] varint_enc_nonempty [of v]
    by (auto simp: Suc_le_eq)
  have "pb_encode_varint s v = (True, s\<lparr>sink := Buf_write (w @ varint_enc v) (room - length (varint_enc v)),
      bytes_written := bytes_written s + length (varint_enc v)\<rparr>)"
    using emitsD_buf [OF emits_varint assms(1,2)] assms(3) len by simp
  then show ?thesis
    using len by (intro exI [of _ "varint_enc v"]) (simp add: stream_simps)
qed

theorem pb_varint_roundtrip_witness:
  "\<exists>bs s'. pb_encode_varint (pb_ostream_from_buffer 16 16 :: unit pb_ostream) 300 = (True, s') \<and>
      sink s' = Buf_write bs (16 - length bs) \<and>
      (\<forall>rest k e. pb_decode_varint (bufstream (bs @ rest) (length bs + k) e :: unit pb_istream) =
         (Some 300, bufstream rest k e))"
  using pb_varint_roundtrip [of "pb_ostream_from_buffer 16 16" "[]" 16 300,
      where 'b = unit, OF ostream_ok_from_buffer]
  by (auto simp: pb_ostream_from_buffer_def)

lemma zigzag_small:
  assumes "- 64 \<le> sint v" "sint v < 64"
  shows "length (varint_enc (zigzag v)) = 1"
proof -
  define i where "i = sint v"
  have "zigzag v = (if i < 0 then NOT (push_bit 1 (word_of_int i)) else push_bit 1 (word_of_int i))"
    by (simp add: zigzag_def i_def)
  then have "zigzag v = word_of_int (if i < 0 then - 2 * i - 1 else 2 * i)"
    by (cases "i < 0") (simp_all add: push_bit_eq_mult not_eq_complement mult.commute)
  moreover have "0 \<le> (if i < 0 then - 2 * i - 1 else 2 * i)"
    "(if i < 0 then - 2 * i - 1 else 2 * i) < 128"
    using assms by (auto simp: i_def)
  ultimately have "zigzag v < 128"
    by (simp add: word_less_def uint_word_of_int_eq take_bit_int_eq_self split del: if_split)
  then show ?thesis by (subst varint_enc.simps) simp
qed

text \<open>
  Zigzag varints round-trip for every signed 64-bit value, and the values from -64 to 63
  take one byte.
\<close>

theorem pb_svarint_roundtrip:
  assumes "ostream_ok s" "sink s = Buf_write w room" "bytes_written s + 10 \<le> max_size s"
  shows "\<exists>bs s'. pb_encode_svarint s v = (True, s') \<and>
      sink s' = Buf_write (w @ bs) (room - length bs) \<and>
      (- 64 \<le> sint v \<and> sint v < 64 \<longrightarrow> length bs = 1) \<and>
      (\<forall>rest k e. pb_decode_svarint (bufstream (bs @ rest) (length bs + k) e) =
         (Some v, bufstream rest k e))"
proof -
  let ?e = "varint_enc (zigzag v)"
  have "pb_encode_svarint s v = (True, s\<lparr>sink := Buf_write (w @ ?e) (room - length ?e),
      bytes_written := bytes_written s + length ?e\<rparr>)"
    using emitsD_buf [OF emits_svarint assms(1,2)] assms(3) length_varint_enc [of "zigzag v"] by simp
  then show ?thesis
    by (intro exI [of _ ?e]) (simp add: stream_simps zigzag_small)
qed

theorem pb_svarint_roundtrip_witness:
  "\<exists>bs s'. pb_encode_svarint (pb_ostream_from_buffer 16 16 :: unit pb_ostream) (- 3) = (True, s') \<and>
      sink s' = Buf_write bs (16 - length bs) \<and> length bs = 1 \<and>
      (\<forall>rest k e. pb_decode_svarint (bufstream (bs @ rest) (length bs + k) e :: unit pb_istream) =
         (Some (- 3), bufstream rest k e))"
proof -
  have "- 64 \<le> sint (- 3 :: u64)" "sint (- 3 :: u64) < 64" by simp_all
  then show ?thesis
  using pb_svarint_roundtrip [of "pb_ostream_from_buffer 16 16" "[]" 16 "- 3",
      where 'b = unit, OF ostream_ok_from_buffer]
  by (auto simp: pb_ostream_from_buffer_def)
qed

lemma nth_fixed_enc:
  "i < 4 \<Longrightarrow> fixed32_enc v ! i = ucast (drop_bit (8 * i) v)"
  "i < 8 \<Longrightarrow> fixed64_enc x ! i = ucast (drop_bit (8 * i) x)"
  by (simp_all add: fixed32_enc_bytes fixed64_enc_bytes nth_le_bytes del: le_bytes_numeral)

text \<open>
  Fixed-width values round-trip: \<open>pb_encode_fixed32\<close> and \<open>pb_encode_fixed64\<close> append the
  little-endian bytes of the value, and the decoders read it back and leave the rest.
\<close>

theorem pb_fixed_roundtrip:
  assumes "ostream_ok s" "sink s = Buf_write w room" "bytes_written s + 8 \<le> max_size s"
  shows "(\<exists>bs s'. pb_encode_fixed32 s v = (True, s') \<and> length bs = 4 \<and>
      sink s' = Buf_write (w @ bs) (room - 4) \<and>
      (\<forall>i < 4. bs ! i = ucast (drop_bit (8 * i) v)) \<and>
      (\<forall>rest k e. pb_decode_fixed32 (bufstream (bs @ rest) (4 + k) e) =
         (Some v, bufstream rest k e))) \<and>
    (\<exists>bs s'. pb_encode_fixed64 s x = (True, s') \<and> length bs = 8 \<and>
      sink s' = Buf_write (w @ bs) (room - 8) \<and>
      (\<forall>i < 8. bs ! i = ucast (drop_bit (8 * i) x)) \<and>
      (\<forall>rest k e. pb_decode_fixed64 (bufstream (bs @ rest) (8 + k) e) =
         (Some x, bufstream rest k e)))"
  using emitsD_buf [OF emits_fixed32 [of v] assms(1,2)] assms(3)
    emitsD_buf [OF emits_fixed64 [of x] assms(1,2)]
  by (intro conjI exI [of _ "fixed32_enc v"] exI [of _ "fixed64_enc x"])
    (simp_all add: stream_simps nth_fixed_enc)

theorem pb_fixed_roundtrip_witness:
  "\<exists>bs s'. pb_encode_fixed32 (pb_ostream_from_buffer 16 16 :: unit pb_ostream) 0x01020304 = (True, s') \<and>
      length bs = 4 \<and>
      sink s' = Buf_write bs 12 \<and>
      (\<forall>rest k e. pb_decode_fixed32 (bufstream (bs @ rest) (4 + k) e :: unit pb_istream) =
         (Some 0x01020304, bufstream rest k e))"
  using pb_fixed_roundtrip [of "pb_ostream_from_buffer 16 16" "[]" 16 "0x01020304" 0,
      where 'b = unit, OF ostream_ok_from_buffer]
  by (auto simp: pb_ostream_from_buffer_def)

text \<open>
  C29. Tags round-trip: for every wire type below 8 and every field number of protobuf
  (1 to 2^29 - 1) \<open>pb_encode_tag\<close> writes at most five bytes, and \<open>pb_decode_tag\<close> returns the
  wire type and the field number without signalling the end of the message.
\<close>

theorem pb_tag_roundtrip:
  assumes "ostream_ok s" "sink s = Buf_write w room" "bytes_written s + 10 \<le> max_size s"
    and "wiretype < 8" "0 < field" "field < 2 ^ 29"
  shows "\<exists>bs s'. pb_encode_tag s wiretype field = (True, s') \<and>
      sink s' = Buf_write (w @ bs) (room - length bs) \<and> length bs \<le> 5 \<and>
      (\<forall>rest k e. pb_decode_tag (bufstream (bs @ rest) (length bs + k) e) =
         (True, wiretype, field, False, bufstream rest k e))"
proof -
  let ?e = "varint_enc (tag_word wiretype field)"
  have len: "length ?e \<le> 5"
    using length_varint_enc_le [of "tag_word wiretype field" 4] tag_word_fields(3) [OF assms(4,6)]
    length_varint_enc_le [of "tag_word wiretype field" 5]
    by simp
  have "pb_encode_tag s wiretype field = (True, s\<lparr>sink := Buf_write (w @ ?e) (room - length ?e),
      bytes_written := bytes_written s + length ?e\<rparr>)"
    using emitsD_buf [OF emits_tag assms(1,2)] assms(3) len by simp
  then show ?thesis
    using len assms by (intro exI [of _ ?e]) (simp add: stream_simps)
qed

theorem pb_tag_roundtrip_witness:
  "\<exists>bs s'. pb_encode_tag (pb_ostream_from_buffer 16 16 :: unit pb_ostream) 2 15 = (True, s') \<and>
      sink s' = Buf_write bs (16 - length bs) \<and>
      (\<forall>rest k e. pb_decode_tag (bufstream (bs @ rest) (length bs + k) e :: unit pb_istream) =
         (True, 2, 15, False, bufstream rest k e))"
  using pb_tag_roundtrip [of "pb_ostream_from_buffer 16 16" "[]" 16 2 15,
      where 'b = unit, OF ostream_ok_from_buffer]
  by (auto simp: pb_ostream_from_buffer_def)


section \<open>Skipping and sizing\<close>

text \<open>Write the value part of a field with the encoder its wire type takes.\<close>

definition pb_put_wire :: "'s pb_ostream \<Rightarrow> wire_value \<Rightarrow> bool \<times> 's pb_ostream" where
  "pb_put_wire s v =
     (case v of
        WVarint x \<Rightarrow> pb_encode_varint s x
      | W64 x \<Rightarrow> pb_encode_fixed64 s x
      | WString d \<Rightarrow> pb_encode_string s d (length d)
      | W32 x \<Rightarrow> pb_encode_fixed32 s x)"

lemma emits_put_wire: "wire_ok v \<Longrightarrow> emits (\<lambda>s. pb_put_wire s v) (wire_enc v)"
proof (cases v)
  case (WString d)
  assume "wire_ok v"
  then show ?thesis using WString emits_string [of "length d" d] by (simp add: pb_put_wire_def)
qed (simp_all add: pb_put_wire_def emits_varint emits_fixed64 emits_fixed32)

text \<open>
  C24. Skipping is exact: whatever value one of the encoders wrote, \<open>pb_skip_field\<close> called with
  its wire type consumes the bytes of the value and no byte more.
\<close>

theorem pb_skip_field_exact:
  assumes "ostream_ok s" "sink s = Buf_write w room" "wire_ok v"
    and "pb_put_wire s v = (True, s')"
  shows "\<exists>bs. sink s' = Buf_write (w @ bs) (room - length bs) \<and>
      (\<forall>rest k e. pb_skip_field (bufstream (bs @ rest) (length bs + k) e) (wire_type_of v) =
         (True, bufstream rest k e))"
proof -
  have fits: "bytes_written s + length (wire_enc v) \<le> max_size s"
    using emitsD_full [OF emits_put_wire [OF assms(3)] assms(1,2)] assms(4)
    by (auto simp: not_less [symmetric])
  show ?thesis
    using emitsD_buf [OF emits_put_wire [OF assms(3)] assms(1,2) fits] assms(3,4)
    by (intro exI [of _ "wire_enc v"]) (auto simp: pb_skip_field_enc)
qed

lemma put_wire_from_buffer:
  assumes "wire_ok v" "length (wire_enc v) \<le> n" "n < size_mod"
  shows "pb_put_wire (pb_ostream_from_buffer n n) v =
    (True, (pb_ostream_from_buffer n n)
       \<lparr>sink := Buf_write (wire_enc v) (n - length (wire_enc v)), bytes_written := length (wire_enc v)\<rparr>)"
  using emitsD_buf [OF emits_put_wire [OF assms(1)] ostream_ok_from_buffer [OF order_refl assms(3)]] assms(2)
  by (simp add: pb_ostream_from_buffer_def)

theorem pb_skip_field_exact_witness:
  "\<exists>bs s'. pb_put_wire (pb_ostream_from_buffer 16 16 :: unit pb_ostream) (WString [7, 8, 9]) = (True, s') \<and>
      sink s' = Buf_write bs (16 - length bs) \<and>
      (\<forall>rest k e. pb_skip_field (bufstream (bs @ rest) (length bs + k) e :: unit pb_istream) 2 =
         (True, bufstream rest k e))"
proof -
  let ?s = "pb_ostream_from_buffer 16 16 :: unit pb_ostream"
  have e: "wire_enc (WString [7, 8, 9]) = [3, 7, 8, 9]" "length (wire_enc (WString [7, 8, 9])) = 4"
    by code_simp+
  have put: "pb_put_wire ?s (WString [7, 8, 9]) =
      (True, ?s\<lparr>sink := Buf_write [3, 7, 8, 9] 12, bytes_written := 4\<rparr>)"
    using put_wire_from_buffer [of "WString [7, 8, 9]" 16, unfolded e(2), unfolded e(1)] by simp
  let ?t = "?s\<lparr>sink := Buf_write [3, 7, 8, 9] 12, bytes_written := 4\<rparr>"
  have "ostream_ok ?s" "sink ?s = Buf_write [] 16"
    by (simp_all add: ostream_ok_def pb_ostream_from_buffer_def)
  from pb_skip_field_exact [OF this _ put, where 'b = unit] obtain bs
    where "sink ?t = Buf_write bs (16 - length bs)"
      "\<forall>rest k e. pb_skip_field (bufstream (bs @ rest) (length bs + k) e :: unit pb_istream) 2 =
         (True, bufstream rest k e)"
    by auto
  with put show ?thesis by blast
qed

lemma wire_enc_length: "wire_ok v \<Longrightarrow> length (wire_enc v) < 2 ^ 32 + 10"
proof (cases v)
  case (WVarint x)
  then show ?thesis using length_varint_enc [of x] by simp
next
  case (WString d)
  assume "wire_ok v"
  then show ?thesis using WString length_varint_enc [of "of_nat (length d)"] by simp
qed simp_all

text \<open>
  C27. A sizing stream predicts a write: when an encoder on \<open>PB_OSTREAM_SIZING\<close> counts some number
  of bytes and a buffer stream has room for that number, the same encoder succeeds on the
  buffer stream and appends exactly so many bytes.
\<close>

theorem pb_sizing_exact:
  fixes s :: "'s pb_ostream"
  assumes "ostream_ok s" "sink s = Buf_write w room" "wire_ok v"
    and "pb_put_wire (PB_OSTREAM_SIZING :: 's pb_ostream) v = (True, z)"
    and "bytes_written s + bytes_written z \<le> max_size s"
  shows "\<exists>bs. length bs = bytes_written z \<and>
      pb_put_wire s v = (True, s\<lparr>sink := Buf_write (w @ bs) (room - bytes_written z),
        bytes_written := bytes_written s + bytes_written z\<rparr>)"
proof -
  have "length (wire_enc v) < size_mod"
    using wire_enc_length [OF assms(3)] by simp
  moreover have "pb_put_wire (PB_OSTREAM_SIZING :: 's pb_ostream) v =
      (True, PB_OSTREAM_SIZING\<lparr>bytes_written := length (wire_enc v) mod size_mod\<rparr>)"
    using emitsD_sizing [OF emits_put_wire [OF assms(3)], of PB_OSTREAM_SIZING]
    by (simp add: PB_OSTREAM_SIZING_def)
  ultimately have n: "length (wire_enc v) = bytes_written z" using assms(4) by auto
  then show ?thesis
    using emitsD_buf [OF emits_put_wire [OF assms(3)] assms(1,2)] assms(5)
    by (intro exI [of _ "wire_enc v"]) simp
qed

theorem pb_sizing_exact_witness:
  "\<exists>bs. length bs = 4 \<and> pb_put_wire (pb_ostream_from_buffer 16 16 :: unit pb_ostream) (WString [7, 8, 9]) =
     (True, (pb_ostream_from_buffer 16 16)\<lparr>sink := Buf_write bs 12, bytes_written := 4\<rparr>)"
proof -
  have "length (wire_enc (WString [7, 8, 9])) = 4" by code_simp
  then have "pb_put_wire (PB_OSTREAM_SIZING :: unit pb_ostream) (WString [7, 8, 9]) =
      (True, PB_OSTREAM_SIZING\<lparr>bytes_written := 4\<rparr>)"
    using emitsD_sizing [OF emits_put_wire [of "WString [7, 8, 9]"], of "PB_OSTREAM_SIZING :: unit pb_ostream"]
    by (simp add: PB_OSTREAM_SIZING_def)
  from pb_sizing_exact [OF ostream_ok_from_buffer _ _ this, of 16 16 "[]" 16] show ?thesis
    by (simp add: pb_ostream_from_buffer_def)
qed

section \<open>Sequences of values\<close>

text \<open>The elements of a packed field, written in order until one fails.\<close>

fun pb_encode_varints :: "'s pb_ostream \<Rightarrow> u64 list \<Rightarrow> bool \<times> 's pb_ostream" where
  "pb_encode_varints s [] = (True, s)"
| "pb_encode_varints s (v # vs) =
     (case pb_encode_varint s v of (False, s') \<Rightarrow> (False, s') | (True, s') \<Rightarrow> pb_encode_varints s' vs)"

lemma pb_encode_varints_buf:
  assumes "ostream_ok s" "sink s = Buf_write w room" "pb_encode_varints s vs = (True, s')"
  shows "sink s' = Buf_write (w @ concat (map varint_enc vs)) (room - length (concat (map varint_enc vs))) \<and>
    bytes_written s' = bytes_written s + length (concat (map varint_enc vs))"
  using assms
proof (induction vs arbitrary: s w room)
  case (Cons v vs)
  have fits: "bytes_written s + length (varint_enc v) \<le> max_size s"
    using emitsD_full [OF emits_varint Cons.prems(1,2), of v] Cons.prems(3)
    by (auto simp: not_less [symmetric] split: prod.splits bool.splits)
  note step = emitsD_buf [OF emits_varint Cons.prems(1,2) fits]
  show ?case
    using Cons.IH [OF ostream_ok_emit [OF Cons.prems(1,2) fits, of "varint_enc v"], simplified] Cons.prems(3) step
    by simp
qed simp

text \<open>
  A sequence of varints written one after the other decodes to the same sequence, and no
  other sequence of that length has the same bytes.
\<close>

theorem pb_varint_sequence:
  assumes "pb_encode_varints (pb_ostream_from_buffer n n) vs = (True, s')" "n < size_mod"
  shows "\<exists>w. sink s' = Buf_write w (n - length w) \<and> bytes_written s' = length w \<and>
      (\<forall>rest. decode_many (run_buf pb_decode_varint) (length vs) (w @ rest) = Some (vs, rest)) \<and>
      (\<forall>us. length us = length vs \<longrightarrow> concat (map varint_enc us) = w \<longrightarrow> us = vs)"
proof -
  have "ostream_ok (pb_ostream_from_buffer n n :: 'a pb_ostream)"
    using assms(2) by (simp add: ostream_ok_from_buffer)
  from pb_encode_varints_buf [OF this _ assms(1), of "[]" n] show ?thesis
    using pb_varint.decode_many_enc [of vs] pb_varint.concat_enc_unique [of _ vs]
    by (intro exI [of _ "concat (map varint_enc vs)"])
      (auto simp: list_all_iff pb_ostream_from_buffer_def)
qed

theorem pb_varint_sequence_witness:
  "\<exists>s' w. pb_encode_varints (pb_ostream_from_buffer 8 8 :: unit pb_ostream) [1, 300] = (True, s') \<and>
     sink s' = Buf_write w (8 - length w) \<and>
     decode_many (run_buf pb_decode_varint) 2 w = Some ([1, 300], [])"
proof -
  have e: "varint_enc 1 = [1]" "varint_enc 300 = [0xAC, 2]" by code_simp+
  have ok: "ostream_ok (pb_ostream_from_buffer 8 8 :: unit pb_ostream)"
    by (simp add: ostream_ok_from_buffer)
  let ?s1 = "(pb_ostream_from_buffer 8 8 :: unit pb_ostream)\<lparr>sink := Buf_write [1] 7, bytes_written := 1\<rparr>"
  let ?s2 = "?s1\<lparr>sink := Buf_write [1, 0xAC, 2] 5, bytes_written := 3\<rparr>"
  have "ostream_ok ?s1" by (simp add: ostream_ok_def pb_ostream_from_buffer_def)
  then have "pb_encode_varints (pb_ostream_from_buffer 8 8) [1, 300] = (True, ?s2)"
    using emitsD_buf [OF emits_varint ok, of "[]" 8 1] emitsD_buf [OF emits_varint, of ?s1 "[1]" 7 300] e
    by (simp add: pb_ostream_from_buffer_def)
  note run = this
  obtain w where "sink ?s2 = Buf_write w (8 - length w)"
    "\<forall>rest. decode_many (run_buf pb_decode_varint) (length [1 :: u64, 300]) (w @ rest) = Some ([1, 300], rest)"
    using pb_varint_sequence [OF run] by auto
  then show ?thesis
    using run by (intro exI [of _ ?s2] exI [of _ w]) (auto dest: spec [of _ "[]"] simp: eval_nat_numeral)
qed

section \<open>Memory safety of readers\<close>

text \<open>
  What a client does with the stream on top of its stack of streams: one of the read
  operations, opening a substream, or closing it.
\<close>

datatype pb_op = Op_read bool nat | Op_varint | Op_varint32 | Op_svarint | Op_fixed32 | Op_fixed64
  | Op_tag | Op_skip u32 | Op_raw u32 nat

fun pb_run_op :: "pb_op \<Rightarrow> 's pb_istream \<Rightarrow> 's pb_istream" where
  "pb_run_op (Op_read null count) s = snd (pb_read s null count)"
| "pb_run_op Op_varint s = snd (pb_decode_varint s)"
| "pb_run_op Op_varint32 s = snd (pb_decode_varint32 s)"
| "pb_run_op Op_svarint s = snd (pb_decode_svarint s)"
| "pb_run_op Op_fixed32 s = snd (pb_decode_fixed32 s)"
| "pb_run_op Op_fixed64 s = snd (pb_decode_fixed64 s)"
| "pb_run_op Op_tag s = snd (snd (snd (snd (pb_decode_tag s))))"
| "pb_run_op (Op_skip wt) s = snd (pb_skip_field s wt)"
| "pb_run_op (Op_raw wt n) s = snd (read_raw_value s wt n)"

inductive pb_reader_step :: "'s pb_istream list \<Rightarrow> 's pb_istream list \<Rightarrow> bool" where
  step_op: "pb_reader_step (s # ps) (pb_run_op opr s # ps)"
| step_open: "pb_make_string_substream s = (Some sub, s') \<Longrightarrow> pb_reader_step (s # ps) (sub # s' # ps)"
| step_open_fail: "pb_make_string_substream s = (None, s') \<Longrightarrow> pb_reader_step (s # ps) (s' # ps)"
| step_close: "pb_close_string_substream s sub = (True, s', sub') \<Longrightarrow>
    pb_reader_step (sub # s # ps) (s' # ps)"
| step_close_fail: "pb_close_string_substream s sub = (False, s', sub') \<Longrightarrow>
    pb_reader_step (sub # s # ps) (sub' # s' # ps)"

text \<open>
  Each stream has, behind the bytes it may read, those of all streams below it.
\<close>

fun reader_ok :: "'s pb_istream list \<Rightarrow> bool" where
  "reader_ok [] = True"
| "reader_ok (s # ps) = (istream_margin (sum_list (map bytes_left ps)) s \<and> reader_ok ps)"

lemma pb_run_op_ok [inv_intros]: "istream_margin m s \<Longrightarrow> istream_margin m (pb_run_op opr s)"
  by (cases opr) (simp_all add: inv_intros)

lemma pb_close_fail:
  assumes "pb_close_string_substream s sub = (False, s', sub')"
  shows "s' = s" and "istream_margin m sub \<Longrightarrow> istream_margin m sub'"
  using assms pb_read_ok [of m sub True "bytes_left sub"]
  by (auto simp: pb_close_string_substream_def split: if_splits prod.splits option.splits)

lemma pb_close_left:
  "pb_close_string_substream s sub = (True, s', sub') \<Longrightarrow> bytes_left s' = bytes_left s"
  by (auto simp: pb_close_string_substream_def split: if_splits prod.splits option.splits)

lemma reader_step_ok:
  "pb_reader_step ss ss' \<Longrightarrow> reader_ok ss \<Longrightarrow> reader_ok ss'"
proof (induction rule: pb_reader_step.induct)
  case (step_open s sub s' ps)
  then show ?case using pb_make_string_substream_ok [of _ s sub s'] by (auto simp: add.commute [of "bytes_left _"])
next
  case (step_open_fail s s' ps)
  then show ?case using pb_make_string_substream_None_ok by auto
next
  case (step_close s sub s' sub' ps)
  then show ?case using pb_close_string_substream_ok [of _ s sub s' sub']
    by (auto simp: add.commute)
next
  case (step_close_fail s sub s' sub' ps)
  then show ?case using pb_close_fail [OF step_close_fail.hyps] by auto
qed (auto simp: inv_intros)

text \<open>
  C20. Readers stay inside their buffer: from a stream over the first \<open>n\<close> bytes of a block of at
  least \<open>n\<close> bytes, no sequence of reads, decodings, skips and nested substreams, opened and
  closed in stack order and whatever the input bytes are, moves the state pointer out of the
  block, and the bytes a stream may still read lie inside it.
\<close>

theorem pb_readers_memory_safe:
  assumes "pb_reader_step\<^sup>*\<^sup>* [pb_istream_from_buffer buf n] ss" "n \<le> length buf" "s \<in> set ss"
  shows "source s \<noteq> Buf_wild \<and>
    (\<forall>bs. source s = Buf_read bs \<longrightarrow> bytes_left s \<le> length bs)"
proof -
  have "reader_ok ss"
    using assms(1,2)
    by (induction rule: rtranclp_induct) (auto intro: istream_ok_from_buffer reader_step_ok)
  then have "\<exists>m. istream_margin m s"
    using assms(3) by (induction ss) auto
  then show ?thesis by (auto simp: istream_margin_def)
qed

theorem pb_readers_memory_safe_witness:
  "source (snd (pb_decode_varint (pb_istream_from_buffer [0x80, 8, 9] 3 :: unit pb_istream))) \<noteq> Buf_wild"
proof -
  let ?s = "pb_istream_from_buffer [0x80, 8, 9] 3 :: unit pb_istream"
  have "pb_reader_step\<^sup>*\<^sup>* [?s] [pb_run_op Op_varint ?s]"
    by (intro r_into_rtranclp pb_reader_step.step_op)
  then show ?thesis
    using pb_readers_memory_safe [of "[0x80, 8, 9]" 3 "[pb_run_op Op_varint ?s]" "pb_run_op Op_varint ?s"]
    by simp
qed

section \<open>32-bit varints\<close>

text \<open>
  The 32-bit decoder reads what the encoder writes for an unsigned 32-bit value and for the
  sign extension of a negative \<open>int32\<close>, and gives its low 32 bits.
\<close>

theorem pb_varint32_of_encoded:
  fixes s :: "'s pb_ostream"
  assumes "ostream_ok s" "sink s = Buf_write w room" "v < 2 ^ 32 \<or> sign_extended32 v"
    and "pb_encode_varint s v = (True, s')"
  shows "\<exists>bs. sink s' = Buf_write (w @ bs) (room - length bs) \<and>
    (\<forall>rest k e. pb_decode_varint32 (bufstream (bs @ rest) (length bs + k) e) =
       (Some (ucast v), bufstream rest k e))"
proof -
  have fits: "bytes_written s + length (varint_enc v) \<le> max_size s"
    using emitsD_full [OF emits_varint assms(1,2), of v] assms(4) by (auto simp: not_less [symmetric])
  have "unat v < 2 ^ 32" if "v < 2 ^ 32"
    using that by (simp add: word_less_nat_alt)
  then show ?thesis
    using emitsD_buf [OF emits_varint assms(1,2) fits] assms(3,4)
    by (intro exI [of _ "varint_enc v"]) (auto simp: pb_decode_varint32_sign pb_decode_varint32_enc)
qed

theorem pb_varint32_of_encoded_witness:
  "\<exists>bs s'. pb_encode_varint (pb_ostream_from_buffer 16 16 :: unit pb_ostream) (- 2) = (True, s') \<and>
    sink s' = Buf_write bs (16 - length bs) \<and>
    (\<forall>rest k e. pb_decode_varint32 (bufstream (bs @ rest) (length bs + k) e :: unit pb_istream) =
       (Some (- 2), bufstream rest k e))"
proof -
  have ok: "ostream_ok (pb_ostream_from_buffer 16 16 :: unit pb_ostream)"
    by (simp add: ostream_ok_from_buffer)
  obtain s' where put: "pb_encode_varint (pb_ostream_from_buffer 16 16 :: unit pb_ostream) (- 2) = (True, s')"
    using emitsD_buf [OF emits_varint ok, of "[]" 16 "- 2"] length_varint_enc [of "- 2"]
    by (simp add: pb_ostream_from_buffer_def)
  have "sign_extended32 (- 2)" by code_simp
  moreover have "(ucast (- 2 :: u64) :: u32) = - 2" by code_simp
  moreover have "sink (pb_ostream_from_buffer 16 16 :: unit pb_ostream) = Buf_write [] 16"
    by (simp add: pb_ostream_from_buffer_def)
  ultimately show ?thesis
    using pb_varint32_of_encoded [OF ok _ disjI2 put, of "[]" 16, where 'a = unit] put
    by (metis append_Nil)
qed


text \<open>
  The 32-bit decoder accepts a 64-bit value that is no sign extension of 32 bits, and drops
  its high bits, because it compares the bytes above bit 35 with the sign but checks only
  the low bits of the fifth byte when it is the last.
\<close>

theorem pb_varint32_truncates:
  "fst (pb_decode_varint32 (pb_istream_from_buffer [0x80,0x80,0x80,0x80,0x88,0xFF,0xFF,0xFF,0xFF,0x01] 10
     :: unit pb_istream)) = Some 0x80000000 \<and>
   fst (pb_decode_varint (pb_istream_from_buffer [0x80,0x80,0x80,0x80,0x88,0xFF,0xFF,0xFF,0xFF,0x01] 10
     :: unit pb_istream)) = Some 0xFFFFFFF880000000"
  by code_simp

end
