(* ===== verification/Cbs.thy ===== *)
theory Cbs
  imports Codec
begin

text \<open>
  The byte-string reader \<open>CBS\<close> of BoringSSL (\<open>crypto/bytestring/cbs.c\<close>): fixed-width and
  length-prefixed fields and DER elements.

  A \<open>CBS\<close> is a pointer with the number of bytes it may read; here it is the list of these
  bytes. A function that returns 1 and fills an out-parameter returns \<open>Some\<close> of the value, one
  that returns 0 returns \<open>None\<close>, and both return the \<open>CBS\<close> as the function leaves it. What the
  C leaves in an out-parameter when it fails is not modelled.
\<close>

type_synonym cbs = "byte list"

section \<open>Bytes and fixed-width integers\<close>

definition CBS_init :: "byte list \<Rightarrow> cbs" where
  "CBS_init data = data"

definition cbs_get :: "cbs \<Rightarrow> nat \<Rightarrow> byte list option \<times> cbs" where
  "cbs_get cbs n =
     (if length cbs < n then (None, cbs) else (Some (take n cbs), drop n cbs))"

definition CBS_skip :: "cbs \<Rightarrow> nat \<Rightarrow> unit option \<times> cbs" where
  "CBS_skip cbs len =
     (case cbs_get cbs len of (None, cbs') \<Rightarrow> (None, cbs') | (Some p, cbs') \<Rightarrow> (Some (), cbs'))"

text \<open>
  \<open>CBS_stow\<close> and \<open>CBS_strdup\<close> copy to the heap; \<open>alloc\<close> says whether the allocation succeeds.
  The result of \<open>CBS_stow\<close> is what it leaves in \<open>*out_ptr\<close> (\<open>None\<close> for \<open>NULL\<close>).
\<close>

definition CBS_stow :: "cbs \<Rightarrow> bool \<Rightarrow> bool \<times> byte list option" where
  "CBS_stow cbs alloc =
     (if cbs = [] then (True, None)
      else if alloc then (True, Some cbs) else (False, None))"

definition CBS_strdup :: "cbs \<Rightarrow> bool \<Rightarrow> byte list option" where
  "CBS_strdup cbs alloc = (if alloc then Some (takeWhile (\<lambda>b. b \<noteq> 0) cbs @ [0]) else None)"

definition CBS_contains_zero_byte :: "cbs \<Rightarrow> bool" where
  "CBS_contains_zero_byte cbs = (0 \<in> set cbs)"

text \<open>\<open>CRYPTO_memcmp\<close> accumulates the differences of all bytes.\<close>

definition CRYPTO_memcmp :: "byte list \<Rightarrow> byte list \<Rightarrow> byte" where
  "CRYPTO_memcmp a b = foldl (\<lambda>x (p, q). x OR (p XOR q)) 0 (zip a b)"

definition CBS_mem_equal :: "cbs \<Rightarrow> byte list \<Rightarrow> bool" where
  "CBS_mem_equal cbs data =
     (if length data \<noteq> length cbs then False else CRYPTO_memcmp cbs data = 0)"

definition cbs_get_u :: "cbs \<Rightarrow> nat \<Rightarrow> u64 option \<times> cbs" where
  "cbs_get_u cbs len =
     (case cbs_get cbs len of
        (None, cbs') \<Rightarrow> (None, cbs')
      | (Some data, cbs') \<Rightarrow>
          (Some (foldl (\<lambda>result b. push_bit 8 result OR ucast b) 0 data), cbs'))"

definition CBS_get_u8 :: "cbs \<Rightarrow> byte option \<times> cbs" where
  "CBS_get_u8 cbs =
     (case cbs_get cbs 1 of
        (None, cbs') \<Rightarrow> (None, cbs')
      | (Some v, cbs') \<Rightarrow> (Some (hd v), cbs'))"

definition CBS_get_u16 :: "cbs \<Rightarrow> u16 option \<times> cbs" where
  "CBS_get_u16 cbs =
     (case cbs_get_u cbs 2 of
        (None, cbs') \<Rightarrow> (None, cbs')
      | (Some v, cbs') \<Rightarrow> (Some (ucast v), cbs'))"

definition CRYPTO_bswap2 :: "u16 \<Rightarrow> u16" where
  "CRYPTO_bswap2 x = drop_bit 8 x OR push_bit 8 x"

definition CRYPTO_bswap4 :: "u32 \<Rightarrow> u32" where
  "CRYPTO_bswap4 x =
     (let x = drop_bit 16 x OR push_bit 16 x
      in drop_bit 8 (x AND 0xff00ff00) OR push_bit 8 (x AND 0x00ff00ff))"

definition CRYPTO_bswap8 :: "u64 \<Rightarrow> u64" where
  "CRYPTO_bswap8 x =
     ucast (CRYPTO_bswap4 (ucast (drop_bit 32 x))) OR
     push_bit 32 (ucast (CRYPTO_bswap4 (ucast x)))"

definition CBS_get_u16le :: "cbs \<Rightarrow> u16 option \<times> cbs" where
  "CBS_get_u16le cbs =
     (case CBS_get_u16 cbs of
        (None, cbs') \<Rightarrow> (None, cbs')
      | (Some v, cbs') \<Rightarrow> (Some (CRYPTO_bswap2 v), cbs'))"

definition CBS_get_u24 :: "cbs \<Rightarrow> u32 option \<times> cbs" where
  "CBS_get_u24 cbs =
     (case cbs_get_u cbs 3 of
        (None, cbs') \<Rightarrow> (None, cbs')
      | (Some v, cbs') \<Rightarrow> (Some (ucast v), cbs'))"

definition CBS_get_u32 :: "cbs \<Rightarrow> u32 option \<times> cbs" where
  "CBS_get_u32 cbs =
     (case cbs_get_u cbs 4 of
        (None, cbs') \<Rightarrow> (None, cbs')
      | (Some v, cbs') \<Rightarrow> (Some (ucast v), cbs'))"

definition CBS_get_u32le :: "cbs \<Rightarrow> u32 option \<times> cbs" where
  "CBS_get_u32le cbs =
     (case CBS_get_u32 cbs of
        (None, cbs') \<Rightarrow> (None, cbs')
      | (Some v, cbs') \<Rightarrow> (Some (CRYPTO_bswap4 v), cbs'))"

definition CBS_get_u64 :: "cbs \<Rightarrow> u64 option \<times> cbs" where
  "CBS_get_u64 cbs = cbs_get_u cbs 8"

definition CBS_get_u64le :: "cbs \<Rightarrow> u64 option \<times> cbs" where
  "CBS_get_u64le cbs =
     (case cbs_get_u cbs 8 of
        (None, cbs') \<Rightarrow> (None, cbs')
      | (Some v, cbs') \<Rightarrow> (Some (CRYPTO_bswap8 v), cbs'))"

definition CBS_get_last_u8 :: "cbs \<Rightarrow> byte option \<times> cbs" where
  "CBS_get_last_u8 cbs =
     (if length cbs = 0 then (None, cbs)
      else (Some (cbs ! (length cbs - 1)), take (length cbs - 1) cbs))"

definition CBS_get_bytes :: "cbs \<Rightarrow> nat \<Rightarrow> cbs option \<times> cbs" where
  "CBS_get_bytes cbs len =
     (case cbs_get cbs len of
        (None, cbs') \<Rightarrow> (None, cbs')
      | (Some v, cbs') \<Rightarrow> (Some (CBS_init v), cbs'))"

definition CBS_copy_bytes :: "cbs \<Rightarrow> nat \<Rightarrow> byte list option \<times> cbs" where
  "CBS_copy_bytes cbs len = cbs_get cbs len"

text \<open>When the length is read but the bytes are missing, the \<open>CBS\<close> has advanced past the length.\<close>

definition cbs_get_length_prefixed :: "cbs \<Rightarrow> nat \<Rightarrow> cbs option \<times> cbs" where
  "cbs_get_length_prefixed cbs len_len =
     (case cbs_get_u cbs len_len of
        (None, cbs') \<Rightarrow> (None, cbs')
      | (Some len, cbs') \<Rightarrow> CBS_get_bytes cbs' (unat len))"

definition CBS_get_u8_length_prefixed :: "cbs \<Rightarrow> cbs option \<times> cbs" where
  "CBS_get_u8_length_prefixed cbs = cbs_get_length_prefixed cbs 1"

definition CBS_get_u16_length_prefixed :: "cbs \<Rightarrow> cbs option \<times> cbs" where
  "CBS_get_u16_length_prefixed cbs = cbs_get_length_prefixed cbs 2"

definition CBS_get_u24_length_prefixed :: "cbs \<Rightarrow> cbs option \<times> cbs" where
  "CBS_get_u24_length_prefixed cbs = cbs_get_length_prefixed cbs 3"

section \<open>DER elements\<close>

text \<open>The loop of \<open>parse_base128_integer\<close> with its accumulator \<open>v\<close>.\<close>

fun base128_loop :: "cbs \<Rightarrow> u64 \<Rightarrow> u64 option \<times> cbs" where
  "base128_loop [] v = (None, [])"
| "base128_loop (b # cbs) v =
     (if drop_bit (64 - 7) v \<noteq> 0 then (None, cbs)
      else if v = 0 \<and> b = 0x80 then (None, cbs)
      else (let v' = push_bit 7 v OR ucast (b AND 0x7f)
            in if b AND 0x80 \<noteq> 0 then base128_loop cbs v' else (Some v', cbs)))"

definition parse_base128_integer :: "cbs \<Rightarrow> u64 option \<times> cbs" where
  "parse_base128_integer cbs = base128_loop cbs 0"

definition CBS_ASN1_TAG_SHIFT :: nat where
  "CBS_ASN1_TAG_SHIFT = 24"

definition CBS_ASN1_CONSTRUCTED :: u32 where
  "CBS_ASN1_CONSTRUCTED = push_bit CBS_ASN1_TAG_SHIFT 0x20"

definition CBS_ASN1_TAG_NUMBER_MASK :: u32 where
  "CBS_ASN1_TAG_NUMBER_MASK = push_bit (5 + CBS_ASN1_TAG_SHIFT) 1 - 1"

abbreviation "CBS_ASN1_BOOLEAN \<equiv> 0x1 :: u32"
abbreviation "CBS_ASN1_INTEGER \<equiv> 0x2 :: u32"
abbreviation "CBS_ASN1_OCTETSTRING \<equiv> 0x4 :: u32"

definition parse_asn1_tag :: "cbs \<Rightarrow> u32 option \<times> cbs" where
  "parse_asn1_tag cbs =
     (case CBS_get_u8 cbs of
        (None, cbs') \<Rightarrow> (None, cbs')
      | (Some tag_byte, cbs') \<Rightarrow>
          (let tag = push_bit CBS_ASN1_TAG_SHIFT (ucast tag_byte AND 0xe0) :: u32;
               tag_number = tag_byte AND 0x1f
           in if tag_number = 0x1f
              then (case parse_base128_integer cbs' of
                      (None, cbs'') \<Rightarrow> (None, cbs'')
                    | (Some v, cbs'') \<Rightarrow>
                        (if v > ucast CBS_ASN1_TAG_NUMBER_MASK \<or> v < 0x1f then (None, cbs'')
                         else (Some (tag OR ucast v), cbs'')))
              else (Some (tag OR ucast tag_number), cbs')))"

text \<open>The last call of \<open>cbs_get_any_asn1_element\<close>, with the out-parameters set before it.\<close>

definition cbs_take_element :: "cbs \<Rightarrow> u32 \<Rightarrow> nat \<Rightarrow> nat \<Rightarrow> (cbs \<times> u32 \<times> nat) option \<times> cbs" where
  "cbs_take_element cbs tag len header_len =
     (case CBS_get_bytes cbs len of
        (None, cbs') \<Rightarrow> (None, cbs')
      | (Some out, cbs') \<Rightarrow> (Some (out, tag, header_len), cbs'))"

text \<open>
  The element with its header, the tag and the length of the header. The header is parsed
  from a copy, so a failure before the last call leaves \<open>cbs\<close> as it is.
\<close>

definition cbs_get_any_asn1_element :: "cbs \<Rightarrow> bool \<Rightarrow> (cbs \<times> u32 \<times> nat) option \<times> cbs" where
  "cbs_get_any_asn1_element cbs ber_ok =
     (case parse_asn1_tag cbs of
        (None, _) \<Rightarrow> (None, cbs)
      | (Some tag, header) \<Rightarrow>
         (case CBS_get_u8 header of
            (None, _) \<Rightarrow> (None, cbs)
          | (Some length_byte, header') \<Rightarrow>
             (let header_len = length cbs - length header'
              in if length_byte AND 0x80 = 0
                 then cbs_take_element cbs tag (unat length_byte + header_len) header_len
                 else
                   (let num_bytes = unat (length_byte AND 0x7f)
                    in if ber_ok \<and> tag AND CBS_ASN1_CONSTRUCTED \<noteq> 0 \<and> num_bytes = 0
                       then cbs_take_element cbs tag header_len header_len
                       else if num_bytes = 0 \<or> num_bytes > 4 then (None, cbs)
                       else (case cbs_get_u header' num_bytes of
                               (None, _) \<Rightarrow> (None, cbs)
                             | (Some len64, _) \<Rightarrow>
                                 (if len64 < 128 then (None, cbs)
                                  else if drop_bit ((num_bytes - 1) * 8) len64 = 0 then (None, cbs)
                                  else if (unat len64 + header_len + num_bytes) mod size_mod < unat len64
                                  then (None, cbs)
                                  else cbs_take_element cbs tag ((unat len64 + header_len + num_bytes) mod size_mod)
                                    (header_len + num_bytes)))))))"

definition CBS_get_any_asn1_element :: "cbs \<Rightarrow> (cbs \<times> u32 \<times> nat) option \<times> cbs" where
  "CBS_get_any_asn1_element cbs = cbs_get_any_asn1_element cbs False"

definition CBS_get_any_ber_asn1_element :: "cbs \<Rightarrow> (cbs \<times> u32 \<times> nat) option \<times> cbs" where
  "CBS_get_any_ber_asn1_element cbs = cbs_get_any_asn1_element cbs True"

definition CBS_get_any_asn1 :: "cbs \<Rightarrow> (cbs \<times> u32) option \<times> cbs" where
  "CBS_get_any_asn1 cbs =
     (case CBS_get_any_asn1_element cbs of
        (None, cbs') \<Rightarrow> (None, cbs')
      | (Some (out, tag, header_len), cbs') \<Rightarrow>
          (case CBS_skip out header_len of
             (None, _) \<Rightarrow> (None, cbs')
           | (Some _, out') \<Rightarrow> (Some (out', tag), cbs')))"

definition cbs_get_asn1 :: "cbs \<Rightarrow> u32 \<Rightarrow> bool \<Rightarrow> cbs option \<times> cbs" where
  "cbs_get_asn1 cbs tag_value skip_header =
     (case CBS_get_any_asn1_element cbs of
        (None, cbs') \<Rightarrow> (None, cbs')
      | (Some (out, tag, header_len), cbs') \<Rightarrow>
          (if tag \<noteq> tag_value then (None, cbs')
           else if skip_header
           then (case CBS_skip out header_len of
                   (None, _) \<Rightarrow> (None, cbs')
                 | (Some _, out') \<Rightarrow> (Some out', cbs'))
           else (Some out, cbs')))"

definition CBS_get_asn1 :: "cbs \<Rightarrow> u32 \<Rightarrow> cbs option \<times> cbs" where
  "CBS_get_asn1 cbs tag_value = cbs_get_asn1 cbs tag_value True"

definition CBS_get_asn1_element :: "cbs \<Rightarrow> u32 \<Rightarrow> cbs option \<times> cbs" where
  "CBS_get_asn1_element cbs tag_value = cbs_get_asn1 cbs tag_value False"

definition CBS_peek_asn1_tag :: "cbs \<Rightarrow> u32 \<Rightarrow> bool" where
  "CBS_peek_asn1_tag cbs tag_value =
     (if length cbs < 1 then False
      else (case parse_asn1_tag cbs of
              (None, _) \<Rightarrow> False
            | (Some actual_tag, _) \<Rightarrow> tag_value = actual_tag))"

section \<open>Integers, booleans and optional elements\<close>

fun uint64_loop :: "byte list \<Rightarrow> u64 \<Rightarrow> u64 option" where
  "uint64_loop [] out = Some out"
| "uint64_loop (b # data) out =
     (if drop_bit 56 out \<noteq> 0 then None
      else uint64_loop data (push_bit 8 out OR ucast b))"

definition CBS_get_asn1_uint64 :: "cbs \<Rightarrow> u64 option \<times> cbs" where
  "CBS_get_asn1_uint64 cbs =
     (case CBS_get_asn1 cbs CBS_ASN1_INTEGER of
        (None, cbs') \<Rightarrow> (None, cbs')
      | (Some data, cbs') \<Rightarrow>
          (let len = length data
           in if len = 0 then (None, cbs')
              else if data ! 0 AND 0x80 \<noteq> 0 then (None, cbs')
              else if data ! 0 = 0 \<and> len > 1 \<and> data ! 1 AND 0x80 = 0 then (None, cbs')
              else (uint64_loop data 0, cbs')))"

text \<open>
  \<open>CBS_get_asn1_int64\<close> overlays an \<open>int64_t\<close> with its eight bytes, little-endian; the result is
  the word that represents it.
\<close>

definition CBS_get_asn1_int64 :: "cbs \<Rightarrow> u64 option \<times> cbs" where
  "CBS_get_asn1_int64 cbs =
     (case CBS_get_asn1 cbs CBS_ASN1_INTEGER of
        (None, cbs') \<Rightarrow> (None, cbs')
      | (Some data, cbs') \<Rightarrow>
          (let len = length data
           in if len = 0 \<or> len > 8 then (None, cbs')
              else if len > 1 \<and> data ! 0 = 0 \<and> data ! 1 AND 0x80 = 0 then (None, cbs')
              else if len > 1 \<and> data ! 0 = 0xff \<and> data ! 1 AND 0x80 \<noteq> 0 then (None, cbs')
              else
                (let is_negative = data ! 0 AND 0x80 \<noteq> 0;
                     bytes = foldl (\<lambda>u i. u[i := data ! (len - i - 1)])
                       (replicate 8 (if is_negative then 0xff else 0)) [0..<len]
                 in (Some (le_val bytes), cbs'))))"

definition CBS_get_asn1_bool :: "cbs \<Rightarrow> bool option \<times> cbs" where
  "CBS_get_asn1_bool cbs =
     (case CBS_get_asn1 cbs CBS_ASN1_BOOLEAN of
        (None, cbs') \<Rightarrow> (None, cbs')
      | (Some bytes, cbs') \<Rightarrow>
          (if length bytes \<noteq> 1 then (None, cbs')
           else if bytes ! 0 \<noteq> 0 \<and> bytes ! 0 \<noteq> 0xff then (None, cbs')
           else (Some (bytes ! 0 \<noteq> 0), cbs')))"

text \<open>The result is \<open>Some None\<close> when the element is absent.\<close>

definition CBS_get_optional_asn1 :: "cbs \<Rightarrow> u32 \<Rightarrow> cbs option option \<times> cbs" where
  "CBS_get_optional_asn1 cbs tag =
     (if CBS_peek_asn1_tag cbs tag
      then (case CBS_get_asn1 cbs tag of
              (None, cbs') \<Rightarrow> (None, cbs')
            | (Some out, cbs') \<Rightarrow> (Some (Some out), cbs'))
      else (Some None, cbs))"

definition CBS_get_optional_asn1_octet_string :: "cbs \<Rightarrow> u32 \<Rightarrow> (cbs \<times> bool) option \<times> cbs" where
  "CBS_get_optional_asn1_octet_string cbs tag =
     (case CBS_get_optional_asn1 cbs tag of
        (None, cbs') \<Rightarrow> (None, cbs')
      | (Some (Some child), cbs') \<Rightarrow>
          (case CBS_get_asn1 child CBS_ASN1_OCTETSTRING of
             (None, _) \<Rightarrow> (None, cbs')
           | (Some out, child') \<Rightarrow>
               (if length child' \<noteq> 0 then (None, cbs') else (Some (out, True), cbs')))
      | (Some None, cbs') \<Rightarrow> (Some ([], False), cbs'))"

definition CBS_get_optional_asn1_uint64 :: "cbs \<Rightarrow> u32 \<Rightarrow> u64 \<Rightarrow> u64 option \<times> cbs" where
  "CBS_get_optional_asn1_uint64 cbs tag default_value =
     (case CBS_get_optional_asn1 cbs tag of
        (None, cbs') \<Rightarrow> (None, cbs')
      | (Some (Some child), cbs') \<Rightarrow>
          (case CBS_get_asn1_uint64 child of
             (None, _) \<Rightarrow> (None, cbs')
           | (Some out, child') \<Rightarrow>
               (if length child' \<noteq> 0 then (None, cbs') else (Some out, cbs')))
      | (Some None, cbs') \<Rightarrow> (Some default_value, cbs'))"

definition CBS_get_optional_asn1_bool :: "cbs \<Rightarrow> u32 \<Rightarrow> bool \<Rightarrow> bool option \<times> cbs" where
  "CBS_get_optional_asn1_bool cbs tag default_value =
     (case CBS_get_optional_asn1 cbs tag of
        (None, cbs') \<Rightarrow> (None, cbs')
      | (Some (Some child), cbs') \<Rightarrow>
          (case CBS_get_asn1 child CBS_ASN1_BOOLEAN of
             (None, _) \<Rightarrow> (None, cbs')
           | (Some child2, child') \<Rightarrow>
               (if length child2 \<noteq> 1 \<or> length child' \<noteq> 0 then (None, cbs')
                else if child2 ! 0 = 0 then (Some False, cbs')
                else if child2 ! 0 = 0xff then (Some True, cbs')
                else (None, cbs')))
      | (Some None, cbs') \<Rightarrow> (Some default_value, cbs'))"

definition CBS_is_valid_asn1_bitstring :: "cbs \<Rightarrow> bool" where
  "CBS_is_valid_asn1_bitstring cbs =
     (case CBS_get_u8 cbs of
        (None, _) \<Rightarrow> False
      | (Some num_unused_bits, cbs') \<Rightarrow>
          (if num_unused_bits > 7 then False
           else if num_unused_bits = 0 then True
           else (case CBS_get_last_u8 cbs' of
                   (None, _) \<Rightarrow> False
                 | (Some last_byte, _) \<Rightarrow>
                     last_byte AND (push_bit (unat num_unused_bits) 1 - 1) = 0)))"

definition CBS_asn1_bitstring_has_bit :: "cbs \<Rightarrow> u32 \<Rightarrow> bool" where
  "CBS_asn1_bitstring_has_bit cbs bit_index =
     (if \<not> CBS_is_valid_asn1_bitstring cbs then False
      else
        (let byte_num = unat (drop_bit 3 bit_index + 1);
             bit_num = 7 - unat (bit_index AND 7)
         in byte_num < length cbs \<and> cbs ! byte_num AND push_bit bit_num 1 \<noteq> 0))"

end
