(* ===== verification/Der.thy ===== *)
theory Der
  imports Cbs
begin

text \<open>
  The distinguished encoding rules the readers and writers of \<open>crypto/bytestring\<close> implement,
  as an encoder over byte lists, and the readers of \<open>CBS\<close> proved to accept exactly it.
\<close>

section \<open>The encoding rules\<close>

text \<open>Base-128 integers, most significant group first, without leading zero groups.\<close>

function b128_hi :: "u64 \<Rightarrow> byte list" where
  "b128_hi v = (if v = 0 then [] else b128_hi (drop_bit 7 v) @ [0x80 OR ucast (take_bit 7 v)])"
  by pat_completeness auto
termination
proof (relation "measure unat", simp)
  fix v :: u64
  assume "v \<noteq> 0"
  then have "unat v > 0" by (simp add: unat_gt_0)
  then show "(drop_bit 7 v, v) \<in> measure unat"
    by (simp add: unat_drop_bit_word)
qed

declare b128_hi.simps [simp del]

definition b128 :: "u64 \<Rightarrow> byte list" where
  "b128 v = b128_hi (drop_bit 7 v) @ [ucast (take_bit 7 v)]"

text \<open>The identifier octets of a tag in the representation of \<open>CBS_ASN1_TAG_SHIFT\<close>.\<close>

definition der_tag :: "u32 \<Rightarrow> byte list" where
  "der_tag tag =
     (let number = take_bit 29 tag; cls = ucast (drop_bit 24 tag) AND 0xe0
      in if number < 0x1f then [cls OR ucast number]
         else (cls OR 0x1f) # b128 (ucast number))"

text \<open>The length octets, in the shortest form.\<close>

definition len_octets :: "nat \<Rightarrow> nat" where
  "len_octets n = (if n < 2 ^ 8 then 1 else if n < 2 ^ 16 then 2 else if n < 2 ^ 24 then 3 else 4)"

definition der_len :: "nat \<Rightarrow> byte list" where
  "der_len n =
     (if n < 128 then [of_nat n]
      else of_nat (128 + len_octets n) # be_bytes (len_octets n) (of_nat n :: u64))"

definition der_element :: "u32 \<Rightarrow> byte list \<Rightarrow> byte list" where
  "der_element tag contents = der_tag tag @ der_len (length contents) @ contents"

lemma unat_ucast_small:
  "unat (x :: 'a::len word) < 2 ^ LENGTH('b::len) \<Longrightarrow> unat (ucast x :: 'b word) = unat x"
  by (simp add: unsigned_ucast_eq take_bit_nat_eq_self)

lemma ucast_ucast_small:
  "unat (x :: 'a::len word) < 2 ^ LENGTH('b::len) \<Longrightarrow> ucast (ucast x :: 'b word) = x"
  by (simp add: word_unat_eq_iff unsigned_ucast_eq unsigned_take_bit_eq take_bit_nat_eq_self)

section \<open>Base-128 integers\<close>

lemma ucast_byte_7: "(ucast (ucast (take_bit 7 v) :: byte) :: u64) = take_bit 7 v"
  by (rule bit_word_eqI) (auto simp: bit_simps)

lemma drop_7_less: "drop_bit 7 (v :: u64) < 2 ^ 57"
  using unsigned_less [of v, where 'a = nat] by (simp add: word_less_nat_alt unat_drop_bit_word)

lemma byte_high_low:
  fixes b :: byte
  shows "b AND 0x80 = 0 \<Longrightarrow> b AND 0x7f = b" and "b AND 0x80 \<noteq> 0 \<Longrightarrow> 0x80 OR (b AND 0x7f) = b"
proof -
  assume a: "b AND 0x80 = 0"
  show "b AND 0x7f = b"
  proof (rule bit_word_eqI)
    fix n assume "n < LENGTH(8)"
    with a show "bit (b AND 0x7f) n = bit b n"
      by (cases "n = 7") (auto simp: bit_simps)
  qed
next
  assume a: "b AND 0x80 \<noteq> 0"
  show "0x80 OR (b AND 0x7f) = b"
  proof (rule bit_word_eqI)
    fix n assume "n < LENGTH(8)"
    with a show "bit (0x80 OR (b AND 0x7f)) n = bit b n"
      by (cases "n = 7") (auto simp: bit_simps)
  qed
qed

lemma base128_step:
  assumes "v < 2 ^ 57" "v \<noteq> 0"
  shows "base128_loop ((0x80 OR ucast (take_bit 7 v)) # cbs) (drop_bit 7 v) = base128_loop cbs v"
proof -
  let ?x = "ucast (take_bit 7 v) :: byte"
  have d: "drop_bit 57 (drop_bit 7 v) = 0"
    using drop_7_less by (rule drop_bit_word_less)
  have "?x = (0x80 OR ?x) AND 0x7f"
    by (rule bit_word_eqI) (auto simp: bit_simps)
  then have "take_bit 7 v = 0" if "0x80 OR ?x = 0x80"
    using that ucast_byte_7 [of v] by simp
  then have n: "\<not> (drop_bit 7 v = 0 \<and> 0x80 OR ?x = 0x80)"
    using assms(2) drop_bit_eq_0_imp_take_bit [of 7 v] by auto
  have "push_bit 7 (drop_bit 7 v) OR ucast ((0x80 OR ?x) AND 0x7f) = v"
  proof (rule bit_word_eqI)
    fix n assume "n < LENGTH(64)"
    then show "bit (push_bit 7 (drop_bit 7 v) OR ucast ((0x80 OR ?x) AND 0x7f)) n = bit v n"
      by (cases "n < 7") (auto simp: bit_simps)
  qed
  then show ?thesis using d n by (auto simp: bit_simps)
qed

lemma base128_loop_hi:
  "v < 2 ^ 57 \<Longrightarrow> base128_loop (b128_hi v @ cbs) 0 = base128_loop cbs v"
proof (induction v arbitrary: cbs rule: b128_hi.induct)
  case (1 v)
  show ?case
  proof (cases "v = 0")
    case False
    then show ?thesis
      using "1.IH" [OF False drop_7_less] base128_step [OF "1.prems" False, of cbs]
      by (subst b128_hi.simps) simp
  qed (simp add: b128_hi.simps [of 0])
qed

lemma parse_base128_integer_enc [stream_simps]:
  "parse_base128_integer (b128 v @ rest) = (Some v, rest)"
proof -
  have d: "drop_bit 57 (drop_bit 7 v) = 0"
    using drop_7_less by (rule drop_bit_word_less)
  have "push_bit 7 (drop_bit 7 v) OR ucast (ucast (take_bit 7 v) AND 0x7f :: byte) = v"
    by (rule bit_word_eqI) (fastforce simp: bit_simps)
  moreover have "\<not> bit (ucast (take_bit 7 v) :: byte) 7" by (simp add: bit_simps)
  ultimately show ?thesis
    using d by (auto simp: parse_base128_integer_def b128_def base128_loop_hi [OF drop_7_less])
qed

lemma base128_loop_sound:
  "base128_loop cbs v = (Some r, rest) \<Longrightarrow> b128_hi v @ cbs = b128 r @ rest"
proof (induction cbs v rule: base128_loop.induct)
  case (2 b cbs v)
  define v' where "v' = push_bit 7 v OR ucast (b AND 0x7f)"
  have h: "drop_bit 57 v = 0" "\<not> (v = 0 \<and> b = 0x80)"
    using "2.prems" by (auto split: if_splits)
  have shift: "drop_bit 7 v' = v"
  proof (rule bit_word_eqI)
    fix n assume n: "n < LENGTH(64)"
    have "\<not> bit (drop_bit 57 v) (n - 57)" using h(1) by simp
    then have "bit v n \<Longrightarrow> n < 57" by (cases "n < 57") (simp_all add: bit_drop_bit_eq)
    then show "bit (drop_bit 7 v') n = bit v n"
      using n by (auto simp: v'_def bit_simps)
  qed
  have low: "take_bit 7 v' = ucast (b AND 0x7f)"
    by (rule bit_word_eqI) (auto simp: v'_def bit_simps)
  have low': "ucast (take_bit 7 v') = b AND 0x7f" unfolding low
    by (rule bit_word_eqI) (auto simp: bit_simps)
  show ?case
  proof (cases "b AND 0x80 = 0")
    case True
    then have "r = v'" "rest = cbs" using "2.prems" h by (auto simp: v'_def)
    then show ?thesis using byte_high_low(1) [OF True] by (simp add: b128_def shift low')
  next
    case False
    then have "base128_loop cbs v' = (Some r, rest)" using "2.prems" h by (simp add: v'_def)
    then have "b128_hi v' @ cbs = b128 r @ rest" using "2.IH" h False by (simp add: v'_def)
    moreover have "v' \<noteq> 0"
      using shift low' byte_high_low(2) [OF False] h(2) by (metis and_zero_eq bit.disj_zero_right drop_bit_of_0 take_bit_of_0 unsigned_0)
    ultimately show ?thesis
      by (simp add: b128_hi.simps [of v'] shift low' byte_high_low(2) [OF False])
  qed
qed simp

lemma parse_base128_integer_sound:
  "parse_base128_integer cbs = (Some v, rest) \<Longrightarrow> cbs = b128 v @ rest"
  using base128_loop_sound [of cbs 0 v rest] by (simp add: parse_base128_integer_def b128_hi.simps [of 0])


section \<open>Tags\<close>

lemma bit_1F [simp]:
  "bit (0x1F :: 'a::ring_bit_operations) n \<longleftrightarrow> possible_bit TYPE('a) n \<and> n < 5"
proof -
  have "(0x1F :: 'a) = mask 5" by (simp add: mask_eq_exp_minus_1)
  then show ?thesis by (simp only: bit_simps)
qed

lemma bit_E0 [simp]:
  "bit (0xE0 :: 'a::ring_bit_operations) n \<longleftrightarrow> possible_bit TYPE('a) n \<and> 5 \<le> n \<and> n < 8"
proof -
  have "push_bit 5 (mask 3) = (0xE0 :: 'a)" by (simp add: mask_eq_exp_minus_1 push_bit_eq_mult)
  then have "bit (0xE0 :: 'a) n = bit (push_bit 5 (mask 3) :: 'a) n" by (simp only:)
  then show ?thesis by (auto simp: bit_push_bit_iff bit_mask_iff possible_bit_less_imp)
qed

lemma bit_E0000000 [simp]:
  "bit (0xE0000000 :: 'a::ring_bit_operations) n \<longleftrightarrow> possible_bit TYPE('a) n \<and> 29 \<le> n \<and> n < 32"
proof -
  have "push_bit 29 (mask 3) = (0xE0000000 :: 'a)" by (simp add: mask_eq_exp_minus_1 push_bit_eq_mult)
  then have "bit (0xE0000000 :: 'a) n = bit (push_bit 29 (mask 3) :: 'a) n" by (simp only:)
  then show ?thesis by (auto simp: bit_push_bit_iff bit_mask_iff possible_bit_less_imp)
qed

lemma tag_parts:
  fixes b :: byte and num :: u32
  assumes "num < 2 ^ 29"
  shows "take_bit 29 (push_bit 24 (ucast b AND 0xe0) OR num) = num"
    and "ucast (drop_bit 24 (push_bit 24 (ucast b AND 0xe0) OR num)) AND 0xe0 = b AND 0xe0"
  using bit_word_less [OF assms]
  by (rule_tac [!] bit_word_eqI) (fastforce simp: bit_simps)+

lemma tag_join:
  "push_bit 24 (ucast (ucast (drop_bit 24 (tag :: u32)) AND 0xe0 :: byte) AND 0xe0) OR take_bit 29 tag = tag"
proof (rule bit_word_eqI)
  fix n assume "n < LENGTH(32)"
  then show "bit (push_bit 24 (ucast (ucast (drop_bit 24 tag) AND 0xe0 :: byte) AND 0xe0) OR take_bit 29 tag) n = bit tag n"
    by (cases "n < 29") (auto simp: bit_simps)
qed

lemma byte_e0_1f: "(b AND 0xe0) OR (b AND 0x1f) = (b :: byte)"
  by (rule bit_word_eqI) (fastforce simp: bit_simps)

lemma tag_mask: "ucast CBS_ASN1_TAG_NUMBER_MASK = (2 ^ 29 - 1 :: u64)"
  by (simp add: CBS_ASN1_TAG_NUMBER_MASK_def CBS_ASN1_TAG_SHIFT_def push_bit_eq_mult)

lemma CBS_get_u8_Cons [stream_simps]:
  "CBS_get_u8 (b # bs) = (Some b, bs)" "CBS_get_u8 [] = (None, [])"
  by (simp_all add: CBS_get_u8_def cbs_get_def)

lemma take_29_less: "take_bit 29 (tag :: u32) < 2 ^ 29"
  by (simp add: word_less_nat_alt unsigned_take_bit_eq) (simp add: take_bit_eq_mod)

lemma parse_asn1_tag_enc [stream_simps]: "parse_asn1_tag (der_tag tag @ rest) = (Some tag, rest)"
proof -
  let ?n = "take_bit 29 tag" and ?c = "ucast (drop_bit 24 tag) AND 0xe0 :: byte"
  have c: "ucast (?c OR x) AND 0xe0 = (ucast ?c AND 0xe0 :: u32)" if "x < 32" for x :: byte
    using bit_word_less [of x 5] that by (intro bit_word_eqI) (fastforce simp: bit_simps)
  have l: "(?c OR x) AND 0x1f = x" if "x < 32" for x :: byte
    using bit_word_less [of x 5] that by (intro bit_word_eqI) (fastforce simp: bit_simps)
  show ?thesis
  proof (cases "?n < 0x1f")
    case True
    then have "unat ?n < 31" by (simp add: word_less_nat_alt)
    then have s: "ucast ?n < (31 :: byte)" "ucast ?n < (32 :: byte)" "ucast (ucast ?n :: byte) = ?n"
      by (simp_all add: word_less_nat_alt unat_ucast_small ucast_ucast_small)
    have t: "push_bit 24 (ucast (?c OR ucast ?n) AND 0xe0) OR ?n = tag"
      unfolding c [OF s(2)] by (rule tag_join)
    then show ?thesis
      using True l [of "ucast ?n"] s
      by (auto simp: parse_asn1_tag_def der_tag_def stream_simps CBS_ASN1_TAG_SHIFT_def Let_def)
  next
    case False
    have "unat ?n < 2 ^ 29" using take_29_less [of tag] by (simp add: word_less_nat_alt)
    then have s: "ucast ?n \<le> (2 ^ 29 - 1 :: u64)" "\<not> ucast ?n < (31 :: u64)" "ucast (ucast ?n :: u64) = ?n"
      using False by (simp_all add: word_less_nat_alt word_le_nat_alt unat_ucast_small ucast_ucast_small)
    show ?thesis
      using False l [of "0x1f"] c [of "0x1f"] s tag_join [of tag]
      by (simp add: parse_asn1_tag_def der_tag_def stream_simps CBS_ASN1_TAG_SHIFT_def tag_mask)
  qed
qed

lemma parse_asn1_tag_sound:
  assumes "parse_asn1_tag cbs = (Some tag, rest)"
  shows "cbs = der_tag tag @ rest"
proof (cases cbs)
  case Nil
  then show ?thesis using assms by (simp add: parse_asn1_tag_def stream_simps)
next
  case (Cons b bs)
  show ?thesis
  proof (cases "b AND 0x1f = 0x1f")
    case False
    define num :: u32 where "num = ucast (b AND 0x1f)"
    have tag: "tag = push_bit 24 (ucast b AND 0xe0) OR num" "rest = bs"
      using assms Cons False by (simp_all add: parse_asn1_tag_def stream_simps CBS_ASN1_TAG_SHIFT_def num_def)
    have num: "num < 2 ^ 29" "num < 0x1f" "ucast num = b AND 0x1f"
    proof -
      have "b AND 0x1f = take_bit 5 b" by (simp add: take_bit_eq_mask mask_eq_exp_minus_1)
      then have "unat (b AND 0x1f) < 32" by (simp add: unsigned_take_bit_eq) (simp add: take_bit_eq_mod)
      moreover have "unat (b AND 0x1f) \<noteq> 31" using False by (simp add: word_unat_eq_iff)
      ultimately have "unat (b AND 0x1f) < 31" by simp
      then show "num < 2 ^ 29" "num < 0x1f" "ucast num = b AND 0x1f"
        by (simp_all add: num_def word_less_nat_alt unat_ucast_small ucast_ucast_small)
    qed
    show ?thesis
      using tag_parts [OF num(1), of b] num Cons byte_e0_1f [of b]
      by (simp add: der_tag_def tag)
  next
    case True
    then obtain v where v: "parse_base128_integer bs = (Some v, rest)" "v \<le> 2 ^ 29 - 1" "\<not> v < 0x1f"
      "tag = push_bit 24 (ucast b AND 0xe0) OR ucast v"
      using assms Cons by (auto simp: parse_asn1_tag_def stream_simps CBS_ASN1_TAG_SHIFT_def tag_mask
          split: option.splits prod.splits if_splits)
    have num: "(ucast v :: u32) < 2 ^ 29" "\<not> (ucast v :: u32) < 0x1f" "ucast (ucast v :: u32) = v"
    proof -
      have "unat v < 2 ^ 29" "31 \<le> unat v" using v(2,3) by (simp_all add: word_less_nat_alt word_le_nat_alt)
      then show "(ucast v :: u32) < 2 ^ 29" "\<not> (ucast v :: u32) < 0x1f" "ucast (ucast v :: u32) = v"
        by (simp_all add: word_less_nat_alt unat_ucast_small ucast_ucast_small)
    qed
    show ?thesis
      using tag_parts [OF num(1), of b] num(2,3) Cons True byte_e0_1f [of b] parse_base128_integer_sound [OF v(1)]
      by (simp add: der_tag_def v(4))
  qed
qed

section \<open>Fixed-width and length-prefixed fields\<close>

text \<open>A reader as the decoder of a codec.\<close>

definition run_cbs :: "(cbs \<Rightarrow> 'a option \<times> cbs) \<Rightarrow> byte list \<Rightarrow> ('a \<times> byte list) option" where
  "run_cbs op bs = (case op bs of (Some v, rest) \<Rightarrow> Some (v, rest) | (None, rest) \<Rightarrow> None)"

lemma run_cbs_eq [simp]: "run_cbs op bs = Some (v, rest) \<longleftrightarrow> op bs = (Some v, rest)"
  by (auto simp: run_cbs_def split: prod.splits option.splits)

lemma be_fold: "foldl (\<lambda>result b. push_bit 8 result OR ucast b) 0 bs = (be_val bs :: u64)"
  by (induction bs rule: rev_induct) (simp_all add: be_val_def or.commute)

lemma cbs_get_app [stream_simps]: "length d = n \<Longrightarrow> cbs_get (d @ rest) n = (Some d, rest)"
  by (simp add: cbs_get_def)

lemma cbs_get_sound: "cbs_get cbs n = (Some d, rest) \<longleftrightarrow> length d = n \<and> cbs = d @ rest"
proof
  assume "cbs_get cbs n = (Some d, rest)"
  then have "n \<le> length cbs" "d = take n cbs" "rest = drop n cbs"
    by (simp_all add: cbs_get_def split: if_splits)
  then show "length d = n \<and> cbs = d @ rest" by simp
qed (auto simp: stream_simps)

lemma CBS_get_bytes_eq: "CBS_get_bytes cbs n = cbs_get cbs n"
  by (simp add: CBS_get_bytes_def CBS_init_def split: prod.split option.split)

lemma CBS_get_bytes_app [stream_simps]: "length d = n \<Longrightarrow> CBS_get_bytes (d @ rest) n = (Some d, rest)"
  by (simp add: CBS_get_bytes_eq stream_simps)

lemma CBS_get_bytes_sound: "CBS_get_bytes cbs n = (Some d, rest) \<longleftrightarrow> length d = n \<and> cbs = d @ rest"
  by (simp add: CBS_get_bytes_eq cbs_get_sound)

lemma cbs_get_u_enc [stream_simps]:
  "cbs_get_u (be_bytes k v @ rest) k = (Some (take_bit (8 * k) v), rest)"
  by (simp add: cbs_get_u_def stream_simps be_fold be_val_be_bytes)

lemma cbs_get_u_sound:
  assumes "cbs_get_u cbs k = (Some v, rest)" "k \<le> 8"
  shows "cbs = be_bytes k v @ rest \<and> take_bit (8 * k) v = v"
proof -
  obtain d where d: "length d = k" "cbs = d @ rest" "v = be_val d"
    using assms(1) by (auto simp: cbs_get_u_def be_fold cbs_get_sound split: prod.splits option.splits)
  then have "be_bytes k v = d" using be_bytes_be_val [of d, where 'a = 64] assms(2) by simp
  then show ?thesis using d be_val_be_bytes [of k v] by simp
qed

lemma cbs_get_u_le: "bit (v :: u64) n \<Longrightarrow> take_bit (8 * k) v = v \<Longrightarrow> n < 8 * k"
  by (metis bit_take_bit_iff)

interpretation cbs_u8: canonical_codec "\<lambda>b. [b]" "run_cbs CBS_get_u8" "\<lambda>b. True"
  by unfold_locales (auto simp: CBS_get_u8_def cbs_get_def hd_conv_nth
    Cons_nth_drop_Suc [of 0, simplified] split: if_splits)

lemma ucast_be_bytes:
  assumes "take_bit (8 * k) v = v" "8 * k \<le> LENGTH('b::len)"
  shows "ucast (ucast v :: 'b word) = (v :: u64)"
proof (rule bit_word_eqI)
  fix n
  assume "n < LENGTH(64)"
  then show "bit (ucast (ucast v :: 'b word) :: u64) n = bit v n"
    using cbs_get_u_le [of v n k] assms by (auto simp: bit_simps)
qed

lemma ucast_take_ucast:
  "LENGTH('a) \<le> n \<Longrightarrow> LENGTH('a) \<le> 64 \<Longrightarrow> ucast (take_bit n (ucast v :: u64)) = (v :: 'a::len word)"
  by (rule bit_word_eqI) (auto simp: bit_simps)

text \<open>The shape of all fixed-width readers.\<close>

lemma cbs_get_u_canonical:
  assumes op: "\<And>c. op c = (case cbs_get_u c k of (None, c') \<Rightarrow> (None, c') | (Some v, c') \<Rightarrow> (Some (ucast v :: 'a::len word), c'))"
    and k: "8 * k \<le> LENGTH('a)" "LENGTH('a) \<le> 64"
  shows "canonical_codec (\<lambda>v. be_bytes k (ucast v :: u64)) (run_cbs op) (\<lambda>v. take_bit (8 * k) v = v)"
proof
  fix v :: "'a word" and rest
  assume v: "take_bit (8 * k) v = v"
  have "ucast (take_bit (8 * k) (ucast v :: u64)) = v"
    using k by (subst (2) v [symmetric], intro bit_word_eqI) (auto simp: bit_simps)
  then show "run_cbs op (be_bytes k (ucast v :: u64) @ rest) = Some (v, rest)"
    by (simp add: op stream_simps)
next
  fix bs v rest
  assume "run_cbs op bs = Some (v, rest)"
  then obtain x where x: "cbs_get_u bs k = (Some x, rest)" "v = ucast x"
    by (auto simp: op split: prod.splits option.splits)
  have k8: "k \<le> 8" using k by simp
  note s = cbs_get_u_sound [OF x(1) k8]
  have "take_bit (8 * k) v = v"
    using cbs_get_u_le [of x _ k] s x(2) by (intro bit_word_eqI) (auto simp: bit_simps)
  then show "take_bit (8 * k) v = v \<and> bs = be_bytes k (ucast v :: u64) @ rest"
    using s x(2) ucast_be_bytes [of k x, where 'b = 'a] k by simp
qed

interpretation cbs_u16: canonical_codec "\<lambda>v. be_bytes 2 (ucast v :: u64)" "run_cbs CBS_get_u16"
  "\<lambda>v. take_bit (8 * 2) v = v"
  by (rule cbs_get_u_canonical) (simp_all add: CBS_get_u16_def)

interpretation cbs_u24: canonical_codec "\<lambda>v. be_bytes 3 (ucast v :: u64)" "run_cbs CBS_get_u24"
  "\<lambda>v. take_bit (8 * 3) v = v"
  by (rule cbs_get_u_canonical) (simp_all add: CBS_get_u24_def)

interpretation cbs_u32: canonical_codec "\<lambda>v. be_bytes 4 (ucast v :: u64)" "run_cbs CBS_get_u32"
  "\<lambda>v. take_bit (8 * 4) v = v"
  by (rule cbs_get_u_canonical) (simp_all add: CBS_get_u32_def)

interpretation cbs_u64: canonical_codec "\<lambda>v. be_bytes 8 (ucast v :: u64)" "run_cbs CBS_get_u64"
  "\<lambda>v. take_bit (8 * 8) v = v"
  by (rule cbs_get_u_canonical) (simp_all add: CBS_get_u64_def split: option.split prod.split)

text \<open>A length of \<open>k\<close> bytes before the data.\<close>

definition prefixed_enc :: "nat \<Rightarrow> byte list \<Rightarrow> byte list" where
  "prefixed_enc k d = be_bytes k (of_nat (length d) :: u64) @ d"

lemma unat_of_nat_small: "n < 2 ^ LENGTH('a::len) \<Longrightarrow> unat (of_nat n :: 'a word) = n"
  by (simp add: unat_of_nat)

lemma take_bit_small: "unat (v :: 'a::len word) < 2 ^ n \<longleftrightarrow> take_bit n v = v"
  by (simp add: word_unat_eq_iff unsigned_take_bit_eq take_bit_nat_eq_self_iff)

lemma length_prefixed_canonical:
  assumes "k \<le> 3"
  shows "canonical_codec (prefixed_enc k) (run_cbs (\<lambda>c. cbs_get_length_prefixed c k)) (\<lambda>d. length d < 2 ^ (8 * k))"
proof
  have k: "(2::nat) ^ (8 * k) \<le> 2 ^ 64" using assms by (intro power_increasing) auto
  {
    fix d rest :: "byte list"
    assume d: "length d < 2 ^ (8 * k)"
    then have "unat (of_nat (length d) :: u64) = length d"
      using k by (intro unat_of_nat_small) auto
    moreover from this have "take_bit (8 * k) (of_nat (length d) :: u64) = of_nat (length d)"
      using d by (simp only: take_bit_small [symmetric])
    ultimately show "run_cbs (\<lambda>c. cbs_get_length_prefixed c k) (prefixed_enc k d @ rest) = Some (d, rest)"
      by (simp add: prefixed_enc_def cbs_get_length_prefixed_def stream_simps)
  next
    fix bs d rest
    assume "run_cbs (\<lambda>c. cbs_get_length_prefixed c k) bs = Some (d, rest)"
    then obtain v c where v: "cbs_get_u bs k = (Some v, c)" "c = d @ rest" "length d = unat v"
      by (auto simp: cbs_get_length_prefixed_def CBS_get_bytes_sound split: prod.splits option.splits)
    have "k \<le> 8" using assms by simp
    note s = cbs_get_u_sound [OF v(1) this]
    then show "length d < 2 ^ (8 * k) \<and> bs = prefixed_enc k d @ rest"
      using v take_bit_small [of v "8 * k"] by (simp add: prefixed_enc_def)
  }
qed

interpretation cbs_prefix8: canonical_codec "prefixed_enc 1" "run_cbs CBS_get_u8_length_prefixed"
  "\<lambda>d. length d < 2 ^ (8 * 1)"
  unfolding CBS_get_u8_length_prefixed_def by (rule length_prefixed_canonical) simp

interpretation cbs_prefix16: canonical_codec "prefixed_enc 2" "run_cbs CBS_get_u16_length_prefixed"
  "\<lambda>d. length d < 2 ^ (8 * 2)"
  unfolding CBS_get_u16_length_prefixed_def by (rule length_prefixed_canonical) simp

interpretation cbs_prefix24: canonical_codec "prefixed_enc 3" "run_cbs CBS_get_u24_length_prefixed"
  "\<lambda>d. length d < 2 ^ (8 * 3)"
  unfolding CBS_get_u24_length_prefixed_def by (rule length_prefixed_canonical) simp

section \<open>Elements\<close>

lemma unat_byte_7f: "b AND 0x80 = 0 \<Longrightarrow> unat (b :: byte) < 128"
  using byte_high_low(1) [of b] take_bit_small [of b 7] by (simp add: and_mask_7F)

lemma len_octets_bounds:
  assumes "n < 2 ^ 32"
  shows "len_octets n \<in> {1, 2, 3, 4}" "n < 2 ^ (8 * len_octets n)"
    "len_octets n > 1 \<Longrightarrow> 2 ^ (8 * (len_octets n - 1)) \<le> n"
  using assms by (auto simp: len_octets_def)

lemma len_octets_unique:
  assumes "k \<in> {1, 2, 3, 4}" "n < 2 ^ (8 * k)" "k > 1 \<Longrightarrow> 2 ^ (8 * (k - 1)) \<le> n"
  shows "len_octets n = k"
  using assms by (auto simp: len_octets_def)

lemma length_b128_hi: "unat v < 2 ^ (7 * k) \<Longrightarrow> length (b128_hi v) \<le> k"
proof (induction k arbitrary: v)
  case 0
  then have "v = 0" by (simp add: unat_eq_0)
  then show ?case by (simp add: b128_hi.simps [of 0])
next
  case (Suc k)
  have "unat (drop_bit 7 v) < 2 ^ (7 * k)"
    using Suc.prems by (simp add: unat_drop_bit_word less_mult_imp_div_less power_add)
  then show ?case using Suc.IH by (subst b128_hi.simps) simp
qed

lemma length_der_tag: "0 < length (der_tag tag)" "length (der_tag tag) \<le> 11"
proof -
  have "length (b128_hi (drop_bit 7 v)) \<le> 9" for v
    using drop_7_less [of v] length_b128_hi [of "drop_bit 7 v" 9] by (simp add: word_less_nat_alt)
  then have "length (b128 v) \<le> 10" for v by (simp add: b128_def)
  then show "length (der_tag tag) \<le> 11" by (simp add: der_tag_def Let_def)
  show "0 < length (der_tag tag)" by (simp add: der_tag_def Let_def)
qed

lemma length_der_len: "0 < length (der_len n)" "length (der_len n) \<le> 5"
  by (auto simp: der_len_def len_octets_def)

lemma len_byte:
  assumes "k \<in> {1, 2, 3, 4}"
  shows "of_nat (128 + k) AND 0x80 \<noteq> (0 :: byte)" "unat (of_nat (128 + k) AND 0x7f :: byte) = k"
  using assms by auto

lemma len64_facts:
  assumes "128 \<le> n" "n < 2 ^ 32" "k = len_octets n" "v = (of_nat n :: u64)"
  shows "take_bit (8 * k) v = v" "\<not> v < 128" "drop_bit ((k - 1) * 8) v \<noteq> 0" "unat v = n"
proof -
  show u: "unat v = n" using assms by (simp add: unat_of_nat)
  show "take_bit (8 * k) v = v"
    using len_octets_bounds(2) [OF assms(2)] u assms(3) by (simp only: take_bit_small [symmetric])
  show "\<not> v < 128" using assms u by (simp add: word_less_nat_alt)
  have "2 ^ ((k - 1) * 8) \<le> n"
    using len_octets_bounds(3) [OF assms(2)] assms(1,3) by (cases "k > 1") (auto simp: mult.commute)
  then have "unat (drop_bit ((k - 1) * 8) v) > 0" using u by (simp add: unat_drop_bit_word div_greater_zero_iff)
  then show "drop_bit ((k - 1) * 8) v \<noteq> 0" by (simp add: unat_gt_0)
qed

lemma der_any_element_enc [stream_simps]:
  assumes d: "length d < 2 ^ 32"
  shows "cbs_get_any_asn1_element (der_element tag d @ rest) ber_ok =
     (Some (der_element tag d, tag, length (der_tag tag) + length (der_len (length d))), rest)"
proof (cases "length d < 128")
  case True
  have b: "of_nat (length d) AND 0x80 = (0 :: byte)" "unat (of_nat (length d) :: byte) = length d"
  proof -
    show u: "unat (of_nat (length d) :: byte) = length d" using True by (simp add: unat_of_nat)
    then show "of_nat (length d) AND 0x80 = (0 :: byte)"
      using bit_word_less [of "of_nat (length d) :: byte" 7 7] True
      by (auto simp: word_less_nat_alt)
  qed
  show ?thesis
    using True b CBS_get_bytes_app [of "der_tag tag @ of_nat (length d) # d" "length d + (length (der_tag tag) + 1)" rest]
    by (simp add: cbs_get_any_asn1_element_def cbs_take_element_def der_element_def der_len_def stream_simps Let_def)
next
  case False
  define k where "k = len_octets (length d)"
  define v where "v = (of_nat (length d) :: u64)"
  have n: "128 \<le> length d" using False by simp
  note f = len64_facts [OF n d k_def v_def]
  note k = len_octets_bounds [OF d, folded k_def]
  note lb = len_byte [OF k(1)]
  have small: "(length d + (length (der_tag tag) + 1) + k) mod size_mod = length d + (length (der_tag tag) + 1) + k"
    using d k(1) length_der_tag(2) [of tag] by (intro mod_less) auto
  have "CBS_get_bytes (der_tag tag @ of_nat (128 + k) # be_bytes k v @ d @ rest) (length d + (length (der_tag tag) + 1) + k) =
      (Some (der_tag tag @ of_nat (128 + k) # be_bytes k v @ d), rest)"
    using CBS_get_bytes_app [of "der_tag tag @ of_nat (128 + k) # be_bytes k v @ d" "length d + (length (der_tag tag) + 1) + k" rest]
    by simp
  then show ?thesis
    using False lb k(1) f small
    by (auto simp: cbs_get_any_asn1_element_def cbs_take_element_def der_element_def der_len_def stream_simps Let_def
      k_def [symmetric] v_def [symmetric] simp del: of_nat_add)
qed

lemma byte_len_long:
  fixes b :: byte
  assumes "b AND 0x80 \<noteq> 0" "unat (b AND 0x7f) = k"
  shows "b = of_nat (128 + k)"
proof -
  have "b = 0x80 OR (b AND 0x7f)" using byte_high_low(2) [OF assms(1)] by simp
  also have "\<dots> = 0x80 + (b AND 0x7f)"
    by (rule disjunctive_add [symmetric]) (auto simp: bit_simps)
  also have "b AND 0x7f = of_nat k" using assms(2) by auto
  finally show ?thesis by simp
qed

lemma append_split:
  "p @ c = out @ rest \<Longrightarrow> length p \<le> length out \<Longrightarrow> \<exists>d. out = p @ d \<and> c = d @ rest"
  by (auto simp: append_eq_append_conv2)

lemma cbs_take_element_Some:
  "cbs_take_element cbs tag n h = (Some (out, tag', h'), rest) \<longleftrightarrow>
     CBS_get_bytes cbs n = (Some out, rest) \<and> tag' = tag \<and> h' = h"
  by (auto simp: cbs_take_element_def split: prod.splits option.splits)

lemma cbs_take_element_None:
  "cbs_take_element cbs tag n h = (None, c) \<Longrightarrow> c = cbs"
  by (auto simp: cbs_take_element_def CBS_get_bytes_eq cbs_get_def split: if_splits prod.splits option.splits)

lemma der_any_element_sound:
  assumes "cbs_get_any_asn1_element cbs False = (Some (out, tag, hlen), rest)"
  shows "\<exists>d. length d < 2 ^ 32 \<and> out = der_element tag d \<and> hlen = length (der_tag tag) + length (der_len (length d))
     \<and> cbs = out @ rest"
proof -
  obtain c1 b c2 where c: "parse_asn1_tag cbs = (Some tag, c1)" "CBS_get_u8 c1 = (Some b, c2)"
    using assms by (auto simp: cbs_get_any_asn1_element_def cbs_take_element_Some Let_def split: prod.splits option.splits if_splits)
  have cbs: "cbs = der_tag tag @ b # c2"
    using parse_asn1_tag_sound [OF c(1)] cbs_u8.dec_sound [of c1 b c2] c(2) by simp
  let ?h = "length (der_tag tag) + 1"
  show ?thesis
  proof (cases "b AND 0x80 = 0")
    case True
    then have "CBS_get_bytes cbs (unat b + ?h) = (Some out, rest)" "hlen = ?h"
      using assms c cbs by (auto simp: cbs_get_any_asn1_element_def cbs_take_element_Some Let_def split: prod.splits option.splits)
    then have out: "length out = unat b + ?h" "der_tag tag @ b # c2 = out @ rest"
      using cbs by (simp_all add: CBS_get_bytes_sound)
    then obtain d where d: "out = der_tag tag @ b # d" "c2 = d @ rest"
      by (auto simp: append_eq_append_conv2 Cons_eq_append_conv)
    then have "der_len (length d) = [b]"
      using out(1) unat_byte_7f [OF True] by (simp add: der_len_def)
    moreover have "length d < 2 ^ 32" using d out(1) unat_byte_7f [OF True] by simp
    ultimately show ?thesis
      using d cbs \<open>hlen = ?h\<close> by (intro exI [of _ d]) (simp add: der_element_def)
  next
    case False
    define k where "k = unat (b AND 0x7f)"
    obtain v c3 where v: "cbs_get_u c2 k = (Some v, c3)" "\<not> v < 128" "drop_bit ((k - 1) * 8) v \<noteq> 0"
      and k: "k \<noteq> 0" "k \<le> 4"
      and fin: "CBS_get_bytes cbs ((unat v + ?h + k) mod size_mod) = (Some out, rest)" "hlen = ?h + k"
      using assms c cbs False
      by (auto simp: cbs_get_any_asn1_element_def cbs_take_element_Some Let_def k_def [symmetric] split: prod.splits option.splits if_splits)
    have k14: "k \<in> {1, 2, 3, 4}" using k by auto
    note s = cbs_get_u_sound [OF v(1)]
    have vk: "unat v < 2 ^ (8 * k)" using s k by (simp add: take_bit_small)
    also have "(2::nat) ^ (8 * k) \<le> 2 ^ 32" using k by (intro power_increasing) auto
    finally have v32: "unat v < 2 ^ 32" .
    have "unat (drop_bit ((k - 1) * 8) v) \<noteq> 0" using v(3) by (simp add: unat_eq_0)
    then have "2 ^ (8 * (k - 1)) \<le> unat v"
      by (simp add: unat_drop_bit_word mult.commute div_eq_0_iff not_less)
    then have lk: "len_octets (unat v) = k" using len_octets_unique [OF k14 vk] by simp
    have small: "(unat v + ?h + k) mod size_mod = unat v + ?h + k"
      using v32 k length_der_tag(2) [of tag] by (intro mod_less) auto
    have out: "length out = unat v + ?h + k" "der_tag tag @ b # be_bytes k v @ c3 = out @ rest"
      using fin(1) [unfolded small] cbs s k by (simp_all add: CBS_get_bytes_sound)
    obtain d where d: "out = der_tag tag @ b # be_bytes k v @ d" "c3 = d @ rest"
      using append_split [of "der_tag tag @ b # be_bytes k v" c3 out rest] out by auto
    then have "length d = unat v" using out(1) by simp
    moreover have "b = of_nat (128 + k)" using byte_len_long [OF False] k_def by simp
    ultimately have "der_len (length d) = b # be_bytes k v"
      using v(2) lk by (simp add: der_len_def word_less_nat_alt)
    then show ?thesis
      using d cbs fin(2) s k v32 \<open>length d = unat v\<close>
      by (intro exI [of _ d]) (simp add: der_element_def)
  qed
qed

end
