(* ===== verification/Der_Values.thy ===== *)
theory Der_Values
  imports Der
begin

text \<open>
  DER elements with their values: the contents octets of integers and booleans, and the
  readers of \<open>crypto/bytestring/cbs.c\<close> proved to accept exactly the canonical encodings.
\<close>

section \<open>Any element\<close>

interpretation cbs_any: canonical_codec "\<lambda>(d, tag). der_element tag d" "run_cbs CBS_get_any_asn1"
  "\<lambda>(d, tag). length d < 2 ^ 32"
proof
  fix v :: "cbs \<times> u32" and rest
  assume "case v of (d, tag) \<Rightarrow> length d < 2 ^ 32"
  then obtain d tag where v: "v = (d, tag)" "length d < 2 ^ 32" by (cases v) auto
  have "CBS_skip (der_element tag d) (length (der_tag tag) + length (der_len (length d))) = (Some (), d)"
    by (simp add: CBS_skip_def cbs_get_def der_element_def)
  then show "run_cbs CBS_get_any_asn1 ((case v of (d, tag) \<Rightarrow> der_element tag d) @ rest) = Some (v, rest)"
    using v(2) unfolding v(1) by (simp add: CBS_get_any_asn1_def CBS_get_any_asn1_element_def stream_simps)
next
  fix bs v rest
  assume "run_cbs CBS_get_any_asn1 bs = Some (v, rest)"
  then obtain out tag hl d where e: "cbs_get_any_asn1_element bs False = (Some (out, tag, hl), rest)"
    "CBS_skip out hl = (Some (), d)" "v = (d, tag)"
    by (auto simp: CBS_get_any_asn1_def CBS_get_any_asn1_element_def split: prod.splits option.splits)
  from der_any_element_sound [OF e(1)] obtain d' where d': "length d' < 2 ^ 32" "out = der_element tag d'"
    "hl = length (der_tag tag) + length (der_len (length d'))" "bs = out @ rest" by auto
  have "d = d'" using e(2) unfolding d' by (simp add: CBS_skip_def cbs_get_def der_element_def)
  then show "(case v of (d, tag) \<Rightarrow> length d < 2 ^ 32) \<and> bs = (case v of (d, tag) \<Rightarrow> der_element tag d) @ rest"
    using d' e(3) by simp
qed

lemma CBS_get_asn1_iff:
  "CBS_get_asn1 cbs tag = (Some d, rest) \<longleftrightarrow> length d < 2 ^ 32 \<and> cbs = der_element tag d @ rest"
  (is "?l \<longleftrightarrow> ?r")
proof -
  have "?l \<longleftrightarrow> CBS_get_any_asn1 cbs = (Some (d, tag), rest)"
    by (auto simp: CBS_get_asn1_def cbs_get_asn1_def CBS_get_any_asn1_def split: prod.splits option.splits if_splits)
  also have "\<dots> \<longleftrightarrow> ?r" using cbs_any.dec_iff [of cbs "(d, tag)" rest] by simp
  finally show ?thesis .
qed

lemma CBS_get_asn1_enc [stream_simps]:
  "length d < 2 ^ 32 \<Longrightarrow> CBS_get_asn1 (der_element tag d @ rest) tag = (Some d, rest)"
  by (simp add: CBS_get_asn1_iff)

lemma CBS_peek_asn1_tag_enc [stream_simps]:
  "CBS_peek_asn1_tag (der_element tag d @ rest) tag' \<longleftrightarrow> tag' = tag"
  using length_der_tag(1) [of tag]
  by (simp add: CBS_peek_asn1_tag_def der_element_def stream_simps)

section \<open>Integers\<close>

text \<open>The contents of a non-negative INTEGER: no leading zeros but the one that keeps the sign.\<close>

definition uint_content :: "u64 \<Rightarrow> byte list" where
  "uint_content v =
     (let bs = dropWhile (\<lambda>b. b = 0) (be_bytes 8 v)
      in if bs = [] then [0] else if bit (hd bs) 7 then 0 # bs else bs)"

lemma be_val_zeros: "be_val (replicate n 0 @ bs) = be_val bs"
proof -
  have "le_val (xs @ replicate n 0) = le_val xs" for xs
    by (induction xs) (simp_all, induction n, simp_all)
  then show ?thesis by (simp add: be_val_def)
qed

lemma be_val_strip: "be_val (dropWhile (\<lambda>b. b = 0) bs) = be_val bs"
  by (induction bs) (simp_all add: be_val_zeros [of 1, simplified])

lemma be_bytes_pad:
  assumes "length s \<le> 8"
  shows "be_bytes 8 (be_val s :: u64) = replicate (8 - length s) 0 @ s"
  using be_bytes_be_val [of "replicate (8 - length s) 0 @ s", where 'a = 64] assms
  by (simp add: be_val_zeros)

lemma uint64_loop_snoc:
  "uint64_loop (bs @ [b]) acc = (case uint64_loop bs acc of None \<Rightarrow> None
     | Some out \<Rightarrow> if drop_bit 56 out \<noteq> 0 then None else Some (push_bit 8 out OR ucast b))"
  by (induction bs acc rule: uint64_loop.induct) auto

lemma le_bytes_Suc: "le_bytes (Suc k) v = le_bytes k v @ [ucast (drop_bit (8 * k) v)]"
proof (induction k arbitrary: v)
  case (Suc k)
  show ?case
    using Suc.IH [of "drop_bit 8 v"] by (simp add: drop_bit_drop_bit del: drop_bit_Suc mult_Suc_right)
      (simp add: add.commute)
qed simp

lemma be_bytes_Suc: "be_bytes (Suc k) v = ucast (drop_bit (8 * k) v) # be_bytes k v"
  by (simp add: be_bytes_def le_bytes_Suc del: le_bytes.simps)

lemma be_bytes_8_hd: "be_bytes 8 v = ucast (drop_bit 56 v) # be_bytes 7 (v :: u64)"
  using be_bytes_Suc [of 7 v] by simp

lemma ucast_top_byte: "ucast (drop_bit 56 v :: u64) = (0 :: byte) \<longleftrightarrow> drop_bit 56 v = 0"
proof -
  have "unat v < 2 ^ 64" using unsigned_less [of v, where 'a = nat] by simp
  then have "unat (drop_bit 56 v) < 2 ^ 8" by (simp add: unat_drop_bit_word less_mult_imp_div_less)
  then have "unat (ucast (drop_bit 56 v) :: byte) = unat (drop_bit 56 v)" by (intro unat_ucast_small) simp
  then show ?thesis by (simp add: word_unat_eq_iff)
qed

lemma be_val_top:
  assumes "length s = 8" "hd s \<noteq> 0"
  shows "drop_bit 56 (be_val s :: u64) \<noteq> 0"
  using be_bytes_8_hd [of "be_val s"] be_bytes_pad [of s] assms
  by (cases s) auto

lemma be_val_small:
  assumes "length s < 8"
  shows "drop_bit 56 (be_val s :: u64) = 0"
  using be_bytes_8_hd [of "be_val s"] be_bytes_pad [of s] assms ucast_top_byte [of "be_val s"]
  by (cases "8 - length s") auto

lemma dropWhile_snoc_length:
  "length (dropWhile P xs) \<noteq> 0 \<Longrightarrow> length (dropWhile P (xs @ [x])) = Suc (length (dropWhile P xs))"
  "length (dropWhile P xs) = 0 \<Longrightarrow> length (dropWhile P (xs @ [x])) \<le> 1"
  by (induction xs) (auto split: if_splits)

lemma be_val_full:
  assumes "length (dropWhile (\<lambda>b. b = 0) bs) \<le> 8"
  shows "drop_bit 56 (be_val bs :: u64) = 0 \<longleftrightarrow> length (dropWhile (\<lambda>b. b = 0) bs) < 8"
proof -
  define s where "s = dropWhile (\<lambda>b. b = 0) bs"
  have "drop_bit 56 (be_val s :: u64) = 0 \<longleftrightarrow> length s < 8"
  proof (cases "length s = 8")
    case True
    then have "s \<noteq> []" by auto
    then have "hd s \<noteq> 0" unfolding s_def by (rule hd_dropWhile)
    then show ?thesis using True be_val_top [of s] by simp
  next
    case False
    then show ?thesis using assms be_val_small [of s] by (simp add: s_def)
  qed
  then show ?thesis by (simp only: s_def be_val_strip)
qed

lemma uint64_loop_val:
  "uint64_loop bs 0 = (if length (dropWhile (\<lambda>b. b = 0) bs) \<le> 8 then Some (be_val bs) else None)"
proof (induction bs rule: rev_induct)
  case (snoc b bs)
  define n where "n = length (dropWhile (\<lambda>b. b = 0) bs)"
  define m where "m = length (dropWhile (\<lambda>b. b = 0) (bs @ [b]))"
  have m: "n \<noteq> 0 \<Longrightarrow> m = Suc n" "n = 0 \<Longrightarrow> m \<le> 1"
    unfolding n_def m_def by (rule dropWhile_snoc_length, assumption)+
  have v: "push_bit 8 (be_val bs) OR ucast b = (be_val (bs @ [b]) :: u64)"
    by (simp add: be_val_def or.commute)
  have IH: "uint64_loop bs 0 = (if n \<le> 8 then Some (be_val bs) else None)"
    using snoc by (simp only: n_def)
  have "uint64_loop (bs @ [b]) 0 = (if m \<le> 8 then Some (be_val (bs @ [b])) else None)"
  proof (cases "n \<le> 8")
    case True
    then have "drop_bit 56 (be_val bs :: u64) = 0 \<longleftrightarrow> n < 8"
      using be_val_full [of bs] by (simp add: n_def)
    moreover have "m \<le> 8 \<longleftrightarrow> n < 8" using m True by (cases "n = 0") auto
    ultimately show ?thesis using True IH v by (simp add: uint64_loop_snoc)
  next
    case False
    then show ?thesis using IH m by (simp add: uint64_loop_snoc)
  qed
  then show ?case by (simp only: m_def)
qed (simp add: be_val_def)

lemma uint_content_be_val:
  assumes "data \<noteq> []" "\<not> bit (data ! 0) 7" "\<not> (data ! 0 = 0 \<and> length data > 1 \<and> \<not> bit (data ! 1) 7)"
    and "length (dropWhile (\<lambda>b. b = 0) data) \<le> 8"
  shows "uint_content (be_val data) = data"
proof -
  let ?z = "\<lambda>b::byte. b = 0"
  let ?s = "dropWhile ?z data"
  have "dropWhile ?z (replicate n 0 @ ?s) = ?s" for n
    by (induction n) (simp_all add: dropWhile_idem)
  then have bs: "dropWhile ?z (be_bytes 8 (be_val data :: u64)) = ?s"
    using be_bytes_pad [OF assms(4)] by (simp add: be_val_strip)
  show ?thesis
  proof (cases data)
    case (Cons b ds)
    show ?thesis
    proof (cases "b = 0")
      case True
      then show ?thesis
        using assms(3) Cons bs by (cases ds) (auto simp: uint_content_def Let_def)
    next
      case False
      then show ?thesis using assms(2) Cons bs by (simp add: uint_content_def Let_def)
    qed
  qed (use assms(1) in simp)
qed

lemma uint_content_facts:
  shows "uint_content v \<noteq> []" "\<not> bit (uint_content v ! 0) 7"
    "\<not> (uint_content v ! 0 = 0 \<and> length (uint_content v) > 1 \<and> \<not> bit (uint_content v ! 1) 7)"
    "length (dropWhile (\<lambda>b. b = 0) (uint_content v)) \<le> 8" "be_val (uint_content v) = v"
    "length (uint_content v) \<le> 9"
proof -
  let ?z = "\<lambda>b::byte. b = 0"
  let ?s = "dropWhile ?z (be_bytes 8 v)"
  have len: "length ?s \<le> 8" using length_dropWhile_le [of ?z "be_bytes 8 v"] by simp
  have hd: "hd ?s \<noteq> 0" if "?s \<noteq> []" using that by (metis (full_types) hd_dropWhile dropWhile_eq_Nil_conv)
  have val: "be_val ?s = v" by (simp add: be_val_strip be_val_be_bytes take_bit_word_eq_self)
  show "uint_content v \<noteq> []" "length (uint_content v) \<le> 9" using len by (auto simp: uint_content_def Let_def)
  show "\<not> bit (uint_content v ! 0) 7"
    by (cases ?s) (auto simp: uint_content_def Let_def)
  show "\<not> (uint_content v ! 0 = 0 \<and> length (uint_content v) > 1 \<and> \<not> bit (uint_content v ! 1) 7)"
    using hd by (cases ?s) (auto simp: uint_content_def Let_def)
  show "length (dropWhile ?z (uint_content v)) \<le> 8"
    using len hd length_dropWhile_le [of ?z ?s] by (auto simp: uint_content_def Let_def)
  show "be_val (uint_content v) = v"
  proof (cases "?s = []")
    case True
    then have "v = 0" using val by (simp only: be_val_def) simp
    then show ?thesis by (simp add: True [unfolded \<open>v = 0\<close>] uint_content_def be_val_def)
  next
    case False
    then show ?thesis
      using val be_val_zeros [of 1 ?s, where 'a = 64] by (simp add: uint_content_def Let_def del: dropWhile_eq_Nil_conv)
  qed
qed

interpretation cbs_uint64: canonical_codec "\<lambda>v. der_element CBS_ASN1_INTEGER (uint_content v)"
  "run_cbs CBS_get_asn1_uint64" "\<lambda>v. True"
proof
  fix v rest
  have "length (uint_content v) < 2 ^ 32" using uint_content_facts(6) [of v] by simp
  then show "run_cbs CBS_get_asn1_uint64 (der_element CBS_ASN1_INTEGER (uint_content v) @ rest) = Some (v, rest)"
    using uint_content_facts [of v]
    by (simp add: CBS_get_asn1_uint64_def stream_simps Let_def uint64_loop_val)
next
  fix bs v rest
  assume "run_cbs CBS_get_asn1_uint64 bs = Some (v, rest)"
  then obtain data where d: "CBS_get_asn1 bs CBS_ASN1_INTEGER = (Some data, rest)" "data \<noteq> []" "\<not> bit (data ! 0) 7"
    "\<not> (data ! 0 = 0 \<and> length data > 1 \<and> \<not> bit (data ! 1) 7)" "uint64_loop data 0 = Some v"
    by (auto simp: CBS_get_asn1_uint64_def Let_def split: prod.splits option.splits if_splits)
  then have "length (dropWhile (\<lambda>b. b = 0) data) \<le> 8" "v = be_val data"
    by (auto simp: uint64_loop_val split: if_splits)
  with d uint_content_be_val [OF d(2-4)]
  show "True \<and> bs = der_element CBS_ASN1_INTEGER (uint_content v) @ rest"
    by (simp add: CBS_get_asn1_iff)
qed


section \<open>Signed integers and booleans\<close>

text \<open>The contents of a signed INTEGER: the shortest two's complement form.\<close>

fun strip_sign :: "byte list \<Rightarrow> byte list" where
  "strip_sign (b # c # bs) =
     (if b = 0 \<and> \<not> bit c 7 \<or> b = 0xff \<and> bit c 7 then strip_sign (c # bs) else b # c # bs)"
| "strip_sign bs = bs"

definition int_content :: "u64 \<Rightarrow> byte list" where
  "int_content v = strip_sign (be_bytes 8 v)"

definition sign_byte :: "byte list \<Rightarrow> byte" where
  "sign_byte bs = (if bit (hd bs) 7 then 0xff else 0)"

definition sign_minimal :: "byte list \<Rightarrow> bool" where
  "sign_minimal bs \<longleftrightarrow> \<not> (length bs > 1 \<and> bs ! 0 = 0 \<and> \<not> bit (bs ! 1) 7) \<and>
     \<not> (length bs > 1 \<and> bs ! 0 = 0xff \<and> bit (bs ! 1) 7)"

lemma strip_sign_nonempty [simp]: "strip_sign bs = [] \<longleftrightarrow> bs = []"
  by (induction bs rule: strip_sign.induct) auto

lemma length_strip_sign: "length (strip_sign bs) \<le> length bs"
  by (induction bs rule: strip_sign.induct) auto

lemma strip_sign_minimal: "sign_minimal (strip_sign bs)"
  by (induction bs rule: strip_sign.induct) (auto simp: sign_minimal_def)

lemma strip_sign_split:
  "bs \<noteq> [] \<Longrightarrow>
   bs = replicate (length bs - length (strip_sign bs)) (sign_byte (strip_sign bs)) @ strip_sign bs"
proof (induction bs rule: strip_sign.induct)
  case (1 b c bs)
  show ?case
  proof (cases "b = 0 \<and> \<not> bit c 7 \<or> b = 0xff \<and> bit c 7")
    case True
    let ?s = "strip_sign (c # bs)" and ?n = "length (c # bs) - length (strip_sign (c # bs))"
    have IH: "c # bs = replicate ?n (sign_byte ?s) @ ?s" using "1.IH" True by simp
    have "b = sign_byte ?s"
    proof (cases ?n)
      case 0
      then have "hd ?s = c" using IH by (metis append_Nil list.sel(1) replicate_0)
      then show ?thesis using True by (auto simp: sign_byte_def)
    next
      case (Suc m)
      then have "c = sign_byte ?s" using IH by simp
      then show ?thesis using True by (auto simp: sign_byte_def split: if_splits)
    qed
    then have "b # c # bs = replicate (Suc ?n) (sign_byte ?s) @ ?s" using IH by simp
    moreover have "length (b # c # bs) - length ?s = Suc ?n"
      using length_strip_sign [of "c # bs"] by simp
    ultimately show ?thesis using True by simp
  next
    case False
    then have "strip_sign (b # c # bs) = b # c # bs" by (simp only: strip_sign.simps if_False)
    then show ?thesis by (simp only: diff_self_eq_0 replicate_0 append_Nil)
  qed
qed simp_all

lemma strip_sign_pad:
  assumes "bs \<noteq> []" "sign_minimal bs"
  shows "strip_sign (replicate n (sign_byte bs) @ bs) = bs"
proof (induction n)
  case 0
  show ?case using assms by (cases bs rule: strip_sign.cases) (auto simp: sign_minimal_def)
next
  case (Suc n)
  have "\<exists>c cs. replicate n (sign_byte bs) @ bs = c # cs \<and> (bit c 7 \<longleftrightarrow> sign_byte bs = 0xff)"
    using assms(1) by (cases n; cases bs) (auto simp: sign_byte_def)
  then show ?case using Suc by (auto simp: sign_byte_def split: if_splits)
qed

lemma foldl_update:
  "n \<le> length xs \<Longrightarrow> foldl (\<lambda>u i. u[i := f i]) xs [0..<n] = map f [0..<n] @ drop n xs"
proof (induction n)
  case (Suc n)
  then show ?case by (simp add: list_update_append Cons_nth_drop_Suc [symmetric])
qed simp

lemma rev_as_map: "map (\<lambda>i. data ! (length data - i - 1)) [0..<length data] = rev data"
  by (rule nth_equalityI) (simp_all add: rev_nth)

lemma CBS_get_asn1_int64_eq:
  "CBS_get_asn1_int64 cbs = (case CBS_get_asn1 cbs CBS_ASN1_INTEGER of
      (None, cbs') \<Rightarrow> (None, cbs')
    | (Some data, cbs') \<Rightarrow>
        (if data \<noteq> [] \<and> length data \<le> 8 \<and> sign_minimal data
         then Some (be_val (replicate (8 - length data) (sign_byte data) @ data)) else None, cbs'))"
proof -
  have "foldl (\<lambda>u i. u[i := data ! (length data - i - 1)]) (replicate 8 s) [0..<length data]
      = rev (replicate (8 - length data) s @ data)" if "length data \<le> 8" for data :: "byte list" and s
    using that foldl_update [of "length data" "replicate 8 s" "\<lambda>i. data ! (length data - i - 1)"]
    by (simp only: rev_as_map length_replicate rev_append rev_replicate drop_replicate)
  then show ?thesis
    by (auto simp: CBS_get_asn1_int64_def Let_def sign_minimal_def sign_byte_def hd_conv_nth be_val_def
      not_le split: prod.splits option.splits)
qed

lemma length_int_content: "0 < length (int_content v)" "length (int_content v) \<le> 8"
proof -
  have "be_bytes 8 v \<noteq> []" by (metis length_be_bytes list.size(3) zero_neq_numeral)
  then show "0 < length (int_content v)" by (simp only: int_content_def length_greater_0_conv strip_sign_nonempty) simp
  show "length (int_content v) \<le> 8"
    using length_strip_sign [of "be_bytes 8 v"] by (simp add: int_content_def)
qed

interpretation cbs_int64: canonical_codec "\<lambda>v. der_element CBS_ASN1_INTEGER (int_content v)"
  "run_cbs CBS_get_asn1_int64" "\<lambda>v. True"
proof
  fix v rest
  have "be_bytes 8 v = replicate (8 - length (int_content v)) (sign_byte (int_content v)) @ int_content v"
    using strip_sign_split [of "be_bytes 8 v"] be_bytes_8_hd [of v]
    by (simp only: int_content_def length_be_bytes) simp
  then have "be_val (replicate (8 - length (int_content v)) (sign_byte (int_content v)) @ int_content v) = v"
    using be_val_be_bytes [of 8 v] by (simp add: take_bit_word_eq_self)
  then show "run_cbs CBS_get_asn1_int64 (der_element CBS_ASN1_INTEGER (int_content v) @ rest) = Some (v, rest)"
    using length_int_content [of v] strip_sign_minimal [of "be_bytes 8 v"]
    by (simp add: CBS_get_asn1_int64_eq stream_simps int_content_def [symmetric])
next
  fix bs v rest
  assume "run_cbs CBS_get_asn1_int64 bs = Some (v, rest)"
  then obtain data where d: "CBS_get_asn1 bs CBS_ASN1_INTEGER = (Some data, rest)" "data \<noteq> []" "length data \<le> 8"
    "sign_minimal data" "v = be_val (replicate (8 - length data) (sign_byte data) @ data)"
    by (auto simp: CBS_get_asn1_int64_eq split: prod.splits option.splits if_splits)
  then have "int_content v = data"
    using be_bytes_be_val [of "replicate (8 - length data) (sign_byte data) @ data", where 'a = 64]
    by (simp add: int_content_def strip_sign_pad)
  then show "True \<and> bs = der_element CBS_ASN1_INTEGER (int_content v) @ rest"
    using d by (simp add: CBS_get_asn1_iff)
qed

interpretation cbs_bool: canonical_codec "\<lambda>b. der_element CBS_ASN1_BOOLEAN [if b then 0xff else 0]"
  "run_cbs CBS_get_asn1_bool" "\<lambda>b. True"
proof
  fix b rest
  show "run_cbs CBS_get_asn1_bool (der_element CBS_ASN1_BOOLEAN [if b then 0xff else 0] @ rest) = Some (b, rest)"
    by (simp add: CBS_get_asn1_bool_def stream_simps)
next
  fix bs b rest
  assume "run_cbs CBS_get_asn1_bool bs = Some (b, rest)"
  then show "True \<and> bs = der_element CBS_ASN1_BOOLEAN [if b then 0xff else 0] @ rest"
    by (auto simp: CBS_get_asn1_bool_def CBS_get_asn1_iff length_Suc_conv split: prod.splits option.splits if_splits)
qed

end
