(* ===== verification/Cbs_Correct.thy ===== *)
theory Cbs_Correct
  imports Der_Values
begin

text \<open>
  The properties of the byte-string reader: each reader accepts exactly one encoding and leaves
  what follows it, and what happens to the reader when it fails.
\<close>


text \<open>
  Reading \<open>n\<close> elements one after the other to the end of the input gives a list of elements
  exactly when the input is the concatenation of their encodings.
\<close>

theorem CBS_asn1_sequence_unique:
  assumes "\<forall>(d, tag) \<in> set es. length d < 2 ^ 32"
  shows "decode_many (run_cbs CBS_get_any_asn1) n bs = Some (es, []) \<longleftrightarrow>
    length es = n \<and> bs = concat (map (\<lambda>(d, tag). der_element tag d) es)"
  using cbs_any.decode_many_iff [of n bs es "[]"] assms by (auto simp: list_all_iff)

theorem CBS_asn1_sequence_unique_witness:
  "decode_many (run_cbs CBS_get_any_asn1) 2 [2, 1, 5, 0x30, 0] = Some ([([5], 2), ([], 0x20000010)], []) \<longleftrightarrow>
    [2, 1, 5, 0x30, 0] = concat (map (\<lambda>(d, tag). der_element tag d) [([5], 2), ([], 0x20000010)])"
  using CBS_asn1_sequence_unique [of "[([5], 2), ([], 0x20000010)]" 2 "[2, 1, 5, 0x30, 0]"]
  by (simp only: list.set) simp

text \<open>
  C26. Integers and booleans are canonical: \<open>CBS_get_asn1_uint64\<close>, \<open>CBS_get_asn1_int64\<close> and
  \<open>CBS_get_asn1_bool\<close> return a value exactly when the input starts with its one DER encoding,
  so no redundant leading byte, no overflow and no non-canonical boolean is accepted.
\<close>

theorem CBS_get_asn1_integers_der:
  "(CBS_get_asn1_uint64 cbs = (Some v, rest) \<longleftrightarrow>
      cbs = der_element CBS_ASN1_INTEGER (uint_content v) @ rest) \<and>
   (CBS_get_asn1_int64 cbs = (Some w, rest) \<longleftrightarrow>
      cbs = der_element CBS_ASN1_INTEGER (int_content w) @ rest) \<and>
   (CBS_get_asn1_bool cbs = (Some b, rest) \<longleftrightarrow>
      cbs = der_element CBS_ASN1_BOOLEAN [if b then 0xff else 0] @ rest)"
  using cbs_uint64.dec_iff [of cbs v rest] cbs_int64.dec_iff [of cbs w rest] cbs_bool.dec_iff [of cbs b rest]
  by simp

section \<open>Fixed-width fields\<close>

lemma be_bytes_ucast:
  "8 * k \<le> LENGTH('a) \<Longrightarrow> LENGTH('a) \<le> 64 \<Longrightarrow> be_bytes k (ucast v :: u64) = be_bytes k (v :: 'a::len word)"
  unfolding be_bytes_def
  by (intro arg_cong [of _ _ rev] nth_equalityI) (auto simp: nth_le_bytes intro!: bit_word_eqI simp: bit_simps dest: bit_imp_le_length)

lemma bswap2_bytes: "be_bytes 2 (CRYPTO_bswap2 w) = le_bytes 2 w"
proof -
  have "ucast (CRYPTO_bswap2 w) = (ucast (drop_bit 8 w) :: byte)"
    "ucast (drop_bit 8 (CRYPTO_bswap2 w)) = (ucast w :: byte)"
    by (rule_tac [!] bit_word_eqI) (auto simp: CRYPTO_bswap2_def bit_simps dest: bit_imp_le_length)
  then show ?thesis by (simp add: be_bytes_def drop_bit_drop_bit)
qed

lemma bswap4_byte:
  "ucast (CRYPTO_bswap4 w) = (ucast (drop_bit 24 w) :: byte)"
  "ucast (drop_bit 8 (CRYPTO_bswap4 w)) = (ucast (drop_bit 16 w) :: byte)"
  "ucast (drop_bit 16 (CRYPTO_bswap4 w)) = (ucast (drop_bit 8 w) :: byte)"
  "ucast (drop_bit 24 (CRYPTO_bswap4 w)) = (ucast w :: byte)"
  by (rule byte_eqI; auto simp: CRYPTO_bswap4_def bit_simps dest: bit_imp_le_length)+

lemma bswap4_bytes: "be_bytes 4 (CRYPTO_bswap4 w) = le_bytes 4 w"
  using bswap4_byte [of w] by (simp add: be_bytes_def drop_bit_drop_bit)

lemma bswap8_byte:
  "ucast (CRYPTO_bswap8 w) = (ucast (drop_bit 56 w) :: byte)"
  "ucast (drop_bit 8 (CRYPTO_bswap8 w)) = (ucast (drop_bit 48 w) :: byte)"
  "ucast (drop_bit 16 (CRYPTO_bswap8 w)) = (ucast (drop_bit 40 w) :: byte)"
  "ucast (drop_bit 24 (CRYPTO_bswap8 w)) = (ucast (drop_bit 32 w) :: byte)"
  "ucast (drop_bit 32 (CRYPTO_bswap8 w)) = (ucast (drop_bit 24 w) :: byte)"
  "ucast (drop_bit 40 (CRYPTO_bswap8 w)) = (ucast (drop_bit 16 w) :: byte)"
  "ucast (drop_bit 48 (CRYPTO_bswap8 w)) = (ucast (drop_bit 8 w) :: byte)"
  "ucast (drop_bit 56 (CRYPTO_bswap8 w)) = (ucast w :: byte)"
  by (rule byte_eqI; auto simp: CRYPTO_bswap8_def CRYPTO_bswap4_def bit_simps dest: bit_imp_le_length)+

lemma bswap8_bytes: "be_bytes 8 (CRYPTO_bswap8 w) = le_bytes 8 w"
  using bswap8_byte [of w] by (simp add: be_bytes_def drop_bit_drop_bit)

text \<open>A big-endian reader followed by a byte swap is the little-endian reader.\<close>

lemma get_le_iff:
  fixes get :: "cbs \<Rightarrow> 'a::len word option \<times> cbs" and sw :: "'a word \<Rightarrow> 'a word"
  assumes get: "\<And>c v rest. get c = (Some v, rest) \<longleftrightarrow> c = be_bytes k v @ rest"
    and sw: "\<And>w. be_bytes k (sw w) = le_bytes k w" and k: "8 * k = LENGTH('a)"
    and getle: "getle cbs = (case get cbs of (None, c) \<Rightarrow> (None, c) | (Some v, c) \<Rightarrow> (Some (sw v), c))"
  shows "getle cbs = (Some w, rest) \<longleftrightarrow> cbs = le_bytes k w @ rest"
proof -
  have le_sw: "le_bytes k (sw v) = be_bytes k v" for v
    using sw [of v] unfolding be_bytes_def by (metis rev_rev_ident)
  have inv: "sw (sw v) = v" for v
  proof -
    have "be_bytes k (sw (sw v)) = be_bytes k v" by (simp only: sw le_sw)
    then have "take_bit LENGTH('a) (sw (sw v)) = take_bit LENGTH('a) v"
      using be_val_be_bytes [of k "sw (sw v)"] be_val_be_bytes [of k v] k by simp
    then show ?thesis by simp
  qed
  have "getle cbs = (Some w, rest) \<longleftrightarrow> get cbs = (Some (sw w), rest)"
    using inv by (auto simp: getle split: prod.splits option.splits)
  then show ?thesis by (simp only: get sw)
qed

lemma CBS_get_be_iff:
  "CBS_get_u16 c = (Some v16, rest) \<longleftrightarrow> c = be_bytes 2 v16 @ rest"
  "CBS_get_u32 c = (Some v32, rest) \<longleftrightarrow> c = be_bytes 4 v32 @ rest"
  "CBS_get_u64 c = (Some v64, rest) \<longleftrightarrow> c = be_bytes 8 v64 @ rest"
  using cbs_u16.dec_iff [of c v16 rest] cbs_u32.dec_iff [of c v32 rest] cbs_u64.dec_iff [of c v64 rest]
  by (simp_all only: run_cbs_eq) (simp_all add: be_bytes_ucast take_bit_word_eq_self)

lemma CBS_get_le_iff:
  "CBS_get_u16le cbs = (Some w16, rest) \<longleftrightarrow> cbs = le_bytes 2 w16 @ rest"
  "CBS_get_u32le cbs = (Some w32, rest) \<longleftrightarrow> cbs = le_bytes 4 w32 @ rest"
  "CBS_get_u64le cbs = (Some w64, rest) \<longleftrightarrow> cbs = le_bytes 8 w64 @ rest"
proof -
  show "CBS_get_u16le cbs = (Some w16, rest) \<longleftrightarrow> cbs = le_bytes 2 w16 @ rest"
    by (rule get_le_iff [OF CBS_get_be_iff(1) bswap2_bytes _ CBS_get_u16le_def]) simp
  show "CBS_get_u32le cbs = (Some w32, rest) \<longleftrightarrow> cbs = le_bytes 4 w32 @ rest"
    by (rule get_le_iff [OF CBS_get_be_iff(2) bswap4_bytes _ CBS_get_u32le_def]) simp
  show "CBS_get_u64le cbs = (Some w64, rest) \<longleftrightarrow> cbs = le_bytes 8 w64 @ rest"
    by (rule get_le_iff [OF CBS_get_be_iff(3) bswap8_bytes _ ]) (simp_all add: CBS_get_u64le_def CBS_get_u64_def)
qed

text \<open>
  Fixed-width readers: the big-endian and the little-endian readers of each width (the latter
  by swapping bytes) return a value exactly when the input starts with its bytes in that order.
\<close>

theorem CBS_fixed_width_fields:
  "(CBS_get_u8 cbs = (Some v8, rest) \<longleftrightarrow> cbs = v8 # rest) \<and>
   (CBS_get_u16 cbs = (Some v16, rest) \<longleftrightarrow> cbs = be_bytes 2 v16 @ rest) \<and>
   (CBS_get_u24 cbs = (Some v24, rest) \<longleftrightarrow> v24 < 2 ^ 24 \<and> cbs = be_bytes 3 v24 @ rest) \<and>
   (CBS_get_u32 cbs = (Some v32, rest) \<longleftrightarrow> cbs = be_bytes 4 v32 @ rest) \<and>
   (CBS_get_u64 cbs = (Some v64, rest) \<longleftrightarrow> cbs = be_bytes 8 v64 @ rest) \<and>
   (CBS_get_u16le cbs = (Some v16, rest) \<longleftrightarrow> cbs = le_bytes 2 v16 @ rest) \<and>
   (CBS_get_u32le cbs = (Some v32, rest) \<longleftrightarrow> cbs = le_bytes 4 v32 @ rest) \<and>
   (CBS_get_u64le cbs = (Some v64, rest) \<longleftrightarrow> cbs = le_bytes 8 v64 @ rest)"
proof -
  have "v24 < 2 ^ 24 \<longleftrightarrow> take_bit 24 v24 = v24"
    using take_bit_small [of v24 24] by (simp add: word_less_nat_alt)
  then have "CBS_get_u24 cbs = (Some v24, rest) \<longleftrightarrow> v24 < 2 ^ 24 \<and> cbs = be_bytes 3 v24 @ rest"
    using cbs_u24.dec_iff [of cbs v24 rest] by (simp add: be_bytes_ucast)
  then show ?thesis
    using cbs_u8.dec_iff [of cbs v8 rest] by (simp only: CBS_get_be_iff CBS_get_le_iff) simp
qed

lemma of_nat_ucast:
  assumes "n < 2 ^ LENGTH('b)" "LENGTH('b) \<le> 64"
  shows "(of_nat n :: u64) = ucast (of_nat n :: 'b::len word)"
proof -
  have "(2::nat) ^ LENGTH('b) \<le> 2 ^ 64" using assms(2) by (intro power_increasing) auto
  then show ?thesis
    using assms(1) by (simp add: word_unat_eq_iff unat_of_nat unsigned_ucast_eq take_bit_nat_eq_self)
qed

lemma prefixed_enc_word:
  assumes "length d < 2 ^ LENGTH('b)" "LENGTH('b) \<le> 64" "8 * k \<le> LENGTH('b)"
  shows "prefixed_enc k d = be_bytes k (of_nat (length d) :: 'b::len word) @ d"
  using assms by (simp add: prefixed_enc_def of_nat_ucast [where 'b = 'b] be_bytes_ucast)

text \<open>
  Length-prefixed readers return exactly the data whose length, in one, two or three big-endian
  bytes, precedes it, and leave what follows.
\<close>

theorem CBS_length_prefixed_fields:
  "(CBS_get_u8_length_prefixed cbs = (Some d, rest) \<longleftrightarrow>
      length d < 2 ^ 8 \<and> cbs = of_nat (length d) # d @ rest) \<and>
   (CBS_get_u16_length_prefixed cbs = (Some d, rest) \<longleftrightarrow>
      length d < 2 ^ 16 \<and> cbs = be_bytes 2 (of_nat (length d) :: u16) @ d @ rest) \<and>
   (CBS_get_u24_length_prefixed cbs = (Some d, rest) \<longleftrightarrow>
      length d < 2 ^ 24 \<and> cbs = be_bytes 3 (of_nat (length d) :: u32) @ d @ rest)"
proof (intro conjI)
  have "prefixed_enc 1 d = of_nat (length d) # d" if "length d < 2 ^ 8"
    using that prefixed_enc_word [of d 1, where 'b = 8] by (simp add: be_bytes_def)
  then show "CBS_get_u8_length_prefixed cbs = (Some d, rest) \<longleftrightarrow>
      length d < 2 ^ 8 \<and> cbs = of_nat (length d) # d @ rest"
    using cbs_prefix8.dec_iff [of cbs d rest] by (simp cong: conj_cong)
  have "prefixed_enc 2 d = be_bytes 2 (of_nat (length d) :: u16) @ d" if "length d < 2 ^ 16"
    using that prefixed_enc_word [of d 2, where 'b = 16] by simp
  then show "CBS_get_u16_length_prefixed cbs = (Some d, rest) \<longleftrightarrow>
      length d < 2 ^ 16 \<and> cbs = be_bytes 2 (of_nat (length d) :: u16) @ d @ rest"
    using cbs_prefix16.dec_iff [of cbs d rest] by (simp cong: conj_cong)
  have "prefixed_enc 3 d = be_bytes 3 (of_nat (length d) :: u32) @ d" if "length d < 2 ^ 24"
    using that prefixed_enc_word [of d 3, where 'b = 32] by simp
  then show "CBS_get_u24_length_prefixed cbs = (Some d, rest) \<longleftrightarrow>
      length d < 2 ^ 24 \<and> cbs = be_bytes 3 (of_nat (length d) :: u32) @ d @ rest"
    using cbs_prefix24.dec_iff [of cbs d rest] by (simp cong: conj_cong)
qed

section \<open>Failures and BER\<close>

lemma any_element_None:
  "cbs_get_any_asn1_element cbs ber = (None, cbs') \<Longrightarrow> cbs' = cbs"
  unfolding cbs_get_any_asn1_element_def Let_def
  by (auto dest: cbs_take_element_None split: prod.splits option.splits if_splits)

lemma any_asn1_element_cases:
  "CBS_get_any_asn1_element cbs = (Some (out, tag, hl), rest) \<Longrightarrow>
   \<exists>d. CBS_skip out hl = (Some (), d) \<and> cbs = der_element tag d @ rest"
  unfolding CBS_get_any_asn1_element_def
  by (drule der_any_element_sound) (auto simp: CBS_skip_def cbs_get_def der_element_def)

text \<open>
  A failed read of an element leaves the reader where it was, except that \<open>CBS_get_asn1\<close> has
  consumed the element when its tag is not the expected one.
\<close>

theorem CBS_element_failure_keeps:
  "(CBS_get_any_asn1_element cbs = (None, cbs') \<longrightarrow> cbs' = cbs) \<and>
   (CBS_get_any_ber_asn1_element cbs = (None, cbs') \<longrightarrow> cbs' = cbs) \<and>
   (CBS_get_any_asn1 cbs = (None, cbs') \<longrightarrow> cbs' = cbs) \<and>
   (CBS_get_asn1 cbs tag = (None, cbs') \<longrightarrow>
      cbs' = cbs \<or> (\<exists>d tag'. tag' \<noteq> tag \<and> cbs = der_element tag' d @ cbs'))"
proof (intro conjI impI)
  assume "CBS_get_any_asn1 cbs = (None, cbs')"
  then show "cbs' = cbs"
    using any_asn1_element_cases [of cbs] any_element_None [of cbs False cbs']
    by (fastforce simp: CBS_get_any_asn1_def CBS_get_any_asn1_element_def split: prod.splits option.splits)
next
  assume "CBS_get_asn1 cbs tag = (None, cbs')"
  then show "cbs' = cbs \<or> (\<exists>d tag'. tag' \<noteq> tag \<and> cbs = der_element tag' d @ cbs')"
    using any_asn1_element_cases [of cbs] any_element_None [of cbs False cbs']
    by (fastforce simp: CBS_get_asn1_def cbs_get_asn1_def CBS_get_any_asn1_element_def
      split: prod.splits option.splits if_splits)
qed (auto simp: CBS_get_any_asn1_element_def CBS_get_any_ber_asn1_element_def dest: any_element_None)

theorem CBS_element_failure_keeps_witness:
  "\<exists>d tag'. tag' \<noteq> 2 \<and> [4, 0, 9] = der_element tag' d @ [9]"
proof -
  have "CBS_get_any_asn1_element ([4, 0] @ [9]) = (Some ([4, 0], 4, 2), [9])"
    using der_any_element_enc [of "[]" 4 "[9]" False]
    by (simp add: CBS_get_any_asn1_element_def der_element_def der_tag_def der_len_def)
  then have "CBS_get_asn1 [4, 0, 9] 2 = (None, [9])" by (simp add: CBS_get_asn1_def cbs_get_asn1_def)
  then show ?thesis using CBS_element_failure_keeps [of "[4, 0, 9]" "[9]" 2] by blast
qed

lemma ber_indefinite_byte:
  "(b :: byte) AND 0x80 \<noteq> 0 \<and> unat (b AND 0x7f) = 0 \<longleftrightarrow> b = 0x80"
  using byte_len_long [of b 0] by auto


section \<open>Bit strings\<close>

lemma mask_bits: "(b :: byte) AND (push_bit n 1 - 1) = 0 \<longleftrightarrow> (\<forall>i < n. \<not> bit b i)"
proof -
  have "push_bit n 1 - 1 = (mask n :: byte)" by (simp add: mask_eq_exp_minus_1 push_bit_eq_mult)
  then have "b AND (push_bit n 1 - 1) = 0 \<longleftrightarrow> take_bit n b = 0"
    by (simp only: take_bit_eq_mask)
  also have "\<dots> \<longleftrightarrow> (\<forall>i < n. \<not> bit b i)"
    using bit_imp_le_length [of b] by (auto simp: bit_eq_iff [of "take_bit n b"] bit_simps)
  finally show ?thesis .
qed

lemma bit_pos_less:
  fixes i n u :: nat
  assumes "i div 8 < n" "u \<le> 7 - i mod 8 \<or> i div 8 + 1 < n \<and> u \<le> 7"
  shows "i < 8 * n - u"
proof -
  define q r where "q = i div 8" and "r = i mod 8"
  have "i = 8 * q + r" "r < 8" by (simp_all add: q_def r_def)
  then show ?thesis using assms unfolding q_def [symmetric] r_def [symmetric] by auto
qed

lemma bitstring_valid:
  "CBS_is_valid_asn1_bitstring (unused # bits) \<longleftrightarrow>
     unused = 0 \<or> unused \<le> 7 \<and> bits \<noteq> [] \<and> (\<forall>i < unat unused. \<not> bit (bits ! (length bits - 1)) i)"
  by (auto simp: CBS_is_valid_asn1_bitstring_def stream_simps CBS_get_last_u8_def not_less
    mask_bits [simplified push_bit_of_1])

text \<open>
  A BIT STRING is valid when at most seven bits are unused, they exist and are zero; and
  \<open>CBS_asn1_bitstring_has_bit\<close> is the bit at that position counted from the most significant
  bit of the first byte, false beyond the used bits, for every 32-bit position.
\<close>

theorem CBS_bitstring_bits:
  assumes "cbs = unused # bits"
  shows "(CBS_is_valid_asn1_bitstring cbs \<longleftrightarrow>
      unused = 0 \<or> unused \<le> 7 \<and> bits \<noteq> [] \<and> (\<forall>i < unat unused. \<not> bit (bits ! (length bits - 1)) i)) \<and>
    (CBS_asn1_bitstring_has_bit cbs i \<longleftrightarrow>
      CBS_is_valid_asn1_bitstring cbs \<and> unat i < 8 * length bits - unat unused \<and>
      bit (bits ! (unat i div 8)) (7 - unat i mod 8))"
proof (cases "CBS_is_valid_asn1_bitstring cbs")
  case True
  have u: "unat (drop_bit 3 i + 1) = unat i div 8 + 1"
  proof -
    have "unat i < 2 ^ 32" using unsigned_less [of i, where 'a = nat] by simp
    then have "unat i div 8 + 1 < 2 ^ 32" by simp
    then show ?thesis by (simp add: unat_word_ariths unat_drop_bit_word)
  qed
  have b: "unat (i AND 7) = unat i mod 8"
  proof -
    have "i AND 7 = take_bit 3 i" by (simp add: take_bit_eq_mask mask_eq_exp_minus_1)
    then show ?thesis by (simp add: unsigned_take_bit_eq) (simp add: take_bit_eq_mod)
  qed
  have has: "CBS_asn1_bitstring_has_bit cbs i \<longleftrightarrow>
      unat i div 8 < length bits \<and> bit (bits ! (unat i div 8)) (7 - unat i mod 8)"
    using True by (auto simp: CBS_asn1_bitstring_has_bit_def Let_def u b assms and_exp_eq_0_iff_not_bit push_bit_eq_mult)
  have len: "unat i < 8 * length bits - unat unused"
    if "unat i div 8 < length bits" "bit (bits ! (unat i div 8)) (7 - unat i mod 8)"
  proof (cases "unused = 0")
    case True
    then show ?thesis using that(1) by simp
  next
    case False
    then have v: "unat unused \<le> 7" "\<forall>j < unat unused. \<not> bit (bits ! (length bits - 1)) j"
      using True by (auto simp: assms bitstring_valid word_le_nat_alt)
    have "unat unused \<le> 7 - unat i mod 8" if "unat i div 8 = length bits - 1"
      using \<open>bit (bits ! (unat i div 8)) (7 - unat i mod 8)\<close> v(2) that by (metis not_less)
    then show ?thesis
      using that(1) v(1) by (intro bit_pos_less) auto
  qed
  have "CBS_asn1_bitstring_has_bit cbs i \<longleftrightarrow> CBS_is_valid_asn1_bitstring cbs \<and>
      unat i < 8 * length bits - unat unused \<and> bit (bits ! (unat i div 8)) (7 - unat i mod 8)"
  proof
    assume "CBS_asn1_bitstring_has_bit cbs i"
    then show "CBS_is_valid_asn1_bitstring cbs \<and>
      unat i < 8 * length bits - unat unused \<and> bit (bits ! (unat i div 8)) (7 - unat i mod 8)"
      using has len True by simp
  next
    assume "CBS_is_valid_asn1_bitstring cbs \<and>
      unat i < 8 * length bits - unat unused \<and> bit (bits ! (unat i div 8)) (7 - unat i mod 8)"
    then show "CBS_asn1_bitstring_has_bit cbs i" unfolding has by (auto intro: less_mult_imp_div_less)
  qed
  then show ?thesis
    using bitstring_valid [of unused bits] by (simp only: assms)
next
  case False
  then have "\<not> CBS_asn1_bitstring_has_bit cbs i" by (simp add: CBS_asn1_bitstring_has_bit_def)
  then show ?thesis using False bitstring_valid [of unused bits]
    by (simp only: assms simp_thms)
qed

theorem CBS_bitstring_bits_witness:
  "CBS_is_valid_asn1_bitstring [3, 0xa8] \<and> CBS_asn1_bitstring_has_bit [3, 0xa8] 2"
proof -
  have "\<forall>i < unat (3 :: byte). \<not> bit (0xa8 :: byte) i"
    by code_simp
  then show ?thesis using CBS_bitstring_bits [of "[3, 0xa8]" 3 "[0xa8]" 2] by simp
qed

text \<open>
  Optional elements: an element with the expected tag is consumed and its value returned, any
  other element is left in place and the default value is returned.
\<close>

theorem CBS_optional_elements:
  assumes "length d < 2 ^ 31"
  shows "CBS_get_optional_asn1 (der_element tag' d @ rest) tag =
       (if tag' = tag then (Some (Some d), rest) else (Some None, der_element tag' d @ rest)) \<and>
     CBS_get_optional_asn1_uint64 (der_element tag (der_element CBS_ASN1_INTEGER (uint_content v)) @ rest) tag dflt =
       (Some v, rest) \<and>
     (tag' \<noteq> tag \<longrightarrow> CBS_get_optional_asn1_uint64 (der_element tag' d @ rest) tag dflt =
       (Some dflt, der_element tag' d @ rest)) \<and>
     CBS_get_optional_asn1_bool (der_element tag (der_element CBS_ASN1_BOOLEAN [if b then 0xff else 0]) @ rest) tag bdflt =
       (Some b, rest) \<and>
     CBS_get_optional_asn1_octet_string (der_element tag (der_element CBS_ASN1_OCTETSTRING d) @ rest) tag =
       (Some (d, True), rest)"
proof -
  have len: "length (der_element t c) < 2 ^ 32" if "length c < 2 ^ 31" for t c
    using that length_der_tag(2) [of t] length_der_len(2) [of "length c"] by (simp add: der_element_def)
  have opt: "CBS_get_optional_asn1 (der_element tag' d' @ rest) tag =
       (if tag' = tag then (Some (Some d'), rest) else (Some None, der_element tag' d' @ rest))"
    if "length d' < 2 ^ 32" for tag' d'
    using that by (simp add: CBS_get_optional_asn1_def stream_simps)
  have u: "length (uint_content v) < 2 ^ 31" using uint_content_facts(6) [of v] by simp
  have i: "CBS_get_asn1_uint64 (der_element CBS_ASN1_INTEGER (uint_content v)) = (Some v, [])"
    using cbs_uint64.dec_enc [of v "[]"] by simp
  have e: "CBS_get_asn1 (der_element t c) t = (Some c, [])" if "length c < 2 ^ 32" for t c
    using CBS_get_asn1_enc [OF that, of t "[]"] by simp
  show ?thesis
    using assms len [OF u, of CBS_ASN1_INTEGER] len [OF assms, of CBS_ASN1_OCTETSTRING] i
      len [of "[if b then 0xff else 0]" CBS_ASN1_BOOLEAN] e
    by (simp add: opt CBS_get_optional_asn1_uint64_def CBS_get_optional_asn1_bool_def
      CBS_get_optional_asn1_octet_string_def)
qed

theorem CBS_optional_elements_witness:
  "CBS_get_optional_asn1 (der_element 4 [7] @ [9]) 2 = (Some None, der_element 4 [7] @ [9]) \<and>
   CBS_get_optional_asn1_uint64 (der_element 4 [7] @ [9]) 2 300 = (Some 300, der_element 4 [7] @ [9])"
proof -
  have "length [7 :: byte] < 2 ^ 31" by simp
  from CBS_optional_elements [OF this, of 4 "[9]" 2] show ?thesis by simp
qed

end
