(* ===== verification/Cbb.thy ===== *)
theory Cbb
  imports Cbs
begin

text \<open>
  The byte-string builder \<open>CBB\<close> of BoringSSL (\<open>crypto/bytestring/cbb.c\<close>).

  A top-level \<open>CBB\<close> and the children that are open below it share one buffer and form a
  chain. The state is the buffer with the chain: the pending prefix of every open child, from
  the outermost to the innermost. An operation on a \<open>CBB\<close> takes its depth in the chain, 0 for
  the top-level one; a child whose prefix was written (its \<open>base\<close> is \<open>NULL\<close> then) has a depth
  beyond the chain.
\<close>

section \<open>The buffer\<close>

text \<open>
  \<open>struct cbb_buffer_st\<close>: \<open>cb_buf\<close> is the first \<open>len\<close> bytes of \<open>buf\<close>, the valid ones, so \<open>len\<close>
  is its length. \<open>cb_alloc n\<close> says whether \<open>OPENSSL_realloc\<close> to \<open>n\<close> bytes succeeds.
\<close>

record cbb_buffer =
  cb_buf :: "byte list"
  cb_cap :: nat
  cb_can_resize :: bool
  cb_error :: bool
  cb_alloc :: "nat \<Rightarrow> bool"

text \<open>The fields \<open>offset\<close>, \<open>pending_len_len\<close> and \<open>pending_is_asn1\<close> of an open child.\<close>

record cbb_frame =
  fr_offset :: nat
  fr_pending_len_len :: nat
  fr_pending_is_asn1 :: bool

record cbb =
  cbb_base :: cbb_buffer
  cbb_chain :: "cbb_frame list"

definition cbb_init :: "nat \<Rightarrow> bool \<Rightarrow> (nat \<Rightarrow> bool) \<Rightarrow> cbb" where
  "cbb_init cap can_resize alloc =
     \<lparr>cbb_base = \<lparr>cb_buf = [], cb_cap = cap, cb_can_resize = can_resize, cb_error = False,
        cb_alloc = alloc\<rparr>, cbb_chain = []\<rparr>"

definition CBB_init :: "nat \<Rightarrow> (nat \<Rightarrow> bool) \<Rightarrow> cbb option" where
  "CBB_init initial_capacity alloc =
     (if initial_capacity > 0 \<and> \<not> alloc initial_capacity then None
      else Some (cbb_init initial_capacity True alloc))"

definition CBB_init_fixed :: "nat \<Rightarrow> cbb" where
  "CBB_init_fixed len = cbb_init len False (\<lambda>n. False)"

definition cbb_buffer_reserve :: "cbb_buffer \<Rightarrow> nat \<Rightarrow> bool \<times> cbb_buffer" where
  "cbb_buffer_reserve base len =
     (let newlen = (length (cb_buf base) + len) mod size_mod;
          err = (False, base\<lparr>cb_error := True\<rparr>)
      in if newlen < length (cb_buf base) then err
         else if newlen > cb_cap base then
           (if \<not> cb_can_resize base then err
            else
              (let doubled = (cb_cap base * 2) mod size_mod;
                   newcap = (if doubled < cb_cap base \<or> doubled < newlen then newlen else doubled)
               in if cb_alloc base newcap then (True, base\<lparr>cb_cap := newcap\<rparr>) else err))
         else (True, base))"

text \<open>
  The bytes that \<open>cbb_buffer_add\<close> makes valid are whatever the memory holds; they are zero
  here, and every caller but \<open>CBB_add_space\<close> overwrites them.
\<close>

definition cbb_buffer_add :: "cbb_buffer \<Rightarrow> nat \<Rightarrow> bool \<times> cbb_buffer" where
  "cbb_buffer_add base len =
     (case cbb_buffer_reserve base len of
        (False, base') \<Rightarrow> (False, base')
      | (True, base') \<Rightarrow> (True, base'\<lparr>cb_buf := cb_buf base' @ replicate len 0\<rparr>))"

text \<open>
  The loops that store a big-endian number of \<open>n\<close> bytes at \<open>buf + pos\<close>, from the last byte to
  the first, with what is left of the number.
\<close>

fun store_be :: "byte list \<Rightarrow> nat \<Rightarrow> nat \<Rightarrow> u64 \<Rightarrow> byte list \<times> u64" where
  "store_be buf pos 0 v = (buf, v)"
| "store_be buf pos (Suc i) v = store_be (buf[pos + i := ucast v]) pos i (drop_bit 8 v)"

definition cbb_buffer_add_u :: "cbb_buffer \<Rightarrow> u64 \<Rightarrow> nat \<Rightarrow> bool \<times> cbb_buffer" where
  "cbb_buffer_add_u base v len_len =
     (if len_len = 0 then (True, base)
      else (case cbb_buffer_add base len_len of
              (False, base') \<Rightarrow> (False, base')
            | (True, base') \<Rightarrow>
                (let (buf, rest) = store_be (cb_buf base') (length (cb_buf base)) len_len v;
                     base'' = base'\<lparr>cb_buf := buf\<rparr>
                 in if rest \<noteq> 0 then (False, base''\<lparr>cb_error := True\<rparr>) else (True, base''))))"

section \<open>Writing pending prefixes\<close>

definition memmove :: "byte list \<Rightarrow> nat \<Rightarrow> nat \<Rightarrow> nat \<Rightarrow> byte list" where
  "memmove buf dst src n = take dst buf @ take n (drop src buf) @ drop (dst + n) buf"

definition base_err :: "cbb_buffer \<Rightarrow> bool \<times> cbb_buffer" where
  "base_err b = (False, b\<lparr>cb_error := True\<rparr>)"

text \<open>The last loop of \<open>CBB_flush\<close> and the test that the length fits the prefix.\<close>

definition store_length :: "cbb_buffer \<Rightarrow> nat \<Rightarrow> nat \<Rightarrow> nat \<Rightarrow> bool \<times> cbb_buffer" where
  "store_length base offset len_len len =
     (case store_be (cb_buf base) offset len_len (of_nat len) of
        (buf, rest) \<Rightarrow>
          (if rest \<noteq> 0 then base_err (base\<lparr>cb_buf := buf\<rparr>) else (True, base\<lparr>cb_buf := buf\<rparr>)))"

text \<open>
  The length of an ASN.1 element: the contents are moved when the length needs more than the
  one byte that is reserved for it.
\<close>

definition write_asn1_length :: "cbb_buffer \<Rightarrow> nat \<Rightarrow> nat \<Rightarrow> nat \<Rightarrow> byte \<Rightarrow> nat \<Rightarrow> bool \<times> cbb_buffer" where
  "write_asn1_length base offset child_start len_len initial_length_byte len =
     (let extra_bytes = len_len - 1
      in case (if len_len \<noteq> 1 then cbb_buffer_add base extra_bytes else (True, base)) of
           (False, b) \<Rightarrow> base_err b
         | (True, b) \<Rightarrow>
             (let buf = (if len_len \<noteq> 1
                         then memmove (cb_buf b) (child_start + extra_bytes) child_start len
                         else cb_buf b)
              in store_length (b\<lparr>cb_buf := buf[offset := initial_length_byte]\<rparr>) (offset + 1) extra_bytes len))"

text \<open>The part of \<open>CBB_flush\<close> after the child itself was flushed.\<close>

definition write_prefix :: "cbb_buffer \<Rightarrow> cbb_frame \<Rightarrow> bool \<times> cbb_buffer" where
  "write_prefix base child =
     (let offset = fr_offset child;
          child_start = (offset + fr_pending_len_len child) mod size_mod
      in if child_start < offset \<or> length (cb_buf base) < child_start then base_err base
         else
           (let len = length (cb_buf base) - child_start
            in if fr_pending_is_asn1 child then
                 (if len > 0xfffffffe then base_err base
                  else if len > 0xffffff then write_asn1_length base offset child_start 5 (0x80 OR 4) len
                  else if len > 0xffff then write_asn1_length base offset child_start 4 (0x80 OR 3) len
                  else if len > 0xff then write_asn1_length base offset child_start 3 (0x80 OR 2) len
                  else if len > 0x7f then write_asn1_length base offset child_start 2 (0x80 OR 1) len
                  else write_asn1_length base offset child_start 1 (of_nat len) 0)
               else store_length base offset (fr_pending_len_len child) len))"

text \<open>
  \<open>CBB_flush\<close> of the \<open>CBB\<close> at depth \<open>i\<close> writes the prefixes of all its descendants, the
  innermost first.
\<close>

function CBB_flush :: "cbb \<Rightarrow> nat \<Rightarrow> bool \<times> cbb" where
  "CBB_flush cbb i =
     (if i > length (cbb_chain cbb) \<or> cb_error (cbb_base cbb) then (False, cbb)
      else if i = length (cbb_chain cbb) \<or> fr_pending_len_len (cbb_chain cbb ! i) = 0 then (True, cbb)
      else
        (let child = cbb_chain cbb ! i
         in case CBB_flush cbb (i + 1) of
              (False, cbb') \<Rightarrow>
                (False, cbb'\<lparr>cbb_base := (cbb_base cbb')\<lparr>cb_error := True\<rparr>\<rparr>)
            | (True, cbb') \<Rightarrow>
                (case write_prefix (cbb_base cbb') child of
                   (False, base) \<Rightarrow> (False, cbb'\<lparr>cbb_base := base\<rparr>)
                 | (True, base) \<Rightarrow>
                     (True, cbb'\<lparr>cbb_base := base, cbb_chain := take i (cbb_chain cbb')\<rparr>))))"
  by pat_completeness auto
termination
  by (relation "measure (\<lambda>(cbb, i). length (cbb_chain cbb) - i)") auto

declare CBB_flush.simps [simp del]

section \<open>Appending\<close>

text \<open>An operation on the buffer after the \<open>CBB\<close> at depth \<open>i\<close> was flushed.\<close>

definition flush_then :: "cbb \<Rightarrow> nat \<Rightarrow> (cbb_buffer \<Rightarrow> bool \<times> cbb_buffer) \<Rightarrow> bool \<times> cbb" where
  "flush_then cbb i f =
     (case CBB_flush cbb i of
        (False, cbb') \<Rightarrow> (False, cbb')
      | (True, cbb') \<Rightarrow>
          (case f (cbb_base cbb') of (ok, base) \<Rightarrow> (ok, cbb'\<lparr>cbb_base := base\<rparr>)))"

definition CBB_add_bytes :: "cbb \<Rightarrow> nat \<Rightarrow> byte list \<Rightarrow> bool \<times> cbb" where
  "CBB_add_bytes cbb i data = flush_then cbb i (\<lambda>base.
     (case cbb_buffer_add base (length data) of
        (False, base') \<Rightarrow> (False, base')
      | (True, base') \<Rightarrow> (True, base'\<lparr>cb_buf := take (length (cb_buf base)) (cb_buf base') @ data\<rparr>)))"

definition CBB_add_space :: "cbb \<Rightarrow> nat \<Rightarrow> nat \<Rightarrow> bool \<times> cbb" where
  "CBB_add_space cbb i len = flush_then cbb i (\<lambda>base. cbb_buffer_add base len)"

definition CBB_reserve :: "cbb \<Rightarrow> nat \<Rightarrow> nat \<Rightarrow> bool \<times> cbb" where
  "CBB_reserve cbb i len = flush_then cbb i (\<lambda>base. cbb_buffer_reserve base len)"

text \<open>\<open>CBB_did_write\<close> after the caller wrote \<open>data\<close> into the reserved space.\<close>

definition CBB_did_write :: "cbb \<Rightarrow> nat \<Rightarrow> byte list \<Rightarrow> bool \<times> cbb" where
  "CBB_did_write cbb i data =
     (let base = cbb_base cbb;
          newlen = (length (cb_buf base) + length data) mod size_mod
      in if i \<noteq> length (cbb_chain cbb) \<or> newlen < length (cb_buf base) \<or> newlen > cb_cap base
         then (False, cbb)
         else (True, cbb\<lparr>cbb_base := base\<lparr>cb_buf := cb_buf base @ data\<rparr>\<rparr>))"

definition CBB_add_u8 :: "cbb \<Rightarrow> nat \<Rightarrow> byte \<Rightarrow> bool \<times> cbb" where
  "CBB_add_u8 cbb i v = flush_then cbb i (\<lambda>base. cbb_buffer_add_u base (ucast v) 1)"

definition CBB_add_u16 :: "cbb \<Rightarrow> nat \<Rightarrow> u16 \<Rightarrow> bool \<times> cbb" where
  "CBB_add_u16 cbb i v = flush_then cbb i (\<lambda>base. cbb_buffer_add_u base (ucast v) 2)"

definition CBB_add_u16le :: "cbb \<Rightarrow> nat \<Rightarrow> u16 \<Rightarrow> bool \<times> cbb" where
  "CBB_add_u16le cbb i v = CBB_add_u16 cbb i (CRYPTO_bswap2 v)"

definition CBB_add_u24 :: "cbb \<Rightarrow> nat \<Rightarrow> u32 \<Rightarrow> bool \<times> cbb" where
  "CBB_add_u24 cbb i v = flush_then cbb i (\<lambda>base. cbb_buffer_add_u base (ucast v) 3)"

definition CBB_add_u32 :: "cbb \<Rightarrow> nat \<Rightarrow> u32 \<Rightarrow> bool \<times> cbb" where
  "CBB_add_u32 cbb i v = flush_then cbb i (\<lambda>base. cbb_buffer_add_u base (ucast v) 4)"

definition CBB_add_u32le :: "cbb \<Rightarrow> nat \<Rightarrow> u32 \<Rightarrow> bool \<times> cbb" where
  "CBB_add_u32le cbb i v = CBB_add_u32 cbb i (CRYPTO_bswap4 v)"

definition CBB_add_u64 :: "cbb \<Rightarrow> nat \<Rightarrow> u64 \<Rightarrow> bool \<times> cbb" where
  "CBB_add_u64 cbb i v = flush_then cbb i (\<lambda>base. cbb_buffer_add_u base v 8)"

definition CBB_add_u64le :: "cbb \<Rightarrow> nat \<Rightarrow> u64 \<Rightarrow> bool \<times> cbb" where
  "CBB_add_u64le cbb i v = CBB_add_u64 cbb i (CRYPTO_bswap8 v)"

text \<open>
  \<open>CBB_data\<close> and \<open>CBB_len\<close> of a \<open>CBB\<close> without open children: the bytes after its prefix.
\<close>

definition cbb_start :: "cbb \<Rightarrow> nat \<Rightarrow> nat" where
  "cbb_start cbb i =
     (if i = 0 then 0
      else fr_offset (cbb_chain cbb ! (i - 1)) + fr_pending_len_len (cbb_chain cbb ! (i - 1)))"

definition CBB_data :: "cbb \<Rightarrow> nat \<Rightarrow> byte list" where
  "CBB_data cbb i = drop (cbb_start cbb i) (cb_buf (cbb_base cbb))"

definition CBB_len :: "cbb \<Rightarrow> nat \<Rightarrow> nat" where
  "CBB_len cbb i = length (cb_buf (cbb_base cbb)) - cbb_start cbb i"

text \<open>\<open>CBB_finish\<close> of the top-level \<open>CBB\<close> with both out-parameters: the bytes it hands over.\<close>

definition CBB_finish :: "cbb \<Rightarrow> nat \<Rightarrow> byte list option" where
  "CBB_finish cbb i =
     (if i \<noteq> 0 then None
      else (case CBB_flush cbb 0 of
              (False, cbb') \<Rightarrow> None
            | (True, cbb') \<Rightarrow> Some (cb_buf (cbb_base cbb'))))"

section \<open>Children\<close>

text \<open>The new child has depth \<open>i + 1\<close>.\<close>

definition cbb_add_length_prefixed :: "cbb \<Rightarrow> nat \<Rightarrow> nat \<Rightarrow> bool \<times> cbb" where
  "cbb_add_length_prefixed cbb i len_len =
     (case CBB_flush cbb i of
        (False, cbb') \<Rightarrow> (False, cbb')
      | (True, cbb') \<Rightarrow>
          (let offset = length (cb_buf (cbb_base cbb'))
           in case cbb_buffer_add (cbb_base cbb') len_len of
                (False, base) \<Rightarrow> (False, cbb'\<lparr>cbb_base := base\<rparr>)
              | (True, base) \<Rightarrow>
                  (True, cbb'\<lparr>cbb_base :=
                            base\<lparr>cb_buf := take offset (cb_buf base) @ replicate len_len 0\<rparr>,
                          cbb_chain := take i (cbb_chain cbb') @
                            [\<lparr>fr_offset = offset, fr_pending_len_len = len_len,
                              fr_pending_is_asn1 = False\<rparr>]\<rparr>)))"

definition CBB_add_u8_length_prefixed :: "cbb \<Rightarrow> nat \<Rightarrow> bool \<times> cbb" where
  "CBB_add_u8_length_prefixed cbb i = cbb_add_length_prefixed cbb i 1"

definition CBB_add_u16_length_prefixed :: "cbb \<Rightarrow> nat \<Rightarrow> bool \<times> cbb" where
  "CBB_add_u16_length_prefixed cbb i = cbb_add_length_prefixed cbb i 2"

definition CBB_add_u24_length_prefixed :: "cbb \<Rightarrow> nat \<Rightarrow> bool \<times> cbb" where
  "CBB_add_u24_length_prefixed cbb i = cbb_add_length_prefixed cbb i 3"

text \<open>The number of base-128 groups, and the bytes from the most significant group on.\<close>

function base128_len :: "u64 \<Rightarrow> nat" where
  "base128_len copy = (if copy = 0 then 0 else 1 + base128_len (drop_bit 7 copy))"
  by pat_completeness auto
termination
proof (relation "measure unat", simp)
  fix v :: u64
  assume "v \<noteq> 0"
  then have "unat v > 0" by (simp add: unat_gt_0)
  then show "(drop_bit 7 v, v) \<in> measure unat"
    by (simp add: unat_drop_bit_word)
qed

declare base128_len.simps [simp del]

fun add_base128_loop :: "cbb \<Rightarrow> nat \<Rightarrow> u64 \<Rightarrow> nat \<Rightarrow> bool \<times> cbb" where
  "add_base128_loop cbb i v 0 = (True, cbb)"
| "add_base128_loop cbb i v (Suc k) =
     (let byte = ucast (drop_bit (7 * k) v AND 0x7f) :: byte;
          byte' = (if k \<noteq> 0 then byte OR 0x80 else byte)
      in case CBB_add_u8 cbb i byte' of
           (False, cbb') \<Rightarrow> (False, cbb')
         | (True, cbb') \<Rightarrow> add_base128_loop cbb' i v k)"

definition add_base128_integer :: "cbb \<Rightarrow> nat \<Rightarrow> u64 \<Rightarrow> bool \<times> cbb" where
  "add_base128_integer cbb i v =
     (let len_len = base128_len v
      in add_base128_loop cbb i v (if len_len = 0 then 1 else len_len))"

definition CBB_add_asn1 :: "cbb \<Rightarrow> nat \<Rightarrow> u32 \<Rightarrow> bool \<times> cbb" where
  "CBB_add_asn1 cbb i tag =
     (case CBB_flush cbb i of
        (False, cbb1) \<Rightarrow> (False, cbb1)
      | (True, cbb1) \<Rightarrow>
          (let tag_bits = ucast (drop_bit CBS_ASN1_TAG_SHIFT tag) AND 0xe0 :: byte;
               tag_number = tag AND CBS_ASN1_TAG_NUMBER_MASK
           in case (if tag_number \<ge> 0x1f
                    then (case CBB_add_u8 cbb1 i (tag_bits OR 0x1f) of
                            (False, cbb2) \<Rightarrow> (False, cbb2)
                          | (True, cbb2) \<Rightarrow> add_base128_integer cbb2 i (ucast tag_number))
                    else CBB_add_u8 cbb1 i (tag_bits OR ucast tag_number)) of
                (False, cbb3) \<Rightarrow> (False, cbb3)
              | (True, cbb3) \<Rightarrow>
                  (let offset = length (cb_buf (cbb_base cbb3))
                   in case CBB_add_u8 cbb3 i 0 of
                        (False, cbb4) \<Rightarrow> (False, cbb4)
                      | (True, cbb4) \<Rightarrow>
                          (True, cbb4\<lparr>cbb_chain := take i (cbb_chain cbb4) @
                             [\<lparr>fr_offset = offset, fr_pending_len_len = 1,
                               fr_pending_is_asn1 = True\<rparr>]\<rparr>))))"

definition CBB_discard_child :: "cbb \<Rightarrow> nat \<Rightarrow> cbb" where
  "CBB_discard_child cbb i =
     (if i \<ge> length (cbb_chain cbb) then cbb
      else cbb\<lparr>cbb_base := (cbb_base cbb)\<lparr>cb_buf := take (fr_offset (cbb_chain cbb ! i)) (cb_buf (cbb_base cbb))\<rparr>,
               cbb_chain := take i (cbb_chain cbb)\<rparr>)"

section \<open>DER values\<close>

text \<open>The loop of \<open>CBB_add_asn1_uint64\<close> over the bytes of the value, most significant first.\<close>

fun add_uint_bytes :: "cbb \<Rightarrow> nat \<Rightarrow> bool \<Rightarrow> byte list \<Rightarrow> bool \<times> bool \<times> cbb" where
  "add_uint_bytes cbb i started [] = (True, started, cbb)"
| "add_uint_bytes cbb i started (byte # bs) =
     (if \<not> started \<and> byte = 0 then add_uint_bytes cbb i started bs
      else (case (if \<not> started \<and> byte AND 0x80 \<noteq> 0 then CBB_add_u8 cbb i 0 else (True, cbb)) of
              (False, cbb') \<Rightarrow> (False, True, cbb')
            | (True, cbb') \<Rightarrow>
                (case CBB_add_u8 cbb' i byte of
                   (False, cbb'') \<Rightarrow> (False, True, cbb'')
                 | (True, cbb'') \<Rightarrow> add_uint_bytes cbb'' i True bs)))"

definition CBB_add_asn1_uint64 :: "cbb \<Rightarrow> nat \<Rightarrow> u64 \<Rightarrow> bool \<times> cbb" where
  "CBB_add_asn1_uint64 cbb i v =
     (case CBB_add_asn1 cbb i CBS_ASN1_INTEGER of
        (False, cbb1) \<Rightarrow> (False, cbb1)
      | (True, cbb1) \<Rightarrow>
          (case add_uint_bytes cbb1 (i + 1) False
                  (map (\<lambda>k. ucast (drop_bit (8 * (7 - k)) v AND 0xff)) [0..<8]) of
             (False, _, cbb2) \<Rightarrow> (False, cbb2)
           | (True, started, cbb2) \<Rightarrow>
               (case (if \<not> started then CBB_add_u8 cbb2 (i + 1) 0 else (True, cbb2)) of
                  (False, cbb3) \<Rightarrow> (False, cbb3)
                | (True, cbb3) \<Rightarrow> CBB_flush cbb3 i)))"

text \<open>The bytes \<open>u.bytes\<close> of an \<open>int64_t\<close> are little-endian; \<open>start\<close> is its last needed byte.\<close>

fun int64_start :: "byte list \<Rightarrow> nat \<Rightarrow> nat" where
  "int64_start bytes 0 = 0"
| "int64_start bytes (Suc start) =
     (if bytes ! Suc start = 0xff \<and> bytes ! start AND 0x80 \<noteq> 0 then int64_start bytes start
      else Suc start)"

fun add_int_bytes :: "cbb \<Rightarrow> nat \<Rightarrow> byte list \<Rightarrow> nat \<Rightarrow> bool \<times> cbb" where
  "add_int_bytes cbb i bytes 0 = (True, cbb)"
| "add_int_bytes cbb i bytes (Suc k) =
     (case CBB_add_u8 cbb i (bytes ! k) of
        (False, cbb') \<Rightarrow> (False, cbb')
      | (True, cbb') \<Rightarrow> add_int_bytes cbb' i bytes k)"

definition CBB_add_asn1_int64 :: "cbb \<Rightarrow> nat \<Rightarrow> u64 \<Rightarrow> bool \<times> cbb" where
  "CBB_add_asn1_int64 cbb i v =
     (if sint v \<ge> 0 then CBB_add_asn1_uint64 cbb i v
      else
        (let bytes = le_bytes 8 v; start = int64_start bytes 7
         in case CBB_add_asn1 cbb i CBS_ASN1_INTEGER of
              (False, cbb1) \<Rightarrow> (False, cbb1)
            | (True, cbb1) \<Rightarrow>
                (case add_int_bytes cbb1 (i + 1) bytes (start + 1) of
                   (False, cbb2) \<Rightarrow> (False, cbb2)
                 | (True, cbb2) \<Rightarrow> CBB_flush cbb2 i)))"

definition CBB_add_asn1_octet_string :: "cbb \<Rightarrow> nat \<Rightarrow> byte list \<Rightarrow> bool \<times> cbb" where
  "CBB_add_asn1_octet_string cbb i data =
     (case CBB_add_asn1 cbb i CBS_ASN1_OCTETSTRING of
        (False, cbb1) \<Rightarrow> (False, cbb1)
      | (True, cbb1) \<Rightarrow>
          (case CBB_add_bytes cbb1 (i + 1) data of
             (False, cbb2) \<Rightarrow> (False, cbb2)
           | (True, cbb2) \<Rightarrow> CBB_flush cbb2 i))"

definition CBB_add_asn1_bool :: "cbb \<Rightarrow> nat \<Rightarrow> bool \<Rightarrow> bool \<times> cbb" where
  "CBB_add_asn1_bool cbb i v =
     (case CBB_add_asn1 cbb i CBS_ASN1_BOOLEAN of
        (False, cbb1) \<Rightarrow> (False, cbb1)
      | (True, cbb1) \<Rightarrow>
          (case CBB_add_u8 cbb1 (i + 1) (if v then 0xff else 0) of
             (False, cbb2) \<Rightarrow> (False, cbb2)
           | (True, cbb2) \<Rightarrow> CBB_flush cbb2 i))"


end
