(* ===== verification/Cbb_Laws.thy ===== *)
theory Cbb_Laws
  imports Cbb Der_Values
begin

text \<open>
  The builder \<open>CBB\<close> simulates an abstract builder: a stack of prefixes and contents, where
  writing a prefix appends the encoded length and the contents to the level below.
\<close>

section \<open>The buffer\<close>

definition base_ok :: "cbb_buffer \<Rightarrow> bool" where
  "base_ok b \<longleftrightarrow> length (cb_buf b) \<le> cb_cap b \<and> cb_cap b < size_mod \<and> \<not> cb_error b"

text \<open>There is room, or it can be made.\<close>

definition has_room :: "cbb_buffer \<Rightarrow> nat \<Rightarrow> bool" where
  "has_room b n \<longleftrightarrow> length (cb_buf b) + n \<le> cb_cap b \<or>
     length (cb_buf b) + n < size_mod \<and> cb_can_resize b \<and> (\<forall>m. cb_alloc b m)"

definition same_heap :: "cbb_buffer \<Rightarrow> cbb_buffer \<Rightarrow> bool" where
  "same_heap b b' \<longleftrightarrow> cb_can_resize b' = cb_can_resize b \<and> cb_alloc b' = cb_alloc b \<and>
     cb_cap b \<le> cb_cap b' \<and> (\<not> cb_can_resize b \<longrightarrow> cb_cap b' = cb_cap b)"

lemma same_heap_refl [simp]: "same_heap b b" by (simp add: same_heap_def)

lemma same_heap_trans [trans]: "same_heap a b \<Longrightarrow> same_heap b c \<Longrightarrow> same_heap a c"
  by (auto simp: same_heap_def)

lemma reserve_cases:
  assumes "base_ok b" "n < size_mod" "cbb_buffer_reserve b n = (ok, b')"
  shows "if ok then base_ok b' \<and> same_heap b b' \<and> cb_buf b' = cb_buf b \<and> length (cb_buf b) + n \<le> cb_cap b'
         else cb_error b' \<and> \<not> has_room b n"
proof -
  let ?l = "length (cb_buf b)"
  have l: "?l < size_mod" using assms(1) by (simp add: base_ok_def)
  show ?thesis
  proof (cases "?l + n < size_mod")
    case True
    then show ?thesis
      using assms by (auto simp: cbb_buffer_reserve_def Let_def base_ok_def same_heap_def has_room_def split: if_splits)
  next
    case False
    then have "(?l + n) mod size_mod < ?l"
      using mod_add_wrap [of ?l size_mod n] l assms(2) by simp
    then show ?thesis
      using assms False by (auto simp: cbb_buffer_reserve_def Let_def base_ok_def has_room_def)
  qed
qed

lemma buffer_add_cases:
  assumes "base_ok b" "n < size_mod" "cbb_buffer_add b n = (ok, b')"
  shows "if ok then base_ok b' \<and> same_heap b b' \<and> cb_buf b' = cb_buf b @ replicate n 0
         else cb_error b' \<and> \<not> has_room b n"
  using reserve_cases [OF assms(1,2)] assms(3)
  by (cases "cbb_buffer_reserve b n")
    (auto simp: cbb_buffer_add_def base_ok_def same_heap_def split: bool.splits if_splits)

lemma store_be_eq:
  "store_be (pre @ xs @ post) (length pre) n v = (pre @ be_bytes n v @ post, drop_bit (8 * n) v)"
  if "length xs = n"
  using that
proof (induction n arbitrary: xs post v)
  case (Suc n)
  obtain ys y where xs: "xs = ys @ [y]" "length ys = n"
    using Suc.prems by (cases xs rule: rev_cases) auto
  have "store_be (pre @ xs @ post) (length pre) (Suc n) v =
      store_be (pre @ ys @ ucast v # post) (length pre) n (drop_bit 8 v)"
    using xs by (simp add: list_update_append)
  also have "\<dots> = (pre @ be_bytes n (drop_bit 8 v) @ ucast v # post, drop_bit (8 * n) (drop_bit 8 v))"
    using Suc.IH [OF xs(2)] by simp
  finally show ?case by (simp add: drop_bit_drop_bit be_bytes_def add.commute del: drop_bit_Suc)
qed (simp add: be_bytes_def)

lemma buffer_add_u_cases:
  assumes "base_ok b" "0 < n" "n < size_mod" "cbb_buffer_add_u b v n = (ok, b')"
  shows "if ok then base_ok b' \<and> same_heap b b' \<and> cb_buf b' = cb_buf b @ be_bytes n v
         else cb_error b' \<and> (has_room b n \<longrightarrow> drop_bit (8 * n) v \<noteq> 0)"
proof -
  obtain o1 b1 where b1: "cbb_buffer_add b n = (o1, b1)" by force
  note c = buffer_add_cases [OF assms(1,3) b1]
  show ?thesis
  proof (cases o1)
    case True
    then have h: "cb_buf b1 = cb_buf b @ replicate n 0" "base_ok b1" "same_heap b b1" using c by simp_all
    have s: "store_be (cb_buf b1) (length (cb_buf b)) n v = (cb_buf b @ be_bytes n v, drop_bit (8 * n) v)"
      using store_be_eq [of "replicate n 0" n "cb_buf b" "[]" v] h(1) by simp
    have "base_ok (b1\<lparr>cb_buf := cb_buf b @ be_bytes n v\<rparr>)" "same_heap b (b1\<lparr>cb_buf := cb_buf b @ be_bytes n v\<rparr>)"
      using h by (simp_all add: base_ok_def same_heap_def)
    then show ?thesis
      using s assms(2,4) b1 True by (auto simp: cbb_buffer_add_u_def Let_def split: if_splits)
  next
    case False
    then show ?thesis using c assms(2,4) b1 by (auto simp: cbb_buffer_add_u_def)
  qed
qed

section \<open>The abstract builder\<close>

text \<open>
  A prefix is a big-endian length of \<open>n\<close> bytes or a DER length, for which one byte is reserved.
\<close>

datatype prefix = Len_prefix nat | Der_prefix

fun prefix_room :: "prefix \<Rightarrow> nat" where
  "prefix_room (Len_prefix n) = n"
| "prefix_room Der_prefix = 1"

fun close_prefix :: "prefix \<Rightarrow> byte list \<Rightarrow> byte list" where
  "close_prefix (Len_prefix n) c = be_bytes n (of_nat (length c) :: u64) @ c"
| "close_prefix Der_prefix c = der_len (length c) @ c"

fun prefix_fits :: "prefix \<Rightarrow> nat \<Rightarrow> bool" where
  "prefix_fits (Len_prefix n) l \<longleftrightarrow> l < 2 ^ (8 * n)"
| "prefix_fits Der_prefix l \<longleftrightarrow> l \<le> 0xfffffffe"

fun prefix_ok :: "prefix \<Rightarrow> bool" where
  "prefix_ok (Len_prefix n) \<longleftrightarrow> 0 < n \<and> n \<le> 8"
| "prefix_ok Der_prefix \<longleftrightarrow> True"

definition frame_for :: "nat \<Rightarrow> prefix \<Rightarrow> cbb_frame" where
  "frame_for off p = \<lparr>fr_offset = off, fr_pending_len_len = prefix_room p, fr_pending_is_asn1 = (p = Der_prefix)\<rparr>"

lemma der_len_cases:
  assumes "n \<le> 0xfffffffe"
  shows "der_len n = (if n > 0xffffff then 0x84 # be_bytes 4 (of_nat n :: u64)
    else if n > 0xffff then 0x83 # be_bytes 3 (of_nat n :: u64)
    else if n > 0xff then 0x82 # be_bytes 2 (of_nat n :: u64)
    else if n > 0x7f then 0x81 # be_bytes 1 (of_nat n :: u64) else [of_nat n])"
  using assms by (simp add: der_len_def len_octets_def)

lemma length_frame [simp]:
  "fr_offset (frame_for off p) = off" "fr_pending_len_len (frame_for off p) = prefix_room p"
  "fr_pending_is_asn1 (frame_for off p) = (p = Der_prefix)"
  by (simp_all add: frame_for_def)

lemma store_length_eq:
  assumes "cb_buf b = pre @ xs @ post" "length xs = n" "off = length pre"
  shows "store_length b off n len =
    (let b' = b\<lparr>cb_buf := pre @ be_bytes n (of_nat len :: u64) @ post\<rparr>
     in if drop_bit (8 * n) (of_nat len :: u64) \<noteq> 0 then base_err b' else (True, b'))"
  using store_be_eq [OF assms(2), of pre post] assms by (simp add: store_length_def Let_def)

lemma drop_bit_of_nat_0:
  assumes "len < size_mod" "n \<le> 8"
  shows "drop_bit (8 * n) (of_nat len :: u64) = 0 \<longleftrightarrow> len < 2 ^ (8 * n)"
proof -
  have "unat (of_nat len :: u64) = len" using assms(1) by (simp add: unat_of_nat)
  then have "unat (drop_bit (8 * n) (of_nat len :: u64)) = len div 2 ^ (8 * n)"
    by (simp add: unat_drop_bit_word)
  moreover have "len div 2 ^ (8 * n) = 0 \<longleftrightarrow> len < 2 ^ (8 * n)" by (simp add: div_eq_0_iff)
  ultimately show ?thesis by (metis unat_eq_0)
qed

lemma write_asn1_length_cases:
  assumes b: "base_ok b" "cb_buf b = pre @ [x] @ c"
    and e: "e \<le> 4" "length c < 2 ^ (8 * e)" "0 < e"
    and w: "write_asn1_length b (length pre) (length pre + 1) (e + 1) ib (length c) = (ok, b')"
  shows "if ok then base_ok b' \<and> same_heap b b' \<and> cb_buf b' = pre @ ib # be_bytes e (of_nat (length c) :: u64) @ c
         else cb_error b' \<and> \<not> has_room b 4"
proof -
  obtain o1 b1 where b1: "cbb_buffer_add b e = (o1, b1)" by force
  have "e < size_mod" using e(1) by simp
  note a = buffer_add_cases [OF b(1) this b1]
  show ?thesis
  proof (cases o1)
    case False
    then have "cb_error b1" "\<not> has_room b 4" using a e(1) by (auto simp: has_room_def)
    then show ?thesis using w b1 False e(3) by (auto simp: write_asn1_length_def base_err_def)
  next
    case True
    then have h: "cb_buf b1 = pre @ [x] @ c @ replicate e 0" "base_ok b1" "same_heap b b1" using a b(2) by simp_all
    define xs where "xs = take e (c @ replicate e 0)"
    have xs: "length xs = e" by (simp add: xs_def)
    have m: "memmove (cb_buf b1) (length pre + 1 + e) (length pre + 1) (length c) = pre @ [x] @ xs @ c"
      by (simp add: memmove_def h(1) xs_def)
    have "length c < size_mod"
      using b unfolding base_ok_def by simp
    then have d: "drop_bit (8 * e) (of_nat (length c) :: u64) = 0"
      using drop_bit_of_nat_0 [of "length c" e] e by simp
    have "write_asn1_length b (length pre) (length pre + 1) (e + 1) ib (length c) =
        store_length (b1\<lparr>cb_buf := pre @ [ib] @ xs @ c\<rparr>) (length pre + 1) e (length c)"
      using e(3) True b1 m by (simp add: write_asn1_length_def Let_def list_update_append)
    also have "\<dots> = (True, b1\<lparr>cb_buf := pre @ [ib] @ be_bytes e (of_nat (length c) :: u64) @ c\<rparr>)"
      using store_length_eq [of "b1\<lparr>cb_buf := pre @ [ib] @ xs @ c\<rparr>" "pre @ [ib]" xs c e] xs d by (simp add: Let_def)
    finally show ?thesis
      using w h by (auto simp: base_ok_def same_heap_def)
  qed
qed

lemma write_prefix_cases:
  assumes b: "base_ok b" "cb_buf b = pre @ replicate (prefix_room p) 0 @ c"
    and p: "prefix_ok p"
    and w: "write_prefix b (frame_for (length pre) p) = (ok, b')"
  shows "if ok then base_ok b' \<and> same_heap b b' \<and> cb_buf b' = pre @ close_prefix p c
         else cb_error b' \<and> \<not> (prefix_fits p (length c) \<and> has_room b 4)"
proof -
  have sz: "length pre + prefix_room p + length c < size_mod"
    using b unfolding base_ok_def by simp
  then have start: "(length pre + prefix_room p) mod size_mod = length pre + prefix_room p" by simp
  show ?thesis
  proof (cases p)
    case (Len_prefix k)
    have k: "0 < k" "k \<le> 8" using p Len_prefix by simp_all
    show ?thesis
      using w b start sz k store_length_eq [of b pre "replicate k 0" c k "length pre" "length c"]
        drop_bit_of_nat_0 [of "length c" k] Len_prefix
      by (auto simp: write_prefix_def Let_def base_err_def base_ok_def same_heap_def split: if_splits)
  next
    case Der_prefix
    let ?w = "write_asn1_length b (length pre) (length pre + 1)"
    have b': "cb_buf b = pre @ [0] @ c" using b(2) Der_prefix by simp
    have fin: ?thesis
      if "write_prefix b (frame_for (length pre) p) = ?w (e + 1) ib (length c)" "0 < e" "e \<le> 4"
        "length c < 2 ^ (8 * e)" "der_len (length c) = ib # be_bytes e (of_nat (length c) :: u64)" for e ib
      using write_asn1_length_cases [OF b(1) b' that(3,4,2), of ib ok b'] w that(1,5) Der_prefix by simp
    have wp: "write_prefix b (frame_for (length pre) p) =
        (if length c > 0xfffffffe then base_err b
         else if length c > 0xffffff then ?w 5 (0x80 OR 4) (length c)
         else if length c > 0xffff then ?w 4 (0x80 OR 3) (length c)
         else if length c > 0xff then ?w 3 (0x80 OR 2) (length c)
         else if length c > 0x7f then ?w 2 (0x80 OR 1) (length c)
         else ?w 1 (of_nat (length c)) 0)"
      using start Der_prefix b' by (simp add: write_prefix_def Let_def)
    consider "length c > 0xfffffffe" | "length c > 0xffffff" "length c \<le> 0xfffffffe"
      | "length c > 0xffff" "length c \<le> 0xffffff" | "length c > 0xff" "length c \<le> 0xffff"
      | "length c > 0x7f" "length c \<le> 0xff" | "length c \<le> 0x7f" by linarith
    then show ?thesis
    proof cases
      case 1
      then show ?thesis using w wp Der_prefix by (auto simp: base_err_def)
    next
      case 2
      then show ?thesis by (intro fin [of 4 "0x84"]) (simp_all add: wp der_len_cases)
    next
      case 3
      then show ?thesis by (intro fin [of 3 "0x83"]) (simp_all add: wp der_len_cases)
    next
      case 4
      then show ?thesis by (intro fin [of 2 "0x82"]) (simp_all add: wp der_len_cases)
    next
      case 5
      then show ?thesis by (intro fin [of 1 "0x81"]) (simp_all add: wp der_len_cases flip: numeral_2_eq_2)
    next
      case 6
      have "?w 1 (of_nat (length c)) 0 = (True, b\<lparr>cb_buf := pre @ of_nat (length c) # c\<rparr>)"
        by (simp add: write_asn1_length_def store_length_def b' list_update_append)
      then show ?thesis
        using 6 w wp b(1) b' Der_prefix by (auto simp: base_ok_def same_heap_def der_len_def)
    qed
  qed
qed


section \<open>The chain\<close>

text \<open>
  The abstract state is the prefix and the contents so far of the top-level builder (whose
  prefix is empty) and of each open child, outermost first.
\<close>

type_synonym spec = "(prefix \<times> byte list) list"

fun collapse :: "spec \<Rightarrow> byte list" where
  "collapse [] = []"
| "collapse ((p, c) # ps) = close_prefix p (c @ collapse ps)"

definition spec_flush :: "spec \<Rightarrow> nat \<Rightarrow> spec" where
  "spec_flush lv i = take i lv @ [(fst (lv ! i), snd (lv ! i) @ collapse (drop (Suc i) lv))]"

definition spec_append :: "spec \<Rightarrow> nat \<Rightarrow> byte list \<Rightarrow> spec" where
  "spec_append lv i bs =
     take i lv @ [(fst (lv ! i), snd (lv ! i) @ collapse (drop (Suc i) lv) @ bs)]"

definition spec_open :: "spec \<Rightarrow> nat \<Rightarrow> prefix \<Rightarrow> spec" where
  "spec_open lv i p = spec_flush lv i @ [(p, [])]"

definition raw :: "spec \<Rightarrow> byte list" where
  "raw lv = concat (map (\<lambda>(p, c). replicate (prefix_room p) 0 @ c) lv)"

fun frames :: "nat \<Rightarrow> spec \<Rightarrow> cbb_frame list" where
  "frames off [] = []"
| "frames off ((p, c) # ps) = frame_for off p # frames (off + prefix_room p + length c) ps"

definition cbb_rel :: "cbb \<Rightarrow> spec \<Rightarrow> bool" where
  "cbb_rel cbb lv \<longleftrightarrow> base_ok (cbb_base cbb) \<and> cb_buf (cbb_base cbb) = raw lv \<and>
     (\<exists>c ps. lv = (Len_prefix 0, c) # ps \<and> cbb_chain cbb = frames (length c) ps \<and>
        (\<forall>(p, d) \<in> set ps. prefix_ok p))"

lemma length_frames [simp]: "length (frames off ps) = length ps"
  by (induction off ps rule: frames.induct) auto

lemma raw_Nil [simp]: "raw [] = []"
  by (simp add: raw_def)

lemma raw_append: "raw (xs @ ys) = raw xs @ raw ys"
  by (simp add: raw_def)

lemma raw_Cons: "raw ((p, c) # lv) = replicate (prefix_room p) 0 @ c @ raw lv"
  by (simp add: raw_def)

lemma frames_nth:
  "i < length ps \<Longrightarrow> frames off ps ! i = frame_for (off + length (raw (take i ps))) (fst (ps ! i))"
proof (induction off ps arbitrary: i rule: frames.induct)
  case (2 off p c ps)
  then show ?case by (cases i) (auto simp: raw_def)
qed simp

lemma frames_take: "take i (frames off ps) = frames off (take i ps)"
proof (induction off ps arbitrary: i rule: frames.induct)
  case (2 off p c ps)
  then show ?case by (cases i) auto
qed simp

lemma frames_append: "frames off (ps @ qs) = frames off ps @ frames (off + length (raw ps)) qs"
  by (induction off ps rule: frames.induct) (auto simp: raw_Cons add.assoc)

text \<open>The facts about level \<open>i\<close> and the child above it.\<close>

lemma cbb_rel_levels: "cbb_rel cbb lv \<Longrightarrow> length lv = Suc (length (cbb_chain cbb))"
  by (auto simp: cbb_rel_def)

lemma cbb_rel_frame:
  assumes "cbb_rel cbb lv" "i < length (cbb_chain cbb)"
  shows "cbb_chain cbb ! i = frame_for (length (raw (take (Suc i) lv))) (fst (lv ! Suc i))"
    and "prefix_ok (fst (lv ! Suc i))"
proof -
  obtain c ps where h: "lv = (Len_prefix 0, c) # ps" "cbb_chain cbb = frames (length c) ps"
    "\<forall>(p, d) \<in> set ps. prefix_ok p"
    using assms(1) by (auto simp: cbb_rel_def)
  show "cbb_chain cbb ! i = frame_for (length (raw (take (Suc i) lv))) (fst (lv ! Suc i))"
    using assms(2) h by (simp add: frames_nth raw_Cons)
  show "prefix_ok (fst (lv ! Suc i))"
    using assms(2) h nth_mem [of i ps] by (cases "ps ! i") auto
qed

lemma cbb_rel_upto:
  assumes "cbb_rel cbb lv" "i \<le> length (cbb_chain cbb)" "base_ok base"
    and "cb_buf base = raw (take i lv) @ replicate (prefix_room (fst (lv ! i))) 0 @ c"
    and "chain = take i (cbb_chain cbb)"
  shows "cbb_rel \<lparr>cbb_base = base, cbb_chain = chain\<rparr> (take i lv @ [(fst (lv ! i), c)])"
proof -
  obtain c0 ps where h: "lv = (Len_prefix 0, c0) # ps" "cbb_chain cbb = frames (length c0) ps"
    "\<forall>(p, d) \<in> set ps. prefix_ok p"
    using assms(1) by (auto simp: cbb_rel_def)
  show ?thesis
  proof (cases i)
    case 0
    then show ?thesis using assms h by (simp add: cbb_rel_def raw_def)
  next
    case (Suc k)
    then have k: "k < length ps" using assms(2) h(2) by simp
    have "take (Suc k) (frames (length c0) ps) = frames (length c0) (take k ps @ [(fst (ps ! k), c)])"
      using k by (cases "ps ! k") (simp add: frames_take take_Suc_conv_app_nth frames_append)
    moreover have "\<forall>(p, d) \<in> set (take k ps @ [(fst (ps ! k), c)]). prefix_ok p"
      using h(3) k nth_mem [OF k] set_take_subset [of k ps] by fastforce
    ultimately show ?thesis
      using assms h Suc by (simp add: cbb_rel_def raw_append raw_Cons)
  qed
qed

lemma spec_flush_split:
  assumes "Suc i < length lv"
  shows "spec_flush lv i = take i lv @
     [(fst (lv ! i), snd (lv ! i) @ close_prefix (fst (lv ! Suc i)) (snd (spec_flush lv (Suc i) ! Suc i)))]"
proof -
  have "drop (Suc i) lv = (fst (lv ! Suc i), snd (lv ! Suc i)) # drop (Suc (Suc i)) lv"
    using assms by (simp add: Cons_nth_drop_Suc)
  then have "collapse (drop (Suc i) lv) =
      close_prefix (fst (lv ! Suc i)) (snd (lv ! Suc i) @ collapse (drop (Suc (Suc i)) lv))"
    by (simp only: collapse.simps)
  then show ?thesis using assms by (simp add: spec_flush_def nth_append)
qed

lemma CBB_flush_rel:
  assumes "cbb_rel cbb lv" "i \<le> length (cbb_chain cbb)" "CBB_flush cbb i = (True, cbb')"
  shows "cbb_rel cbb' (spec_flush lv i) \<and> same_heap (cbb_base cbb) (cbb_base cbb') \<and>
    length (cbb_chain cbb') = i"
  using assms
proof (induction cbb i arbitrary: cbb' rule: CBB_flush.induct)
  case (1 cbb i)
  note len = cbb_rel_levels [OF "1.prems"(1)]
  have noerr: "\<not> cb_error (cbb_base cbb)" using "1.prems"(1) by (simp add: cbb_rel_def base_ok_def)
  show ?case
  proof (cases "i = length (cbb_chain cbb)")
    case True
    then have "cbb' = cbb" using "1.prems"(3) noerr CBB_flush.simps [of cbb i] by auto
    moreover have "spec_flush lv i = lv"
      using True len by (simp add: spec_flush_def take_Suc_conv_app_nth [symmetric])
    ultimately show ?thesis using "1.prems"(1) True by simp
  next
    case False
    then have i: "i < length (cbb_chain cbb)" using "1.prems"(2) by simp
    note fr = cbb_rel_frame [OF "1.prems"(1) i]
    have room: "fr_pending_len_len (cbb_chain cbb ! i) \<noteq> 0"
      using fr by (cases "fst (lv ! Suc i)") auto
    obtain cbb1 base where c1: "CBB_flush cbb (i + 1) = (True, cbb1)"
      and wp: "write_prefix (cbb_base cbb1) (cbb_chain cbb ! i) = (True, base)"
      and c': "cbb' = cbb1\<lparr>cbb_base := base, cbb_chain := take i (cbb_chain cbb1)\<rparr>"
      using "1.prems"(3) i room noerr
      by (subst (asm) CBB_flush.simps) (auto simp: Let_def split: prod.splits bool.splits)
    have IH: "cbb_rel cbb1 (spec_flush lv (Suc i))" "same_heap (cbb_base cbb) (cbb_base cbb1)"
      "length (cbb_chain cbb1) = Suc i"
      using "1.IH" [OF _ _ refl "1.prems"(1) _ c1] i room noerr by simp_all
    let ?p = "fst (lv ! Suc i)"
    define cc where "cc = snd (spec_flush lv (Suc i) ! Suc i)"
    have lv1: "spec_flush lv (Suc i) = take (Suc i) lv @ [(?p, cc)]"
      using i len by (simp add: cc_def spec_flush_def nth_append)
    have buf: "cb_buf (cbb_base cbb1) = raw (take (Suc i) lv) @ replicate (prefix_room ?p) 0 @ cc"
    proof -
      have "cb_buf (cbb_base cbb1) = raw (spec_flush lv (Suc i))"
        using IH(1) by (simp add: cbb_rel_def)
      also have "\<dots> = raw (take (Suc i) lv) @ replicate (prefix_room ?p) 0 @ cc"
        by (subst lv1) (simp only: raw_append raw_Cons raw_Nil append_Nil2)
      finally show ?thesis .
    qed
    have ok1: "base_ok (cbb_base cbb1)" using IH(1) by (simp add: cbb_rel_def)
    have w: "base_ok base" "same_heap (cbb_base cbb1) base"
      "cb_buf base = raw (take (Suc i) lv) @ close_prefix ?p cc"
      using write_prefix_cases [OF ok1 buf fr(2), of True base] wp fr(1) by simp_all
    have "take (Suc i) lv = take i lv @ [lv ! i]" using i len by (simp add: take_Suc_conv_app_nth)
    then have "raw (take (Suc i) lv) = raw (take i lv) @ replicate (prefix_room (fst (lv ! i))) 0 @ snd (lv ! i)"
      by (simp only: raw_append) (simp add: raw_def split: prod.split)
    then have "cb_buf base = raw (take i lv) @ replicate (prefix_room (fst (lv ! i))) 0 @
        (snd (lv ! i) @ close_prefix ?p cc)"
      using w(3) by simp
    moreover have "take i (spec_flush lv (Suc i)) = take i lv" "spec_flush lv (Suc i) ! i = lv ! i"
      using i len by (simp_all add: lv1 nth_append)
    ultimately have "cbb_rel \<lparr>cbb_base = base, cbb_chain = take i (cbb_chain cbb1)\<rparr> (spec_flush lv i)"
      using cbb_rel_upto [OF IH(1) _ w(1), of i "snd (lv ! i) @ close_prefix ?p cc"] IH(3)
        spec_flush_split [of i lv] i len by (simp add: cc_def)
    then show ?thesis
      using c' IH(2,3) w(2) same_heap_trans by (cases cbb1) auto
  qed
qed


lemma flush_then_rel:
  assumes rel: "cbb_rel cbb lv" "i \<le> length (cbb_chain cbb)" and f: "flush_then cbb i f = (True, cbb')"
    and step: "\<And>b b'. base_ok b \<Longrightarrow> f b = (True, b') \<Longrightarrow>
       base_ok b' \<and> same_heap b b' \<and> cb_buf b' = cb_buf b @ bs"
  shows "cbb_rel cbb' (spec_append lv i bs) \<and> same_heap (cbb_base cbb) (cbb_base cbb') \<and>
    length (cbb_chain cbb') = i"
proof -
  obtain cbb1 b where c: "CBB_flush cbb i = (True, cbb1)" "f (cbb_base cbb1) = (True, b)"
    "cbb' = cbb1\<lparr>cbb_base := b\<rparr>"
    using f by (auto simp: flush_then_def split: prod.splits bool.splits)
  note r = CBB_flush_rel [OF rel c(1)]
  have lv1: "spec_flush lv i = take i lv @ [(fst (lv ! i), snd (lv ! i) @ collapse (drop (Suc i) lv))]"
    by (simp add: spec_flush_def)
  have b: "base_ok b" "same_heap (cbb_base cbb1) b" "cb_buf b = cb_buf (cbb_base cbb1) @ bs"
    using step [OF _ c(2)] r by (simp_all add: cbb_rel_def)
  have i: "i < length lv" using cbb_rel_levels [OF rel(1)] rel(2) by simp
  have "cb_buf (cbb_base cbb1) = raw (spec_flush lv i)" using r by (simp add: cbb_rel_def)
  then have "cb_buf b = raw (take i (spec_flush lv i)) @ replicate (prefix_room (fst (spec_flush lv i ! i))) 0 @
      (snd (lv ! i) @ collapse (drop (Suc i) lv) @ bs)"
    using b(3) i by (simp add: lv1 raw_append raw_Cons nth_append)
  from cbb_rel_upto [OF _ _ b(1) this, of cbb1 "cbb_chain cbb1"] r i
  have "cbb_rel \<lparr>cbb_base = b, cbb_chain = cbb_chain cbb1\<rparr> (spec_append lv i bs)"
    by (simp add: lv1 spec_append_def nth_append)
  then show ?thesis using c(3) r b(2) same_heap_trans by (cases cbb1) auto
qed

lemma CBB_add_bytes_rel:
  assumes "cbb_rel cbb lv" "i \<le> length (cbb_chain cbb)" "CBB_add_bytes cbb i data = (True, cbb')"
    and "length data < size_mod"
  shows "cbb_rel cbb' (spec_append lv i data) \<and> same_heap (cbb_base cbb) (cbb_base cbb') \<and>
    length (cbb_chain cbb') = i"
proof (rule flush_then_rel [OF assms(1,2) assms(3) [unfolded CBB_add_bytes_def]])
  fix b b'
  assume b: "base_ok b" "(case cbb_buffer_add b (length data) of (False, b1) \<Rightarrow> (False, b1)
      | (True, b1) \<Rightarrow> (True, b1\<lparr>cb_buf := take (length (cb_buf b)) (cb_buf b1) @ data\<rparr>)) = (True, b')"
  then obtain b1 where b1: "cbb_buffer_add b (length data) = (True, b1)"
    "b' = b1\<lparr>cb_buf := take (length (cb_buf b)) (cb_buf b1) @ data\<rparr>"
    by (auto split: prod.splits bool.splits)
  then show "base_ok b' \<and> same_heap b b' \<and> cb_buf b' = cb_buf b @ data"
    using buffer_add_cases [OF b(1) assms(4) b1(1)] by (auto simp: base_ok_def same_heap_def)
qed

lemma flush_then_u_rel:
  assumes "cbb_rel cbb lv" "i \<le> length (cbb_chain cbb)" "0 < n" "n \<le> 8"
    and "flush_then cbb i (\<lambda>base. cbb_buffer_add_u base v n) = (True, cbb')"
  shows "cbb_rel cbb' (spec_append lv i (be_bytes n v)) \<and> same_heap (cbb_base cbb) (cbb_base cbb') \<and>
    length (cbb_chain cbb') = i"
  by (rule flush_then_rel [OF assms(1,2,5)], drule buffer_add_u_cases) (use assms in auto)

section \<open>When operations succeed\<close>

definition can_grow :: "cbb_buffer \<Rightarrow> bool" where
  "can_grow b \<longleftrightarrow> cb_can_resize b \<and> (\<forall>n. cb_alloc b n)"

fun collapse_fits :: "spec \<Rightarrow> bool" where
  "collapse_fits [] \<longleftrightarrow> True"
| "collapse_fits ((p, c) # ps) \<longleftrightarrow> collapse_fits ps \<and> prefix_fits p (length (c @ collapse ps))"

text \<open>
  Memory can be had, the pending lengths above level \<open>i\<close> fit their prefixes, and with \<open>n\<close> more
  bytes and the longest lengths the buffer still has a size of type \<open>size_t\<close>.
\<close>

definition growable :: "cbb \<Rightarrow> spec \<Rightarrow> nat \<Rightarrow> nat \<Rightarrow> bool" where
  "growable cbb lv i n \<longleftrightarrow> can_grow (cbb_base cbb) \<and> collapse_fits (drop (Suc i) lv) \<and>
     length (raw lv) + 4 * length (drop (Suc i) lv) + n < size_mod"

lemma can_grow_same: "same_heap b b' \<Longrightarrow> can_grow b \<Longrightarrow> can_grow b'"
  by (simp add: same_heap_def can_grow_def)

lemma can_grow_room: "can_grow b \<Longrightarrow> length (cb_buf b) + n < size_mod \<Longrightarrow> has_room b n"
  by (simp add: can_grow_def has_room_def)

lemma length_close_prefix: "length (close_prefix p c) \<le> prefix_room p + length c + 4"
  using length_der_len(2) [of "length c"] by (cases p) auto

lemma length_collapse: "length (collapse ps) \<le> length (raw ps) + 4 * length ps"
proof (induction ps)
  case (Cons q ps)
  then show ?case
    using length_close_prefix [of "fst q" "snd q @ collapse ps"] by (cases q) (simp add: raw_Cons)
qed simp

lemma raw_split:
  assumes "i < length lv"
  shows "length (raw lv) = length (raw (take i lv)) + prefix_room (fst (lv ! i)) + length (snd (lv ! i)) +
    length (raw (drop (Suc i) lv))"
proof -
  have "lv = take i lv @ (fst (lv ! i), snd (lv ! i)) # drop (Suc i) lv"
    using assms by (simp add: id_take_nth_drop)
  then show ?thesis by (metis (no_types, lifting) add.assoc length_append length_replicate raw_Cons raw_append)
qed

lemma length_raw_append:
  assumes "i < length lv"
  shows "length (raw (spec_append lv i bs)) \<le> length (raw lv) + 4 * length (drop (Suc i) lv) + length bs"
  using raw_split [OF assms] length_collapse [of "drop (Suc i) lv"]
  by (simp add: spec_append_def raw_append raw_Cons)

lemma spec_append_flush: "spec_append lv i [] = spec_flush lv i"
  by (simp add: spec_append_def spec_flush_def)

lemma spec_append_append:
  "i < length lv \<Longrightarrow> spec_append (spec_append lv i b1) i b2 = spec_append lv i (b1 @ b2)"
  by (simp add: spec_append_def nth_append)

lemma length_spec_append [simp]: "i < length lv \<Longrightarrow> length (spec_append lv i bs) = Suc i"
  by (simp add: spec_append_def)

lemma CBB_flush_succeeds:
  assumes "cbb_rel cbb lv" "i \<le> length (cbb_chain cbb)" "growable cbb lv i 0"
  shows "fst (CBB_flush cbb i)"
  using assms
proof (induction "length (cbb_chain cbb) - i" arbitrary: i)
  case 0
  then have "i = length (cbb_chain cbb)" "\<not> cb_error (cbb_base cbb)" by (auto simp: cbb_rel_def base_ok_def)
  then show ?case by (subst CBB_flush.simps) simp
next
  case (Suc n)
  note len = cbb_rel_levels [OF Suc.prems(1)]
  have noerr: "\<not> cb_error (cbb_base cbb)" using Suc.prems(1) by (simp add: cbb_rel_def base_ok_def)
  have i: "i < length (cbb_chain cbb)" using Suc.hyps(2) by simp
  note fr = cbb_rel_frame [OF Suc.prems(1) i]
  have room: "fr_pending_len_len (cbb_chain cbb ! i) \<noteq> 0"
    using fr by (cases "fst (lv ! Suc i)") auto
  let ?p = "fst (lv ! Suc i)"
  have dr: "drop (Suc i) lv = (?p, snd (lv ! Suc i)) # drop (Suc (Suc i)) lv"
    using i len by (simp add: Cons_nth_drop_Suc)
  have g: "growable cbb lv (Suc i) 4" and pf: "prefix_fits ?p (length (snd (lv ! Suc i) @ collapse (drop (Suc (Suc i)) lv)))"
    using Suc.prems(3) dr by (cases "lv ! Suc i"; simp add: growable_def)+
  have "fst (CBB_flush cbb (Suc i))"
    using Suc.hyps Suc.prems i g by (simp add: growable_def)
  then obtain cbb1 where c1: "CBB_flush cbb (Suc i) = (True, cbb1)" by (cases "CBB_flush cbb (Suc i)") auto
  have r1: "cbb_rel cbb1 (spec_flush lv (Suc i))" "same_heap (cbb_base cbb) (cbb_base cbb1)"
    using CBB_flush_rel [OF Suc.prems(1) _ c1] i by simp_all
  define cc where "cc = snd (lv ! Suc i) @ collapse (drop (Suc (Suc i)) lv)"
  have lv1: "spec_flush lv (Suc i) = take (Suc i) lv @ [(?p, cc)]"
    by (simp add: cc_def spec_flush_def)
  have buf: "cb_buf (cbb_base cbb1) = raw (take (Suc i) lv) @ replicate (prefix_room ?p) 0 @ cc"
    using r1(1) unfolding lv1 by (simp add: cbb_rel_def raw_append raw_Cons)
  have ok1: "base_ok (cbb_base cbb1)" using r1(1) by (simp add: cbb_rel_def)
  have "length (raw (spec_flush lv (Suc i))) \<le> length (raw lv) + 4 * length (drop (Suc (Suc i)) lv)"
    using length_raw_append [of "Suc i" lv "[]"] i len by (simp add: spec_append_flush)
  then have "has_room (cbb_base cbb1) 4"
    using g can_grow_same [OF r1(2)] r1(1) by (intro can_grow_room) (simp_all add: growable_def cbb_rel_def)
  then have "fst (write_prefix (cbb_base cbb1) (cbb_chain cbb ! i))"
    using write_prefix_cases [OF ok1 buf fr(2), of "fst _" "snd _"] pf
    unfolding fr(1) cc_def by (metis (mono_tags, lifting) prod.collapse)
  then show ?case
    using c1 i room noerr by (subst CBB_flush.simps) (auto simp: Let_def split: prod.splits bool.splits)
qed

section \<open>Appending operations\<close>

text \<open>
  \<open>appends f i bs\<close>: whenever \<open>f\<close> succeeds, the abstract builder has written out the children of
  level \<open>i\<close> and appended \<open>bs\<close> to it; and when memory can be had, \<open>f\<close> succeeds.
\<close>

definition appends :: "(cbb \<Rightarrow> bool \<times> cbb) \<Rightarrow> nat \<Rightarrow> byte list \<Rightarrow> bool" where
  "appends f i bs \<longleftrightarrow> (\<forall>cbb lv. cbb_rel cbb lv \<longrightarrow> i \<le> length (cbb_chain cbb) \<longrightarrow>
     (\<forall>cbb'. f cbb = (True, cbb') \<longrightarrow> cbb_rel cbb' (spec_append lv i bs) \<and>
        same_heap (cbb_base cbb) (cbb_base cbb') \<and> length (cbb_chain cbb') = i) \<and>
     (growable cbb lv i (length bs + 5) \<longrightarrow> fst (f cbb)))"

definition then_do :: "(cbb \<Rightarrow> bool \<times> cbb) \<Rightarrow> (cbb \<Rightarrow> bool \<times> cbb) \<Rightarrow> cbb \<Rightarrow> bool \<times> cbb" where
  "then_do f g cbb = (case f cbb of (False, cbb') \<Rightarrow> (False, cbb') | (True, cbb') \<Rightarrow> g cbb')"

lemma appendsD:
  assumes "appends f i bs" "cbb_rel cbb lv" "i \<le> length (cbb_chain cbb)" "f cbb = (True, cbb')"
  shows "cbb_rel cbb' (spec_append lv i bs)" "same_heap (cbb_base cbb) (cbb_base cbb')"
    "length (cbb_chain cbb') = i"
  using assms by (auto simp: appends_def)

lemma appends_succeeds:
  assumes "appends f i bs" "cbb_rel cbb lv" "i \<le> length (cbb_chain cbb)" "growable cbb lv i (length bs + 5)"
  obtains cbb' where "f cbb = (True, cbb')"
proof -
  have "fst (f cbb)" using assms unfolding appends_def by blast
  then have "f cbb = (True, snd (f cbb))" by (cases "f cbb") auto
  then show thesis by (rule that)
qed

lemma growable_append:
  assumes "growable cbb lv i (length bs + n)" "i < length lv" "same_heap (cbb_base cbb) (cbb_base cbb')"
  shows "growable cbb' (spec_append lv i bs) i n"
  using assms length_raw_append [OF assms(2), of bs] can_grow_same
  by (auto simp: growable_def)

lemma then_do_True: "then_do f g cbb = (True, cbb') \<longleftrightarrow> (\<exists>cbb1. f cbb = (True, cbb1) \<and> g cbb1 = (True, cbb'))"
  by (auto simp: then_do_def split: prod.splits bool.splits)

lemma appends_seq:
  assumes f: "appends f i b1" and g: "appends g i b2"
  shows "appends (then_do f g) i (b1 @ b2)"
  unfolding appends_def
proof (intro allI impI conjI)
  fix cbb lv
  assume r: "cbb_rel cbb lv" "i \<le> length (cbb_chain cbb)"
  have i: "i < length lv" using cbb_rel_levels [OF r(1)] r(2) by simp
  {
    fix cbb'
    assume "then_do f g cbb = (True, cbb')"
    then obtain cbb1 where c: "f cbb = (True, cbb1)" "g cbb1 = (True, cbb')" by (auto simp: then_do_True)
    note 1 = appendsD [OF f r c(1)]
    have le: "i \<le> length (cbb_chain cbb1)" using 1(3) by simp
    note 2 = appendsD [OF g 1(1) le c(2)]
    show "cbb_rel cbb' (spec_append lv i (b1 @ b2))" "same_heap (cbb_base cbb) (cbb_base cbb')"
      "length (cbb_chain cbb') = i"
      using 2 spec_append_append [OF i, of b1 b2] same_heap_trans [OF 1(2) 2(2)] by simp_all
  next
    assume g5: "growable cbb lv i (length (b1 @ b2) + 5)"
    then have "growable cbb lv i (length b1 + 5)" by (simp add: growable_def)
    from appends_succeeds [OF f r this] obtain cbb1 where c: "f cbb = (True, cbb1)" .
    note 1 = appendsD [OF f r c]
    have "growable cbb1 (spec_append lv i b1) i (length b2 + 5)"
      using growable_append [of cbb lv i b1 "length b2 + 5"] g5 i 1(2) by (simp add: add.assoc)
    moreover have "i \<le> length (cbb_chain cbb1)" using 1(3) by simp
    ultimately obtain cbb2 where "g cbb1 = (True, cbb2)" using appends_succeeds [OF g 1(1)] by metis
    then show "fst (then_do f g cbb)" using c by (simp add: then_do_def)
  }
qed

lemma appends_flush: "appends (\<lambda>s. CBB_flush s i) i []"
  unfolding appends_def
  using CBB_flush_rel CBB_flush_succeeds by (auto simp: spec_append_flush growable_def)

lemma appends_flush_then:
  assumes step: "\<And>b b'. base_ok b \<Longrightarrow> f b = (True, b') \<Longrightarrow>
       base_ok b' \<and> same_heap b b' \<and> cb_buf b' = cb_buf b @ bs"
    and succ: "\<And>b. base_ok b \<Longrightarrow> has_room b (length bs) \<Longrightarrow> fst (f b)"
  shows "appends (\<lambda>s. flush_then s i f) i bs"
  unfolding appends_def
proof (intro allI impI conjI)
  fix cbb lv
  assume r: "cbb_rel cbb lv" "i \<le> length (cbb_chain cbb)"
  have i: "i < length lv" using cbb_rel_levels [OF r(1)] r(2) by simp
  {
    fix cbb'
    assume "flush_then cbb i f = (True, cbb')"
    from flush_then_rel [OF r this step]
    show "cbb_rel cbb' (spec_append lv i bs)" "same_heap (cbb_base cbb) (cbb_base cbb')"
      "length (cbb_chain cbb') = i" by blast+
  next
    assume g: "growable cbb lv i (length bs + 5)"
    then have "growable cbb lv i 0" by (simp add: growable_def)
    then have "fst (CBB_flush cbb i)" by (rule CBB_flush_succeeds [OF r])
    then obtain cbb1 where c: "CBB_flush cbb i = (True, cbb1)" by (cases "CBB_flush cbb i") auto
    note 1 = CBB_flush_rel [OF r c]
    then have "growable cbb1 (spec_append lv i []) i (length bs + 5)"
      using growable_append [of cbb lv i "[]" "length bs + 5"] g i by simp
    then have "has_room (cbb_base cbb1) (length bs)"
      using 1 by (intro can_grow_room) (simp_all add: growable_def spec_append_flush cbb_rel_def)
    moreover have "base_ok (cbb_base cbb1)" using 1 by (simp add: cbb_rel_def)
    ultimately have "fst (f (cbb_base cbb1))" by (intro succ)
    then show "fst (flush_then cbb i f)"
      using c by (cases "f (cbb_base cbb1)") (simp add: flush_then_def)
  }
qed

lemma has_room_less: "base_ok b \<Longrightarrow> has_room b n \<Longrightarrow> n < size_mod"
  by (auto simp: has_room_def base_ok_def)

lemma appends_u:
  assumes "0 < n" "n \<le> 8" "drop_bit (8 * n) v = 0"
  shows "appends (\<lambda>s. flush_then s i (\<lambda>b. cbb_buffer_add_u b v n)) i (be_bytes n v)"
proof (rule appends_flush_then)
  have n: "n < size_mod" using assms(2) by simp
  fix b b'
  show "base_ok b \<Longrightarrow> cbb_buffer_add_u b v n = (True, b') \<Longrightarrow>
      base_ok b' \<and> same_heap b b' \<and> cb_buf b' = cb_buf b @ be_bytes n v"
    using buffer_add_u_cases [OF _ assms(1) n, of b v True b'] by simp
  show "base_ok b \<Longrightarrow> has_room b (length (be_bytes n v)) \<Longrightarrow> fst (cbb_buffer_add_u b v n)"
    using buffer_add_u_cases [OF _ assms(1) n, of b v "fst (cbb_buffer_add_u b v n)"
        "snd (cbb_buffer_add_u b v n)"] assms(3) by (simp split: if_splits)
qed

lemma appends_u8: "appends (\<lambda>s. CBB_add_u8 s i v) i [v]"
proof -
  have "drop_bit 8 (ucast v :: u64) = 0"
    by (rule bit_word_eqI) (auto simp: bit_simps dest: bit_imp_le_length)
  moreover have "be_bytes 1 (ucast v :: u64) = [v]"
    by (simp add: be_bytes_def, rule bit_word_eqI, auto simp: bit_simps)
  ultimately show ?thesis
    using appends_u [of 1 "ucast v" i] by (simp add: CBB_add_u8_def)
qed

lemma appends_bytes: "length data < size_mod \<Longrightarrow> appends (\<lambda>s. CBB_add_bytes s i data) i data"
  unfolding CBB_add_bytes_def
proof (rule appends_flush_then)
  assume d: "length data < size_mod"
  fix b b'
  assume b: "base_ok b"
  let ?f = "case cbb_buffer_add b (length data) of (False, b1) \<Rightarrow> (False, b1)
      | (True, b1) \<Rightarrow> (True, b1\<lparr>cb_buf := take (length (cb_buf b)) (cb_buf b1) @ data\<rparr>)"
  obtain o1 b1 where a: "cbb_buffer_add b (length data) = (o1, b1)" by force
  note c = buffer_add_cases [OF b d a]
  show "base_ok b' \<and> same_heap b b' \<and> cb_buf b' = cb_buf b @ data" if "?f = (True, b')"
  proof (cases o1)
    case True
    then have "b' = b1\<lparr>cb_buf := take (length (cb_buf b)) (cb_buf b1) @ data\<rparr>" using that a by simp
    moreover have "length (cb_buf b) + length data \<le> cb_cap b1"
      using c True unfolding base_ok_def by (metis (no_types, lifting) length_append length_replicate)
    ultimately show ?thesis using c True by (simp add: base_ok_def same_heap_def)
  qed (use that a in simp)
  show "fst ?f" if "has_room b (length data)"
    using c a that by (cases o1) simp_all
qed


section \<open>Tags and children\<close>

lemma base128_len_hi: "base128_len v = length (b128_hi v)"
  by (induction v rule: b128_hi.induct) (simp add: base128_len.simps b128_hi.simps)

definition b128_byte :: "u64 \<Rightarrow> nat \<Rightarrow> byte" where
  "b128_byte v k = (let byte = ucast (drop_bit (7 * k) v AND 0x7f) :: byte
     in if k \<noteq> 0 then byte OR 0x80 else byte)"

text \<open>The bytes \<open>add_base128_loop\<close> writes for \<open>k\<close> groups, and those of the leading groups.\<close>

fun b128_loop :: "u64 \<Rightarrow> nat \<Rightarrow> byte list" where
  "b128_loop v 0 = []"
| "b128_loop v (Suc k) = b128_byte v k # b128_loop v k"

fun b128_hi_loop :: "u64 \<Rightarrow> nat \<Rightarrow> byte list" where
  "b128_hi_loop v 0 = []"
| "b128_hi_loop v (Suc k) = (0x80 OR ucast (take_bit 7 (drop_bit (7 * k) v))) # b128_hi_loop v k"

lemma b128_hi_loop_snoc:
  "b128_hi_loop v (Suc n) = b128_hi_loop (drop_bit 7 v) n @ [0x80 OR ucast (take_bit 7 v)]"
proof (induction n)
  case (Suc n)
  have "drop_bit (7 * Suc n) v = drop_bit (7 * n) (drop_bit 7 v)"
    by (simp add: drop_bit_drop_bit add.commute del: drop_bit_Suc)
  then show ?case using Suc by (subst b128_hi_loop.simps(2)) (simp del: drop_bit_Suc mult_Suc_right)
qed simp

lemma b128_loop_snoc:
  "b128_loop v (Suc n) = b128_hi_loop (drop_bit 7 v) n @ [ucast (take_bit 7 v)]"
proof (induction n)
  case 0
  show ?case by (simp add: b128_byte_def and_mask_7F)
next
  case (Suc n)
  have "drop_bit (7 * Suc n) v = drop_bit (7 * n) (drop_bit 7 v)"
    by (simp add: drop_bit_drop_bit add.commute del: drop_bit_Suc)
  then have "b128_byte v (Suc n) = 0x80 OR ucast (take_bit 7 (drop_bit (7 * n) (drop_bit 7 v)))"
    by (simp add: b128_byte_def and_mask_7F or.commute del: drop_bit_Suc mult_Suc_right)
  then show ?case using Suc by (subst b128_loop.simps(2)) simp
qed

lemma b128_hi_eq_loop: "b128_hi v = b128_hi_loop v (length (b128_hi v))"
proof (induction v rule: b128_hi.induct)
  case (1 v)
  show ?case
  proof (cases "v = 0")
    case False
    then show ?thesis
      using "1.IH" [OF False] b128_hi_loop_snoc [of v "length (b128_hi (drop_bit 7 v))"]
      by (simp add: b128_hi.simps [of v])
  qed (simp add: b128_hi.simps [of 0])
qed

lemma b128_eq_loop: "b128 v = b128_loop v (if base128_len v = 0 then 1 else base128_len v)"
proof (cases "v = 0")
  case False
  then show ?thesis
    using b128_loop_snoc [of v "length (b128_hi (drop_bit 7 v))"] b128_hi_eq_loop [of "drop_bit 7 v"]
    by (simp add: b128_def base128_len_hi b128_hi.simps [of v])
next
  case True
  then show ?thesis by (simp add: b128_def base128_len.simps [of 0] b128_hi.simps [of 0] b128_byte_def)
qed

lemma appends_base128_loop: "appends (\<lambda>s. add_base128_loop s i v (Suc k)) i (b128_loop v (Suc k))"
proof (induction k)
  case 0
  have "(\<lambda>s. add_base128_loop s i v (Suc 0)) = (\<lambda>s. CBB_add_u8 s i (b128_byte v 0))"
    by (auto simp: fun_eq_iff b128_byte_def split: prod.splits bool.splits)
  then show ?case using appends_u8 [of i "b128_byte v 0"] by simp
next
  case (Suc k)
  have "(\<lambda>s. add_base128_loop s i v (Suc (Suc k))) =
      then_do (\<lambda>s. CBB_add_u8 s i (b128_byte v (Suc k))) (\<lambda>s. add_base128_loop s i v (Suc k))"
    by (subst add_base128_loop.simps(2)) (simp only: fun_eq_iff then_do_def b128_byte_def Let_def simp_thms)
  then show ?case using appends_seq [OF appends_u8 Suc.IH, of "b128_byte v (Suc k)"]
    by (subst b128_loop.simps(2)) simp
qed

lemma appends_base128: "appends (\<lambda>s. add_base128_integer s i v) i (b128 v)"
proof -
  obtain k where "(if base128_len v = 0 then 1 else base128_len v) = Suc k"
    by (cases "base128_len v") auto
  then show ?thesis
    using appends_base128_loop [of i v k] unfolding add_base128_integer_def Let_def b128_eq_loop by simp
qed

text \<open>
  \<open>opens f i t p\<close>: \<open>f\<close> appends \<open>t\<close> to level \<open>i\<close> and opens a child with prefix \<open>p\<close> above it.
\<close>

definition opens :: "(cbb \<Rightarrow> bool \<times> cbb) \<Rightarrow> nat \<Rightarrow> byte list \<Rightarrow> prefix \<Rightarrow> bool" where
  "opens f i t p \<longleftrightarrow> (\<forall>cbb lv. cbb_rel cbb lv \<longrightarrow> i \<le> length (cbb_chain cbb) \<longrightarrow>
     (\<forall>cbb'. f cbb = (True, cbb') \<longrightarrow> cbb_rel cbb' (spec_append lv i t @ [(p, [])]) \<and>
        same_heap (cbb_base cbb) (cbb_base cbb') \<and> length (cbb_chain cbb') = Suc i) \<and>
     (growable cbb lv i (length t + prefix_room p + 5) \<longrightarrow> fst (f cbb)))"

text \<open>Opening a child: the placeholder of the prefix is appended and the frame is pushed.\<close>

lemma push_frame:
  assumes r: "cbb_rel cbb (spec_append lv i (t @ replicate (prefix_room p) 0))" "length (cbb_chain cbb) = i"
    and i: "i < length lv" and p: "prefix_ok p"
    and fr: "fr = frame_for (length (cb_buf (cbb_base cbb)) - prefix_room p) p"
  shows "cbb_rel (cbb\<lparr>cbb_chain := cbb_chain cbb @ [fr]\<rparr>) (spec_append lv i t @ [(p, [])])"
proof -
  let ?pre = "take i lv" and ?q = "fst (lv ! i)" and ?d = "snd (lv ! i) @ collapse (drop (Suc i) lv)"
  have sp: "spec_append lv i (t @ replicate (prefix_room p) 0) = ?pre @ [(?q, ?d @ t @ replicate (prefix_room p) 0)]"
    "spec_append lv i t = ?pre @ [(?q, ?d @ t)]"
    by (simp_all add: spec_append_def)
  have base: "base_ok (cbb_base cbb)" "cb_buf (cbb_base cbb) = raw (?pre @ [(?q, ?d @ t)]) @ replicate (prefix_room p) 0"
    using r(1) unfolding sp by (simp_all add: cbb_rel_def raw_append raw_Cons)
  have fr': "fr = frame_for (length (raw (?pre @ [(?q, ?d @ t)]))) p"
    using base(2) fr by simp
  obtain c ps where h: "?pre @ [(?q, ?d @ t @ replicate (prefix_room p) 0)] = (Len_prefix 0, c) # ps"
    "cbb_chain cbb = frames (length c) ps" "\<forall>(p, d) \<in> set ps. prefix_ok p"
    using r(1) unfolding sp by (auto simp: cbb_rel_def)
  show ?thesis
  proof (cases i)
    case 0
    then show ?thesis using h base p fr' sp(2) by (simp add: cbb_rel_def raw_append raw_Cons)
  next
    case (Suc k)
    then obtain c' ps' where lv: "?pre = (Len_prefix 0, c') # ps'" "c' = c" "ps = ps' @ [(?q, ?d @ t @ replicate (prefix_room p) 0)]"
      using h(1) i by (cases ?pre) auto
    then show ?thesis
      using h(2,3) base p fr' sp(2) by (simp add: cbb_rel_def frames_append raw_append raw_Cons)
  qed
qed


lemma frame_for_eq:
  "\<lparr>fr_offset = off, fr_pending_len_len = prefix_room p, fr_pending_is_asn1 = (p = Der_prefix)\<rparr> = frame_for off p"
  by (simp add: frame_for_def)

lemma raw_append_top: "length lv = Suc i \<Longrightarrow> raw (spec_append lv i bs) = raw lv @ bs"
proof -
  assume "length lv = Suc i"
  then have "lv = take i lv @ [lv ! i]" by (metis lessI take_Suc_conv_app_nth take_all_iff order_refl)
  then have "raw lv = raw (take i lv) @ raw [lv ! i]" by (metis raw_append)
  then show ?thesis using \<open>length lv = Suc i\<close>
    by (cases "lv ! i") (simp add: spec_append_def raw_append raw_Cons)
qed

lemma cbb_rel_buf: "cbb_rel cbb lv \<Longrightarrow> cb_buf (cbb_base cbb) = raw lv"
  by (simp add: cbb_rel_def)

text \<open>
  Opening is: append \<open>t\<close>, note the offset, append the placeholder and push the frame.
\<close>

definition open_child :: "(cbb \<Rightarrow> bool \<times> cbb) \<Rightarrow> (cbb \<Rightarrow> bool \<times> cbb) \<Rightarrow> nat \<Rightarrow> prefix \<Rightarrow> cbb \<Rightarrow> bool \<times> cbb" where
  "open_child f h i p cbb =
     (case f cbb of
        (False, c) \<Rightarrow> (False, c)
      | (True, c) \<Rightarrow>
          (case h c of
             (False, d) \<Rightarrow> (False, d)
           | (True, d) \<Rightarrow>
               (True, d\<lparr>cbb_chain := take i (cbb_chain d) @ [frame_for (length (cb_buf (cbb_base c))) p]\<rparr>)))"

lemma opens_child:
  assumes f: "appends f i t" and h: "appends h i (replicate (prefix_room p) 0)" and p: "prefix_ok p"
  shows "opens (open_child f h i p) i t p"
  unfolding opens_def
proof (intro allI impI conjI)
  fix cbb lv
  assume r: "cbb_rel cbb lv" "i \<le> length (cbb_chain cbb)"
  have i: "i < length lv" using cbb_rel_levels [OF r(1)] r(2) by simp
  {
    fix cbb'
    assume "open_child f h i p cbb = (True, cbb')"
    then obtain c d where c: "f cbb = (True, c)" "h c = (True, d)"
      "cbb' = d\<lparr>cbb_chain := take i (cbb_chain d) @ [frame_for (length (cb_buf (cbb_base c))) p]\<rparr>"
      by (auto simp: open_child_def split: prod.splits bool.splits)
    note 1 = appendsD [OF f r c(1)]
    have le: "i \<le> length (cbb_chain c)" using 1(3) by simp
    note 2 = appendsD [OF h 1(1) le c(2)]
    have "length (spec_append lv i t) = Suc i" using i by simp
    then have "cb_buf (cbb_base d) = cb_buf (cbb_base c) @ replicate (prefix_room p) 0"
      using cbb_rel_buf [OF 1(1)] cbb_rel_buf [OF 2(1)] by (simp add: raw_append_top)
    then have "frame_for (length (cb_buf (cbb_base c))) p = frame_for (length (cb_buf (cbb_base d)) - prefix_room p) p"
      by simp
    note rel = push_frame [OF 2(1) [unfolded spec_append_append [OF i]] 2(3) i p this]
    show "cbb_rel cbb' (spec_append lv i t @ [(p, [])])" "same_heap (cbb_base cbb) (cbb_base cbb')"
      "length (cbb_chain cbb') = Suc i"
      using rel c(3) 2(3) same_heap_trans [OF 1(2) 2(2)] by simp_all
  next
    assume "growable cbb lv i (length t + prefix_room p + 5)"
    then have "growable cbb lv i (length (t @ replicate (prefix_room p) 0) + 5)" by simp
    from appends_succeeds [OF appends_seq [OF f h] r this] obtain d where "then_do f h cbb = (True, d)" .
    then show "fst (open_child f h i p cbb)" by (auto simp: then_do_True open_child_def)
  }
qed

definition asn1_header :: "nat \<Rightarrow> u32 \<Rightarrow> cbb \<Rightarrow> bool \<times> cbb" where
  "asn1_header i tag = (let tag_bits = ucast (drop_bit CBS_ASN1_TAG_SHIFT tag) AND 0xe0 :: byte;
               tag_number = tag AND CBS_ASN1_TAG_NUMBER_MASK
           in if tag_number \<ge> 0x1f
              then then_do (\<lambda>s. CBB_add_u8 s i (tag_bits OR 0x1f)) (\<lambda>s. add_base128_integer s i (ucast tag_number))
              else (\<lambda>s. CBB_add_u8 s i (tag_bits OR ucast tag_number)))"

lemma CBB_add_asn1_eq:
  "CBB_add_asn1 s i tag =
     open_child (then_do (\<lambda>s. CBB_flush s i) (asn1_header i tag)) (\<lambda>s. CBB_add_u8 s i 0) i Der_prefix s"
  by (simp add: open_child_def then_do_def CBB_add_asn1_def asn1_header_def Let_def frame_for_def
    split: prod.split bool.split)

lemma opens_asn1: "opens (\<lambda>s. CBB_add_asn1 s i tag) i (der_tag tag) Der_prefix"
proof -
  have num: "tag AND CBS_ASN1_TAG_NUMBER_MASK = take_bit 29 tag"
    by (simp add: CBS_ASN1_TAG_NUMBER_MASK_def CBS_ASN1_TAG_SHIFT_def take_bit_eq_mask mask_eq_exp_minus_1 push_bit_eq_mult)
  have "appends (asn1_header i tag) i (der_tag tag)"
    using appends_u8 [of i] appends_seq [OF appends_u8 appends_base128, of i]
    by (auto simp: asn1_header_def Let_def num der_tag_def CBS_ASN1_TAG_SHIFT_def not_le)
  then have "appends (then_do (\<lambda>s. CBB_flush s i) (asn1_header i tag)) i (der_tag tag)"
    using appends_seq [OF appends_flush] by force
  moreover have "appends (\<lambda>s. CBB_add_u8 s i 0) i (replicate (prefix_room Der_prefix) 0)"
    using appends_u8 by simp
  ultimately have "opens (open_child (then_do (\<lambda>s. CBB_flush s i) (asn1_header i tag)) (\<lambda>s. CBB_add_u8 s i 0) i Der_prefix) i (der_tag tag) Der_prefix"
    by (rule opens_child) simp
  then show ?thesis by (simp add: CBB_add_asn1_eq)
qed

lemma reserve_buf: "cbb_buffer_reserve b n = (ok, b') \<Longrightarrow> cb_buf b' = cb_buf b"
  by (auto simp: cbb_buffer_reserve_def Let_def split: if_splits)

lemma opens_length_prefixed:
  assumes n: "0 < n" "n \<le> 8"
  shows "opens (\<lambda>s. cbb_add_length_prefixed s i n) i [] (Len_prefix n)"
proof -
  define f where "f = (\<lambda>s. CBB_add_bytes s i (replicate n 0))"
  have ap: "appends f i (replicate n 0)"
    unfolding f_def using n by (intro appends_bytes) simp
  have eq: "cbb_add_length_prefixed s i n = (case f s of (False, c) \<Rightarrow> (False, c)
      | (True, c) \<Rightarrow> (True, c\<lparr>cbb_chain := take i (cbb_chain c) @
           [frame_for (length (cb_buf (cbb_base c)) - n) (Len_prefix n)]\<rparr>))" for s
    by (auto simp: cbb_add_length_prefixed_def f_def CBB_add_bytes_def flush_then_def cbb_buffer_add_def
      frame_for_def Let_def reserve_buf split: prod.splits bool.splits)
  show ?thesis
    unfolding opens_def
  proof (intro allI impI conjI)
    fix cbb lv
    assume r: "cbb_rel cbb lv" "i \<le> length (cbb_chain cbb)"
    have i: "i < length lv" using cbb_rel_levels [OF r(1)] r(2) by simp
    {
      fix cbb'
      assume "cbb_add_length_prefixed cbb i n = (True, cbb')"
      then obtain c where c: "f cbb = (True, c)" "cbb' = c\<lparr>cbb_chain := take i (cbb_chain c) @
           [frame_for (length (cb_buf (cbb_base c)) - n) (Len_prefix n)]\<rparr>"
        by (auto simp: eq split: prod.splits bool.splits)
      note 1 = appendsD [OF ap r c(1)]
      show "cbb_rel cbb' (spec_append lv i [] @ [(Len_prefix n, [])])" "same_heap (cbb_base cbb) (cbb_base cbb')"
        "length (cbb_chain cbb') = Suc i"
        using push_frame [of c lv i "[]" "Len_prefix n", OF _ _ i _ refl] 1 c(2) n by simp_all
    next
      assume "growable cbb lv i (length ([] :: byte list) + prefix_room (Len_prefix n) + 5)"
      then have "growable cbb lv i (length (replicate n (0 :: byte)) + 5)" by simp
      from appends_succeeds [OF ap r this] obtain d where "f cbb = (True, d)" .
      then show "fst (cbb_add_length_prefixed cbb i n)" by (simp add: eq)
    }
  qed
qed

lemma opensD:
  assumes "opens f i t p" "cbb_rel cbb lv" "i \<le> length (cbb_chain cbb)" "f cbb = (True, cbb')"
  shows "cbb_rel cbb' (spec_append lv i t @ [(p, [])])" "same_heap (cbb_base cbb) (cbb_base cbb')"
    "length (cbb_chain cbb') = Suc i"
  using assms by (auto simp: opens_def)

lemma spec_append_child:
  "i < length lv \<Longrightarrow> spec_append (spec_append lv i t @ [(p, [])]) (Suc i) c = spec_append lv i t @ [(p, c)]"
  by (simp add: spec_append_def nth_append)

lemma child_rel:
  assumes f: "opens f i t p" and g: "appends g (Suc i) c"
    and r: "cbb_rel cbb lv" "i \<le> length (cbb_chain cbb)"
    and run: "then_do (then_do f g) (\<lambda>s. CBB_flush s i) cbb = (True, cbb')"
  shows "cbb_rel cbb' (spec_append lv i (t @ close_prefix p c))" "same_heap (cbb_base cbb) (cbb_base cbb')"
    "length (cbb_chain cbb') = i"
proof -
  have i: "i < length lv" using cbb_rel_levels [OF r(1)] r(2) by simp
  have sf: "spec_flush (spec_append lv i t @ [(p, c)]) i = spec_append lv i (t @ close_prefix p c)"
    using i by (simp add: spec_append_def spec_flush_def nth_append)
  obtain c1 c2 where c: "f cbb = (True, c1)" "g c1 = (True, c2)" "CBB_flush c2 i = (True, cbb')"
    using run by (auto simp: then_do_True)
  note 1 = opensD [OF f r c(1)]
  have le: "Suc i \<le> length (cbb_chain c1)" using 1(3) by simp
  note 2 = appendsD [OF g 1(1) le c(2), unfolded spec_append_child [OF i]]
  have le2: "i \<le> length (cbb_chain c2)" using 2(3) by simp
  note 3 = CBB_flush_rel [OF 2(1) le2 c(3), unfolded sf]
  show "cbb_rel cbb' (spec_append lv i (t @ close_prefix p c))" "same_heap (cbb_base cbb) (cbb_base cbb')"
    "length (cbb_chain cbb') = i"
    using 3 same_heap_trans [OF same_heap_trans [OF 1(2) 2(2)]] by simp_all
qed

lemma appends_child:
  assumes f: "opens f i t p" and g: "appends g (Suc i) c" and p: "prefix_fits p (length c)"
  shows "appends (then_do (then_do f g) (\<lambda>s. CBB_flush s i)) i (t @ close_prefix p c)"
  unfolding appends_def
proof (intro allI impI conjI)
  fix cbb lv
  assume r: "cbb_rel cbb lv" "i \<le> length (cbb_chain cbb)"
  have i: "i < length lv" using cbb_rel_levels [OF r(1)] r(2) by simp
  note fo = opensD [OF f r]
  note sp = spec_append_child [OF i, of t p c]
  {
    fix cbb'
    assume "then_do (then_do f g) (\<lambda>s. CBB_flush s i) cbb = (True, cbb')"
    from child_rel [OF f g r this]
    show "cbb_rel cbb' (spec_append lv i (t @ close_prefix p c))" "same_heap (cbb_base cbb) (cbb_base cbb')"
      "length (cbb_chain cbb') = i" .
  next
    assume gr: "growable cbb lv i (length (t @ close_prefix p c) + 5)"
    have lc: "prefix_room p + length c \<le> length (close_prefix p c)"
      using length_der_len(1) [of "length c"] by (cases p) (auto simp: Suc_le_eq)
    then have "growable cbb lv i (length t + prefix_room p + 5)" using gr by (simp add: growable_def)
    then have "fst (f cbb)" using f r by (simp add: opens_def)
    then obtain c1 where c1: "f cbb = (True, c1)" by (cases "f cbb") auto
    note 1 = fo [OF c1]
    have raw1: "length (raw (spec_append lv i t)) \<le> length (raw lv) + 4 * length (drop (Suc i) lv) + length t"
      by (rule length_raw_append [OF i])
    have cg: "can_grow (cbb_base c1)" using gr can_grow_same [OF 1(2)] by (simp add: growable_def)
    have "growable c1 (spec_append lv i t @ [(p, [])]) (Suc i) (length c + 5)"
      using gr raw1 lc cg i by (simp add: growable_def raw_append raw_Cons)
    moreover have "Suc i \<le> length (cbb_chain c1)" using 1(3) by simp
    ultimately obtain c2 where c2: "g c1 = (True, c2)" using appends_succeeds [OF g 1(1)] by metis
    have le: "Suc i \<le> length (cbb_chain c1)" using 1(3) by simp
    note 2 = appendsD [OF g 1(1) le c2, unfolded sp]
    have cg2: "can_grow (cbb_base c2)" using can_grow_same [OF 2(2) cg] .
    have "growable c2 (spec_append lv i t @ [(p, c)]) i 0"
      using gr raw1 lc cg2 i p by (simp add: growable_def raw_append raw_Cons)
    moreover have "i \<le> length (cbb_chain c2)" using 2(3) by simp
    ultimately have "fst (CBB_flush c2 i)" using CBB_flush_succeeds [OF 2(1)] by blast
    then show "fst (then_do (then_do f g) (\<lambda>s. CBB_flush s i) cbb)"
      using c1 c2 by (simp add: then_do_def)
  }
qed


section \<open>Values\<close>

text \<open>A sequence of \<open>CBB_add_u8\<close>.\<close>

fun add_u8s :: "cbb \<Rightarrow> nat \<Rightarrow> byte list \<Rightarrow> bool \<times> cbb" where
  "add_u8s s j [] = (True, s)"
| "add_u8s s j (b # bs) = then_do (\<lambda>s. CBB_add_u8 s j b) (\<lambda>s. add_u8s s j bs) s"

lemma appends_u8s: "bs \<noteq> [] \<Longrightarrow> appends (\<lambda>s. add_u8s s j bs) j bs"
proof (induction bs rule: list_nonempty_induct)
  case (single b)
  have "(\<lambda>s. add_u8s s j [b]) = (\<lambda>s. CBB_add_u8 s j b)"
    by (rule ext) (simp add: then_do_def split: prod.split bool.split)
  then show ?case using appends_u8 by simp
next
  case (cons b bs)
  then show ?case using appends_seq [OF appends_u8 cons.IH, of b] by simp
qed

lemma add_uint_bytes_started:
  "add_uint_bytes s j True bs = (fst (add_u8s s j bs), True, snd (add_u8s s j bs))"
  by (induction bs arbitrary: s) (auto simp: then_do_def split: prod.split bool.split)

definition pad_sign :: "byte list \<Rightarrow> byte list" where
  "pad_sign z = (if bit (hd z) 7 then 0 # z else z)"

lemma add_uint_bytes_eq:
  "add_uint_bytes s j False bs =
     (let z = dropWhile (\<lambda>b. b = 0) bs; r = add_u8s s j (pad_sign z)
      in if z = [] then (True, False, s) else (fst r, True, snd r))"
proof (induction bs)
  case (Cons b bs)
  show ?case
  proof (cases "b = 0")
    case False
    then show ?thesis
      by (auto simp: pad_sign_def then_do_def add_uint_bytes_started Let_def split: prod.split bool.split)
  qed (use Cons in simp)
qed simp

lemma uint_bytes: "map (\<lambda>k. ucast (drop_bit (8 * (7 - k)) v AND 0xff)) [0..<8] = be_bytes 8 (v :: u64)"
  by (simp add: upt_rec [of 0 8] be_bytes_def drop_bit_drop_bit) (simp add: upt_rec)

lemma uint_tail:
  fixes g :: "cbb \<Rightarrow> bool \<times> cbb"
  shows "(case add_uint_bytes s j False (be_bytes 8 v) of
     (False, _, c) \<Rightarrow> (False, c)
   | (True, started, c) \<Rightarrow>
       (case (if \<not> started then CBB_add_u8 c j 0 else (True, c)) of
          (False, c) \<Rightarrow> (False, c)
        | (True, c) \<Rightarrow> g c)) = then_do (\<lambda>s. add_u8s s j (uint_content v)) g s"
proof (cases "dropWhile (\<lambda>b. b = 0) (be_bytes 8 v) = []")
  case True
  then have "uint_content v = [0]" by (simp add: uint_content_def)
  moreover have "add_uint_bytes s j False (be_bytes 8 v) = (True, False, s)"
    unfolding add_uint_bytes_eq Let_def using True by (simp only: if_True simp_thms)
  ultimately show ?thesis by (cases "CBB_add_u8 s j 0") (simp add: then_do_def split: bool.split)
next
  case False
  then have "uint_content v = pad_sign (dropWhile (\<lambda>b. b = 0) (be_bytes 8 v))"
    by (simp only: uint_content_def pad_sign_def Let_def if_False)
  then have "add_uint_bytes s j False (be_bytes 8 v) =
      (fst (add_u8s s j (uint_content v)), True, snd (add_u8s s j (uint_content v)))"
    unfolding add_uint_bytes_eq Let_def using False by (simp only: if_False)
  then show ?thesis by (cases "add_u8s s j (uint_content v)") (simp add: then_do_def split: bool.split)
qed

lemma CBB_add_asn1_uint64_eq:
  "CBB_add_asn1_uint64 s i v = then_do (then_do (\<lambda>s. CBB_add_asn1 s i CBS_ASN1_INTEGER)
     (\<lambda>s. add_u8s s (Suc i) (uint_content v))) (\<lambda>s. CBB_flush s i) s"
proof -
  have "CBB_add_asn1_uint64 s i v = then_do (\<lambda>s. CBB_add_asn1 s i CBS_ASN1_INTEGER)
     (then_do (\<lambda>s. add_u8s s (Suc i) (uint_content v)) (\<lambda>s. CBB_flush s i)) s"
    unfolding CBB_add_asn1_uint64_def uint_bytes
    by (simp only: uint_tail Suc_eq_plus1 [symmetric]) (simp only: then_do_def [of "\<lambda>s. CBB_add_asn1 s i _"])
  also have "\<dots> = then_do (then_do (\<lambda>s. CBB_add_asn1 s i CBS_ASN1_INTEGER)
     (\<lambda>s. add_u8s s (Suc i) (uint_content v))) (\<lambda>s. CBB_flush s i) s"
    by (cases "CBB_add_asn1 s i CBS_ASN1_INTEGER") (simp add: then_do_def split: bool.split)
  finally show ?thesis .
qed

lemma appends_uint64:
  "appends (\<lambda>s. CBB_add_asn1_uint64 s i v) i (der_element CBS_ASN1_INTEGER (uint_content v))"
  using appends_child [OF opens_asn1 appends_u8s [OF uint_content_facts(1)], of v i CBS_ASN1_INTEGER]
    uint_content_facts(6) [of v]
  by (simp add: CBB_add_asn1_uint64_eq der_element_def)

lemma strip_sign_nonneg:
  "bs \<noteq> [] \<Longrightarrow> \<not> bit (hd bs) 7 \<Longrightarrow>
   strip_sign bs = (let z = dropWhile (\<lambda>b. b = 0) bs in if z = [] then [0] else pad_sign z)"
proof (induction bs rule: strip_sign.induct)
  case (1 b c bs)
  show ?case
  proof (cases "b = 0")
    case True
    show ?thesis
    proof (cases "bit c 7")
      case False
      then show ?thesis using "1.IH" True by simp
    next
      case c: True
      then have "c \<noteq> 0" by auto
      then show ?thesis using True c by (simp add: pad_sign_def)
    qed
  next
    case False
    then show ?thesis using "1.prems" by (auto simp: pad_sign_def)
  qed
qed (auto simp: pad_sign_def)

lemma int_uint_content: "0 \<le> sint v \<Longrightarrow> int_content v = uint_content v"
proof -
  assume "0 \<le> sint v"
  then have "\<not> bit v 63" using bit_last_iff [of v] by simp
  then have "\<not> bit (hd (be_bytes 8 v)) 7" by (simp add: be_bytes_8_hd bit_simps)
  moreover have "be_bytes 8 v \<noteq> []" by (simp add: be_bytes_8_hd)
  ultimately show ?thesis
    using strip_sign_nonneg [of "be_bytes 8 v"] by (simp add: int_content_def uint_content_def pad_sign_def Let_def)
qed

lemma int64_start_strip:
  "k < length l \<Longrightarrow> bit (l ! k) 7 \<Longrightarrow>
   rev (take (Suc (int64_start l k)) l) = strip_sign (rev (take (Suc k) l)) \<and> int64_start l k \<le> k"
proof (induction k)
  case 0
  then show ?case by (cases l) auto
next
  case (Suc k)
  have tk: "rev (take (Suc (Suc k)) l) = l ! Suc k # l ! k # rev (take k l)"
    "rev (take (Suc k) l) = l ! k # rev (take k l)"
    using Suc.prems by (simp_all add: take_Suc_conv_app_nth)
  have "l ! Suc k \<noteq> 0" using Suc.prems by auto
  then show ?case using Suc tk by auto
qed

lemma add_int_bytes_eq: "k \<le> length l \<Longrightarrow> add_int_bytes s j l k = add_u8s s j (rev (take k l))"
  by (induction k arbitrary: s)
    (simp_all add: take_Suc_conv_app_nth then_do_def split: prod.split bool.split)

lemma CBB_add_asn1_int64_eq:
  assumes "\<not> 0 \<le> sint v"
  shows "CBB_add_asn1_int64 s i v = then_do (then_do (\<lambda>s. CBB_add_asn1 s i CBS_ASN1_INTEGER)
     (\<lambda>s. add_u8s s (Suc i) (int_content v))) (\<lambda>s. CBB_flush s i) s"
proof -
  have "bit v 63" using assms bit_last_iff [of v] by simp
  then have "bit (le_bytes 8 v ! 7) 7" by (simp add: nth_le_bytes bit_simps del: le_bytes_numeral)
  then have c: "rev (take (Suc (int64_start (le_bytes 8 v) 7)) (le_bytes 8 v)) = int_content v"
    "int64_start (le_bytes 8 v) 7 \<le> 7"
    using int64_start_strip [of 7 "le_bytes 8 v"] by (simp_all add: int_content_def be_bytes_def del: le_bytes_numeral)
  then show ?thesis
    using assms add_int_bytes_eq [of "Suc (int64_start (le_bytes 8 v) 7)" "le_bytes 8 v"]
    by (simp add: CBB_add_asn1_int64_def then_do_def Let_def del: le_bytes_numeral split: prod.split bool.split)
qed

lemma appends_int64:
  "appends (\<lambda>s. CBB_add_asn1_int64 s i v) i (der_element CBS_ASN1_INTEGER (int_content v))"
proof (cases "0 \<le> sint v")
  case True
  then show ?thesis using appends_uint64 by (simp add: CBB_add_asn1_int64_def int_uint_content)
next
  case False
  have "int_content v \<noteq> []" using length_int_content(1) [of v] by simp
  then show ?thesis
    using appends_child [OF opens_asn1 appends_u8s, of "int_content v" i CBS_ASN1_INTEGER]
      length_int_content(2) [of v]
    by (simp add: der_element_def CBB_add_asn1_int64_eq [OF False])
qed

lemma CBB_add_asn1_octet_string_eq:
  "CBB_add_asn1_octet_string s i d = then_do (then_do (\<lambda>s. CBB_add_asn1 s i CBS_ASN1_OCTETSTRING)
     (\<lambda>s. CBB_add_bytes s (Suc i) d)) (\<lambda>s. CBB_flush s i) s"
  by (simp add: CBB_add_asn1_octet_string_def then_do_def split: prod.split bool.split)

lemma octet_string_rel:
  assumes "cbb_rel cbb lv" "i \<le> length (cbb_chain cbb)" "length d < size_mod"
    and "CBB_add_asn1_octet_string cbb i d = (True, cbb')"
  shows "cbb_rel cbb' (spec_append lv i (der_element CBS_ASN1_OCTETSTRING d))"
    "same_heap (cbb_base cbb) (cbb_base cbb')"
  using child_rel [OF opens_asn1 appends_bytes [OF assms(3)] assms(1,2) assms(4) [unfolded CBB_add_asn1_octet_string_eq]]
  by (simp_all add: der_element_def)

lemma appends_octet_string:
  assumes "length d \<le> 0xfffffffe"
  shows "appends (\<lambda>s. CBB_add_asn1_octet_string s i d) i (der_element CBS_ASN1_OCTETSTRING d)"
  using appends_child [OF opens_asn1 appends_bytes, of d i CBS_ASN1_OCTETSTRING] assms
  by (simp add: der_element_def CBB_add_asn1_octet_string_eq)

lemma CBB_add_asn1_bool_eq:
  "CBB_add_asn1_bool s i b = then_do (then_do (\<lambda>s. CBB_add_asn1 s i CBS_ASN1_BOOLEAN)
     (\<lambda>s. CBB_add_u8 s (Suc i) (if b then 0xff else 0))) (\<lambda>s. CBB_flush s i) s"
  by (simp add: CBB_add_asn1_bool_def then_do_def split: prod.split bool.split)

lemma appends_bool:
  "appends (\<lambda>s. CBB_add_asn1_bool s i b) i (der_element CBS_ASN1_BOOLEAN [if b then 0xff else 0])"
  using appends_child [OF opens_asn1 appends_u8, of "if b then 0xff else 0" i CBS_ASN1_BOOLEAN]
  by (simp add: der_element_def CBB_add_asn1_bool_eq)

end
