(* ===== verification/Cbb_Values.thy ===== *)
theory Cbb_Values
  imports Cbb_Laws "HOL-Library.Multiset"
begin

text \<open>
  Object identifiers and sets: \<open>CBB_add_asn1_oid_from_text\<close>, \<open>CBS_asn1_oid_to_text\<close> and
  \<open>CBB_flush_asn1_set_of\<close> of \<open>crypto/bytestring\<close>.
\<close>

section \<open>Object identifiers\<close>

abbreviation "dot \<equiv> 0x2e :: byte"

text \<open>
  The loop of \<open>parse_dotted_decimal\<close>. The result is \<open>*out\<close>, or nothing when the component is
  malformed or empty; the reader is left behind the dot.
\<close>

fun dotted_loop :: "cbs \<Rightarrow> u64 \<Rightarrow> bool \<Rightarrow> u64 option \<times> cbs" where
  "dotted_loop [] out seen_digit = (if seen_digit then Some out else None, [])"
| "dotted_loop (u # cbs) out seen_digit =
     (if u = dot \<and> length cbs > 0 then (if seen_digit then Some out else None, cbs)
      else if u < 0x30 \<or> u > 0x39 \<or> seen_digit \<and> out = 0
              \<or> out > 0xFFFFFFFFFFFFFFFF div 10
              \<or> out * 10 > 0xFFFFFFFFFFFFFFFF - ucast (u - 0x30)
      then (None, cbs)
      else dotted_loop cbs (out * 10 + ucast (u - 0x30)) True)"

definition parse_dotted_decimal :: "cbs \<Rightarrow> u64 option \<times> cbs" where
  "parse_dotted_decimal cbs = dotted_loop cbs 0 False"

lemma dotted_loop_length: "length (snd (dotted_loop cbs out seen)) \<le> length cbs"
  by (induction cbs out seen rule: dotted_loop.induct) (auto intro: le_SucI)

lemma parse_dotted_decimal_length [termination_simp]:
  "parse_dotted_decimal cbs = (Some v, cbs') \<Longrightarrow> cbs \<noteq> [] \<Longrightarrow> length cbs' < length cbs"
  using dotted_loop_length [of "tl cbs"]
  by (cases cbs) (auto simp: parse_dotted_decimal_def less_Suc_eq_le split: if_splits dest: arg_cong [of _ _ snd],
    metis snd_conv)

function oid_components :: "cbb \<Rightarrow> nat \<Rightarrow> cbs \<Rightarrow> bool \<times> cbb" where
  "oid_components cbb i cbs =
     (if length cbs = 0 then (True, cbb)
      else (case parse_dotted_decimal cbs of
              (None, _) \<Rightarrow> (False, cbb)
            | (Some a, cbs') \<Rightarrow>
                (case add_base128_integer cbb i a of
                   (False, cbb') \<Rightarrow> (False, cbb')
                 | (True, cbb') \<Rightarrow> oid_components cbb' i cbs')))"
  by pat_completeness auto
termination
  by (relation "measure (\<lambda>(cbb, i, cbs). length cbs)") (auto dest: parse_dotted_decimal_length [OF sym])

declare oid_components.simps [simp del]

definition CBB_add_asn1_oid_from_text :: "cbb \<Rightarrow> nat \<Rightarrow> byte list \<Rightarrow> bool \<times> cbb" where
  "CBB_add_asn1_oid_from_text cbb i text =
     (case CBB_flush cbb i of
        (False, cbb1) \<Rightarrow> (False, cbb1)
      | (True, cbb1) \<Rightarrow>
          (case parse_dotted_decimal (CBS_init text) of
             (None, _) \<Rightarrow> (False, cbb1)
           | (Some a, cbs1) \<Rightarrow>
               (case parse_dotted_decimal cbs1 of
                  (None, _) \<Rightarrow> (False, cbb1)
                | (Some b, cbs2) \<Rightarrow>
                    (if a > 2 \<or> a < 2 \<and> b > 39 \<or> b > 0xFFFFFFFFFFFFFFFF - 80 then (False, cbb1)
                     else (case add_base128_integer cbb1 i (40 * a + b) of
                             (False, cbb2) \<Rightarrow> (False, cbb2)
                           | (True, cbb2) \<Rightarrow> oid_components cbb2 i cbs2)))))"

text \<open>The decimal digits that \<open>BIO_snprintf\<close> writes for \<open>PRIu64\<close>.\<close>

fun dec_digits :: "nat \<Rightarrow> byte list" where
  "dec_digits n = (if n < 10 then [of_nat (0x30 + n)] else dec_digits (n div 10) @ [of_nat (0x30 + n mod 10)])"

declare dec_digits.simps [simp del]

definition add_decimal :: "cbb \<Rightarrow> u64 \<Rightarrow> bool \<times> cbb" where
  "add_decimal out v = CBB_add_bytes out 0 (dec_digits (unat v))"

text \<open>Two writes of which the second happens only if the first succeeds.\<close>

definition cbb_and :: "bool \<times> cbb \<Rightarrow> (cbb \<Rightarrow> bool \<times> cbb) \<Rightarrow> bool \<times> cbb" where
  "cbb_and r g = (case r of (False, cbb) \<Rightarrow> (False, cbb) | (True, cbb) \<Rightarrow> g cbb)"

lemma base128_loop_length: "base128_loop cbs v = (Some r, cbs') \<Longrightarrow> length cbs' < length cbs"
  by (induction cbs v rule: base128_loop.induct) (auto simp: Let_def split: if_splits)

lemma parse_base128_integer_length:
  "parse_base128_integer cbs = (Some v, cbs') \<Longrightarrow> length cbs' < length cbs"
  by (simp add: parse_base128_integer_def base128_loop_length)

function oid_text_loop :: "cbb \<Rightarrow> cbs \<Rightarrow> bool \<times> cbb" where
  "oid_text_loop cbb copy =
     (if length copy = 0 then (True, cbb)
      else (case parse_base128_integer copy of
              (None, _) \<Rightarrow> (False, cbb)
            | (Some v, copy') \<Rightarrow>
                (case cbb_and (CBB_add_u8 cbb 0 dot) (\<lambda>c. add_decimal c v) of
                   (False, cbb') \<Rightarrow> (False, cbb')
                 | (True, cbb') \<Rightarrow> oid_text_loop cbb' copy')))"
  by pat_completeness auto
termination
  by (relation "measure (\<lambda>(cbb, copy). length copy)") (auto dest: parse_base128_integer_length [OF sym])

declare oid_text_loop.simps [simp del]

text \<open>The text with its terminating zero byte, or \<open>None\<close> for \<open>NULL\<close>.\<close>

definition CBS_asn1_oid_to_text :: "cbs \<Rightarrow> (nat \<Rightarrow> bool) \<Rightarrow> byte list option" where
  "CBS_asn1_oid_to_text cbs alloc =
     (case CBB_init 32 alloc of
        None \<Rightarrow> None
      | Some cbb \<Rightarrow>
          (case parse_base128_integer cbs of
             (None, _) \<Rightarrow> None
           | (Some v, copy) \<Rightarrow>
               (case (if v \<ge> 80
                      then cbb_and (CBB_add_bytes cbb 0 [0x32, dot]) (\<lambda>c. add_decimal c (v - 80))
                      else cbb_and (add_decimal cbb (v div 40)) (\<lambda>c.
                             cbb_and (CBB_add_u8 c 0 dot) (\<lambda>c. add_decimal c (v mod 40)))) of
                  (False, _) \<Rightarrow> None
                | (True, cbb1) \<Rightarrow>
                    (case oid_text_loop cbb1 copy of
                       (False, _) \<Rightarrow> None
                     | (True, cbb2) \<Rightarrow>
                         (case CBB_add_u8 cbb2 0 0 of
                            (False, _) \<Rightarrow> None
                          | (True, cbb3) \<Rightarrow> CBB_finish cbb3 0)))))"

section \<open>Sets\<close>

text \<open>
  \<open>OPENSSL_memcmp\<close> gives the difference of the first bytes that differ (only its sign is
  used), and \<open>qsort\<close> sorts with \<open>compare_set_of_element\<close>: insertion here, which is one order
  \<open>qsort\<close> may use; elements that compare equal are equal byte sequences.
\<close>

fun OPENSSL_memcmp :: "byte list \<Rightarrow> byte list \<Rightarrow> int" where
  "OPENSSL_memcmp (a # as) (b # bs) = (if a = b then OPENSSL_memcmp as bs else uint a - uint b)"
| "OPENSSL_memcmp _ _ = 0"

definition compare_set_of_element :: "cbs \<Rightarrow> cbs \<Rightarrow> int" where
  "compare_set_of_element a b =
     (let min_len = (if length a < length b then length a else length b);
          ret = OPENSSL_memcmp (take min_len a) (take min_len b)
      in if ret \<noteq> 0 then ret
         else if length a = length b then 0
         else if length a < length b then -1 else 1)"

fun insert_element :: "cbs \<Rightarrow> cbs list \<Rightarrow> cbs list" where
  "insert_element x [] = [x]"
| "insert_element x (y # ys) =
     (if compare_set_of_element x y \<le> 0 then x # y # ys else y # insert_element x ys)"

definition qsort_elements :: "cbs list \<Rightarrow> cbs list" where
  "qsort_elements xs = foldr insert_element xs []"

lemma any_asn1_element_length:
  "CBS_get_any_asn1_element cbs = (Some (out, tag, hlen), cbs') \<Longrightarrow> length cbs' < length cbs"
  unfolding CBS_get_any_asn1_element_def
  by (drule der_any_element_sound) (auto simp: der_element_def length_der_tag(1) [simplified])

text \<open>The elements of a \<open>CBS\<close>, or nothing if it is not a sequence of DER elements.\<close>

function split_elements :: "cbs \<Rightarrow> cbs list option" where
  "split_elements cbs =
     (if length cbs = 0 then Some []
      else (case CBS_get_any_asn1_element cbs of
              (None, _) \<Rightarrow> None
            | (Some (out, tag, hlen), cbs') \<Rightarrow>
                (case split_elements cbs' of None \<Rightarrow> None | Some es \<Rightarrow> Some (out # es))))"
  by pat_completeness auto
termination
  by (relation "measure length") (auto dest: any_asn1_element_length [OF sym])

declare split_elements.simps [simp del]

fun add_elements :: "cbb \<Rightarrow> nat \<Rightarrow> cbs list \<Rightarrow> bool \<times> cbb" where
  "add_elements cbb i [] = (True, cbb)"
| "add_elements cbb i (e # es) = cbb_and (CBB_add_bytes cbb i e) (\<lambda>c. add_elements c i es)"

text \<open>
  \<open>CBB_flush_asn1_set_of\<close>; \<open>alloc\<close> says whether the copies of the contents and of the list of
  children can be allocated. A \<open>CBS\<close> has 16 bytes.
\<close>

definition CBB_flush_asn1_set_of :: "cbb \<Rightarrow> nat \<Rightarrow> bool \<Rightarrow> bool \<times> cbb" where
  "CBB_flush_asn1_set_of cbb i alloc =
     (case CBB_flush cbb i of
        (False, cbb1) \<Rightarrow> (False, cbb1)
      | (True, cbb1) \<Rightarrow>
          (case split_elements (CBB_data cbb1 i) of
             None \<Rightarrow> (False, cbb1)
           | Some children \<Rightarrow>
               (if length children < 2 then (True, cbb1)
                else if length children > (size_mod - 1) div 16 then (False, cbb1)
                else if \<not> alloc then (False, cbb1)
                else add_elements (cbb1\<lparr>cbb_base := (cbb_base cbb1)
                         \<lparr>cb_buf := take (cbb_start cbb1 i) (cb_buf (cbb_base cbb1))\<rparr>\<rparr>) i
                       (qsort_elements children))))"

section \<open>Laws of the decimal notation\<close>

lemma dotted_digit:
  assumes "d < 10" "seen = (out \<noteq> 0)" "unat out * 10 + d < 2 ^ 64"
  shows "dotted_loop (of_nat (0x30 + d) # cbs) out seen = dotted_loop cbs (of_nat (unat out * 10 + d)) True"
proof -
  let ?u = "of_nat (0x30 + d) :: byte"
  have u: "unat ?u = 0x30 + d" using assms(1) by (simp add: unat_of_nat del: of_nat_add)
  have m: "unat (?u - 0x30) = d" using u by (simp add: unat_sub_if' del: of_nat_add)
  then have um: "(ucast (?u - 0x30) :: u64) = of_nat d"
    using assms(1) by (simp add: word_unat_eq_iff unat_of_nat unsigned_ucast_eq take_bit_nat_eq_self del: of_nat_add)
  have o10: "unat (out * 10) = unat out * 10"
    using assms(3) by (simp add: unat_word_ariths)
  have "out \<le> 0xFFFFFFFFFFFFFFFF div 10"
    using assms(3) by (simp add: word_le_nat_alt unat_div)
  moreover have "out * 10 \<le> 0xFFFFFFFFFFFFFFFF - of_nat d"
  proof -
    have "unat (0xFFFFFFFFFFFFFFFF - of_nat d :: u64) = 0xFFFFFFFFFFFFFFFF - d"
      using assms(1) by (simp add: unat_sub_if' unat_of_nat)
    then show ?thesis using o10 assms by (simp add: word_le_nat_alt)
  qed
  moreover have "\<not> ?u < 0x30" "\<not> ?u > 0x39" "?u \<noteq> dot"
    using u assms(1) by (auto simp: word_less_nat_alt word_unat_eq_iff simp del: of_nat_add)
  moreover have "out * 10 + of_nat d = of_nat (unat out * 10 + d)"
    by simp
  ultimately show ?thesis
    using assms(2) um by (auto simp: not_le [symmetric] simp del: of_nat_add)
qed

lemma dotted_digits:
  "n < 2 ^ 64 \<Longrightarrow> dotted_loop (dec_digits n @ cbs) 0 False = dotted_loop cbs (of_nat n) True"
proof (induction n arbitrary: cbs rule: dec_digits.induct)
  case (1 n)
  show ?case
  proof (cases "n < 10")
    case True
    then show ?thesis using dotted_digit [of n False 0 cbs] by (simp add: dec_digits.simps [of n])
  next
    case False
    let ?q = "n div 10"
    have u: "unat (of_nat ?q :: u64) = ?q" using "1.prems" by (simp add: unat_of_nat)
    then have "(of_nat ?q :: u64) \<noteq> 0" using False by (auto simp: word_unat_eq_iff)
    moreover have "dotted_loop (dec_digits ?q @ of_nat (0x30 + n mod 10) # cbs) 0 False =
        dotted_loop (of_nat (0x30 + n mod 10) # cbs) (of_nat ?q) True"
      using "1.IH" [OF False] "1.prems" by simp
    ultimately show ?thesis
      using False dotted_digit [of "n mod 10" True "of_nat ?q" cbs] "1.prems" u
      by (simp add: dec_digits.simps [of n])
  qed
qed

text \<open>The dotted notation of a list of components.\<close>

fun comps_text :: "u64 list \<Rightarrow> byte list" where
  "comps_text [] = []"
| "comps_text [v] = dec_digits (unat v)"
| "comps_text (v # w # vs) = dec_digits (unat v) @ dot # comps_text (w # vs)"

lemma dec_digits_nonempty [simp]: "dec_digits n \<noteq> []"
  by (subst dec_digits.simps) simp

lemma comps_text_nonempty [simp]: "comps_text (v # vs) \<noteq> []"
  by (cases vs) auto

lemma parse_comps: "parse_dotted_decimal (comps_text (v # vs)) = (Some v, comps_text vs)"
proof -
  have "unat v < 2 ^ 64" using unsigned_less [of v, where 'a = nat] by simp
  note d = dotted_digits [OF this]
  show ?thesis
    using d [of "[]"] d by (cases vs) (simp_all add: parse_dotted_decimal_def)
qed

lemma comps_text_Cons: "comps_text (v # vs) = dec_digits (unat v) @ concat (map (\<lambda>w. dot # dec_digits (unat w)) vs)"
  by (induction vs arbitrary: v) simp_all

section \<open>From text\<close>

lemma then_do_assoc: "then_do (then_do f g) h = then_do f (then_do g h)"
  by (rule ext) (simp add: then_do_def split: prod.split bool.split)

lemma oid_components_comps:
  "oid_components s i (comps_text (v # vs)) =
     then_do (\<lambda>s. add_base128_integer s i v) (\<lambda>s. oid_components s i (comps_text vs)) s"
  by (subst oid_components.simps) (simp add: parse_comps then_do_def split: prod.split bool.split)

lemma oid_components_Nil: "oid_components s i [] = (True, s)"
  by (simp add: oid_components.simps)

lemma then_do_ret: "then_do f (\<lambda>s. (True, s)) = f"
  by (rule ext) (simp add: then_do_def split: prod.split bool.split)

lemma appends_components:
  "appends (then_do (\<lambda>s. add_base128_integer s i x) (\<lambda>s. oid_components s i (comps_text vs))) i
     (b128 x @ concat (map b128 vs))"
proof (induction vs arbitrary: x)
  case Nil
  show ?case using appends_base128 by (simp add: oid_components_Nil then_do_ret)
next
  case (Cons v vs)
  then show ?case using appends_seq [OF appends_base128 Cons.IH] by (simp add: oid_components_comps)
qed

text \<open>How the first two components make the first encoded one, and back.\<close>

definition oid_first :: "u64 \<Rightarrow> u64 \<Rightarrow> u64 option" where
  "oid_first a b = (if a > 2 \<or> a < 2 \<and> b > 39 \<or> b > 0xFFFFFFFFFFFFFFFF - 80 then None else Some (40 * a + b))"

lemma appends_oid_from_text:
  assumes "oid_first a b = Some x"
  shows "appends (\<lambda>s. CBB_add_asn1_oid_from_text s i (comps_text (a # b # vs))) i (b128 x @ concat (map b128 vs))"
proof -
  have "CBB_add_asn1_oid_from_text s i (comps_text (a # b # vs)) = then_do (\<lambda>s. CBB_flush s i)
     (then_do (\<lambda>s. add_base128_integer s i x) (\<lambda>s. oid_components s i (comps_text vs))) s" for s
    using assms by (auto simp: CBB_add_asn1_oid_from_text_def CBS_init_def parse_comps then_do_def oid_first_def
      simp del: comps_text.simps split: prod.split bool.split if_splits)
  then show ?thesis using appends_seq [OF appends_flush appends_components [of i x vs]] by simp
qed

section \<open>To text\<close>

definition oid_split :: "u64 \<Rightarrow> u64 \<times> u64" where
  "oid_split v = (if v \<ge> 80 then (2, v - 80) else (v div 40, v mod 40))"

lemma oid_first_split: "oid_first (fst (oid_split v)) (snd (oid_split v)) = Some v"
proof (cases "v \<ge> 80")
  case True
  have "v - 80 \<le> 0xFFFFFFFFFFFFFFFF - 80"
  proof -
    have "unat v < 2 ^ 64" using unsigned_less [of v, where 'a = nat] by simp
    then show ?thesis using True by (simp add: word_le_nat_alt unat_sub)
  qed
  then show ?thesis using True by (simp add: oid_first_def oid_split_def not_less)
next
  case False
  have "unat v < 80" using False by (simp add: word_le_nat_alt)
  then have u: "unat (v div 40) < 2" "unat (v mod 40) \<le> 39"
    by (simp_all add: unat_div unat_mod)
  have "40 * (v div 40) + v mod 40 = v" by (rule mult_div_mod_eq)
  moreover have "\<not> v div 40 > 2" "\<not> v mod 40 > 39" "\<not> v mod 40 > 0xFFFFFFFFFFFFFFFF - 80"
    using u by (simp_all add: word_less_nat_alt)
  ultimately show ?thesis using False by (simp add: oid_first_def oid_split_def)
qed

lemma then_do_cbb_and: "then_do f g = (\<lambda>s. cbb_and (f s) g)"
  by (rule ext) (simp add: cbb_and_def then_do_def)

lemma length_dec_digits: "n < 10 ^ k \<Longrightarrow> 0 < k \<Longrightarrow> length (dec_digits n) \<le> k"
proof (induction k arbitrary: n)
  case (Suc k)
  show ?case
  proof (cases "n < 10")
    case True
    then show ?thesis by (simp add: dec_digits.simps [of n])
  next
    case False
    then have "0 < k" using Suc.prems by (cases k) auto
    moreover have "n div 10 < 10 ^ k" using Suc.prems by (simp add: less_mult_imp_div_less mult.commute)
    ultimately show ?thesis using Suc.IH [of "n div 10"] False by (simp add: dec_digits.simps [of n])
  qed
qed simp

lemma length_dec_u64: "length (dec_digits (unat (v :: u64))) \<le> 20"
proof -
  have "unat v < 2 ^ 64" using unsigned_less [of v, where 'a = nat] by simp
  also have "(2::nat) ^ 64 \<le> 10 ^ 20" by simp
  finally show ?thesis by (rule length_dec_digits) simp
qed

lemma appends_decimal: "appends (\<lambda>s. add_decimal s v) 0 (dec_digits (unat v))"
  unfolding add_decimal_def
  using length_dec_u64 [of v] by (intro appends_bytes) simp

lemma appends_dot_decimal:
  "appends (\<lambda>s. cbb_and (CBB_add_u8 s 0 dot) (\<lambda>c. add_decimal c v)) 0 (dot # dec_digits (unat v))"
  using appends_seq [OF appends_u8 appends_decimal, of dot v] by (simp add: then_do_cbb_and)

lemma oid_text_loop_rel:
  assumes "cbb_rel cbb lv" "length (cbb_chain cbb) = 0" "oid_text_loop cbb copy = (True, cbb')"
  shows "\<exists>vs. copy = concat (map b128 vs) \<and> length (cbb_chain cbb') = 0 \<and>
    cbb_rel cbb' (spec_append lv 0 (concat (map (\<lambda>w. dot # dec_digits (unat w)) vs)))"
  using assms
proof (induction cbb copy arbitrary: lv cbb' rule: oid_text_loop.induct)
  case (1 cbb copy)
  have lv: "length lv = 1" using cbb_rel_levels [OF "1.prems"(1)] "1.prems"(2) by simp
  show ?case
  proof (cases "copy = []")
    case True
    then have "cbb' = cbb" using "1.prems"(3) by (simp add: oid_text_loop.simps)
    moreover have "spec_append lv 0 [] = lv"
      using lv by (cases lv) (simp_all add: spec_append_def)
    ultimately show ?thesis using True "1.prems" by (intro exI [of _ "[]"]) simp
  next
    case False
    then obtain v copy' c where s: "parse_base128_integer copy = (Some v, copy')"
      "cbb_and (CBB_add_u8 cbb 0 dot) (\<lambda>c. add_decimal c v) = (True, c)"
      "oid_text_loop c copy' = (True, cbb')"
      using "1.prems"(3) by (subst (asm) oid_text_loop.simps) (auto split: prod.splits option.splits bool.splits)
    note r = appendsD [OF appends_dot_decimal "1.prems"(1) _ s(2)]
    have i: "0 < length lv" using lv by simp
    obtain vs where vs: "copy' = concat (map b128 vs)" "length (cbb_chain cbb') = 0"
      "cbb_rel cbb' (spec_append (spec_append lv 0 (dot # dec_digits (unat v))) 0
         (concat (map (\<lambda>w. dot # dec_digits (unat w)) vs)))"
      using "1.IH" [OF False [folded length_0_conv] s(1) [symmetric] refl s(2) [symmetric] refl r(1,3) s(3)] by auto
    then show ?thesis
      using parse_base128_integer_sound [OF s(1)] spec_append_append [OF i]
      by (intro exI [of _ "v # vs"]) simp
  qed
qed

lemma CBB_init_rel:
  "CBB_init n alloc = Some cbb \<Longrightarrow> n < size_mod \<Longrightarrow>
   cbb_rel cbb [(Len_prefix 0, [])] \<and> cbb_chain cbb = []"
  by (auto simp: CBB_init_def cbb_init_def cbb_rel_def base_ok_def raw_def split: if_splits)

lemma CBB_finish_rel:
  "cbb_rel cbb lv \<Longrightarrow> CBB_finish cbb 0 = Some data \<Longrightarrow> data = collapse lv"
  using CBB_flush_rel [of cbb lv 0]
  by (auto simp: CBB_finish_def cbb_rel_def spec_flush_def raw_def be_bytes_def split: prod.splits bool.splits)

lemma appends_first:
  "appends (\<lambda>s. (if v \<ge> 80 then cbb_and (CBB_add_bytes s 0 [0x32, dot]) (\<lambda>c. add_decimal c (v - 80))
      else cbb_and (add_decimal s (v div 40)) (\<lambda>c.
             cbb_and (CBB_add_u8 c 0 dot) (\<lambda>c. add_decimal c (v mod 40))))) 0
     (comps_text [fst (oid_split v), snd (oid_split v)])"
proof (cases "v \<ge> 80")
  case True
  have "dec_digits (unat (2 :: u64)) = [0x32]" by (simp add: dec_digits.simps)
  then show ?thesis
    using True appends_seq [OF appends_bytes [of "[0x32, dot]"] appends_decimal, of "v - 80"]
    by (simp add: then_do_cbb_and oid_split_def)
next
  case False
  then show ?thesis
    using appends_seq [OF appends_decimal appends_dot_decimal, of "v div 40" "v mod 40"]
    by (simp add: then_do_cbb_and oid_split_def)
qed

lemma oid_to_text_sound:
  assumes "CBS_asn1_oid_to_text cbs alloc = Some s"
  shows "\<exists>v vs. cbs = b128 v @ concat (map b128 vs) \<and>
    s = comps_text (fst (oid_split v) # snd (oid_split v) # vs) @ [0]"
proof -
  obtain cbb v copy cbb1 cbb2 cbb3 where c: "CBB_init 32 alloc = Some cbb" "parse_base128_integer cbs = (Some v, copy)"
    "(if v \<ge> 80 then cbb_and (CBB_add_bytes cbb 0 [0x32, dot]) (\<lambda>c. add_decimal c (v - 80))
      else cbb_and (add_decimal cbb (v div 40)) (\<lambda>c.
             cbb_and (CBB_add_u8 c 0 dot) (\<lambda>c. add_decimal c (v mod 40)))) = (True, cbb1)"
    "oid_text_loop cbb1 copy = (True, cbb2)" "CBB_add_u8 cbb2 0 0 = (True, cbb3)" "CBB_finish cbb3 0 = Some s"
    using assms unfolding CBS_asn1_oid_to_text_def
    by (auto split: option.splits prod.splits bool.splits)
  have "cbb_rel cbb [(Len_prefix 0, [])]" "0 \<le> length (cbb_chain cbb)"
    using CBB_init_rel [OF c(1)] by simp_all
  note r0 = this
  let ?first = "comps_text [fst (oid_split v), snd (oid_split v)]"
  have "appends (\<lambda>s. (if v \<ge> 80 then cbb_and (CBB_add_bytes s 0 [0x32, dot]) (\<lambda>c. add_decimal c (v - 80))
      else cbb_and (add_decimal s (v div 40)) (\<lambda>c.
             cbb_and (CBB_add_u8 c 0 dot) (\<lambda>c. add_decimal c (v mod 40))))) 0 ?first"
    by (rule appends_first)
  note r1 = appendsD [OF this r0 c(3)]
  from oid_text_loop_rel [OF r1(1,3) c(4)] obtain vs where vs: "copy = concat (map b128 vs)"
    "length (cbb_chain cbb2) = 0" "cbb_rel cbb2 (spec_append (spec_append [(Len_prefix 0, [])] 0 ?first) 0
       (concat (map (\<lambda>w. dot # dec_digits (unat w)) vs)))" by auto
  note r3 = appendsD [OF appends_u8 vs(3) _ c(5)]
  have "s = ?first @ concat (map (\<lambda>w. dot # dec_digits (unat w)) vs) @ [0]"
    using CBB_finish_rel [OF r3(1) c(6)] by (simp add: spec_append_def be_bytes_def)
  then show ?thesis
    using parse_base128_integer_sound [OF c(2)] vs(1)
    by (intro exI [of _ v] exI [of _ vs]) (simp add: comps_text_Cons)
qed


section \<open>Sets\<close>

text \<open>The order of X.690, section 11.6: lexicographic.\<close>

definition element_le :: "cbs \<Rightarrow> cbs \<Rightarrow> bool" where
  "element_le a b \<longleftrightarrow> compare_set_of_element a b \<le> 0"

lemma compare_Cons [simp]:
  "compare_set_of_element (a # as) (b # bs) =
     (if a = b then compare_set_of_element as bs else uint a - uint b)"
  by (auto simp: compare_set_of_element_def Let_def word_uint_eq_iff)

lemma compare_Nil [simp]:
  "compare_set_of_element [] bs = (if bs = [] then 0 else -1)"
  "compare_set_of_element as [] = (if as = [] then 0 else 1)"
  by (simp_all add: compare_set_of_element_def)

lemma element_le_lexord: "element_le a b \<longleftrightarrow> a = b \<or> (a, b) \<in> lexord {(x, y). x < (y :: byte)}"
proof (induction a b rule: list_induct2')
  case (4 x xs y ys)
  have "uint x - uint y \<le> 0 \<longleftrightarrow> x < y" if "x \<noteq> y"
    using that by (auto simp: word_less_def word_uint_eq_iff)
  with 4 show ?case by (auto simp: element_le_def)
qed (auto simp: element_le_def)

lemma element_le_linear: "element_le a b \<or> element_le b a"
  by (induction a b rule: list_induct2') (auto simp: element_le_def)

lemma element_le_trans: "element_le a b \<Longrightarrow> element_le b c \<Longrightarrow> element_le a c"
proof -
  have tr: "trans {(x, y). x < (y :: byte)}" by (auto intro: transI)
  assume "element_le a b" "element_le b c"
  then show ?thesis
    unfolding element_le_lexord using lexord_trans [OF _ _ tr] by blast
qed

lemma set_insert_element [simp]: "set (insert_element x xs) = insert x (set xs)"
  by (induction xs) auto

lemma insert_element_sorted: "sorted_wrt element_le xs \<Longrightarrow> sorted_wrt element_le (insert_element x xs)"
proof (induction xs)
  case (Cons y ys)
  show ?case
  proof (cases "element_le x y")
    case True
    then show ?thesis using Cons.prems element_le_trans [OF True] by (auto simp: element_le_def [symmetric])
  next
    case False
    then have "element_le y x" using element_le_linear by blast
    then show ?thesis using Cons False by (auto simp: element_le_def [symmetric])
  qed
qed simp

lemma mset_insert_element: "mset (insert_element x xs) = add_mset x (mset xs)"
  by (induction xs) auto

lemma qsort_elements: "sorted_wrt element_le (qsort_elements xs)" "mset (qsort_elements xs) = mset xs"
  by (induction xs) (simp_all add: qsort_elements_def insert_element_sorted mset_insert_element)

lemma split_elements_concat:
  "split_elements cbs = Some es \<Longrightarrow> cbs = concat es \<and> (\<forall>e \<in> set es. \<exists>tag d. length d < 2 ^ 32 \<and> e = der_element tag d)"
proof (induction cbs arbitrary: es rule: split_elements.induct)
  case (1 cbs)
  show ?case
  proof (cases "cbs = []")
    case False
    then obtain out tag hl cbs' es' where e: "CBS_get_any_asn1_element cbs = (Some (out, tag, hl), cbs')"
      "split_elements cbs' = Some es'" "es = out # es'"
      using "1.prems" by (subst (asm) split_elements.simps) (auto split: prod.splits option.splits)
    have "cbs' = concat es' \<and> (\<forall>e \<in> set es'. \<exists>tag d. length d < 2 ^ 32 \<and> e = der_element tag d)"
      using "1.IH" [OF _ e(1) [symmetric] refl refl refl e(2)] False by simp
    moreover obtain d where "length d < 2 ^ 32" "out = der_element tag d" "cbs = out @ cbs'"
      using der_any_element_sound [of cbs out tag hl cbs'] e(1) by (auto simp: CBS_get_any_asn1_element_def)
    ultimately show ?thesis using e(3) by auto
  qed (use "1.prems" in \<open>simp add: split_elements.simps\<close>)
qed

lemma add_elements_rel:
  assumes "cbb_rel cbb lv" "length (cbb_chain cbb) = i" "add_elements cbb i es = (True, cbb')"
    and "\<forall>e \<in> set es. length e < size_mod"
  shows "cbb_rel cbb' (spec_append lv i (concat es)) \<and> length (cbb_chain cbb') = i"
  using assms
proof (induction es arbitrary: cbb lv)
  case Nil
  have "length lv = Suc i" using cbb_rel_levels [OF Nil.prems(1)] Nil.prems(2) by simp
  then have "spec_append lv i [] = lv"
    by (simp add: spec_append_def take_Suc_conv_app_nth [symmetric])
  then show ?case using Nil by simp
next
  case (Cons e es)
  obtain c where c: "CBB_add_bytes cbb i e = (True, c)" "add_elements c i es = (True, cbb')"
    using Cons.prems(3) by (auto simp: cbb_and_def split: prod.splits bool.splits)
  have le: "i \<le> length (cbb_chain cbb)" using Cons.prems(2) by simp
  have "length e < size_mod" using Cons.prems(4) by simp
  note r = appendsD [OF appends_bytes [OF this] Cons.prems(1) le c(1)]
  have i: "i < length lv" using cbb_rel_levels [OF Cons.prems(1)] Cons.prems(2) by simp
  show ?case
    using Cons.IH [OF r(1,3) c(2)] Cons.prems(4) spec_append_append [OF i] by simp
qed

lemma cbb_start_rel:
  assumes "cbb_rel cbb lv" "length (cbb_chain cbb) = i"
  shows "cbb_start cbb i = length (raw (take i lv)) + prefix_room (fst (lv ! i))"
    and "CBB_data cbb i = snd (lv ! i)"
proof -
  note len = cbb_rel_levels [OF assms(1)]
  show s: "cbb_start cbb i = length (raw (take i lv)) + prefix_room (fst (lv ! i))"
  proof (cases i)
    case 0
    then show ?thesis using assms(1) by (auto simp: cbb_start_def cbb_rel_def)
  next
    case (Suc k)
    then show ?thesis
      using cbb_rel_frame(1) [OF assms(1), of k] assms(2) by (simp add: cbb_start_def)
  qed
  have lv: "lv = take i lv @ [(fst (lv ! i), snd (lv ! i))]"
    using len assms(2) by (simp add: take_Suc_conv_app_nth [symmetric])
  have "raw lv = raw (take i lv) @ replicate (prefix_room (fst (lv ! i))) 0 @ snd (lv ! i)"
    by (subst lv) (simp only: raw_append raw_Cons raw_Nil append_Nil2)
  then show "CBB_data cbb i = snd (lv ! i)"
    using cbb_rel_buf [OF assms(1)] by (simp add: CBB_data_def s)
qed

lemma flush_asn1_set_of_rel:
  assumes r: "cbb_rel cbb lv" "i \<le> length (cbb_chain cbb)" and f: "CBB_flush_asn1_set_of cbb i alloc = (True, cbb')"
  shows "\<exists>es. snd (spec_flush lv i ! i) = concat es \<and> split_elements (concat es) = Some es \<and>
    cbb_rel cbb' (take i lv @ [(fst (lv ! i), concat (qsort_elements es))])"
proof -
  have i: "i < length lv" using cbb_rel_levels [OF r(1)] r(2) by simp
  obtain cbb1 where c1: "CBB_flush cbb i = (True, cbb1)"
    using f by (auto simp: CBB_flush_asn1_set_of_def split: prod.splits bool.splits)
  note 1 = CBB_flush_rel [OF r c1]
  define lv1 where "lv1 = spec_flush lv i"
  have lv1: "cbb_rel cbb1 lv1" "length (cbb_chain cbb1) = i" "fst (lv1 ! i) = fst (lv ! i)" "take i lv1 = take i lv"
    "lv1 = take i lv @ [(fst (lv ! i), snd (lv1 ! i))]"
    using 1 i by (simp_all add: lv1_def spec_flush_def nth_append)
  note st = cbb_start_rel [OF lv1(1,2)]
  obtain es where es: "split_elements (snd (lv1 ! i)) = Some es"
    using f c1 st(2) by (auto simp: CBB_flush_asn1_set_of_def split: option.splits)
  then have ces: "snd (lv1 ! i) = concat es" using split_elements_concat by blast
  have "cbb_rel cbb' (take i lv @ [(fst (lv ! i), concat (qsort_elements es))])"
  proof (cases "length es < 2")
    case True
    then have "qsort_elements es = es"
      by (cases es rule: remdups_adj.cases) (auto simp: qsort_elements_def)
    then show ?thesis
      using f c1 st(2) es True lv1(1,5) ces by (simp add: CBB_flush_asn1_set_of_def)
  next
    case False
    define base where "base = (cbb_base cbb1)\<lparr>cb_buf := take (cbb_start cbb1 i) (cb_buf (cbb_base cbb1))\<rparr>"
    have a: "add_elements (cbb1\<lparr>cbb_base := base\<rparr>) i (qsort_elements es) = (True, cbb')"
      using f c1 st(2) es False by (simp add: CBB_flush_asn1_set_of_def base_def split: if_splits)
    have ok: "base_ok (cbb_base cbb1)" using lv1(1) by (simp add: cbb_rel_def)
    have raw1: "cb_buf (cbb_base cbb1) = raw (take i lv) @ replicate (prefix_room (fst (lv ! i))) 0 @ snd (lv1 ! i)"
      using cbb_rel_buf [OF lv1(1)] by (subst (asm) lv1(5)) (simp add: raw_append raw_Cons)
    then have b: "cb_buf base = raw (take i lv1) @ replicate (prefix_room (fst (lv1 ! i))) 0 @ []"
      using st(1) lv1(3,4) by (simp add: base_def)
    have bok: "base_ok base" using ok by (auto simp: base_def base_ok_def)
    have "cbb_rel \<lparr>cbb_base = base, cbb_chain = cbb_chain cbb1\<rparr> (take i lv1 @ [(fst (lv1 ! i), [])])"
      using cbb_rel_upto [OF lv1(1) _ bok b, of "cbb_chain cbb1"] lv1(2) by simp
    then have rel0: "cbb_rel (cbb1\<lparr>cbb_base := base\<rparr>) (take i lv @ [(fst (lv ! i), [])])"
      using lv1(3,4) by (cases cbb1) simp
    have small: "\<forall>e \<in> set (qsort_elements es). length e < size_mod"
    proof
      fix e assume "e \<in> set (qsort_elements es)"
      then have "e \<in> set es" using qsort_elements(2) [of es] by (metis set_mset_mset)
      then have "length e \<le> length (concat es)" by (induction es) auto
      also have "\<dots> \<le> length (cb_buf (cbb_base cbb1))" using raw1 ces by simp
      also have "\<dots> < size_mod" using ok by (simp add: base_ok_def)
      finally show "length e < size_mod" .
    qed
    have ch: "length (cbb_chain (cbb1\<lparr>cbb_base := base\<rparr>)) = i" using lv1(2) by simp
    show ?thesis
      using add_elements_rel [OF rel0 ch a small] i by (simp add: spec_append_def nth_append)
  qed
  then show ?thesis using es ces by (intro exI [of _ es]) (simp add: lv1_def)
qed

end
