(* ===== verification/Cbb_Correct.thy ===== *)
theory Cbb_Correct
  imports Cbb_Values Cbs_Correct
begin

text \<open>
  What the builder of \<open>crypto/bytestring/cbb.c\<close> promises: programs of builder operations refine
  the tree of levels of \<open>Cbb_Laws\<close>, errors are sticky, and what is built is read back by the
  reader of \<open>Cbs\<close>.
\<close>

section \<open>Programs over a builder\<close>

datatype cbb_op =
    Add_bytes nat "byte list" | Add_u8 nat byte | Add_u16 nat u16 | Add_u24 nat u32 | Add_u32 nat u32
  | Add_u64 nat u64 | Add_u16le nat u16 | Add_u32le nat u32 | Add_u64le nat u64
  | Open_u8_prefixed nat | Open_u16_prefixed nat | Open_u24_prefixed nat | Open_asn1 nat u32
  | Add_uint64 nat u64 | Add_int64 nat u64 | Add_octet_string nat "byte list" | Add_bool nat bool
  | Flush nat

fun run_cbb_op :: "cbb_op \<Rightarrow> cbb \<Rightarrow> bool \<times> cbb" where
  "run_cbb_op (Add_bytes i d) s = CBB_add_bytes s i d"
| "run_cbb_op (Add_u8 i v) s = CBB_add_u8 s i v"
| "run_cbb_op (Add_u16 i v) s = CBB_add_u16 s i v"
| "run_cbb_op (Add_u24 i v) s = CBB_add_u24 s i v"
| "run_cbb_op (Add_u32 i v) s = CBB_add_u32 s i v"
| "run_cbb_op (Add_u64 i v) s = CBB_add_u64 s i v"
| "run_cbb_op (Add_u16le i v) s = CBB_add_u16le s i v"
| "run_cbb_op (Add_u32le i v) s = CBB_add_u32le s i v"
| "run_cbb_op (Add_u64le i v) s = CBB_add_u64le s i v"
| "run_cbb_op (Open_u8_prefixed i) s = CBB_add_u8_length_prefixed s i"
| "run_cbb_op (Open_u16_prefixed i) s = CBB_add_u16_length_prefixed s i"
| "run_cbb_op (Open_u24_prefixed i) s = CBB_add_u24_length_prefixed s i"
| "run_cbb_op (Open_asn1 i tag) s = CBB_add_asn1 s i tag"
| "run_cbb_op (Add_uint64 i v) s = CBB_add_asn1_uint64 s i v"
| "run_cbb_op (Add_int64 i v) s = CBB_add_asn1_int64 s i v"
| "run_cbb_op (Add_octet_string i d) s = CBB_add_asn1_octet_string s i d"
| "run_cbb_op (Add_bool i b) s = CBB_add_asn1_bool s i b"
| "run_cbb_op (Flush i) s = CBB_flush s i"

fun run_cbb_ops :: "cbb_op list \<Rightarrow> cbb \<Rightarrow> bool \<times> cbb" where
  "run_cbb_ops [] s = (True, s)"
| "run_cbb_ops (x # xs) s = cbb_and (run_cbb_op x s) (run_cbb_ops xs)"

fun spec_op :: "cbb_op \<Rightarrow> spec \<Rightarrow> spec" where
  "spec_op (Add_bytes i d) lv = spec_append lv i d"
| "spec_op (Add_u8 i v) lv = spec_append lv i [v]"
| "spec_op (Add_u16 i v) lv = spec_append lv i (be_bytes 2 v)"
| "spec_op (Add_u24 i v) lv = spec_append lv i (be_bytes 3 v)"
| "spec_op (Add_u32 i v) lv = spec_append lv i (be_bytes 4 v)"
| "spec_op (Add_u64 i v) lv = spec_append lv i (be_bytes 8 v)"
| "spec_op (Add_u16le i v) lv = spec_append lv i (le_bytes 2 v)"
| "spec_op (Add_u32le i v) lv = spec_append lv i (le_bytes 4 v)"
| "spec_op (Add_u64le i v) lv = spec_append lv i (le_bytes 8 v)"
| "spec_op (Open_u8_prefixed i) lv = spec_append lv i [] @ [(Len_prefix 1, [])]"
| "spec_op (Open_u16_prefixed i) lv = spec_append lv i [] @ [(Len_prefix 2, [])]"
| "spec_op (Open_u24_prefixed i) lv = spec_append lv i [] @ [(Len_prefix 3, [])]"
| "spec_op (Open_asn1 i tag) lv = spec_append lv i (der_tag tag) @ [(Der_prefix, [])]"
| "spec_op (Add_uint64 i v) lv = spec_append lv i (der_element CBS_ASN1_INTEGER (uint_content v))"
| "spec_op (Add_int64 i v) lv = spec_append lv i (der_element CBS_ASN1_INTEGER (int_content v))"
| "spec_op (Add_octet_string i d) lv = spec_append lv i (der_element CBS_ASN1_OCTETSTRING d)"
| "spec_op (Add_bool i b) lv = spec_append lv i (der_element CBS_ASN1_BOOLEAN [if b then 0xff else 0])"
| "spec_op (Flush i) lv = spec_append lv i []"

fun op_level :: "cbb_op \<Rightarrow> nat" where
  "op_level (Add_bytes i d) = i" | "op_level (Add_u8 i v) = i" | "op_level (Add_u16 i v) = i"
| "op_level (Add_u24 i w) = i" | "op_level (Add_u32 i w) = i" | "op_level (Add_u64 i x) = i"
| "op_level (Add_u16le i v) = i" | "op_level (Add_u32le i w) = i" | "op_level (Add_u64le i x) = i"
| "op_level (Open_u8_prefixed i) = i" | "op_level (Open_u16_prefixed i) = i"
| "op_level (Open_u24_prefixed i) = i" | "op_level (Open_asn1 i tag) = i"
| "op_level (Add_uint64 i x) = i" | "op_level (Add_int64 i x) = i"
| "op_level (Add_octet_string i d) = i" | "op_level (Add_bool i b) = i" | "op_level (Flush i) = i"

text \<open>Data comes from memory, so it has a length of type \<open>size_t\<close>.\<close>

fun op_data_ok :: "cbb_op \<Rightarrow> bool" where
  "op_data_ok (Add_bytes i d) \<longleftrightarrow> length d < size_mod"
| "op_data_ok (Add_octet_string i d) \<longleftrightarrow> length d < size_mod"
| "op_data_ok _ \<longleftrightarrow> True"

lemma flush_fails:
  "i > length (cbb_chain s) \<or> cb_error (cbb_base s) \<Longrightarrow> CBB_flush s i = (False, s)"
  by (subst CBB_flush.simps) auto

lemma op_fails:
  assumes "op_level x > length (cbb_chain s) \<or> cb_error (cbb_base s)"
  shows "run_cbb_op x s = (False, s)"
  using assms flush_fails [of s "op_level x"]
  by (cases x)
    (auto simp: CBB_add_bytes_def CBB_add_u8_def CBB_add_u16_def CBB_add_u24_def CBB_add_u32_def CBB_add_u64_def
      CBB_add_u16le_def CBB_add_u32le_def CBB_add_u64le_def flush_then_def
      CBB_add_u8_length_prefixed_def CBB_add_u16_length_prefixed_def CBB_add_u24_length_prefixed_def
      cbb_add_length_prefixed_def CBB_add_asn1_def CBB_add_asn1_uint64_def CBB_add_asn1_int64_def
      CBB_add_asn1_octet_string_def CBB_add_asn1_bool_def Let_def)


lemma op_True_level: "run_cbb_op x s = (True, s') \<Longrightarrow> op_level x \<le> length (cbb_chain s)"
  using op_fails [of s x] by (cases "op_level x > length (cbb_chain s)") auto

lemma u_bytes:
  assumes "cbb_rel cbb lv" "i \<le> length (cbb_chain cbb)" "0 < n" "n \<le> 8" "8 * n \<le> LENGTH('a)" "LENGTH('a) \<le> 64"
    and "flush_then cbb i (\<lambda>base. cbb_buffer_add_u base (ucast (v :: 'a::len word)) n) = (True, cbb')"
  shows "cbb_rel cbb' (spec_append lv i (be_bytes n v)) \<and> same_heap (cbb_base cbb) (cbb_base cbb')"
  using flush_then_u_rel [OF assms(1-4,7)] assms(5,6) by (simp add: be_bytes_ucast)

lemma run_op_rel:
  assumes r: "cbb_rel s lv" and run: "run_cbb_op x s = (True, s')" and d: "op_data_ok x"
  shows "cbb_rel s' (spec_op x lv) \<and> same_heap (cbb_base s) (cbb_base s')"
proof -
  have le: "op_level x \<le> length (cbb_chain s)" using op_True_level [OF run] .
  have ap: "cbb_rel s' (spec_append lv i bs) \<and> same_heap (cbb_base s) (cbb_base s')"
    if "appends f i bs" "f s = (True, s')" "i \<le> length (cbb_chain s)" for f i bs
    using appendsD [OF that(1) r that(3,2)] by simp
  have op: "cbb_rel s' (spec_append lv i t @ [(p, [])]) \<and> same_heap (cbb_base s) (cbb_base s')"
    if "opens f i t p" "f s = (True, s')" "i \<le> length (cbb_chain s)" for f i t p
    using opensD [OF that(1) r that(3,2)] by simp
  show ?thesis
  proof (cases x)
    case (Add_octet_string i bs)
    then show ?thesis using octet_string_rel [OF r _ _ run [unfolded Add_octet_string run_cbb_op.simps]] le d by simp
  next
    case (Add_bytes i bs)
    then show ?thesis using ap [OF appends_bytes] le d run by simp
  next
    case (Open_u8_prefixed i)
    then show ?thesis using op [OF opens_length_prefixed [of 1]] le run by (simp add: CBB_add_u8_length_prefixed_def)
  next
    case (Open_u16_prefixed i)
    then show ?thesis using op [OF opens_length_prefixed [of 2]] le run by (simp add: CBB_add_u16_length_prefixed_def)
  next
    case (Open_u24_prefixed i)
    then show ?thesis using op [OF opens_length_prefixed [of 3]] le run by (simp add: CBB_add_u24_length_prefixed_def)
  next
    case (Add_u16 i v)
    then show ?thesis using u_bytes [OF r, of i 2 v s'] le run by (simp add: CBB_add_u16_def)
  next
    case (Add_u24 i v)
    then show ?thesis using u_bytes [OF r, of i 3 v s'] le run by (simp add: CBB_add_u24_def)
  next
    case (Add_u32 i v)
    then show ?thesis using u_bytes [OF r, of i 4 v s'] le run by (simp add: CBB_add_u32_def)
  next
    case (Add_u64 i v)
    then show ?thesis using u_bytes [OF r, of i 8 v s'] le run by (simp add: CBB_add_u64_def)
  next
    case (Add_u16le i v)
    then show ?thesis using u_bytes [OF r, of i 2 "CRYPTO_bswap2 v" s'] le run
      by (simp add: CBB_add_u16le_def CBB_add_u16_def bswap2_bytes del: le_bytes_numeral)
  next
    case (Add_u32le i v)
    then show ?thesis using u_bytes [OF r, of i 4 "CRYPTO_bswap4 v" s'] le run
      by (simp add: CBB_add_u32le_def CBB_add_u32_def bswap4_bytes del: le_bytes_numeral)
  next
    case (Add_u64le i v)
    then show ?thesis using u_bytes [OF r, of i 8 "CRYPTO_bswap8 v" s'] le run
      by (simp add: CBB_add_u64le_def CBB_add_u64_def bswap8_bytes del: le_bytes_numeral)
  qed (use le run ap [OF appends_u8] ap [OF appends_uint64] ap [OF appends_int64] ap [OF appends_bool] ap [OF appends_flush]
        op [OF opens_asn1] in auto)
qed

lemma run_ops_rel:
  assumes "cbb_rel s lv" "run_cbb_ops ops s = (True, s')" "list_all op_data_ok ops"
  shows "cbb_rel s' (foldl (\<lambda>lv x. spec_op x lv) lv ops) \<and> same_heap (cbb_base s) (cbb_base s')"
  using assms
proof (induction ops arbitrary: s lv)
  case (Cons x ops)
  obtain s1 where s1: "run_cbb_op x s = (True, s1)" "run_cbb_ops ops s1 = (True, s')"
    using Cons.prems(2) by (auto simp: cbb_and_def split: prod.splits bool.splits)
  have d: "op_data_ok x" using Cons.prems(3) by simp
  note r = run_op_rel [OF Cons.prems(1) s1(1) d]
  show ?case using Cons.IH [of s1 "spec_op x lv"] r s1(2) Cons.prems(3) same_heap_trans by auto
qed simp

lemma cbb_init_rel: "cap < size_mod \<Longrightarrow> cbb_rel (cbb_init cap rs alloc) [(Len_prefix 0, [])]"
  by (simp add: cbb_init_def cbb_rel_def base_ok_def raw_def)

lemma eval_2: "store_be buf pos 2 v = store_be buf pos (Suc (Suc 0)) v" "replicate 2 x = [x, x]"
  by (simp_all add: numeral_2_eq_2)

lemmas cbb_eval = cbb_and_def flush_then_def CBB_flush.simps CBB_init_fixed_def CBB_init_def cbb_init_def
  cbb_buffer_add_u_def cbb_buffer_add_def cbb_buffer_reserve_def CBB_finish_def CBB_add_u8_def
  CBB_add_u8_length_prefixed_def cbb_add_length_prefixed_def CBB_add_u16_def CBB_data_def cbb_start_def
  write_prefix_def store_length_def Let_def eval_2




section \<open>Errors\<close>

text \<open>An operation that fails at a level that is open leaves the error flag set.\<close>

definition fails_hard :: "(cbb \<Rightarrow> bool \<times> cbb) \<Rightarrow> nat \<Rightarrow> bool" where
  "fails_hard f i \<longleftrightarrow> (\<forall>s s'. f s = (False, s') \<longrightarrow> i \<le> length (cbb_chain s) \<longrightarrow> cb_error (cbb_base s'))"

definition keeps_open :: "(cbb \<Rightarrow> bool \<times> cbb) \<Rightarrow> nat \<Rightarrow> nat \<Rightarrow> bool" where
  "keeps_open f i j \<longleftrightarrow> (\<forall>s s'. f s = (True, s') \<longrightarrow> i \<le> length (cbb_chain s) \<longrightarrow> j \<le> length (cbb_chain s'))"

lemma reserve_fails: "cbb_buffer_reserve b n = (False, b') \<Longrightarrow> cb_error b'"
  by (auto simp: cbb_buffer_reserve_def Let_def split: if_splits)

lemma add_fails: "cbb_buffer_add b n = (False, b') \<Longrightarrow> cb_error b'"
  by (auto simp: cbb_buffer_add_def dest: reserve_fails split: prod.splits bool.splits)

lemma add_u_fails: "cbb_buffer_add_u b v n = (False, b') \<Longrightarrow> cb_error b'"
  by (auto simp: cbb_buffer_add_u_def Let_def dest: add_fails split: prod.splits bool.splits if_splits)

lemma write_prefix_fails: "write_prefix b fr = (False, b') \<Longrightarrow> cb_error b'"
  by (auto simp: write_prefix_def write_asn1_length_def store_length_def base_err_def Let_def
    split: if_splits prod.splits bool.splits)

lemma flush_hard: "fails_hard (\<lambda>s. CBB_flush s i) i"
proof -
  have "CBB_flush s i = (False, s') \<Longrightarrow> i \<le> length (cbb_chain s) \<Longrightarrow> cb_error (cbb_base s')" for s s'
    by (subst (asm) CBB_flush.simps)
      (auto simp: Let_def dest: write_prefix_fails split: if_splits prod.splits bool.splits)
  then show ?thesis by (simp add: fails_hard_def)
qed

lemma flush_open: "keeps_open (\<lambda>s. CBB_flush s i) i i"
proof -
  have "CBB_flush s i = (True, s') \<Longrightarrow> i \<le> length (cbb_chain s')" for s s'
  proof (induction s i arbitrary: s' rule: CBB_flush.induct)
    case (1 s i)
    have IH: "CBB_flush s (Suc i) = (True, c) \<Longrightarrow> i < length (cbb_chain s) \<Longrightarrow> \<not> cb_error (cbb_base s) \<Longrightarrow>
        fr_pending_len_len (cbb_chain s ! i) \<noteq> 0 \<Longrightarrow> Suc i \<le> length (cbb_chain c)" for c
      using "1.IH" [OF _ _ refl, of c] by (simp add: not_less)
    show ?case
      using "1.prems" IH
      by (subst (asm) CBB_flush.simps) (fastforce simp: Let_def not_less split: if_splits prod.splits bool.splits)
  qed
  then show ?thesis by (simp add: keeps_open_def)
qed

lemma then_do_hard:
  assumes "fails_hard f i" "keeps_open f i j" "fails_hard g j"
  shows "fails_hard (then_do f g) i"
  using assms unfolding fails_hard_def keeps_open_def then_do_def
  by (auto split: prod.splits bool.splits)

lemma then_do_open:
  assumes "keeps_open f i j" "keeps_open g j k"
  shows "keeps_open (then_do f g) i k"
  using assms unfolding keeps_open_def by (metis then_do_True)

lemma flush_then_hard:
  assumes "\<And>b b'. f b = (False, b') \<Longrightarrow> cb_error b'"
  shows "fails_hard (\<lambda>s. flush_then s i f) i"
  using flush_hard assms unfolding fails_hard_def flush_then_def by (fastforce split: prod.splits bool.splits)

lemma flush_then_open: "keeps_open (\<lambda>s. flush_then s i f) i i"
  using flush_open unfolding keeps_open_def flush_then_def by (fastforce split: prod.splits bool.splits)

lemma u8_hard: "fails_hard (\<lambda>s. CBB_add_u8 s i v) i" "keeps_open (\<lambda>s. CBB_add_u8 s i v) i i"
  unfolding CBB_add_u8_def by (rule flush_then_hard flush_then_open add_u_fails, (assumption)?)+

lemma u8s_hard: "fails_hard (\<lambda>s. add_u8s s i bs) i" "keeps_open (\<lambda>s. add_u8s s i bs) i i"
proof (induction bs)
  case (Cons b bs)
  have eq: "(\<lambda>s. add_u8s s i (b # bs)) = then_do (\<lambda>s. CBB_add_u8 s i b) (\<lambda>s. add_u8s s i bs)"
    by (rule ext) simp
  { case 1 show ?case unfolding eq using then_do_hard [OF u8_hard Cons(1)] . }
  { case 2 show ?case unfolding eq using then_do_open [OF u8_hard(2) Cons(2)] . }
qed (simp_all add: fails_hard_def keeps_open_def)


lemma base128_hard: "fails_hard (\<lambda>s. add_base128_integer s i v) i" "keeps_open (\<lambda>s. add_base128_integer s i v) i i"
proof -
  have "add_base128_loop s i v k = add_u8s s i (b128_loop v k)" for s k
    by (induction k arbitrary: s) (auto simp: then_do_def b128_byte_def Let_def split: prod.split bool.split)
  then show "fails_hard (\<lambda>s. add_base128_integer s i v) i" "keeps_open (\<lambda>s. add_base128_integer s i v) i i"
    by (simp_all only: add_base128_integer_def Let_def u8s_hard)
qed

lemma open_child_hard:
  assumes "fails_hard f i" "keeps_open f i i" "fails_hard h i" "keeps_open h i i"
  shows "fails_hard (open_child f h i p) i" "keeps_open (open_child f h i p) i (Suc i)"
  using assms unfolding fails_hard_def keeps_open_def open_child_def
  by (auto split: prod.splits bool.splits)

lemma asn1_hard: "fails_hard (\<lambda>s. CBB_add_asn1 s i tag) i" "keeps_open (\<lambda>s. CBB_add_asn1 s i tag) i (Suc i)"
proof -
  have h: "fails_hard (asn1_header i tag) i" "keeps_open (asn1_header i tag) i i"
    using then_do_hard [OF u8_hard base128_hard(1)] then_do_open [OF u8_hard(2) base128_hard(2)] u8_hard
    by (auto simp: asn1_header_def Let_def)
  note hf = then_do_hard [OF flush_hard flush_open h(1)] then_do_open [OF flush_open h(2)]
  show "fails_hard (\<lambda>s. CBB_add_asn1 s i tag) i" "keeps_open (\<lambda>s. CBB_add_asn1 s i tag) i (Suc i)"
    using open_child_hard [OF hf u8_hard] by (simp_all add: CBB_add_asn1_eq)
qed

lemma length_prefixed_hard: "fails_hard (\<lambda>s. cbb_add_length_prefixed s i n) i"
  unfolding fails_hard_def
proof (intro allI impI)
  fix s s' assume a: "cbb_add_length_prefixed s i n = (False, s')" and len: "i \<le> length (cbb_chain s)"
  obtain ok s1 where f: "CBB_flush s i = (ok, s1)" by (cases "CBB_flush s i")
  show "cb_error (cbb_base s')"
  proof (cases ok)
    case False
    then show ?thesis using a f flush_hard len by (auto simp: cbb_add_length_prefixed_def fails_hard_def)
  next
    case True
    then show ?thesis using a f
      by (auto simp: cbb_add_length_prefixed_def Let_def dest: add_fails split: prod.splits bool.splits)
  qed
qed

lemma bytes_hard: "fails_hard (\<lambda>s. CBB_add_bytes s i d) i"
  unfolding CBB_add_bytes_def
  by (rule flush_then_hard) (auto dest: add_fails split: prod.splits bool.splits)

lemma child_hard:
  assumes "fails_hard g (Suc i)" "keeps_open g (Suc i) i"
  shows "fails_hard (then_do (then_do (\<lambda>s. CBB_add_asn1 s i tag) g) (\<lambda>s. CBB_flush s i)) i"
  by (rule then_do_hard [OF then_do_hard [OF asn1_hard assms(1)] then_do_open [OF asn1_hard(2) assms(2)] flush_hard])

lemma open_less: "keeps_open f i (Suc j) \<Longrightarrow> keeps_open f i j"
  unfolding keeps_open_def using Suc_leD by blast

lemma run_cbb_op_fun:
  "run_cbb_op (Add_bytes i d) = (\<lambda>s. CBB_add_bytes s i d)"
  "run_cbb_op (Add_u8 i v2) = (\<lambda>s. CBB_add_u8 s i v2)"
  "run_cbb_op (Add_u16 i v3) = (\<lambda>s. CBB_add_u16 s i v3)"
  "run_cbb_op (Add_u24 i v4) = (\<lambda>s. CBB_add_u24 s i v4)"
  "run_cbb_op (Add_u32 i v5) = (\<lambda>s. CBB_add_u32 s i v5)"
  "run_cbb_op (Add_u64 i v6) = (\<lambda>s. CBB_add_u64 s i v6)"
  "run_cbb_op (Add_u16le i v7) = (\<lambda>s. CBB_add_u16le s i v7)"
  "run_cbb_op (Add_u32le i v8) = (\<lambda>s. CBB_add_u32le s i v8)"
  "run_cbb_op (Add_u64le i v9) = (\<lambda>s. CBB_add_u64le s i v9)"
  "run_cbb_op (Open_u8_prefixed i) = (\<lambda>s. CBB_add_u8_length_prefixed s i)"
  "run_cbb_op (Open_u16_prefixed i) = (\<lambda>s. CBB_add_u16_length_prefixed s i)"
  "run_cbb_op (Open_u24_prefixed i) = (\<lambda>s. CBB_add_u24_length_prefixed s i)"
  "run_cbb_op (Open_asn1 i tag) = (\<lambda>s. CBB_add_asn1 s i tag)"
  "run_cbb_op (Add_uint64 i v14) = (\<lambda>s. CBB_add_asn1_uint64 s i v14)"
  "run_cbb_op (Add_int64 i v15) = (\<lambda>s. CBB_add_asn1_int64 s i v15)"
  "run_cbb_op (Add_octet_string i d) = (\<lambda>s. CBB_add_asn1_octet_string s i d)"
  "run_cbb_op (Add_bool i b17) = (\<lambda>s. CBB_add_asn1_bool s i b17)"
  "run_cbb_op (Flush i) = (\<lambda>s. CBB_flush s i)"
  by (simp_all add: fun_eq_iff)

lemma op_hard: "fails_hard (run_cbb_op x) (op_level x)"
proof -
  have u: "fails_hard (\<lambda>s. flush_then s i (\<lambda>b. cbb_buffer_add_u b v n)) i" for i v n
    by (rule flush_then_hard) (rule add_u_fails)
  have i64: "fails_hard (\<lambda>s. CBB_add_asn1_int64 s i v) i" for i v
  proof (cases "0 \<le> sint v")
    case False
    then show ?thesis
      using child_hard [OF u8s_hard(1) open_less [OF u8s_hard(2)]] by (simp add: CBB_add_asn1_int64_eq)
  next
    case True
    then show ?thesis
      using child_hard [OF u8s_hard(1) open_less [OF u8s_hard(2)]]
      by (simp add: CBB_add_asn1_int64_def CBB_add_asn1_uint64_eq)
  qed
  have bopen: "keeps_open (\<lambda>s. CBB_add_bytes s (Suc i) d) (Suc i) i" for i d
    unfolding CBB_add_bytes_def by (rule open_less [OF flush_then_open])
  show ?thesis
  proof (cases x)
    case (Add_int64 i v)
    then show ?thesis using i64 by (simp add: run_cbb_op_fun)
  next
    case (Add_uint64 i v)
    then show ?thesis using Add_uint64 child_hard [OF u8s_hard(1) open_less [OF u8s_hard(2)]] by (simp add: run_cbb_op_fun CBB_add_asn1_uint64_eq)
  next
    case (Add_octet_string i v)
    then show ?thesis using Add_octet_string child_hard [OF bytes_hard bopen] by (simp add: run_cbb_op_fun CBB_add_asn1_octet_string_eq)
  next
    case (Add_bool i v)
    then show ?thesis using Add_bool child_hard [OF u8_hard(1) open_less [OF u8_hard(2)]] by (simp add: run_cbb_op_fun CBB_add_asn1_bool_eq)
  qed (use u u8_hard bytes_hard asn1_hard length_prefixed_hard flush_hard in
      \<open>simp_all add: run_cbb_op_fun CBB_add_u16_def CBB_add_u24_def CBB_add_u32_def CBB_add_u64_def
        CBB_add_u16le_def CBB_add_u32le_def CBB_add_u64le_def
        CBB_add_u8_length_prefixed_def CBB_add_u16_length_prefixed_def CBB_add_u24_length_prefixed_def\<close>)
qed



section \<open>Round trips\<close>

lemma CBB_finish_succeeds:
  assumes "cbb_rel cbb lv" "growable cbb lv 0 0"
  shows "CBB_finish cbb 0 = Some (collapse lv)"
proof -
  have "fst (CBB_flush cbb 0)" by (rule CBB_flush_succeeds [OF assms(1) _ assms(2)]) simp
  then obtain c where "CBB_flush cbb 0 = (True, c)" by (cases "CBB_flush cbb 0") auto
  then have fin: "CBB_finish cbb 0 = Some (cb_buf (cbb_base c))" by (simp add: CBB_finish_def)
  show ?thesis unfolding fin using CBB_finish_rel [OF assms(1) fin] by (rule arg_cong)
qed

text \<open>What an appending operation builds when memory can be had.\<close>

lemma appends_builds:
  assumes ap: "appends f 0 bs" and init: "CBB_init cap alloc = Some cbb" "cap < size_mod" "\<forall>n. alloc n"
    and len: "length bs + 5 < size_mod"
  obtains c where "f cbb = (True, c)" "CBB_finish c 0 = Some bs"
proof -
  note r = CBB_init_rel [OF init(1,2)]
  have "can_grow (cbb_base cbb)"
    using init(1,3) by (auto simp: CBB_init_def cbb_init_def can_grow_def split: if_splits)
  then have g: "growable cbb [(Len_prefix 0, [])] 0 (length bs + 5)"
    using len by (simp add: growable_def raw_def)
  have rel: "cbb_rel cbb [(Len_prefix 0, [])]" "0 \<le> length (cbb_chain cbb)" using r by simp_all
  from appends_succeeds [OF ap rel g] obtain c where c: "f cbb = (True, c)" .
  note r2 = appendsD [OF ap rel c]
  have "growable c (spec_append [(Len_prefix 0, [])] 0 bs) 0 5"
    using growable_append [OF g _ r2(2)] by simp
  then have "growable c (spec_append [(Len_prefix 0, [])] 0 bs) 0 0" by (simp add: growable_def)
  note fin = CBB_finish_succeeds [OF r2(1) this]
  have "collapse (spec_append [(Len_prefix 0, [])] 0 bs) = bs"
    by (simp add: spec_append_def spec_flush_def be_bytes_def)
  with fin have "CBB_finish c 0 = Some bs" by simp
  with c show thesis by (rule that)
qed


text \<open>
  What \<open>CBB_add_asn1_uint64\<close>, \<open>_int64\<close>, \<open>_bool\<close> and \<open>_octet_string\<close> write into a growing builder
  is read back by the matching \<open>CBS_get_asn1\<close> function, for every value, and they do not fail while
  memory lasts.
\<close>

theorem CBB_der_roundtrip:
  assumes "CBB_init cap alloc = Some cbb" "cap < size_mod" "\<forall>n. alloc n" "length d \<le> 0xfffffffe"
  shows "(\<exists>c der. CBB_add_asn1_uint64 cbb 0 v = (True, c) \<and> CBB_finish c 0 = Some der \<and>
      CBS_get_asn1_uint64 (der @ rest) = (Some v, rest)) \<and>
    (\<exists>c der. CBB_add_asn1_int64 cbb 0 v = (True, c) \<and> CBB_finish c 0 = Some der \<and>
      CBS_get_asn1_int64 (der @ rest) = (Some v, rest)) \<and>
    (\<exists>c der. CBB_add_asn1_bool cbb 0 b = (True, c) \<and> CBB_finish c 0 = Some der \<and>
      CBS_get_asn1_bool (der @ rest) = (Some b, rest)) \<and>
    (\<exists>c der. CBB_add_asn1_octet_string cbb 0 d = (True, c) \<and> CBB_finish c 0 = Some der \<and>
      CBS_get_asn1 (der @ rest) CBS_ASN1_OCTETSTRING = (Some d, rest))"
proof (intro conjI)
  note build = appends_builds [OF _ assms(1-3)]
  have short: "length (der_element t c) + 5 < size_mod" if "length c < 2 ^ 32" for t c
    using that length_der_tag(2) [of t] length_der_len(2) [of "length c"] by (simp add: der_element_def)
  have "length (uint_content v) < 2 ^ 32" using uint_content_facts(6) [of v] by simp
  from build [OF appends_uint64 short [OF this]] cbs_uint64.dec_enc [of v rest]
  show "\<exists>c der. CBB_add_asn1_uint64 cbb 0 v = (True, c) \<and> CBB_finish c 0 = Some der \<and>
      CBS_get_asn1_uint64 (der @ rest) = (Some v, rest)" by (metis run_cbs_eq)
  have "length (int_content v) < 2 ^ 32" using length_int_content(2) [of v] by simp
  from build [OF appends_int64 short [OF this]] cbs_int64.dec_enc [of v rest]
  show "\<exists>c der. CBB_add_asn1_int64 cbb 0 v = (True, c) \<and> CBB_finish c 0 = Some der \<and>
      CBS_get_asn1_int64 (der @ rest) = (Some v, rest)" by (metis run_cbs_eq)
  have "length [if b then 0xff else 0 :: byte] < 2 ^ 32" by simp
  from build [OF appends_bool short [OF this]] cbs_bool.dec_enc [of b rest]
  show "\<exists>c der. CBB_add_asn1_bool cbb 0 b = (True, c) \<and> CBB_finish c 0 = Some der \<and>
      CBS_get_asn1_bool (der @ rest) = (Some b, rest)" by (metis run_cbs_eq)
  have d: "length d < 2 ^ 32" using assms(4) by simp
  from build [OF appends_octet_string [OF assms(4)] short [OF d]] CBS_get_asn1_enc [OF d, of CBS_ASN1_OCTETSTRING rest]
  show "\<exists>c der. CBB_add_asn1_octet_string cbb 0 d = (True, c) \<and> CBB_finish c 0 = Some der \<and>
      CBS_get_asn1 (der @ rest) CBS_ASN1_OCTETSTRING = (Some d, rest)" by metis
qed

theorem CBB_der_roundtrip_witness:
  "\<exists>cbb c der. CBB_init 0 (\<lambda>n. True) = Some cbb \<and> CBB_add_asn1_int64 cbb 0 (- 129) = (True, c) \<and>
    CBB_finish c 0 = Some der \<and> CBS_get_asn1_int64 (der @ [7]) = (Some (- 129), [7])"
proof -
  obtain cbb where cbb: "CBB_init 0 (\<lambda>n. True) = Some cbb" by (auto simp: CBB_init_def)
  show ?thesis using CBB_der_roundtrip [OF cbb, of "[]" "- 129" "[7]"] cbb by auto
qed

text \<open>
  C31. The text that \<open>CBS_asn1_oid_to_text\<close> gives for the contents of an OBJECT IDENTIFIER is turned
  back into exactly these contents by \<open>CBB_add_asn1_oid_from_text\<close>.
\<close>

theorem CBB_oid_text_roundtrip:
  assumes "CBS_asn1_oid_to_text cbs alloc = Some s" "length cbs < 2 ^ 32"
    and "CBB_init cap alloc' = Some cbb" "cap < size_mod" "\<forall>n. alloc' n"
  shows "\<exists>c. CBB_add_asn1_oid_from_text cbb 0 (butlast s) = (True, c) \<and> CBB_finish c 0 = Some cbs"
proof -
  obtain v vs where cbs: "cbs = b128 v @ concat (map b128 vs)"
    and str: "s = comps_text (fst (oid_split v) # snd (oid_split v) # vs) @ [0]"
    using oid_to_text_sound [OF assms(1)] by blast
  have "length (b128 v @ concat (map b128 vs)) + 5 < size_mod" using assms(2) by (simp add: cbs)
  from appends_builds [OF appends_oid_from_text [OF oid_first_split] assms(3-5) this]
  show ?thesis unfolding cbs str butlast_snoc by metis
qed

theorem CBB_oid_text_roundtrip_witness:
  "\<exists>cbb c. CBB_init 0 (\<lambda>n. True) = Some cbb \<and>
    CBB_add_asn1_oid_from_text cbb 0 [0x31, 0x2e, 0x32] = (True, c) \<and> CBB_finish c 0 = Some [0x2a]"
proof -
  obtain cbb where cbb: "CBB_init 0 (\<lambda>n. True) = Some cbb" by (auto simp: CBB_init_def)
  have "CBS_asn1_oid_to_text [0x2a] (\<lambda>n. True) = Some [0x31, 0x2e, 0x32, 0]"
    by (simp add: CBS_asn1_oid_to_text_def cbb_eval oid_text_loop.simps parse_base128_integer_def
       CBS_get_u8_def cbs_get_def add_decimal_def dec_digits.simps CBB_add_bytes_def)
  from CBB_oid_text_roundtrip [OF this _ cbb] cbb show ?thesis by simp
qed

lemma appends_uints:
  "appends (run_cbb_ops (map (Add_uint64 i) vs @ [Flush i])) i
     (concat (map (\<lambda>v. der_element CBS_ASN1_INTEGER (uint_content v)) vs))"
proof (induction vs)
  case Nil
  have "run_cbb_ops [Flush i] = (\<lambda>s. CBB_flush s i)"
    by (rule ext) (simp add: cbb_and_def split: prod.split bool.split)
  then show ?case using appends_flush by simp
next
  case (Cons v vs)
  have "run_cbb_ops (map (Add_uint64 i) (v # vs) @ [Flush i]) =
    then_do (\<lambda>s. CBB_add_asn1_uint64 s i v) (run_cbb_ops (map (Add_uint64 i) vs @ [Flush i]))"
    by (rule ext) (simp add: cbb_and_def then_do_def)
  then show ?case using appends_seq [OF appends_uint64 Cons] by simp
qed

lemma length_uints:
  "length (concat (map (\<lambda>v. der_element CBS_ASN1_INTEGER (uint_content v)) vs)) \<le> 25 * length vs"
proof (induction vs)
  case (Cons v vs)
  have "length (der_element CBS_ASN1_INTEGER (uint_content v)) \<le> 25"
    using uint_content_facts(6) [of v] length_der_tag(2) [of CBS_ASN1_INTEGER]
      length_der_len(2) [of "length (uint_content v)"] by (simp add: der_element_def)
  with Cons show ?case by simp
qed simp

text \<open>
  C18. An element built with a child builder around a list of integers is parsed back: the outer
  element is read whole, with the exact length, and its contents decode to the same list.
\<close>

theorem CBB_sequence_roundtrip:
  assumes "CBB_init cap alloc = Some cbb" "cap < size_mod" "\<forall>n. alloc n" "length vs < 2 ^ 27"
  shows "\<exists>c der contents.
    run_cbb_ops (Open_asn1 0 tag # map (Add_uint64 1) vs @ [Flush 1, Flush 0]) cbb = (True, c) \<and>
    CBB_finish c 0 = Some der \<and>
    CBS_get_asn1 der tag = (Some contents, []) \<and>
    decode_many (run_cbs CBS_get_asn1_uint64) (length vs) contents = Some (vs, [])"
proof -
  define contents where "contents = concat (map (\<lambda>v. der_element CBS_ASN1_INTEGER (uint_content v)) vs)"
  have len: "length contents \<le> 0xfffffffe" "length contents < 2 ^ 32"
    using length_uints [of vs] assms(4) by (simp_all add: contents_def)
  have ap: "appends (run_cbb_ops (map (Add_uint64 (Suc 0)) vs @ [Flush (Suc 0)])) (Suc 0) contents"
    unfolding contents_def by (rule appends_uints)
  define f where "f = then_do (then_do (\<lambda>s. CBB_add_asn1 s 0 tag)
    (run_cbb_ops (map (Add_uint64 (Suc 0)) vs @ [Flush (Suc 0)]))) (\<lambda>s. CBB_flush s 0)"
  have "appends f 0 (der_element tag contents)"
    using appends_child [OF opens_asn1 ap] len(1) by (simp add: f_def der_element_def)
  moreover have "length (der_element tag contents) + 5 < size_mod"
    using len length_der_tag(2) [of tag] length_der_len(2) [of "length contents"]
    by (simp add: der_element_def)
  ultimately obtain c where c: "f cbb = (True, c)" "CBB_finish c 0 = Some (der_element tag contents)"
    using appends_builds [OF _ assms(1-3)] by metis
  have snoc: "run_cbb_ops (xs @ ys) s = cbb_and (run_cbb_ops xs s) (run_cbb_ops ys)" for xs ys s
    by (induction xs arbitrary: s) (auto simp: cbb_and_def split: prod.splits bool.splits)
  have "run_cbb_ops (Open_asn1 0 tag # (map (Add_uint64 1) vs @ [Flush 1]) @ [Flush 0]) cbb = f cbb"
    unfolding f_def run_cbb_ops.simps(2) snoc
    by (simp add: cbb_and_def then_do_def split: prod.split bool.split)
  then have "run_cbb_ops (Open_asn1 0 tag # map (Add_uint64 1) vs @ [Flush 1, Flush 0]) cbb = (True, c)"
    using c(1) by simp
  moreover have "CBS_get_asn1 (der_element tag contents) tag = (Some contents, [])"
    using CBS_get_asn1_enc [OF len(2), of tag "[]"] by simp
  moreover have "decode_many (run_cbs CBS_get_asn1_uint64) (length vs) contents = Some (vs, [])"
    using cbs_uint64.decode_many_enc [of vs "[]"] by (simp add: contents_def list_all_iff)
  ultimately show ?thesis using c(2) by blast
qed

theorem CBB_sequence_roundtrip_witness:
  "\<exists>cbb c der contents. CBB_init 0 (\<lambda>n. True) = Some cbb \<and>
    run_cbb_ops [Open_asn1 0 0x20000010, Add_uint64 1 5, Add_uint64 1 300, Flush 1, Flush 0] cbb = (True, c) \<and>
    CBB_finish c 0 = Some der \<and> CBS_get_asn1 der 0x20000010 = (Some contents, []) \<and>
    decode_many (run_cbs CBS_get_asn1_uint64) 2 contents = Some ([5, 300], [])"
proof -
  obtain cbb where cbb: "CBB_init 0 (\<lambda>n. True) = Some cbb" by (auto simp: CBB_init_def)
  have len: "length [5, 300 :: u64] < 2 ^ 27" "length [5, 300 :: u64] = 2" by simp_all
  have "0 < size_mod" "\<forall>n :: nat. True" by simp_all
  from CBB_sequence_roundtrip [OF cbb this len(1), where tag = "0x20000010"] cbb
  show ?thesis unfolding len(2) list.map append.simps by blast
qed

text \<open>
  C32. \<open>CBB_flush_asn1_set_of\<close> sorts: whatever program built the level, the elements it holds
  afterwards are a permutation of the elements it held, in lexicographic order.
\<close>

theorem CBB_set_of_sorted:
  assumes "run_cbb_ops ops (cbb_init cap can_resize alloc) = (True, s)" "cap < size_mod" "list_all op_data_ok ops"
    and "i \<le> length (cbb_chain s)" "CBB_flush s i = (True, s1)" "CBB_flush_asn1_set_of s i alloc' = (True, s2)"
  shows "\<exists>es es'. CBB_data s1 i = concat es \<and> split_elements (CBB_data s1 i) = Some es \<and>
    CBB_data s2 i = concat es' \<and> mset es' = mset es \<and>
    sorted_wrt (\<lambda>a b. a = b \<or> (a, b) \<in> lexord {(x, y). x < y}) es'"
proof -
  define lv where "lv = foldl (\<lambda>lv x. spec_op x lv) [(Len_prefix 0, [])] ops"
  have r: "cbb_rel s lv" using run_ops_rel [OF cbb_init_rel [OF assms(2)] assms(1,3)] by (simp add: lv_def)
  have i: "i < length lv" using cbb_rel_levels [OF r] assms(4) by simp
  note f = CBB_flush_rel [OF r assms(4,5)]
  have d1: "CBB_data s1 i = snd (spec_flush lv i ! i)" using cbb_start_rel(2) f by blast
  obtain es where es: "snd (spec_flush lv i ! i) = concat es" "split_elements (concat es) = Some es"
    and r2: "cbb_rel s2 (take i lv @ [(fst (lv ! i), concat (qsort_elements es))])"
    using flush_asn1_set_of_rel [OF r assms(4,6)] by blast
  have "length (cbb_chain s2) = i" using cbb_rel_levels [OF r2] i by simp
  note d2 = cbb_start_rel(2) [OF r2 this]
  have "CBB_data s2 i = concat (qsort_elements es)" using d2 i by (simp add: nth_append)
  moreover have "sorted_wrt (\<lambda>a b. a = b \<or> (a, b) \<in> lexord {(x, y). x < y}) (qsort_elements es)"
    using qsort_elements(1) [of es] unfolding element_le_lexord [abs_def] .
  moreover have "CBB_data s1 i = concat es" "split_elements (CBB_data s1 i) = Some es"
    unfolding d1 es(1) by (rule refl, rule es(2))
  ultimately show ?thesis using qsort_elements(2) [of es] by blast
qed


theorem CBB_set_of_sorted_witness:
  "\<exists>s s1 s2 es es'. run_cbb_ops [Add_bytes 0 [2, 1, 9], Add_bytes 0 [2, 1, 3]] (cbb_init 9 False (\<lambda>n. False)) = (True, s) \<and>
    CBB_flush s 0 = (True, s1) \<and> CBB_flush_asn1_set_of s 0 True = (True, s2) \<and>
    CBB_data s1 0 = concat es \<and> CBB_data s2 0 = concat es' \<and> mset es' = mset es"
proof -
  let ?ops = "[Add_bytes 0 [2, 1, 9], Add_bytes 0 [2, 1, 3]]"
  have "fst (run_cbb_ops ?ops (cbb_init 9 False (\<lambda>n. False)))"
    by (simp add: cbb_eval CBB_add_bytes_def)
  then obtain s where s: "run_cbb_ops ?ops (cbb_init 9 False (\<lambda>n. False)) = (True, s)" by (metis prod.collapse)
  then have eq: "cbb_chain s = []" "cbb_base s = cbb_base (cbb_init 9 False (\<lambda>n. False)) \<lparr>cb_buf := [2, 1, 9, 2, 1, 3]\<rparr>"
    by (auto simp add: cbb_eval CBB_add_bytes_def)
  have f: "CBB_flush s 0 = (True, s)" using eq by (simp add: cbb_eval)
  have "split_elements [2, 1, 9, 2, 1, 3] = Some [[2, 1, 9], [2, 1, 3]]"
  proof -
    have e: "CBS_get_any_asn1_element ([2, 1, b] @ rest) = (Some ([2, 1, b], 2, 2), rest)" for b rest
      using der_any_element_enc [of "[b]" 2 rest False]
      by (simp add: CBS_get_any_asn1_element_def der_element_def der_tag_def der_len_def)
    show ?thesis using e [of 9 "[2, 1, 3]"] e [of 3 "[]"] by (simp add: split_elements.simps)
  qed
  then have "fst (CBB_flush_asn1_set_of s 0 True)"
    using f eq by (simp add: CBB_flush_asn1_set_of_def cbb_eval CBB_add_bytes_def qsort_elements_def)
  then obtain s2 where s2: "CBB_flush_asn1_set_of s 0 True = (True, s2)" by (metis prod.collapse)
  from CBB_set_of_sorted [OF s _ _ _ f s2] s f s2 eq show ?thesis by simp blast
qed

end
