(* ===== verification/Stack.thy ===== *)
theory Stack
  imports Prelude "HOL-Library.Multiset"
begin

text \<open>
  Model of \<open>crypto/stack/stack.c\<close>, the array of pointers that grows, sorts and searches. A pointer
  is an option, NULL is \<open>None\<close>; the slots between \<open>num\<close> and \<open>num_alloc\<close> carry no values. Memory is
  the predicate \<open>alloc\<close>, true of the sizes for which an allocation succeeds; functions that write
  \<open>*out_index\<close> and return a flag return the index as an option. \<open>qsort\<close> of the C library is
  modelled as insertion sort: the properties use only that the result is a sorted permutation and
  that a sorted array does not change. \<open>order_contract\<close> is what sorting and the binary search require
  of a comparison function.
\<close>

definition kMinSize :: nat where "kMinSize = 4"

record 'a stack =
  sk_data :: "'a option list"
  sk_sorted :: bool
  sk_num_alloc :: nat
  sk_comp :: "('a option \<Rightarrow> 'a option \<Rightarrow> int) option"

definition sk_new :: "('a option \<Rightarrow> 'a option \<Rightarrow> int) option \<Rightarrow> (nat \<Rightarrow> bool) \<Rightarrow> 'a stack option" where
  "sk_new cmp alloc =
     (if \<not> alloc 40 then None
      else if \<not> alloc (8 * kMinSize) then None
      else Some \<lparr>sk_data = [], sk_sorted = False, sk_num_alloc = kMinSize, sk_comp = cmp\<rparr>)"

definition sk_new_null :: "(nat \<Rightarrow> bool) \<Rightarrow> 'a stack option" where
  "sk_new_null alloc = sk_new None alloc"

definition sk_num :: "'a stack option \<Rightarrow> nat" where
  "sk_num sk = (case sk of None \<Rightarrow> 0 | Some s \<Rightarrow> length (sk_data s))"

definition sk_zero :: "'a stack option \<Rightarrow> 'a stack option" where
  "sk_zero sk =
     (case sk of
        None \<Rightarrow> None
      | Some s \<Rightarrow> (if length (sk_data s) = 0 then Some s else Some (s\<lparr>sk_data := [], sk_sorted := False\<rparr>)))"

definition sk_value :: "'a stack option \<Rightarrow> nat \<Rightarrow> 'a option" where
  "sk_value sk i = (case sk of None \<Rightarrow> None | Some s \<Rightarrow> (if i \<ge> length (sk_data s) then None else sk_data s ! i))"

definition sk_set :: "'a stack option \<Rightarrow> nat \<Rightarrow> 'a option \<Rightarrow> 'a option \<times> 'a stack option" where
  "sk_set sk i v =
     (case sk of
        None \<Rightarrow> (None, None)
      | Some s \<Rightarrow> (if i \<ge> length (sk_data s) then (None, Some s) else (v, Some (s\<lparr>sk_data := (sk_data s)[i := v]\<rparr>))))"

text \<open>The elements that are freed, in order.\<close>

definition sk_pop_free_ex :: "'a stack option \<Rightarrow> 'a list" where
  "sk_pop_free_ex sk = (case sk of None \<Rightarrow> [] | Some s \<Rightarrow> map the (filter (\<lambda>p. p \<noteq> None) (sk_data s)))"

text \<open>The capacity after the array is grown, if it has to and memory allows.\<close>

definition sk_grow :: "nat \<Rightarrow> nat \<Rightarrow> (nat \<Rightarrow> bool) \<Rightarrow> nat option" where
  "sk_grow num num_alloc alloc =
     (if num_alloc \<le> num + 1 then
        (let new_alloc = (num_alloc * 2) mod size_mod;
             alloc_size = (new_alloc * 8) mod size_mod;
             overflow = (new_alloc < num_alloc \<or> alloc_size div 8 \<noteq> new_alloc);
             new_alloc = (if overflow then (num_alloc + 1) mod size_mod else new_alloc);
             alloc_size = (new_alloc * 8) mod size_mod
         in if new_alloc < num_alloc \<or> alloc_size div 8 \<noteq> new_alloc then None
            else if \<not> alloc alloc_size then None
            else Some new_alloc)
      else Some num_alloc)"

definition sk_insert :: "'a stack option \<Rightarrow> 'a option \<Rightarrow> nat \<Rightarrow> (nat \<Rightarrow> bool) \<Rightarrow> nat \<times> 'a stack option" where
  "sk_insert sk p pos alloc =
     (case sk of
        None \<Rightarrow> (0, None)
      | Some s \<Rightarrow>
          (case sk_grow (length (sk_data s)) (sk_num_alloc s) alloc of
             None \<Rightarrow> (0, Some s)
           | Some new_alloc \<Rightarrow>
               (let data = (if pos \<ge> length (sk_data s) then sk_data s @ [p]
                            else take pos (sk_data s) @ p # drop pos (sk_data s))
                in (length data, Some (s\<lparr>sk_data := data, sk_num_alloc := new_alloc, sk_sorted := False\<rparr>)))))"

definition sk_delete :: "'a stack option \<Rightarrow> nat \<Rightarrow> 'a option \<times> 'a stack option" where
  "sk_delete sk pos =
     (case sk of
        None \<Rightarrow> (None, None)
      | Some s \<Rightarrow>
          (if pos \<ge> length (sk_data s) then (None, Some s)
           else (sk_data s ! pos, Some (s\<lparr>sk_data := take pos (sk_data s) @ drop (pos + 1) (sk_data s)\<rparr>))))"

text \<open>The least index of an element with a property, by the loop over the array.\<close>

fun find_index :: "('b \<Rightarrow> bool) \<Rightarrow> nat \<Rightarrow> 'b list \<Rightarrow> nat option" where
  "find_index P i [] = None"
| "find_index P i (x # xs) = (if P x then Some i else find_index P (i + 1) xs)"

definition sk_delete_ptr :: "'a stack option \<Rightarrow> 'a option \<Rightarrow> 'a option \<times> 'a stack option" where
  "sk_delete_ptr sk p =
     (case sk of
        None \<Rightarrow> (None, None)
      | Some s \<Rightarrow>
          (case find_index (\<lambda>x. x = p) 0 (sk_data s) of
             None \<Rightarrow> (None, Some s)
           | Some i \<Rightarrow> sk_delete (Some s) i))"

definition sk_is_sorted :: "'a stack option \<Rightarrow> bool" where
  "sk_is_sorted sk = (case sk of None \<Rightarrow> True | Some s \<Rightarrow> sk_sorted s)"

text \<open>The binary search for the first match in the half-open interval from \<open>lo\<close> to \<open>hi\<close>.\<close>

function find_sorted :: "('a option \<Rightarrow> 'a option \<Rightarrow> int) \<Rightarrow> 'a option \<Rightarrow> 'a option list \<Rightarrow> nat \<Rightarrow> nat \<Rightarrow> nat option" where
  "find_sorted cmp p data lo hi =
     (if lo < hi then
        (let mid = lo + (hi - lo - 1) div 2;
             r = cmp p (data ! mid)
         in if r > 0 then find_sorted cmp p data (mid + 1) hi
            else if r < 0 then find_sorted cmp p data lo mid
            else if hi - lo = 1 then Some mid
            else find_sorted cmp p data lo (mid + 1))
      else None)"
  by pat_completeness auto
termination
  by (relation "measure (\<lambda>(cmp, p, data, lo, hi). hi - lo)") auto

declare find_sorted.simps [simp del]

definition sk_find :: "'a stack option \<Rightarrow> 'a option \<Rightarrow> nat option" where
  "sk_find sk p =
     (case sk of
        None \<Rightarrow> None
      | Some s \<Rightarrow>
          (case sk_comp s of
             None \<Rightarrow> find_index (\<lambda>x. x = p) 0 (sk_data s)
           | Some cmp \<Rightarrow>
               (if p = None then None
                else if \<not> sk_is_sorted sk then find_index (\<lambda>elem. cmp p elem = 0) 0 (sk_data s)
                else find_sorted cmp p (sk_data s) 0 (length (sk_data s)))))"

definition sk_shift :: "'a stack option \<Rightarrow> 'a option \<times> 'a stack option" where
  "sk_shift sk =
     (case sk of None \<Rightarrow> (None, None) | Some s \<Rightarrow> (if length (sk_data s) = 0 then (None, sk) else sk_delete sk 0))"

definition sk_push :: "'a stack option \<Rightarrow> 'a option \<Rightarrow> (nat \<Rightarrow> bool) \<Rightarrow> nat \<times> 'a stack option" where
  "sk_push sk p alloc = sk_insert sk p (sk_num sk) alloc"

definition sk_pop :: "'a stack option \<Rightarrow> 'a option \<times> 'a stack option" where
  "sk_pop sk =
     (case sk of
        None \<Rightarrow> (None, None)
      | Some s \<Rightarrow> (if length (sk_data s) = 0 then (None, sk) else sk_delete sk (length (sk_data s) - 1)))"

definition sk_dup :: "'a stack option \<Rightarrow> (nat \<Rightarrow> bool) \<Rightarrow> 'a stack option" where
  "sk_dup sk alloc =
     (case sk of
        None \<Rightarrow> None
      | Some s \<Rightarrow>
          (case sk_new (sk_comp s) alloc of
             None \<Rightarrow> None
           | Some ret \<Rightarrow>
               (if \<not> alloc (8 * sk_num_alloc s) then None
                else Some (ret\<lparr>sk_data := sk_data s, sk_sorted := sk_sorted s, sk_num_alloc := sk_num_alloc s,
                               sk_comp := sk_comp s\<rparr>))))"

text \<open>\<open>qsort\<close> as insertion sort.\<close>

fun qsort_insert :: "('b \<Rightarrow> 'b \<Rightarrow> int) \<Rightarrow> 'b \<Rightarrow> 'b list \<Rightarrow> 'b list" where
  "qsort_insert cmp x [] = [x]"
| "qsort_insert cmp x (y # ys) = (if cmp x y \<le> 0 then x # y # ys else y # qsort_insert cmp x ys)"

definition qsort :: "('b \<Rightarrow> 'b \<Rightarrow> int) \<Rightarrow> 'b list \<Rightarrow> 'b list" where
  "qsort cmp xs = foldr (qsort_insert cmp) xs []"

definition sk_sort :: "'a stack option \<Rightarrow> 'a stack option" where
  "sk_sort sk =
     (case sk of
        None \<Rightarrow> None
      | Some s \<Rightarrow>
          (case sk_comp s of
             None \<Rightarrow> Some s
           | Some cmp \<Rightarrow>
               (if sk_sorted s then Some s
                else Some (s\<lparr>sk_data := (if length (sk_data s) \<ge> 2 then qsort cmp (sk_data s) else sk_data s),
                             sk_sorted := True\<rparr>))))"

text \<open>\<open>same\<close> tells whether the new comparison function is the old one.\<close>

definition sk_set_cmp_func ::
  "'a stack \<Rightarrow> ('a option \<Rightarrow> 'a option \<Rightarrow> int) option \<Rightarrow> bool \<Rightarrow> ('a option \<Rightarrow> 'a option \<Rightarrow> int) option \<times> 'a stack" where
  "sk_set_cmp_func s cmp same =
     (sk_comp s, s\<lparr>sk_sorted := (if \<not> same then False else sk_sorted s), sk_comp := cmp\<rparr>)"

text \<open>The copies made before a copy fails are freed, in order.\<close>

fun copy_elements :: "('a \<Rightarrow> 'a option) \<Rightarrow> 'a option list \<Rightarrow> 'a option list \<Rightarrow> 'a option list + 'a list" where
  "copy_elements copy_func copied [] = Inl copied"
| "copy_elements copy_func copied (None # xs) = copy_elements copy_func (copied @ [None]) xs"
| "copy_elements copy_func copied (Some x # xs) =
     (case copy_func x of
        None \<Rightarrow> Inr (map the (filter (\<lambda>p. p \<noteq> None) copied))
      | Some y \<Rightarrow> copy_elements copy_func (copied @ [Some y]) xs)"

definition sk_deep_copy :: "'a stack option \<Rightarrow> ('a \<Rightarrow> 'a option) \<Rightarrow> (nat \<Rightarrow> bool) \<Rightarrow> 'a stack option \<times> 'a list" where
  "sk_deep_copy sk copy_func alloc =
     (case sk_dup sk alloc of
        None \<Rightarrow> (None, [])
      | Some ret \<Rightarrow>
          (case copy_elements copy_func [] (sk_data ret) of
             Inl data \<Rightarrow> (Some (ret\<lparr>sk_data := data\<rparr>), [])
           | Inr freed \<Rightarrow> (None, freed)))"


section \<open>Comparison functions\<close>

text \<open>What sorting and searching require of a comparison function: a total preorder.\<close>

locale order_contract =
  fixes cmp :: "'b \<Rightarrow> 'b \<Rightarrow> int"
  assumes antisym: "cmp a b < 0 \<longleftrightarrow> 0 < cmp b a"
    and trans: "cmp a b \<le> 0 \<Longrightarrow> cmp b c \<le> 0 \<Longrightarrow> cmp a c \<le> 0"
begin

abbreviation sorted_by :: "'b list \<Rightarrow> bool" where
  "sorted_by \<equiv> sorted_wrt (\<lambda>x y. cmp x y \<le> 0)"

lemma total: "cmp a b \<le> 0 \<or> cmp b a \<le> 0"
  using antisym [of a b] by linarith

lemma set_insert: "set (qsort_insert cmp x xs) = insert x (set xs)"
  by (induction xs) auto

lemma insert_sorted: "sorted_by xs \<Longrightarrow> sorted_by (qsort_insert cmp x xs)"
proof (induction xs)
  case (Cons y ys)
  show ?case
  proof (cases "cmp x y \<le> 0")
    case True
    then show ?thesis using Cons.prems trans by auto
  next
    case False
    then show ?thesis using Cons total [of x y] by (auto simp: set_insert)
  qed
qed simp

lemma qsort_sorted: "sorted_by (qsort cmp xs)"
  by (induction xs) (simp_all add: qsort_def insert_sorted)

lemma qsort_mset: "mset (qsort cmp xs) = mset xs"
proof -
  have "mset (qsort_insert cmp x ys) = add_mset x (mset ys)" for x ys by (induction ys) auto
  then show ?thesis by (induction xs) (simp_all add: qsort_def)
qed

lemma qsort_id: "sorted_by xs \<Longrightarrow> qsort cmp xs = xs"
proof (induction xs)
  case (Cons x xs)
  then show ?case by (cases xs) (simp_all add: qsort_def)
qed (simp add: qsort_def)

lemma below: "cmp p b > 0 \<Longrightarrow> cmp a b \<le> 0 \<Longrightarrow> cmp p a > 0"
  using trans [of p a b] by fastforce

lemma above: "cmp p a < 0 \<Longrightarrow> cmp a b \<le> 0 \<Longrightarrow> cmp p b < 0"
  using trans [of a b p] antisym [of p a] antisym [of p b] by fastforce

end

lemma find_sorted_spec:
  assumes oc: "order_contract cmp" and "sorted_wrt (\<lambda>x y. cmp x y \<le> 0) data" "hi \<le> length data"
  shows "case find_sorted cmp p data lo hi of
      Some i \<Rightarrow> lo \<le> i \<and> i < hi \<and> cmp p (data ! i) = 0 \<and> (\<forall>j. lo \<le> j \<and> j < i \<longrightarrow> cmp p (data ! j) \<noteq> 0)
    | None \<Rightarrow> (\<forall>j. lo \<le> j \<and> j < hi \<longrightarrow> cmp p (data ! j) \<noteq> 0)"
  using assms(3)
proof (induction "hi - lo" arbitrary: lo hi rule: less_induct)
  case less
  show ?case
  proof (cases "lo < hi")
    case False
    then show ?thesis by (simp add: find_sorted.simps)
  next
    case True
    define mid where "mid = lo + (hi - lo - 1) div 2"
    have mid: "lo \<le> mid" "mid < hi" using True by (auto simp: mid_def)
    have srt: "cmp (data ! i) (data ! j) \<le> 0" if "i < j" "j < hi" for i j
      using assms(2) that less.prems by (auto simp: sorted_wrt_iff_nth_less)
    consider "cmp p (data ! mid) > 0" | "cmp p (data ! mid) < 0"
      | "cmp p (data ! mid) = 0" "hi - lo = 1" | "cmp p (data ! mid) = 0" "hi - lo \<noteq> 1"
      by linarith
    then show ?thesis
    proof cases
      case 1
      have low: "cmp p (data ! j) \<noteq> 0" if "j \<le> mid" for j
        using 1 that srt [of j mid] mid order_contract.below [OF oc 1, of "data ! j"] by (cases "j = mid") auto
      have "find_sorted cmp p data lo hi = find_sorted cmp p data (mid + 1) hi"
        using True 1 by (subst find_sorted.simps) (simp add: mid_def Let_def)
      moreover have "case find_sorted cmp p data (mid + 1) hi of
          Some i \<Rightarrow> mid + 1 \<le> i \<and> i < hi \<and> cmp p (data ! i) = 0 \<and> (\<forall>j. mid + 1 \<le> j \<and> j < i \<longrightarrow> cmp p (data ! j) \<noteq> 0)
        | None \<Rightarrow> (\<forall>j. mid + 1 \<le> j \<and> j < hi \<longrightarrow> cmp p (data ! j) \<noteq> 0)"
        using less.hyps [of hi "mid + 1"] less.prems mid by simp
      ultimately show ?thesis using low mid by (auto split: option.splits) (metis not_less_eq_eq)+
    next
      case 2
      have high: "cmp p (data ! j) \<noteq> 0" if "mid \<le> j" "j < hi" for j
        using 2 that srt [of mid j] order_contract.above [OF oc 2, of "data ! j"] by (cases "j = mid") auto
      have "find_sorted cmp p data lo hi = find_sorted cmp p data lo mid"
        using True 2 by (subst find_sorted.simps) (simp add: mid_def Let_def)
      moreover have "case find_sorted cmp p data lo mid of
          Some i \<Rightarrow> lo \<le> i \<and> i < mid \<and> cmp p (data ! i) = 0 \<and> (\<forall>j. lo \<le> j \<and> j < i \<longrightarrow> cmp p (data ! j) \<noteq> 0)
        | None \<Rightarrow> (\<forall>j. lo \<le> j \<and> j < mid \<longrightarrow> cmp p (data ! j) \<noteq> 0)"
        using less.hyps [of mid lo] less.prems mid by simp
      ultimately show ?thesis using high mid by (auto split: option.splits) (metis not_less)+
    next
      case 3
      then have "find_sorted cmp p data lo hi = Some mid" "mid = lo"
        using True by (auto simp: find_sorted.simps [of cmp p data lo hi] mid_def Let_def)
      then show ?thesis using 3 mid by simp
    next
      case 4
      have "mid + 1 < hi" using 4 True by (auto simp: mid_def)
      have "find_sorted cmp p data lo hi = find_sorted cmp p data lo (mid + 1)"
        using True 4 by (subst find_sorted.simps) (simp add: mid_def Let_def)
      moreover have "case find_sorted cmp p data lo (mid + 1) of
          Some i \<Rightarrow> lo \<le> i \<and> i < mid + 1 \<and> cmp p (data ! i) = 0 \<and> (\<forall>j. lo \<le> j \<and> j < i \<longrightarrow> cmp p (data ! j) \<noteq> 0)
        | None \<Rightarrow> (\<forall>j. lo \<le> j \<and> j < mid + 1 \<longrightarrow> cmp p (data ! j) \<noteq> 0)"
        using less.hyps [of "mid + 1" lo] less.prems mid \<open>mid + 1 < hi\<close> by simp
      ultimately show ?thesis using 4 mid \<open>mid + 1 < hi\<close> by (auto split: option.splits)
    qed
  qed
qed

lemma find_index_spec:
  "case find_index P k xs of
     Some i \<Rightarrow> k \<le> i \<and> i < k + length xs \<and> P (xs ! (i - k)) \<and> (\<forall>j < i - k. \<not> P (xs ! j))
   | None \<Rightarrow> (\<forall>x \<in> set xs. \<not> P x)"
proof (induction P k xs rule: find_index.induct)
  case (2 P i x xs)
  show ?case
  proof (cases "P x")
    case False
    show ?thesis
    proof (cases "find_index P (i + 1) xs")
      case None
      then show ?thesis using 2 [OF False] False by simp
    next
      case (Some k)
      then have k: "i + 1 \<le> k" "k < i + 1 + length xs" "P (xs ! (k - (i + 1)))" "\<forall>j < k - (i + 1). \<not> P (xs ! j)"
        using 2 [OF False] by simp_all
      have "\<not> P ((x # xs) ! j)" if "j < k - i" for j using that k(1,4) False by (cases j) auto
      moreover have "(x # xs) ! (k - i) = xs ! (k - (i + 1))" using k(1) by (simp add: nth_Cons')
      ultimately show ?thesis using Some k False by simp
    qed
  qed simp
qed simp

text \<open>The binary search of a sorted array is the linear search.\<close>

lemma find_sorted_linear:
  assumes "order_contract cmp" "sorted_wrt (\<lambda>x y. cmp x y \<le> 0) data"
  shows "find_sorted cmp p data 0 (length data) = find_index (\<lambda>x. cmp p x = 0) 0 data"
proof -
  note lin = find_index_spec [where P = "\<lambda>x. cmp p x = 0" and k = 0 and xs = data]
  note srt = find_sorted_spec [OF assms, where hi = "length data" and lo = 0 and p = p]
  show ?thesis
  proof (cases "find_index (\<lambda>x. cmp p x = 0) 0 data")
    case None
    then show ?thesis using lin srt by (cases "find_sorted cmp p data 0 (length data)") auto
  next
    case (Some i)
    then have i: "i < length data" "cmp p (data ! i) = 0" "\<forall>j < i. cmp p (data ! j) \<noteq> 0" using lin by simp_all
    show ?thesis
    proof (cases "find_sorted cmp p data 0 (length data)")
      case None
      then show ?thesis using srt i by auto
    next
      case (Some k)
      then have "cmp p (data ! k) = 0" "\<forall>j < k. cmp p (data ! j) \<noteq> 0" using srt by simp_all
      then have "k = i" using i by (metis linorder_neqE_nat)
      then show ?thesis using Some \<open>find_index (\<lambda>x. cmp p x = 0) 0 data = Some i\<close> by simp
    qed
  qed
qed


text \<open>What a program relies on: room for one more element, and a flag that is set on sorted arrays only.\<close>

definition sk_ok :: "('a option \<Rightarrow> 'a option \<Rightarrow> int) \<Rightarrow> 'a stack \<Rightarrow> bool" where
  "sk_ok cmp s \<longleftrightarrow> sk_comp s = Some cmp \<and> length (sk_data s) < sk_num_alloc s \<and>
     (sk_sorted s \<longrightarrow> sorted_wrt (\<lambda>x y. cmp x y \<le> 0) (sk_data s))"

lemma find_ok:
  assumes "order_contract cmp" "sk_ok cmp s"
  shows "sk_find (Some s) (Some x) = find_index (\<lambda>e. cmp (Some x) e = 0) 0 (sk_data s)"
  using assms find_sorted_linear [OF assms(1)] by (auto simp: sk_find_def sk_ok_def sk_is_sorted_def)

datatype 'a stack_op =
    Push "'a option" | Insert_at "'a option" nat | Delete_at nat | Delete_ptr "'a option" | Pop | Shift | Zero | Sort
  | Set_cmp | Find 'a | Value_at nat

datatype 'a stack_result = Count nat | Elem "'a option" | Index "nat option" | Done

fun run_stack :: "('a option \<Rightarrow> 'a option \<Rightarrow> int) \<Rightarrow> (nat \<Rightarrow> bool) \<Rightarrow> 'a stack_op \<Rightarrow> 'a stack \<Rightarrow> 'a stack_result \<times> 'a stack" where
  "run_stack cmp alloc (Push p) s = map_prod Count the (sk_push (Some s) p alloc)"
| "run_stack cmp alloc (Insert_at p i) s = map_prod Count the (sk_insert (Some s) p i alloc)"
| "run_stack cmp alloc (Delete_at i) s = map_prod Elem the (sk_delete (Some s) i)"
| "run_stack cmp alloc (Delete_ptr p) s = map_prod Elem the (sk_delete_ptr (Some s) p)"
| "run_stack cmp alloc Pop s = map_prod Elem the (sk_pop (Some s))"
| "run_stack cmp alloc Shift s = map_prod Elem the (sk_shift (Some s))"
| "run_stack cmp alloc Zero s = (Done, the (sk_zero (Some s)))"
| "run_stack cmp alloc Sort s = (Done, the (sk_sort (Some s)))"
| "run_stack cmp alloc Set_cmp s = (Done, snd (sk_set_cmp_func s (Some cmp) True))"
| "run_stack cmp alloc (Find x) s = (Index (sk_find (Some s) (Some x)), s)"
| "run_stack cmp alloc (Value_at i) s = (Elem (sk_value (Some s) i), s)"

text \<open>The abstract stack: a list and nothing else.\<close>

fun list_step :: "('a option \<Rightarrow> 'a option \<Rightarrow> int) \<Rightarrow> 'a stack_op \<Rightarrow> 'a option list \<Rightarrow> 'a stack_result \<times> 'a option list" where
  "list_step cmp (Push p) xs = (Count (length xs + 1), xs @ [p])"
| "list_step cmp (Insert_at p i) xs = (Count (length xs + 1), take i xs @ [p] @ drop i xs)"
| "list_step cmp (Delete_at i) xs = (Elem (if i < length xs then xs ! i else None), take i xs @ drop (i + 1) xs)"
| "list_step cmp (Delete_ptr p) xs = (Elem (if p \<in> set xs then p else None), remove1 p xs)"
| "list_step cmp Pop xs = (Elem (if xs = [] then None else List.last xs), butlast xs)"
| "list_step cmp Shift xs = (Elem (if xs = [] then None else hd xs), tl xs)"
| "list_step cmp Zero xs = (Done, [])"
| "list_step cmp Sort xs = (Done, qsort cmp xs)"
| "list_step cmp Set_cmp xs = (Done, xs)"
| "list_step cmp (Find x) xs = (Index (find_index (\<lambda>e. cmp (Some x) e = 0) 0 xs), xs)"
| "list_step cmp (Value_at i) xs = (Elem (if i < length xs then xs ! i else None), xs)"

fun run_ops :: "('o \<Rightarrow> 's \<Rightarrow> 'r \<times> 's) \<Rightarrow> 'o list \<Rightarrow> 's \<Rightarrow> 'r list \<times> 's" where
  "run_ops step [] s = ([], s)"
| "run_ops step (op # ops) s = (case step op s of (r, s') \<Rightarrow> case run_ops step ops s' of (rs, s'') \<Rightarrow> (r # rs, s''))"

lemma sk_grow_ok:
  assumes "num < num_alloc" "num_alloc < 2 ^ 60" "\<And>n. alloc n"
  shows "sk_grow num num_alloc alloc = Some (if num_alloc = num + 1 then 2 * num_alloc else num_alloc)"
proof -
  have "(num_alloc * 2) mod size_mod = 2 * num_alloc" "(2 * num_alloc * 8) mod size_mod = 2 * num_alloc * 8"
    using assms(2) by simp_all
  then show ?thesis using assms(1,3) by (auto simp: sk_grow_def Let_def)
qed

lemma find_index_remove1:
  "find_index (\<lambda>x. x = p) k xs = Some i \<Longrightarrow>
     k \<le> i \<and> i < k + length xs \<and> xs ! (i - k) = p \<and> take (i - k) xs @ drop (i - k + 1) xs = remove1 p xs"
proof (induction "\<lambda>x. x = p" k xs rule: find_index.induct)
  case (2 i' x xs)
  show ?case
  proof (cases "x = p")
    case False
    then have l: "i' + 1 \<le> i \<and> i < i' + 1 + length xs \<and> xs ! (i - (i' + 1)) = p \<and>
        take (i - (i' + 1)) xs @ drop (i - (i' + 1) + 1) xs = remove1 p xs"
      using 2 by simp
    moreover have "i - i' = Suc (i - (i' + 1))" using l by (simp add: Suc_diff_Suc)
    ultimately show ?thesis using False by simp
  qed (use 2 in simp)
qed simp

lemma find_index_None: "find_index P k xs = None \<longleftrightarrow> (\<forall>x \<in> set xs. \<not> P x)"
  by (induction P k xs rule: find_index.induct) auto

lemma sorted_delete: "sorted_wrt R xs \<Longrightarrow> sorted_wrt R (take i xs @ drop (i + 1) xs)"
  by (subst (asm) append_take_drop_id [of i, symmetric], cases "i < length xs")
    (auto simp: sorted_wrt_append Cons_nth_drop_Suc [symmetric] simp del: append_take_drop_id)

lemma delete_refines:
  assumes "sk_ok cmp s" "sk_delete (Some s) i = (r, s')"
  shows "r = (if i < length (sk_data s) then sk_data s ! i else None) \<and>
    s' = Some (s\<lparr>sk_data := take i (sk_data s) @ drop (i + 1) (sk_data s)\<rparr>) \<and> sk_ok cmp (the s')"
  using assms sorted_delete [of "\<lambda>x y. cmp x y \<le> 0" "sk_data s" i] by (auto simp: sk_delete_def sk_ok_def split: if_splits)

lemma insert_refines:
  assumes "sk_ok cmp s" "\<And>n. alloc n" "sk_num_alloc s < 2 ^ 60" "sk_insert (Some s) p i alloc = (n, s')"
  shows "n = length (sk_data s) + 1 \<and> s' \<noteq> None \<and> sk_data (the s') = take i (sk_data s) @ [p] @ drop i (sk_data s) \<and>
    sk_ok cmp (the s') \<and> sk_num_alloc (the s') \<le> max (sk_num_alloc s) (2 * (length (sk_data s) + 1))"
  using assms(1,4) sk_grow_ok [OF _ assms(3,2), of "length (sk_data s)"] by (auto simp: sk_insert_def sk_ok_def Let_def)


lemma sort_ok:
  assumes "order_contract cmp" "sk_ok cmp s"
  shows "\<exists>s'. sk_sort (Some s) = Some s' \<and> sk_ok cmp s' \<and> sk_data s' = qsort cmp (sk_data s) \<and>
    sk_num_alloc s' = sk_num_alloc s"
proof -
  have "length (sk_data s) < 2 \<Longrightarrow> qsort cmp (sk_data s) = sk_data s"
    by (cases "sk_data s") (auto simp: qsort_def)
  moreover have "length (qsort cmp (sk_data s)) = length (sk_data s)"
    using order_contract.qsort_mset [OF assms(1)] by (metis mset_eq_length)
  ultimately show ?thesis
    using assms(2) order_contract.qsort_sorted [OF assms(1), of "sk_data s"]
      order_contract.qsort_id [OF assms(1), of "sk_data s"]
    by (auto simp: sk_sort_def sk_ok_def)
qed

lemma stack_step_refines:
  assumes "order_contract cmp" "sk_ok cmp s" "\<And>n. alloc n" "sk_num_alloc s < 2 ^ 60"
    and "run_stack cmp alloc op s = (r, s')"
  shows "list_step cmp op (sk_data s) = (r, sk_data s') \<and> sk_ok cmp s' \<and>
    sk_num_alloc s' \<le> max (sk_num_alloc s) (2 * (length (sk_data s) + 1))"
proof (cases op)
  case (Push p)
  obtain n t where "sk_insert (Some s) p (length (sk_data s)) alloc = (n, t)" by fastforce
  from insert_refines [OF assms(2,3,4) this] this show ?thesis
    using Push assms(5) by (auto simp: sk_push_def sk_num_def)
next
  case (Insert_at p i)
  obtain n t where "sk_insert (Some s) p i alloc = (n, t)" by fastforce
  from insert_refines [OF assms(2,3,4) this] this show ?thesis
    using Insert_at assms(5) by auto
next
  case (Delete_at i)
  obtain x t where "sk_delete (Some s) i = (x, t)" by fastforce
  from delete_refines [OF assms(2) this] this show ?thesis
    using Delete_at assms(5) by auto
next
  case (Delete_ptr p)
  show ?thesis
  proof (cases "find_index (\<lambda>x. x = p) 0 (sk_data s)")
    case None
    then have "p \<notin> set (sk_data s)" by (auto simp: find_index_None)
    then show ?thesis using Delete_ptr None assms(2,5) by (auto simp: sk_delete_ptr_def remove1_idem)
  next
    case (Some i)
    obtain x t where "sk_delete (Some s) i = (x, t)" by fastforce
    from delete_refines [OF assms(2) this] this find_index_remove1 [OF Some] show ?thesis
      using Delete_ptr Some assms(5) by (auto simp: sk_delete_ptr_def in_set_conv_nth)
  qed
next
  case Pop
  obtain x t where "sk_delete (Some s) (length (sk_data s) - 1) = (x, t)" by fastforce
  from delete_refines [OF assms(2) this] this show ?thesis
    using Pop assms(2,5) by (auto simp: sk_pop_def last_conv_nth butlast_conv_take split: if_splits)
next
  case Shift
  obtain x t where "sk_delete (Some s) 0 = (x, t)" by fastforce
  from delete_refines [OF assms(2) this] this show ?thesis
    using Shift assms(2,5) by (auto simp: sk_shift_def hd_conv_nth drop_Suc split: if_splits)
next
  case Sort
  then show ?thesis using assms(5) sort_ok [OF assms(1,2)] by auto
next
  case (Find x)
  then show ?thesis using assms(2,5) find_ok [OF assms(1,2)] by auto
qed (use assms(2,5) in \<open>auto simp: sk_zero_def sk_set_cmp_func_def sk_value_def sk_ok_def split: if_splits\<close>)

lemma length_list_step: "list_step cmp op xs = (r, ys) \<Longrightarrow> order_contract cmp \<Longrightarrow> length ys \<le> length xs + 1"
  using order_contract.qsort_mset [of cmp xs, THEN mset_eq_length]
  by (cases op) (auto simp: length_remove1 split: if_splits)

lemma run_ops_refines:
  assumes "order_contract cmp" "\<And>n. alloc n"
  shows "sk_ok cmp s \<Longrightarrow> length (sk_data s) \<le> k \<Longrightarrow> sk_num_alloc s \<le> 2 * k + 4 \<Longrightarrow> k + length ops < 2 ^ 58 \<Longrightarrow>
    run_ops (run_stack cmp alloc) ops s = (rs, s') \<Longrightarrow>
    run_ops (list_step cmp) ops (sk_data s) = (rs, sk_data s') \<and> sk_ok cmp s'"
proof (induction ops arbitrary: s k rs)
  case (Cons op ops)
  obtain r s1 where s1: "run_stack cmp alloc op s = (r, s1)" by fastforce
  obtain rs1 where rs1: "run_ops (run_stack cmp alloc) ops s1 = (rs1, s')" "rs = r # rs1"
    using Cons.prems(5) s1 by (auto split: prod.splits)
  have "sk_num_alloc s < 2 ^ 60" using Cons.prems(3,4) by simp
  note step = stack_step_refines [OF assms(1) Cons.prems(1) assms(2) this s1]
  have "length (sk_data s1) \<le> k + 1" using length_list_step [OF _ assms(1)] step Cons.prems(2) by fastforce
  moreover have "sk_num_alloc s1 \<le> 2 * (k + 1) + 4" using step Cons.prems(2,3) by auto
  ultimately show ?case
    using Cons.IH [of s1 "k + 1" rs1] step rs1 Cons.prems(4) by simp
qed simp


text \<open>A difference of keys is such a comparison.\<close>

lemma order_contract_diff: "order_contract (\<lambda>a b. f a - f b)"
  by unfold_locales auto

lemma copy_elements_Inl:
  "copy_elements f acc xs = Inl ys \<longleftrightarrow> (\<forall>x. Some x \<in> set xs \<longrightarrow> f x \<noteq> None) \<and> ys = acc @ map (\<lambda>x. Option.bind x f) xs"
  by (induction f acc xs rule: copy_elements.induct) (auto split: option.splits)

lemma copy_elements_Inr:
  "copy_elements f acc xs = Inr freed \<Longrightarrow>
     \<exists>ok x rest. xs = ok @ Some x # rest \<and> f x = None \<and> (\<forall>y. Some y \<in> set ok \<longrightarrow> f y \<noteq> None) \<and>
       map Some freed = filter (\<lambda>p. p \<noteq> None) (acc @ map (\<lambda>x. Option.bind x f) ok)"
proof (induction f acc xs rule: copy_elements.induct)
  case (2 f acc xs)
  then obtain ok x rest where h: "xs = ok @ Some x # rest" "f x = None" "\<forall>y. Some y \<in> set ok \<longrightarrow> f y \<noteq> None"
    "map Some freed = filter (\<lambda>p. p \<noteq> None) ((acc @ [None]) @ map (\<lambda>x. Option.bind x f) ok)" by auto
  then show ?case by (intro exI [of _ "None # ok"] exI [of _ x] exI [of _ rest]) auto
next
  case (3 f acc y xs)
  show ?case
  proof (cases "f y")
    case None
    have "map Some (map the (filter (\<lambda>p. p \<noteq> None) acc)) = filter (\<lambda>p. p \<noteq> None) acc"
      by (simp only: map_map, rule map_idI) auto
    then have "map Some freed = filter (\<lambda>p. p \<noteq> None) acc" using None 3(2) by auto
    then show ?thesis using None by (intro exI [of _ "[]"] exI [of _ y] exI [of _ xs]) auto
  next
    case (Some z)
    then obtain ok x rest where h: "xs = ok @ Some x # rest" "f x = None" "\<forall>y. Some y \<in> set ok \<longrightarrow> f y \<noteq> None"
      "map Some freed = filter (\<lambda>p. p \<noteq> None) ((acc @ [Some z]) @ map (\<lambda>x. Option.bind x f) ok)" using 3 by auto
    then show ?thesis using Some by (intro exI [of _ "Some y # ok"] exI [of _ x] exI [of _ rest]) auto
  qed
qed simp


section \<open>Properties\<close>

text \<open>
  C25. On an array whose sorted flag, if it is set, is right, \<open>sk_find\<close> (linear or binary search) returns
  the index of the first element equal to the argument, and fails only if there is none.
\<close>

theorem sk_find_first:
  assumes "order_contract cmp" "sk_comp s = Some cmp"
    and "sk_sorted s \<Longrightarrow> sorted_wrt (\<lambda>x y. cmp x y \<le> 0) (sk_data s)"
  shows "case sk_find (Some s) (Some x) of
      Some i \<Rightarrow> i < length (sk_data s) \<and> cmp (Some x) (sk_data s ! i) = 0 \<and>
        (\<forall>j < i. cmp (Some x) (sk_data s ! j) \<noteq> 0)
    | None \<Rightarrow> (\<forall>e \<in> set (sk_data s). cmp (Some x) e \<noteq> 0)"
proof -
  have "sk_find (Some s) (Some x) = find_index (\<lambda>e. cmp (Some x) e = 0) 0 (sk_data s)"
    using assms find_sorted_linear [OF assms(1)] by (auto simp: sk_find_def sk_is_sorted_def)
  then show ?thesis
    using find_index_spec [where P = "\<lambda>e. cmp (Some x) e = 0" and k = 0 and xs = "sk_data s"]
    by (auto split: option.splits)
qed

theorem sk_find_first_witness:
  "case sk_find (Some \<lparr>sk_data = [Some 1, Some 4, Some 4, Some (9 :: int)], sk_sorted = True, sk_num_alloc = 8,
     sk_comp = Some (\<lambda>a b. the a - the b)\<rparr>) (Some 4) of Some i \<Rightarrow> i = 1 | None \<Rightarrow> False"
proof -
  let ?s = "\<lparr>sk_data = [Some 1, Some 4, Some 4, Some (9 :: int)], sk_sorted = True, sk_num_alloc = 8,
     sk_comp = Some (\<lambda>a b. the a - the b)\<rparr>"
  have "order_contract (\<lambda>a b. the a - the (b :: int option))" by (rule order_contract_diff)
  from sk_find_first [OF this, of ?s 4] show ?thesis
    by (auto split: option.splits simp: less_Suc_eq numeral_eq_Suc nth_Cons')
qed



text \<open>
  C36. A deep copy holds the copies of all elements, NULL for NULL, with the order flag and comparison
  of the source; or no stack is returned and exactly the copies made before the failure are freed.
\<close>

theorem sk_deep_copy_all_or_nothing:
  assumes "sk_deep_copy (Some s) copy_func alloc = (ret, freed)"
  shows "(case ret of
      Some t \<Rightarrow> freed = [] \<and> sk_data t = map (\<lambda>x. Option.bind x copy_func) (sk_data s) \<and>
        (\<forall>x. Some x \<in> set (sk_data s) \<longrightarrow> copy_func x \<noteq> None) \<and> sk_sorted t = sk_sorted s \<and> sk_comp t = sk_comp s
    | None \<Rightarrow> sk_dup (Some s) alloc = None \<and> freed = [] \<or>
        (\<exists>copied x rest. sk_data s = copied @ Some x # rest \<and> copy_func x = None \<and>
           map Some freed = filter (\<lambda>p. p \<noteq> None) (map (\<lambda>x. Option.bind x copy_func) copied)))"
proof (cases "sk_dup (Some s) alloc")
  case None
  then show ?thesis using assms by (auto simp: sk_deep_copy_def)
next
  case (Some t)
  then have t: "sk_data t = sk_data s" "sk_sorted t = sk_sorted s" "sk_comp t = sk_comp s"
    by (auto simp: sk_dup_def split: option.splits if_splits)
  show ?thesis
  proof (cases "copy_elements copy_func [] (sk_data s)")
    case (Inl ys)
    then show ?thesis using assms Some t Inl [unfolded copy_elements_Inl] by (auto simp: sk_deep_copy_def)
  next
    case (Inr fr)
    then show ?thesis using assms Some t copy_elements_Inr [OF Inr] by (auto simp: sk_deep_copy_def)
  qed
qed

theorem sk_deep_copy_all_or_nothing_witness:
  "sk_deep_copy (Some \<lparr>sk_data = [Some 1, None, Some (0 :: int), Some 2], sk_sorted = False, sk_num_alloc = 8,
     sk_comp = None\<rparr>) (\<lambda>x. if x = 0 then None else Some (x + 10)) (\<lambda>n. True) = (None, [11])"
proof -
  let ?s = "\<lparr>sk_data = [Some 1, None, Some (0 :: int), Some 2], sk_sorted = False, sk_num_alloc = 8, sk_comp = None\<rparr>"
  obtain r f where e: "sk_deep_copy (Some ?s) (\<lambda>x. if x = 0 then None else Some (x + 10)) (\<lambda>n. True) = (r, f)"
    by fastforce
  from sk_deep_copy_all_or_nothing [OF e] e show ?thesis
    by (simp add: sk_deep_copy_def sk_dup_def sk_new_def)
qed

text \<open>\<open>sk_set\<close> does not clear the flag, so a later search can miss an element.\<close>

lemma sk_set_keeps_sorted:
  "sk_find (snd (sk_set (Some \<lparr>sk_data = [Some 1, Some (3 :: int)], sk_sorted = True, sk_num_alloc = 4,
     sk_comp = Some (\<lambda>a b. the a - the b)\<rparr>) 0 (Some 5))) (Some 3) = None"
  by (simp add: sk_set_def sk_find_def sk_is_sorted_def find_sorted.simps)

end
