(* ===== verification/Unicode.thy ===== *)
theory Unicode
  imports Cbb_Correct
begin

text \<open>
  Model of \<open>crypto/bytestring/unicode.c\<close>: the readers and writers of UTF-8, Latin-1, UCS-2 and
  UTF-32 characters over the reader \<open>CBS\<close> and the builder \<open>CBB\<close>. The locale \<open>text_codec\<close> is the
  interface they share: a canonical codec together with a writer that appends the encoding.
  The shift \<open>1u << n\<close> of the mask macros is \<open>push_bit\<close>.
\<close>

definition is_valid_code_point :: "u32 \<Rightarrow> bool" where
  "is_valid_code_point v \<longleftrightarrow>
     \<not> (v > 0x10ffff \<or> v AND 0xfffe = 0xfffe \<or> v \<ge> 0xfdd0 \<and> v \<le> 0xfdef \<or> v \<ge> 0xd800 \<and> v \<le> 0xdfff)"

definition BOTTOM_BITS :: "nat \<Rightarrow> byte" where
  "BOTTOM_BITS n = ucast (push_bit n (1 :: u32) - 1)"

definition TOP_BITS :: "nat \<Rightarrow> byte" where
  "TOP_BITS n = NOT (BOTTOM_BITS (8 - n))"

fun utf8_tail :: "cbs \<Rightarrow> nat \<Rightarrow> u32 \<Rightarrow> u32 option \<times> cbs" where
  "utf8_tail cbs 0 v = (Some v, cbs)"
| "utf8_tail cbs (Suc n) v =
     (case CBS_get_u8 cbs of
        (None, cbs') \<Rightarrow> (None, cbs')
      | (Some c, cbs') \<Rightarrow>
          (if c AND TOP_BITS 2 \<noteq> TOP_BITS 1 then (None, cbs')
           else utf8_tail cbs' n (push_bit 6 v OR ucast (c AND BOTTOM_BITS 6))))"

definition cbs_get_utf8_multi :: "cbs \<Rightarrow> nat \<Rightarrow> u32 \<Rightarrow> u32 \<Rightarrow> u32 option \<times> cbs" where
  "cbs_get_utf8_multi cbs len v lower_bound =
     (case utf8_tail cbs len v of
        (None, cbs') \<Rightarrow> (None, cbs')
      | (Some v, cbs') \<Rightarrow>
          (if \<not> is_valid_code_point v \<or> v < lower_bound then (None, cbs') else (Some v, cbs')))"

definition cbs_get_utf8 :: "cbs \<Rightarrow> u32 option \<times> cbs" where
  "cbs_get_utf8 cbs =
     (case CBS_get_u8 cbs of
        (None, cbs') \<Rightarrow> (None, cbs')
      | (Some c, cbs') \<Rightarrow>
          (if c \<le> 0x7f then (Some (ucast c), cbs')
           else if c AND TOP_BITS 3 = TOP_BITS 2 then
             cbs_get_utf8_multi cbs' 1 (ucast (c AND BOTTOM_BITS 5)) 0x80
           else if c AND TOP_BITS 4 = TOP_BITS 3 then
             cbs_get_utf8_multi cbs' 2 (ucast (c AND BOTTOM_BITS 4)) 0x800
           else if c AND TOP_BITS 5 = TOP_BITS 4 then
             cbs_get_utf8_multi cbs' 3 (ucast (c AND BOTTOM_BITS 3)) 0x10000
           else (None, cbs')))"

definition cbs_get_latin1 :: "cbs \<Rightarrow> u32 option \<times> cbs" where
  "cbs_get_latin1 cbs =
     (case CBS_get_u8 cbs of (None, cbs') \<Rightarrow> (None, cbs') | (Some c, cbs') \<Rightarrow> (Some (ucast c), cbs'))"

definition cbs_get_ucs2_be :: "cbs \<Rightarrow> u32 option \<times> cbs" where
  "cbs_get_ucs2_be cbs =
     (case CBS_get_u16 cbs of
        (None, cbs') \<Rightarrow> (None, cbs')
      | (Some c, cbs') \<Rightarrow> (if \<not> is_valid_code_point (ucast c) then (None, cbs') else (Some (ucast c), cbs')))"

definition cbs_get_utf32_be :: "cbs \<Rightarrow> u32 option \<times> cbs" where
  "cbs_get_utf32_be cbs =
     (case CBS_get_u32 cbs of
        (None, cbs') \<Rightarrow> (None, cbs')
      | (Some v, cbs') \<Rightarrow> (if is_valid_code_point v then (Some v, cbs') else (None, cbs')))"

definition cbb_get_utf8_len :: "u32 \<Rightarrow> nat" where
  "cbb_get_utf8_len u = (if u \<le> 0x7f then 1 else if u \<le> 0x7ff then 2 else if u \<le> 0xffff then 3 else 4)"

definition utf8_lead :: "nat \<Rightarrow> u32 \<Rightarrow> byte" where
  "utf8_lead n w = ucast (ucast (TOP_BITS n) OR w)"

definition utf8_cont :: "u32 \<Rightarrow> byte" where
  "utf8_cont w = ucast (ucast (TOP_BITS 1) OR (w AND ucast (BOTTOM_BITS 6)))"

definition cbb_add_utf8 :: "cbb \<Rightarrow> nat \<Rightarrow> u32 \<Rightarrow> bool \<times> cbb" where
  "cbb_add_utf8 cbb i u =
     (if \<not> is_valid_code_point u then (False, cbb)
      else if u \<le> 0x7f then CBB_add_u8 cbb i (ucast u)
      else if u \<le> 0x7ff then
        cbb_and (CBB_add_u8 cbb i (utf8_lead 2 (drop_bit 6 u))) (\<lambda>c. CBB_add_u8 c i (utf8_cont u))
      else if u \<le> 0xffff then
        cbb_and (CBB_add_u8 cbb i (utf8_lead 3 (drop_bit 12 u))) (\<lambda>c.
        cbb_and (CBB_add_u8 c i (utf8_cont (drop_bit 6 u))) (\<lambda>c.
        CBB_add_u8 c i (utf8_cont u)))
      else if u \<le> 0x10ffff then
        cbb_and (CBB_add_u8 cbb i (utf8_lead 4 (drop_bit 18 u))) (\<lambda>c.
        cbb_and (CBB_add_u8 c i (utf8_cont (drop_bit 12 u))) (\<lambda>c.
        cbb_and (CBB_add_u8 c i (utf8_cont (drop_bit 6 u))) (\<lambda>c.
        CBB_add_u8 c i (utf8_cont u))))
      else (False, cbb))"

definition cbb_add_latin1 :: "cbb \<Rightarrow> nat \<Rightarrow> u32 \<Rightarrow> bool \<times> cbb" where
  "cbb_add_latin1 cbb i u = (if u \<le> 0xff then CBB_add_u8 cbb i (ucast u) else (False, cbb))"

definition cbb_add_ucs2_be :: "cbb \<Rightarrow> nat \<Rightarrow> u32 \<Rightarrow> bool \<times> cbb" where
  "cbb_add_ucs2_be cbb i u =
     (if u \<le> 0xffff \<and> is_valid_code_point u then CBB_add_u16 cbb i (ucast u) else (False, cbb))"

definition cbb_add_utf32_be :: "cbb \<Rightarrow> nat \<Rightarrow> u32 \<Rightarrow> bool \<times> cbb" where
  "cbb_add_utf32_be cbb i u = (if is_valid_code_point u then CBB_add_u32 cbb i u else (False, cbb))"

section \<open>The encoding\<close>

definition utf8_enc :: "u32 \<Rightarrow> byte list" where
  "utf8_enc u =
     (if u \<le> 0x7f then [ucast u]
      else if u \<le> 0x7ff then [utf8_lead 2 (drop_bit 6 u), utf8_cont u]
      else if u \<le> 0xffff then [utf8_lead 3 (drop_bit 12 u), utf8_cont (drop_bit 6 u), utf8_cont u]
      else [utf8_lead 4 (drop_bit 18 u), utf8_cont (drop_bit 12 u), utf8_cont (drop_bit 6 u), utf8_cont u])"

lemma masks: "BOTTOM_BITS 6 = 0x3f" "BOTTOM_BITS 5 = 0x1f" "BOTTOM_BITS 4 = 0xf" "BOTTOM_BITS 3 = 7"
  "TOP_BITS (Suc 0) = 0x80" "TOP_BITS 2 = 0xc0" "TOP_BITS 3 = 0xe0" "TOP_BITS 4 = 0xf0" "TOP_BITS 5 = 0xf8"
  by (code_simp)+

lemma lead: "c AND 0xe0 = 0xc0 \<longleftrightarrow> bit c 7 \<and> bit c 6 \<and> \<not> bit c 5"
  "c AND 0xf0 = 0xe0 \<longleftrightarrow> bit c 7 \<and> bit c 6 \<and> bit c 5 \<and> \<not> bit c 4"
  "c AND 0xf8 = 0xf0 \<longleftrightarrow> bit c 7 \<and> bit c 6 \<and> bit c 5 \<and> bit c 4 \<and> \<not> bit c 3"
  "c AND 0xc0 = 0x80 \<longleftrightarrow> bit c 7 \<and> \<not> bit c 6" for c :: byte
  by (auto simp: byte_bits bit_simps)


fun conts :: "nat \<Rightarrow> u32 \<Rightarrow> byte list" where
  "conts 0 v = []"
| "conts (Suc n) v = utf8_cont (drop_bit (6 * n) v) # conts n v"

lemma bit_cont: "bit (utf8_cont w) n \<longleftrightarrow> n = 7 \<or> n < 6 \<and> bit w n"
  by (auto simp: utf8_cont_def masks bit_simps bit_3F dest: bit_imp_le_length)

lemma cont_pattern: "c AND 0xc0 = 0x80 \<Longrightarrow> bit c n \<longleftrightarrow> n = 7 \<or> n < 6 \<and> bit c n" for c :: byte
  using bit_imp_le_length [of c n] by (auto simp: lead nat_less_le less_Suc_eq numeral_eq_Suc)

lemma cont_step:
  assumes "drop_bit 26 v = 0"
  shows "c AND 0xc0 = 0x80 \<and> w = push_bit 6 v OR ucast (c AND 0x3f) \<longleftrightarrow> drop_bit 6 w = v \<and> c = utf8_cont w"
proof (intro iffI conjI)
  assume a: "c AND 0xc0 = 0x80 \<and> w = push_bit 6 v OR ucast (c AND 0x3f)"
  have b: "bit v n \<longrightarrow> n < 26" for n using drop_0_bit [OF assms] by blast
  show "drop_bit 6 w = v"
    using a b by (auto intro!: bit_word_eqI simp: bit_simps bit_3F)
  show "c = utf8_cont w"
  proof (rule bit_word_eqI)
    fix n
    show "bit c n = bit (utf8_cont w) n"
      using a cont_pattern [of c n] by (cases "n < 6") (auto simp: bit_cont bit_simps bit_3F)
  qed
next
  assume a: "drop_bit 6 w = v \<and> c = utf8_cont w"
  then show "c AND 0xc0 = 0x80" by (simp add: lead bit_cont)
  show "w = push_bit 6 v OR ucast (c AND 0x3f)"
  proof (rule bit_word_eqI)
    fix n assume "n < LENGTH(32)"
    then show "bit w n = bit (push_bit 6 v OR ucast (c AND 0x3f)) n"
      using a by (cases "n < 6") (auto simp: bit_simps bit_cont bit_3F)
  qed
qed

lemma utf8_tail_iff:
  "n \<le> 3 \<Longrightarrow> drop_bit (32 - 6 * n) v = 0 \<Longrightarrow>
   utf8_tail cbs n v = (Some w, rest) \<longleftrightarrow> drop_bit (6 * n) w = v \<and> cbs = conts n w @ rest"
proof (induction n arbitrary: cbs v)
  case (Suc n)
  have hi: "bit v k \<Longrightarrow> k < 32 - 6 * Suc n" for k using drop_0_bit [OF Suc.prems(2)] .
  have "drop_bit 26 v = 0"
    using hi by (intro bit_word_eqI) (force simp: bit_simps)
  note step = cont_step [OF this]
  have v: "drop_bit (32 - 6 * n) (push_bit 6 v OR ucast (c AND 0x3f)) = 0" for c :: byte
  proof (rule bit_word_eqI)
    fix k
    show "bit (drop_bit (32 - 6 * n) (push_bit 6 v OR ucast (c AND 0x3f))) k = bit 0 k"
      using hi [of "32 - 6 * n + k - 6"] Suc.prems(1) by (auto simp: bit_simps bit_3F)
  qed
  have n: "n \<le> 3" using Suc.prems(1) by simp
  note IH = Suc.IH [OF n v]
  show ?case
  proof (cases cbs)
    case Nil
    then show ?thesis by (simp add: CBS_get_u8_Cons)
  next
    case (Cons c cs)
    have "utf8_tail cbs (Suc n) v = (Some w, rest) \<longleftrightarrow>
        (c AND 0xc0 = 0x80 \<and> drop_bit (6 * n) w = push_bit 6 v OR ucast (c AND 0x3f)) \<and> cs = conts n w @ rest"
      using IH [of cs c] by (simp add: Cons CBS_get_u8_Cons masks)
    also have "\<dots> \<longleftrightarrow> drop_bit 6 (drop_bit (6 * n) w) = v \<and> c = utf8_cont (drop_bit (6 * n) w) \<and> cs = conts n w @ rest"
      unfolding step by blast
    finally show ?thesis by (simp add: Cons drop_bit_drop_bit)
  qed
qed auto


text \<open>The lead byte of \<open>n\<close> bytes carries the \<open>7 - n\<close> top bits.\<close>

lemma bit_lead: "bit (utf8_lead k w) n \<longleftrightarrow> n < 8 \<and> (bit (TOP_BITS k) n \<or> bit w n)"
  by (auto simp: utf8_lead_def bit_simps dest: bit_imp_le_length)

lemma lead_gen:
  assumes k: "k < 8" and T: "\<And>n. bit (TOP_BITS j) n \<Longrightarrow> k \<le> n"
  shows "c AND NOT (mask k) = TOP_BITS j \<and> w = ucast (c AND mask k) \<longleftrightarrow> drop_bit k w = 0 \<and> c = utf8_lead j w"
proof
  assume a: "c AND NOT (mask k) = TOP_BITS j \<and> w = ucast (c AND mask k)"
  then have "drop_bit k w = 0" by (auto intro!: bit_word_eqI simp: bit_simps)
  moreover have "c = utf8_lead j w"
  proof (rule bit_word_eqI)
    fix n assume "n < LENGTH(8)"
    then show "bit c n = bit (utf8_lead j w) n"
      using a [THEN conjunct2] a [THEN conjunct1, symmetric] by (cases "n < k") (auto simp: bit_lead bit_simps)
  qed
  ultimately show "drop_bit k w = 0 \<and> c = utf8_lead j w" ..
next
  assume a: "drop_bit k w = 0 \<and> c = utf8_lead j w"
  have w: "bit w n \<Longrightarrow> n < k" for n using a drop_0_bit by blast
  have "c AND NOT (mask k) = TOP_BITS j"
  proof (rule bit_word_eqI)
    fix n assume "n < LENGTH(8)"
    then show "bit (c AND NOT (mask k)) n = bit (TOP_BITS j) n"
      using a T [of n] w [of n] by (auto simp: bit_lead bit_simps)
  qed
  moreover have "w = ucast (c AND mask k)"
  proof (rule bit_word_eqI)
    fix n assume "n < LENGTH(32)"
    then show "bit w n = bit (ucast (c AND mask k) :: u32) n"
      using a T [of n] w [of n] k by (auto simp: bit_lead bit_simps)
  qed
  ultimately show "c AND NOT (mask k) = TOP_BITS j \<and> w = ucast (c AND mask k)" ..
qed

lemma lead_step:
  "c AND 0xe0 = 0xc0 \<and> w = ucast (c AND 0x1f) \<longleftrightarrow> drop_bit 5 w = 0 \<and> c = utf8_lead 2 w"
  "c AND 0xf0 = 0xe0 \<and> w = ucast (c AND 0xf) \<longleftrightarrow> drop_bit 4 w = 0 \<and> c = utf8_lead 3 w"
  "c AND 0xf8 = 0xf0 \<and> w = ucast (c AND 7) \<longleftrightarrow> drop_bit 3 w = 0 \<and> c = utf8_lead 4 w"
proof -
  have T: "bit (TOP_BITS 2) n \<Longrightarrow> 5 \<le> n" "bit (TOP_BITS 3) n \<Longrightarrow> 4 \<le> n" "bit (TOP_BITS 4) n \<Longrightarrow> 3 \<le> n" for n
  proof -
    have "TOP_BITS 2 = NOT (mask 6)" "TOP_BITS 3 = NOT (mask 5)" "TOP_BITS 4 = NOT (mask 4)"
      unfolding masks by (simp_all add: mask_eq_exp_minus_1)
    then show "bit (TOP_BITS 2) n \<Longrightarrow> 5 \<le> n" "bit (TOP_BITS 3) n \<Longrightarrow> 4 \<le> n" "bit (TOP_BITS 4) n \<Longrightarrow> 3 \<le> n"
      by (auto simp: bit_simps)
  qed
  have m: "NOT 0x1f = (0xe0 :: byte)" "NOT 0xf = (0xf0 :: byte)" "NOT 7 = (0xf8 :: byte)"
    "mask 5 = (0x1f :: byte)" "mask 4 = (0xf :: byte)" "mask 3 = (7 :: byte)"
    by (simp_all add: mask_eq_exp_minus_1)
  show "c AND 0xe0 = 0xc0 \<and> w = ucast (c AND 0x1f) \<longleftrightarrow> drop_bit 5 w = 0 \<and> c = utf8_lead 2 w"
    using lead_gen [where j = 2, OF _ T(1), of c w] by (simp only: masks m)
  show  "c AND 0xf0 = 0xe0 \<and> w = ucast (c AND 0xf) \<longleftrightarrow> drop_bit 4 w = 0 \<and> c = utf8_lead 3 w"
    using lead_gen [where j = 3, OF _ T(2), of c w] by (simp only: masks m)
  show  "c AND 0xf8 = 0xf0 \<and> w = ucast (c AND 7) \<longleftrightarrow> drop_bit 3 w = 0 \<and> c = utf8_lead 4 w"
    using lead_gen [where j = 4, OF _ T(3), of c w] by (simp only: masks m)
qed


text \<open>The ranges of the encoding lengths in terms of the bits that are dropped.\<close>

lemma drop_0_less: "n < 32 \<Longrightarrow> drop_bit n (w :: u32) = 0 \<longleftrightarrow> unat w < 2 ^ n"
  by (simp add: word_unat_eq_iff [of "drop_bit n w"] unat_drop_bit_word div_eq_0_iff)

lemma multi_iff:
  assumes "1 \<le> n" "n \<le> 3" "drop_bit (32 - 6 * n) v = 0"
  shows "cbs_get_utf8_multi cbs n v lower = (Some w, rest) \<longleftrightarrow>
    drop_bit (6 * n) w = v \<and> cbs = conts n w @ rest \<and> is_valid_code_point w \<and> lower \<le> w"
proof -
  have "cbs_get_utf8_multi cbs n v lower = (Some w, rest) \<longleftrightarrow>
      utf8_tail cbs n v = (Some w, rest) \<and> is_valid_code_point w \<and> lower \<le> w"
    by (auto simp: cbs_get_utf8_multi_def split: prod.splits option.splits)
  then show ?thesis unfolding utf8_tail_iff [OF assms(2,3)] by blast
qed

lemma ascii: "(c :: byte) \<le> 0x7f \<longleftrightarrow> \<not> bit c 7"
proof -
  have "c \<le> 0x7f \<longleftrightarrow> unat c < 2 ^ 7" by (simp add: word_le_nat_alt, arith)
  also have "\<dots> \<longleftrightarrow> take_bit 7 c = c" by (rule take_bit_small)
  also have "\<dots> \<longleftrightarrow> \<not> bit c 7" by (auto simp: byte_bits bit_simps)
  finally show ?thesis .
qed

lemma valid_latin1: "w \<le> 0xff \<Longrightarrow> is_valid_code_point w"
proof -
  assume w: "w \<le> 0xff"
  have "\<not> bit w 15" using w bit_word_less [of w 8 15] by (auto simp: word_le_nat_alt word_less_nat_alt)
  then have "w AND 0xfffe \<noteq> 0xfffe" by (auto dest: arg_cong [of _ _ "\<lambda>x. bit x 15"] simp: bit_simps)
  then show ?thesis using w by (auto simp: is_valid_code_point_def word_le_nat_alt word_less_nat_alt)
qed

lemma valid_ascii: "w \<le> 0x7f \<Longrightarrow> is_valid_code_point w"
  by (rule valid_latin1) (simp add: word_le_nat_alt)

lemma get_utf8_iff:
  "cbs_get_utf8 cbs = (Some w, rest) \<longleftrightarrow> is_valid_code_point w \<and> cbs = utf8_enc w @ rest"
proof (cases cbs)
  case Nil
  then show ?thesis by (simp add: cbs_get_utf8_def CBS_get_u8_Cons utf8_enc_def)
next
  case (Cons c cs)
  have d: "drop_bit (32 - 6 * 1) (ucast (c AND 0x1f) :: u32) = 0" "drop_bit (32 - 6 * 2) (ucast (c AND 0xf) :: u32) = 0"
    "drop_bit (32 - 6 * 3) (ucast (c AND 7) :: u32) = 0"
    by (auto intro!: bit_word_eqI simp: bit_simps dest: bit_imp_le_length)
  have m: "cbs_get_utf8_multi cs 1 (ucast (c AND 0x1f)) lo = (Some w, rest) \<longleftrightarrow>
       drop_bit (6 * 1) w = ucast (c AND 0x1f) \<and> cs = conts 1 w @ rest \<and> is_valid_code_point w \<and> lo \<le> w"
     "cbs_get_utf8_multi cs 2 (ucast (c AND 0xf)) lo = (Some w, rest) \<longleftrightarrow>
       drop_bit (6 * 2) w = ucast (c AND 0xf) \<and> cs = conts 2 w @ rest \<and> is_valid_code_point w \<and> lo \<le> w"
     "cbs_get_utf8_multi cs 3 (ucast (c AND 7)) lo = (Some w, rest) \<longleftrightarrow>
       drop_bit (6 * 3) w = ucast (c AND 7) \<and> cs = conts 3 w @ rest \<and> is_valid_code_point w \<and> lo \<le> w" for lo
    by (rule multi_iff; simp add: d [simplified])+
  have l: "c AND 0xe0 = 0xc0 \<and> drop_bit (6 * 1) w = ucast (c AND 0x1f) \<longleftrightarrow> unat w < 2 ^ 11 \<and> c = utf8_lead 2 (drop_bit 6 w)"
    "c AND 0xf0 = 0xe0 \<and> drop_bit (6 * 2) w = ucast (c AND 0xf) \<longleftrightarrow> unat w < 2 ^ 16 \<and> c = utf8_lead 3 (drop_bit 12 w)"
    "c AND 0xf8 = 0xf0 \<and> drop_bit (6 * 3) w = ucast (c AND 7) \<longleftrightarrow> unat w < 2 ^ 21 \<and> c = utf8_lead 4 (drop_bit 18 w)"
    unfolding lead_step by (simp_all add: drop_bit_drop_bit drop_0_less)
  have conts: "conts 1 w = [utf8_cont w]" "conts 2 w = [utf8_cont (drop_bit 6 w), utf8_cont w]"
    "conts 3 w = [utf8_cont (drop_bit 12 w), utf8_cont (drop_bit 6 w), utf8_cont w]"
    by (simp_all add: eval_nat_numeral)
  have "cbs_get_utf8 cbs = (Some w, rest) \<longleftrightarrow>
      (c \<le> 0x7f \<and> w = ucast c \<and> cs = rest) \<or>
      (c AND 0xe0 = 0xc0 \<and> drop_bit (6 * 1) w = ucast (c AND 0x1f)) \<and> cs = conts 1 w @ rest \<and> is_valid_code_point w \<and> 0x80 \<le> w \<or>
      (c AND 0xf0 = 0xe0 \<and> drop_bit (6 * 2) w = ucast (c AND 0xf)) \<and> cs = conts 2 w @ rest \<and> is_valid_code_point w \<and> 0x800 \<le> w \<or>
      (c AND 0xf8 = 0xf0 \<and> drop_bit (6 * 3) w = ucast (c AND 7)) \<and> cs = conts 3 w @ rest \<and> is_valid_code_point w \<and> 0x10000 \<le> w"
    unfolding cbs_get_utf8_def Cons CBS_get_u8_Cons masks prod.case option.case
    using m [simplified] by (auto simp: ascii lead)
  also have "\<dots> \<longleftrightarrow> is_valid_code_point w \<and> c # cs = utf8_enc w @ rest"
  proof -
    have r: "unat w < 2 ^ 11 \<longleftrightarrow> w \<le> 0x7ff" "unat w < 2 ^ 16 \<longleftrightarrow> w \<le> 0xffff"
      "0x80 \<le> w \<longleftrightarrow> \<not> w \<le> 0x7f" "0x800 \<le> w \<longleftrightarrow> \<not> w \<le> 0x7ff" "0x10000 \<le> w \<longleftrightarrow> \<not> w \<le> 0xffff"
      "w \<le> 0x7f \<Longrightarrow> w \<le> 0x7ff" "w \<le> 0x7ff \<Longrightarrow> w \<le> 0xffff"
      by (auto simp: word_le_nat_alt)
    have hi: "is_valid_code_point w \<Longrightarrow> unat w < 2 ^ 21"
      by (auto simp: is_valid_code_point_def word_le_nat_alt not_less)
    have "c \<le> 0x7f \<and> w = ucast c \<longleftrightarrow> w \<le> 0x7f \<and> c = ucast w"
      by (auto simp: word_le_nat_alt unat_ucast_small ucast_ucast_small)
    then have a: "c \<le> 0x7f \<and> w = ucast c \<and> cs = rest \<longleftrightarrow> w \<le> 0x7f \<and> c = ucast w \<and> cs = rest" by blast
    show ?thesis
      unfolding l conts a r utf8_enc_def using hi valid_ascii [of w] r(6,7) by (auto split: if_splits)
  qed
  finally show ?thesis by (simp only: Cons)
qed


section \<open>Character encodings\<close>

text \<open>
  A character encoding: the reader accepts exactly the encodings of its characters and the
  writer appends them and refuses every other code point.
\<close>

locale text_codec = canonical_codec enc dec valid
  for enc :: "u32 \<Rightarrow> byte list" and dec :: "byte list \<Rightarrow> (u32 \<times> byte list) option" and valid :: "u32 \<Rightarrow> bool" +
  fixes add :: "cbb \<Rightarrow> nat \<Rightarrow> u32 \<Rightarrow> bool \<times> cbb"
  assumes add_appends: "valid v \<Longrightarrow> appends (\<lambda>s. add s i v) i (enc v)"
    and add_refuses: "\<not> valid v \<Longrightarrow> add s i v = (False, s)"
    and enc_size: "0 < length (enc v)" "length (enc v) \<le> 4"

fun add_all :: "(cbb \<Rightarrow> nat \<Rightarrow> u32 \<Rightarrow> bool \<times> cbb) \<Rightarrow> cbb \<Rightarrow> nat \<Rightarrow> u32 list \<Rightarrow> bool \<times> cbb" where
  "add_all add s i [] = (True, s)"
| "add_all add s i (v # vs) = cbb_and (add s i v) (\<lambda>c. add_all add c i vs)"

lemma cbb_and_assoc: "cbb_and (cbb_and x f) g = cbb_and x (\<lambda>c. cbb_and (f c) g)"
  by (simp add: cbb_and_def split: prod.split bool.split)

context text_codec
begin

lemma add_all_appends:
  "list_all valid vs \<Longrightarrow> appends g i bs \<Longrightarrow>
   appends (\<lambda>s. cbb_and (add_all add s i vs) g) i (concat (map enc vs) @ bs)"
proof (induction vs)
  case Nil
  then show ?case by (simp add: cbb_and_def)
next
  case (Cons v vs)
  then have "appends (then_do (\<lambda>s. add s i v) (\<lambda>s. cbb_and (add_all add s i vs) g)) i
      (enc v @ concat (map enc vs) @ bs)"
    by (intro appends_seq) (simp_all add: add_appends)
  then show ?case by (simp add: then_do_cbb_and cbb_and_assoc)
qed

lemma length_concat_enc: "length (concat (map enc vs)) \<le> 4 * length vs"
  using enc_size(2) by (induction vs) (auto intro: add_mono)

lemmas read_enc = dec_enc and read_sound = dec_sound

lemma dec_shorter: "dec bs = Some (v, rest) \<Longrightarrow> length rest < length bs"
  using dec_sound [of bs v rest] enc_size(1) [of v] by auto

end

lemma appends_utf8: "is_valid_code_point u \<Longrightarrow> appends (\<lambda>s. cbb_add_utf8 s i u) i (utf8_enc u)"
proof -
  assume v: "is_valid_code_point u"
  have hi: "u \<le> 0x10ffff" using v by (auto simp: is_valid_code_point_def not_less)
  note seq = appends_seq [OF appends_u8]
  show ?thesis
    using v hi seq [OF appends_u8, of i "utf8_lead 2 (drop_bit 6 u)" "utf8_cont u"]
      seq [OF seq [OF appends_u8], of i "utf8_lead 3 (drop_bit 12 u)" "utf8_cont (drop_bit 6 u)" "utf8_cont u"]
      seq [OF seq [OF seq [OF appends_u8]], of i "utf8_lead 4 (drop_bit 18 u)" "utf8_cont (drop_bit 12 u)"
        "utf8_cont (drop_bit 6 u)" "utf8_cont u"]
    by (simp add: cbb_add_utf8_def utf8_enc_def then_do_cbb_and appends_u8)
qed

interpretation utf8: text_codec utf8_enc "run_cbs cbs_get_utf8" is_valid_code_point cbb_add_utf8
  by unfold_locales
    (use get_utf8_iff appends_utf8 in \<open>auto simp: cbb_add_utf8_def utf8_enc_def\<close>)

lemma byte_less: "unat (ucast (a :: byte) :: u32) \<le> 255" "ucast (ucast a :: u32) = a"
proof -
  have "unat a < 256" using unsigned_less [of a, where 'a = nat] by simp
  then show "unat (ucast a :: u32) \<le> 255" "ucast (ucast a :: u32) = a"
    by (simp_all add: unat_ucast_small ucast_ucast_small)
qed

lemma CBS_get_u16_iff: "CBS_get_u16 bs = (Some c, rest) \<longleftrightarrow> bs = be_bytes 2 c @ rest"
  using cbs_u16.dec_iff [of bs c rest] by (simp add: be_bytes_ucast take_bit_word_eq_self)

lemma CBS_get_u32_iff: "CBS_get_u32 bs = (Some c, rest) \<longleftrightarrow> bs = be_bytes 4 c @ rest"
  using cbs_u32.dec_iff [of bs c rest] by (simp add: be_bytes_ucast take_bit_word_eq_self)

lemma u16_ucast: "unat (ucast (c :: u16) :: u32) \<le> 0xffff" "ucast (ucast c :: u32) = c"
  "unat u \<le> 0xffff \<Longrightarrow> ucast (ucast (u :: u32) :: u16) = u"
proof -
  have "unat c < 65536" using unsigned_less [of c, where 'a = nat] by simp
  then show "unat (ucast c :: u32) \<le> 0xffff" "ucast (ucast c :: u32) = c"
    by (simp_all add: unat_ucast_small ucast_ucast_small)
qed (simp add: ucast_ucast_small)

lemma appends_word:
  assumes "0 < n" "n \<le> 8" "8 * n = LENGTH('a)"
  shows "appends (\<lambda>s. flush_then s i (\<lambda>b. cbb_buffer_add_u b (ucast (v :: 'a::len word)) n)) i (be_bytes n v)"
proof -
  have "drop_bit (8 * n) (ucast v :: u64) = 0"
    using assms(3) by (auto intro!: bit_word_eqI simp: bit_simps dest: bit_imp_le_length)
  from appends_u [OF assms(1,2) this] show ?thesis using assms by (simp add: be_bytes_ucast)
qed

interpretation latin1: text_codec "\<lambda>u. [ucast u]" "run_cbs cbs_get_latin1" "\<lambda>u. u \<le> 0xff" cbb_add_latin1
proof unfold_locales
  fix v :: u32 and rest assume "v \<le> 0xff"
  then show "run_cbs cbs_get_latin1 ([ucast v] @ rest) = Some (v, rest)"
    by (simp add: cbs_get_latin1_def CBS_get_u8_Cons word_le_nat_alt ucast_ucast_small)
next
  fix bs v rest assume "run_cbs cbs_get_latin1 bs = Some (v, rest)"
  then show "v \<le> 0xff \<and> bs = [ucast v] @ rest"
    using byte_less
    by (cases bs) (auto simp: cbs_get_latin1_def CBS_get_u8_Cons word_le_nat_alt)
qed (auto simp: cbb_add_latin1_def appends_u8)

interpretation ucs2: text_codec "\<lambda>u. be_bytes 2 (ucast u :: u16)" "run_cbs cbs_get_ucs2_be"
  "\<lambda>u. u \<le> 0xffff \<and> is_valid_code_point u" cbb_add_ucs2_be
proof unfold_locales
  fix v :: u32 and rest assume v: "v \<le> 0xffff \<and> is_valid_code_point v"
  have "CBS_get_u16 (be_bytes 2 (ucast v :: u16) @ rest) = (Some (ucast v), rest)"
    unfolding CBS_get_u16_iff by simp
  then show "run_cbs cbs_get_ucs2_be (be_bytes 2 (ucast v :: u16) @ rest) = Some (v, rest)"
    using v by (simp add: cbs_get_ucs2_be_def word_le_nat_alt u16_ucast(3))
next
  fix bs v rest assume "run_cbs cbs_get_ucs2_be bs = Some (v, rest)"
  then show "(v \<le> 0xffff \<and> is_valid_code_point v) \<and> bs = be_bytes 2 (ucast v :: u16) @ rest"
    by (auto simp: cbs_get_ucs2_be_def CBS_get_u16_iff word_le_nat_alt u16_ucast(1,2)
        split: prod.splits option.splits if_splits)
next
  fix v :: u32 and i assume "v \<le> 0xffff \<and> is_valid_code_point v"
  then show "appends (\<lambda>s. cbb_add_ucs2_be s i v) i (be_bytes 2 (ucast v :: u16))"
    using appends_word [of 2 i "ucast v :: u16"] by (simp add: cbb_add_ucs2_be_def CBB_add_u16_def)
qed (auto simp: cbb_add_ucs2_be_def)

interpretation utf32: text_codec "be_bytes 4" "run_cbs cbs_get_utf32_be" is_valid_code_point cbb_add_utf32_be
proof unfold_locales
  fix v :: u32 and rest assume v: "is_valid_code_point v"
  have "CBS_get_u32 (be_bytes 4 v @ rest) = (Some v, rest)"
    unfolding CBS_get_u32_iff by simp
  then show "run_cbs cbs_get_utf32_be (be_bytes 4 v @ rest) = Some (v, rest)"
    using v by (simp add: cbs_get_utf32_be_def)
next
  fix bs v rest assume "run_cbs cbs_get_utf32_be bs = Some (v, rest)"
  then show "is_valid_code_point v \<and> bs = be_bytes 4 v @ rest"
    by (auto simp: cbs_get_utf32_be_def CBS_get_u32_iff split: prod.splits option.splits if_splits)
next
  fix v :: u32 and i assume "is_valid_code_point v"
  then show "appends (\<lambda>s. cbb_add_utf32_be s i v) i (be_bytes 4 v)"
    using appends_word [of 4 i v] by (simp add: cbb_add_utf32_be_def CBB_add_u32_def)
qed (auto simp: cbb_add_utf32_be_def)


lemma length_utf8_enc: "length (utf8_enc u) = cbb_get_utf8_len u"
  by (simp add: utf8_enc_def cbb_get_utf8_len_def)

text \<open>
  C19. Each of the four readers accepts exactly the encodings of its characters: UTF-8 in the
  shortest form and never a surrogate, a noncharacter or a value beyond U+10FFFF; Latin-1 every
  byte; UCS-2 and UTF-32 the valid code points. \<open>cbb_get_utf8_len\<close> is the length of the encoding.
\<close>

theorem unicode_readers_exact:
  "(cbs_get_utf8 cbs = (Some u, rest) \<longleftrightarrow> is_valid_code_point u \<and> cbs = utf8_enc u @ rest) \<and>
   (cbs_get_latin1 cbs = (Some u, rest) \<longleftrightarrow> u \<le> 0xff \<and> cbs = ucast u # rest) \<and>
   (cbs_get_ucs2_be cbs = (Some u, rest) \<longleftrightarrow>
      u \<le> 0xffff \<and> is_valid_code_point u \<and> cbs = be_bytes 2 (ucast u :: u16) @ rest) \<and>
   (cbs_get_utf32_be cbs = (Some u, rest) \<longleftrightarrow> is_valid_code_point u \<and> cbs = be_bytes 4 u @ rest) \<and>
   length (utf8_enc u) = cbb_get_utf8_len u"
  using get_utf8_iff latin1.dec_iff [of cbs u rest] ucs2.dec_iff [of cbs u rest] utf32.dec_iff [of cbs u rest]
    length_utf8_enc by simp

text \<open>A list of characters written into a growing builder and read back.\<close>

text \<open>
  A list of valid code points written with \<open>cbb_add_utf8\<close> into a growing builder has the total
  length that \<open>cbb_get_utf8_len\<close> predicts and is read back by \<open>cbs_get_utf8\<close>.
\<close>

theorem unicode_text_roundtrip:
  assumes "list_all is_valid_code_point us" "length us < 2 ^ 32"
    and "CBB_init cap alloc = Some cbb" "cap < size_mod" "\<forall>n. alloc n"
  shows "\<exists>c bytes. cbb_and (add_all cbb_add_utf8 cbb 0 us) (\<lambda>c. CBB_flush c 0) = (True, c) \<and>
    CBB_finish c 0 = Some bytes \<and> length bytes = sum_list (map cbb_get_utf8_len us) \<and>
    decode_many (run_cbs cbs_get_utf8) (length us) bytes = Some (us, [])"
proof -
  define bs where "bs = concat (map utf8_enc us)"
  have "length bs + 5 < size_mod" using utf8.length_concat_enc [of us] assms(2) by (simp add: bs_def)
  from appends_builds [OF utf8.add_all_appends [OF assms(1) appends_flush] assms(3-5)] this
  obtain c where c: "cbb_and (add_all cbb_add_utf8 cbb 0 us) (\<lambda>c. CBB_flush c 0) = (True, c)"
    "CBB_finish c 0 = Some bs"
    by (auto simp: bs_def)
  moreover have "length bs = sum_list (map cbb_get_utf8_len us)"
    by (simp add: bs_def length_concat comp_def length_utf8_enc)
  moreover have "decode_many (run_cbs cbs_get_utf8) (length us) bs = Some (us, [])"
    using utf8.decode_many_enc [OF assms(1), of "[]"] by (simp add: bs_def)
  ultimately show ?thesis by blast
qed

theorem unicode_text_roundtrip_witness:
  "\<exists>cbb c bytes. CBB_init 0 (\<lambda>n. True) = Some cbb \<and>
    cbb_and (add_all cbb_add_utf8 cbb 0 [0x20ac, 0x1f600]) (\<lambda>c. CBB_flush c 0) = (True, c) \<and>
    CBB_finish c 0 = Some bytes \<and> length bytes = 7"
proof -
  obtain cbb where cbb: "CBB_init 0 (\<lambda>n. True) = Some cbb" by (auto simp: CBB_init_def)
  have v: "list_all is_valid_code_point [0x20ac, 0x1f600]" by (simp add: is_valid_code_point_def)
  have "sum_list (map cbb_get_utf8_len [0x20ac, 0x1f600]) = 7" by (simp add: cbb_get_utf8_len_def)
  with unicode_text_roundtrip [OF v _ cbb] cbb show ?thesis by auto
qed

end
