(* ===== verification/Mbstring.thy ===== *)
theory Mbstring
  imports Unicode
begin

text \<open>
  Model of \<open>crypto/asn1/a_mbstr.c\<close>: \<open>ASN1_mbstring_ncopy\<close> reads a string in one of four encodings,
  finds the smallest permitted ASN.1 string type that holds it and writes it in the encoding of
  that type. Errors are values of \<open>mb_error\<close>; memory is the predicate \<open>alloc\<close>, true of the sizes
  for which an allocation succeeds; the \<open>out\<close> argument is NULL, points to NULL or to a string.
\<close>

datatype mbform = MBSTRING_UTF8 | MBSTRING_ASC | MBSTRING_BMP | MBSTRING_UNIV | MBSTRING_UNKNOWN

datatype mb_error =
    INVALID_STRING | UNKNOWN_FORMAT | ILLEGAL_CHARACTERS | STRING_TOO_SHORT | STRING_TOO_LONG
  | MALLOC_FAILURE | INTERNAL_ERROR

definition B_ASN1_PRINTABLESTRING :: u64 where "B_ASN1_PRINTABLESTRING = 0x0002"
definition B_ASN1_T61STRING :: u64 where "B_ASN1_T61STRING = 0x0004"
definition B_ASN1_IA5STRING :: u64 where "B_ASN1_IA5STRING = 0x0010"
definition B_ASN1_UNIVERSALSTRING :: u64 where "B_ASN1_UNIVERSALSTRING = 0x0100"
definition B_ASN1_BMPSTRING :: u64 where "B_ASN1_BMPSTRING = 0x0800"
definition B_ASN1_UTF8STRING :: u64 where "B_ASN1_UTF8STRING = 0x2000"

definition DIRSTRING_TYPE :: u64 where
  "DIRSTRING_TYPE = B_ASN1_PRINTABLESTRING OR B_ASN1_T61STRING OR B_ASN1_BMPSTRING OR B_ASN1_UTF8STRING"

definition V_ASN1_UTF8STRING :: nat where "V_ASN1_UTF8STRING = 12"
definition V_ASN1_PRINTABLESTRING :: nat where "V_ASN1_PRINTABLESTRING = 19"
definition V_ASN1_T61STRING :: nat where "V_ASN1_T61STRING = 20"
definition V_ASN1_IA5STRING :: nat where "V_ASN1_IA5STRING = 22"
definition V_ASN1_UNIVERSALSTRING :: nat where "V_ASN1_UNIVERSALSTRING = 28"
definition V_ASN1_BMPSTRING :: nat where "V_ASN1_BMPSTRING = 30"

datatype out_arg = No_out | Out_null | Out_given

text \<open>\<open>strchr\<close> also finds the zero byte that ends its string.\<close>

definition strchr_found :: "byte list \<Rightarrow> u32 \<Rightarrow> bool" where
  "strchr_found s ch \<longleftrightarrow> ucast ch \<in> set (s @ [0])"

definition is_printable :: "u32 \<Rightarrow> bool" where
  "is_printable v \<longleftrightarrow>
     v \<le> 0x7f \<and>
     (0x61 \<le> v \<and> v \<le> 0x7a \<or> 0x41 \<le> v \<and> v \<le> 0x5a \<or> 0x30 \<le> v \<and> v \<le> 0x39 \<or>
      v = 0x20 \<or> strchr_found [0x27, 0x28, 0x29, 0x2b, 0x2c, 0x2d, 0x2e, 0x2f, 0x3a, 0x3d, 0x3f] v)"

definition decode_func :: "mbform \<Rightarrow> cbs \<Rightarrow> u32 option \<times> cbs" where
  "decode_func inform =
     (case inform of MBSTRING_BMP \<Rightarrow> cbs_get_ucs2_be | MBSTRING_UNIV \<Rightarrow> cbs_get_utf32_be
      | MBSTRING_UTF8 \<Rightarrow> cbs_get_utf8 | MBSTRING_ASC \<Rightarrow> cbs_get_latin1
      | MBSTRING_UNKNOWN \<Rightarrow> (\<lambda>cbs. (None, cbs)))"

definition encode_func :: "mbform \<Rightarrow> cbb \<Rightarrow> nat \<Rightarrow> u32 \<Rightarrow> bool \<times> cbb" where
  "encode_func outform =
     (case outform of MBSTRING_BMP \<Rightarrow> cbb_add_ucs2_be | MBSTRING_UNIV \<Rightarrow> cbb_add_utf32_be
      | MBSTRING_UTF8 \<Rightarrow> cbb_add_utf8 | MBSTRING_ASC \<Rightarrow> cbb_add_latin1
      | MBSTRING_UNKNOWN \<Rightarrow> (\<lambda>cbb i u. (False, cbb)))"

lemma decode_func_shorter [termination_simp]:
  "decode_func inform cbs = (Some c, cbs') \<Longrightarrow> length cbs' < length cbs"
  using utf8.dec_shorter [of cbs c cbs'] latin1.dec_shorter [of cbs c cbs'] ucs2.dec_shorter [of cbs c cbs']
    utf32.dec_shorter [of cbs c cbs']
  by (cases inform) (auto simp: decode_func_def)

text \<open>The formats that are still possible after a character.\<close>

definition drop_format :: "u64 \<Rightarrow> bool \<Rightarrow> u64 \<Rightarrow> u64" where
  "drop_format b fits m = (if m AND b \<noteq> 0 \<and> \<not> fits then m AND NOT b else m)"

definition mask_step :: "u64 \<Rightarrow> u32 \<Rightarrow> u64" where
  "mask_step m c =
     (let m = drop_format B_ASN1_PRINTABLESTRING (is_printable c) m;
          m = drop_format B_ASN1_IA5STRING (c \<le> 127) m;
          m = drop_format B_ASN1_T61STRING (c \<le> 0xff) m
      in drop_format B_ASN1_BMPSTRING (c \<le> 0xffff) m)"

function mb_scan :: "mbform \<Rightarrow> cbs \<Rightarrow> u64 \<Rightarrow> nat \<Rightarrow> nat \<Rightarrow> mb_error + u64 \<times> nat \<times> nat" where
  "mb_scan inform cbs m nchar utf8_len =
     (if length cbs = 0 then Inr (m, nchar, utf8_len)
      else case decode_func inform cbs of
             (None, _) \<Rightarrow> Inl INVALID_STRING
           | (Some c, cbs') \<Rightarrow>
               (if nchar = 0 \<and> (inform = MBSTRING_BMP \<or> inform = MBSTRING_UNIV) \<and> c = 0xfeff then Inl ILLEGAL_CHARACTERS
                else let m' = mask_step m c
                     in if m' = 0 then Inl ILLEGAL_CHARACTERS
                        else mb_scan inform cbs' m' (nchar + 1) (utf8_len + cbb_get_utf8_len c)))"
  by pat_completeness auto
termination by (relation "measure (\<lambda>(f, cbs, m, n, u). length cbs)") (auto dest: decode_func_shorter [OF sym])

declare mb_scan.simps [simp del]

text \<open>The type, its encoding and the estimate of the size.\<close>

definition mb_choose :: "u64 \<Rightarrow> nat \<Rightarrow> nat \<Rightarrow> nat \<times> mbform \<times> nat" where
  "mb_choose m nchar utf8_len =
     (if m AND B_ASN1_PRINTABLESTRING \<noteq> 0 then (V_ASN1_PRINTABLESTRING, MBSTRING_ASC, nchar)
      else if m AND B_ASN1_IA5STRING \<noteq> 0 then (V_ASN1_IA5STRING, MBSTRING_ASC, nchar)
      else if m AND B_ASN1_T61STRING \<noteq> 0 then (V_ASN1_T61STRING, MBSTRING_ASC, nchar)
      else if m AND B_ASN1_BMPSTRING \<noteq> 0 then (V_ASN1_BMPSTRING, MBSTRING_BMP, 2 * nchar)
      else if m AND B_ASN1_UNIVERSALSTRING \<noteq> 0 then (V_ASN1_UNIVERSALSTRING, MBSTRING_UNIV, 4 * nchar)
      else (V_ASN1_UTF8STRING, MBSTRING_UTF8, utf8_len))"

function mb_copy :: "mbform \<Rightarrow> mbform \<Rightarrow> cbs \<Rightarrow> cbb \<Rightarrow> bool \<times> cbb" where
  "mb_copy inform outform cbs cbb =
     (if length cbs = 0 then (True, cbb)
      else case decode_func inform cbs of
             (None, _) \<Rightarrow> (False, cbb)
           | (Some c, cbs') \<Rightarrow> cbb_and (encode_func outform cbb 0 c) (mb_copy inform outform cbs'))"
  by pat_completeness auto
termination by (relation "measure (\<lambda>(f, g, cbs, c). length cbs)") (auto dest: decode_func_shorter [OF sym])

declare mb_copy.simps [simp del]

definition mb_transcode :: "mbform \<Rightarrow> mbform \<Rightarrow> cbs \<Rightarrow> nat \<Rightarrow> (nat \<Rightarrow> bool) \<Rightarrow> mb_error + byte list" where
  "mb_transcode inform outform inp size_estimate alloc =
     (case CBB_init (size_estimate + 1) alloc of
        None \<Rightarrow> Inl MALLOC_FAILURE
      | Some cbb \<Rightarrow>
          (case cbb_and (mb_copy inform outform inp cbb) (\<lambda>c. CBB_add_u8 c 0 0) of
             (False, _) \<Rightarrow> Inl INTERNAL_ERROR
           | (True, cbb) \<Rightarrow>
               (case CBB_finish cbb 0 of
                  None \<Rightarrow> Inl INTERNAL_ERROR
                | Some data \<Rightarrow>
                    (if length data < 1 \<or> length data > 0x7fffffff then Inl INTERNAL_ERROR
                     else Inr (take (length data - 1) data)))))"

definition sizeof_ASN1_STRING :: nat where "sizeof_ASN1_STRING = 24"

definition ASN1_mbstring_ncopy ::
  "byte list \<Rightarrow> int \<Rightarrow> mbform \<Rightarrow> u64 \<Rightarrow> int \<Rightarrow> int \<Rightarrow> out_arg \<Rightarrow> (nat \<Rightarrow> bool) \<Rightarrow> mb_error + nat \<times> byte list option" where
  "ASN1_mbstring_ncopy buf len inform m minsize maxsize out alloc =
     (let inp = (if len = -1 then takeWhile (\<lambda>b. b \<noteq> 0) buf else take (nat len) buf);
          m = (if m = 0 then DIRSTRING_TYPE else m)
      in if inform = MBSTRING_UNKNOWN then Inl UNKNOWN_FORMAT
         else case mb_scan inform (CBS_init inp) m 0 0 of
           Inl e \<Rightarrow> Inl e
         | Inr (m, nchar, utf8_len) \<Rightarrow>
             (if minsize > 0 \<and> nchar < nat minsize then Inl STRING_TOO_SHORT
              else if maxsize > 0 \<and> nchar > nat maxsize then Inl STRING_TOO_LONG
              else case mb_choose m nchar utf8_len of (str_type, outform, size_estimate) \<Rightarrow>
                (if out = No_out then Inr (str_type, None)
                 else if out = Out_null \<and> \<not> alloc sizeof_ASN1_STRING then Inl MALLOC_FAILURE
                 else if inform = outform then
                   (if alloc (length inp + 1) then Inr (str_type, Some inp) else Inl MALLOC_FAILURE)
                 else case mb_transcode inform outform (CBS_init inp) size_estimate alloc of
                        Inl e \<Rightarrow> Inl e
                      | Inr data \<Rightarrow> Inr (str_type, Some data))))"

definition ASN1_mbstring_copy ::
  "byte list \<Rightarrow> int \<Rightarrow> mbform \<Rightarrow> u64 \<Rightarrow> out_arg \<Rightarrow> (nat \<Rightarrow> bool) \<Rightarrow> mb_error + nat \<times> byte list option" where
  "ASN1_mbstring_copy buf len inform m out alloc = ASN1_mbstring_ncopy buf len inform m 0 0 out alloc"


section \<open>The chosen type\<close>

definition enc_of :: "mbform \<Rightarrow> u32 \<Rightarrow> byte list" where
  "enc_of f = (case f of MBSTRING_UTF8 \<Rightarrow> utf8_enc | MBSTRING_ASC \<Rightarrow> (\<lambda>u. [ucast u])
     | MBSTRING_BMP \<Rightarrow> (\<lambda>u. be_bytes 2 (ucast u :: u16)) | _ \<Rightarrow> be_bytes 4)"

definition valid_of :: "mbform \<Rightarrow> u32 \<Rightarrow> bool" where
  "valid_of f = (case f of MBSTRING_ASC \<Rightarrow> (\<lambda>u. u \<le> 0xff)
     | MBSTRING_BMP \<Rightarrow> (\<lambda>u. u \<le> 0xffff \<and> is_valid_code_point u) | _ \<Rightarrow> is_valid_code_point)"

text \<open>What the mask bit \<open>n\<close> requires of a character.\<close>

definition format_holds :: "nat \<Rightarrow> u32 \<Rightarrow> bool" where
  "format_holds n c \<longleftrightarrow> (n = 1 \<longrightarrow> is_printable c) \<and> (n = 4 \<longrightarrow> c \<le> 127) \<and> (n = 2 \<longrightarrow> c \<le> 0xff) \<and>
     (n = 11 \<longrightarrow> c \<le> 0xffff)"

definition permitted :: "u64 \<Rightarrow> u32 list \<Rightarrow> nat \<Rightarrow> bool" where
  "permitted m us n \<longleftrightarrow> bit m n \<and> list_all (format_holds n) us"

definition best_type :: "u64 \<Rightarrow> u32 list \<Rightarrow> nat \<times> mbform" where
  "best_type m us =
     (if permitted m us 1 then (V_ASN1_PRINTABLESTRING, MBSTRING_ASC)
      else if permitted m us 4 then (V_ASN1_IA5STRING, MBSTRING_ASC)
      else if permitted m us 2 then (V_ASN1_T61STRING, MBSTRING_ASC)
      else if permitted m us 11 then (V_ASN1_BMPSTRING, MBSTRING_BMP)
      else if permitted m us 8 then (V_ASN1_UNIVERSALSTRING, MBSTRING_UNIV)
      else (V_ASN1_UTF8STRING, MBSTRING_UTF8))"

lemmas format_bits = B_ASN1_PRINTABLESTRING_def B_ASN1_T61STRING_def B_ASN1_IA5STRING_def
  B_ASN1_UNIVERSALSTRING_def B_ASN1_BMPSTRING_def

lemma and_bit: "(m :: u64) AND B_ASN1_PRINTABLESTRING \<noteq> 0 \<longleftrightarrow> bit m 1" "m AND B_ASN1_T61STRING \<noteq> 0 \<longleftrightarrow> bit m 2"
  "m AND B_ASN1_IA5STRING \<noteq> 0 \<longleftrightarrow> bit m 4" "m AND B_ASN1_UNIVERSALSTRING \<noteq> 0 \<longleftrightarrow> bit m 8"
  "m AND B_ASN1_BMPSTRING \<noteq> 0 \<longleftrightarrow> bit m 11"
  using and_exp_eq_0_iff_not_bit [of m 1] and_exp_eq_0_iff_not_bit [of m 2] and_exp_eq_0_iff_not_bit [of m 4]
    and_exp_eq_0_iff_not_bit [of m 8] and_exp_eq_0_iff_not_bit [of m 11]
  by (simp_all add: format_bits)

lemma bit_drop_format: "b = 2 ^ k \<Longrightarrow> bit (drop_format b fits m) n \<longleftrightarrow> bit m n \<and> (n = k \<longrightarrow> fits)"
  using and_exp_eq_0_iff_not_bit [of m k] by (auto simp: drop_format_def bit_simps dest: bit_imp_le_length)

lemma bit_mask_step: "bit (mask_step m c) n \<longleftrightarrow> bit m n \<and> format_holds n c"
proof -
  have b: "B_ASN1_PRINTABLESTRING = 2 ^ 1" "B_ASN1_IA5STRING = 2 ^ 4" "B_ASN1_T61STRING = 2 ^ 2" "B_ASN1_BMPSTRING = 2 ^ 11"
    by (simp_all add: format_bits)
  show ?thesis unfolding mask_step_def Let_def
    by (auto simp: bit_drop_format [OF b(1)] bit_drop_format [OF b(2)] bit_drop_format [OF b(3)]
      bit_drop_format [OF b(4)] format_holds_def)
qed

lemma bit_foldl_mask: "bit (foldl mask_step m us) n \<longleftrightarrow> permitted m us n"
  by (induction us arbitrary: m) (auto simp: permitted_def bit_mask_step)

lemma mb_choose_best:
  "mb_choose (foldl mask_step m us) nchar u = (t, f, est) \<Longrightarrow> best_type m us = (t, f)"
  by (auto simp: mb_choose_def and_bit bit_foldl_mask best_type_def split: if_splits)


section \<open>Reading and writing the characters\<close>

lemma text_codec_of: "f \<noteq> MBSTRING_UNKNOWN \<Longrightarrow> text_codec (enc_of f) (run_cbs (decode_func f)) (valid_of f) (encode_func f)"
  using utf8.text_codec_axioms latin1.text_codec_axioms ucs2.text_codec_axioms utf32.text_codec_axioms
    utf8.canonical_codec_axioms latin1.canonical_codec_axioms ucs2.canonical_codec_axioms utf32.canonical_codec_axioms
  by (cases f) (simp_all add: text_codec_def enc_of_def decode_func_def valid_of_def encode_func_def)

lemma decode_enc: "f \<noteq> MBSTRING_UNKNOWN \<Longrightarrow> valid_of f c \<Longrightarrow> decode_func f (enc_of f c @ rest) = (Some c, rest)"
  using text_codec.read_enc [OF text_codec_of, of f c rest] by simp

lemma decode_sound:
  "f \<noteq> MBSTRING_UNKNOWN \<Longrightarrow> decode_func f cbs = (Some c, rest) \<Longrightarrow> valid_of f c \<and> cbs = enc_of f c @ rest"
  using text_codec.read_sound [OF text_codec_of, of f cbs c rest] by simp

lemma enc_of_size: "f \<noteq> MBSTRING_UNKNOWN \<Longrightarrow> enc_of f c \<noteq> []"
  using text_codec.enc_size(1) [OF text_codec_of, of f c] by simp

lemma permitted_0: "foldl mask_step m us = 0 \<longleftrightarrow> (\<forall>n. \<not> permitted m us n)"
  using bit_foldl_mask [of m us] by (metis bit_eqI bit_0_eq bot_apply bot_bool_def)

definition has_bom :: "mbform \<Rightarrow> u32 list \<Rightarrow> bool" where
  "has_bom f us \<longleftrightarrow> f \<in> {MBSTRING_BMP, MBSTRING_UNIV} \<and> us \<noteq> [] \<and> hd us = 0xfeff"

lemma foldl_mask_0: "foldl mask_step 0 us = 0"
  by (induction us) (simp_all add: mask_step_def drop_format_def)

lemma mb_scan_enc:
  assumes f: "f \<noteq> MBSTRING_UNKNOWN"
  shows "list_all (valid_of f) us \<Longrightarrow> mb_scan f (concat (map (enc_of f) us)) m n u =
    (if n = 0 \<and> has_bom f us \<or> us \<noteq> [] \<and> foldl mask_step m us = 0 then Inl ILLEGAL_CHARACTERS
     else Inr (foldl mask_step m us, n + length us, u + sum_list (map cbb_get_utf8_len us)))"
proof (induction us arbitrary: m n u)
  case Nil
  then show ?case by (simp add: mb_scan.simps has_bom_def)
next
  case (Cons c us)
  then have v: "valid_of f c" "list_all (valid_of f) us" by simp_all
  show ?case
    using enc_of_size [OF f, of c] foldl_mask_0 [of us]
    by (subst mb_scan.simps)
      (auto simp add: decode_enc [OF f v(1)] Cons.IH [OF v(2)] Let_def has_bom_def)
qed

lemma mb_scan_sound:
  assumes f: "f \<noteq> MBSTRING_UNKNOWN"
  shows "mb_scan f cbs m n u = Inr r \<Longrightarrow> \<exists>us. list_all (valid_of f) us \<and> cbs = concat (map (enc_of f) us)"
proof (induction "length cbs" arbitrary: cbs m n u rule: less_induct)
  case less
  show ?case
  proof (cases "cbs = []")
    case True
    then show ?thesis by (intro exI [of _ "[]"]) simp
  next
    case False
    then obtain c cbs' where d: "decode_func f cbs = (Some c, cbs')"
      and s: "mb_scan f cbs' (mask_step m c) (n + 1) (u + cbb_get_utf8_len c) = Inr r"
      using less.prems by (subst (asm) mb_scan.simps) (auto simp: Let_def split: prod.splits option.splits if_splits)
    obtain us where us: "list_all (valid_of f) us" "cbs' = concat (map (enc_of f) us)"
      using less.hyps [OF decode_func_shorter [OF d] s] by blast
    show ?thesis
      using decode_sound [OF f d] us by (intro exI [of _ "c # us"]) simp
  qed
qed

lemma cbb_and_cong: "x = y \<Longrightarrow> (\<And>c. f c = g c) \<Longrightarrow> cbb_and x f = cbb_and y g"
  by (simp add: cbb_and_def split: prod.split bool.split)

lemma mb_copy_enc:
  assumes f: "f \<noteq> MBSTRING_UNKNOWN"
  shows "list_all (valid_of f) us \<Longrightarrow> mb_copy f g (concat (map (enc_of f) us)) cbb = add_all (encode_func g) cbb 0 us"
proof (induction us arbitrary: cbb)
  case (Cons c us)
  then have v: "valid_of f c" "list_all (valid_of f) us" by simp_all
  then show ?case
    using enc_of_size [OF f, of c]
    by (subst mb_copy.simps) (simp add: decode_enc [OF f v(1)] Cons.IH [OF v(2)] cong: cbb_and_cong)
qed (simp add: mb_copy.simps)


lemma is_printable_le: "is_printable c \<Longrightarrow> c \<le> 127"
  by (simp add: is_printable_def)

lemma valid_point: "valid_of f c \<Longrightarrow> is_valid_code_point c"
  using valid_latin1 by (cases f) (auto simp: valid_of_def)

lemma best_type_valid:
  assumes "list_all (valid_of f) us" "best_type m us = (t, g)"
  shows "g \<noteq> MBSTRING_UNKNOWN \<and> list_all (valid_of g) us"
proof -
  have v: "list_all is_valid_code_point us" using assms(1) valid_point by (auto simp: list_all_iff)
  have le: "c \<le> 127 \<Longrightarrow> c \<le> 0xff" for c :: u32 by (simp add: word_le_nat_alt)
  show ?thesis
    using assms(2) v le is_printable_le
    by (auto simp: best_type_def permitted_def format_holds_def valid_of_def list_all_iff split: if_splits)
qed

lemma mb_transcode_enc:
  assumes "f \<noteq> MBSTRING_UNKNOWN" "g \<noteq> MBSTRING_UNKNOWN" "list_all (valid_of f) us" "list_all (valid_of g) us"
    and "est + 1 < size_mod" "\<forall>n. alloc n" "length us < 2 ^ 28"
  shows "mb_transcode f g (concat (map (enc_of f) us)) est alloc = Inr (concat (map (enc_of g) us))"
proof -
  obtain cbb where init: "CBB_init (est + 1) alloc = Some cbb"
    using assms(6) by (auto simp: CBB_init_def)
  note codec = text_codec_of [OF assms(2)]
  define bs where "bs = concat (map (enc_of g) us) @ [0 :: byte]"
  have len: "length bs \<le> 4 * length us + 1"
    using text_codec.length_concat_enc [OF codec, of us] by (simp add: bs_def)
  have ap: "appends (\<lambda>s. cbb_and (add_all (encode_func g) s 0 us) (\<lambda>c. CBB_add_u8 c 0 0)) 0 bs"
    unfolding bs_def by (rule text_codec.add_all_appends [OF codec assms(4) appends_u8])
  have "length bs + 5 < size_mod" using len assms(7) by simp
  from appends_builds [OF ap init assms(5,6) this] obtain c where
    c: "cbb_and (add_all (encode_func g) cbb 0 us) (\<lambda>c. CBB_add_u8 c 0 0) = (True, c)" "CBB_finish c 0 = Some bs" .
  have "\<not> (length bs < 1 \<or> length bs > 0x7fffffff)" using len assms(7) by (simp add: bs_def)
  moreover have "take (length bs - 1) bs = concat (map (enc_of g) us)" by (simp add: bs_def)
  ultimately show ?thesis
    using init by (simp add: mb_transcode_def mb_copy_enc [OF assms(1,3)] c)
qed

text \<open>The estimate is never too large for the buffer.\<close>

lemma utf8_len_le: "sum_list (map cbb_get_utf8_len us) \<le> 4 * length us"
  by (induction us) (auto simp: cbb_get_utf8_len_def)

lemma mb_choose_estimate: "mb_choose m n u = (t, f, est) \<Longrightarrow> est \<le> 4 * n + u"
  by (auto simp: mb_choose_def split: if_splits)

lemma ncopy_exact:
  assumes f: "inform \<noteq> MBSTRING_UNKNOWN" and v: "list_all (valid_of inform) us" and mem: "\<forall>n. alloc n"
    and len: "length us < 2 ^ 28"
  shows "ASN1_mbstring_ncopy (concat (map (enc_of inform) us)) (int (length (concat (map (enc_of inform) us))))
      inform m minsize maxsize Out_null alloc =
    (let m' = (if m = 0 then DIRSTRING_TYPE else m)
     in if has_bom inform us \<or> us \<noteq> [] \<and> (\<forall>n. \<not> permitted m' us n) then Inl ILLEGAL_CHARACTERS
        else if minsize > 0 \<and> int (length us) < minsize then Inl STRING_TOO_SHORT
        else if maxsize > 0 \<and> int (length us) > maxsize then Inl STRING_TOO_LONG
        else Inr (fst (best_type m' us), Some (concat (map (enc_of (snd (best_type m' us))) us))))"
proof -
  define m' where "m' = (if m = 0 then DIRSTRING_TYPE else m)"
  define u where "u = sum_list (map cbb_get_utf8_len us)"
  define inp where "inp = concat (map (enc_of inform) us)"
  obtain t g est where ch: "mb_choose (foldl mask_step m' us) (length us) u = (t, g, est)"
    by (cases "mb_choose (foldl mask_step m' us) (length us) u")
  have best: "best_type m' us = (t, g)" using mb_choose_best [OF ch] .
  note g = best_type_valid [OF v best]
  have "est + 1 < size_mod" using mb_choose_estimate [OF ch] utf8_len_le [of us] len by (simp add: u_def)
  note tr = mb_transcode_enc [OF f conjunct1 [OF g] v conjunct2 [OF g] this mem len, folded inp_def]
  have scan: "mb_scan inform inp m' 0 0 =
      (if has_bom inform us \<or> us \<noteq> [] \<and> (\<forall>n. \<not> permitted m' us n) then Inl ILLEGAL_CHARACTERS
       else Inr (foldl mask_step m' us, length us, u))"
    using mb_scan_enc [OF f v, of m' 0 0] by (simp add: inp_def u_def permitted_0)
  have alloc: "alloc n" for n using mem by blast
  have wr: "(if inform = g then (if alloc (length inp + 1) then Inr (t, Some inp) else Inl MALLOC_FAILURE)
      else case mb_transcode inform g (CBS_init inp) est alloc of Inl e \<Rightarrow> Inl e | Inr data \<Rightarrow> Inr (t, Some data)) =
      Inr (t, Some (concat (map (enc_of g) us)))"
    using tr alloc [of "length inp + 1"] by (auto simp: CBS_init_def inp_def)
  have sizes: "minsize > 0 \<and> length us < nat minsize \<longleftrightarrow> minsize > 0 \<and> int (length us) < minsize"
    "maxsize > 0 \<and> length us > nat maxsize \<longleftrightarrow> maxsize > 0 \<and> int (length us) > maxsize"
    by auto
  have inp: "(if int (length inp) = -1 then takeWhile (\<lambda>b. b \<noteq> 0) inp else take (nat (int (length inp))) inp) = inp"
    by simp
  have fst: "fst (best_type m' us) = t" "snd (best_type m' us) = g" using best by simp_all
  show ?thesis
    unfolding ASN1_mbstring_ncopy_def inp_def [symmetric] m'_def [symmetric] Let_def inp fst scan CBS_init_def
    using f by (simp only: if_False sum.case split: if_split)
      (simp add: ch sizes alloc [of sizeof_ASN1_STRING] wr [unfolded CBS_init_def] del: if_split, auto)
qed



text \<open>
  Whatever the other arguments, \<open>ASN1_mbstring_ncopy\<close> succeeds only on a known format and on
  input that is the encoding of a list of valid characters.
\<close>

theorem ASN1_mbstring_ncopy_accepts:
  assumes "ASN1_mbstring_ncopy buf len inform m minsize maxsize out alloc = Inr r" "len = int (length buf)"
  shows "inform \<noteq> MBSTRING_UNKNOWN \<and> (\<exists>us. list_all (valid_of inform) us \<and> buf = concat (map (enc_of inform) us))"
proof
  show f: "inform \<noteq> MBSTRING_UNKNOWN" using assms(1) by (auto simp: ASN1_mbstring_ncopy_def)
  have "\<exists>s. mb_scan inform buf (if m = 0 then DIRSTRING_TYPE else m) 0 0 = Inr s"
    using assms f by (auto simp: ASN1_mbstring_ncopy_def CBS_init_def Let_def split: sum.splits if_splits)
  then show "\<exists>us. list_all (valid_of inform) us \<and> buf = concat (map (enc_of inform) us)"
    using mb_scan_sound [OF f] by blast
qed

theorem ASN1_mbstring_ncopy_accepts_witness:
  "\<exists>us. list_all (valid_of MBSTRING_ASC) us \<and> [0x41] = concat (map (enc_of MBSTRING_ASC) us)"
proof -
  have "ASN1_mbstring_ncopy [0x41] 1 MBSTRING_ASC 0 0 0 No_out (\<lambda>n. False) = Inr (V_ASN1_PRINTABLESTRING, None)"
    by (simp add: ASN1_mbstring_ncopy_def mb_scan.simps CBS_init_def decode_func_def cbs_get_latin1_def CBS_get_u8_Cons
        mask_step_def drop_format_def DIRSTRING_TYPE_def format_bits B_ASN1_UTF8STRING_def is_printable_def
        mb_choose_def)
  from ASN1_mbstring_ncopy_accepts [OF this] show ?thesis by simp
qed

text \<open>\<open>strchr\<close> finds the terminator, so the zero character counts as printable.\<close>

lemma is_printable_nul: "is_printable 0"
  by (simp add: is_printable_def strchr_found_def)

end
