(* ===== verification/String_Table.thy ===== *)
theory String_Table
  imports Stack Mbstring
begin

text \<open>
  Model of \<open>crypto/asn1/a_strnid.c\<close>: the types and length limits of the strings of a directory name,
  by number, in a constant table that is searched by \<open>bsearch\<close> and a stack of added entries, and
  \<open>ASN1_STRING_set_by_NID\<close>, which hands them to \<open>ASN1_mbstring_ncopy\<close>. The state holds the two static
  variables; an entry on the heap is referenced from one slot of the stack only, so the slot holds
  the entry itself and a write through its pointer is an update of the slot. \<open>int\<close> and \<open>long\<close> are
  unbounded: \<open>sk_table_cmp\<close> subtracts two numbers, which does not overflow on numbers that are not
  negative. \<open>sk_table_cmp\<close> of a NULL element has no specified value. \<open>bsearch\<close> and \<open>strtoul\<close> are those
  of the C library. The locale of comparison functions is interpreted on the two of this file.
\<close>

definition STABLE_FLAGS_MALLOC :: u64 where "STABLE_FLAGS_MALLOC = 0x01"
definition STABLE_NO_MASK :: u64 where "STABLE_NO_MASK = 0x02"
definition PKCS9STRING_TYPE :: u64 where "PKCS9STRING_TYPE = DIRSTRING_TYPE OR B_ASN1_IA5STRING"

record string_entry =
  st_nid :: int
  st_minsize :: int
  st_maxsize :: int
  st_mask :: u64
  st_flags :: u64

definition tbl_standard :: "string_entry list" where
  "tbl_standard =
     [\<lparr>st_nid = 13, st_minsize = 1, st_maxsize = 64, st_mask = DIRSTRING_TYPE, st_flags = 0\<rparr>,
      \<lparr>st_nid = 14, st_minsize = 2, st_maxsize = 2, st_mask = B_ASN1_PRINTABLESTRING, st_flags = STABLE_NO_MASK\<rparr>,
      \<lparr>st_nid = 15, st_minsize = 1, st_maxsize = 128, st_mask = DIRSTRING_TYPE, st_flags = 0\<rparr>,
      \<lparr>st_nid = 16, st_minsize = 1, st_maxsize = 128, st_mask = DIRSTRING_TYPE, st_flags = 0\<rparr>,
      \<lparr>st_nid = 17, st_minsize = 1, st_maxsize = 64, st_mask = DIRSTRING_TYPE, st_flags = 0\<rparr>,
      \<lparr>st_nid = 18, st_minsize = 1, st_maxsize = 64, st_mask = DIRSTRING_TYPE, st_flags = 0\<rparr>,
      \<lparr>st_nid = 48, st_minsize = 1, st_maxsize = 128, st_mask = B_ASN1_IA5STRING, st_flags = STABLE_NO_MASK\<rparr>,
      \<lparr>st_nid = 49, st_minsize = 1, st_maxsize = -1, st_mask = PKCS9STRING_TYPE, st_flags = 0\<rparr>,
      \<lparr>st_nid = 54, st_minsize = 1, st_maxsize = -1, st_mask = PKCS9STRING_TYPE, st_flags = 0\<rparr>,
      \<lparr>st_nid = 55, st_minsize = 1, st_maxsize = -1, st_mask = DIRSTRING_TYPE, st_flags = 0\<rparr>,
      \<lparr>st_nid = 99, st_minsize = 1, st_maxsize = 32768, st_mask = DIRSTRING_TYPE, st_flags = 0\<rparr>,
      \<lparr>st_nid = 100, st_minsize = 1, st_maxsize = 32768, st_mask = DIRSTRING_TYPE, st_flags = 0\<rparr>,
      \<lparr>st_nid = 101, st_minsize = 1, st_maxsize = 32768, st_mask = DIRSTRING_TYPE, st_flags = 0\<rparr>,
      \<lparr>st_nid = 105, st_minsize = 1, st_maxsize = 64, st_mask = B_ASN1_PRINTABLESTRING, st_flags = STABLE_NO_MASK\<rparr>,
      \<lparr>st_nid = 156, st_minsize = -1, st_maxsize = -1, st_mask = B_ASN1_BMPSTRING, st_flags = STABLE_NO_MASK\<rparr>,
      \<lparr>st_nid = 173, st_minsize = 1, st_maxsize = 32768, st_mask = DIRSTRING_TYPE, st_flags = 0\<rparr>,
      \<lparr>st_nid = 174, st_minsize = -1, st_maxsize = -1, st_mask = B_ASN1_PRINTABLESTRING, st_flags = STABLE_NO_MASK\<rparr>,
      \<lparr>st_nid = 391, st_minsize = 1, st_maxsize = -1, st_mask = B_ASN1_IA5STRING, st_flags = STABLE_NO_MASK\<rparr>,
      \<lparr>st_nid = 417, st_minsize = -1, st_maxsize = -1, st_mask = B_ASN1_BMPSTRING, st_flags = STABLE_NO_MASK\<rparr>]"

text \<open>The two static variables.\<close>

record string_state =
  stable :: "string_entry stack option"
  global_mask :: u64

definition string_state0 :: string_state where
  "string_state0 = \<lparr>stable = None, global_mask = B_ASN1_UTF8STRING\<rparr>"

definition ASN1_STRING_set_default_mask :: "u64 \<Rightarrow> string_state \<Rightarrow> string_state" where
  "ASN1_STRING_set_default_mask m g = g\<lparr>global_mask := m\<rparr>"

definition ASN1_STRING_get_default_mask :: "string_state \<Rightarrow> u64" where
  "ASN1_STRING_get_default_mask g = global_mask g"

definition sk_table_cmp :: "string_entry option \<Rightarrow> string_entry option \<Rightarrow> int" where
  "sk_table_cmp a b = st_nid (the a) - st_nid (the b)"

definition table_cmp :: "string_entry \<Rightarrow> string_entry \<Rightarrow> int" where
  "table_cmp a b = st_nid a - st_nid b"

text \<open>\<open>bsearch\<close> of the C library on the elements from \<open>lo\<close> to \<open>hi\<close>: the index of a match.\<close>

function bsearch :: "('b \<Rightarrow> 'b \<Rightarrow> int) \<Rightarrow> 'b \<Rightarrow> 'b list \<Rightarrow> nat \<Rightarrow> nat \<Rightarrow> nat option" where
  "bsearch cmp key base lo hi =
     (if lo < hi then
        (let idx = (lo + hi) div 2; r = cmp key (base ! idx)
         in if r < 0 then bsearch cmp key base lo idx
            else if r > 0 then bsearch cmp key base (idx + 1) hi
            else Some idx)
      else None)"
  by pat_completeness auto
termination
  by (relation "measure (\<lambda>(cmp, key, base, lo, hi). hi - lo)") auto

declare bsearch.simps [simp del]

definition c_string :: "string \<Rightarrow> byte list" where
  "c_string = map of_char"

text \<open>\<open>strtoul\<close> of the C library with base 0: the value and the rest of the string.\<close>

definition isspace :: "byte \<Rightarrow> bool" where
  "isspace b \<longleftrightarrow> b = 0x20 \<or> 0x09 \<le> b \<and> b \<le> 0x0d"

definition digit_value :: "byte \<Rightarrow> nat" where
  "digit_value b =
     (if 0x30 \<le> b \<and> b \<le> 0x39 then unat b - 0x30
      else if 0x61 \<le> b \<and> b \<le> 0x7a then unat b - 0x61 + 10
      else if 0x41 \<le> b \<and> b \<le> 0x5a then unat b - 0x41 + 10
      else 36)"

definition strtoul :: "byte list \<Rightarrow> u64 \<times> byte list" where
  "strtoul p =
     (let s = dropWhile isspace p;
          neg = (s \<noteq> [] \<and> hd s = 0x2d);
          s = (if s \<noteq> [] \<and> (hd s = 0x2d \<or> hd s = 0x2b) then tl s else s);
          hex = (length s \<ge> 3 \<and> s ! 0 = 0x30 \<and> (s ! 1 = 0x78 \<or> s ! 1 = 0x58) \<and> digit_value (s ! 2) < 16);
          base = (if hex then 16 else if s \<noteq> [] \<and> hd s = 0x30 then 8 else 10);
          s = (if hex then drop 2 s else s);
          digits = takeWhile (\<lambda>b. digit_value b < base) s;
          n = foldl (\<lambda>acc b. acc * base + digit_value b) 0 digits
      in if digits = [] then (0, p)
         else (if n \<ge> 2 ^ 64 then 0xffffffffffffffff else if neg then - of_nat n else of_nat n, drop (length digits) s))"

definition ASN1_STRING_set_default_mask_asc :: "byte list \<Rightarrow> string_state \<Rightarrow> bool \<times> string_state" where
  "ASN1_STRING_set_default_mask_asc p g =
     (if take 5 p = c_string ''MASK:'' then
        (if length p = 5 then (False, g)
         else case strtoul (drop 5 p) of (m, rest) \<Rightarrow>
           (if rest \<noteq> [] then (False, g) else (True, ASN1_STRING_set_default_mask m g)))
      else if p = c_string ''nombstr'' then
        (True, ASN1_STRING_set_default_mask (NOT (B_ASN1_BMPSTRING OR B_ASN1_UTF8STRING)) g)
      else if p = c_string ''pkix'' then (True, ASN1_STRING_set_default_mask (NOT B_ASN1_T61STRING) g)
      else if p = c_string ''utf8only'' then (True, ASN1_STRING_set_default_mask B_ASN1_UTF8STRING g)
      else if p = c_string ''default'' then (True, ASN1_STRING_set_default_mask 0xffffffff g)
      else (False, g))"

text \<open>A pointer to an entry: into the constant table or into the array of \<open>stable\<close>.\<close>

datatype st_ptr = In_standard nat | In_stable nat

definition st_deref :: "string_state \<Rightarrow> st_ptr \<Rightarrow> string_entry" where
  "st_deref g p =
     (case p of In_standard i \<Rightarrow> tbl_standard ! i
      | In_stable i \<Rightarrow> the (sk_value (stable g) i))"

definition ASN1_STRING_TABLE_get :: "int \<Rightarrow> string_state \<Rightarrow> st_ptr option \<times> string_state" where
  "ASN1_STRING_TABLE_get nid g =
     (let fnd = \<lparr>st_nid = nid, st_minsize = 0, st_maxsize = 0, st_mask = 0, st_flags = 0\<rparr>
      in case bsearch table_cmp fnd tbl_standard 0 (length tbl_standard) of
           Some i \<Rightarrow> (Some (In_standard i), g)
         | None \<Rightarrow>
             (if stable g = None then (None, g)
              else let g = g\<lparr>stable := sk_sort (stable g)\<rparr>
                   in case sk_find (stable g) (Some fnd) of
                        None \<Rightarrow> (None, g)
                      | Some idx \<Rightarrow> (Some (In_stable idx), g)))"

text \<open>\<open>Writes_constant\<close>: the entry found is in the constant table, which the code then writes to.\<close>

datatype st_result = Added | No_memory | Writes_constant

definition update_entry :: "int \<Rightarrow> int \<Rightarrow> u64 \<Rightarrow> string_entry \<Rightarrow> string_entry" where
  "update_entry minsize maxsize m e =
     (let e = (if minsize \<noteq> -1 then e\<lparr>st_minsize := minsize\<rparr> else e);
          e = (if maxsize \<noteq> -1 then e\<lparr>st_maxsize := maxsize\<rparr> else e)
      in e\<lparr>st_mask := m\<rparr>)"

definition ASN1_STRING_TABLE_add ::
  "int \<Rightarrow> int \<Rightarrow> int \<Rightarrow> u64 \<Rightarrow> u64 \<Rightarrow> (nat \<Rightarrow> bool) \<Rightarrow> string_state \<Rightarrow> st_result \<times> string_state" where
  "ASN1_STRING_TABLE_add nid minsize maxsize m flags alloc g =
     (let flags = flags AND NOT STABLE_FLAGS_MALLOC;
          g = (if stable g = None then g\<lparr>stable := sk_new (Some sk_table_cmp) alloc\<rparr> else g)
      in if stable g = None then (No_memory, g)
         else case ASN1_STRING_TABLE_get nid g of
           (None, g) \<Rightarrow>
             (if \<not> alloc 40 then (No_memory, g)
              else let tmp = update_entry minsize maxsize m
                         \<lparr>st_nid = nid, st_minsize = -1, st_maxsize = -1, st_mask = 0, st_flags = flags OR STABLE_FLAGS_MALLOC\<rparr>
                   in (Added, g\<lparr>stable := snd (sk_push (stable g) (Some tmp) alloc)\<rparr>))
         | (Some (In_standard i), g) \<Rightarrow> (Writes_constant, g)
         | (Some (In_stable i), g) \<Rightarrow>
             (let tmp = st_deref g (In_stable i);
                  tmp = tmp\<lparr>st_flags := (st_flags tmp AND STABLE_FLAGS_MALLOC) OR flags\<rparr>
              in (Added, g\<lparr>stable := snd (sk_set (stable g) i (Some (update_entry minsize maxsize m tmp)))\<rparr>)))"

text \<open>The entries that are freed, and the state.\<close>

definition st_free :: "string_entry \<Rightarrow> string_entry list" where
  "st_free e = (if st_flags e AND STABLE_FLAGS_MALLOC \<noteq> 0 then [e] else [])"

definition ASN1_STRING_TABLE_cleanup :: "string_state \<Rightarrow> string_entry list \<times> string_state" where
  "ASN1_STRING_TABLE_cleanup g =
     (if stable g = None then ([], g) else (concat (map st_free (sk_pop_free_ex (stable g))), g\<lparr>stable := None\<rparr>))"

definition ASN1_STRING_set_by_NID ::
  "byte list \<Rightarrow> int \<Rightarrow> mbform \<Rightarrow> int \<Rightarrow> out_arg \<Rightarrow> (nat \<Rightarrow> bool) \<Rightarrow> string_state \<Rightarrow> (nat \<times> byte list option) option \<times> string_state" where
  "ASN1_STRING_set_by_NID inp inlen inform nid out alloc g =
     (let out = (if out = No_out then Out_null else out) in case ASN1_STRING_TABLE_get nid g of
        (Some p, g) \<Rightarrow>
          (let tbl = st_deref g p;
               m = (if st_flags tbl AND STABLE_NO_MASK = 0 then st_mask tbl AND global_mask g else st_mask tbl)
           in (case ASN1_mbstring_ncopy inp inlen inform m (st_minsize tbl) (st_maxsize tbl) out alloc of
                 Inl _ \<Rightarrow> None | Inr r \<Rightarrow> Some r, g))
      | (None, g) \<Rightarrow>
          (case ASN1_mbstring_copy inp inlen inform (DIRSTRING_TYPE AND global_mask g) out alloc of
             Inl _ \<Rightarrow> None | Inr r \<Rightarrow> Some r, g))"



section \<open>The standard table\<close>

interpretation st: order_contract sk_table_cmp
  unfolding sk_table_cmp_def [abs_def] by (rule order_contract_diff)

interpretation std: order_contract table_cmp
  unfolding table_cmp_def [abs_def] by (rule order_contract_diff)

context order_contract
begin

lemma bsearch_spec:
  "sorted_by base \<Longrightarrow> hi \<le> length base \<Longrightarrow>
   case bsearch cmp key base lo hi of
     Some i \<Rightarrow> i < hi \<and> cmp key (base ! i) = 0
   | None \<Rightarrow> \<forall>j. lo \<le> j \<and> j < hi \<longrightarrow> cmp key (base ! j) \<noteq> 0"
proof (induction "hi - lo" arbitrary: lo hi rule: less_induct)
  case less
  show ?case
  proof (cases "lo < hi")
    case False
    then show ?thesis by (simp add: bsearch.simps)
  next
    case True
    define idx where "idx = (lo + hi) div 2"
    have idx: "lo \<le> idx" "idx < hi" using True by (auto simp: idx_def)
    note step = bsearch.simps [of cmp key base lo hi, folded idx_def]
    have le: "cmp (base ! i) (base ! j) \<le> 0" if "i < j" "j < hi" for i j
      using less.prems that by (auto simp: sorted_wrt_iff_nth_less)
    consider "cmp key (base ! idx) < 0" | "cmp key (base ! idx) > 0" | "cmp key (base ! idx) = 0" by linarith
    then show ?thesis
    proof cases
      case 1
      have high: "cmp key (base ! j) \<noteq> 0" if "\<not> j < idx" "j < hi" for j
        using 1 above [OF 1 le [of idx j]] that by (cases "j = idx") auto
      have r: "bsearch cmp key base lo hi = bsearch cmp key base lo idx" using True 1 by (simp add: step Let_def)
      show ?thesis
        unfolding r using less.hyps [of idx lo] less.prems idx high
        by (cases "bsearch cmp key base lo idx") fastforce+
    next
      case 2
      have low: "cmp key (base ! j) \<noteq> 0" if "j \<le> idx" for j
        using 2 below [OF 2 le [of j idx]] that idx by (cases "j = idx") auto
      have r: "bsearch cmp key base lo hi = bsearch cmp key base (idx + 1) hi" using True 2 by (simp add: step Let_def)
      have ih: "case bsearch cmp key base (idx + 1) hi of Some i \<Rightarrow> i < hi \<and> cmp key (base ! i) = 0
        | None \<Rightarrow> \<forall>j. idx + 1 \<le> j \<and> j < hi \<longrightarrow> cmp key (base ! j) \<noteq> 0"
        using less.hyps [of hi "idx + 1"] less.prems idx by simp
      show ?thesis
      proof (cases "bsearch cmp key base (idx + 1) hi")
        case None
        have "cmp key (base ! j) \<noteq> 0" if "lo \<le> j" "j < hi" for j
          using ih None low [of j] that by (cases "j \<le> idx") auto
        then show ?thesis using None r by simp
      next
        case (Some i)
        then show ?thesis using ih r by simp
      qed
    qed (use idx True in \<open>simp add: step Let_def idx_def [symmetric]\<close>)
  qed
qed

end

definition standard_entry :: "int \<Rightarrow> string_entry option" where
  "standard_entry nid = map_of (map (\<lambda>e. (st_nid e, e)) tbl_standard) nid"

lemma tbl_standard_sorted: "sorted_wrt (<) (map st_nid tbl_standard)"
  by (simp add: tbl_standard_def)

lemma bsearch_standard:
  "(case bsearch table_cmp \<lparr>st_nid = nid, st_minsize = 0, st_maxsize = 0, st_mask = 0, st_flags = 0\<rparr> tbl_standard 0 (length tbl_standard) of
      Some i \<Rightarrow> standard_entry nid = Some (tbl_standard ! i)
    | None \<Rightarrow> standard_entry nid = None)"
proof -
  let ?key = "\<lparr>st_nid = nid, st_minsize = 0, st_maxsize = 0, st_mask = 0, st_flags = 0\<rparr>"
  have "sorted_wrt (\<lambda>x y. table_cmp x y \<le> 0) tbl_standard"
    using tbl_standard_sorted unfolding sorted_wrt_map by (rule sorted_wrt_mono_rel [rotated]) (simp add: table_cmp_def)
  note b = std.bsearch_spec [OF this order_refl, where key = ?key and lo = 0]
  have d: "distinct (map fst (map (\<lambda>e. (st_nid e, e)) tbl_standard))"
    using tbl_standard_sorted by (simp add: comp_def strict_sorted_iff)
  show ?thesis
  proof (cases "bsearch table_cmp ?key tbl_standard 0 (length tbl_standard)")
    case None
    then have "\<forall>e \<in> set tbl_standard. st_nid e \<noteq> nid"
      using b by (auto simp: in_set_conv_nth table_cmp_def)
    then have "nid \<notin> st_nid ` set tbl_standard" by blast
    then have "standard_entry nid = None" by (simp add: standard_entry_def map_of_eq_None_iff image_image)
    then show ?thesis using None by simp
  next
    case (Some i)
    then have i: "i < length tbl_standard" "st_nid (tbl_standard ! i) = nid" using b by (simp_all add: table_cmp_def)
    then have "(nid, tbl_standard ! i) \<in> set (map (\<lambda>e. (st_nid e, e)) tbl_standard)" by force
    then have "standard_entry nid = Some (tbl_standard ! i)"
      unfolding standard_entry_def using map_of_is_SomeI [OF d] by blast
    then show ?thesis using Some by simp
  qed
qed



section \<open>The table as a map\<close>

text \<open>The array of added entries holds the values of a map from numbers outside the standard table.\<close>

definition str_rep :: "string_entry stack \<Rightarrow> (int \<Rightarrow> string_entry option) \<Rightarrow> bool" where
  "str_rep s m \<longleftrightarrow> sk_ok sk_table_cmp s \<and> distinct (sk_data s) \<and> None \<notin> set (sk_data s) \<and>
     (\<forall>n e. m n = Some e \<longleftrightarrow> Some e \<in> set (sk_data s) \<and> st_nid e = n) \<and>
     (\<forall>e. Some e \<in> set (sk_data s) \<longrightarrow> bit (st_flags e) 0 \<and> standard_entry (st_nid e) = None)"

definition str_inv :: "string_state \<Rightarrow> (int \<Rightarrow> string_entry option) \<Rightarrow> bool" where
  "str_inv g m \<longleftrightarrow> (case stable g of None \<Rightarrow> m = Map.empty | Some s \<Rightarrow> str_rep s m)"

definition get_spec :: "int \<Rightarrow> (int \<Rightarrow> string_entry option) \<Rightarrow> string_entry option" where
  "get_spec nid m = (case standard_entry nid of Some e \<Rightarrow> Some e | None \<Rightarrow> m nid)"

definition add_spec :: "int \<Rightarrow> int \<Rightarrow> int \<Rightarrow> u64 \<Rightarrow> u64 \<Rightarrow> (int \<Rightarrow> string_entry option) \<Rightarrow> st_result \<times> (int \<Rightarrow> string_entry option)" where
  "add_spec nid minsize maxsize m flags mp =
     (if standard_entry nid \<noteq> None then (Writes_constant, mp)
      else let e = (case mp nid of Some e \<Rightarrow> e
                    | None \<Rightarrow> \<lparr>st_nid = nid, st_minsize = -1, st_maxsize = -1, st_mask = 0, st_flags = 0\<rparr>)
           in (Added, mp(nid \<mapsto> (update_entry minsize maxsize m e)\<lparr>st_flags := flags OR STABLE_FLAGS_MALLOC\<rparr>)))"

lemma malloc_flags:
  "(flags AND NOT STABLE_FLAGS_MALLOC) OR STABLE_FLAGS_MALLOC = flags OR STABLE_FLAGS_MALLOC"
  "bit f 0 \<Longrightarrow> (f AND STABLE_FLAGS_MALLOC) OR (flags AND NOT STABLE_FLAGS_MALLOC) = flags OR STABLE_FLAGS_MALLOC"
  "bit (flags OR STABLE_FLAGS_MALLOC) 0"
  "f AND STABLE_FLAGS_MALLOC \<noteq> 0 \<longleftrightarrow> bit f 0"
     apply (rule bit_eqI, auto simp: STABLE_FLAGS_MALLOC_def bit_simps)[1]
    apply (rule bit_eqI, auto simp: STABLE_FLAGS_MALLOC_def bit_simps)[1]
   apply (simp add: STABLE_FLAGS_MALLOC_def bit_simps)
  apply (simp add: STABLE_FLAGS_MALLOC_def and_one_eq odd_iff_mod_2_eq_one bit_0)
  done

lemma update_entry_fields:
  "st_nid (update_entry a b m e) = st_nid e" "st_flags (update_entry a b m e) = st_flags e"
  "update_entry a b m (e\<lparr>st_flags := f\<rparr>) = (update_entry a b m e)\<lparr>st_flags := f\<rparr>"
  by (auto simp: update_entry_def Let_def)

lemma sort_rep:
  assumes "str_rep s m"
  shows "\<exists>s'. sk_sort (Some s) = Some s' \<and> str_rep s' m \<and> length (sk_data s') = length (sk_data s) \<and>
    sk_num_alloc s' = sk_num_alloc s"
proof -
  obtain s' where s': "sk_sort (Some s) = Some s'" "sk_ok sk_table_cmp s'" "sk_data s' = qsort sk_table_cmp (sk_data s)"
    "sk_num_alloc s' = sk_num_alloc s"
    using sort_ok [OF st.order_contract_axioms] assms unfolding str_rep_def by blast
  have "mset (sk_data s') = mset (sk_data s)" unfolding s'(3) by (rule st.qsort_mset)
  then have "set (sk_data s') = set (sk_data s)" "distinct (sk_data s') = distinct (sk_data s)"
    "length (sk_data s') = length (sk_data s)"
    by (metis set_mset_mset, metis mset_eq_imp_distinct_iff, metis mset_eq_length)
  then show ?thesis using assms s' by (auto simp: str_rep_def)
qed

lemma find_rep:
  assumes "str_rep s m" "st_nid fnd = nid"
  shows "case sk_find (Some s) (Some fnd) of
      Some i \<Rightarrow> i < length (sk_data s) \<and> (\<exists>e. sk_data s ! i = Some e \<and> m nid = Some e)
    | None \<Rightarrow> m nid = None"
proof -
  have ok: "sk_ok sk_table_cmp s" using assms(1) by (simp add: str_rep_def)
  note f = find_ok [OF st.order_contract_axioms ok, of fnd]
  note i = find_index_spec [where P = "\<lambda>e. sk_table_cmp (Some fnd) e = 0" and k = 0 and xs = "sk_data s"]
  show ?thesis
  proof (cases "sk_find (Some s) (Some fnd)")
    case None
    then have "\<forall>x \<in> set (sk_data s). sk_table_cmp (Some fnd) x \<noteq> 0" using f i by simp
    then have "m nid \<noteq> Some e" for e using assms by (auto simp: str_rep_def sk_table_cmp_def)
    then have "m nid = None" by (cases "m nid") auto
    then show ?thesis using None by simp
  next
    case (Some k)
    then have k: "k < length (sk_data s)" "sk_table_cmp (Some fnd) (sk_data s ! k) = 0" using f i by simp_all
    then obtain e where e: "sk_data s ! k = Some e" using assms(1) by (metis not_None_eq nth_mem str_rep_def)
    then have "Some e \<in> set (sk_data s)" "st_nid e = nid" using k assms(2) by (metis nth_mem, simp add: sk_table_cmp_def)
    then have "m nid = Some e" using assms(1) by (simp add: str_rep_def)
    then show ?thesis using Some k e by simp
  qed
qed

lemma get_rep:
  assumes "str_inv g m"
  shows "\<exists>p g'. ASN1_STRING_TABLE_get nid g = (p, g') \<and> str_inv g' m \<and> global_mask g' = global_mask g \<and>
    (stable g' = None \<longleftrightarrow> stable g = None) \<and>
    (stable g \<noteq> None \<longrightarrow> sk_num_alloc (the (stable g')) = sk_num_alloc (the (stable g)) \<and>
       length (sk_data (the (stable g'))) = length (sk_data (the (stable g)))) \<and>
    map_option (st_deref g') p = get_spec nid m \<and>
    (case p of None \<Rightarrow> get_spec nid m = None
     | Some (In_standard i) \<Rightarrow> standard_entry nid \<noteq> None
     | Some (In_stable i) \<Rightarrow> standard_entry nid = None \<and>
         (\<exists>s e. stable g' = Some s \<and> i < length (sk_data s) \<and> sk_data s ! i = Some e \<and> m nid = Some e))"
proof -
  let ?fnd = "\<lparr>st_nid = nid, st_minsize = 0, st_maxsize = 0, st_mask = 0, st_flags = 0\<rparr>"
  note b = bsearch_standard [of nid]
  show ?thesis
  proof (cases "bsearch table_cmp ?fnd tbl_standard 0 (length tbl_standard)")
    case (Some i)
    then show ?thesis using b assms by (simp add: ASN1_STRING_TABLE_get_def get_spec_def st_deref_def)
  next
    case None
    note B = None
    have se: "standard_entry nid = None" using b None by simp
    show ?thesis
    proof (cases "stable g")
      case None
      then show ?thesis
        using assms B se by (simp add: ASN1_STRING_TABLE_get_def get_spec_def str_inv_def)
    next
      case (Some s)
      then have "str_rep s m" using assms by (simp add: str_inv_def)
      from sort_rep [OF this] obtain s' where s': "sk_sort (Some s) = Some s'" "str_rep s' m"
        "length (sk_data s') = length (sk_data s)" "sk_num_alloc s' = sk_num_alloc s" by blast
      have "st_nid ?fnd = nid" by simp
      note f = find_rep [OF s'(2) this]
      show ?thesis
      proof (cases "sk_find (Some s') (Some ?fnd)")
        case None
        then show ?thesis
          using f B Some se s' by (simp add: ASN1_STRING_TABLE_get_def get_spec_def str_inv_def)
      next
        case (Some k)
        then obtain e where "k < length (sk_data s')" "sk_data s' ! k = Some e" "m nid = Some e" using f by auto
        then show ?thesis
          using Some B \<open>stable g = Some s\<close> se s'
          by (simp add: ASN1_STRING_TABLE_get_def get_spec_def str_inv_def st_deref_def sk_value_def)
      qed
    qed
  qed
qed


lemma push_rep:
  assumes "str_rep s m" "\<And>n. alloc n" "sk_num_alloc s < 2 ^ 60" "m (st_nid e) = None"
    and "standard_entry (st_nid e) = None" "bit (st_flags e) 0"
  shows "\<exists>n s'. sk_push (Some s) (Some e) alloc = (n, Some s') \<and> str_rep s' (m(st_nid e \<mapsto> e)) \<and>
    length (sk_data s') = length (sk_data s) + 1 \<and> sk_num_alloc s' \<le> max (sk_num_alloc s) (2 * (length (sk_data s) + 1))"
proof -
  have ok: "sk_ok sk_table_cmp s" using assms(1) by (simp add: str_rep_def)
  obtain n t where i: "sk_insert (Some s) (Some e) (length (sk_data s)) alloc = (n, t)" by fastforce
  note r = insert_refines [OF ok assms(2,3) i]
  then obtain s' where t: "t = Some s'" by blast
  have new: "Some e' \<in> set (sk_data s) \<Longrightarrow> st_nid e' \<noteq> st_nid e" for e'
    using assms(1,4) unfolding str_rep_def by (metis option.distinct(1))
  have "str_rep s' (m(st_nid e \<mapsto> e))"
    using r assms(1,5,6) new by (auto simp: t str_rep_def split: if_splits)
  then show ?thesis using i r by (simp add: t sk_push_def sk_num_def)
qed

lemma set_rep:
  assumes "str_rep s m" "i < length (sk_data s)" "sk_data s ! i = Some e" "st_nid e' = st_nid e" "bit (st_flags e') 0"
  shows "sk_set (Some s) i (Some e') = (Some e', Some (s\<lparr>sk_data := (sk_data s)[i := Some e']\<rparr>)) \<and>
    str_rep (s\<lparr>sk_data := (sk_data s)[i := Some e']\<rparr>) (m(st_nid e \<mapsto> e'))"
proof -
  have mem: "Some e \<in> set (sk_data s)" using assms(2,3) by (metis nth_mem)
  have d: "distinct (sk_data s)" using assms(1) by (simp add: str_rep_def)
  have st: "set ((sk_data s)[i := Some e']) = insert (Some e') (set (sk_data s) - {Some e})"
    using set_update_distinct [OF d assms(2), of "Some e'"] assms(3) by simp
  have uniq: "Some x \<in> set (sk_data s) \<Longrightarrow> st_nid x = st_nid e \<Longrightarrow> x = e" for x
    using assms(1) mem unfolding str_rep_def by (metis option.inject)
  have cmp: "sk_table_cmp ((sk_data s)[i := Some e'] ! j) y = sk_table_cmp (sk_data s ! j) y"
    "sk_table_cmp y ((sk_data s)[i := Some e'] ! j) = sk_table_cmp y (sk_data s ! j)" if "j < length (sk_data s)" for j y
    using assms(3,4) that by (cases "j = i", auto simp: sk_table_cmp_def)+
  have "sk_ok sk_table_cmp (s\<lparr>sk_data := (sk_data s)[i := Some e']\<rparr>)"
    using assms(1) by (auto simp: str_rep_def sk_ok_def sorted_wrt_iff_nth_less cmp)
  moreover have "distinct ((sk_data s)[i := Some e'])"
    using d uniq [of e'] assms(2,3,4) by (intro distinct_list_update) auto
  ultimately have "str_rep (s\<lparr>sk_data := (sk_data s)[i := Some e']\<rparr>) (m(st_nid e \<mapsto> e'))"
    using assms(1,4,5) mem uniq by (auto simp: str_rep_def st)
  then show ?thesis using assms(2) by (simp add: sk_set_def)
qed

definition table_size_ok :: "nat \<Rightarrow> string_state \<Rightarrow> bool" where
  "table_size_ok k g \<longleftrightarrow> (case stable g of None \<Rightarrow> True | Some s \<Rightarrow> length (sk_data s) \<le> k \<and> sk_num_alloc s \<le> 2 * k + 4)"

lemma add_rep:
  assumes "str_inv g m" "\<And>n. alloc n" "table_size_ok k g" "k < 2 ^ 58"
    and "ASN1_STRING_TABLE_add nid a b msk flags alloc g = (r, g')"
  shows "\<exists>m'. add_spec nid a b msk flags m = (r, m') \<and> str_inv g' m' \<and> table_size_ok (k + 1) g' \<and>
    global_mask g' = global_mask g"
proof -
  define g1 where "g1 = (if stable g = None then g\<lparr>stable := sk_new (Some sk_table_cmp) alloc\<rparr> else g)"
  have new: "sk_new (Some sk_table_cmp) alloc = Some \<lparr>sk_data = [], sk_sorted = False, sk_num_alloc = kMinSize, sk_comp = Some sk_table_cmp\<rparr>"
    using assms(2) by (simp add: sk_new_def)
  have g1: "str_inv g1 m" "stable g1 \<noteq> None" "table_size_ok k g1" "global_mask g1 = global_mask g"
    using assms(1,3) by (auto simp: g1_def new str_inv_def str_rep_def sk_ok_def kMinSize_def table_size_ok_def)
  obtain p g2 where g2: "ASN1_STRING_TABLE_get nid g1 = (p, g2)" "str_inv g2 m" "global_mask g2 = global_mask g1"
    "stable g2 \<noteq> None" "sk_num_alloc (the (stable g2)) = sk_num_alloc (the (stable g1))"
    "length (sk_data (the (stable g2))) = length (sk_data (the (stable g1)))"
    "map_option (st_deref g2) p = get_spec nid m"
    "case p of None \<Rightarrow> get_spec nid m = None
     | Some (In_standard i) \<Rightarrow> standard_entry nid \<noteq> None
     | Some (In_stable i) \<Rightarrow> standard_entry nid = None \<and>
         (\<exists>s e. stable g2 = Some s \<and> i < length (sk_data s) \<and> sk_data s ! i = Some e \<and> m nid = Some e)"
    using get_rep [OF g1(1), of nid] g1(2) by blast
  obtain s where s: "stable g2 = Some s" using g2(4) by blast
  have rep: "str_rep s m" using g2(2) s by (simp add: str_inv_def)
  have size: "length (sk_data s) \<le> k" "sk_num_alloc s \<le> 2 * k + 4"
    using g1(2,3) g2(5,6) s by (auto simp: table_size_ok_def)
  have small: "sk_num_alloc s < 2 ^ 60" using size(2) assms(4) by simp
  note add = assms(5) [unfolded ASN1_STRING_TABLE_add_def Let_def, folded g1_def]
  show ?thesis
  proof (cases p)
    case None
    let ?e = "update_entry a b msk \<lparr>st_nid = nid, st_minsize = -1, st_maxsize = -1, st_mask = 0,
      st_flags = (flags AND NOT STABLE_FLAGS_MALLOC) OR STABLE_FLAGS_MALLOC\<rparr>"
    have n: "standard_entry nid = None" "m nid = None"
      using g2(8) None by (auto simp: get_spec_def split: option.splits)
    have ids: "st_nid ?e = nid" "st_flags ?e = flags OR STABLE_FLAGS_MALLOC"
      by (simp_all add: update_entry_fields malloc_flags)
    obtain j s' where s': "sk_push (Some s) (Some ?e) alloc = (j, Some s')" "str_rep s' (m(nid \<mapsto> ?e))"
      "length (sk_data s') = length (sk_data s) + 1" "sk_num_alloc s' \<le> max (sk_num_alloc s) (2 * (length (sk_data s) + 1))"
      using push_rep [where alloc = alloc and e = ?e, OF rep assms(2) small, unfolded ids] n malloc_flags(3) by blast
    have "r = Added" "g' = g2\<lparr>stable := Some s'\<rparr>"
      using add g1(2) g2(1) None assms(2) s s'(1) by simp_all
    moreover have "add_spec nid a b msk flags m = (Added, m(nid \<mapsto> ?e))"
      using n by (simp add: add_spec_def malloc_flags update_entry_fields(3) [symmetric])
    ultimately show ?thesis using s' size g1(4) g2(3) by (auto simp: str_inv_def table_size_ok_def)
  next
    case (Some q)
    show ?thesis
    proof (cases q)
      case (In_standard i)
      then have "r = Writes_constant" "g' = g2" using add g1(2) g2(1) Some by simp_all
      moreover have "standard_entry nid \<noteq> None" using g2(8) Some In_standard by simp
      ultimately show ?thesis
        using g2(2,3) s size g1(4) by (auto simp: add_spec_def table_size_ok_def)
    next
      case (In_stable i)
      obtain e where e: "i < length (sk_data s)" "sk_data s ! i = Some e" "m nid = Some e" "standard_entry nid = None"
        using g2(8) Some In_stable s by auto
      let ?e = "update_entry a b msk (e\<lparr>st_flags := flags OR STABLE_FLAGS_MALLOC\<rparr>)"
      have "bit (st_flags e) 0" "st_nid e = nid"
        using rep e(3) unfolding str_rep_def by blast+
      note fl = malloc_flags(2) [OF this(1), of flags]
      have w: "sk_set (Some s) i (Some ?e) = (Some ?e, Some (s\<lparr>sk_data := (sk_data s)[i := Some ?e]\<rparr>))"
        "str_rep (s\<lparr>sk_data := (sk_data s)[i := Some ?e]\<rparr>) (m(nid \<mapsto> ?e))"
        using set_rep [OF rep e(1,2), of ?e] malloc_flags(3) \<open>st_nid e = nid\<close> by (auto simp: update_entry_fields)
      have "r = Added" "g' = g2\<lparr>stable := Some (s\<lparr>sk_data := (sk_data s)[i := Some ?e]\<rparr>)\<rparr>"
        using add g1(2) g2(1) Some In_stable s w(1) e by (simp_all add: st_deref_def sk_value_def fl)
      moreover have "add_spec nid a b msk flags m = (Added, m(nid \<mapsto> ?e))"
        using e by (simp add: add_spec_def update_entry_fields(3))
      ultimately show ?thesis using w size g1(4) g2(3) by (auto simp: str_inv_def table_size_ok_def)
    qed
  qed
qed


datatype string_op = Table_add int int int u64 u64 | Table_get int | Table_cleanup
datatype string_result = Status st_result | Entry "string_entry option" | Freed "string_entry set"

fun run_string_table :: "(nat \<Rightarrow> bool) \<Rightarrow> string_op \<Rightarrow> string_state \<Rightarrow> string_result \<times> string_state" where
  "run_string_table alloc (Table_add nid a b m f) g = map_prod Status id (ASN1_STRING_TABLE_add nid a b m f alloc g)"
| "run_string_table alloc (Table_get nid) g =
     (case ASN1_STRING_TABLE_get nid g of (p, g') \<Rightarrow> (Entry (map_option (st_deref g') p), g'))"
| "run_string_table alloc Table_cleanup g = map_prod (\<lambda>fs. Freed (set fs)) id (ASN1_STRING_TABLE_cleanup g)"

fun map_step :: "string_op \<Rightarrow> (int \<Rightarrow> string_entry option) \<Rightarrow> string_result \<times> (int \<Rightarrow> string_entry option)" where
  "map_step (Table_add nid a b m f) mp = map_prod Status id (add_spec nid a b m f mp)"
| "map_step (Table_get nid) mp = (Entry (get_spec nid mp), mp)"
| "map_step Table_cleanup mp = (Freed (ran mp), Map.empty)"

lemma cleanup_rep:
  assumes "str_inv g m" "ASN1_STRING_TABLE_cleanup g = (fs, g')"
  shows "set fs = ran m \<and> str_inv g' Map.empty \<and> stable g' = None"
proof (cases "stable g")
  case None
  then show ?thesis using assms by (auto simp: ASN1_STRING_TABLE_cleanup_def str_inv_def)
next
  case (Some s)
  then have rep: "str_rep s m" using assms(1) by (simp add: str_inv_def)
  have "fs = concat (map st_free (sk_pop_free_ex (Some s)))" and g': "stable g' = None"
    using assms(2) Some by (auto simp: ASN1_STRING_TABLE_cleanup_def)
  then have "x \<in> set fs \<longleftrightarrow> Some x \<in> set (sk_data s)" for x
    using rep by (fastforce simp: sk_pop_free_ex_def st_free_def malloc_flags str_rep_def image_iff split: if_splits)
  moreover have "x \<in> ran m \<longleftrightarrow> Some x \<in> set (sk_data s)" for x
    using rep by (auto simp: str_rep_def ran_def)
  ultimately show ?thesis using g' by (auto simp: str_inv_def)
qed

lemma run_string_table_rep:
  assumes "str_inv g m" "\<And>n. alloc n" "table_size_ok k g" "k < 2 ^ 58" "run_string_table alloc op g = (r, g')"
  shows "\<exists>m'. map_step op m = (r, m') \<and> str_inv g' m' \<and> table_size_ok (k + 1) g'"
proof (cases op)
  case (Table_add nid a b msk f)
  obtain r' g1 where a: "ASN1_STRING_TABLE_add nid a b msk f alloc g = (r', g1)" by fastforce
  from add_rep [OF assms(1-4) a] obtain m' where "add_spec nid a b msk f m = (r', m')" "str_inv g1 m'" "table_size_ok (k + 1) g1"
    by blast
  then show ?thesis using assms(5) a Table_add by auto
next
  case (Table_get nid)
  obtain p g1 where g1: "ASN1_STRING_TABLE_get nid g = (p, g1)" "str_inv g1 m" "stable g1 = None \<longleftrightarrow> stable g = None"
    "stable g \<noteq> None \<longrightarrow> sk_num_alloc (the (stable g1)) = sk_num_alloc (the (stable g)) \<and>
       length (sk_data (the (stable g1))) = length (sk_data (the (stable g)))"
    "map_option (st_deref g1) p = get_spec nid m"
    using get_rep [OF assms(1), of nid] by (elim exE conjE) (rule that)
  then show ?thesis using assms(3,5) Table_get by (auto simp: table_size_ok_def split: option.splits)
next
  case Table_cleanup
  obtain fs g1 where c: "ASN1_STRING_TABLE_cleanup g = (fs, g1)" by fastforce
  from cleanup_rep [OF assms(1) c] show ?thesis using assms(5) c Table_cleanup by (simp add: table_size_ok_def)
qed

lemma run_string_tables_rep:
  assumes "\<And>n. alloc n"
  shows "str_inv g m \<Longrightarrow> table_size_ok k g \<Longrightarrow> k + length ops \<le> 2 ^ 58 \<Longrightarrow> run_ops (run_string_table alloc) ops g = (rs, g') \<Longrightarrow>
    \<exists>m'. run_ops map_step ops m = (rs, m') \<and> str_inv g' m'"
proof (induction ops arbitrary: g m k rs)
  case (Cons op ops)
  obtain r g1 where g1: "run_string_table alloc op g = (r, g1)" by fastforce
  obtain rs1 where rs1: "run_ops (run_string_table alloc) ops g1 = (rs1, g')" "rs = r # rs1"
    using Cons.prems(4) g1 by (auto split: prod.splits)
  have "k < 2 ^ 58" using Cons.prems(3) by simp
  from run_string_table_rep [OF Cons.prems(1) assms Cons.prems(2) this g1] obtain m1 where
    m1: "map_step op m = (r, m1)" "str_inv g1 m1" "table_size_ok (k + 1) g1" by blast
  from Cons.IH [OF m1(2,3) _ rs1(1)] Cons.prems(3) m1(1) rs1(2) show ?case by auto
qed auto


section \<open>Properties\<close>




text \<open>
  For a number of the standard table and any valid characters in any encoding, the string is
  refused exactly if no permitted type holds its characters or its length is outside the limits of
  the entry, and otherwise has the first permitted type that holds it, under the global mask
  unless the entry is exempt from it.
\<close>

theorem ASN1_STRING_set_by_NID_standard:
  assumes "standard_entry nid = Some e" "inform \<noteq> MBSTRING_UNKNOWN" "list_all (valid_of inform) us"
    and "\<forall>n. alloc n" "length us < 2 ^ 28" "inp = concat (map (enc_of inform) us)" "out \<noteq> Out_given"
  shows "ASN1_STRING_set_by_NID inp (int (length inp)) inform nid out alloc g =
    (let m = (if bit (st_flags e) 1 then st_mask e else st_mask e AND global_mask g);
         m = (if m = 0 then DIRSTRING_TYPE else m)
     in (if has_bom inform us \<or> us \<noteq> [] \<and> (\<forall>n. \<not> permitted m us n) \<or>
            st_minsize e > 0 \<and> int (length us) < st_minsize e \<or> st_maxsize e > 0 \<and> int (length us) > st_maxsize e
         then None
         else Some (fst (best_type m us), Some (concat (map (enc_of (snd (best_type m us))) us))), g))"
proof -
  obtain i where i: "ASN1_STRING_TABLE_get nid g = (Some (In_standard i), g)" "tbl_standard ! i = e"
    using bsearch_standard [of nid] assms(1) by (auto simp: ASN1_STRING_TABLE_get_def split: option.splits)
  have out: "(if out = No_out then Out_null else out) = Out_null" using assms(7) by (cases out) auto
  have bit: "st_flags e AND STABLE_NO_MASK = 0 \<longleftrightarrow> \<not> bit (st_flags e) 1"
    using and_exp_eq_0_iff_not_bit [of "st_flags e" 1] by (simp add: STABLE_NO_MASK_def)
  have errors: "(case (if A then Inl x else if B then Inl y else if C then Inl z else Inr r) of Inl _ \<Rightarrow> None | Inr r \<Rightarrow> Some r) =
      (if A \<or> B \<or> C then None else Some r)" for A B C and x y z :: mb_error and r :: "nat \<times> byte list option"
    by simp
  show ?thesis
    unfolding ASN1_STRING_set_by_NID_def i(1) Let_def out prod.case option.case st_deref_def st_ptr.case i(2) assms(6)
      ncopy_exact [OF assms(2-5)] bit errors
    by (cases "bit (st_flags e) 1") (simp_all only: if_True if_False not_True_eq_False not_False_eq_True disj_assoc)
qed

theorem ASN1_STRING_set_by_NID_standard_witness:
  "fst (ASN1_STRING_set_by_NID [0x4b, 0x52] 2 MBSTRING_ASC 14 No_out (\<lambda>n. True) string_state0) =
     Some (V_ASN1_PRINTABLESTRING, Some [0x4b, 0x52])"
proof -
  let ?us = "[0x4b, 0x52 :: u32]"
  have e: "standard_entry 14 = Some \<lparr>st_nid = 14, st_minsize = 2, st_maxsize = 2, st_mask = B_ASN1_PRINTABLESTRING, st_flags = STABLE_NO_MASK\<rparr>"
    by (simp add: standard_entry_def tbl_standard_def)
  have p: "permitted B_ASN1_PRINTABLESTRING ?us 1"
    by (simp add: permitted_def format_holds_def B_ASN1_PRINTABLESTRING_def is_printable_def)
  then have b: "best_type B_ASN1_PRINTABLESTRING ?us = (V_ASN1_PRINTABLESTRING, MBSTRING_ASC)" by (simp add: best_type_def)
  have "\<not> (\<forall>n. \<not> permitted B_ASN1_PRINTABLESTRING ?us n)" using p by blast
  moreover have "bit STABLE_NO_MASK 1" "B_ASN1_PRINTABLESTRING \<noteq> 0" by (simp_all add: STABLE_NO_MASK_def B_ASN1_PRINTABLESTRING_def)
  ultimately show ?thesis
    using ASN1_STRING_set_by_NID_standard [OF e, of MBSTRING_ASC ?us "\<lambda>n. True" "[0x4b, 0x52]" No_out string_state0] b
    by (simp add: valid_of_def has_bom_def enc_of_def Let_def)
qed

text \<open>
  An addition for a number of the standard table finds the entry in the constant table and writes to
  it; and a mask that the global mask empties permits every directory string type.
\<close>

lemma table_add_standard: "fst (ASN1_STRING_TABLE_add 13 1 200 DIRSTRING_TYPE 0 (\<lambda>n. True) string_state0) = Writes_constant"
proof -
  obtain i where "bsearch table_cmp \<lparr>st_nid = 13, st_minsize = 0, st_maxsize = 0, st_mask = 0, st_flags = 0\<rparr>
      tbl_standard 0 (length tbl_standard) = Some i"
    using bsearch_standard [of 13] by (auto simp: standard_entry_def tbl_standard_def split: option.splits)
  then show ?thesis by (simp add: ASN1_STRING_TABLE_add_def ASN1_STRING_TABLE_get_def sk_new_def string_state0_def)
qed

lemma mask_asc_examples:
  "fst (ASN1_STRING_set_default_mask_asc (c_string ''MASK:0x2000'') g)"
  "global_mask (snd (ASN1_STRING_set_default_mask_asc (c_string ''MASK:0x2000'') g)) = B_ASN1_UTF8STRING"
  "\<not> fst (ASN1_STRING_set_default_mask_asc (c_string ''MASK:12z'') g)"
  by (simp_all add: ASN1_STRING_set_default_mask_asc_def c_string_def strtoul_def isspace_def digit_value_def
      ASN1_STRING_set_default_mask_def B_ASN1_UTF8STRING_def)

end
