(* ===== verification/Lhash.thy ===== *)
theory Lhash
  imports Prelude "HOL-Library.Multiset"
begin

text \<open>
  Model of \<open>crypto/lhash/lhash.c\<close>, the hash table with chains that grows and shrinks, and of the
  hash and comparison functions of configuration values (\<open>crypto/conf/conf.c\<close>) with the string
  hash they use. A chain is the list of its items; the pointer that \<open>get_next_ptr_and_hash\<close>
  returns cuts the chain in two. The locale \<open>element_table\<close> is the interface of a table,
  \<open>hash_contract\<close> what the table requires of its two functions; the first is given by the second
  (\<open>sublocale\<close>) and the second is interpreted on the configuration values. The counter of items
  is a natural number: every item takes memory, so it cannot reach the range of \<open>size_t\<close>.
\<close>

definition kMinNumBuckets :: nat where "kMinNumBuckets = 16"
definition kMaxAverageChainLength :: nat where "kMaxAverageChainLength = 2"
definition kMinAverageChainLength :: nat where "kMinAverageChainLength = 1"

record 'a lhash_item =
  it_data :: 'a
  it_hash :: u32

record 'a lhash =
  num_items :: nat
  buckets :: "'a lhash_item list list"
  callback_depth :: nat
  lh_comp :: "'a \<Rightarrow> 'a \<Rightarrow> int"
  lh_hash :: "'a \<Rightarrow> u32"
  lh_alloc :: "nat \<Rightarrow> bool"

abbreviation num_buckets :: "'a lhash \<Rightarrow> nat" where
  "num_buckets lh \<equiv> length (buckets lh)"

abbreviation UINT_MAX :: nat where "UINT_MAX \<equiv> 0xffffffff"

definition lh_new :: "('a \<Rightarrow> u32) \<Rightarrow> ('a \<Rightarrow> 'a \<Rightarrow> int) \<Rightarrow> (nat \<Rightarrow> bool) \<Rightarrow> 'a lhash option" where
  "lh_new hsh cmp alloc =
     (if \<not> alloc 48 then None
      else if \<not> alloc (8 * kMinNumBuckets) then None
      else Some \<lparr>num_items = 0, buckets = replicate kMinNumBuckets [], callback_depth = 0,
                 lh_comp = cmp, lh_hash = hsh, lh_alloc = alloc\<rparr>)"

definition lh_num_items :: "'a lhash \<Rightarrow> nat" where
  "lh_num_items lh = num_items lh"

text \<open>The bucket of a hash, and a chain cut at the pointer to the first item equal to the data.\<close>

definition bucket_of :: "'a lhash \<Rightarrow> u32 \<Rightarrow> nat" where
  "bucket_of lh h = unat h mod num_buckets lh"

definition cut_chain :: "('a \<Rightarrow> bool) \<Rightarrow> 'a lhash_item list \<Rightarrow> 'a lhash_item list \<times> 'a lhash_item list" where
  "cut_chain eq chain = (takeWhile (\<lambda>it. \<not> eq (it_data it)) chain, dropWhile (\<lambda>it. \<not> eq (it_data it)) chain)"

definition get_next_ptr_and_hash :: "'a lhash \<Rightarrow> 'a \<Rightarrow> u32 \<times> 'a lhash_item list \<times> 'a lhash_item list" where
  "get_next_ptr_and_hash lh data =
     (let h = lh_hash lh data
      in (h, cut_chain (\<lambda>x. lh_comp lh x data = 0) (buckets lh ! bucket_of lh h)))"

definition get_next_ptr_by_key ::
  "'a lhash \<Rightarrow> 'k \<Rightarrow> u32 \<Rightarrow> ('k \<Rightarrow> 'a \<Rightarrow> int) \<Rightarrow> 'a lhash_item list \<times> 'a lhash_item list" where
  "get_next_ptr_by_key lh key key_hash cmp_key =
     cut_chain (\<lambda>x. cmp_key key x = 0) (buckets lh ! bucket_of lh key_hash)"

definition lh_retrieve :: "'a lhash \<Rightarrow> 'a \<Rightarrow> 'a option" where
  "lh_retrieve lh data =
     (case get_next_ptr_and_hash lh data of
        (h, before, []) \<Rightarrow> None
      | (h, before, it # after) \<Rightarrow> Some (it_data it))"

definition lh_retrieve_key :: "'a lhash \<Rightarrow> 'k \<Rightarrow> u32 \<Rightarrow> ('k \<Rightarrow> 'a \<Rightarrow> int) \<Rightarrow> 'a option" where
  "lh_retrieve_key lh key key_hash cmp_key =
     (case get_next_ptr_by_key lh key key_hash cmp_key of
        (before, []) \<Rightarrow> None
      | (before, it # after) \<Rightarrow> Some (it_data it))"

text \<open>Every item is pushed on the chain of its new bucket.\<close>

definition push_item :: "'a lhash_item \<Rightarrow> 'a lhash_item list list \<Rightarrow> 'a lhash_item list list" where
  "push_item it bs = (let b = unat (it_hash it) mod length bs in bs[b := it # bs ! b])"

definition lh_rebucket :: "'a lhash \<Rightarrow> nat \<Rightarrow> 'a lhash" where
  "lh_rebucket lh new_num_buckets =
     (let alloc_size = (8 * new_num_buckets) mod size_mod
      in if alloc_size div 8 \<noteq> new_num_buckets then lh
         else if \<not> lh_alloc lh alloc_size then lh
         else lh\<lparr>buckets := fold push_item (concat (buckets lh)) (replicate new_num_buckets [])\<rparr>)"

definition lh_maybe_resize :: "'a lhash \<Rightarrow> 'a lhash" where
  "lh_maybe_resize lh =
     (if callback_depth lh > 0 then lh
      else let avg_chain_length = num_items lh div num_buckets lh
           in if avg_chain_length > kMaxAverageChainLength then
                (let new_num_buckets = (num_buckets lh * 2) mod size_mod
                 in if new_num_buckets > num_buckets lh then lh_rebucket lh new_num_buckets else lh)
              else if avg_chain_length < kMinAverageChainLength \<and> num_buckets lh > kMinNumBuckets then
                (let new_num_buckets = num_buckets lh div 2
                 in lh_rebucket lh (if new_num_buckets < kMinNumBuckets then kMinNumBuckets else new_num_buckets))
              else lh)"

text \<open>The result, \<open>*old_data\<close> and the table.\<close>

definition lh_insert :: "'a lhash \<Rightarrow> 'a \<Rightarrow> bool \<times> 'a option \<times> 'a lhash" where
  "lh_insert lh data =
     (case get_next_ptr_and_hash lh data of
        (h, before, it # after) \<Rightarrow>
          (True, Some (it_data it),
           lh\<lparr>buckets := (buckets lh)[bucket_of lh h := before @ it\<lparr>it_data := data\<rparr> # after]\<rparr>)
      | (h, before, []) \<Rightarrow>
          (if \<not> lh_alloc lh 24 then (False, None, lh)
           else (True, None,
                 lh_maybe_resize
                   (lh\<lparr>buckets := (buckets lh)[bucket_of lh h := before @ [\<lparr>it_data = data, it_hash = h\<rparr>]],
                       num_items := num_items lh + 1\<rparr>))))"

definition lh_delete :: "'a lhash \<Rightarrow> 'a \<Rightarrow> 'a option \<times> 'a lhash" where
  "lh_delete lh data =
     (case get_next_ptr_and_hash lh data of
        (h, before, []) \<Rightarrow> (None, lh)
      | (h, before, it # after) \<Rightarrow>
          (Some (it_data it),
           lh_maybe_resize
             (lh\<lparr>buckets := (buckets lh)[bucket_of lh h := before @ after],
                 num_items := num_items lh - 1\<rparr>)))"

text \<open>A callback that updates a state of its own and leaves the table alone.\<close>

definition lh_doall_arg :: "'a lhash \<Rightarrow> ('a \<Rightarrow> 's \<Rightarrow> 's) \<Rightarrow> 's \<Rightarrow> 's \<times> 'a lhash" where
  "lh_doall_arg lh func arg =
     (let lh1 = (if callback_depth lh < UINT_MAX then lh\<lparr>callback_depth := callback_depth lh + 1\<rparr> else lh);
          arg' = fold (\<lambda>it. func (it_data it)) (concat (buckets lh1)) arg;
          lh2 = (if callback_depth lh1 < UINT_MAX then lh1\<lparr>callback_depth := callback_depth lh1 - 1\<rparr> else lh1)
      in (arg', lh_maybe_resize lh2))"

section \<open>The invariant\<close>

definition items :: "'a lhash \<Rightarrow> 'a lhash_item multiset" where
  "items lh = mset (concat (buckets lh))"

definition placed :: "'a lhash_item list list \<Rightarrow> bool" where
  "placed bs \<longleftrightarrow> (\<forall>i < length bs. \<forall>it \<in> set (bs ! i). unat (it_hash it) mod length bs = i)"

definition lh_inv :: "('a \<Rightarrow> 'a \<Rightarrow> int) \<Rightarrow> ('a \<Rightarrow> u32) \<Rightarrow> 'a lhash \<Rightarrow> bool" where
  "lh_inv cmp hsh lh \<longleftrightarrow> lh_comp lh = cmp \<and> lh_hash lh = hsh \<and> kMinNumBuckets \<le> num_buckets lh \<and> placed (buckets lh) \<and>
     (\<forall>it \<in># items lh. it_hash it = hsh (it_data it)) \<and> num_items lh = size (items lh) \<and>
     (\<forall>d. size (filter_mset (\<lambda>it. cmp (it_data it) d = 0) (items lh)) \<le> 1)"

lemma mset_concat_upd:
  "i < length bs \<Longrightarrow> mset (concat (bs[i := c])) + mset (bs ! i) = mset (concat bs) + mset c"
proof (induction bs arbitrary: i)
  case (Cons b bs)
  then show ?case by (cases i) (auto simp: ac_simps)
qed simp

lemma push_item:
  assumes "bs \<noteq> []" "placed bs"
  shows "mset (concat (push_item it bs)) = add_mset it (mset (concat bs)) \<and> length (push_item it bs) = length bs \<and>
    placed (push_item it bs)"
proof -
  define b where "b = unat (it_hash it) mod length bs"
  have b: "b < length bs" using assms(1) by (simp add: b_def)
  have eq: "push_item it bs = bs[b := it # bs ! b]" by (simp add: push_item_def Let_def b_def)
  have "placed (push_item it bs)"
    using assms(2) b unfolding eq by (auto simp: placed_def nth_list_update b_def)
  then show ?thesis using mset_concat_upd [OF b, of "it # bs ! b"] by (simp add: eq)
qed

lemma push_items:
  "bs \<noteq> [] \<Longrightarrow> placed bs \<Longrightarrow>
   mset (concat (fold push_item its bs)) = mset its + mset (concat bs) \<and> length (fold push_item its bs) = length bs \<and>
   placed (fold push_item its bs)"
proof (induction its arbitrary: bs)
  case (Cons it its)
  have p: "push_item it bs \<noteq> []" using push_item [OF Cons.prems, of it] Cons.prems(1) by auto
  show ?case using Cons.IH [OF p] push_item [OF Cons.prems, of it] by simp
qed simp

lemma placed_empty: "placed (replicate n [])"
  by (simp add: placed_def)

text \<open>Two tables that hold the same items.\<close>

definition same_items :: "'a lhash \<Rightarrow> 'a lhash \<Rightarrow> bool" where
  "same_items lh lh' \<longleftrightarrow> items lh' = items lh \<and> num_items lh' = num_items lh \<and> lh_comp lh' = lh_comp lh \<and>
     lh_hash lh' = lh_hash lh \<and> lh_alloc lh' = lh_alloc lh \<and> callback_depth lh' = callback_depth lh \<and>
     (placed (buckets lh) \<longrightarrow> placed (buckets lh')) \<and> (kMinNumBuckets \<le> num_buckets lh \<longrightarrow> kMinNumBuckets \<le> num_buckets lh')"

lemma rebucket_same: "kMinNumBuckets \<le> n \<Longrightarrow> same_items lh (lh_rebucket lh n)"
  using push_items [of "replicate n []" "concat (buckets lh)"] placed_empty [of n]
  by (auto simp: same_items_def lh_rebucket_def items_def kMinNumBuckets_def Let_def)

lemma maybe_resize_same: "kMinNumBuckets \<le> num_buckets lh \<Longrightarrow> same_items lh (lh_maybe_resize lh)"
  using rebucket_same [of _ lh] by (auto simp: lh_maybe_resize_def Let_def same_items_def)

lemma inv_same: "same_items lh lh' \<Longrightarrow> lh_inv cmp hsh lh \<Longrightarrow> lh_inv cmp hsh lh'"
  by (auto simp: lh_inv_def same_items_def)


section \<open>Tables\<close>

text \<open>
  The interface of a table of elements of which some are equal: what a lookup returns after an
  insertion and after a deletion, and when there is no room for a new element.
\<close>

locale element_table =
  fixes lookup :: "'t \<Rightarrow> 'a \<Rightarrow> 'a option"
    and insert :: "'t \<Rightarrow> 'a \<Rightarrow> bool \<times> 'a option \<times> 't"
    and delete :: "'t \<Rightarrow> 'a \<Rightarrow> 'a option \<times> 't"
    and inv :: "'t \<Rightarrow> bool"
    and room :: "'t \<Rightarrow> bool"
    and same :: "'a \<Rightarrow> 'a \<Rightarrow> bool"
  assumes insert_law: "inv t \<Longrightarrow> insert t d = (ok, old, t') \<Longrightarrow>
      inv t' \<and> room t' = room t \<and> ok = (lookup t d \<noteq> None \<or> room t) \<and> old = lookup t d \<and>
      lookup t' d' = (if ok \<and> same d d' then Some d else lookup t d')"
    and delete_law: "inv t \<Longrightarrow> delete t d = (old, t') \<Longrightarrow>
      inv t' \<and> room t' = room t \<and> old = lookup t d \<and>
      lookup t' d' = (if same d d' then None else lookup t d')"

datatype 'a table_op = Insert 'a | Delete 'a | Retrieve 'a

fun run_table ::
  "('t \<Rightarrow> 'a \<Rightarrow> 'a option) \<Rightarrow> ('t \<Rightarrow> 'a \<Rightarrow> bool \<times> 'a option \<times> 't) \<Rightarrow> ('t \<Rightarrow> 'a \<Rightarrow> 'a option \<times> 't) \<Rightarrow>
   'a table_op list \<Rightarrow> 't \<Rightarrow> (bool \<times> 'a option) list \<times> 't"
where
  "run_table lk ins del [] t = ([], t)"
| "run_table lk ins del (Insert d # ops) t =
     (case ins t d of (ok, old, t') \<Rightarrow> case run_table lk ins del ops t' of (res, t'') \<Rightarrow> ((ok, old) # res, t''))"
| "run_table lk ins del (Delete d # ops) t =
     (case del t d of (old, t') \<Rightarrow> case run_table lk ins del ops t' of (res, t'') \<Rightarrow> ((True, old) # res, t''))"
| "run_table lk ins del (Retrieve d # ops) t =
     (case run_table lk ins del ops t of (res, t') \<Rightarrow> ((True, lk t d) # res, t'))"

text \<open>The abstract table: a map from elements to the equal element it holds.\<close>

definition map_lookup :: "('a \<Rightarrow> 'a option) \<Rightarrow> 'a \<Rightarrow> 'a option" where
  "map_lookup m d = m d"

definition map_insert :: "bool \<Rightarrow> ('a \<Rightarrow> 'a \<Rightarrow> bool) \<Rightarrow> ('a \<Rightarrow> 'a option) \<Rightarrow> 'a \<Rightarrow> bool \<times> 'a option \<times> ('a \<Rightarrow> 'a option)" where
  "map_insert room same m d =
     (if m d \<noteq> None \<or> room then (True, m d, \<lambda>d'. if same d d' then Some d else m d') else (False, None, m))"

definition map_delete :: "('a \<Rightarrow> 'a \<Rightarrow> bool) \<Rightarrow> ('a \<Rightarrow> 'a option) \<Rightarrow> 'a \<Rightarrow> 'a option \<times> ('a \<Rightarrow> 'a option)" where
  "map_delete same m d = (m d, \<lambda>d'. if same d d' then None else m d')"

context element_table
begin

lemma run_refines:
  "inv t \<Longrightarrow> run_table lookup insert delete ops t = (res, t') \<Longrightarrow>
   run_table map_lookup (map_insert (room t) same) (map_delete same) ops (lookup t) = (res, lookup t') \<and>
   inv t' \<and> room t' = room t"
proof (induction ops arbitrary: t res)
  case (Cons x ops)
  show ?case
  proof (cases x)
    case (Insert d)
    obtain ok old t1 where i: "insert t d = (ok, old, t1)" by (cases "insert t d") auto
    note law = insert_law [OF Cons.prems(1) i]
    have "map_insert (room t) same (lookup t) d = (ok, old, lookup t1)"
      using law by (auto simp: map_insert_def fun_eq_iff)
    moreover obtain res1 where r: "run_table lookup insert delete ops t1 = (res1, t')" "res = (ok, old) # res1"
      using Cons.prems(2) i Insert by (auto split: prod.splits)
    moreover have "inv t1" "room t1 = room t" using law by blast+
    ultimately show ?thesis using Cons.IH [OF _ r(1)] Insert by simp
  next
    case (Delete d)
    obtain old t1 where i: "delete t d = (old, t1)" by (cases "delete t d") auto
    note law = delete_law [OF Cons.prems(1) i]
    have "map_delete same (lookup t) d = (old, lookup t1)"
      using law by (auto simp: map_delete_def fun_eq_iff)
    moreover obtain res1 where r: "run_table lookup insert delete ops t1 = (res1, t')" "res = (True, old) # res1"
      using Cons.prems(2) i Delete by (auto split: prod.splits)
    moreover have "inv t1" "room t1 = room t" using law by blast+
    ultimately show ?thesis using Cons.IH [OF _ r(1)] Delete by simp
  next
    case (Retrieve d)
    then show ?thesis using Cons.IH [of t] Cons.prems by (auto simp: map_lookup_def split: prod.splits)
  qed
qed simp

end

text \<open>What the table requires of the comparison and the hash function.\<close>

locale hash_contract =
  fixes cmp :: "'a \<Rightarrow> 'a \<Rightarrow> int" and hsh :: "'a \<Rightarrow> u32"
  assumes eq_refl: "cmp a a = 0"
    and eq_sym: "cmp a b = 0 \<Longrightarrow> cmp b a = 0"
    and eq_trans: "cmp a b = 0 \<Longrightarrow> cmp b c = 0 \<Longrightarrow> cmp a c = 0"
    and eq_hash: "cmp a b = 0 \<Longrightarrow> hsh a = hsh b"

lemma cut_chain: "cut_chain eq chain = (before, after) \<Longrightarrow> chain = before @ after \<and>
    (\<forall>it \<in> set before. \<not> eq (it_data it)) \<and> (after \<noteq> [] \<longrightarrow> eq (it_data (hd after)))"
  by (auto simp: cut_chain_def dest: set_takeWhileD hd_dropWhile)

lemma items_bucket: "it \<in># items lh \<longleftrightarrow> (\<exists>i < num_buckets lh. it \<in> set (buckets lh ! i))"
proof -
  have "it \<in># items lh \<longleftrightarrow> (\<exists>b \<in> set (buckets lh). it \<in> set b)" by (simp add: items_def)
  then show ?thesis by (metis in_set_conv_nth)
qed

context hash_contract
begin

lemma found_unique:
  assumes "lh_inv cmp hsh lh" "it \<in># items lh" "it' \<in># items lh" "cmp (it_data it) d = 0" "cmp (it_data it') d = 0"
  shows "it = it'"
proof (rule ccontr)
  assume ne: "it \<noteq> it'"
  have "{#it, it'#} \<subseteq># filter_mset (\<lambda>it. cmp (it_data it) d = 0) (items lh)"
    using assms(2-5) ne by (auto simp: insert_subset_eq_iff in_diff_count)
  then have "2 \<le> size (filter_mset (\<lambda>it. cmp (it_data it) d = 0) (items lh))"
    using size_mset_mono by fastforce
  then show False using assms(1) unfolding lh_inv_def by (metis One_nat_def Suc_1 not_less_eq_eq)
qed

lemma in_bucket:
  assumes "lh_inv cmp hsh lh" "it \<in># items lh" "cmp (it_data it) d = 0"
  shows "it \<in> set (buckets lh ! bucket_of lh (hsh d))"
proof -
  obtain i where i: "i < num_buckets lh" "it \<in> set (buckets lh ! i)" using assms(2) by (auto simp: items_bucket)
  have "it_hash it = hsh d" using assms eq_hash by (auto simp: lh_inv_def)
  moreover have "unat (it_hash it) mod num_buckets lh = i" using assms(1) i by (simp add: lh_inv_def placed_def)
  ultimately have "bucket_of lh (hsh d) = i" by (simp add: bucket_of_def)
  then show ?thesis using i by simp
qed

lemma bucket_of_less: "lh_inv cmp hsh lh \<Longrightarrow> bucket_of lh h < num_buckets lh"
  by (auto simp: lh_inv_def bucket_of_def kMinNumBuckets_def intro!: mod_less_divisor)

lemma next_ptr_found:
  assumes "lh_inv cmp hsh lh" "get_next_ptr_and_hash lh d = (h, before, it # after)"
  shows "h = hsh d \<and> buckets lh ! bucket_of lh h = before @ it # after \<and> cmp (it_data it) d = 0 \<and> it \<in># items lh"
proof -
  have c: "cut_chain (\<lambda>x. cmp x d = 0) (buckets lh ! bucket_of lh h) = (before, it # after)" "h = hsh d"
    using assms by (auto simp: get_next_ptr_and_hash_def lh_inv_def Let_def)
  then show ?thesis
    using cut_chain [OF c(1)] bucket_of_less [OF assms(1)] by (auto simp: items_bucket intro!: exI [of _ "bucket_of lh h"])
qed

lemma next_ptr_missing:
  assumes "lh_inv cmp hsh lh" "get_next_ptr_and_hash lh d = (h, before, [])"
  shows "h = hsh d \<and> buckets lh ! bucket_of lh h = before \<and> (\<forall>it \<in># items lh. cmp (it_data it) d \<noteq> 0)"
proof -
  have c: "cut_chain (\<lambda>x. cmp x d = 0) (buckets lh ! bucket_of lh h) = (before, [])" "h = hsh d"
    using assms by (auto simp: get_next_ptr_and_hash_def lh_inv_def Let_def)
  then show ?thesis
    using cut_chain [OF c(1)] in_bucket [OF assms(1), of _ d] by auto
qed

lemma retrieve_iff:
  assumes "lh_inv cmp hsh lh"
  shows "lh_retrieve lh d = Some x \<longleftrightarrow> (\<exists>it. it \<in># items lh \<and> it_data it = x \<and> cmp x d = 0)"
proof -
  obtain h before after where g: "get_next_ptr_and_hash lh d = (h, before, after)"
    by (cases "get_next_ptr_and_hash lh d") auto
  show ?thesis
  proof (cases after)
    case Nil
    then show ?thesis using next_ptr_missing [OF assms, of d h before] g by (auto simp: lh_retrieve_def)
  next
    case (Cons it rest)
    then show ?thesis
      using next_ptr_found [OF assms, of d h before it rest] g found_unique [OF assms, of it]
      by (auto simp: lh_retrieve_def)
  qed
qed


lemma retrieve_items:
  assumes "lh_inv cmp hsh lh" "lh_inv cmp hsh lh'" "items lh' = items lh"
  shows "lh_retrieve lh' d = lh_retrieve lh d"
  using retrieve_iff [OF assms(1), of d] retrieve_iff [OF assms(2), of d] assms(3) by (metis not_Some_eq)

lemma size_filter_same: "cmp d d' = 0 \<Longrightarrow>
    filter_mset (\<lambda>it. cmp (it_data it) d' = 0) M = filter_mset (\<lambda>it. cmp (it_data it) d = 0) M"
  by (rule filter_mset_cong) (auto intro: eq_trans eq_sym)

text \<open>One bucket replaced, with an item more, less or changed.\<close>

lemma items_upd:
  "i < num_buckets lh \<Longrightarrow> items (lh\<lparr>buckets := (buckets lh)[i := c]\<rparr>) + mset (buckets lh ! i) = items lh + mset c"
  by (simp add: items_def mset_concat_upd)

lemma placed_upd:
  "placed bs \<Longrightarrow> i < length bs \<Longrightarrow> \<forall>it \<in> set c. unat (it_hash it) mod length bs = i \<Longrightarrow> placed (bs[i := c])"
  by (auto simp: placed_def nth_list_update)

lemma insert_new:
  assumes inv: "lh_inv cmp hsh lh" and g: "get_next_ptr_and_hash lh d = (h, before, [])"
    and lh1: "lh1 = lh\<lparr>buckets := (buckets lh)[bucket_of lh h := before @ [\<lparr>it_data = d, it_hash = h\<rparr>]],
                num_items := num_items lh + 1\<rparr>"
  shows "lh_inv cmp hsh lh1 \<and> items lh1 = add_mset \<lparr>it_data = d, it_hash = h\<rparr> (items lh)"
proof -
  note m = next_ptr_missing [OF inv g] and bk = next_ptr_missing [OF inv g, THEN conjunct2, THEN conjunct1]
  have b: "bucket_of lh h < num_buckets lh" using bucket_of_less [OF inv] .
  have it: "items lh1 = add_mset \<lparr>it_data = d, it_hash = h\<rparr> (items lh)"
    using items_upd [OF b, of "before @ [\<lparr>it_data = d, it_hash = h\<rparr>]"] bk by (simp add: lh1 items_def)
  have p: "placed (buckets lh1)"
    using inv b m unfolding lh1 by (auto simp: lh_inv_def placed_def bucket_of_def nth_list_update)
  have "size (filter_mset (\<lambda>it. cmp (it_data it) d' = 0) (items lh1)) \<le> 1" for d'
  proof (cases "cmp d d' = 0")
    case True
    have "filter_mset (\<lambda>it. cmp (it_data it) d = 0) (items lh) = {#}" 
      using m filter_mset_cong [of "items lh" "items lh" "\<lambda>it. cmp (it_data it) d = 0" "\<lambda>it. False"] by simp
    then show ?thesis using True size_filter_same [OF True, of "items lh"] by (simp add: it)
  next
    case False
    then show ?thesis using inv by (simp add: it lh_inv_def)
  qed
  then show ?thesis using inv p it m by (auto simp: lh_inv_def lh1)
qed

lemma insert_old:
  assumes inv: "lh_inv cmp hsh lh" and g: "get_next_ptr_and_hash lh d = (h, before, it # after)"
    and lh1: "lh1 = lh\<lparr>buckets := (buckets lh)[bucket_of lh h := before @ it\<lparr>it_data := d\<rparr> # after]\<rparr>"
  shows "lh_inv cmp hsh lh1 \<and> items lh1 = add_mset (it\<lparr>it_data := d\<rparr>) (items lh - {#it#})"
proof -
  note m = next_ptr_found [OF inv g] and bk = next_ptr_found [OF inv g, THEN conjunct2, THEN conjunct1]
  have b: "bucket_of lh h < num_buckets lh" using bucket_of_less [OF inv] .
  have it: "add_mset it (items lh1) = add_mset (it\<lparr>it_data := d\<rparr>) (items lh)"
    using items_upd [OF b, of "before @ it\<lparr>it_data := d\<rparr> # after"] bk by (simp add: lh1 items_def)
  then have it1: "items lh1 = add_mset (it\<lparr>it_data := d\<rparr>) (items lh - {#it#})"
    using m by (metis add_mset_diff_bothsides add_mset_remove_trivial diff_union_swap2 insert_DiffM)
  have h: "it_hash it = hsh d" using inv m eq_hash by (auto simp: lh_inv_def)
  have p: "placed (buckets lh1)"
    using inv b m unfolding lh1 by (auto simp: lh_inv_def placed_def bucket_of_def nth_list_update)
  have "size (filter_mset (\<lambda>it. cmp (it_data it) d' = 0) (items lh1)) \<le> 1" for d'
  proof -
    have e: "cmp d d' = 0 \<longleftrightarrow> cmp (it_data it) d' = 0" using m eq_trans eq_sym by blast
    have "filter_mset (\<lambda>it. cmp (it_data it) d' = 0) (items lh1) + filter_mset (\<lambda>it. cmp (it_data it) d' = 0) {#it#} =
        filter_mset (\<lambda>it. cmp (it_data it) d' = 0) (items lh) + filter_mset (\<lambda>it. cmp (it_data it) d' = 0) {#it\<lparr>it_data := d\<rparr>#}"
      using arg_cong [OF it, of "filter_mset (\<lambda>it. cmp (it_data it) d' = 0)"] by (simp split: if_splits)
    then have "size (filter_mset (\<lambda>it. cmp (it_data it) d' = 0) (items lh1)) = size (filter_mset (\<lambda>it. cmp (it_data it) d' = 0) (items lh))"
      using e by (auto dest: arg_cong [of _ _ size])
    then show ?thesis using inv by (simp add: lh_inv_def)
  qed
  moreover have "size (items lh1) = size (items lh)" using arg_cong [OF it, of size] by simp
  moreover have "\<forall>it \<in># items lh1. it_hash it = hsh (it_data it)"
    using inv h by (auto simp: it1 lh_inv_def dest: in_diffD)
  ultimately show ?thesis using inv p it1 by (auto simp: lh_inv_def lh1)
qed

lemma delete_found:
  assumes inv: "lh_inv cmp hsh lh" and g: "get_next_ptr_and_hash lh d = (h, before, it # after)"
    and lh1: "lh1 = lh\<lparr>buckets := (buckets lh)[bucket_of lh h := before @ after], num_items := num_items lh - 1\<rparr>"
  shows "lh_inv cmp hsh lh1 \<and> items lh = add_mset it (items lh1)"
proof -
  note m = next_ptr_found [OF inv g] and bk = next_ptr_found [OF inv g, THEN conjunct2, THEN conjunct1]
  have b: "bucket_of lh h < num_buckets lh" using bucket_of_less [OF inv] .
  have it: "items lh = add_mset it (items lh1)"
    using items_upd [OF b, of "before @ after"] bk by (simp add: lh1 items_def)
  have p: "placed (buckets lh1)"
    using inv b m unfolding lh1 by (auto simp: lh_inv_def placed_def bucket_of_def nth_list_update)
  have "size (filter_mset (\<lambda>it. cmp (it_data it) d' = 0) (items lh1)) \<le> 1" for d'
  proof -
    have "size (filter_mset (\<lambda>it. cmp (it_data it) d' = 0) (items lh)) \<le> 1" using inv by (simp add: lh_inv_def)
    moreover have "size (filter_mset (\<lambda>it. cmp (it_data it) d' = 0) (items lh1))
        \<le> size (filter_mset (\<lambda>it. cmp (it_data it) d' = 0) (items lh))"
      by (intro size_mset_mono multiset_filter_mono) (simp add: it)
    ultimately show ?thesis by simp
  qed
  then show ?thesis using inv p it by (auto simp: lh_inv_def lh1)
qed


lemma retrieve_insert_eq:
  assumes "lh_inv cmp hsh lh'" "\<And>it. it \<in># items lh' \<longleftrightarrow> it_data it = d \<and> it = new \<or> it \<in># items lh \<and> cmp (it_data it) d \<noteq> 0"
    and "lh_inv cmp hsh lh" "it_data new = d"
  shows "lh_retrieve lh' d' = (if cmp d d' = 0 then Some d else lh_retrieve lh d')"
proof (cases "cmp d d' = 0")
  case True
  then have "lh_retrieve lh' d' = Some d" using retrieve_iff [OF assms(1)] assms(2,4) by blast
  then show ?thesis using True by simp
next
  case False
  have "lh_retrieve lh' d' = Some x \<longleftrightarrow> lh_retrieve lh d' = Some x" for x
    unfolding retrieve_iff [OF assms(1)] retrieve_iff [OF assms(3)] assms(2)
    using False assms(4) eq_sym eq_trans by blast
  then show ?thesis using False by (metis not_Some_eq)
qed

lemma unique_removed:
  assumes "lh_inv cmp hsh lh" "it \<in># items lh" "cmp (it_data it) d = 0"
  shows "it' \<in># items lh - {#it#} \<longleftrightarrow> it' \<in># items lh \<and> cmp (it_data it') d \<noteq> 0"
proof -
  obtain M where M: "items lh = add_mset it M" using assms(2) by (meson multi_member_split)
  have "size (filter_mset (\<lambda>it. cmp (it_data it) d = 0) M) = 0"
  proof -
    have "size (filter_mset (\<lambda>it. cmp (it_data it) d = 0) (items lh)) \<le> 1" using assms(1) by (simp add: lh_inv_def)
    then show ?thesis using assms(3) unfolding M by (simp del: size_eq_0_iff_empty)
  qed
  then have e: "filter_mset (\<lambda>it. cmp (it_data it) d = 0) M = {#}" by simp
  have none: "x \<in># M \<Longrightarrow> cmp (it_data x) d \<noteq> 0" for x
  proof
    assume "x \<in># M" "cmp (it_data x) d = 0"
    then have "x \<in># filter_mset (\<lambda>it. cmp (it_data it) d = 0) M" by simp
    then show False unfolding e by simp
  qed
  show ?thesis unfolding M using none assms(3) by auto
qed

lemma insert_law:
  assumes inv: "lh_inv cmp hsh lh" and r: "lh_insert lh d = (ok, old, lh')"
  shows "lh_inv cmp hsh lh' \<and> lh_alloc lh' = lh_alloc lh \<and> ok = (lh_retrieve lh d \<noteq> None \<or> lh_alloc lh 24) \<and>
    old = lh_retrieve lh d \<and> lh_retrieve lh' d' = (if ok \<and> cmp d d' = 0 then Some d else lh_retrieve lh d')"
proof -
  obtain h before after where g: "get_next_ptr_and_hash lh d = (h, before, after)"
    by (cases "get_next_ptr_and_hash lh d") auto
  show ?thesis
  proof (cases after)
    case (Cons it rest)
    note g = g [unfolded Cons]
    note m = next_ptr_found [OF inv g]
    have r': "ok" "old = Some (it_data it)"
      "lh' = lh\<lparr>buckets := (buckets lh)[bucket_of lh h := before @ it\<lparr>it_data := d\<rparr> # rest]\<rparr>"
      using r g by (auto simp: lh_insert_def)
    note i = insert_old [OF inv g r'(3)]
    have l: "lh_retrieve lh d = Some (it_data it)" using g by (simp add: lh_retrieve_def)
    have mem: "x \<in># items lh' \<longleftrightarrow> it_data x = d \<and> x = it\<lparr>it_data := d\<rparr> \<or> x \<in># items lh \<and> cmp (it_data x) d \<noteq> 0" for x
      unfolding conjunct2 [OF i] using unique_removed [OF inv, of it d x] m by auto
    have "lh_retrieve lh' d' = (if cmp d d' = 0 then Some d else lh_retrieve lh d')"
      by (rule retrieve_insert_eq [OF conjunct1 [OF i] mem inv]) simp
    then show ?thesis using i l r' by simp
  next
    case Nil
    note g = g [unfolded Nil]
    note m = next_ptr_missing [OF inv g]
    have l: "lh_retrieve lh d = None" using g by (simp add: lh_retrieve_def)
    show ?thesis
    proof (cases "lh_alloc lh 24")
      case False
      then show ?thesis using r g l inv by (auto simp: lh_insert_def)
    next
      case True
      define lh1 where "lh1 = lh\<lparr>buckets := (buckets lh)[bucket_of lh h := before @ [\<lparr>it_data = d, it_hash = h\<rparr>]],
          num_items := num_items lh + 1\<rparr>"
      have r': "ok" "old = None" "lh' = lh_maybe_resize lh1" using r g True by (auto simp: lh_insert_def lh1_def)
      note i = insert_new [OF inv g lh1_def]
      have s: "same_items lh1 lh'" using maybe_resize_same [of lh1] i r'(3) by (simp add: lh_inv_def)
      note inv' = inv_same [OF s conjunct1 [OF i]]
      have items: "items lh' = add_mset \<lparr>it_data = d, it_hash = h\<rparr> (items lh)" using i s by (simp add: same_items_def)
      have mem: "x \<in># items lh' \<longleftrightarrow> it_data x = d \<and> x = \<lparr>it_data = d, it_hash = h\<rparr> \<or> x \<in># items lh \<and> cmp (it_data x) d \<noteq> 0" for x
        unfolding items using m by auto
      have "lh_retrieve lh' d' = (if cmp d d' = 0 then Some d else lh_retrieve lh d')"
        by (rule retrieve_insert_eq [OF inv' mem inv]) simp
      then show ?thesis using inv' l r' True s by (simp add: same_items_def lh1_def)
    qed
  qed
qed

lemma delete_law:
  assumes inv: "lh_inv cmp hsh lh" and r: "lh_delete lh d = (old, lh')"
  shows "lh_inv cmp hsh lh' \<and> lh_alloc lh' = lh_alloc lh \<and> old = lh_retrieve lh d \<and>
    lh_retrieve lh' d' = (if cmp d d' = 0 then None else lh_retrieve lh d')"
proof -
  obtain h before after where g: "get_next_ptr_and_hash lh d = (h, before, after)"
    by (cases "get_next_ptr_and_hash lh d") auto
  show ?thesis
  proof (cases after)
    case Nil
    note g = g [unfolded Nil]
    have l: "lh_retrieve lh d = None" using g by (simp add: lh_retrieve_def)
    have "lh_retrieve lh d' = None" if "cmp d d' = 0"
      using next_ptr_missing [OF inv g] retrieve_iff [OF inv, of d'] that eq_sym eq_trans by (metis not_Some_eq)
    then show ?thesis using r g l inv by (auto simp: lh_delete_def)
  next
    case (Cons it rest)
    note g = g [unfolded Cons]
    note m = next_ptr_found [OF inv g]
    define lh1 where "lh1 = lh\<lparr>buckets := (buckets lh)[bucket_of lh h := before @ rest], num_items := num_items lh - 1\<rparr>"
    have r': "old = Some (it_data it)" "lh' = lh_maybe_resize lh1" using r g by (auto simp: lh_delete_def lh1_def)
    note i = delete_found [OF inv g lh1_def]
    have s: "same_items lh1 lh'" using maybe_resize_same [of lh1] i r'(2) by (simp add: lh_inv_def)
    note inv' = inv_same [OF s conjunct1 [OF i]]
    have l: "lh_retrieve lh d = Some (it_data it)" using g by (simp add: lh_retrieve_def)
    have items: "items lh' = items lh - {#it#}" using i s by (simp add: same_items_def)
    have "lh_retrieve lh' d' = (if cmp d d' = 0 then None else lh_retrieve lh d')"
    proof (cases "cmp d d' = 0")
      case True
      then have "lh_retrieve lh' d' \<noteq> Some x" for x
        unfolding retrieve_iff [OF inv'] items using unique_removed [OF inv, of it d] m eq_sym eq_trans by blast
      then show ?thesis using True by (metis not_Some_eq)
    next
      case False
      have "lh_retrieve lh' d' = Some x \<longleftrightarrow> lh_retrieve lh d' = Some x" for x
        unfolding retrieve_iff [OF inv'] retrieve_iff [OF inv] items
        using unique_removed [OF inv, of it d] m False eq_sym eq_trans by blast
      then show ?thesis using False by (metis not_Some_eq)
    qed
    then show ?thesis using inv' l r' s by (auto simp: same_items_def lh1_def)
  qed
qed

end


sublocale hash_contract \<subseteq> tab: element_table lh_retrieve lh_insert lh_delete "lh_inv cmp hsh" "\<lambda>lh. lh_alloc lh 24"
  "\<lambda>a b. cmp a b = 0"
proof unfold_locales
  fix lh d ok old lh' d'
  assume "lh_inv cmp hsh lh" "lh_insert lh d = (ok, old, lh')"
  from insert_law [OF this, of d'] show "lh_inv cmp hsh lh' \<and> lh_alloc lh' 24 = lh_alloc lh 24 \<and>
      ok = (lh_retrieve lh d \<noteq> None \<or> lh_alloc lh 24) \<and> old = lh_retrieve lh d \<and>
      lh_retrieve lh' d' = (if ok \<and> cmp d d' = 0 then Some d else lh_retrieve lh d')" by simp
next
  fix lh d old lh' d'
  assume "lh_inv cmp hsh lh" "lh_delete lh d = (old, lh')"
  from delete_law [OF this, of d'] show "lh_inv cmp hsh lh' \<and> lh_alloc lh' 24 = lh_alloc lh 24 \<and> old = lh_retrieve lh d \<and>
      lh_retrieve lh' d' = (if cmp d d' = 0 then None else lh_retrieve lh d')" by simp
qed

context hash_contract
begin

lemmas table_refines = tab.run_refines

end

lemma new_inv:
  assumes "lh_new hsh cmp alloc = Some lh"
  shows "lh_inv cmp hsh lh \<and> lh_alloc lh = alloc \<and> lh_retrieve lh d = None"
proof -
  have l: "lh = \<lparr>num_items = 0, buckets = replicate kMinNumBuckets [], callback_depth = 0,
                 lh_comp = cmp, lh_hash = hsh, lh_alloc = alloc\<rparr>"
    using assms by (auto simp: lh_new_def split: if_splits)
  have "buckets lh ! bucket_of lh (hsh d) = []"
    by (simp add: l bucket_of_def kMinNumBuckets_def)
  then show ?thesis
    by (auto simp: l lh_inv_def items_def placed_empty lh_retrieve_def get_next_ptr_and_hash_def cut_chain_def)
qed

section \<open>The values of a configuration\<close>

text \<open>Strings are their bytes without the terminating zero; the sign of \<open>strcmp\<close> is all that counts.\<close>

fun strcmp :: "byte list \<Rightarrow> byte list \<Rightarrow> int" where
  "strcmp [] [] = 0"
| "strcmp [] (b # bs) = 0 - uint b - 1"
| "strcmp (a # as) [] = uint a + 1"
| "strcmp (a # as) (b # bs) = (if a = b then strcmp as bs else uint a - uint b)"

definition OPENSSL_hash32 :: "byte list \<Rightarrow> u32" where
  "OPENSSL_hash32 ptr = fold (\<lambda>b h. (h XOR ucast b) * 16777619) ptr 2166136261"

definition lh_strhash :: "byte list option \<Rightarrow> u32" where
  "lh_strhash c = (case c of None \<Rightarrow> 0 | Some s \<Rightarrow> OPENSSL_hash32 s)"

record conf_value =
  cv_section :: "byte list"
  cv_name :: "byte list option"
  cv_value :: "byte list option"

definition conf_value_hash :: "conf_value \<Rightarrow> u32" where
  "conf_value_hash v = push_bit 2 (lh_strhash (Some (cv_section v))) XOR lh_strhash (cv_name v)"

definition conf_value_cmp :: "conf_value \<Rightarrow> conf_value \<Rightarrow> int" where
  "conf_value_cmp a b =
     (let i = strcmp (cv_section a) (cv_section b)
      in if i \<noteq> 0 then i
         else case (cv_name a, cv_name b) of
                (Some n, Some m) \<Rightarrow> strcmp n m
              | (None, None) \<Rightarrow> 0
              | (None, Some m) \<Rightarrow> -1
              | (Some n, None) \<Rightarrow> 1)"

lemma strcmp_0: "strcmp a b = 0 \<longleftrightarrow> a = b"
proof (induction a b rule: strcmp.induct)
  case (2 b bs)
  have "0 \<le> uint b" by simp
  then have "strcmp [] (b # bs) \<noteq> 0" unfolding strcmp.simps by linarith
  then show ?case by simp
next
  case (3 a as)
  have "0 \<le> uint a" by simp
  then have "strcmp (a # as) [] \<noteq> 0" unfolding strcmp.simps by linarith
  then show ?case by simp
qed (auto simp: word_uint_eq_iff)

lemma conf_value_cmp_0: "conf_value_cmp a b = 0 \<longleftrightarrow> cv_section a = cv_section b \<and> cv_name a = cv_name b"
  by (auto simp: conf_value_cmp_def Let_def strcmp_0 split: option.splits)

interpretation conf: hash_contract conf_value_cmp conf_value_hash
  by unfold_locales (auto simp: conf_value_cmp_0 conf_value_hash_def)

section \<open>Correctness\<close>

text \<open>
  C6. The hash table refines a map: for every comparison and hash function that satisfy the contract
  and every program of insertions, deletions and lookups on a new table, the results, old values
  and failures are those of the abstract map, through every resize, and the representation
  invariant holds at the end.
\<close>

theorem lhash_refines_map:
  assumes "hash_contract cmp hsh" "lh_new hsh cmp alloc = Some lh"
    and "run_table lh_retrieve lh_insert lh_delete ops lh = (res, lh')"
  shows "fst (run_table map_lookup (map_insert (alloc 24) (\<lambda>a b. cmp a b = 0)) (map_delete (\<lambda>a b. cmp a b = 0)) ops (\<lambda>d. None)) = res \<and>
    lh_inv cmp hsh lh'"
proof -
  have l: "lh_inv cmp hsh lh" "lh_alloc lh = alloc" "lh_retrieve lh = (\<lambda>d. None)"
    using new_inv [OF assms(2)] by blast+
  show ?thesis
    using hash_contract.table_refines [OF assms(1) l(1) assms(3)] unfolding l(2,3) by simp
qed

theorem lhash_refines_map_witness:
  "\<exists>lh. lh_new conf_value_hash conf_value_cmp (\<lambda>n. True) = Some lh \<and>
    fst (run_table lh_retrieve lh_insert lh_delete
      [Insert \<lparr>cv_section = [1], cv_name = None, cv_value = None\<rparr>,
       Insert \<lparr>cv_section = [1], cv_name = None, cv_value = Some [2]\<rparr>,
       Retrieve \<lparr>cv_section = [1], cv_name = None, cv_value = None\<rparr>] lh) =
    [(True, None), (True, Some \<lparr>cv_section = [1], cv_name = None, cv_value = None\<rparr>),
     (True, Some \<lparr>cv_section = [1], cv_name = None, cv_value = Some [2]\<rparr>)]"
proof -
  let ?ops = "[Insert \<lparr>cv_section = [1], cv_name = None, cv_value = None\<rparr>,
       Insert \<lparr>cv_section = [1], cv_name = None, cv_value = Some [2]\<rparr>,
       Retrieve \<lparr>cv_section = [1], cv_name = None, cv_value = None\<rparr>]"
  obtain lh where lh: "lh_new conf_value_hash conf_value_cmp (\<lambda>n. True) = Some lh" by (auto simp: lh_new_def)
  obtain res lh' where r: "run_table lh_retrieve lh_insert lh_delete ?ops lh = (res, lh')"
    by (cases "run_table lh_retrieve lh_insert lh_delete ?ops lh")
  from lhash_refines_map [OF conf.hash_contract_axioms lh r] lh r show ?thesis
    by (simp add: map_lookup_def map_insert_def conf_value_cmp_0)
qed

text \<open>The load: between one and three items in a bucket, unless the table has its least size.\<close>

definition load_ok :: "'a lhash \<Rightarrow> bool" where
  "load_ok lh \<longleftrightarrow> num_items lh < 3 * num_buckets lh \<and> kMinNumBuckets \<le> num_buckets lh \<and>
     (num_buckets lh > kMinNumBuckets \<longrightarrow> num_buckets lh \<le> num_items lh)"

lemma length_fold_push: "length (fold push_item its bs) = length bs"
  by (induction its arbitrary: bs) (simp_all add: push_item_def Let_def)

lemma resize_load:
  assumes "\<forall>n. lh_alloc lh n" "callback_depth lh = 0" "num_items lh \<le> 3 * num_buckets lh" "kMinNumBuckets \<le> num_buckets lh"
    and "num_buckets lh > kMinNumBuckets \<longrightarrow> num_buckets lh \<le> num_items lh + 1" "num_items lh < 2 ^ 58"
  shows "load_ok (lh_maybe_resize lh)"
proof -
  let ?b = "num_buckets lh"
  have b: "?b \<le> 2 ^ 58" using assms(4-6) by (cases "?b > kMinNumBuckets") (auto simp: kMinNumBuckets_def)
  have re: "num_buckets (lh_rebucket lh n) = n \<and> num_items (lh_rebucket lh n) = num_items lh" if "n \<le> 2 ^ 59" for n
    using that assms(1) by (simp add: lh_rebucket_def Let_def length_fold_push)
  show ?thesis
  proof (cases "num_items lh div ?b > kMaxAverageChainLength")
    case True
    then have "3 \<le> num_items lh div ?b" by (simp add: kMaxAverageChainLength_def)
    then have "3 * ?b \<le> num_items lh"
      using assms(4) by (subst (asm) less_eq_div_iff_mult_less_eq) (auto simp: kMinNumBuckets_def)
    then have n: "num_items lh = 3 * ?b" using assms(3) by simp
    have "(?b * 2) mod size_mod = ?b * 2" using b by simp
    then have "lh_maybe_resize lh = lh_rebucket lh (?b * 2)"
      using True assms(2,4) by (auto simp: lh_maybe_resize_def Let_def kMinNumBuckets_def)
    then show ?thesis using re [of "?b * 2"] n b assms(4) by (auto simp: load_ok_def kMinNumBuckets_def)
  next
    case False
    then have "num_items lh div ?b < 3" by (simp add: kMaxAverageChainLength_def)
    then have n: "num_items lh < 3 * ?b"
      using assms(4) by (subst (asm) div_less_iff_less_mult) (auto simp: kMinNumBuckets_def)
    show ?thesis
    proof (cases "num_items lh < ?b \<and> ?b > kMinNumBuckets")
      case True
      define m where "m = (if ?b div 2 < kMinNumBuckets then kMinNumBuckets else ?b div 2)"
      have "lh_maybe_resize lh = lh_rebucket lh m"
        using True False assms(2) by (simp add: lh_maybe_resize_def Let_def m_def kMinAverageChainLength_def)
      moreover have "m \<le> 2 ^ 59" "num_items lh < 3 * m" "kMinNumBuckets \<le> m" "m > kMinNumBuckets \<longrightarrow> m \<le> num_items lh"
        using True assms(5) b by (auto simp: m_def kMinNumBuckets_def)
      ultimately show ?thesis using re [of m] by (simp add: load_ok_def)
    next
      case F: False
      have "num_items lh div ?b < kMinAverageChainLength \<longleftrightarrow> num_items lh < ?b"
        using assms(4) by (subst kMinAverageChainLength_def, subst div_less_iff_less_mult) (auto simp: kMinNumBuckets_def)
      then have "lh_maybe_resize lh = lh"
        using F False assms(2) by (auto simp: lh_maybe_resize_def Let_def)
      then show ?thesis using n assms(4) F by (auto simp: load_ok_def)
    qed
  qed
qed

lemma rebucket_frame:
  "lh_alloc (lh_rebucket lh m) = lh_alloc lh" "callback_depth (lh_rebucket lh m) = callback_depth lh"
  "num_items (lh_rebucket lh m) = num_items lh"
  by (simp_all add: lh_rebucket_def Let_def)

lemma maybe_resize_frame:
  "lh_alloc (lh_maybe_resize lh) = lh_alloc lh \<and> callback_depth (lh_maybe_resize lh) = callback_depth lh \<and>
   num_items (lh_maybe_resize lh) = num_items lh"
  by (auto simp: lh_maybe_resize_def Let_def rebucket_frame)

definition good_table :: "nat \<Rightarrow> 'a lhash \<Rightarrow> bool" where
  "good_table n lh \<longleftrightarrow> load_ok lh \<and> (\<forall>k. lh_alloc lh k) \<and> callback_depth lh = 0 \<and> num_items lh \<le> n"

lemma insert_load:
  assumes "good_table n lh" "n < 2 ^ 57" "lh_insert lh d = (ok, old, lh')"
  shows "good_table (n + 1) lh'"
proof -
  obtain h before after where g: "get_next_ptr_and_hash lh d = (h, before, after)"
    by (cases "get_next_ptr_and_hash lh d") auto
  show ?thesis
  proof (cases after)
    case Nil
    define lh1 where "lh1 = lh\<lparr>buckets := (buckets lh)[bucket_of lh h := before @ [\<lparr>it_data = d, it_hash = h\<rparr>]],
          num_items := num_items lh + 1\<rparr>"
    have "lh' = lh_maybe_resize lh1" using assms(1,3) g Nil by (simp add: lh_insert_def lh1_def good_table_def)
    moreover have "load_ok (lh_maybe_resize lh1)"
      using assms(1,2) by (intro resize_load) (auto simp: lh1_def good_table_def load_ok_def)
    ultimately show ?thesis
      using assms(1) maybe_resize_frame [of lh1] by (simp add: good_table_def lh1_def)
  next
    case (Cons it rest)
    then show ?thesis using assms(1,3) g by (auto simp: lh_insert_def good_table_def load_ok_def)
  qed
qed

lemma delete_load:
  assumes "good_table n lh" "n < 2 ^ 57" "lh_delete lh d = (old, lh')"
  shows "good_table n lh'"
proof -
  obtain h before after where g: "get_next_ptr_and_hash lh d = (h, before, after)"
    by (cases "get_next_ptr_and_hash lh d") auto
  show ?thesis
  proof (cases after)
    case Nil
    then show ?thesis using assms(1,3) g by (simp add: lh_delete_def)
  next
    case (Cons it rest)
    define lh1 where "lh1 = lh\<lparr>buckets := (buckets lh)[bucket_of lh h := before @ rest], num_items := num_items lh - 1\<rparr>"
    have "lh' = lh_maybe_resize lh1" using assms(3) g Cons by (simp add: lh_delete_def lh1_def)
    moreover have "load_ok (lh_maybe_resize lh1)"
      using assms(1,2) by (intro resize_load) (auto simp: lh1_def good_table_def load_ok_def)
    ultimately show ?thesis
      using assms(1) maybe_resize_frame [of lh1] by (auto simp: good_table_def lh1_def)
  qed
qed

lemma run_load:
  "good_table n lh \<Longrightarrow> n + length ops < 2 ^ 57 \<Longrightarrow> run_table lh_retrieve lh_insert lh_delete ops lh = (res, lh') \<Longrightarrow>
   good_table (n + length ops) lh'"
proof (induction ops arbitrary: n lh res)
  case (Cons x ops)
  show ?case
  proof (cases x)
    case (Insert d)
    obtain ok old lh1 where i: "lh_insert lh d = (ok, old, lh1)" by (cases "lh_insert lh d") auto
    then show ?thesis
      using insert_load [OF Cons.prems(1) _ i] Cons.IH [of "n + 1" lh1] Cons.prems Insert by (auto split: prod.splits)
  next
    case (Delete d)
    obtain old lh1 where i: "lh_delete lh d = (old, lh1)" by (cases "lh_delete lh d") auto
    have "good_table (n + 1) lh1"
      using delete_load [OF Cons.prems(1) _ i] Cons.prems(2) by (auto simp: good_table_def)
    then show ?thesis
      using Cons.IH [of "n + 1" lh1] Cons.prems Delete i by (auto split: prod.splits)
  next
    case (Retrieve d)
    have "good_table (n + 1) lh" using Cons.prems(1) by (auto simp: good_table_def)
    then show ?thesis
      using Cons.IH [of "n + 1" lh] Cons.prems Retrieve by (auto split: prod.splits)
  qed
qed simp



text \<open>A lookup by a key of another type, and the iteration over all items.\<close>

lemma retrieve_key_eq:
  assumes "lh_comp lh = cmp" "lh_hash lh d = h" "\<And>x. cmp_key key x = 0 \<longleftrightarrow> cmp x d = 0"
  shows "lh_retrieve_key lh key h cmp_key = lh_retrieve lh d"
  using assms by (simp add: lh_retrieve_key_def lh_retrieve_def get_next_ptr_by_key_def get_next_ptr_and_hash_def Let_def)

lemma doall_visits:
  "fst (lh_doall_arg lh (\<lambda>x. add_mset x) {#}) = image_mset it_data (items lh)"
proof -
  have "fold (\<lambda>it. add_mset (it_data it)) xs M = image_mset it_data (mset xs) + M" for xs :: "'b lhash_item list" and M
    by (induction xs arbitrary: M) auto
  from this [of "concat (buckets lh)" "{#}"] show ?thesis
    by (simp add: lh_doall_arg_def Let_def items_def del: mset_concat)
qed

end
