(* ===== verification/Const_Time.thy ===== *)
theory Const_Time
  imports Prelude
begin

text \<open>
  Model of the constant-time helpers of \<open>crypto/internal.h\<close>: comparisons that return a mask of
  all ones or zeros and the selection by a mask. \<open>crypto_word_t\<close> has 64 bits.
\<close>

definition constant_time_msb_w :: "u64 \<Rightarrow> u64" where
  "constant_time_msb_w a = 0 - drop_bit (8 * 8 - 1) a"

definition constant_time_lt_w :: "u64 \<Rightarrow> u64 \<Rightarrow> u64" where
  "constant_time_lt_w a b = constant_time_msb_w (a XOR ((a XOR b) OR ((a - b) XOR a)))"

definition constant_time_lt_8 :: "u64 \<Rightarrow> u64 \<Rightarrow> byte" where
  "constant_time_lt_8 a b = ucast (constant_time_lt_w a b)"

definition constant_time_ge_w :: "u64 \<Rightarrow> u64 \<Rightarrow> u64" where
  "constant_time_ge_w a b = NOT (constant_time_lt_w a b)"

definition constant_time_ge_8 :: "u64 \<Rightarrow> u64 \<Rightarrow> byte" where
  "constant_time_ge_8 a b = ucast (constant_time_ge_w a b)"

definition constant_time_is_zero_w :: "u64 \<Rightarrow> u64" where
  "constant_time_is_zero_w a = constant_time_msb_w (NOT a AND (a - 1))"

definition constant_time_is_zero_8 :: "u64 \<Rightarrow> byte" where
  "constant_time_is_zero_8 a = ucast (constant_time_is_zero_w a)"

definition constant_time_eq_w :: "u64 \<Rightarrow> u64 \<Rightarrow> u64" where
  "constant_time_eq_w a b = constant_time_is_zero_w (a XOR b)"

definition constant_time_eq_8 :: "u64 \<Rightarrow> u64 \<Rightarrow> byte" where
  "constant_time_eq_8 a b = ucast (constant_time_eq_w a b)"

text \<open>An \<open>int\<close> is converted to \<open>crypto_word_t\<close> with its sign.\<close>

definition constant_time_eq_int :: "u32 \<Rightarrow> u32 \<Rightarrow> u64" where
  "constant_time_eq_int a b = constant_time_eq_w (scast a) (scast b)"

definition constant_time_eq_int_8 :: "u32 \<Rightarrow> u32 \<Rightarrow> byte" where
  "constant_time_eq_int_8 a b = constant_time_eq_8 (scast a) (scast b)"

text \<open>\<open>value_barrier_w\<close> returns its argument.\<close>

definition constant_time_select_w :: "u64 \<Rightarrow> u64 \<Rightarrow> u64 \<Rightarrow> u64" where
  "constant_time_select_w m a b = (m AND a) OR (NOT m AND b)"

definition constant_time_select_8 :: "byte \<Rightarrow> byte \<Rightarrow> byte \<Rightarrow> byte" where
  "constant_time_select_8 m a b = ucast (constant_time_select_w (ucast m) (ucast a) (ucast b))"

definition constant_time_select_int :: "u64 \<Rightarrow> u32 \<Rightarrow> u32 \<Rightarrow> u32" where
  "constant_time_select_int m a b = ucast (constant_time_select_w m (scast a) (scast b))"

section \<open>Masks\<close>

lemma bit_63: "bit (a :: u64) 63 \<longleftrightarrow> 2 ^ 63 \<le> unat a"
proof -
  have "unat a < 2 ^ 64" using unsigned_less [of a, where 'a = nat] by simp
  then have "unat a div 2 ^ 63 = (if 2 ^ 63 \<le> unat a then 1 else 0)" by (auto simp: div_nat_eqI)
  moreover have "bit a 63 \<longleftrightarrow> odd (unat a div 2 ^ 63)"
    proof -
    have "bit (unat a) 63 \<longleftrightarrow> bit a 63" by (simp add: bit_simps)
    then show ?thesis by (simp only: bit_iff_odd [of "unat a" 63])
  qed
  ultimately show ?thesis by auto
qed

lemma msb_mask: "constant_time_msb_w a = (if bit a 63 then -1 else 0)"
proof -
  have "drop_bit 63 a = (if bit a 63 then 1 else 0)"
  proof (rule bit_word_eqI)
    fix n
    show "bit (drop_bit 63 a) n = bit (if bit a 63 then 1 else 0 :: u64) n"
      using bit_imp_le_length [of a "63 + n"] by (cases "n = 0") (auto simp: bit_simps bit_1_iff)
  qed
  then show ?thesis by (simp add: constant_time_msb_w_def)
qed

lemma lt_mask: "constant_time_lt_w a b = (if a < b then -1 else 0)"
proof -
  have d: "unat (a - b) = (if unat b \<le> unat a then unat a - unat b else unat a + 2 ^ 64 - unat b)"
    by (simp add: unat_sub_if')
  have l: "unat a < 2 ^ 64" "unat b < 2 ^ 64" using unsigned_less [of a, where 'a = nat] unsigned_less [of b, where 'a = nat] by simp_all
  have "bit (a XOR ((a XOR b) OR ((a - b) XOR a))) 63 \<longleftrightarrow> (if bit a 63 = bit b 63 then bit (a - b) 63 else bit b 63)"
    by (auto simp: bit_simps)
  also have "\<dots> \<longleftrightarrow> a < b"
    unfolding bit_63 d word_less_nat_alt using l by (auto; linarith)
  finally show ?thesis by (simp add: constant_time_lt_w_def msb_mask)
qed

lemma zero_mask: "constant_time_is_zero_w a = (if a = 0 then -1 else 0)"
proof (cases "a = 0")
  case False
  then have "unat (a - 1) = unat a - 1" "0 < unat a" by (simp_all add: unat_minus_one unat_gt_0)
  then have "\<not> bit (NOT a AND (a - 1)) 63" using bit_63 [of a] bit_63 [of "a - 1"] by (auto simp: bit_simps)
  with False show ?thesis by (simp add: constant_time_is_zero_w_def msb_mask)
qed (simp add: constant_time_is_zero_w_def msb_mask)

lemma xor_eq_0: "(a :: 'a::len word) XOR b = 0 \<longleftrightarrow> a = b"
  by (auto simp: bit_eq_iff bit_simps)

lemma eq_mask: "constant_time_eq_w a b = (if a = b then -1 else 0)"
  by (simp add: constant_time_eq_w_def zero_mask xor_eq_0)

lemma select_mask [simp]:
  "constant_time_select_w (-1) a b = a" "constant_time_select_w 0 a b = b"
  by (simp_all add: constant_time_select_w_def)

lemma select_8_mask [simp]:
  "constant_time_select_8 0xff a b = a" "constant_time_select_8 0 a b = b"
  by (auto intro!: bit_word_eqI simp: constant_time_select_8_def constant_time_select_w_def bit_simps dest: bit_imp_le_length)

lemma masks_8 [simp]: "ucast (-1 :: u64) = (0xff :: byte)"
  by (rule bit_word_eqI) (auto simp: bit_simps)

lemma ucast_scast: "ucast (scast (a :: u32) :: u64) = a"
  by (rule bit_word_eqI) (auto simp: bit_simps)

lemma scast_inj: "(scast (a :: u32) :: u64) = scast b \<longleftrightarrow> a = b"
  using ucast_scast by metis

text \<open>
  C34. The branch-free comparisons compute what they stand for, on all 64-bit words: the mask is all
  ones when the comparison holds and zero otherwise, and selection by such a mask is the
  conditional.
\<close>

theorem constant_time_masks:
  "constant_time_lt_w a b = (if a < b then -1 else 0) \<and> constant_time_lt_8 a b = (if a < b then 0xff else 0) \<and>
   constant_time_ge_w a b = (if a \<ge> b then -1 else 0) \<and> constant_time_ge_8 a b = (if a \<ge> b then 0xff else 0) \<and>
   constant_time_is_zero_w a = (if a = 0 then -1 else 0) \<and> constant_time_is_zero_8 a = (if a = 0 then 0xff else 0) \<and>
   constant_time_eq_w a b = (if a = b then -1 else 0) \<and> constant_time_eq_8 a b = (if a = b then 0xff else 0) \<and>
   constant_time_eq_int i j = (if i = j then -1 else 0) \<and> constant_time_eq_int_8 i j = (if i = j then 0xff else 0) \<and>
   constant_time_select_w (if p then -1 else 0) a b = (if p then a else b) \<and>
   constant_time_select_8 (if p then 0xff else 0) x y = (if p then x else y) \<and>
   constant_time_select_int (if p then -1 else 0) i j = (if p then i else j)"
  by (simp add: lt_mask zero_mask eq_mask scast_inj ucast_scast leD constant_time_lt_8_def constant_time_ge_w_def constant_time_ge_8_def
      constant_time_is_zero_8_def constant_time_eq_8_def constant_time_eq_int_def constant_time_eq_int_8_def
      constant_time_select_int_def) (auto simp: word_neq_0_conv)

end
