(* ===== verification/Base64.thy ===== *)
theory Base64
  imports Const_Time
begin

text \<open>
  Model of \<open>crypto/base64/base64.c\<close>: the block codec, the streaming encoder with its 48-byte lines
  and the streaming decoder. An operation that writes through a pointer returns the bytes it
  writes; the NUL it puts after them is not counted by any returned length and is left out.
  \<open>wrap\<close> is the text of a message and \<open>strip\<close> removes the white space the decoder skips.
\<close>

definition constant_time_lt_args_8 :: "byte \<Rightarrow> byte \<Rightarrow> byte" where
  "constant_time_lt_args_8 a b = ucast (constant_time_msb_w (ucast a - ucast b))"

definition constant_time_in_range_8 :: "byte \<Rightarrow> byte \<Rightarrow> byte \<Rightarrow> byte" where
  "constant_time_in_range_8 a mn mx = constant_time_lt_args_8 (a - mn) (mx - mn + 1)"

section \<open>Encoding\<close>

definition conv_bin2ascii :: "byte \<Rightarrow> byte" where
  "conv_bin2ascii a =
     (let a = a AND 0x3f;
          ret = constant_time_select_8 (constant_time_eq_8 (ucast a) 62) 0x2b 0x2f;
          ret = constant_time_select_8 (constant_time_lt_args_8 a 62) (a - 52 + 0x30) ret;
          ret = constant_time_select_8 (constant_time_lt_args_8 a 52) (a - 26 + 0x61) ret
      in constant_time_select_8 (constant_time_lt_args_8 a 26) (a + 0x41) ret)"

definition EVP_EncodedLength :: "nat \<Rightarrow> nat option" where
  "EVP_EncodedLength len =
     (if (len + 2) mod size_mod < len then None
      else let len = (len + 2) mod size_mod div 3;
               shifted = (len * 4) mod size_mod
           in if shifted div 4 \<noteq> len then None
              else if (shifted + 1) mod size_mod < shifted then None
              else Some ((shifted + 1) mod size_mod))"

text \<open>The bytes before the terminating NUL; the number of bytes returned is their number.\<close>

fun EVP_EncodeBlock :: "byte list \<Rightarrow> byte list" where
  "EVP_EncodeBlock [] = []"
| "EVP_EncodeBlock [a] =
     (let l = push_bit 16 (ucast a :: u32)
      in [conv_bin2ascii (ucast (drop_bit 18 l)), conv_bin2ascii (ucast (drop_bit 12 l)), 0x3d, 0x3d])"
| "EVP_EncodeBlock [a, b] =
     (let l = push_bit 16 (ucast a :: u32) OR push_bit 8 (ucast b)
      in [conv_bin2ascii (ucast (drop_bit 18 l)), conv_bin2ascii (ucast (drop_bit 12 l)),
          conv_bin2ascii (ucast (drop_bit 6 l)), 0x3d])"
| "EVP_EncodeBlock (a # b # c # src) =
     (let l = push_bit 16 (ucast a :: u32) OR push_bit 8 (ucast b) OR ucast c
      in conv_bin2ascii (ucast (drop_bit 18 l)) # conv_bin2ascii (ucast (drop_bit 12 l)) #
         conv_bin2ascii (ucast (drop_bit 6 l)) # conv_bin2ascii (ucast l) # EVP_EncodeBlock src)"

text \<open>\<open>EVP_ENCODE_CTX\<close>: the first \<open>data_used\<close> bytes of \<open>data\<close>, which are the only ones ever read.\<close>

record evp_encode_ctx =
  ctx_data :: "byte list"
  eof_seen :: bool
  error_encountered :: bool

definition EVP_EncodeInit :: evp_encode_ctx where
  "EVP_EncodeInit = \<lparr>ctx_data = [], eof_seen = False, error_encountered = False\<rparr>"

abbreviation INT_MAX :: nat where "INT_MAX \<equiv> 0x7fffffff"

text \<open>The loop over whole lines: the rest of the input, the bytes written and their number, or the
  bytes written before the number overflows.\<close>

function encode_lines :: "byte list \<Rightarrow> nat \<Rightarrow> byte list \<times> (byte list \<times> nat) option" where
  "encode_lines inp tot =
     (if length inp \<ge> 48 then
        (let line = EVP_EncodeBlock (take 48 inp) @ [0x0a];
             tot' = (tot + length line) mod size_mod
         in if tot' < tot then (line, None)
            else case encode_lines (drop 48 inp) tot' of (out, r) \<Rightarrow> (line @ out, r))
      else ([], Some (inp, tot)))"
  by pat_completeness auto
termination by (relation "measure (\<lambda>(inp, t). length inp)") auto

declare encode_lines.simps [simp del]

definition EVP_EncodeUpdate :: "evp_encode_ctx \<Rightarrow> byte list \<Rightarrow> evp_encode_ctx \<times> byte list \<times> nat" where
  "EVP_EncodeUpdate ctx inp =
     (if length inp = 0 then (ctx, [], 0)
      else if 48 - length (ctx_data ctx) > length inp then
        (ctx\<lparr>ctx_data := ctx_data ctx @ inp\<rparr>, [], 0)
      else
        (let used = length (ctx_data ctx);
             todo = (if used \<noteq> 0 then 48 - used else 0);
             first = (if used \<noteq> 0 then EVP_EncodeBlock (ctx_data ctx @ take todo inp) @ [0x0a] else [])
         in case encode_lines (drop todo inp) (length first) of
              (out, None) \<Rightarrow> (ctx\<lparr>ctx_data := []\<rparr>, first @ out, 0)
            | (out, Some (rest, tot)) \<Rightarrow>
                (ctx\<lparr>ctx_data := rest\<rparr>, first @ out, if tot > INT_MAX then 0 else tot)))"

definition EVP_EncodeFinal :: "evp_encode_ctx \<Rightarrow> evp_encode_ctx \<times> byte list \<times> nat" where
  "EVP_EncodeFinal ctx =
     (if length (ctx_data ctx) = 0 then (ctx, [], 0)
      else let out = EVP_EncodeBlock (ctx_data ctx) @ [0x0a]
           in (ctx\<lparr>ctx_data := []\<rparr>, out, length out))"

section \<open>Decoding\<close>

definition EVP_DecodedLength :: "nat \<Rightarrow> nat option" where
  "EVP_DecodedLength len = (if len mod 4 \<noteq> 0 then None else Some (len div 4 * 3))"

definition EVP_DecodeInit :: evp_encode_ctx where
  "EVP_DecodeInit = \<lparr>ctx_data = [], eof_seen = False, error_encountered = False\<rparr>"

definition base64_ascii_to_bin :: "byte \<Rightarrow> byte" where
  "base64_ascii_to_bin a =
     (let is_upper = constant_time_in_range_8 a 0x41 0x5a;
          is_lower = constant_time_in_range_8 a 0x61 0x7a;
          is_digit = constant_time_in_range_8 a 0x30 0x39;
          is_plus = constant_time_eq_8 (ucast a) 0x2b;
          is_slash = constant_time_eq_8 (ucast a) 0x2f;
          is_equals = constant_time_eq_8 (ucast a) 0x3d;
          ret = constant_time_select_8 is_upper (a - 0x41) 0xff;
          ret = constant_time_select_8 is_lower (a - 0x61 + 26) ret;
          ret = constant_time_select_8 is_digit (a - 0x30 + 52) ret;
          ret = constant_time_select_8 is_plus 62 ret;
          ret = constant_time_select_8 is_slash 63 ret
      in constant_time_select_8 is_equals 0 ret)"

definition base64_decode_quad :: "byte \<Rightarrow> byte \<Rightarrow> byte \<Rightarrow> byte \<Rightarrow> byte list option" where
  "base64_decode_quad in0 in1 in2 in3 =
     (let a = base64_ascii_to_bin in0; b = base64_ascii_to_bin in1;
          c = base64_ascii_to_bin in2; d = base64_ascii_to_bin in3
      in if a = 0xff \<or> b = 0xff \<or> c = 0xff \<or> d = 0xff then None
         else let v = push_bit 18 (ucast a :: u32) OR push_bit 12 (ucast b) OR push_bit 6 (ucast c) OR ucast d;
                  padding_pattern = (of_bool (in0 = 0x3d) * 8 + of_bool (in1 = 0x3d) * 4 +
                                     of_bool (in2 = 0x3d) * 2 + of_bool (in3 = 0x3d) :: nat)
              in if padding_pattern = 0 then
                   Some [ucast (drop_bit 16 v), ucast (drop_bit 8 v), ucast v]
                 else if padding_pattern = 1 then Some [ucast (drop_bit 16 v), ucast (drop_bit 8 v)]
                 else if padding_pattern = 3 then Some [ucast (drop_bit 16 v)]
                 else None)"

text \<open>The loop of \<open>EVP_DecodeUpdate\<close>; the flag is False when an error was encountered.\<close>

fun decode_loop :: "evp_encode_ctx \<Rightarrow> byte list \<Rightarrow> byte list \<Rightarrow> bool \<times> evp_encode_ctx \<times> byte list" where
  "decode_loop ctx [] out = (True, ctx, out)"
| "decode_loop ctx (c # inp) out =
     (if c \<in> {0x20, 0x09, 0x0d, 0x0a} then decode_loop ctx inp out
      else if eof_seen ctx then (False, ctx\<lparr>error_encountered := True\<rparr>, out)
      else (case ctx_data ctx @ [c] of
              [in0, in1, in2, in3] \<Rightarrow>
                (case base64_decode_quad in0 in1 in2 in3 of
                   None \<Rightarrow> (False, ctx\<lparr>ctx_data := [in0, in1, in2, in3], error_encountered := True\<rparr>, out)
                 | Some bs \<Rightarrow>
                     decode_loop (ctx\<lparr>ctx_data := [], eof_seen := length bs < 3 \<or> eof_seen ctx\<rparr>) inp (out @ bs))
            | data \<Rightarrow> decode_loop (ctx\<lparr>ctx_data := data\<rparr>) inp out))"

text \<open>The result, the context, the bytes written and \<open>*out_len\<close>.\<close>

definition EVP_DecodeUpdate :: "evp_encode_ctx \<Rightarrow> byte list \<Rightarrow> int \<times> evp_encode_ctx \<times> byte list \<times> nat" where
  "EVP_DecodeUpdate ctx inp =
     (if error_encountered ctx then (-1, ctx, [], 0)
      else case decode_loop ctx inp [] of
             (False, ctx', out) \<Rightarrow> (-1, ctx', out, 0)
           | (True, ctx', out) \<Rightarrow>
               (if length out > INT_MAX then (-1, ctx'\<lparr>error_encountered := True\<rparr>, out, 0)
                else if eof_seen ctx' then (0, ctx', out, length out)
                else (1, ctx', out, length out)))"

definition EVP_DecodeFinal :: "evp_encode_ctx \<Rightarrow> int" where
  "EVP_DecodeFinal ctx = (if error_encountered ctx \<or> length (ctx_data ctx) \<noteq> 0 then -1 else 1)"

fun decode_quads :: "byte list \<Rightarrow> byte list option" where
  "decode_quads (in0 # in1 # in2 # in3 # inp) =
     (case base64_decode_quad in0 in1 in2 in3 of
        None \<Rightarrow> None
      | Some bs \<Rightarrow>
          (if length bs \<noteq> 3 \<and> inp \<noteq> [] then None
           else case decode_quads inp of None \<Rightarrow> None | Some out \<Rightarrow> Some (bs @ out)))"
| "decode_quads _ = Some []"

definition EVP_DecodeBase64 :: "nat \<Rightarrow> byte list \<Rightarrow> byte list option" where
  "EVP_DecodeBase64 max_out inp =
     (if length inp mod 4 \<noteq> 0 then None
      else case EVP_DecodedLength (length inp) of
             None \<Rightarrow> None
           | Some max_len \<Rightarrow> (if max_out < max_len then None else decode_quads inp))"

fun pad_zero :: "byte list \<Rightarrow> byte list" where
  "pad_zero dst = (case length dst mod 3 of 0 \<Rightarrow> dst | Suc 0 \<Rightarrow> dst @ [0, 0] | _ \<Rightarrow> dst @ [0])"

text \<open>The bytes written, of which the returned length is the number, or nothing for -1.\<close>

definition EVP_DecodeBlock :: "byte list \<Rightarrow> byte list option" where
  "EVP_DecodeBlock src =
     (let src = dropWhile (\<lambda>c. c = 0x20 \<or> c = 0x09) src;
          src = rev (dropWhile (\<lambda>c. c \<in> {0x20, 0x09, 0x0d, 0x0a}) (rev src))
      in case EVP_DecodedLength (length src) of
           None \<Rightarrow> None
         | Some dst_len \<Rightarrow>
             (if dst_len > INT_MAX then None
              else case EVP_DecodeBase64 dst_len src of None \<Rightarrow> None | Some dst \<Rightarrow> Some (pad_zero dst)))"

section \<open>The alphabet\<close>

lemma lt_args: "constant_time_lt_args_8 a b = (if a < b then 0xff else 0)"
proof -
  have l: "unat a < 256" "unat b < 256" using unsigned_less [of a, where 'a = nat] unsigned_less [of b, where 'a = nat] by simp_all
  then have u: "unat (ucast a :: u64) = unat a" "unat (ucast b :: u64) = unat b"
    by (simp_all add: unsigned_ucast_eq take_bit_nat_eq_self)
  have "bit (ucast a - ucast b :: u64) 63 \<longleftrightarrow> a < b"
    unfolding bit_63 word_less_nat_alt using l by (auto simp: unat_sub_if' u)
  then show ?thesis by (simp add: constant_time_lt_args_8_def msb_mask)
qed

lemma eq_8: "constant_time_eq_8 (ucast (a :: byte)) (ucast b) = (if a = b then 0xff else 0)"
proof -
  have "(ucast a :: u64) = ucast b \<longleftrightarrow> a = b"
    using unsigned_less [of a, where 'a = nat] unsigned_less [of b, where 'a = nat]
    by (auto simp: word_unat_eq_iff unsigned_ucast_eq take_bit_nat_eq_self)
  then show ?thesis by (simp add: constant_time_eq_8_def eq_mask)
qed

lemma conv_bin2ascii_if:
  "conv_bin2ascii a = (let a = a AND 0x3f in
     if a < 26 then a + 0x41 else if a < 52 then a - 26 + 0x61 else if a < 62 then a - 52 + 0x30
     else if a = 62 then 0x2b else 0x2f)"
  using eq_8 [of "a AND 0x3f" 62] by (simp add: conv_bin2ascii_def lt_args Let_def)

lemma base64_ascii_to_bin_if:
  "base64_ascii_to_bin a =
    (if a = 0x3d then 0 else if a = 0x2f then 63 else if a = 0x2b then 62
     else if a - 0x30 < 10 then a - 0x30 + 52 else if a - 0x61 < 26 then a - 0x61 + 26
     else if a - 0x41 < 26 then a - 0x41 else 0xff)"
  using eq_8 [of a "0x3d"] eq_8 [of a "0x2f"] eq_8 [of a "0x2b"]
  by (simp add: base64_ascii_to_bin_def constant_time_in_range_8_def lt_args Let_def)

lemma ascii_bin: "list_all (\<lambda>n. base64_ascii_to_bin (conv_bin2ascii (of_nat n)) = of_nat n \<and>
   conv_bin2ascii (of_nat n) \<notin> {0x3d, 0x20, 0x09, 0x0d, 0x0a}) [0..<64]"
  by (simp add: upt_rec conv_bin2ascii_if base64_ascii_to_bin_if)


lemma and_3F_idem: "(a AND 0x3f) AND 0x3f = (a AND 0x3f :: byte)"
  by (simp add: and.assoc)

lemma alphabet: "base64_ascii_to_bin (conv_bin2ascii a) = a AND 0x3f"
  "conv_bin2ascii a \<notin> {0x3d, 0x20, 0x09, 0x0d, 0x0a}"
proof -
  have small: "unat (a AND 0x3f) < 64"
  proof -
    have "a AND 0x3f \<le> 0x3f" by (rule word_and_le1)
    then show ?thesis by (simp add: word_le_nat_alt)
  qed
  have n: "of_nat (unat (a AND 0x3f)) = a AND 0x3f" by simp
  have c: "conv_bin2ascii (a AND 0x3f) = conv_bin2ascii a" by (simp only: conv_bin2ascii_if and_3F_idem)
  have "base64_ascii_to_bin (conv_bin2ascii (of_nat (unat (a AND 0x3f)))) = of_nat (unat (a AND 0x3f)) \<and>
      conv_bin2ascii (of_nat (unat (a AND 0x3f))) \<notin> {0x3d, 0x20, 0x09, 0x0d, 0x0a}"
    using ascii_bin small unfolding list_all_iff by (metis atLeastLessThan_iff set_upt le0)
  from this [unfolded n c] show "base64_ascii_to_bin (conv_bin2ascii a) = a AND 0x3f"
    "conv_bin2ascii a \<notin> {0x3d, 0x20, 0x09, 0x0d, 0x0a}"
    by blast+
qed

lemma not_FF: "a AND 0x3f \<noteq> (0xff :: byte)"
  by (auto simp: byte_bits bit_simps bit_3F)

lemma pad_bin: "base64_ascii_to_bin 0x3d = 0"
  by (simp add: base64_ascii_to_bin_if)

lemma decode_quad:
  "base64_decode_quad (conv_bin2ascii w) (conv_bin2ascii x) (conv_bin2ascii y) (conv_bin2ascii z) =
    (let v = push_bit 18 (ucast (w AND 0x3f) :: u32) OR push_bit 12 (ucast (x AND 0x3f)) OR push_bit 6 (ucast (y AND 0x3f)) OR
       ucast (z AND 0x3f) in Some [ucast (drop_bit 16 v), ucast (drop_bit 8 v), ucast v])"
  "base64_decode_quad (conv_bin2ascii w) (conv_bin2ascii x) (conv_bin2ascii y) 0x3d =
    (let v = push_bit 18 (ucast (w AND 0x3f) :: u32) OR push_bit 12 (ucast (x AND 0x3f)) OR push_bit 6 (ucast (y AND 0x3f))
     in Some [ucast (drop_bit 16 v), ucast (drop_bit 8 v)])"
  "base64_decode_quad (conv_bin2ascii w) (conv_bin2ascii x) 0x3d 0x3d =
    (let v = push_bit 18 (ucast (w AND 0x3f) :: u32) OR push_bit 12 (ucast (x AND 0x3f)) in Some [ucast (drop_bit 16 v)])"
  using alphabet(2) [of w] alphabet(2) [of x] alphabet(2) [of y] alphabet(2) [of z]
  by (simp_all add: base64_decode_quad_def alphabet(1) pad_bin Let_def not_FF)

lemma byte_high: "8 \<le> n \<Longrightarrow> \<not> bit (b :: byte) n"
  using bit_imp_le_length [of b n] by auto

lemma quad_bytes:
  "(let l = push_bit 16 (ucast a :: u32) OR push_bit 8 (ucast b) OR ucast c
    in base64_decode_quad (conv_bin2ascii (ucast (drop_bit 18 l))) (conv_bin2ascii (ucast (drop_bit 12 l)))
      (conv_bin2ascii (ucast (drop_bit 6 l))) (conv_bin2ascii (ucast l))) = Some [a, b, c]"
  "(let l = push_bit 16 (ucast a :: u32) OR push_bit 8 (ucast b)
    in base64_decode_quad (conv_bin2ascii (ucast (drop_bit 18 l))) (conv_bin2ascii (ucast (drop_bit 12 l)))
      (conv_bin2ascii (ucast (drop_bit 6 l))) 0x3d) = Some [a, b]"
  "(let l = push_bit 16 (ucast a :: u32)
    in base64_decode_quad (conv_bin2ascii (ucast (drop_bit 18 l))) (conv_bin2ascii (ucast (drop_bit 12 l))) 0x3d 0x3d) = Some [a]"
  for a b c :: byte
  by (simp_all add: decode_quad Let_def) (simp_all add: byte_bits bit_simps bit_3F byte_high)


section \<open>Blocks\<close>

lemma length_encode_block: "length (EVP_EncodeBlock src) = 4 * ((length src + 2) div 3)"
proof (induction src rule: EVP_EncodeBlock.induct)
  case (4 a b c src)
  have "(length (a # b # c # src) + 2) div 3 = Suc ((length src + 2) div 3)"
    using div_add_self2 [of 3 "length src + 2"] by (simp add: add.commute)
  then show ?case using 4 by (simp add: Let_def del: length_Cons)
qed (simp_all add: Let_def)

lemma decode_quads_block: "decode_quads (EVP_EncodeBlock src) = Some src"
proof (induction src rule: EVP_EncodeBlock.induct)
  case (4 a b c src)
  then show ?case using quad_bytes(1) [of a b c] by (simp add: Let_def)
qed (use quad_bytes in \<open>simp_all add: Let_def\<close>)

text \<open>
  Decoding a block encoding returns the data, for every data; \<open>EVP_EncodedLength\<close> is exactly the
  number of bytes that \<open>EVP_EncodeBlock\<close> writes with its NUL, and the buffer that
  \<open>EVP_DecodedLength\<close> asks for is what \<open>EVP_DecodeBase64\<close> needs.
\<close>

theorem base64_block_roundtrip:
  assumes "length src < 2 ^ 62"
  shows "EVP_DecodeBase64 (3 * ((length src + 2) div 3)) (EVP_EncodeBlock src) = Some src \<and>
    EVP_EncodedLength (length src) = Some (length (EVP_EncodeBlock src) + 1) \<and>
    EVP_DecodedLength (length (EVP_EncodeBlock src)) = Some (3 * ((length src + 2) div 3))"
proof -
  have len: "length (EVP_EncodeBlock src) = 4 * ((length src + 2) div 3)" by (rule length_encode_block)
  define k where "k = (length src + 2) div 3"
  have k: "k \<le> 2 ^ 61" using assms by (simp add: k_def)
  have "(length src + 2) mod size_mod = length src + 2" using assms by simp
  then have "EVP_EncodedLength (length src) = Some (4 * k + 1)"
  proof -
    have "(k * 4) mod size_mod = k * 4" "(k * 4 + 1) mod size_mod = k * 4 + 1" using k by simp_all
    with \<open>(length src + 2) mod size_mod = length src + 2\<close> show ?thesis
      unfolding EVP_EncodedLength_def Let_def by (simp only: k_def [symmetric]) (simp add: mult.commute)
  qed
  then show ?thesis
    using len decode_quads_block [of src]
    by (simp add: EVP_DecodeBase64_def EVP_DecodedLength_def k_def)
qed

section \<open>Encoding a stream\<close>

text \<open>The text of a message: lines of 48 bytes, each followed by a newline.\<close>

function wrap :: "byte list \<Rightarrow> byte list" where
  "wrap inp = (if length inp > 48 then EVP_EncodeBlock (take 48 inp) @ [0x0a] @ wrap (drop 48 inp)
     else if inp = [] then [] else EVP_EncodeBlock inp @ [0x0a])"
  by pat_completeness auto
termination by (relation "measure length") auto

declare wrap.simps [simp del]

fun encode_updates :: "evp_encode_ctx \<Rightarrow> byte list list \<Rightarrow> evp_encode_ctx \<times> byte list \<times> nat" where
  "encode_updates ctx [] = (ctx, [], 0)"
| "encode_updates ctx (c # cs) =
     (case EVP_EncodeUpdate ctx c of (ctx', out, n) \<Rightarrow>
        case encode_updates ctx' cs of (ctx'', out', n') \<Rightarrow> (ctx'', out @ out', n + n'))"

definition encode_stream :: "byte list list \<Rightarrow> byte list \<times> nat" where
  "encode_stream cs =
     (case encode_updates EVP_EncodeInit cs of (ctx, out, n) \<Rightarrow>
        case EVP_EncodeFinal ctx of (ctx', out', n') \<Rightarrow> (out @ out', n + n'))"

text \<open>Whole lines and the rest.\<close>

function lines :: "byte list \<Rightarrow> byte list" where
  "lines inp = (if length inp \<ge> 48 then EVP_EncodeBlock (take 48 inp) @ [0x0a] @ lines (drop 48 inp) else [])"
  by pat_completeness auto
termination by (relation "measure length") auto

declare lines.simps [simp del]

definition rest :: "byte list \<Rightarrow> byte list" where
  "rest inp = drop (length inp div 48 * 48) inp"

lemma encode_lines_eq:
  "tot + 2 * length inp < size_mod \<Longrightarrow> encode_lines inp tot = (lines inp, Some (rest inp, tot + length (lines inp)))"
proof (induction inp tot rule: encode_lines.induct)
  case (1 inp tot)
  show ?case
  proof (cases "length inp \<ge> 48")
    case True
    define line where "line = EVP_EncodeBlock (take 48 inp) @ [0x0a]"
    have l: "length line = 65" using True by (simp add: line_def length_encode_block)
    have m: "(tot + length line) mod size_mod = tot + 65" using "1.prems" True l by simp
    have "length inp div 48 = Suc (length (drop 48 inp) div 48)" using True by (simp add: le_div_geq)
    then have r: "rest (drop 48 inp) = rest inp" by (simp add: rest_def add.commute)
    have lines: "lines inp = line @ lines (drop 48 inp)"
      using True by (subst lines.simps) (simp add: line_def)
    have "encode_lines (drop 48 inp) (tot + 65) = (lines (drop 48 inp), Some (rest inp, tot + 65 + length (lines (drop 48 inp))))"
      using "1.IH" [OF True refl refl] "1.prems" True m r by (simp add: line_def)
    then show ?thesis
      using True m lines by (subst encode_lines.simps) (simp add: Let_def l flip: line_def)
  qed (simp add: encode_lines.simps lines.simps rest_def)
qed


lemma lines_step: "length inp \<ge> 48 \<Longrightarrow> lines inp = EVP_EncodeBlock (take 48 inp) @ [0x0a] @ lines (drop 48 inp)"
  by (subst lines.simps) simp

lemma lines_short: "length inp < 48 \<Longrightarrow> lines inp = []"
  by (subst lines.simps) simp

lemma rest_step: "length inp \<ge> 48 \<Longrightarrow> rest inp = rest (drop 48 inp)"
  by (simp add: rest_def le_div_geq add.commute)

lemma rest_short: "length inp < 48 \<Longrightarrow> rest inp = inp"
  by (simp add: rest_def)

lemma lines_append: "lines (x @ y) = lines x @ lines (rest x @ y) \<and> rest (x @ y) = rest (rest x @ y)"
proof (induction x rule: lines.induct)
  case (1 x)
  show ?case
  proof (cases "length x \<ge> 48")
    case True
    then show ?thesis
      using 1 lines_step [of "x @ y"] lines_step [of x] rest_step [of "x @ y"] rest_step [of x] by simp
  qed (simp add: lines_short rest_short)
qed

lemma length_rest: "length (rest x) < 48"
  by (simp add: rest_def minus_div_mult_eq_mod)

lemma length_lines: "length (lines x) \<le> 2 * length x"
proof (induction x rule: lines.induct)
  case (1 x)
  show ?case
  proof (cases "length x \<ge> 48")
    case True
    then show ?thesis using 1 lines_step [of x] by (simp add: length_encode_block)
  qed (simp add: lines_short)
qed

lemma wrap_lines: "wrap x = lines x @ (if rest x = [] then [] else EVP_EncodeBlock (rest x) @ [0x0a])"
proof (induction x rule: wrap.induct)
  case (1 x)
  consider "length x > 48" | "length x = 48" | "length x < 48" by linarith
  then show ?case
  proof cases
    case 1
    then show ?thesis using "1.IH" by (subst wrap.simps) (simp add: lines_step rest_step)
  next
    case 2
    then show ?thesis by (subst wrap.simps) (auto simp: lines_step lines_short rest_step rest_short)
  next
    case 3
    then show ?thesis by (subst wrap.simps) (simp add: lines_short rest_short)
  qed
qed

lemma encode_update_eq:
  assumes "length (ctx_data ctx) < 48" "length (ctx_data ctx) + length inp < 2 ^ 30"
  shows "EVP_EncodeUpdate ctx inp = (ctx\<lparr>ctx_data := rest (ctx_data ctx @ inp)\<rparr>, lines (ctx_data ctx @ inp),
    length (lines (ctx_data ctx @ inp)))"
proof -
  define p where "p = ctx_data ctx"
  have p: "length p < 48" "length p + length inp < 2 ^ 30" using assms by (simp_all add: p_def)
  show ?thesis
  proof (cases "length (p @ inp) < 48")
    case True
    then show ?thesis using p by (auto simp: EVP_EncodeUpdate_def lines_short rest_short simp flip: p_def)
  next
    case False
    define todo where "todo = (if p \<noteq> [] then 48 - length p else 0)"
    define first where "first = (if p \<noteq> [] then EVP_EncodeBlock (p @ take todo inp) @ [0x0a] else [])"
    have split: "lines (p @ inp) = first @ lines (drop todo inp)" "rest (p @ inp) = rest (drop todo inp)"
      using False p(1) by (auto simp: todo_def first_def lines_step rest_step)
    have small: "length (lines (p @ inp)) \<le> INT_MAX" using length_lines [of "p @ inp"] p(2) by simp
    have "length first \<le> 65" using p(1) False by (simp add: first_def todo_def length_encode_block)
    then have "length first + 2 * length (drop todo inp) < size_mod" using p by simp
    from encode_lines_eq [OF this] split small False p(1) show ?thesis
      by (auto simp: EVP_EncodeUpdate_def todo_def first_def Let_def simp flip: p_def)
  qed
qed

lemma encode_updates_eq:
  "length (ctx_data ctx) < 48 \<Longrightarrow> length (ctx_data ctx) + length (concat cs) < 2 ^ 30 \<Longrightarrow>
   encode_updates ctx cs = (ctx\<lparr>ctx_data := rest (ctx_data ctx @ concat cs)\<rparr>, lines (ctx_data ctx @ concat cs),
     length (lines (ctx_data ctx @ concat cs)))"
proof (induction cs arbitrary: ctx)
  case Nil
  then show ?case by (simp add: lines_short rest_short)
next
  case (Cons c cs)
  define p where "p = ctx_data ctx"
  have u: "EVP_EncodeUpdate ctx c = (ctx\<lparr>ctx_data := rest (p @ c)\<rparr>, lines (p @ c), length (lines (p @ c)))"
    using encode_update_eq [of ctx c] Cons.prems by (simp add: p_def)
  have "length (rest (p @ c)) \<le> length (p @ c)" by (simp add: rest_def)
  then have "length (rest (p @ c)) + length (concat cs) < 2 ^ 30" using Cons.prems by (simp add: p_def)
  then show ?case
    using Cons.IH [of "ctx\<lparr>ctx_data := rest (p @ c)\<rparr>"] length_rest [of "p @ c"] lines_append [of "p @ c" "concat cs"]
    by (simp add: u flip: p_def)
qed

text \<open>
  C28. The streaming encoder does not depend on how the data is cut into updates: the bytes written
  are the lines of the whole message and the lengths returned add up to their number.
\<close>

theorem base64_encode_stream:
  assumes "length (concat cs) < 2 ^ 30"
  shows "encode_stream cs = (wrap (concat cs), length (wrap (concat cs)))"
  using encode_updates_eq [of EVP_EncodeInit cs] assms
  by (simp add: encode_stream_def EVP_EncodeInit_def EVP_EncodeFinal_def wrap_lines Let_def)

section \<open>Decoding a stream\<close>

definition strip :: "byte list \<Rightarrow> byte list" where
  "strip = filter (\<lambda>c. c \<notin> {0x20, 0x09, 0x0d, 0x0a})"

fun decode_updates :: "evp_encode_ctx \<Rightarrow> byte list list \<Rightarrow> (evp_encode_ctx \<times> byte list \<times> nat) option" where
  "decode_updates ctx [] = Some (ctx, [], 0)"
| "decode_updates ctx (c # cs) =
     (case EVP_DecodeUpdate ctx c of (r, ctx', out, n) \<Rightarrow>
        if r < 0 then None
        else case decode_updates ctx' cs of
               None \<Rightarrow> None | Some (ctx'', out', n') \<Rightarrow> Some (ctx'', out @ out', n + n'))"

definition decode_stream :: "byte list list \<Rightarrow> (byte list \<times> nat) option" where
  "decode_stream cs =
     (case decode_updates EVP_DecodeInit cs of
        None \<Rightarrow> None
      | Some (ctx, out, n) \<Rightarrow> (if EVP_DecodeFinal ctx = 1 then Some (out, n) else None))"

lemma decode_loop_strip: "decode_loop ctx inp out = decode_loop ctx (strip inp) out"
  by (induction ctx inp out rule: decode_loop.induct)
    (auto simp: strip_def split: list.split option.split)


lemma decode_loop_append:
  "decode_loop ctx (a @ b) out = (case decode_loop ctx a out of (False, r) \<Rightarrow> (False, r) | (True, c, o') \<Rightarrow> decode_loop c b o')"
  by (induction ctx a out rule: decode_loop.induct) (auto split: list.split option.split)

lemma decode_loop_out:
  "decode_loop ctx inp (o1 @ o2) = (case decode_loop ctx inp o2 of (ok, c, out) \<Rightarrow> (ok, c, o1 @ out))"
  by (induction ctx inp o2 arbitrary: o1 rule: decode_loop.induct) (auto split: list.split option.split)

lemma decode_loop_error:
  "decode_loop ctx inp out = (True, c, out') \<Longrightarrow> error_encountered c = error_encountered ctx"
  by (induction ctx inp out rule: decode_loop.induct)
    (auto split: list.splits option.splits if_splits)

lemma decode_updates_eq:
  "\<not> error_encountered ctx \<Longrightarrow> decode_loop ctx (concat cs) [] = (True, c', out) \<Longrightarrow> length out \<le> INT_MAX \<Longrightarrow>
   decode_updates ctx cs = Some (c', out, length out)"
proof (induction cs arbitrary: ctx out)
  case (Cons c cs)
  obtain c1 o1 where 1: "decode_loop ctx c [] = (True, c1, o1)" "decode_loop c1 (concat cs) o1 = (True, c', out)"
    using Cons.prems(2) by (auto simp: decode_loop_append split: prod.splits bool.splits)
  obtain o2 where 2: "decode_loop c1 (concat cs) [] = (True, c', o2)" "out = o1 @ o2"
    using 1(2) decode_loop_out [of c1 "concat cs" o1 "[]"] by (auto split: prod.splits)
  have e: "\<not> error_encountered c1" using decode_loop_error [OF 1(1)] Cons.prems(1) by simp
  have "decode_updates c1 cs = Some (c', o2, length o2)"
    using Cons.IH [OF e 2(1)] Cons.prems(3) 2(2) by simp
  then show ?case
    using Cons.prems(1,3) 1(1) 2(2) by (auto simp: EVP_DecodeUpdate_def)
qed simp

lemma alphabet_ws: "conv_bin2ascii a \<notin> {0x20, 0x09, 0x0d, 0x0a}" "conv_bin2ascii a \<noteq> 0x3d"
  using alphabet(2) [of a] by auto

lemma decode_loop_block:
  "decode_loop \<lparr>ctx_data = [], eof_seen = False, error_encountered = False\<rparr> (EVP_EncodeBlock src) out =
   (True, \<lparr>ctx_data = [], eof_seen = length src mod 3 \<noteq> 0, error_encountered = False\<rparr>, out @ src)"
proof (induction src arbitrary: out rule: EVP_EncodeBlock.induct)
  case (4 a b c src)
  have "length (a # b # c # src) mod 3 = length src mod 3"
    using mod_add_self2 [of "length src" 3] by (simp add: add.commute)
  then show ?case using 4 quad_bytes(1) [of a b c] alphabet_ws by (simp add: Let_def del: length_Cons)
qed (use quad_bytes alphabet_ws in \<open>simp_all add: Let_def\<close>)

lemma encode_block_append:
  "length x mod 3 = 0 \<Longrightarrow> EVP_EncodeBlock (x @ y) = EVP_EncodeBlock x @ EVP_EncodeBlock y"
proof (induction x rule: EVP_EncodeBlock.induct)
  case (4 a b c src)
  have "length (a # b # c # src) mod 3 = length src mod 3"
    using mod_add_self2 [of "length src" 3] by (simp add: add.commute)
  then show ?case using 4 by (simp add: Let_def)
qed simp_all

lemma strip_block: "strip (EVP_EncodeBlock src) = EVP_EncodeBlock src"
  by (induction src rule: EVP_EncodeBlock.induct) (use alphabet_ws in \<open>simp_all add: strip_def Let_def\<close>)

lemma strip_append: "strip (x @ y) = strip x @ strip y" "strip (0x0a # x) = strip x" "strip [] = []"
  by (simp_all add: strip_def)

lemma strip_wrap: "strip (wrap x) = EVP_EncodeBlock x"
proof (induction x rule: wrap.induct)
  case (1 x)
  show ?case
  proof (cases "length x > 48")
    case True
    then have "EVP_EncodeBlock x = EVP_EncodeBlock (take 48 x) @ EVP_EncodeBlock (drop 48 x)"
      using encode_block_append [of "take 48 x" "drop 48 x"] by simp
    then show ?thesis
      using True 1 by (subst wrap.simps) (simp add: strip_append strip_block)
  next
    case False
    then show ?thesis
      by (subst wrap.simps) (auto simp: strip_append strip_block)
  qed
qed

text \<open>
  C9. The streaming decoder recovers the data from the text of the streaming encoder, however the
  data was cut for encoding and the text for decoding and wherever white space was inserted or
  removed; no call fails and the lengths add up.
\<close>

theorem base64_stream_roundtrip:
  assumes "length (concat cs) < 2 ^ 30" "strip (concat ds) = strip (fst (encode_stream cs))"
  shows "decode_stream ds = Some (concat cs, length (concat cs))"
proof -
  have "fst (encode_stream cs) = wrap (concat cs)"
    using encode_updates_eq [of EVP_EncodeInit cs] assms(1)
    by (simp add: encode_stream_def EVP_EncodeInit_def EVP_EncodeFinal_def wrap_lines Let_def)
  then have "strip (concat ds) = EVP_EncodeBlock (concat cs)" using assms(2) by (simp add: strip_wrap)
  then have "decode_loop EVP_DecodeInit (concat ds) [] = (True,
      \<lparr>ctx_data = [], eof_seen = length (concat cs) mod 3 \<noteq> 0, error_encountered = False\<rparr>, concat cs)"
    using decode_loop_strip [of EVP_DecodeInit "concat ds" "[]"] decode_loop_block [of "concat cs" "[]"]
    by (simp add: EVP_DecodeInit_def)
  then show ?thesis
    using decode_updates_eq [of EVP_DecodeInit ds] assms(1)
    by (simp add: decode_stream_def EVP_DecodeFinal_def EVP_DecodeInit_def)
qed

theorem base64_block_roundtrip_witness:
  "EVP_DecodeBase64 6 (EVP_EncodeBlock [0x66, 0x6f, 0x6f, 0x62]) = Some [0x66, 0x6f, 0x6f, 0x62]"
  using base64_block_roundtrip [of "[0x66, 0x6f, 0x6f, 0x62]"] by simp

theorem base64_encode_stream_witness:
  "encode_stream [[0x66], [], replicate 50 0] = (wrap (0x66 # replicate 50 0), length (wrap (0x66 # replicate 50 0)))"
  using base64_encode_stream [of "[[0x66], [], replicate 50 0]"] by simp

theorem base64_stream_roundtrip_witness:
  "decode_stream [[0x20], fst (encode_stream [[1, 2], [3, 4]]), [0x0d]] = Some ([1, 2, 3, 4], 4)"
  using base64_stream_roundtrip [of "[[1, 2], [3, 4]]" "[[0x20], fst (encode_stream [[1, 2], [3, 4]]), [0x0d]]"]
  by (simp add: strip_def)

end
