(* ===== verification/Mem.thy ===== *)
theory Mem
  imports Prelude
begin

text \<open>
  Model of the string functions and the allocator of \<open>crypto/mem.c\<close> and of the growing buffers of
  \<open>crypto/buf/buf.c\<close>. A string is the list of its bytes without the terminating zero; a block is the
  list of its bytes. Memory is the predicate \<open>alloc\<close>, true of the sizes for which an allocation
  succeeds, and sizes are natural numbers with the wrap-around of \<open>size_t\<close> written out.
\<close>

section \<open>Strings\<close>

text \<open>The string in a block: its bytes up to the first zero, all of them if there is none.\<close>

fun OPENSSL_strnlen :: "byte list \<Rightarrow> nat \<Rightarrow> nat" where
  "OPENSSL_strnlen s 0 = 0"
| "OPENSSL_strnlen s (Suc n) = (case s of [] \<Rightarrow> 0 | b # bs \<Rightarrow> if b = 0 then 0 else OPENSSL_strnlen bs n + 1)"

definition OPENSSL_strdup :: "byte list option \<Rightarrow> (nat \<Rightarrow> bool) \<Rightarrow> byte list option" where
  "OPENSSL_strdup s alloc =
     (case s of None \<Rightarrow> None
      | Some s \<Rightarrow> (let len = length s + 1 in if \<not> alloc len then None else Some (s @ [0])))"

definition OPENSSL_strndup :: "byte list option \<Rightarrow> nat \<Rightarrow> (nat \<Rightarrow> bool) \<Rightarrow> byte list option" where
  "OPENSSL_strndup str sz alloc =
     (case str of None \<Rightarrow> None
      | Some s \<Rightarrow>
          (let sz = OPENSSL_strnlen s sz; alloc_size = (sz + 1) mod size_mod
           in if alloc_size < sz then None
              else if \<not> alloc alloc_size then None
              else Some (take sz s @ [0])))"

definition OPENSSL_memdup :: "byte list \<Rightarrow> nat \<Rightarrow> (nat \<Rightarrow> bool) \<Rightarrow> byte list option" where
  "OPENSSL_memdup data sz alloc =
     (if sz = 0 then None else if \<not> alloc sz then None else Some (take sz data))"

text \<open>\<open>dst\<close> is the block, \<open>i\<close> the position written next, \<open>src\<close> the rest of the source.\<close>

fun strlcpy_loop :: "byte list \<Rightarrow> nat \<Rightarrow> byte list \<Rightarrow> nat \<Rightarrow> nat \<Rightarrow> byte list \<times> nat \<times> byte list \<times> nat \<times> nat" where
  "strlcpy_loop dst i [] dst_size l = (dst, i, [], dst_size, l)"
| "strlcpy_loop dst i (c # src) dst_size l =
     (if dst_size > 1 then strlcpy_loop (dst[i := c]) (i + 1) src (dst_size - 1) (l + 1)
      else (dst, i, c # src, dst_size, l))"

definition OPENSSL_strlcpy :: "byte list \<Rightarrow> nat \<Rightarrow> byte list \<Rightarrow> nat \<Rightarrow> nat \<times> byte list" where
  "OPENSSL_strlcpy dst i src dst_size =
     (case strlcpy_loop dst i src dst_size 0 of (dst, i, src, dst_size, l) \<Rightarrow>
        (l + length src, if dst_size \<noteq> 0 then dst[i := 0] else dst))"

function strlcat_loop :: "byte list \<Rightarrow> nat \<Rightarrow> nat \<Rightarrow> nat" where
  "strlcat_loop dst i dst_size =
     (if dst_size > 0 \<and> dst ! i \<noteq> 0 then strlcat_loop dst (i + 1) (dst_size - 1) else i)"
  by pat_completeness auto
termination by (relation "measure (\<lambda>(dst, i, n). n)") auto

declare strlcat_loop.simps [simp del]

definition OPENSSL_strlcat :: "byte list \<Rightarrow> byte list \<Rightarrow> nat \<Rightarrow> nat \<times> byte list" where
  "OPENSSL_strlcat dst src dst_size =
     (let l = strlcat_loop dst 0 dst_size;
          (n, dst) = OPENSSL_strlcpy dst l src (dst_size - l)
      in (l + n, dst))"

definition OPENSSL_tolower :: "int \<Rightarrow> int" where
  "OPENSSL_tolower c = (if c \<ge> 0x41 \<and> c \<le> 0x5a then c + (0x61 - 0x41) else c)"

text \<open>A string ends with a zero that is not in its list; \<open>char\<close> is signed.\<close>

definition char_at :: "byte list \<Rightarrow> int" where
  "char_at s = (case s of [] \<Rightarrow> 0 | b # bs \<Rightarrow> sint b)"

function OPENSSL_strcasecmp :: "byte list \<Rightarrow> byte list \<Rightarrow> int" where
  "OPENSSL_strcasecmp a b =
     (let aa = OPENSSL_tolower (char_at a); bb = OPENSSL_tolower (char_at b)
      in if aa < bb then -1 else if aa > bb then 1 else if aa = 0 then 0
         else OPENSSL_strcasecmp (tl a) (tl b))"
  by pat_completeness auto
termination
proof (relation "measure (\<lambda>(a, b). length a)", simp)
  fix a b :: "byte list" and aa bb
  assume "aa = OPENSSL_tolower (char_at a)" "\<not> aa = 0"
  then have "a \<noteq> []" by (auto simp: OPENSSL_tolower_def char_at_def)
  then show "((tl a, tl b), a, b) \<in> measure (\<lambda>(a, b). length a)" by simp
qed

declare OPENSSL_strcasecmp.simps [simp del]

fun OPENSSL_strncasecmp :: "byte list \<Rightarrow> byte list \<Rightarrow> nat \<Rightarrow> int" where
  "OPENSSL_strncasecmp a b 0 = 0"
| "OPENSSL_strncasecmp a b (Suc n) =
     (let aa = OPENSSL_tolower (char_at a); bb = OPENSSL_tolower (char_at b)
      in if aa < bb then -1 else if aa > bb then 1 else if aa = 0 then 0
         else OPENSSL_strncasecmp (tl a) (tl b) n)"

section \<open>The allocator\<close>

text \<open>A block with the size that its prefix records; \<open>malloc\<close> takes the size of the whole block.\<close>

definition OPENSSL_MALLOC_PREFIX :: nat where "OPENSSL_MALLOC_PREFIX = 8"

record mem_block =
  mb_size :: nat
  mb_room :: nat

definition OPENSSL_malloc :: "nat \<Rightarrow> (nat \<Rightarrow> bool) \<Rightarrow> mem_block option" where
  "OPENSSL_malloc sz malloc =
     (let whole = (sz + OPENSSL_MALLOC_PREFIX) mod size_mod
      in if \<not> malloc whole then None else Some \<lparr>mb_size = sz, mb_room = whole - OPENSSL_MALLOC_PREFIX\<rparr>)"

section \<open>Growing buffers\<close>

record buf_mem =
  bm_length :: nat
  bm_data :: "byte list option"
  bm_max :: nat

definition BUF_MEM_new :: "(nat \<Rightarrow> bool) \<Rightarrow> buf_mem option" where
  "BUF_MEM_new alloc = (if \<not> alloc 24 then None else Some \<lparr>bm_length = 0, bm_data = None, bm_max = 0\<rparr>)"

text \<open>The bytes of the new block behind those of the old one have no specified value.\<close>

definition realloc_bytes :: "byte list option \<Rightarrow> nat \<Rightarrow> byte list" where
  "realloc_bytes old n =
     (let bs = (case old of None \<Rightarrow> [] | Some bs \<Rightarrow> bs) in take n bs @ replicate (n - length bs) 0)"

definition BUF_MEM_reserve :: "buf_mem \<Rightarrow> nat \<Rightarrow> (nat \<Rightarrow> bool) \<Rightarrow> bool \<times> buf_mem" where
  "BUF_MEM_reserve buf cap alloc =
     (if bm_max buf \<ge> cap then (True, buf)
      else let n = (cap + 3) mod size_mod
           in if n < cap then (False, buf)
              else let n = n div 3; alloc_size = (n * 4) mod size_mod
                   in if alloc_size div 4 \<noteq> n then (False, buf)
                      else if \<not> alloc alloc_size then (False, buf)
                      else (True, buf\<lparr>bm_data := Some (realloc_bytes (bm_data buf) alloc_size), bm_max := alloc_size\<rparr>))"

text \<open>\<open>memset\<close> and \<open>memcpy\<close> at a position of a block.\<close>

definition put_bytes :: "byte list \<Rightarrow> nat \<Rightarrow> byte list \<Rightarrow> byte list" where
  "put_bytes blk i bs = take i blk @ bs @ drop (i + length bs) blk"

definition BUF_MEM_grow :: "buf_mem \<Rightarrow> nat \<Rightarrow> (nat \<Rightarrow> bool) \<Rightarrow> nat \<times> buf_mem" where
  "BUF_MEM_grow buf len alloc =
     (case BUF_MEM_reserve buf len alloc of
        (False, buf) \<Rightarrow> (0, buf)
      | (True, buf) \<Rightarrow>
          (let buf = (if bm_length buf < len
                      then buf\<lparr>bm_data := map_option (\<lambda>bs. put_bytes bs (bm_length buf) (replicate (len - bm_length buf) 0)) (bm_data buf)\<rparr>
                      else buf)
           in (len, buf\<lparr>bm_length := len\<rparr>)))"

definition BUF_MEM_grow_clean :: "buf_mem \<Rightarrow> nat \<Rightarrow> (nat \<Rightarrow> bool) \<Rightarrow> nat \<times> buf_mem" where
  "BUF_MEM_grow_clean buf len alloc = BUF_MEM_grow buf len alloc"

definition BUF_MEM_append :: "buf_mem \<Rightarrow> byte list \<Rightarrow> (nat \<Rightarrow> bool) \<Rightarrow> bool \<times> buf_mem" where
  "BUF_MEM_append buf inp alloc =
     (if length inp = 0 then (True, buf)
      else let new_len = (bm_length buf + length inp) mod size_mod
           in if new_len < length inp then (False, buf)
              else case BUF_MEM_reserve buf new_len alloc of
                     (False, buf) \<Rightarrow> (False, buf)
                   | (True, buf) \<Rightarrow>
                       (True, buf\<lparr>bm_data := map_option (\<lambda>bs. put_bytes bs (bm_length buf) inp) (bm_data buf),
                                  bm_length := new_len\<rparr>))"

text \<open>The contents, and what every operation keeps: the block has \<open>max\<close> bytes and holds the contents.\<close>

definition bm_contents :: "buf_mem \<Rightarrow> byte list" where
  "bm_contents buf = (case bm_data buf of None \<Rightarrow> [] | Some bs \<Rightarrow> take (bm_length buf) bs)"

definition buf_ok :: "buf_mem \<Rightarrow> bool" where
  "buf_ok buf \<longleftrightarrow> bm_length buf \<le> bm_max buf \<and>
     (case bm_data buf of None \<Rightarrow> bm_max buf = 0 | Some bs \<Rightarrow> length bs = bm_max buf)"

lemma reserve_ok:
  assumes "buf_ok buf" "BUF_MEM_reserve buf cap alloc = (ok, buf')"
  shows "buf_ok buf' \<and> bm_length buf' = bm_length buf \<and> bm_contents buf' = bm_contents buf \<and>
    (ok \<longrightarrow> cap \<le> bm_max buf' \<and> (cap \<noteq> 0 \<longrightarrow> bm_data buf' \<noteq> None)) \<and> (\<not> ok \<longrightarrow> buf' = buf) \<and>
    (cap < 2 ^ 62 \<and> (\<forall>n < 2 ^ 63. alloc n) \<longrightarrow> ok)"
proof (cases "bm_max buf \<ge> cap")
  case True
  then show ?thesis using assms by (auto simp: BUF_MEM_reserve_def buf_ok_def split: option.splits)
next
  case False
  define n where "n = (cap + 3) mod size_mod div 3"
  define a where "a = (n * 4) mod size_mod"
  have r: "BUF_MEM_reserve buf cap alloc =
      (if (cap + 3) mod size_mod < cap \<or> a div 4 \<noteq> n \<or> \<not> alloc a then (False, buf)
       else (True, buf\<lparr>bm_data := Some (realloc_bytes (bm_data buf) a), bm_max := a\<rparr>))"
    using False unfolding BUF_MEM_reserve_def Let_def n_def [symmetric] a_def [symmetric] by auto
  have ge: "cap \<le> a" if "\<not> (cap + 3) mod size_mod < cap" "a div 4 = n"
  proof -
    have "cap + 3 < size_mod"
    proof (rule ccontr)
      assume w: "\<not> cap + 3 < size_mod"
      have "cap < size_mod" by (rule le_less_trans [OF leI [OF that(1)]]) simp
      then have "(cap + 3) mod size_mod = cap + 3 - size_mod" using w by (simp add: le_mod_geq not_less)
      then show False using that(1) \<open>cap < size_mod\<close> w by linarith
    qed
    then have n: "n = (cap + 3) div 3" by (simp add: n_def)
    have "n * 4 < size_mod"
    proof (rule ccontr)
      assume w: "\<not> n * 4 < size_mod"
      have "a < size_mod" by (simp add: a_def)
      then show False using that(2) w by linarith
    qed
    then have "a = n * 4" by (simp add: a_def)
    then show ?thesis using n by linarith
  qed
  have keep: "bm_contents (buf\<lparr>bm_data := Some (realloc_bytes (bm_data buf) a), bm_max := a\<rparr>) = bm_contents buf"
    if "cap \<le> a"
    using that assms(1) False
    by (cases "bm_data buf") (auto simp: bm_contents_def realloc_bytes_def Let_def buf_ok_def min_def)
  have small: "(cap + 3) mod size_mod = cap + 3" "n = (cap + 3) div 3" "a = n * 4" "a < 2 ^ 63" if "cap < 2 ^ 62"
    using that unfolding a_def n_def by auto
  have len: "length (realloc_bytes (bm_data buf) a) = a" by (auto simp: realloc_bytes_def Let_def)
  show ?thesis
  proof (cases "(cap + 3) mod size_mod < cap \<or> a div 4 \<noteq> n \<or> \<not> alloc a")
    case True
    have "\<not> (cap < 2 ^ 62 \<and> (\<forall>n < 2 ^ 63. alloc n))"
    proof
      assume c: "cap < 2 ^ 62 \<and> (\<forall>n < 2 ^ 63. alloc n)"
      then have "alloc a" "a div 4 = n" "\<not> (cap + 3) mod size_mod < cap" using small(1,3,4) by simp_all
      then show False using True by simp
    qed
    then show ?thesis using r True assms by auto
  next
    case F: False
    then have "cap \<le> a" using ge by auto
    then show ?thesis using r F assms False keep len by (auto simp: buf_ok_def)
  qed
qed


lemma take_put_bytes: "i \<le> length blk \<Longrightarrow> take (i + length bs) (put_bytes blk i bs) = take i blk @ bs"
  by (simp add: put_bytes_def)

lemma length_put_bytes: "i + length bs \<le> length blk \<Longrightarrow> length (put_bytes blk i bs) = length blk"
  by (simp add: put_bytes_def)

lemma append_ok:
  assumes "buf_ok buf" "BUF_MEM_append buf inp alloc = (ok, buf')" "bm_length buf + length inp < size_mod"
  shows "buf_ok buf' \<and> (ok \<longrightarrow> bm_contents buf' = bm_contents buf @ inp \<and> bm_length buf' = bm_length buf + length inp) \<and>
    (\<not> ok \<longrightarrow> buf' = buf) \<and> (bm_length buf + length inp < 2 ^ 62 \<and> (\<forall>n < 2 ^ 63. alloc n) \<longrightarrow> ok)"
proof (cases "inp = []")
  case True
  then show ?thesis using assms by (auto simp: BUF_MEM_append_def)
next
  case False
  obtain r b where r: "BUF_MEM_reserve buf (bm_length buf + length inp) alloc = (r, b)" by fastforce
  note k = reserve_ok [OF assms(1) r]
  show ?thesis
  proof (cases r)
    case True
    then obtain bs where bs: "bm_data b = Some bs" using k False by auto
    have l: "length bs = bm_max b" "bm_length buf + length inp \<le> bm_max b"
      using k True bs by (auto simp: buf_ok_def)
    have "take (bm_length buf) bs = bm_contents buf" using k bs by (auto simp: bm_contents_def)
    moreover have "ok" "buf' = b\<lparr>bm_data := Some (put_bytes bs (bm_length buf) inp), bm_length := bm_length buf + length inp\<rparr>"
      using assms(2,3) False True r bs k by (auto simp: BUF_MEM_append_def Let_def)
    ultimately show ?thesis
      using l take_put_bytes [of "bm_length buf" bs inp] length_put_bytes [of "bm_length buf" inp bs]
      by (simp add: buf_ok_def bm_contents_def)
  next
    case F: False
    then have "ok = False" "buf' = b" using assms(2,3) False r by (auto simp: BUF_MEM_append_def Let_def)
    then show ?thesis using k F by auto
  qed
qed

lemma grow_ok:
  assumes "buf_ok buf" "BUF_MEM_grow buf len alloc = (n, buf')"
  shows "buf_ok buf' \<and> (n = len \<and> bm_length buf' = len \<and>
      bm_contents buf' = take len (bm_contents buf) @ replicate (len - bm_length buf) 0 \<or>
      n = 0 \<and> buf' = buf) \<and> (len < 2 ^ 62 \<and> (\<forall>n < 2 ^ 63. alloc n) \<longrightarrow> n = len \<and> bm_length buf' = len)"
proof -
  obtain r b where r: "BUF_MEM_reserve buf len alloc = (r, b)" by fastforce
  note k = reserve_ok [OF assms(1) r]
  have cl: "length (bm_contents buf) = bm_length buf"
    using assms(1) by (auto simp: bm_contents_def buf_ok_def split: option.splits)
  show ?thesis
  proof (cases r)
    case False
    then show ?thesis using k r assms(2) by (auto simp: BUF_MEM_grow_def)
  next
    case True
    show ?thesis
    proof (cases "bm_length buf < len")
      case less: True
      then obtain bs where bs: "bm_data b = Some bs" using k True by auto
      have l: "length bs = bm_max b" "len \<le> bm_max b" using k True bs by (auto simp: buf_ok_def)
      have c: "take (bm_length buf) bs = bm_contents buf" using k bs by (auto simp: bm_contents_def)
      let ?z = "replicate (len - bm_length buf) (0 :: byte)"
      have "n = len" "buf' = b\<lparr>bm_data := Some (put_bytes bs (bm_length buf) ?z), bm_length := len\<rparr>"
        using assms(2) True r bs k less by (auto simp: BUF_MEM_grow_def Let_def)
      moreover have "take len (put_bytes bs (bm_length buf) ?z) = bm_contents buf @ ?z"
        using take_put_bytes [of "bm_length buf" bs ?z] l less c by simp
      ultimately show ?thesis
        using l less cl length_put_bytes [of "bm_length buf" ?z bs] by (simp add: buf_ok_def bm_contents_def)
    next
      case more: False
      then have "n = len" "buf' = b\<lparr>bm_length := len\<rparr>"
        using assms(2) True r k by (auto simp: BUF_MEM_grow_def Let_def)
      moreover have lb: "bm_length b = bm_length buf" using k by simp
      moreover have "bm_contents (b\<lparr>bm_length := len\<rparr>) = take len (bm_contents b)"
        using more lb by (auto simp: bm_contents_def split: option.splits)
      ultimately show ?thesis using k more True by (auto simp: buf_ok_def split: option.splits)
    qed
  qed
qed

section \<open>Correctness of the string functions\<close>

lemma strlcpy_loop:
  "i + dst_size \<le> length dst \<Longrightarrow> 0 < dst_size \<Longrightarrow>
   strlcpy_loop dst i src dst_size l =
     (let k = min (length src) (dst_size - 1)
      in (take i dst @ take k src @ drop (i + k) dst, i + k, drop k src, dst_size - k, l + k))"
proof (induction dst i src dst_size l rule: strlcpy_loop.induct)
  case (2 dst i c src dst_size l)
  show ?case
  proof (cases "dst_size > 1")
    case True
    then obtain d where d: "dst_size = d + 2" by (metis add.commute less_iff_succ_less_eq nat_less_le le_iff_add one_add_one add.assoc)
    have "strlcpy_loop dst i (c # src) dst_size l = strlcpy_loop (dst[i := c]) (i + 1) src (dst_size - 1) (l + 1)"
      using True by simp
    also have "\<dots> = (let k = min (length src) (dst_size - 1 - 1)
      in (take (i + 1) (dst[i := c]) @ take k src @ drop (i + 1 + k) (dst[i := c]), i + 1 + k, drop k src, dst_size - 1 - k, l + 1 + k))"
      using 2 True by simp
    finally show ?thesis using 2 True d by (simp add: Let_def take_Suc_conv_app_nth)
  qed simp
qed (simp add: min_def)

lemma strlcpy_exact:
  assumes "i + dst_size \<le> length dst"
  shows "OPENSSL_strlcpy dst i src dst_size =
    (length src, if dst_size = 0 then dst
       else let k = min (length src) (dst_size - 1) in take i dst @ take k src @ [0] @ drop (i + k + 1) dst)"
proof (cases "dst_size = 0")
  case True
  then show ?thesis by (cases src) (simp_all add: OPENSSL_strlcpy_def)
next
  case False
  define k where "k = min (length src) (dst_size - 1)"
  have k: "k \<le> length src" "k < dst_size" using False by (auto simp: k_def)
  have up: "(take i dst @ take k src @ drop (i + k) dst)[i + k := 0] = take i dst @ take k src @ [0] @ drop (i + k + 1) dst"
  proof -
    have "drop (i + k) dst = dst ! (i + k) # drop (i + k + 1) dst"
      using assms k(2) by (simp add: Cons_nth_drop_Suc)
    then show ?thesis using assms k by (simp add: list_update_append min_def)
  qed
  have "0 < dst_size" using False by simp
  note L = strlcpy_loop [OF assms this, of src 0, unfolded Let_def, folded k_def]
  show ?thesis
    unfolding OPENSSL_strlcpy_def L prod.case Let_def k_def [symmetric] up using False k by simp
qed

lemma strlcat_loop:
  assumes "dst = s @ 0 # rest" "0 \<notin> set s" "i \<le> length s" "i + n = N" "N \<le> length dst"
  shows "strlcat_loop dst i n = min (length s) N"
  using assms(3,4)
proof (induction n arbitrary: i)
  case 0
  then show ?case by (simp add: strlcat_loop.simps)
next
  case (Suc n)
  show ?case
  proof (cases "i = length s")
    case True
    then show ?thesis using Suc assms(1) by (simp add: strlcat_loop.simps nth_append)
  next
    case False
    then have "i < length s" using Suc.prems(1) by simp
    then have "dst ! i \<noteq> 0" using assms(1,2) by (metis nth_append nth_mem)
    then show ?thesis using Suc False by (subst strlcat_loop.simps) auto
  qed
qed

lemma strncasecmp_0: "OPENSSL_strncasecmp a b (length a + 1) = OPENSSL_strcasecmp a b"
proof (induction a arbitrary: b)
  case Nil
  then show ?case by (subst OPENSSL_strcasecmp.simps) (auto simp: Let_def OPENSSL_tolower_def char_at_def)
next
  case (Cons c a)
  then show ?case by (subst OPENSSL_strcasecmp.simps) (auto simp: Let_def)
qed

text \<open>A size near the end of the range wraps, and the block is far smaller than what its prefix records.\<close>

lemma malloc_wraps:
  "\<exists>b. OPENSSL_malloc (size_mod - 1) (\<lambda>n. n < 16) = Some b \<and> mb_size b = size_mod - 1 \<and> mb_room b = 0"
  by (simp add: OPENSSL_malloc_def OPENSSL_MALLOC_PREFIX_def)

section \<open>Properties\<close>



text \<open>A sequence of appends to a new buffer.\<close>

fun append_all :: "buf_mem \<Rightarrow> byte list list \<Rightarrow> (nat \<Rightarrow> bool) \<Rightarrow> bool list \<times> buf_mem" where
  "append_all buf [] alloc = ([], buf)"
| "append_all buf (d # ds) alloc =
     (case BUF_MEM_append buf d alloc of (ok, buf) \<Rightarrow>
        case append_all buf ds alloc of (oks, buf) \<Rightarrow> (ok # oks, buf))"

lemma append_all_ok:
  "buf_ok buf \<Longrightarrow> bm_length buf + length (concat ds) < size_mod \<Longrightarrow> append_all buf ds alloc = (oks, buf') \<Longrightarrow>
   buf_ok buf' \<and> length oks = length ds \<and>
   bm_contents buf' = bm_contents buf @ concat (map snd (filter fst (zip oks ds)))"
proof (induction ds arbitrary: buf oks)
  case (Cons d ds)
  obtain ok b1 where 1: "BUF_MEM_append buf d alloc = (ok, b1)" by fastforce
  obtain oks1 where 2: "append_all b1 ds alloc = (oks1, buf')" "oks = ok # oks1"
    using Cons.prems(3) 1 by (auto split: prod.splits)
  have "bm_length buf + length d < size_mod" using Cons.prems(2) by simp
  note a = append_ok [OF Cons.prems(1) 1 this]
  have "bm_length b1 + length (concat ds) < size_mod" using a Cons.prems(2) by (cases ok) auto
  from Cons.IH [OF _ this 2(1)] a 2(2) show ?case by (cases ok) auto
qed simp

text \<open>
  C39. A sequence of appends and grows on a new buffer holds exactly the bytes appended, zeros where it
  grew; a failed operation changes nothing, and below \<open>2^62\<close> bytes only a failed allocation fails.
\<close>

theorem BUF_MEM_appends:
  assumes "BUF_MEM_new alloc = Some buf" "length (concat ds) < 2 ^ 64" "append_all buf ds alloc = (oks, buf')"
  shows "bm_contents buf' = concat (map snd (filter fst (zip oks ds))) \<and> bm_length buf' \<le> bm_max buf' \<and>
    ((\<forall>n < 2 ^ 63. alloc n) \<and> length (concat ds) < 2 ^ 62 \<longrightarrow> bm_contents buf' = concat ds)"
proof -
  have b: "buf_ok buf" "bm_length buf = 0" "bm_contents buf = []"
    using assms(1) by (auto simp: BUF_MEM_new_def buf_ok_def bm_contents_def split: if_splits)
  note a = append_all_ok [OF b(1) _ assms(3)]
  have all: "buf_ok bb \<Longrightarrow> bm_length bb + length (concat xs) < 2 ^ 62 \<Longrightarrow> \<forall>n < 2 ^ 63. alloc n \<Longrightarrow>
      append_all bb xs alloc = (os, bb') \<Longrightarrow> bm_contents bb' = bm_contents bb @ concat xs" for bb xs os bb'
  proof (induction xs arbitrary: bb os)
    case (Cons d xs)
    obtain ok b1 where 1: "BUF_MEM_append bb d alloc = (ok, b1)" by fastforce
    obtain os1 where 2: "append_all b1 xs alloc = (os1, bb')" using Cons.prems(4) 1 by (auto split: prod.splits)
    have "bm_length bb + length d < size_mod" using Cons.prems(2) by simp
    note c = append_ok [OF Cons.prems(1) 1 this]
    have ok: "ok" using c Cons.prems(2,3) by auto
    have "bm_length b1 + length (concat xs) < 2 ^ 62" using c ok Cons.prems(2) by auto
    from Cons.IH [OF _ this Cons.prems(3) 2] c ok show ?case by auto
  qed simp
  have "bm_contents buf' = concat ds" if "(\<forall>n < 2 ^ 63. alloc n) \<and> length (concat ds) < 2 ^ 62"
    using all [OF b(1) _ _ assms(3)] that b by simp
  then show ?thesis using a assms(2) b by (auto simp: buf_ok_def)
qed

theorem BUF_MEM_appends_witness:
  "\<exists>buf. BUF_MEM_new (\<lambda>n. n < 30) = Some buf \<and>
     bm_contents (snd (append_all buf [[1, 2], replicate 50 0, [3]] (\<lambda>n. n < 30))) = [1, 2, 3]"
proof -
  let ?al = "\<lambda>n. n < (30 :: nat)"
  let ?b0 = "\<lparr>bm_length = 0, bm_data = None, bm_max = 0\<rparr> :: buf_mem"
  let ?b1 = "\<lparr>bm_length = 2, bm_data = Some [1, 2, 0, 0], bm_max = 4\<rparr> :: buf_mem"
  let ?b2 = "\<lparr>bm_length = 3, bm_data = Some [1, 2, 3, 0], bm_max = 4\<rparr> :: buf_mem"
  have b: "BUF_MEM_new ?al = Some ?b0" by (simp add: BUF_MEM_new_def)
  have "realloc_bytes None 4 = [0, 0, 0, 0]" by (simp add: realloc_bytes_def eval_nat_numeral)
  then have 1: "BUF_MEM_append ?b0 [1, 2] ?al = (True, ?b1)"
    by (simp add: BUF_MEM_append_def BUF_MEM_reserve_def Let_def put_bytes_def)
  have 2: "BUF_MEM_append ?b1 (replicate 50 0) ?al = (False, ?b1)"
    by (simp add: BUF_MEM_append_def BUF_MEM_reserve_def Let_def)
  have 3: "BUF_MEM_append ?b1 [3] ?al = (True, ?b2)"
    by (simp add: BUF_MEM_append_def BUF_MEM_reserve_def Let_def put_bytes_def)
  have a: "append_all ?b0 [[1, 2], replicate 50 0, [3]] ?al = ([True, False, True], ?b2)"
    using 1 2 3 by simp
  from BUF_MEM_appends [OF b _ a] a b show ?thesis by simp
qed

end
