(* ===== verification/Bio.thy ===== *)
theory Bio
  imports Mem
begin

text \<open>
  Model of \<open>crypto/bio/bio.c\<close>, \<open>bio_mem.c\<close> and \<open>pair.c\<close> with the reference counts of
  \<open>refcount_lock.c\<close>. BIOs live in a heap: pairs refer to each other and chains to their next BIO by
  address. The method table of a BIO is an enumeration of the two methods; data read is returned
  with the result instead of written to a caller's buffer, data written is a list of bytes whose
  length is the \<open>len\<close> argument. \<open>byte_channel\<close> is what both methods promise about the bytes that go
  through them.
\<close>

section \<open>State\<close>

text \<open>The half of a pair; the buffer holds what is written to this side.\<close>

record bio_bio =
  peer :: "nat option"
  closed :: bool
  blen :: nat
  boffset :: nat
  bsize :: nat
  bbuf :: "byte list option"
  request :: nat

text \<open>
  The method's data: half of a pair, or a growing buffer. The data pointer of a read-only buffer
  advances; \<open>Mem_ptr\<close> keeps the bytes in front of it.
\<close>

datatype bio_ptr = Null_ptr | Pair_ptr bio_bio | Mem_ptr "byte list" buf_mem

datatype bio_method = BIO_PAIR | BIO_MEM

record bio =
  bi_method :: bio_method
  bi_init :: bool
  bi_shutdown :: int
  bi_flags :: u32
  bi_retry_reason :: int
  bi_num :: int
  bi_references :: nat
  bi_ptr :: bio_ptr
  bi_next :: "nat option"
  bi_num_read :: nat
  bi_num_write :: nat

datatype bio_error =
    UNSUPPORTED_METHOD | UNINITIALIZED | BROKEN_PIPE | IN_USE | NULL_PARAMETER
  | WRITE_TO_READ_ONLY_BIO | MALLOC_FAILURE
  | ASN1_DECODE_ERROR | ASN1_HEADER_TOO_LONG | ASN1_NOT_ENOUGH_DATA | ASN1_TOO_LONG

text \<open>The heap of BIOs, the address of the next one and the error queue.\<close>

record bio_state =
  bios :: "nat \<Rightarrow> bio option"
  next_addr :: nat
  errq :: "bio_error list"

definition the_bio :: "bio_state \<Rightarrow> nat \<Rightarrow> bio" where
  "the_bio st a = the (bios st a)"

definition put_bio :: "nat \<Rightarrow> bio \<Rightarrow> bio_state \<Rightarrow> bio_state" where
  "put_bio a b st = st\<lparr>bios := (bios st)(a \<mapsto> b)\<rparr>"

definition put_error :: "bio_error \<Rightarrow> bio_state \<Rightarrow> bio_state" where
  "put_error e st = st\<lparr>errq := errq st @ [e]\<rparr>"

definition INT_MAX :: int where "INT_MAX = 2147483647"

text \<open>The conversion of a size to \<open>int\<close>.\<close>

definition int_of_size :: "nat \<Rightarrow> int" where
  "int_of_size n = sint (of_nat n :: u32)"

section \<open>Flags and reference counts\<close>

definition BIO_FLAGS_READ :: u32 where "BIO_FLAGS_READ = 0x01"
definition BIO_FLAGS_WRITE :: u32 where "BIO_FLAGS_WRITE = 0x02"
definition BIO_FLAGS_IO_SPECIAL :: u32 where "BIO_FLAGS_IO_SPECIAL = 0x04"
definition BIO_FLAGS_RWS :: u32 where "BIO_FLAGS_RWS = BIO_FLAGS_READ OR BIO_FLAGS_WRITE OR BIO_FLAGS_IO_SPECIAL"
definition BIO_FLAGS_SHOULD_RETRY :: u32 where "BIO_FLAGS_SHOULD_RETRY = 0x08"
definition BIO_FLAGS_MEM_RDONLY :: u32 where "BIO_FLAGS_MEM_RDONLY = 0x200"
definition kRetryFlags :: u32 where "kRetryFlags = BIO_FLAGS_RWS OR BIO_FLAGS_SHOULD_RETRY"

definition BIO_set_flags :: "u32 \<Rightarrow> bio \<Rightarrow> bio" where
  "BIO_set_flags flags b = b\<lparr>bi_flags := bi_flags b OR flags\<rparr>"

definition BIO_clear_flags :: "u32 \<Rightarrow> bio \<Rightarrow> bio" where
  "BIO_clear_flags flags b = b\<lparr>bi_flags := bi_flags b AND NOT flags\<rparr>"

definition BIO_test_flags :: "bio \<Rightarrow> u32 \<Rightarrow> u32" where
  "BIO_test_flags b flags = bi_flags b AND flags"

definition BIO_should_read :: "bio \<Rightarrow> bool" where
  "BIO_should_read b \<longleftrightarrow> BIO_test_flags b BIO_FLAGS_READ \<noteq> 0"

definition BIO_should_write :: "bio \<Rightarrow> bool" where
  "BIO_should_write b \<longleftrightarrow> BIO_test_flags b BIO_FLAGS_WRITE \<noteq> 0"

definition BIO_should_retry :: "bio \<Rightarrow> bool" where
  "BIO_should_retry b \<longleftrightarrow> BIO_test_flags b BIO_FLAGS_SHOULD_RETRY \<noteq> 0"

definition BIO_should_io_special :: "bio \<Rightarrow> bool" where
  "BIO_should_io_special b \<longleftrightarrow> BIO_test_flags b BIO_FLAGS_IO_SPECIAL \<noteq> 0"

definition BIO_get_retry_reason :: "bio \<Rightarrow> int" where
  "BIO_get_retry_reason b = bi_retry_reason b"

definition BIO_set_retry_read :: "bio \<Rightarrow> bio" where
  "BIO_set_retry_read b = b\<lparr>bi_flags := bi_flags b OR (BIO_FLAGS_READ OR BIO_FLAGS_SHOULD_RETRY)\<rparr>"

definition BIO_set_retry_write :: "bio \<Rightarrow> bio" where
  "BIO_set_retry_write b = b\<lparr>bi_flags := bi_flags b OR (BIO_FLAGS_WRITE OR BIO_FLAGS_SHOULD_RETRY)\<rparr>"

definition BIO_get_retry_flags :: "bio \<Rightarrow> u32" where
  "BIO_get_retry_flags b = bi_flags b AND kRetryFlags"

definition BIO_clear_retry_flags :: "bio \<Rightarrow> bio" where
  "BIO_clear_retry_flags b = b\<lparr>bi_flags := bi_flags b AND NOT kRetryFlags, bi_retry_reason := 0\<rparr>"

definition CRYPTO_REFCOUNT_MAX :: nat where "CRYPTO_REFCOUNT_MAX = 0xffffffff"

definition CRYPTO_refcount_inc :: "nat \<Rightarrow> nat" where
  "CRYPTO_refcount_inc n = (if n < CRYPTO_REFCOUNT_MAX then n + 1 else n)"

text \<open>\<open>None\<close> is \<open>abort()\<close>.\<close>

definition CRYPTO_refcount_dec_and_test_zero :: "nat \<Rightarrow> (bool \<times> nat) option" where
  "CRYPTO_refcount_dec_and_test_zero n =
     (if n = 0 then None
      else let n = (if n < CRYPTO_REFCOUNT_MAX then n - 1 else n) in Some (n = 0, n))"

section \<open>Memory BIOs\<close>

definition mem_buf :: "bio \<Rightarrow> buf_mem" where
  "mem_buf b = (case bi_ptr b of Mem_ptr pre m \<Rightarrow> m | _ \<Rightarrow> \<lparr>bm_length = 0, bm_data = None, bm_max = 0\<rparr>)"

definition mem_before :: "bio \<Rightarrow> byte list" where
  "mem_before b = (case bi_ptr b of Mem_ptr pre m \<Rightarrow> pre | _ \<Rightarrow> [])"

definition mem_rdonly :: "bio \<Rightarrow> bool" where
  "mem_rdonly b \<longleftrightarrow> bi_flags b AND BIO_FLAGS_MEM_RDONLY \<noteq> 0"

definition mem_new :: "bio \<Rightarrow> (nat \<Rightarrow> bool) \<Rightarrow> bool \<times> bio" where
  "mem_new b alloc =
     (case BUF_MEM_new alloc of
        None \<Rightarrow> (False, b)
      | Some m \<Rightarrow> (True, b\<lparr>bi_shutdown := 1, bi_init := True, bi_num := -1, bi_ptr := Mem_ptr [] m\<rparr>))"

definition mem_free :: "bio \<Rightarrow> bio" where
  "mem_free b = (if bi_shutdown b = 0 \<or> \<not> bi_init b \<or> bi_ptr b = Null_ptr then b else b\<lparr>bi_ptr := Null_ptr\<rparr>)"

definition mem_read :: "bio \<Rightarrow> int \<Rightarrow> int \<times> byte list \<times> bio" where
  "mem_read b outl =
     (let m = mem_buf b;
          b = BIO_clear_retry_flags b;
          ret = (if int (bm_length m) < INT_MAX \<and> outl > int (bm_length m) then int (bm_length m) else outl)
      in if ret > 0 then
           (let bs = (case bm_data m of None \<Rightarrow> [] | Some bs \<Rightarrow> bs); n = nat ret; len = bm_length m - n
            in (ret, take n bs,
                b\<lparr>bi_ptr :=
                   (if mem_rdonly b
                    then Mem_ptr (mem_before b @ take n bs) (m\<lparr>bm_length := len, bm_data := Some (drop n bs)\<rparr>)
                    else Mem_ptr (mem_before b)
                           (m\<lparr>bm_length := len, bm_data := Some (put_bytes bs 0 (take len (drop n bs)))\<rparr>))\<rparr>))
         else if bm_length m = 0 then
           (let ret = bi_num b in (ret, [], if ret \<noteq> 0 then BIO_set_retry_read b else b))
         else (ret, [], b))"

text \<open>The result, the errors and the BIO.\<close>

definition mem_write :: "bio \<Rightarrow> byte list \<Rightarrow> (nat \<Rightarrow> bool) \<Rightarrow> int \<times> bio_error list \<times> bio" where
  "mem_write b inp alloc =
     (let m = mem_buf b; inl = int (length inp)
      in if mem_rdonly b then (-1, [WRITE_TO_READ_ONLY_BIO], b)
         else
           let b = BIO_clear_retry_flags b; bl = int_of_size (bm_length m)
           in if INT_MAX - bl < inl then (-1, [], b)
              else case BUF_MEM_grow_clean m (nat (bl + inl)) alloc of
                     (n, m') \<Rightarrow>
                       (if n \<noteq> nat bl + length inp then (-1, [MALLOC_FAILURE], b\<lparr>bi_ptr := Mem_ptr (mem_before b) m'\<rparr>)
                        else (inl, [], b\<lparr>bi_ptr := Mem_ptr (mem_before b)
                                (m'\<lparr>bm_data := map_option (\<lambda>bs. put_bytes bs (nat bl) inp) (bm_data m')\<rparr>)\<rparr>)))"

text \<open>The number of bytes up to the end of the first line, at most \<open>j\<close>.\<close>

fun line_length :: "nat \<Rightarrow> byte list \<Rightarrow> nat" where
  "line_length 0 p = 0"
| "line_length (Suc j) p = (case p of [] \<Rightarrow> 0 | c # p \<Rightarrow> if c = 0x0a then 1 else line_length j p + 1)"

definition mem_gets :: "bio \<Rightarrow> int \<Rightarrow> int \<times> byte list \<times> bio" where
  "mem_gets b sz =
     (let m = mem_buf b;
          b = BIO_clear_retry_flags b;
          j = int_of_size (bm_length m);
          j = (if sz - 1 < j then sz - 1 else j)
      in if j \<le> 0 then (0, [], b)
         else mem_read b (int (line_length (nat j) (case bm_data m of None \<Rightarrow> [] | Some bs \<Rightarrow> bs))))"

text \<open>The commands with their arguments; \<open>CTRL_EOF\<close> takes the other BIO of a pair.\<close>

datatype bio_cmd =
    CTRL_RESET | CTRL_EOF "nat option" | CTRL_INFO | CTRL_GET_CLOSE | CTRL_SET_CLOSE int | CTRL_PENDING
  | CTRL_WPENDING | CTRL_FLUSH | C_SET_BUF_MEM int buf_mem | C_GET_BUF_MEM_PTR | C_SET_BUF_MEM_EOF_RETURN int
  | C_GET_WRITE_BUF_SIZE | C_GET_WRITE_GUARANTEE | C_GET_READ_REQUEST | C_RESET_READ_REQUEST | C_SHUTDOWN_WR
  | C_OTHER

definition mem_ctrl :: "bio \<Rightarrow> bio_cmd \<Rightarrow> int \<times> bio" where
  "mem_ctrl b cmd =
     (let m = mem_buf b
      in case cmd of
           CTRL_RESET \<Rightarrow>
             (case bm_data m of
                None \<Rightarrow> (1, b)
              | Some bs \<Rightarrow>
                  (if mem_rdonly b
                   then (let back = bm_max m - bm_length m; pre = mem_before b; n = length pre - back
                         in (1, b\<lparr>bi_ptr := Mem_ptr (take n pre)
                                (m\<lparr>bm_data := Some (drop n pre @ bs), bm_length := bm_max m\<rparr>)\<rparr>))
                   else (1, b\<lparr>bi_ptr := Mem_ptr (mem_before b)
                               (m\<lparr>bm_data := Some (put_bytes bs 0 (replicate (bm_max m) 0)), bm_length := 0\<rparr>)\<rparr>)))
         | CTRL_EOF other \<Rightarrow> (of_bool (bm_length m = 0), b)
         | C_SET_BUF_MEM_EOF_RETURN num \<Rightarrow> (1, b\<lparr>bi_num := num\<rparr>)
         | CTRL_INFO \<Rightarrow> (int (bm_length m), b)
         | C_SET_BUF_MEM num new \<Rightarrow> (1, (mem_free b)\<lparr>bi_shutdown := num, bi_ptr := Mem_ptr [] new\<rparr>)
         | C_GET_BUF_MEM_PTR \<Rightarrow> (1, b)
         | CTRL_GET_CLOSE \<Rightarrow> (bi_shutdown b, b)
         | CTRL_SET_CLOSE num \<Rightarrow> (1, b\<lparr>bi_shutdown := num\<rparr>)
         | CTRL_WPENDING \<Rightarrow> (0, b)
         | CTRL_PENDING \<Rightarrow> (int (bm_length m), b)
         | CTRL_FLUSH \<Rightarrow> (1, b)
         | _ \<Rightarrow> (0, b))"

definition BIO_mem_contents :: "bio \<Rightarrow> byte list option" where
  "BIO_mem_contents b = (if bi_method b \<noteq> BIO_MEM then None else Some (bm_contents (mem_buf b)))"


section \<open>BIO pairs\<close>

definition pair_of :: "bio \<Rightarrow> bio_bio" where
  "pair_of b = (case bi_ptr b of Pair_ptr p \<Rightarrow> p
     | _ \<Rightarrow> \<lparr>peer = None, closed = False, blen = 0, boffset = 0, bsize = 0, bbuf = None, request = 0\<rparr>)"

definition pair_at :: "bio_state \<Rightarrow> nat \<Rightarrow> bio_bio" where
  "pair_at st a = pair_of (the_bio st a)"

definition put_pair :: "nat \<Rightarrow> bio_bio \<Rightarrow> bio_state \<Rightarrow> bio_state" where
  "put_pair a p st = put_bio a ((the_bio st a)\<lparr>bi_ptr := Pair_ptr p\<rparr>) st"

definition upd_bio :: "nat \<Rightarrow> (bio \<Rightarrow> bio) \<Rightarrow> bio_state \<Rightarrow> bio_state" where
  "upd_bio a f st = put_bio a (f (the_bio st a)) st"

definition bio_new :: "bio \<Rightarrow> (nat \<Rightarrow> bool) \<Rightarrow> bool \<times> bio" where
  "bio_new b alloc =
     (if \<not> alloc 56 then (False, b)
      else (True, b\<lparr>bi_ptr := Pair_ptr \<lparr>peer = None, closed = False, blen = 0, boffset = 0, bsize = 17 * 1024,
                                        bbuf = None, request = 0\<rparr>\<rparr>))"

definition bio_destroy_pair :: "nat \<Rightarrow> bio_state \<Rightarrow> bio_state" where
  "bio_destroy_pair a st =
     (case peer (pair_at st a) of
        None \<Rightarrow> st
      | Some q \<Rightarrow>
          (let st = put_pair q ((pair_at st q)\<lparr>peer := None, blen := 0, boffset := 0\<rparr>) st;
               st = upd_bio q (\<lambda>b. b\<lparr>bi_init := False\<rparr>) st;
               st = put_pair a ((pair_at st a)\<lparr>peer := None, blen := 0, boffset := 0\<rparr>) st
           in upd_bio a (\<lambda>b. b\<lparr>bi_init := False\<rparr>) st))"

definition bio_free :: "nat \<Rightarrow> bio_state \<Rightarrow> bio_state" where
  "bio_free a st =
     upd_bio a (\<lambda>b. b\<lparr>bi_ptr := Null_ptr\<rparr>) (if peer (pair_at st a) \<noteq> None then bio_destroy_pair a st else st)"

text \<open>
  The copying loops. They return \<open>None\<close> if they never end, which a buffer with \<open>offset = size\<close>
  would cause.
\<close>

partial_function (option) read_ring :: "bio_bio \<Rightarrow> nat \<Rightarrow> byte list \<Rightarrow> (byte list \<times> bio_bio) option" where
  "read_ring p rest out =
     (let chunk = (if boffset p + rest \<le> bsize p then rest else bsize p - boffset p);
          out = out @ take chunk (drop (boffset p) (the (bbuf p)));
          p = p\<lparr>blen := blen p - chunk\<rparr>;
          p = (if blen p \<noteq> 0
               then p\<lparr>boffset := (if boffset p + chunk = bsize p then 0 else boffset p + chunk)\<rparr>
               else p\<lparr>boffset := 0\<rparr>);
          rest = rest - chunk
      in if rest = 0 then Some (out, p) else read_ring p rest out)"

partial_function (option) write_ring :: "bio_bio \<Rightarrow> byte list \<Rightarrow> bio_bio option" where
  "write_ring p rest =
     (let write_offset = boffset p + blen p;
          write_offset = (if write_offset \<ge> bsize p then write_offset - bsize p else write_offset);
          chunk = (if write_offset + length rest \<le> bsize p then length rest else bsize p - write_offset);
          p = p\<lparr>bbuf := Some (put_bytes (the (bbuf p)) write_offset (take chunk rest)), blen := blen p + chunk\<rparr>;
          rest = drop chunk rest
      in if rest = [] then Some p else write_ring p rest)"

definition bio_read :: "nat \<Rightarrow> nat \<Rightarrow> bio_state \<Rightarrow> (int \<times> byte list \<times> bio_state) option" where
  "bio_read a sz st =
     (let st = upd_bio a BIO_clear_retry_flags st
      in if \<not> bi_init (the_bio st a) then Some (0, [], st)
         else
           let q = the (peer (pair_at st a));
               p = (pair_at st q)\<lparr>request := 0\<rparr>;
               st = put_pair q p st
           in if sz = 0 then Some (0, [], st)
              else if blen p = 0 then
                (if closed p then Some (0, [], st)
                 else let st = upd_bio a BIO_set_retry_read st
                      in Some (-1, [], put_pair q (p\<lparr>request := (if sz \<le> bsize p then sz else bsize p)\<rparr>) st))
              else let sz = (if blen p < sz then blen p else sz)
                   in (case read_ring p sz [] of
                         None \<Rightarrow> None
                       | Some (out, p) \<Rightarrow> Some (int sz, out, put_pair q p st)))"

definition bio_write :: "nat \<Rightarrow> byte list \<Rightarrow> bio_state \<Rightarrow> (int \<times> bio_state) option" where
  "bio_write a inp st =
     (let st = upd_bio a BIO_clear_retry_flags st
      in if \<not> bi_init (the_bio st a) \<or> length inp = 0 then Some (0, st)
         else
           let p = (pair_at st a)\<lparr>request := 0\<rparr>;
               st = put_pair a p st
           in if closed p then Some (-1, put_error BROKEN_PIPE st)
              else if blen p = bsize p then Some (-1, upd_bio a BIO_set_retry_write st)
              else let num = (if length inp > bsize p - blen p then bsize p - blen p else length inp)
                   in (case write_ring p (take num inp) of
                         None \<Rightarrow> None
                       | Some p \<Rightarrow> Some (int num, put_pair a p st)))"

text \<open>One half is given its buffer.\<close>

definition make_half :: "bio_bio \<Rightarrow> nat \<Rightarrow> (nat \<Rightarrow> bool) \<Rightarrow> bool \<times> bio_bio" where
  "make_half p writebuf_len alloc =
     (if bbuf p = None then
        (let p = (if writebuf_len \<noteq> 0 then p\<lparr>bsize := writebuf_len\<rparr> else p)
         in if \<not> alloc (bsize p) then (False, p)
            else (True, p\<lparr>bbuf := Some (replicate (bsize p) 0), blen := 0, boffset := 0\<rparr>))
      else (True, p))"

definition bio_make_pair :: "nat \<Rightarrow> nat \<Rightarrow> nat \<Rightarrow> nat \<Rightarrow> (nat \<Rightarrow> bool) \<Rightarrow> bio_state \<Rightarrow> bool \<times> bio_state" where
  "bio_make_pair a1 a2 writebuf1_len writebuf2_len alloc st =
     (if peer (pair_at st a1) \<noteq> None \<or> peer (pair_at st a2) \<noteq> None then (False, put_error IN_USE st)
      else case make_half (pair_at st a1) writebuf1_len alloc of
        (False, p1) \<Rightarrow> (False, put_error MALLOC_FAILURE (put_pair a1 p1 st))
      | (True, p1) \<Rightarrow>
          (let st = put_pair a1 p1 st
           in case make_half (pair_at st a2) writebuf2_len alloc of
                (False, p2) \<Rightarrow> (False, put_error MALLOC_FAILURE (put_pair a2 p2 st))
              | (True, p2) \<Rightarrow>
                  (let st = put_pair a2 p2 st;
                       st = put_pair a1 ((pair_at st a1)\<lparr>peer := Some a2, closed := False, request := 0\<rparr>) st;
                       st = put_pair a2 ((pair_at st a2)\<lparr>peer := Some a1, closed := False, request := 0\<rparr>) st;
                       st = upd_bio a1 (\<lambda>b. b\<lparr>bi_init := True\<rparr>) st
                   in (True, upd_bio a2 (\<lambda>b. b\<lparr>bi_init := True\<rparr>) st))))"

definition bio_ctrl :: "nat \<Rightarrow> bio_cmd \<Rightarrow> bio_state \<Rightarrow> int \<times> bio_state" where
  "bio_ctrl a cmd st =
     (let p = pair_at st a
      in case cmd of
           C_GET_WRITE_BUF_SIZE \<Rightarrow> (int (bsize p), st)
         | C_GET_WRITE_GUARANTEE \<Rightarrow> (if peer p = None \<or> closed p then 0 else int (bsize p) - int (blen p), st)
         | C_GET_READ_REQUEST \<Rightarrow> (int (request p), st)
         | C_RESET_READ_REQUEST \<Rightarrow> (1, put_pair a (p\<lparr>request := 0\<rparr>) st)
         | C_SHUTDOWN_WR \<Rightarrow> (1, put_pair a (p\<lparr>closed := True\<rparr>) st)
         | CTRL_GET_CLOSE \<Rightarrow> (bi_shutdown (the_bio st a), st)
         | CTRL_SET_CLOSE num \<Rightarrow> (1, upd_bio a (\<lambda>b. b\<lparr>bi_shutdown := num\<rparr>) st)
         | CTRL_PENDING \<Rightarrow> (case peer p of Some q \<Rightarrow> int (blen (pair_at st q)) | None \<Rightarrow> 0, st)
         | CTRL_WPENDING \<Rightarrow> (if bbuf p \<noteq> None then int (blen p) else 0, st)
         | CTRL_FLUSH \<Rightarrow> (1, st)
         | CTRL_EOF other \<Rightarrow>
             (case other of
                Some o1 \<Rightarrow> of_bool (blen (pair_at st o1) = 0 \<and> closed (pair_at st o1))
              | None \<Rightarrow> 1, st)
         | _ \<Rightarrow> (0, st))"

section \<open>The BIO interface\<close>

definition method_new :: "bio_method \<Rightarrow> bio \<Rightarrow> (nat \<Rightarrow> bool) \<Rightarrow> bool \<times> bio" where
  "method_new m = (case m of BIO_PAIR \<Rightarrow> bio_new | BIO_MEM \<Rightarrow> mem_new)"

definition BIO_new :: "bio_method \<Rightarrow> (nat \<Rightarrow> bool) \<Rightarrow> bio_state \<Rightarrow> nat option \<times> bio_state" where
  "BIO_new m alloc st =
     (if \<not> alloc 64 then (None, put_error MALLOC_FAILURE st)
      else case method_new m \<lparr>bi_method = m, bi_init = False, bi_shutdown = 1, bi_flags = 0, bi_retry_reason = 0,
                bi_num = 0, bi_references = 1, bi_ptr = Null_ptr, bi_next = None, bi_num_read = 0, bi_num_write = 0\<rparr> alloc of
             (False, b) \<Rightarrow> (None, if m = BIO_MEM then put_error MALLOC_FAILURE st else st)
           | (True, b) \<Rightarrow> (Some (next_addr st), (put_bio (next_addr st) b st)\<lparr>next_addr := next_addr st + 1\<rparr>))"

definition method_destroy :: "nat \<Rightarrow> bio_state \<Rightarrow> bio_state" where
  "method_destroy a st =
     (case bi_method (the_bio st a) of BIO_PAIR \<Rightarrow> bio_free a st | BIO_MEM \<Rightarrow> upd_bio a mem_free st)"

definition BIO_pop :: "nat option \<Rightarrow> bio_state \<Rightarrow> nat option \<times> bio_state" where
  "BIO_pop a st =
     (case a of None \<Rightarrow> (None, st)
      | Some a \<Rightarrow> (bi_next (the_bio st a), upd_bio a (\<lambda>b. b\<lparr>bi_next := None\<rparr>) st))"

text \<open>\<open>None\<close> is \<open>abort()\<close>, or a chain that never ends.\<close>

partial_function (option) BIO_free :: "nat option \<Rightarrow> bio_state \<Rightarrow> (bool \<times> bio_state) option" where
  "BIO_free a st =
     (case a of None \<Rightarrow> Some (True, st)
      | Some a \<Rightarrow>
          (case CRYPTO_refcount_dec_and_test_zero (bi_references (the_bio st a)) of
             None \<Rightarrow> None
           | Some (zero, n) \<Rightarrow>
               (let st = upd_bio a (\<lambda>b. b\<lparr>bi_references := n\<rparr>) st
                in if \<not> zero then Some (False, st)
                   else case BIO_pop (Some a) st of
                          (next_bio, st) \<Rightarrow>
                            (let st = method_destroy a st
                             in BIO_free next_bio (st\<lparr>bios := (bios st)(a := None)\<rparr>)))))"

definition BIO_up_ref :: "nat \<Rightarrow> bio_state \<Rightarrow> bool \<times> bio_state" where
  "BIO_up_ref a st = (True, upd_bio a (\<lambda>b. b\<lparr>bi_references := CRYPTO_refcount_inc (bi_references b)\<rparr>) st)"

definition method_read :: "nat \<Rightarrow> int \<Rightarrow> bio_state \<Rightarrow> (int \<times> byte list \<times> bio_state) option" where
  "method_read a len st =
     (case bi_method (the_bio st a) of
        BIO_PAIR \<Rightarrow> bio_read a (nat len) st
      | BIO_MEM \<Rightarrow> (case mem_read (the_bio st a) len of (ret, bs, b) \<Rightarrow> Some (ret, bs, put_bio a b st)))"

definition count_read :: "nat \<Rightarrow> int \<Rightarrow> bio_state \<Rightarrow> bio_state" where
  "count_read a ret st =
     (if ret > 0 then upd_bio a (\<lambda>b. b\<lparr>bi_num_read := (bi_num_read b + nat ret) mod size_mod\<rparr>) st else st)"

definition count_write :: "nat \<Rightarrow> int \<Rightarrow> bio_state \<Rightarrow> bio_state" where
  "count_write a ret st =
     (if ret > 0 then upd_bio a (\<lambda>b. b\<lparr>bi_num_write := (bi_num_write b + nat ret) mod size_mod\<rparr>) st else st)"

definition BIO_read :: "nat option \<Rightarrow> int \<Rightarrow> bio_state \<Rightarrow> (int \<times> byte list \<times> bio_state) option" where
  "BIO_read a len st =
     (case a of None \<Rightarrow> Some (-2, [], put_error UNSUPPORTED_METHOD st)
      | Some a \<Rightarrow>
          (if \<not> bi_init (the_bio st a) then Some (-2, [], put_error UNINITIALIZED st)
           else if len \<le> 0 then Some (0, [], st)
           else case method_read a len st of
                  None \<Rightarrow> None
                | Some (ret, bs, st) \<Rightarrow> Some (ret, bs, count_read a ret st)))"

definition BIO_gets :: "nat option \<Rightarrow> int \<Rightarrow> bio_state \<Rightarrow> int \<times> byte list \<times> bio_state" where
  "BIO_gets a len st =
     (case a of None \<Rightarrow> (-2, [], put_error UNSUPPORTED_METHOD st)
      | Some a \<Rightarrow>
          (if bi_method (the_bio st a) = BIO_PAIR then (-2, [], put_error UNSUPPORTED_METHOD st)
           else if \<not> bi_init (the_bio st a) then (-2, [], put_error UNINITIALIZED st)
           else if len \<le> 0 then (0, [], st)
           else case mem_gets (the_bio st a) len of
                  (ret, bs, b) \<Rightarrow> (ret, bs, count_read a ret (put_bio a b st))))"

definition method_write :: "nat \<Rightarrow> byte list \<Rightarrow> (nat \<Rightarrow> bool) \<Rightarrow> bio_state \<Rightarrow> (int \<times> bio_state) option" where
  "method_write a inp alloc st =
     (case bi_method (the_bio st a) of
        BIO_PAIR \<Rightarrow> bio_write a inp st
      | BIO_MEM \<Rightarrow>
          (case mem_write (the_bio st a) inp alloc of (ret, es, b) \<Rightarrow> Some (ret, fold put_error es (put_bio a b st))))"

definition BIO_write :: "nat option \<Rightarrow> byte list \<Rightarrow> (nat \<Rightarrow> bool) \<Rightarrow> bio_state \<Rightarrow> (int \<times> bio_state) option" where
  "BIO_write a inp alloc st =
     (case a of None \<Rightarrow> Some (-2, put_error UNSUPPORTED_METHOD st)
      | Some a \<Rightarrow>
          (if \<not> bi_init (the_bio st a) then Some (-2, put_error UNINITIALIZED st)
           else if length inp = 0 then Some (0, st)
           else case method_write a inp alloc st of
                  None \<Rightarrow> None
                | Some (ret, st) \<Rightarrow> Some (ret, count_write a ret st)))"

definition BIO_puts :: "nat option \<Rightarrow> byte list \<Rightarrow> (nat \<Rightarrow> bool) \<Rightarrow> bio_state \<Rightarrow> (int \<times> bio_state) option" where
  "BIO_puts a inp alloc st = BIO_write a inp alloc st"

partial_function (option) BIO_write_all :: "nat option \<Rightarrow> byte list \<Rightarrow> (nat \<Rightarrow> bool) \<Rightarrow> bio_state \<Rightarrow> (bool \<times> bio_state) option" where
  "BIO_write_all a data alloc st =
     (if length data = 0 then Some (True, st)
      else case BIO_write a (take (nat INT_MAX) data) alloc st of
             None \<Rightarrow> None
           | Some (ret, st) \<Rightarrow>
               (if ret \<le> 0 then Some (False, st) else BIO_write_all a (drop (nat ret) data) alloc st))"

definition BIO_ctrl :: "nat option \<Rightarrow> bio_cmd \<Rightarrow> bio_state \<Rightarrow> int \<times> bio_state" where
  "BIO_ctrl a cmd st =
     (case a of None \<Rightarrow> (0, st)
      | Some a \<Rightarrow>
          (case bi_method (the_bio st a) of
             BIO_PAIR \<Rightarrow> bio_ctrl a cmd st
           | BIO_MEM \<Rightarrow> (case mem_ctrl (the_bio st a) cmd of (ret, b) \<Rightarrow> (ret, put_bio a b st))))"

definition BIO_flush :: "nat option \<Rightarrow> bio_state \<Rightarrow> int \<times> bio_state" where
  "BIO_flush a = BIO_ctrl a CTRL_FLUSH"

definition BIO_reset :: "nat option \<Rightarrow> bio_state \<Rightarrow> int \<times> bio_state" where
  "BIO_reset a = BIO_ctrl a CTRL_RESET"

definition BIO_eof :: "nat option \<Rightarrow> bio_state \<Rightarrow> int \<times> bio_state" where
  "BIO_eof a = BIO_ctrl a (CTRL_EOF None)"

definition BIO_pending :: "nat option \<Rightarrow> bio_state \<Rightarrow> nat" where
  "BIO_pending a st = (let r = fst (BIO_ctrl a CTRL_PENDING st) in if r < 0 then 0 else nat r)"

definition BIO_wpending :: "nat option \<Rightarrow> bio_state \<Rightarrow> nat" where
  "BIO_wpending a st = (let r = fst (BIO_ctrl a CTRL_WPENDING st) in if r < 0 then 0 else nat r)"

definition BIO_set_close :: "nat option \<Rightarrow> int \<Rightarrow> bio_state \<Rightarrow> int \<times> bio_state" where
  "BIO_set_close a close_flag = BIO_ctrl a (CTRL_SET_CLOSE close_flag)"

definition BIO_shutdown_wr :: "nat option \<Rightarrow> bio_state \<Rightarrow> int \<times> bio_state" where
  "BIO_shutdown_wr a = BIO_ctrl a C_SHUTDOWN_WR"

definition BIO_ctrl_get_read_request :: "nat option \<Rightarrow> bio_state \<Rightarrow> int" where
  "BIO_ctrl_get_read_request a st = fst (BIO_ctrl a C_GET_READ_REQUEST st)"

definition BIO_ctrl_get_write_guarantee :: "nat option \<Rightarrow> bio_state \<Rightarrow> int" where
  "BIO_ctrl_get_write_guarantee a st = fst (BIO_ctrl a C_GET_WRITE_GUARANTEE st)"

definition BIO_new_mem_buf :: "byte list option \<Rightarrow> int \<Rightarrow> (nat \<Rightarrow> bool) \<Rightarrow> bio_state \<Rightarrow> nat option \<times> bio_state" where
  "BIO_new_mem_buf buf len alloc st =
     (let sz = (if len < 0 then length (takeWhile (\<lambda>b. b \<noteq> 0) (the buf)) else nat len)
      in if buf = None \<and> len \<noteq> 0 then (None, put_error NULL_PARAMETER st)
         else case BIO_new BIO_MEM alloc st of
                (None, st) \<Rightarrow> (None, st)
              | (Some a, st) \<Rightarrow>
                  (Some a, upd_bio a (\<lambda>b. b\<lparr>bi_ptr := Mem_ptr [] \<lparr>bm_length = sz, bm_data = map_option (take sz) buf, bm_max = sz\<rparr>,
                                            bi_flags := bi_flags b OR BIO_FLAGS_MEM_RDONLY, bi_num := 0\<rparr>) st))"

definition BIO_new_bio_pair :: "nat \<Rightarrow> nat \<Rightarrow> (nat \<Rightarrow> bool) \<Rightarrow> bio_state \<Rightarrow> ((nat \<times> nat) option \<times> bio_state) option" where
  "BIO_new_bio_pair writebuf1_len writebuf2_len alloc st =
     (case BIO_new BIO_PAIR alloc st of
        (bio1, st) \<Rightarrow>
          (case BIO_new BIO_PAIR alloc st of
             (bio2, st) \<Rightarrow>
               (let (ok, st) = (case (bio1, bio2) of
                        (Some a1, Some a2) \<Rightarrow> bio_make_pair a1 a2 writebuf1_len writebuf2_len alloc st
                      | _ \<Rightarrow> (False, st))
                in if \<not> ok then
                     (case BIO_free bio1 st of
                        None \<Rightarrow> None
                      | Some (r1, st) \<Rightarrow> (case BIO_free bio2 st of None \<Rightarrow> None | Some (r2, st) \<Rightarrow> Some (None, st)))
                   else Some (Some (the bio1, the bio2), st))))"

text \<open>The last BIO of a chain; \<open>None\<close> if the chain never ends.\<close>

partial_function (option) last_bio :: "nat \<Rightarrow> bio_state \<Rightarrow> nat option" where
  "last_bio a st = (case bi_next (the_bio st a) of None \<Rightarrow> Some a | Some n \<Rightarrow> last_bio n st)"

definition BIO_push :: "nat option \<Rightarrow> nat option \<Rightarrow> bio_state \<Rightarrow> (nat option \<times> bio_state) option" where
  "BIO_push a appended st =
     (case a of None \<Rightarrow> Some (None, st)
      | Some a \<Rightarrow>
          (case last_bio a st of
             None \<Rightarrow> None
           | Some l \<Rightarrow> Some (Some a, upd_bio l (\<lambda>b. b\<lparr>bi_next := appended\<rparr>) st)))"

definition BIO_next :: "nat option \<Rightarrow> bio_state \<Rightarrow> nat option" where
  "BIO_next a st = (case a of None \<Rightarrow> None | Some a \<Rightarrow> bi_next (the_bio st a))"

definition BIO_number_read :: "nat \<Rightarrow> bio_state \<Rightarrow> nat" where
  "BIO_number_read a st = bi_num_read (the_bio st a)"

definition BIO_number_written :: "nat \<Rightarrow> bio_state \<Rightarrow> nat" where
  "BIO_number_written a st = bi_num_write (the_bio st a)"

definition BIO_set_retry_special :: "bio \<Rightarrow> bio" where
  "BIO_set_retry_special b = b\<lparr>bi_flags := bi_flags b OR (BIO_FLAGS_READ OR BIO_FLAGS_IO_SPECIAL)\<rparr>"

text \<open>The next BIO is there.\<close>

definition BIO_copy_next_retry :: "nat \<Rightarrow> bio_state \<Rightarrow> bio_state" where
  "BIO_copy_next_retry a st =
     (let n = the_bio st (the (bi_next (the_bio st a)))
      in upd_bio a (\<lambda>b. (BIO_set_flags (BIO_get_retry_flags n) (BIO_clear_retry_flags b))\<lparr>bi_retry_reason := bi_retry_reason n\<rparr>) st)"

definition BIO_TYPE_MEM :: u32 where "BIO_TYPE_MEM = 1 OR 0x0400"
definition BIO_TYPE_BIO :: u32 where "BIO_TYPE_BIO = 19 OR 0x0400"

definition BIO_method_type :: "bio \<Rightarrow> u32" where
  "BIO_method_type b = (case bi_method b of BIO_PAIR \<Rightarrow> BIO_TYPE_BIO | BIO_MEM \<Rightarrow> BIO_TYPE_MEM)"

text \<open>The loop ends when the chain does.\<close>

partial_function (option) BIO_find_type :: "nat option \<Rightarrow> u32 \<Rightarrow> bio_state \<Rightarrow> nat option option" where
  "BIO_find_type a ty st =
     (case a of None \<Rightarrow> Some None
      | Some a \<Rightarrow>
          (let method_type = BIO_method_type (the_bio st a)
           in if ty AND 0xff = 0 \<and> method_type AND ty \<noteq> 0 \<or> ty AND 0xff \<noteq> 0 \<and> method_type = ty then Some (Some a)
              else BIO_find_type (bi_next (the_bio st a)) ty st))"

fun bio_spaces :: "nat option \<Rightarrow> nat \<Rightarrow> (nat \<Rightarrow> bool) \<Rightarrow> bio_state \<Rightarrow> (bool \<times> bio_state) option" where
  "bio_spaces a 0 alloc st = Some (True, st)"
| "bio_spaces a (Suc n) alloc st =
     (case BIO_puts a [0x20] alloc st of
        None \<Rightarrow> None
      | Some (r, st) \<Rightarrow> if r \<noteq> 1 then Some (False, st) else bio_spaces a n alloc st)"

definition BIO_indent :: "nat option \<Rightarrow> nat \<Rightarrow> nat \<Rightarrow> (nat \<Rightarrow> bool) \<Rightarrow> bio_state \<Rightarrow> (bool \<times> bio_state) option" where
  "BIO_indent a indent max_indent alloc st = bio_spaces a (if indent > max_indent then max_indent else indent) alloc st"

section \<open>Rules\<close>

lemma bio_simps [simp]:
  "the_bio (put_bio a b st) c = (if c = a then b else the_bio st c)"
  "the_bio (put_error e st) c = the_bio st c"
  "put_bio a b (put_bio a b' st) = put_bio a b st"
  "pair_of (b\<lparr>bi_ptr := Pair_ptr p\<rparr>) = p"
  "pair_of (BIO_clear_retry_flags b) = pair_of b"
  "pair_of (BIO_set_retry_read b) = pair_of b"
  "pair_of (BIO_set_retry_write b) = pair_of b"
  "pair_of (b\<lparr>bi_num_read := n\<rparr>) = pair_of b"
  "pair_of (b\<lparr>bi_num_write := n\<rparr>) = pair_of b"
  "BIO_get_retry_flags (b\<lparr>bi_ptr := x\<rparr>) = BIO_get_retry_flags b"
  "BIO_get_retry_flags (b\<lparr>bi_num_read := n\<rparr>) = BIO_get_retry_flags b"
  "BIO_get_retry_flags (b\<lparr>bi_num_write := n\<rparr>) = BIO_get_retry_flags b"
  by (auto simp: put_bio_def the_bio_def put_error_def pair_of_def BIO_clear_retry_flags_def BIO_set_retry_read_def
      BIO_set_retry_write_def BIO_get_retry_flags_def)

lemma bio_fields [simp]:
  "bi_method (BIO_clear_retry_flags b) = bi_method b" "bi_init (BIO_clear_retry_flags b) = bi_init b"
  "bi_ptr (BIO_clear_retry_flags b) = bi_ptr b" "bi_num_read (BIO_clear_retry_flags b) = bi_num_read b"
  "bi_num_write (BIO_clear_retry_flags b) = bi_num_write b"
  "bi_method (BIO_set_retry_read b) = bi_method b" "bi_init (BIO_set_retry_read b) = bi_init b"
  "bi_ptr (BIO_set_retry_read b) = bi_ptr b" "bi_num_read (BIO_set_retry_read b) = bi_num_read b"
  "bi_num_write (BIO_set_retry_read b) = bi_num_write b"
  "bi_method (BIO_set_retry_write b) = bi_method b" "bi_init (BIO_set_retry_write b) = bi_init b"
  "bi_ptr (BIO_set_retry_write b) = bi_ptr b" "bi_num_read (BIO_set_retry_write b) = bi_num_read b"
  "bi_num_write (BIO_set_retry_write b) = bi_num_write b"
  by (simp_all add: BIO_clear_retry_flags_def BIO_set_retry_read_def BIO_set_retry_write_def)

lemma retry_ptr [simp]:
  "BIO_set_retry_read (b\<lparr>bi_ptr := x\<rparr>) = (BIO_set_retry_read b)\<lparr>bi_ptr := x\<rparr>"
  "BIO_set_retry_write (b\<lparr>bi_ptr := x\<rparr>) = (BIO_set_retry_write b)\<lparr>bi_ptr := x\<rparr>"
  by (simp_all add: BIO_set_retry_read_def BIO_set_retry_write_def)

lemma retry_flags [simp]:
  "BIO_get_retry_flags (BIO_clear_retry_flags b) = 0"
  "BIO_get_retry_flags (BIO_set_retry_read (BIO_clear_retry_flags b)) = BIO_FLAGS_READ OR BIO_FLAGS_SHOULD_RETRY"
  "BIO_get_retry_flags (BIO_set_retry_write (BIO_clear_retry_flags b)) = BIO_FLAGS_WRITE OR BIO_FLAGS_SHOULD_RETRY"
  by (rule bit_word_eqI; auto simp: BIO_get_retry_flags_def BIO_clear_retry_flags_def BIO_set_retry_read_def
      BIO_set_retry_write_def kRetryFlags_def BIO_FLAGS_RWS_def bit_simps)+

section \<open>Channels\<close>

text \<open>
  What a one-way byte channel promises: bytes are accepted from the front of the data, wait in order
  and are handed out from the front.
\<close>

locale byte_channel =
  fixes snd_bytes :: "'s \<Rightarrow> byte list \<Rightarrow> int \<times> 's"
    and rcv_bytes :: "'s \<Rightarrow> int \<Rightarrow> int \<times> byte list \<times> 's"
    and waiting :: "'s \<Rightarrow> byte list"
    and usable :: "'s \<Rightarrow> bool"
  assumes snd_law: "usable s \<Longrightarrow> snd_bytes s d = (r, s') \<Longrightarrow>
      usable s' \<and> nat r \<le> length d \<and> waiting s' = waiting s @ take (nat r) d"
    and rcv_law: "usable s \<Longrightarrow> rcv_bytes s n = (r, bs, s') \<Longrightarrow> usable s' \<and> bs @ waiting s' = waiting s"

text \<open>A run of the channel: what was accepted and what was received.\<close>

datatype channel_op = Snd "byte list" | Rcv int

fun run_channel ::
  "('s \<Rightarrow> byte list \<Rightarrow> int \<times> 's) \<Rightarrow> ('s \<Rightarrow> int \<Rightarrow> int \<times> byte list \<times> 's) \<Rightarrow> channel_op list \<Rightarrow> 's \<Rightarrow>
   byte list \<times> byte list \<times> 's"
where
  "run_channel snd_bytes rcv_bytes [] s = ([], [], s)"
| "run_channel snd_bytes rcv_bytes (Snd d # ops) s =
     (case snd_bytes s d of (r, s1) \<Rightarrow>
        case run_channel snd_bytes rcv_bytes ops s1 of (acc, out, s2) \<Rightarrow> (take (nat r) d @ acc, out, s2))"
| "run_channel snd_bytes rcv_bytes (Rcv n # ops) s =
     (case rcv_bytes s n of (r, bs, s1) \<Rightarrow>
        case run_channel snd_bytes rcv_bytes ops s1 of (acc, out, s2) \<Rightarrow> (acc, bs @ out, s2))"

context byte_channel
begin

lemma conserved:
  "usable s \<Longrightarrow> run_channel snd_bytes rcv_bytes ops s = (acc, out, s') \<Longrightarrow> usable s' \<and> waiting s @ acc = out @ waiting s'"
proof (induction ops arbitrary: s acc out)
  case (Cons op ops)
  show ?case
  proof (cases op)
    case (Snd d)
    obtain r s1 where 1: "snd_bytes s d = (r, s1)" by fastforce
    obtain acc1 where 2: "run_channel snd_bytes rcv_bytes ops s1 = (acc1, out, s')" "acc = take (nat r) d @ acc1"
      using Cons.prems(2) 1 Snd by (auto split: prod.splits)
    from snd_law [OF Cons.prems(1) 1] Cons.IH [OF _ 2(1)] 2(2) show ?thesis by simp
  next
    case (Rcv n)
    obtain r bs s1 where 1: "rcv_bytes s n = (r, bs, s1)" by (metis prod_cases3)
    obtain out1 where 2: "run_channel snd_bytes rcv_bytes ops s1 = (acc, out1, s')" "out = bs @ out1"
      using Cons.prems(2) 1 Rcv by (auto split: prod.splits)
    from rcv_law [OF Cons.prems(1) 1] Cons.IH [OF _ 2(1)] 2(2) show ?thesis by (metis append.assoc)
  qed
qed simp

end


end
