(* ===== verification/Bio_Pair.thy ===== *)
theory Bio_Pair
  imports Bio
begin

text \<open>
  BIO pairs are two bounded queues. The ring buffer of a half is related to the list of bytes that
  wait in it; every operation of a pair computes what it computes on the queues, so that bytes are
  neither lost, nor reordered, nor invented, and writers make progress while readers read.
\<close>

lemma reference_fields [simp]:
  "bi_references (BIO_clear_retry_flags b) = bi_references b" "bi_next (BIO_clear_retry_flags b) = bi_next b"
  "bi_references (BIO_set_retry_read b) = bi_references b" "bi_next (BIO_set_retry_read b) = bi_next b"
  "bi_references (BIO_set_retry_write b) = bi_references b" "bi_next (BIO_set_retry_write b) = bi_next b"
  by (simp_all add: BIO_clear_retry_flags_def BIO_set_retry_read_def BIO_set_retry_write_def)

section \<open>The ring\<close>

definition ring_ok :: "bio_bio \<Rightarrow> bool" where
  "ring_ok p \<longleftrightarrow> bbuf p \<noteq> None \<and> length (the (bbuf p)) = bsize p \<and> boffset p < bsize p \<and> blen p \<le> bsize p \<and>
     (blen p = 0 \<longrightarrow> boffset p = 0)"

definition ring_queue :: "bio_bio \<Rightarrow> byte list" where
  "ring_queue p = take (blen p) (drop (boffset p) (the (bbuf p)) @ take (boffset p) (the (bbuf p)))"

lemma length_ring_queue: "ring_ok p \<Longrightarrow> length (ring_queue p) = blen p"
  by (auto simp: ring_ok_def ring_queue_def)

lemma ring_advance:
  assumes "ring_ok p" "0 < n" "n \<le> blen p" "boffset p + n \<le> bsize p"
    and "p' = (if blen p - n \<noteq> 0
               then p\<lparr>blen := blen p - n, boffset := (if boffset p + n = bsize p then 0 else boffset p + n)\<rparr>
               else p\<lparr>blen := blen p - n, boffset := 0\<rparr>)"
  shows "ring_ok p' \<and> ring_queue p' = drop n (ring_queue p) \<and> take n (drop (boffset p) (the (bbuf p))) = take n (ring_queue p)"
proof -
  obtain buf where buf: "bbuf p = Some buf" "length buf = bsize p" using assms(1) by (auto simp: ring_ok_def)
  let ?o = "boffset p" and ?l = "blen p"
  have o: "?o < bsize p" "?l \<le> bsize p" using assms(1) by (auto simp: ring_ok_def)
  have "drop n (ring_queue p) = take (?l - n) (drop (?o + n) buf @ take ?o buf)"
  proof -
    have "drop n (drop ?o buf @ take ?o buf) = drop (?o + n) buf @ take ?o buf"
      using assms(4) buf by (simp add: add.commute)
    then show ?thesis by (simp only: ring_queue_def buf option.sel drop_take)
  qed
  moreover have "ring_queue p' = take (?l - n) (drop (?o + n) buf @ take ?o buf)"
  proof (cases "?l - n = 0")
    case True
    then show ?thesis using assms(5) buf by (simp add: ring_queue_def)
  next
    case False
    show ?thesis
    proof (cases "?o + n = bsize p")
      case True
      then have "?l - n \<le> ?o" using o by simp
      then show ?thesis using False True assms(5) buf by (simp add: ring_queue_def min_def)
    next
      case ne: False
      have "take (?o + n) buf = take ?o buf @ take n (drop ?o buf)" by (simp add: take_add)
      moreover have "?l - n - (bsize p - (?o + n)) \<le> ?o" using o assms(3,4) by simp
      ultimately show ?thesis using False ne assms(5) buf o by (simp add: ring_queue_def)
    qed
  qed
  moreover have "take n (drop ?o buf) = take n (ring_queue p)"
  proof -
    have "n \<le> bsize p - ?o" using assms(4) o by simp
    then show ?thesis using assms(3) buf by (simp add: ring_queue_def min_def)
  qed
  moreover have "ring_ok p'" using assms o by (auto simp: ring_ok_def)
  ultimately show ?thesis using buf by simp
qed

definition same_fields :: "bio_bio \<Rightarrow> bio_bio \<Rightarrow> bool" where
  "same_fields p p' \<longleftrightarrow> peer p' = peer p \<and> closed p' = closed p \<and> bsize p' = bsize p \<and> request p' = request p"

lemma read_ring_last:
  assumes "ring_ok p" "0 < n" "n \<le> blen p" "boffset p + n \<le> bsize p"
  shows "\<exists>p'. read_ring p n out = Some (out @ take n (ring_queue p), p') \<and> ring_ok p' \<and>
    ring_queue p' = drop n (ring_queue p) \<and> same_fields p p'"
proof -
  define p' where "p' = (if blen p - n \<noteq> 0
               then p\<lparr>blen := blen p - n, boffset := (if boffset p + n = bsize p then 0 else boffset p + n)\<rparr>
               else p\<lparr>blen := blen p - n, boffset := 0\<rparr>)"
  note a = ring_advance [OF assms p'_def]
  have "read_ring p n out = Some (out @ take n (drop (boffset p) (the (bbuf p))), p')"
    using assms(4) by (subst read_ring.simps) (simp add: Let_def p'_def)
  then show ?thesis using a by (auto simp: same_fields_def p'_def)
qed

lemma read_ring_exact:
  assumes "ring_ok p" "0 < n" "n \<le> blen p"
  shows "\<exists>p'. read_ring p n out = Some (out @ take n (ring_queue p), p') \<and> ring_ok p' \<and>
    ring_queue p' = drop n (ring_queue p) \<and> same_fields p p'"
proof (cases "boffset p + n \<le> bsize p")
  case True
  then show ?thesis using read_ring_last [OF assms] by blast
next
  case False
  define k where "k = bsize p - boffset p"
  define p1 where "p1 = (if blen p - k \<noteq> 0
               then p\<lparr>blen := blen p - k, boffset := (if boffset p + k = bsize p then 0 else boffset p + k)\<rparr>
               else p\<lparr>blen := blen p - k, boffset := 0\<rparr>)"
  have k: "0 < k" "k < n" "boffset p + k = bsize p" using False assms by (auto simp: k_def ring_ok_def)
  note a = ring_advance [OF assms(1) k(1) _ _ p1_def]
  have a: "ring_ok p1" "ring_queue p1 = drop k (ring_queue p)" "take k (drop (boffset p) (the (bbuf p))) = take k (ring_queue p)"
    using a k assms(3) by auto
  have r: "read_ring p n out = read_ring p1 (n - k) (out @ take k (drop (boffset p) (the (bbuf p))))"
    using False k by (subst read_ring.simps) (simp add: Let_def p1_def k_def [symmetric])
  have p1: "boffset p1 = 0" "blen p1 = blen p - k" "bsize p1 = bsize p" "same_fields p p1"
    using k assms(3) by (auto simp: p1_def same_fields_def)
  have "0 < n - k" "n - k \<le> blen p1" "boffset p1 + (n - k) \<le> bsize p1"
    using k assms p1 by (auto simp: ring_ok_def)
  from read_ring_last [OF a(1) this] obtain p' where
    p': "read_ring p1 (n - k) (out @ take k (ring_queue p)) = Some ((out @ take k (ring_queue p)) @ take (n - k) (ring_queue p1), p')"
      "ring_ok p'" "ring_queue p' = drop (n - k) (ring_queue p1)" "same_fields p1 p'" by blast
  have "take k (ring_queue p) @ take (n - k) (drop k (ring_queue p)) = take n (ring_queue p)"
    using k(2) by (metis less_imp_le_nat ordered_cancel_comm_monoid_diff_class.add_diff_inverse take_add)
  then show ?thesis using r p' a p1(4) k(2) by (auto simp: same_fields_def)
qed

lemma ring_extend:
  assumes "ring_ok p" "bs \<noteq> []" "blen p + length bs \<le> bsize p"
    and "w = (if boffset p + blen p \<ge> bsize p then boffset p + blen p - bsize p else boffset p + blen p)"
    and "w + length bs \<le> bsize p"
    and "p' = p\<lparr>bbuf := Some (put_bytes (the (bbuf p)) w bs), blen := blen p + length bs\<rparr>"
  shows "ring_ok p' \<and> ring_queue p' = ring_queue p @ bs \<and> same_fields p p' \<and> boffset p' = boffset p"
proof -
  obtain buf where buf: "bbuf p = Some buf" "length buf = bsize p" using assms(1) by (auto simp: ring_ok_def)
  let ?o = "boffset p" and ?l = "blen p" and ?n = "length bs"
  have o: "?o < bsize p" "?l \<le> bsize p" using assms(1) by (auto simp: ring_ok_def)
  have ok: "ring_ok p'" using assms buf o length_put_bytes [of w bs buf] by (auto simp: ring_ok_def)
  have "ring_queue p' = ring_queue p @ bs"
  proof (cases "?o + ?l \<ge> bsize p")
    case False
    then have w: "w = ?o + ?l" using assms(4) by simp
    have "drop ?o (put_bytes buf w bs) = take ?l (drop ?o buf) @ bs @ drop (w + ?n) buf"
      using w buf assms(5) by (simp add: put_bytes_def drop_take)
    then show ?thesis using assms(6) buf w False by (simp add: ring_queue_def)
  next
    case True
    then have w: "w + bsize p = ?o + ?l" "w + ?n \<le> ?o" using assms(3,4) by auto
    have "w < ?o" using w(2) assms(2) by (cases bs) auto
    then have d: "drop ?o (put_bytes buf w bs) = drop ?o buf"
      using w(2) buf o by (simp add: put_bytes_def not_le)
    have t: "take (w + ?n) (take ?o (put_bytes buf w bs)) = take w buf @ bs"
      using w(2) take_put_bytes [of w buf bs] buf o by (simp add: min_absorb1)
    have l: "?l + ?n - (bsize p - ?o) = w + ?n" "?l - (bsize p - ?o) = w" "bsize p - ?o \<le> ?l" using w o by auto
    have "ring_queue p' = drop ?o buf @ take (w + ?n) (take ?o (put_bytes buf w bs))"
      using assms(6) buf d l by (simp add: ring_queue_def)
    moreover have "ring_queue p = drop ?o buf @ take w buf"
      using buf l w(2) by (simp add: ring_queue_def min_def)
    ultimately show ?thesis using t by simp
  qed
  then show ?thesis using ok assms(6) by (simp add: same_fields_def)
qed

lemma write_ring_exact:
  assumes "ring_ok p" "bs \<noteq> []" "blen p + length bs \<le> bsize p"
  shows "\<exists>p'. write_ring p bs = Some p' \<and> ring_ok p' \<and> ring_queue p' = ring_queue p @ bs \<and> same_fields p p'"
proof -
  define w where "w = (if boffset p + blen p \<ge> bsize p then boffset p + blen p - bsize p else boffset p + blen p)"
  show ?thesis
  proof (cases "w + length bs \<le> bsize p")
    case True
    have "write_ring p bs = Some (p\<lparr>bbuf := Some (put_bytes (the (bbuf p)) w bs), blen := blen p + length bs\<rparr>)"
      using True by (subst write_ring.simps) (simp add: Let_def w_def [symmetric])
    then show ?thesis using ring_extend [OF assms w_def True refl] by blast
  next
    case False
    define k where "k = bsize p - w"
    have o: "boffset p < bsize p" "blen p < bsize p" using assms by (auto simp: ring_ok_def neq_Nil_conv)
    have w: "w = boffset p + blen p" "w < bsize p" using False o assms(3) by (auto simp: w_def split: if_splits)
    have k: "0 < k" "k < length bs" "w + k = bsize p" using w False by (auto simp: k_def)
    define p1 where "p1 = p\<lparr>bbuf := Some (put_bytes (the (bbuf p)) w (take k bs)), blen := blen p + length (take k bs)\<rparr>"
    have t: "take k bs \<noteq> []" "length (take k bs) = k" using k by auto
    have p1: "ring_ok p1" "ring_queue p1 = ring_queue p @ take k bs" "same_fields p p1" "boffset p1 = boffset p"
      using ring_extend [OF assms(1) t(1) _ w_def _ p1_def] t(2) assms(3) k by auto
    have r: "write_ring p bs = write_ring p1 (drop k bs)"
      using False k t(2) by (subst write_ring.simps) (simp add: Let_def w_def [symmetric] k_def [symmetric] p1_def)
    have s: "bsize p1 = bsize p" "blen p1 = blen p + k" using t(2) by (simp_all add: p1_def)
    define p2 where "p2 = p1\<lparr>bbuf := Some (put_bytes (the (bbuf p1)) 0 (drop k bs)), blen := blen p1 + length (drop k bs)\<rparr>"
    have w1: "0 = (if boffset p1 + blen p1 \<ge> bsize p1 then boffset p1 + blen p1 - bsize p1 else boffset p1 + blen p1)"
      using s p1(4) w k by simp
    have e: "boffset p1 + blen p1 = bsize p1" "length (drop k bs) \<le> bsize p1"
      using s p1(4) w k assms(3) by simp_all
    have r1: "write_ring p1 (drop k bs) = Some p2"
      using e k(2) by (subst write_ring.simps) (simp add: Let_def p2_def)
    have p2: "ring_ok p2" "ring_queue p2 = ring_queue p1 @ drop k bs" "same_fields p1 p2"
      using ring_extend [OF p1(1) _ _ w1 _ p2_def] k s assms(3) by auto
    show ?thesis using r r1 p2 p1 by (auto simp: same_fields_def)
  qed
qed


section \<open>The abstract pair\<close>

text \<open>What is written to one side and not yet read from the other, and what the side shows.\<close>

record half =
  h_queue :: "byte list"
  h_cap :: nat
  h_closed :: bool
  h_request :: nat
  h_flags :: u32
  h_read :: nat
  h_written :: nat

definition spec_write :: "byte list \<Rightarrow> half \<Rightarrow> int \<times> half" where
  "spec_write d h =
     (let h0 = h\<lparr>h_request := 0, h_flags := 0\<rparr>; n = min (length d) (h_cap h - length (h_queue h))
      in if d = [] then (0, h)
         else if h_closed h then (-1, h0)
         else if n = 0 then (-1, h0\<lparr>h_flags := BIO_FLAGS_WRITE OR BIO_FLAGS_SHOULD_RETRY\<rparr>)
         else (int n, h0\<lparr>h_queue := h_queue h @ take n d, h_written := (h_written h + n) mod size_mod\<rparr>))"

definition spec_read :: "int \<Rightarrow> half \<Rightarrow> half \<Rightarrow> (int \<times> byte list) \<times> half \<times> half" where
  "spec_read len h g =
     (let h0 = h\<lparr>h_flags := 0\<rparr>; g0 = g\<lparr>h_request := 0\<rparr>; n = min (nat len) (length (h_queue g))
      in if len \<le> 0 then ((0, []), h, g)
         else if n > 0 then
           ((int n, take n (h_queue g)), h0\<lparr>h_read := (h_read h + n) mod size_mod\<rparr>, g0\<lparr>h_queue := drop n (h_queue g)\<rparr>)
         else if h_closed g then ((0, []), h0, g0)
         else ((-1, []), h0\<lparr>h_flags := BIO_FLAGS_READ OR BIO_FLAGS_SHOULD_RETRY\<rparr>, g0\<lparr>h_request := min (nat len) (h_cap g)\<rparr>))"

datatype side = Side1 | Side2

definition other :: "side \<Rightarrow> side" where
  "other s = (case s of Side1 \<Rightarrow> Side2 | Side2 \<Rightarrow> Side1)"

datatype pair_op =
    Write side "byte list" | Read side int | Shutdown side | Reset_request side
  | Pending side | Wpending side | Guarantee side | Request side | Retry_flags side | Number_read side | Number_written side

datatype pair_result = Ret int "byte list" | Flags u32 | Count nat

fun pair_step :: "pair_op \<Rightarrow> (side \<Rightarrow> half) \<Rightarrow> pair_result \<times> (side \<Rightarrow> half)" where
  "pair_step (Write s d) f = (case spec_write d (f s) of (r, h) \<Rightarrow> (Ret r [], f(s := h)))"
| "pair_step (Read s n) f =
     (case spec_read n (f s) (f (other s)) of ((r, bs), h, g) \<Rightarrow> (Ret r bs, f(s := h, other s := g)))"
| "pair_step (Shutdown s) f = (Ret 1 [], f(s := (f s)\<lparr>h_closed := True\<rparr>))"
| "pair_step (Reset_request s) f = (Ret 1 [], f(s := (f s)\<lparr>h_request := 0\<rparr>))"
| "pair_step (Pending s) f = (Count (length (h_queue (f (other s)))), f)"
| "pair_step (Wpending s) f = (Count (length (h_queue (f s))), f)"
| "pair_step (Guarantee s) f =
     (Ret (if h_closed (f s) then 0 else int (h_cap (f s)) - int (length (h_queue (f s)))) [], f)"
| "pair_step (Request s) f = (Ret (int (h_request (f s))) [], f)"
| "pair_step (Retry_flags s) f = (Flags (h_flags (f s)), f)"
| "pair_step (Number_read s) f = (Count (h_read (f s)), f)"
| "pair_step (Number_written s) f = (Count (h_written (f s)), f)"

fun run_pair :: "(side \<Rightarrow> nat) \<Rightarrow> (nat \<Rightarrow> bool) \<Rightarrow> pair_op \<Rightarrow> bio_state \<Rightarrow> (pair_result \<times> bio_state) option" where
  "run_pair a alloc (Write s d) st = map_option (\<lambda>(r, st). (Ret r [], st)) (BIO_write (Some (a s)) d alloc st)"
| "run_pair a alloc (Read s n) st = map_option (\<lambda>(r, bs, st). (Ret r bs, st)) (BIO_read (Some (a s)) n st)"
| "run_pair a alloc (Shutdown s) st = (case BIO_shutdown_wr (Some (a s)) st of (r, st) \<Rightarrow> Some (Ret r [], st))"
| "run_pair a alloc (Reset_request s) st =
     (case BIO_ctrl (Some (a s)) C_RESET_READ_REQUEST st of (r, st) \<Rightarrow> Some (Ret r [], st))"
| "run_pair a alloc (Pending s) st = Some (Count (BIO_pending (Some (a s)) st), st)"
| "run_pair a alloc (Wpending s) st = Some (Count (BIO_wpending (Some (a s)) st), st)"
| "run_pair a alloc (Guarantee s) st = Some (Ret (BIO_ctrl_get_write_guarantee (Some (a s)) st) [], st)"
| "run_pair a alloc (Request s) st = Some (Ret (BIO_ctrl_get_read_request (Some (a s)) st) [], st)"
| "run_pair a alloc (Retry_flags s) st = Some (Flags (BIO_get_retry_flags (the_bio st (a s))), st)"
| "run_pair a alloc (Number_read s) st = Some (Count (BIO_number_read (a s) st), st)"
| "run_pair a alloc (Number_written s) st = Some (Count (BIO_number_written (a s) st), st)"

section \<open>The correspondence\<close>

definition half_of :: "bio \<Rightarrow> half" where
  "half_of b =
     \<lparr>h_queue = ring_queue (pair_of b), h_cap = bsize (pair_of b), h_closed = closed (pair_of b),
      h_request = request (pair_of b), h_flags = BIO_get_retry_flags b, h_read = bi_num_read b, h_written = bi_num_write b\<rparr>"

definition half_ok :: "bio \<Rightarrow> nat \<Rightarrow> bool" where
  "half_ok b y \<longleftrightarrow> bi_method b = BIO_PAIR \<and> bi_init b \<and> bi_references b = 1 \<and> bi_next b = None \<and> bi_ptr b = Pair_ptr (pair_of b) \<and> peer (pair_of b) = Some y \<and>
     ring_ok (pair_of b) \<and> (request (pair_of b) \<noteq> 0 \<longrightarrow> blen (pair_of b) = 0 \<and> request (pair_of b) \<le> bsize (pair_of b))"

definition pair_inv :: "(side \<Rightarrow> nat) \<Rightarrow> bio_state \<Rightarrow> bool" where
  "pair_inv a st \<longleftrightarrow> a Side1 \<noteq> a Side2 \<and> (\<forall>s. half_ok (the_bio st (a s)) (a (other s)))"

definition abs_pair :: "(side \<Rightarrow> nat) \<Rightarrow> bio_state \<Rightarrow> side \<Rightarrow> half" where
  "abs_pair a st s = half_of (the_bio st (a s))"

lemma write_half:
  assumes "half_ok (the_bio st x) y"
  shows "\<exists>r st'. BIO_write (Some x) d alloc st = Some (r, st') \<and> half_ok (the_bio st' x) y \<and>
    (\<forall>z. z \<noteq> x \<longrightarrow> the_bio st' z = the_bio st z) \<and> spec_write d (half_of (the_bio st x)) = (r, half_of (the_bio st' x))"
proof -
  define b where "b = the_bio st x"
  define p where "p = pair_of b"
  have b: "bi_method b = BIO_PAIR" "bi_init b" "bi_ptr b = Pair_ptr p" "peer p = Some y" "ring_ok p"
      "bi_references b = 1" "bi_next b = None"
    using assms by (simp_all add: half_ok_def b_def p_def)
  note lq = length_ring_queue [OF b(5)]
  note defs = BIO_write_def method_write_def bio_write_def upd_bio_def pair_at_def put_pair_def Let_def count_write_def
  consider "d = []" | "d \<noteq> []" "closed p" | "d \<noteq> []" "\<not> closed p" "blen p = bsize p"
    | "d \<noteq> []" "\<not> closed p" "blen p \<noteq> bsize p" by blast
  then show ?thesis
  proof cases
    case 1
    then show ?thesis using assms b by (auto simp: defs spec_write_def b_def [symmetric])
  next
    case 2
    then show ?thesis
      using assms b lq by (auto simp: defs spec_write_def b_def [symmetric] p_def [symmetric] half_of_def half_ok_def
          ring_queue_def ring_ok_def)
  next
    case 3
    then show ?thesis
      using assms b lq by (auto simp: defs spec_write_def b_def [symmetric] p_def [symmetric] half_of_def half_ok_def
          ring_queue_def ring_ok_def)
  next
    case 4
    define n where "n = min (length d) (bsize p - blen p)"
    have n: "n \<noteq> 0" "n \<le> length d" "blen p + n \<le> bsize p" "(if length d > bsize p - blen p then bsize p - blen p else length d) = n"
      using 4 b(5) by (auto simp: n_def ring_ok_def)
    let ?p = "p\<lparr>request := 0\<rparr>"
    have "ring_ok ?p" "take n d \<noteq> []" "blen ?p + length (take n d) \<le> bsize ?p" "ring_queue ?p = ring_queue p"
      using b(5) n 4(1) by (auto simp: ring_ok_def ring_queue_def)
    from write_ring_exact [OF this(1-3)] this(4) obtain p' where
      p': "write_ring ?p (take n d) = Some p'" "ring_ok p'" "ring_queue p' = ring_queue p @ take n d" "same_fields ?p p'" by auto
    have "BIO_write (Some x) d alloc st = Some (int n, count_write x (int n) (put_pair x p' (put_pair x ?p (upd_bio x BIO_clear_retry_flags st))))"
      using 4 b n p'(1) by (cases "bsize p - blen p < length d") (simp_all add: defs b_def [symmetric] p_def [symmetric])
    moreover have "spec_write d (half_of b) = (int n, (half_of b)\<lparr>h_request := 0, h_flags := 0,
        h_queue := ring_queue p @ take n d, h_written := (bi_num_write b + n) mod size_mod\<rparr>)"
      using 4 n(1) lq by (simp add: spec_write_def half_of_def p_def [symmetric] n_def Let_def)
    ultimately show ?thesis
      using n p' b lq
      by (auto simp: defs b_def [symmetric] p_def [symmetric] half_of_def half_ok_def same_fields_def)
  qed
qed


lemma half_of_number [simp]: "pair_of (the_bio (count_read x n st) y) = pair_of (the_bio st y)"
  by (simp add: count_read_def upd_bio_def)

lemma read_half:
  assumes "half_ok (the_bio st x) y" "half_ok (the_bio st y) x" "x \<noteq> y"
  shows "\<exists>r bs st'. BIO_read (Some x) len st = Some (r, bs, st') \<and> half_ok (the_bio st' x) y \<and> half_ok (the_bio st' y) x \<and>
    (\<forall>z. z \<noteq> x \<and> z \<noteq> y \<longrightarrow> the_bio st' z = the_bio st z) \<and>
    spec_read len (half_of (the_bio st x)) (half_of (the_bio st y)) = ((r, bs), half_of (the_bio st' x), half_of (the_bio st' y))"
proof -
  define b where "b = the_bio st x"
  define c where "c = the_bio st y"
  define p where "p = pair_of b"
  define q where "q = pair_of c"
  have b: "bi_method b = BIO_PAIR" "bi_init b" "bi_ptr b = Pair_ptr p" "peer p = Some y"
    using assms(1) by (simp_all add: half_ok_def b_def p_def)
  have c: "bi_ptr c = Pair_ptr q" "ring_ok q" using assms(2) by (simp_all add: half_ok_def c_def q_def)
  note lq = length_ring_queue [OF c(2)]
  have ok: "half_ok b y" "half_ok c x" using assms by (simp_all add: b_def c_def)
  have eq: "ring_queue (q\<lparr>request := k\<rparr>) = ring_queue q" "ring_ok (q\<lparr>request := k\<rparr>) = ring_ok q" for k
    by (simp_all add: ring_queue_def ring_ok_def)
  note ne = assms(3) assms(3) [symmetric]
  note defs = BIO_read_def method_read_def bio_read_def upd_bio_def pair_at_def put_pair_def Let_def count_read_def
  note here = b_def [symmetric] c_def [symmetric] p_def [symmetric] q_def [symmetric]
  consider "len \<le> 0" | "len > 0" "blen q = 0" "closed q" | "len > 0" "blen q = 0" "\<not> closed q" | "len > 0" "blen q \<noteq> 0" by linarith
  then show ?thesis
  proof cases
    case 1
    then show ?thesis using assms b by (auto simp: defs spec_read_def here)
  next
    case 2
    then show ?thesis
      using ok b c lq ne by (auto simp: defs spec_read_def here half_of_def half_ok_def eq)
  next
    case 3
    then show ?thesis
      using ok b c lq ne by (auto simp: defs spec_read_def here half_of_def half_ok_def eq)
  next
    case 4
    define n where "n = min (nat len) (blen q)"
    have n: "0 < n" "n \<le> blen q" "(if blen q < nat len then blen q else nat len) = n" using 4 by (auto simp: n_def)
    from read_ring_exact [of "q\<lparr>request := 0\<rparr>" n "[]"] n c(2) eq obtain q' where
      q': "read_ring (q\<lparr>request := 0\<rparr>) n [] = Some (take n (ring_queue q), q')" "ring_ok q'"
        "ring_queue q' = drop n (ring_queue q)" "same_fields (q\<lparr>request := 0\<rparr>) q'" by auto
    have "BIO_read (Some x) len st = Some (int n, take n (ring_queue q),
        count_read x (int n) (put_pair y q' (put_pair y (q\<lparr>request := 0\<rparr>) (upd_bio x BIO_clear_retry_flags st))))"
      using 4 b c n q'(1) ne by (cases "blen q < nat len") (simp_all add: defs here)
    moreover have "spec_read len (half_of b) (half_of c) = ((int n, take n (ring_queue q)),
        (half_of b)\<lparr>h_flags := 0, h_read := (bi_num_read b + n) mod size_mod\<rparr>,
        (half_of c)\<lparr>h_request := 0, h_queue := drop n (ring_queue q)\<rparr>)"
      using 4 n(1) lq by (simp add: spec_read_def half_of_def here n_def Let_def)
    ultimately show ?thesis
      using n q' ok ne by (auto simp: defs here half_of_def half_ok_def same_fields_def)
  qed
qed

lemma other [simp]: "other (other s) = s" "other s \<noteq> s" "s \<noteq> other s"
  by (cases s; simp add: other_def)+

lemma side_cases: "z = s \<or> z = other s"
  by (cases s; cases z; simp add: other_def)

lemma pair_inv_at: "pair_inv a st \<Longrightarrow> half_ok (the_bio st (a s)) (a (other s)) \<and> a s \<noteq> a (other s) \<and> a (other s) \<noteq> a s"
proof -
  assume "pair_inv a st"
  then have "half_ok (the_bio st (a s)) (a (other s))" "a Side1 \<noteq> a Side2" unfolding pair_inv_def by blast+
  then show ?thesis by (cases s) (simp_all add: other_def)
qed

lemma pair_invI:
  assumes "a s \<noteq> a (other s)" "half_ok (the_bio st (a s)) (a (other s))" "half_ok (the_bio st (a (other s))) (a s)"
  shows "pair_inv a st"
  using assms unfolding pair_inv_def by (cases s) (auto simp: other_def split: side.splits)

lemma abs_pair_upd:
  assumes "the_bio st' (a (other s)) = the_bio st (a (other s))"
  shows "abs_pair a st' = (abs_pair a st)(s := half_of (the_bio st' (a s)))"
  using assms side_cases [of _ s] by (auto simp: abs_pair_def fun_eq_iff) (metis)

lemma run_pair_refines:
  assumes "pair_inv a st"
  shows "\<exists>r st'. run_pair a alloc op st = Some (r, st') \<and> pair_inv a st' \<and> pair_step op (abs_pair a st) = (r, abs_pair a st')"
proof -
  have inv: "half_ok (the_bio st (a s)) (a (other s))" "a s \<noteq> a (other s)" "a (other s) \<noteq> a s"
    "half_ok (the_bio st (a (other s))) (a s)" for s
    using pair_inv_at [OF assms, of s] pair_inv_at [OF assms, of "other s"] by simp_all
  note okD = inv(1) [unfolded half_ok_def]
  have ctrl: "BIO_ctrl (Some (a s)) cmd st = bio_ctrl (a s) cmd st" for s cmd
    using okD [of s] by (simp add: BIO_ctrl_def)
  have len: "length (ring_queue (pair_of (the_bio st (a s)))) = blen (pair_of (the_bio st (a s)))" for s
    using okD [of s] length_ring_queue by blast
  show ?thesis
  proof (cases op)
    case (Write s d)
    obtain r st' where w: "BIO_write (Some (a s)) d alloc st = Some (r, st')" "half_ok (the_bio st' (a s)) (a (other s))"
      "\<forall>z. z \<noteq> a s \<longrightarrow> the_bio st' z = the_bio st z"
      "spec_write d (half_of (the_bio st (a s))) = (r, half_of (the_bio st' (a s)))"
      using write_half [OF inv(1)] by blast
    have o: "the_bio st' (a (other s)) = the_bio st (a (other s))" using w(3) inv(3) by blast
    have "pair_inv a st'" using pair_invI [of a s st'] inv w(2) o by simp
    then show ?thesis using Write w o abs_pair_upd [where s = s and a = a, OF o] by (simp add: abs_pair_def)
  next
    case (Read s n)
    obtain r bs st' where w: "BIO_read (Some (a s)) n st = Some (r, bs, st')" "half_ok (the_bio st' (a s)) (a (other s))"
      "half_ok (the_bio st' (a (other s))) (a s)"
      "spec_read n (half_of (the_bio st (a s))) (half_of (the_bio st (a (other s)))) =
        ((r, bs), half_of (the_bio st' (a s)), half_of (the_bio st' (a (other s))))"
      using read_half [OF inv(1) inv(4) inv(2)] by blast
    have "pair_inv a st'" using pair_invI [of a s st'] inv w by simp
    moreover have "abs_pair a st' = (abs_pair a st)(s := half_of (the_bio st' (a s)), other s := half_of (the_bio st' (a (other s))))"
      using side_cases [of _ s] by (auto simp: abs_pair_def fun_eq_iff)
    ultimately show ?thesis using Read w by (simp add: abs_pair_def)
  next
    case (Shutdown s)
    let ?p = "pair_of (the_bio st (a s))"
    have o: "the_bio (put_pair (a s) (?p\<lparr>closed := True\<rparr>) st) (a (other s)) = the_bio st (a (other s))"
      using inv(3) by (simp add: put_pair_def)
    have "pair_inv a (put_pair (a s) (?p\<lparr>closed := True\<rparr>) st)"
      using pair_invI [of a s] inv [of s] o by (simp add: put_pair_def half_ok_def ring_ok_def)
    then show ?thesis
      using Shutdown abs_pair_upd [where s = s and a = a, OF o]
      by (simp add: ctrl BIO_shutdown_wr_def bio_ctrl_def pair_at_def abs_pair_def)
        (simp add: put_pair_def half_of_def ring_queue_def)
  next
    case (Reset_request s)
    let ?p = "pair_of (the_bio st (a s))"
    have o: "the_bio (put_pair (a s) (?p\<lparr>request := 0\<rparr>) st) (a (other s)) = the_bio st (a (other s))"
      using inv(3) by (simp add: put_pair_def)
    have "pair_inv a (put_pair (a s) (?p\<lparr>request := 0\<rparr>) st)"
      using pair_invI [of a s] inv [of s] o by (simp add: put_pair_def half_ok_def ring_ok_def)
    then show ?thesis
      using Reset_request abs_pair_upd [where s = s and a = a, OF o]
      by (simp add: ctrl bio_ctrl_def pair_at_def abs_pair_def)
        (simp add: put_pair_def half_of_def ring_queue_def)
  next
    case (Pending s)
    then show ?thesis
      using okD [of s] len [of "other s"] assms by (simp add: ctrl BIO_pending_def bio_ctrl_def pair_at_def abs_pair_def half_of_def)
  next
    case (Wpending s)
    then show ?thesis
      using okD [of s] len [of s] assms
      by (simp add: ctrl BIO_wpending_def bio_ctrl_def pair_at_def abs_pair_def half_of_def ring_ok_def)
  next
    case (Guarantee s)
    then show ?thesis
      using okD [of s] len [of s] assms
      by (simp add: ctrl BIO_ctrl_get_write_guarantee_def bio_ctrl_def pair_at_def abs_pair_def half_of_def Let_def)
  qed (use assms in \<open>simp_all add: ctrl BIO_ctrl_get_read_request_def bio_ctrl_def pair_at_def abs_pair_def half_of_def
         BIO_number_read_def BIO_number_written_def\<close>)
qed


definition half0 :: "nat \<Rightarrow> half" where
  "half0 n = \<lparr>h_queue = [], h_cap = (if n = 0 then 17 * 1024 else n), h_closed = False, h_request = 0, h_flags = 0,
              h_read = 0, h_written = 0\<rparr>"

definition pair_addr :: "nat \<times> nat \<Rightarrow> side \<Rightarrow> nat" where
  "pair_addr xy s = (case s of Side1 \<Rightarrow> fst xy | Side2 \<Rightarrow> snd xy)"

lemma new_pair:
  assumes "BIO_new_bio_pair n1 n2 alloc st = Some (Some xy, st')"
  shows "pair_inv (pair_addr xy) st' \<and> abs_pair (pair_addr xy) st' = (\<lambda>s. case s of Side1 \<Rightarrow> half0 n1 | Side2 \<Rightarrow> half0 n2)"
proof -
  let ?b = "\<lparr>bi_method = BIO_PAIR, bi_init = False, bi_shutdown = 1, bi_flags = 0, bi_retry_reason = 0,
                bi_num = 0, bi_references = 1, bi_ptr = Pair_ptr \<lparr>peer = None, closed = False, blen = 0, boffset = 0, bsize = 17 * 1024,
                bbuf = None, request = 0\<rparr>, bi_next = None, bi_num_read = 0, bi_num_write = 0\<rparr>"
  define a1 where "a1 = next_addr st"
  define a2 where "a2 = next_addr st + 1"
  define st2 where "st2 = (put_bio a2 ?b ((put_bio a1 ?b st)\<lparr>next_addr := a2\<rparr>))\<lparr>next_addr := a2 + 1\<rparr>"
  have new: "BIO_new BIO_PAIR alloc s = (if alloc 64 \<and> alloc 56 then (Some (next_addr s), (put_bio (next_addr s) ?b s)\<lparr>next_addr := next_addr s + 1\<rparr>)
      else if alloc 64 then (None, s) else (None, put_error MALLOC_FAILURE s))" for s
    by (simp add: BIO_new_def method_new_def bio_new_def)
  have al: "alloc 64" "alloc 56"
    using assms by (auto simp: BIO_new_bio_pair_def new split: option.splits prod.splits if_splits)
  have na: "next_addr ((put_bio a1 ?b st)\<lparr>next_addr := a2\<rparr>) = a2" by simp
  have st2: "BIO_new BIO_PAIR alloc st = (Some a1, (put_bio a1 ?b st)\<lparr>next_addr := a2\<rparr>)"
    "BIO_new BIO_PAIR alloc ((put_bio a1 ?b st)\<lparr>next_addr := a2\<rparr>) = (Some a2, st2)"
    using al by (simp_all add: new a1_def a2_def st2_def)
  obtain ok st3 where mk: "bio_make_pair a1 a2 n1 n2 alloc st2 = (ok, st3)" by fastforce
  have fin: "ok" "xy = (a1, a2)" "st' = st3"
    using assms unfolding BIO_new_bio_pair_def st2 prod.case option.case mk Let_def
    by (auto split: option.splits prod.splits if_splits)
  have ne: "a1 \<noteq> a2" "a2 \<noteq> a1" by (simp_all add: a1_def a2_def)
  have at: "the_bio st2 a1 = ?b" "the_bio st2 a2 = ?b"
    using ne by (simp_all add: st2_def the_bio_def put_bio_def)
  let ?p = "\<lambda>n q. \<lparr>peer = Some q, closed = False, blen = 0, boffset = 0, bsize = (if n = 0 then 17 * 1024 else n),
      bbuf = Some (replicate (if n = 0 then 17 * 1024 else n) 0), request = 0\<rparr>"
  have "the_bio st3 a1 = ?b\<lparr>bi_init := True, bi_ptr := Pair_ptr (?p n1 a2)\<rparr> \<and> the_bio st3 a2 = ?b\<lparr>bi_init := True, bi_ptr := Pair_ptr (?p n2 a1)\<rparr>"
    using mk fin(1) ne at
    by (auto simp: bio_make_pair_def pair_at_def pair_of_def make_half_def put_pair_def upd_bio_def Let_def split: prod.splits if_splits)
  then show ?thesis
    using ne fin by (auto simp: pair_inv_def pair_addr_def half_ok_def pair_of_def other_def ring_ok_def abs_pair_def
        half_of_def half0_def ring_queue_def BIO_get_retry_flags_def fun_eq_iff split: side.splits)
qed

fun run_pairs :: "(side \<Rightarrow> nat) \<Rightarrow> (nat \<Rightarrow> bool) \<Rightarrow> pair_op list \<Rightarrow> bio_state \<Rightarrow> (pair_result list \<times> bio_state) option" where
  "run_pairs a alloc [] st = Some ([], st)"
| "run_pairs a alloc (op # ops) st =
     (case run_pair a alloc op st of None \<Rightarrow> None
      | Some (r, st) \<Rightarrow> map_option (\<lambda>(rs, st). (r # rs, st)) (run_pairs a alloc ops st))"

fun pair_steps :: "pair_op list \<Rightarrow> (side \<Rightarrow> half) \<Rightarrow> pair_result list \<times> (side \<Rightarrow> half)" where
  "pair_steps [] f = ([], f)"
| "pair_steps (op # ops) f = (case pair_step op f of (r, f) \<Rightarrow> case pair_steps ops f of (rs, f) \<Rightarrow> (r # rs, f))"

lemma run_pairs_refine:
  "pair_inv a st \<Longrightarrow> \<exists>rs st'. run_pairs a alloc ops st = Some (rs, st') \<and> pair_inv a st' \<and>
    pair_steps ops (abs_pair a st) = (rs, abs_pair a st')"
proof (induction ops arbitrary: st)
  case (Cons op ops)
  obtain r st1 where 1: "run_pair a alloc op st = Some (r, st1)" "pair_inv a st1" "pair_step op (abs_pair a st) = (r, abs_pair a st1)"
    using run_pair_refines [OF Cons.prems] by blast
  obtain rs st2 where "run_pairs a alloc ops st1 = Some (rs, st2)" "pair_inv a st2" "pair_steps ops (abs_pair a st1) = (rs, abs_pair a st2)"
    using Cons.IH [OF 1(2)] by blast
  then show ?case using 1 by simp
qed simp

section \<open>Progress\<close>

lemma min_0_iff: "min a b = 0 \<longleftrightarrow> a = 0 \<or> b = (0 :: nat)"
  by (auto simp: min_def)

lemma spec_write_fields:
  assumes "spec_write d h = (r, h')" "d \<noteq> []"
  shows "h_cap h' = h_cap h \<and> h_closed h' = h_closed h \<and>
    (let n = (if h_closed h then 0 else min (length d) (h_cap h - length (h_queue h)))
     in h_queue h' = h_queue h @ take n d \<and> r = (if n = 0 then -1 else int n))"
  using assms by (auto simp: spec_write_def Let_def min_0_iff split: if_splits)

lemma spec_read_fields:
  assumes "spec_read n h g = ((r, bs), h', g')" "0 < n"
  shows "bs @ h_queue g' = h_queue g \<and> h_cap g' = h_cap g \<and> h_closed g' = h_closed g \<and> (h_queue g \<noteq> [] \<longrightarrow> bs \<noteq> [])"
  using assms by (auto simp: spec_read_def Let_def min_0_iff split: if_splits)

lemma write_all_pair:
  "half_ok (the_bio st x) y \<Longrightarrow>
   \<exists>ok st'. BIO_write_all (Some x) d alloc st = Some (ok, st') \<and> half_ok (the_bio st' x) y \<and>
     (\<forall>z. z \<noteq> x \<longrightarrow> the_bio st' z = the_bio st z) \<and>
     (let h = half_of (the_bio st x); free = (if h_closed h then 0 else h_cap h - length (h_queue h))
      in (ok \<longleftrightarrow> length d \<le> free) \<and> h_queue (half_of (the_bio st' x)) = h_queue h @ take free d)"
proof (induction "length d" arbitrary: d st rule: less_induct)
  case less
  show ?case
  proof (cases "d = []")
    case True
    then show ?thesis using less.prems by (subst BIO_write_all.simps) (auto simp: Let_def)
  next
    case False
    let ?h = "half_of (the_bio st x)" and ?d = "take (nat INT_MAX) d"
    have dn: "?d \<noteq> []" using False by (simp add: INT_MAX_def)
    obtain r st1 where w: "BIO_write (Some x) ?d alloc st = Some (r, st1)" "half_ok (the_bio st1 x) y"
      "\<forall>z. z \<noteq> x \<longrightarrow> the_bio st1 z = the_bio st z" "spec_write ?d ?h = (r, half_of (the_bio st1 x))"
      using write_half [OF less.prems] by blast
    let ?h1 = "half_of (the_bio st1 x)"
    have cap: "length (h_queue ?h) \<le> h_cap ?h"
      using less.prems length_ring_queue by (auto simp: half_of_def half_ok_def ring_ok_def)
    define n where "n = min (length ?d) (h_cap ?h - length (h_queue ?h))"
    have s: "BIO_write_all (Some x) d alloc st =
        (if r \<le> 0 then Some (False, st1) else BIO_write_all (Some x) (drop (nat r) d) alloc st1)"
      using False w(1) by (subst BIO_write_all.simps) simp
    show ?thesis
    proof (cases "h_closed ?h \<or> n = 0")
      case True
      then have "r = -1" "h_queue ?h1 = h_queue ?h"
        using spec_write_fields [OF w(4) dn] unfolding n_def [symmetric] Let_def by (auto split: if_splits)
      moreover have "length d \<noteq> 0" using False by simp
      moreover have "h_closed ?h \<or> h_cap ?h - length (h_queue ?h) = 0" using True dn by (auto simp: n_def min_0_iff)
      ultimately have "BIO_write_all (Some x) d alloc st = Some (False, st1)"
        "\<not> length d \<le> (if h_closed ?h then 0 else h_cap ?h - length (h_queue ?h))"
        "h_queue ?h1 = h_queue ?h @ take (if h_closed ?h then 0 else h_cap ?h - length (h_queue ?h)) d"
        using s by auto
      then show ?thesis using w(2,3) unfolding Let_def by blast
    next
      case F: False
      then have r: "r = int n" "h_queue ?h1 = h_queue ?h @ take n ?d" "h_closed ?h1 = h_closed ?h" "h_cap ?h1 = h_cap ?h"
        using spec_write_fields [OF w(4) dn] unfolding n_def [symmetric] Let_def by simp_all
      have n: "0 < n" "n \<le> length d" "take n ?d = take n d" using F by (auto simp: n_def min_def)
      have "length (drop n d) < length d" using n(1) False by simp
      from less.hyps [OF this w(2)] obtain ok st2 where 2: "BIO_write_all (Some x) (drop n d) alloc st1 = Some (ok, st2)"
        "half_ok (the_bio st2 x) y" "\<forall>z. z \<noteq> x \<longrightarrow> the_bio st2 z = the_bio st1 z"
        "ok \<longleftrightarrow> length (drop n d) \<le> h_cap ?h1 - length (h_queue ?h1)"
        "h_queue (half_of (the_bio st2 x)) = h_queue ?h1 @ take (h_cap ?h1 - length (h_queue ?h1)) (drop n d)"
        using F r(3) by (auto simp: Let_def)
      define free where "free = h_cap ?h - length (h_queue ?h)"
      have fr: "h_cap ?h1 - length (h_queue ?h1) = free - n" "n \<le> free"
        using r n by (auto simp: free_def n_def)
      have "take n d @ take (free - n) (drop n d) = take free d" using fr(2) by (metis le_add_diff_inverse take_add)
      moreover have "BIO_write_all (Some x) d alloc st = Some (ok, st2)" using s 2(1) r(1) n(1) by simp
      moreover have "\<forall>z. z \<noteq> x \<longrightarrow> the_bio st2 z = the_bio st z" using 2(3) w(3) by simp
      moreover have "ok \<longleftrightarrow> length d \<le> free" using 2(4) fr n(2) by auto
      moreover have "h_queue (half_of (the_bio st2 x)) = h_queue ?h @ take n d @ take (free - n) (drop n d)"
        using 2(5) [unfolded fr(1)] unfolding r(2) n(3) by simp
      ultimately show ?thesis using 2(2) F by (intro exI [of _ ok] exI [of _ st2]) (simp add: Let_def free_def)
    qed
  qed
qed

text \<open>A writer and a reader that take turns: the writer offers what is left, the reader reads up to \<open>n\<close> bytes.\<close>

fun deliver :: "nat \<Rightarrow> nat \<Rightarrow> nat \<Rightarrow> int \<Rightarrow> (nat \<Rightarrow> bool) \<Rightarrow> byte list \<Rightarrow> bio_state \<Rightarrow> (byte list \<times> bio_state) option" where
  "deliver rounds x y n alloc d st =
     (if d = [] then Some ([], st)
      else case rounds of
             0 \<Rightarrow> None
           | Suc k \<Rightarrow>
               (case BIO_write (Some x) (take (nat INT_MAX) d) alloc st of
                  None \<Rightarrow> None
                | Some (r, st) \<Rightarrow>
                    (case BIO_read (Some y) n st of
                       None \<Rightarrow> None
                     | Some (r2, bs, st) \<Rightarrow>
                         map_option (\<lambda>(out, st). (bs @ out, st)) (deliver k x y n alloc (drop (nat r) d) st))))"

declare deliver.simps [simp del]

lemma deliver_all:
  assumes "0 < n" "x \<noteq> y"
  shows "half_ok (the_bio st x) y \<Longrightarrow> half_ok (the_bio st y) x \<Longrightarrow> \<not> h_closed (half_of (the_bio st x)) \<Longrightarrow>
    length d + (if length (h_queue (half_of (the_bio st x))) = h_cap (half_of (the_bio st x)) then 1 else 0) \<le> rounds \<Longrightarrow>
    \<exists>out st'. deliver rounds x y n alloc d st = Some (out, st') \<and>
      out @ h_queue (half_of (the_bio st' x)) = h_queue (half_of (the_bio st x)) @ d"
proof (induction rounds arbitrary: d st)
  case 0
  then show ?case by (simp add: deliver.simps)
next
  case (Suc k)
  show ?case
  proof (cases "d = []")
    case True
    then show ?thesis by (simp add: deliver.simps)
  next
    case False
    let ?d = "take (nat INT_MAX) d"
    let ?h = "half_of (the_bio st x)"
    have dn: "?d \<noteq> []" using False by (simp add: INT_MAX_def)
    obtain r st1 where w: "BIO_write (Some x) ?d alloc st = Some (r, st1)" "half_ok (the_bio st1 x) y"
      "\<forall>z. z \<noteq> x \<longrightarrow> the_bio st1 z = the_bio st z" "spec_write ?d ?h = (r, half_of (the_bio st1 x))"
      using write_half [OF Suc.prems(1)] by blast
    let ?h1 = "half_of (the_bio st1 x)"
    have y1: "half_ok (the_bio st1 y) x" using w(3) assms(2) Suc.prems(2) by simp
    obtain r2 bs st2 where rd: "BIO_read (Some y) n st1 = Some (r2, bs, st2)" "half_ok (the_bio st2 y) x" "half_ok (the_bio st2 x) y"
      "spec_read n (half_of (the_bio st1 y)) ?h1 = ((r2, bs), half_of (the_bio st2 y), half_of (the_bio st2 x))"
      using read_half [OF y1 w(2) assms(2) [symmetric]] by blast
    let ?h2 = "half_of (the_bio st2 x)"
    have cap: "length (h_queue ?h) \<le> h_cap ?h" "0 < h_cap ?h"
      using Suc.prems(1) length_ring_queue by (auto simp: half_of_def half_ok_def ring_ok_def)
    define m where "m = min (length ?d) (h_cap ?h - length (h_queue ?h))"
    have h1: "h_queue ?h1 = h_queue ?h @ take m d" "h_cap ?h1 = h_cap ?h" "\<not> h_closed ?h1" "nat r = m" "m \<le> length d"
      using spec_write_fields [OF w(4) dn] Suc.prems(3) unfolding Let_def by (auto simp: m_def min_def)
    have h2: "bs @ h_queue ?h2 = h_queue ?h1" "h_cap ?h2 = h_cap ?h1" "\<not> h_closed ?h2"
      "h_queue ?h1 \<noteq> [] \<Longrightarrow> bs \<noteq> []"
      using spec_read_fields [OF rd(4) assms(1)] h1(3) by simp_all
    have notfull: "length (h_queue ?h2) \<noteq> h_cap ?h2"
    proof (cases "h_queue ?h1 = []")
      case True
      then show ?thesis using h2(1,2) h1(2) cap(2) by simp
    next
      case F: False
      have "length bs + length (h_queue ?h2) = length (h_queue ?h1)" using h2(1) by (metis length_append)
      moreover have "m \<le> h_cap ?h - length (h_queue ?h)" by (simp add: m_def)
      then have "length (h_queue ?h1) \<le> h_cap ?h1" using h1(1,2,5) cap(1) by simp
      moreover have "0 < length bs" using h2(4) [OF F] by simp
      ultimately show ?thesis using h2(2) by linarith
    qed
    have "length (h_queue ?h) \<noteq> h_cap ?h \<longrightarrow> 0 < m" using cap dn by (auto simp: m_def)
    then have "length (drop m d) + (if length (h_queue ?h2) = h_cap ?h2 then 1 else 0) \<le> k"
      using Suc.prems(4) notfull h1(5) by (auto split: if_splits)
    from Suc.IH [OF rd(3,2) h2(3) this] obtain out st3 where
      3: "deliver k x y n alloc (drop m d) st2 = Some (out, st3)"
        "out @ h_queue (half_of (the_bio st3 x)) = h_queue ?h2 @ drop m d" by blast
    have "deliver (Suc k) x y n alloc d st = Some (bs @ out, st3)"
      using False w(1) rd(1) 3(1) h1(4) by (subst deliver.simps) simp
    moreover have "(bs @ out) @ h_queue (half_of (the_bio st3 x)) = h_queue ?h @ d"
      using 3(2) h2(1) h1(1) by (metis append.assoc append_take_drop_id)
    ultimately show ?thesis by blast
  qed
qed


section \<open>One direction as a channel\<close>

text \<open>One direction of a pair: what is written to \<open>x\<close> is read from \<open>y\<close>.\<close>

definition pair_snd :: "nat \<Rightarrow> (nat \<Rightarrow> bool) \<Rightarrow> bio_state \<Rightarrow> byte list \<Rightarrow> int \<times> bio_state" where
  "pair_snd x alloc st d = the (BIO_write (Some x) d alloc st)"

definition pair_rcv :: "nat \<Rightarrow> bio_state \<Rightarrow> int \<Rightarrow> int \<times> byte list \<times> bio_state" where
  "pair_rcv y st n = the (BIO_read (Some y) n st)"

definition pair_waiting :: "nat \<Rightarrow> bio_state \<Rightarrow> byte list" where
  "pair_waiting x st = h_queue (half_of (the_bio st x))"

definition pair_usable :: "nat \<Rightarrow> nat \<Rightarrow> bio_state \<Rightarrow> bool" where
  "pair_usable x y st \<longleftrightarrow> x \<noteq> y \<and> half_ok (the_bio st x) y \<and> half_ok (the_bio st y) x"

interpretation pair: byte_channel "pair_snd x alloc" "pair_rcv y" "pair_waiting x" "pair_usable x y" for x y alloc
proof unfold_locales
  fix st d r st'
  assume u: "pair_usable x y st" and s: "pair_snd x alloc st d = (r, st')"
  from u have "half_ok (the_bio st x) y" by (simp add: pair_usable_def)
  from write_half [OF this] obtain r1 st1 where w: "BIO_write (Some x) d alloc st = Some (r1, st1)"
    "half_ok (the_bio st1 x) y" "\<forall>z. z \<noteq> x \<longrightarrow> the_bio st1 z = the_bio st z"
    "spec_write d (half_of (the_bio st x)) = (r1, half_of (the_bio st1 x))" by blast
  have "r1 = r" "st1 = st'" using w(1) s by (simp_all add: pair_snd_def)
  moreover have "nat r1 \<le> length d \<and> h_queue (half_of (the_bio st1 x)) = h_queue (half_of (the_bio st x)) @ take (nat r1) d"
  proof (cases "d = []")
    case True
    then show ?thesis using w(4) by (simp add: spec_write_def)
  next
    case False
    then show ?thesis using spec_write_fields [OF w(4)] by (auto simp: Let_def split: if_splits)
  qed
  ultimately show "pair_usable x y st' \<and> nat r \<le> length d \<and> pair_waiting x st' = pair_waiting x st @ take (nat r) d"
    using u w(2,3) by (auto simp: pair_usable_def pair_waiting_def)
next
  fix st n r bs st'
  assume u: "pair_usable x y st" and s: "pair_rcv y st n = (r, bs, st')"
  then have h: "half_ok (the_bio st y) x" "half_ok (the_bio st x) y" "y \<noteq> x" by (auto simp: pair_usable_def)
  from read_half [OF h] obtain r1 bs1 st1 where w: "BIO_read (Some y) n st = Some (r1, bs1, st1)"
    "half_ok (the_bio st1 y) x" "half_ok (the_bio st1 x) y"
    "spec_read n (half_of (the_bio st y)) (half_of (the_bio st x)) = ((r1, bs1), half_of (the_bio st1 y), half_of (the_bio st1 x))"
    by blast
  have "bs1 = bs" "st1 = st'" using w(1) s by (simp_all add: pair_rcv_def)
  moreover have "bs1 @ h_queue (half_of (the_bio st1 x)) = h_queue (half_of (the_bio st x))"
  proof (cases "0 < n")
    case True
    then show ?thesis using spec_read_fields [OF w(4)] by simp
  next
    case False
    then show ?thesis using w(4) by (simp add: spec_read_def)
  qed
  ultimately show "pair_usable x y st' \<and> bs @ pair_waiting x st' = pair_waiting x st"
    using u w(2,3) by (auto simp: pair_usable_def pair_waiting_def)
qed

section \<open>Properties\<close>

text \<open>
  C1. Every sequence of operations on the two sides of a new pair (writes, reads, shutdowns, queries,
  retry flags, counters) ends and gives the results that two bounded queues give.
\<close>

theorem bio_pair_refines:
  assumes "BIO_new_bio_pair n1 n2 alloc st = Some (Some xy, st1)"
  shows "\<exists>rs st2. run_pairs (pair_addr xy) alloc ops st1 = Some (rs, st2) \<and>
    fst (pair_steps ops (\<lambda>s. case s of Side1 \<Rightarrow> half0 n1 | Side2 \<Rightarrow> half0 n2)) = rs"
  using new_pair [OF assms] run_pairs_refine [of "pair_addr xy" st1 alloc ops] by force

theorem bio_pair_refines_witness:
  "\<exists>xy st1. BIO_new_bio_pair 4 0 (\<lambda>n. True) \<lparr>bios = \<lambda>x. None, next_addr = 0, errq = []\<rparr> = Some (Some xy, st1) \<and>
    map_option fst (run_pairs (pair_addr xy) (\<lambda>n. True)
      [Write Side1 [1, 2, 3], Read Side2 2, Write Side1 [4, 5, 6, 7], Read Side2 9, Read Side2 3, Request Side1] st1) =
    Some [Ret 3 [], Ret 2 [1, 2], Ret 3 [], Ret 4 [3, 4, 5, 6], Ret (-1) [], Ret 3 []]"
proof -
  let ?st = "\<lparr>bios = \<lambda>x. None, next_addr = 0, errq = []\<rparr> :: bio_state"
  let ?ops = "[Write Side1 [1, 2, 3], Read Side2 2, Write Side1 [4, 5, 6, 7], Read Side2 9, Read Side2 3, Request Side1]"
  have "\<exists>xy st1. BIO_new_bio_pair 4 0 (\<lambda>n. True) ?st = Some (Some xy, st1)"
    by (simp add: BIO_new_bio_pair_def BIO_new_def method_new_def bio_new_def bio_make_pair_def pair_at_def the_bio_def
        put_bio_def pair_of_def make_half_def Let_def put_pair_def upd_bio_def)
  then obtain xy st1 where n: "BIO_new_bio_pair 4 0 (\<lambda>n. True) ?st = Some (Some xy, st1)" by blast
  have "fst (pair_steps ?ops (\<lambda>s. case s of Side1 \<Rightarrow> half0 4 | Side2 \<Rightarrow> half0 0)) =
      [Ret 3 [], Ret 2 [1, 2], Ret 3 [], Ret 4 [3, 4, 5, 6], Ret (-1) [], Ret 3 []]"
    by (simp add: spec_write_def spec_read_def half0_def other_def)
  then show ?thesis using bio_pair_refines [OF n, of ?ops] n by auto
qed



text \<open>
  C17. After any use of a pair, \<open>BIO_write_all\<close> ends; it succeeds exactly if the data fit in the space that
  \<open>BIO_ctrl_get_write_guarantee\<close> reports, and exactly the prefix of that length is queued.
\<close>

theorem BIO_write_all_pair:
  assumes "BIO_new_bio_pair n1 n2 alloc st = Some (Some xy, st1)"
    and "run_pairs (pair_addr xy) alloc ops st1 = Some (rs, st2)"
  shows "\<exists>ok st3. BIO_write_all (Some (pair_addr xy s)) d alloc st2 = Some (ok, st3) \<and>
    (let free = nat (BIO_ctrl_get_write_guarantee (Some (pair_addr xy s)) st2)
     in (ok \<longleftrightarrow> length d \<le> free) \<and>
       ring_queue (pair_at st3 (pair_addr xy s)) = ring_queue (pair_at st2 (pair_addr xy s)) @ take free d)"
proof -
  have "pair_inv (pair_addr xy) st2"
    using new_pair [OF assms(1)] run_pairs_refine [of "pair_addr xy" st1 alloc ops] assms(2) by auto
  note h = pair_inv_at [OF this, of s, THEN conjunct1]
  let ?b = "the_bio st2 (pair_addr xy s)"
  have "length (ring_queue (pair_of ?b)) = blen (pair_of ?b)" "bi_method ?b = BIO_PAIR" "peer (pair_of ?b) \<noteq> None"
    using h length_ring_queue by (auto simp: half_ok_def)
  then have g: "nat (BIO_ctrl_get_write_guarantee (Some (pair_addr xy s)) st2) =
      (if h_closed (half_of ?b) then 0 else h_cap (half_of ?b) - length (h_queue (half_of ?b)))"
    by (auto simp: BIO_ctrl_get_write_guarantee_def BIO_ctrl_def bio_ctrl_def Let_def pair_at_def half_of_def)
  show ?thesis using write_all_pair [OF h, of d alloc] unfolding g by (auto simp: Let_def half_of_def pair_at_def)
qed

theorem BIO_write_all_pair_witness:
  "\<exists>xy st1 st3. BIO_new_bio_pair 4 2 (\<lambda>n. True) \<lparr>bios = \<lambda>x. None, next_addr = 0, errq = []\<rparr> = Some (Some xy, st1) \<and>
    BIO_write_all (Some (pair_addr xy Side1)) [1, 2, 3, 4, 5] (\<lambda>n. True) st1 = Some (False, st3) \<and>
    ring_queue (pair_at st3 (pair_addr xy Side1)) = [1, 2, 3, 4]"
proof -
  let ?st = "\<lparr>bios = \<lambda>x. None, next_addr = 0, errq = []\<rparr> :: bio_state"
  have "\<exists>xy st1. BIO_new_bio_pair 4 2 (\<lambda>n. True) ?st = Some (Some xy, st1)"
    by (simp add: BIO_new_bio_pair_def BIO_new_def method_new_def bio_new_def bio_make_pair_def pair_at_def the_bio_def
        put_bio_def pair_of_def make_half_def Let_def put_pair_def upd_bio_def)
  then obtain xy st1 where n: "BIO_new_bio_pair 4 2 (\<lambda>n. True) ?st = Some (Some xy, st1)" by blast
  have i: "pair_inv (pair_addr xy) st1" and "abs_pair (pair_addr xy) st1 Side1 = half0 4" using new_pair [OF n] by simp_all
  then have h: "half_of (the_bio st1 (pair_addr xy Side1)) = half0 4" by (simp add: abs_pair_def)
  then have p: "closed (pair_at st1 (pair_addr xy Side1)) = False" "ring_queue (pair_at st1 (pair_addr xy Side1)) = []"
    "bsize (pair_at st1 (pair_addr xy Side1)) = 4"
    unfolding half_of_def half0_def pair_at_def by simp_all
  have m: "bi_method (the_bio st1 (pair_addr xy Side1)) = BIO_PAIR" "peer (pair_at st1 (pair_addr xy Side1)) \<noteq> None"
    "blen (pair_at st1 (pair_addr xy Side1)) = 0"
    using pair_inv_at [OF i, of Side1] length_ring_queue [of "pair_at st1 (pair_addr xy Side1)"] p(2)
    by (auto simp: half_ok_def pair_at_def)
  have "BIO_ctrl_get_write_guarantee (Some (pair_addr xy Side1)) st1 = 4"
    using p m by (auto simp: BIO_ctrl_get_write_guarantee_def BIO_ctrl_def bio_ctrl_def Let_def)
  then show ?thesis
    using BIO_write_all_pair [OF n, of "[]" "[]" st1 Side1 "[1, 2, 3, 4, 5]"] n p by (auto simp: Let_def)
qed

lemma free_half:
  assumes "half_ok (the_bio st x) y" "half_ok (the_bio st y) x" "x \<noteq> y"
  shows "\<exists>st'. BIO_free (Some x) st = Some (True, st') \<and> bios st' x = None \<and>
    \<not> bi_init (the_bio st' y) \<and> peer (pair_at st' y) = None \<and> blen (pair_at st' y) = 0 \<and> boffset (pair_at st' y) = 0"
proof -
  have x: "bi_method (the_bio st x) = BIO_PAIR" "bi_references (the_bio st x) = 1" "bi_next (the_bio st x) = None"
    "peer (pair_of (the_bio st x)) = Some y" "y \<noteq> x"
    using assms by (auto simp: half_ok_def)
  note st = upd_bio_def put_pair_def pair_at_def
  have dec: "CRYPTO_refcount_dec_and_test_zero 1 = Some (True, 0)"
    by (simp add: CRYPTO_refcount_dec_and_test_zero_def CRYPTO_REFCOUNT_MAX_def)
  have pop: "BIO_pop (Some x) (upd_bio x (\<lambda>b. b\<lparr>bi_references := 0\<rparr>) st) =
      (None, upd_bio x (\<lambda>b. b\<lparr>bi_references := 0, bi_next := None\<rparr>) st)"
    using x(3) by (simp add: BIO_pop_def st)
  define st1 where "st1 = upd_bio x (\<lambda>b. b\<lparr>bi_references := 0, bi_next := None\<rparr>) st"
  have s1: "bi_method (the_bio st1 x) = BIO_PAIR" "peer (pair_of (the_bio st1 x)) = Some y" "the_bio st1 y = the_bio st y"
    using x by (simp_all add: st1_def st pair_of_def)
  define st2 where "st2 = method_destroy x st1"
  have "\<not> bi_init (the_bio st2 y) \<and> peer (pair_at st2 y) = None \<and> blen (pair_at st2 y) = 0 \<and> boffset (pair_at st2 y) = 0"
    unfolding st2_def method_destroy_def s1(1) bio_method.case bio_free_def bio_destroy_pair_def Let_def st s1(2)
    using x(5) assms(3) by (simp add: pair_of_def)
  moreover have "BIO_free (Some x) st = Some (True, st2\<lparr>bios := (bios st2)(x := None)\<rparr>)"
    unfolding BIO_free.simps [of "Some x"] option.case x(2) dec prod.case Let_def pop st1_def [symmetric] st2_def [symmetric]
    by (simp add: BIO_free.simps [of None])
  ultimately show ?thesis using x(5) by (simp add: the_bio_def pair_at_def)
qed

text \<open>
  C16. After any use of a pair, the data structure is as its comments require: the peers name each other,
  the buffer has \<open>size\<close> bytes, length, offset and request are in their ranges; and freeing one side
  leaves the other side uninitialised, without peer and empty.
\<close>

theorem bio_pair_invariant:
  assumes "BIO_new_bio_pair n1 n2 alloc st = Some (Some xy, st1)" "run_pairs (pair_addr xy) alloc ops st1 = Some (rs, st2)"
  shows "(let b = the_bio st2 (pair_addr xy s); p = pair_of b
      in bi_init b \<and> peer p = Some (pair_addr xy (other s)) \<and>
         (\<exists>buf. bbuf p = Some buf \<and> length buf = bsize p) \<and> blen p \<le> bsize p \<and> boffset p < bsize p \<and>
         (blen p = 0 \<longrightarrow> boffset p = 0) \<and> (blen p \<noteq> 0 \<longrightarrow> request p = 0) \<and> request p \<le> bsize p) \<and>
    (\<exists>st3. BIO_free (Some (pair_addr xy s)) st2 = Some (True, st3) \<and> bios st3 (pair_addr xy s) = None \<and>
      (let c = the_bio st3 (pair_addr xy (other s)); q = pair_of c
       in \<not> bi_init c \<and> peer q = None \<and> blen q = 0 \<and> boffset q = 0))"
proof -
  have "pair_inv (pair_addr xy) st2"
    using new_pair [OF assms(1)] run_pairs_refine [of "pair_addr xy" st1 alloc ops] assms(2) by auto
  note h = pair_inv_at [OF this, of s] pair_inv_at [OF this, of "other s"]
  have "\<exists>st3. BIO_free (Some (pair_addr xy s)) st2 = Some (True, st3) \<and> bios st3 (pair_addr xy s) = None \<and>
      (let c = the_bio st3 (pair_addr xy (other s)); q = pair_of c
       in \<not> bi_init c \<and> peer q = None \<and> blen q = 0 \<and> boffset q = 0)"
    using free_half [of st2 "pair_addr xy s" "pair_addr xy (other s)"] h by (simp add: pair_at_def Let_def)
  moreover have "half_ok (the_bio st2 (pair_addr xy s)) (pair_addr xy (other s))" using h by simp
  ultimately show ?thesis by (auto simp: half_ok_def ring_ok_def Let_def)
qed

theorem bio_pair_invariant_witness:
  "\<exists>xy st1 rs st2 st3. BIO_new_bio_pair 4 0 (\<lambda>n. True) \<lparr>bios = \<lambda>x. None, next_addr = 0, errq = []\<rparr> = Some (Some xy, st1) \<and>
    run_pairs (pair_addr xy) (\<lambda>n. True) [Write Side1 [1, 2, 3], Read Side2 2] st1 = Some (rs, st2) \<and>
    peer (pair_of (the_bio st2 (pair_addr xy Side1))) = Some (pair_addr xy Side2) \<and>
    BIO_free (Some (pair_addr xy Side1)) st2 = Some (True, st3) \<and> \<not> bi_init (the_bio st3 (pair_addr xy Side2))"
proof -
  let ?st = "\<lparr>bios = \<lambda>x. None, next_addr = 0, errq = []\<rparr> :: bio_state"
  have "\<exists>xy st1. BIO_new_bio_pair 4 0 (\<lambda>n. True) ?st = Some (Some xy, st1)"
    by (simp add: BIO_new_bio_pair_def BIO_new_def method_new_def bio_new_def bio_make_pair_def pair_at_def the_bio_def
        put_bio_def pair_of_def make_half_def Let_def put_pair_def upd_bio_def)
  then obtain xy st1 where n: "BIO_new_bio_pair 4 0 (\<lambda>n. True) ?st = Some (Some xy, st1)" by blast
  from run_pairs_refine [of "pair_addr xy" st1 "\<lambda>n. True" "[Write Side1 [1, 2, 3], Read Side2 2]"] new_pair [OF n]
  obtain rs st2 where r: "run_pairs (pair_addr xy) (\<lambda>n. True) [Write Side1 [1, 2, 3], Read Side2 2] st1 = Some (rs, st2)" by blast
  have "other Side1 = Side2" by (simp add: other_def)
  then show ?thesis using bio_pair_invariant [OF n r, of Side1] n r unfolding Let_def by metis
qed

lemma bio_pair_conserves:
  assumes "BIO_new_bio_pair n1 n2 alloc st = Some (Some xy, st1)"
    and "run_channel (pair_snd (pair_addr xy s) alloc) (pair_rcv (pair_addr xy (other s))) ops st1 = (acc, out, st2)"
  shows "acc = out @ ring_queue (pair_at st2 (pair_addr xy s))"
proof -
  have i: "pair_inv (pair_addr xy) st1" "abs_pair (pair_addr xy) st1 = (\<lambda>s. case s of Side1 \<Rightarrow> half0 n1 | Side2 \<Rightarrow> half0 n2)"
    using new_pair [OF assms(1)] by blast+
  then have u: "pair_usable (pair_addr xy s) (pair_addr xy (other s)) st1"
    using pair_inv_at [OF i(1), of s] pair_inv_at [OF i(1), of "other s"] by (simp add: pair_usable_def)
  have "h_queue (abs_pair (pair_addr xy) st1 s) = []" unfolding i(2) by (cases s) (simp_all add: half0_def)
  then have "pair_waiting (pair_addr xy s) st1 = []" by (simp add: pair_waiting_def abs_pair_def)
  then show ?thesis using pair.conserved [OF u assms(2)] by (simp add: pair_waiting_def half_of_def pair_at_def)
qed

end
