(* ===== verification/Bio_Mem.thy ===== *)
theory Bio_Mem
  imports Bio
begin

text \<open>
  A memory BIO is a byte string: writes append to it, reads and line reads take from its front, and
  an empty one answers with the value set for the end of the file.
\<close>

section \<open>Memory BIOs as byte strings\<close>

definition mem_ok :: "bio \<Rightarrow> bool" where
  "mem_ok b \<longleftrightarrow> bi_method b = BIO_MEM \<and> bi_init b \<and> (\<exists>m. bi_ptr b = Mem_ptr [] m \<and> buf_ok m) \<and> \<not> mem_rdonly b \<and>
     int (bm_length (mem_buf b)) \<le> INT_MAX"

definition mem_queue :: "bio \<Rightarrow> byte list" where
  "mem_queue b = bm_contents (mem_buf b)"

lemma length_contents: "buf_ok m \<Longrightarrow> length (bm_contents m) = bm_length m"
  by (auto simp: bm_contents_def buf_ok_def split: option.splits)

lemma mem_flags [simp]:
  "mem_rdonly (BIO_clear_retry_flags b) = mem_rdonly b" "mem_rdonly (BIO_set_retry_read b) = mem_rdonly b"
  "mem_rdonly (b\<lparr>bi_ptr := x\<rparr>) = mem_rdonly b" "mem_rdonly (b\<lparr>bi_num_read := n\<rparr>) = mem_rdonly b"
  "mem_rdonly (b\<lparr>bi_num_write := n\<rparr>) = mem_rdonly b"
proof -
  have "a AND BIO_FLAGS_MEM_RDONLY \<noteq> 0 \<longleftrightarrow> bit a 9" for a :: u32
    using and_exp_eq_0_iff_not_bit [of a 9] by (simp add: BIO_FLAGS_MEM_RDONLY_def)
  then show "mem_rdonly (BIO_clear_retry_flags b) = mem_rdonly b" "mem_rdonly (BIO_set_retry_read b) = mem_rdonly b"
    by (simp_all add: mem_rdonly_def BIO_clear_retry_flags_def BIO_set_retry_read_def kRetryFlags_def BIO_FLAGS_RWS_def
        BIO_FLAGS_READ_def BIO_FLAGS_WRITE_def BIO_FLAGS_IO_SPECIAL_def BIO_FLAGS_SHOULD_RETRY_def bit_simps)
qed (simp_all add: mem_rdonly_def)

lemma mem_buf_simps [simp]:
  "mem_buf (b\<lparr>bi_ptr := Mem_ptr pre m\<rparr>) = m" "mem_buf (BIO_clear_retry_flags b) = mem_buf b"
  "mem_buf (BIO_set_retry_read b) = mem_buf b" "mem_buf (b\<lparr>bi_num_read := n\<rparr>) = mem_buf b"
  "mem_buf (b\<lparr>bi_num_write := n\<rparr>) = mem_buf b" "mem_before (BIO_clear_retry_flags b) = mem_before b"
  by (simp_all add: mem_buf_def mem_before_def)

lemma bi_num_flags [simp]: "bi_num (BIO_clear_retry_flags b) = bi_num b" "bi_num (BIO_set_retry_read b) = bi_num b"
  by (simp_all add: BIO_clear_retry_flags_def BIO_set_retry_read_def)

lemma mem_read_exact:
  assumes "mem_ok b" "0 < n" "n \<le> INT_MAX"
  shows "\<exists>b'. mem_read b n =
      (if mem_queue b = [] then bi_num b else int (min (nat n) (length (mem_queue b))), take (nat n) (mem_queue b), b') \<and>
    mem_ok b' \<and> mem_queue b' = drop (nat n) (mem_queue b) \<and> bi_num b' = bi_num b \<and>
    BIO_get_retry_flags b' = (if mem_queue b = [] \<and> bi_num b \<noteq> 0 then BIO_FLAGS_READ OR BIO_FLAGS_SHOULD_RETRY else 0) \<and>
    bi_num_read b' = bi_num_read b \<and> bi_num_write b' = bi_num_write b"
proof -
  obtain m where m: "bi_ptr b = Mem_ptr [] m" "buf_ok m" using assms(1) by (auto simp: mem_ok_def)
  have mb: "mem_buf b = m" "mem_before b = []" using m by (simp_all add: mem_buf_def mem_before_def)
  have q: "mem_queue b = bm_contents m" "length (bm_contents m) = bm_length m"
    using mb length_contents [OF m(2)] by (simp_all add: mem_queue_def)
  have ok: "bi_method b = BIO_MEM" "bi_init b" "\<not> mem_rdonly b" "int (bm_length m) \<le> INT_MAX"
    using assms(1) mb by (simp_all add: mem_ok_def)
  define k where "k = min (nat n) (bm_length m)"
  have ret: "(if int (bm_length m) < INT_MAX \<and> n > int (bm_length m) then int (bm_length m) else n) = int k"
    using assms(2,3) ok(4) by (auto simp: k_def)
  show ?thesis
  proof (cases "bm_length m = 0")
    case True
    then have "bm_contents m = []" using q by simp
    then show ?thesis
      using True assms mb q ok m by (auto simp: mem_read_def Let_def mem_ok_def INT_MAX_def mem_queue_def)
  next
    case False
    then have k: "0 < k" "k \<le> bm_length m" using assms(2) by (auto simp: k_def)
    obtain bs where bs: "bm_data m = Some bs" "length bs = bm_max m" "bm_length m \<le> bm_max m"
      using m(2) False by (auto simp: buf_ok_def split: option.splits)
    have c: "bm_contents m = take (bm_length m) bs" using bs by (simp add: bm_contents_def)
    define m' where "m' = m\<lparr>bm_length := bm_length m - k, bm_data := Some (put_bytes bs 0 (take (bm_length m - k) (drop k bs)))\<rparr>"
    have r: "mem_read b n = (int k, take k bs, (BIO_clear_retry_flags b)\<lparr>bi_ptr := Mem_ptr [] m'\<rparr>)"
      unfolding mem_read_def Let_def mb ret using k ok bs mb by (simp add: m'_def)
    have l: "length (take (bm_length m - k) (drop k bs)) = bm_length m - k" using k bs by simp
    have m': "buf_ok m'" "bm_contents m' = drop k (bm_contents m)"
      using bs k l length_put_bytes [of 0 "take (bm_length m - k) (drop k bs)" bs]
        take_put_bytes [of 0 bs "take (bm_length m - k) (drop k bs)"]
      by (auto simp: buf_ok_def m'_def bm_contents_def drop_take)
    have "take k bs = take (nat n) (bm_contents m)" "drop k (bm_contents m) = drop (nat n) (bm_contents m)"
      using k c q(2) by (auto simp: k_def min_def)
    moreover have "bm_contents m \<noteq> []" using False q by auto
    ultimately show ?thesis
      using r m' ok k q by (auto simp: mem_ok_def mem_queue_def k_def m'_def)
  qed
qed


lemma int_of_size_small: "int n \<le> INT_MAX \<Longrightarrow> int_of_size n = int n"
  by (simp add: int_of_size_def INT_MAX_def signed_of_nat signed_take_bit_int_eq_self)

lemma mem_write_exact:
  assumes "mem_ok b" "d \<noteq> []"
  shows "\<exists>r es b'. mem_write b d alloc = (r, es, b') \<and> mem_ok b' \<and>
    (r = int (length d) \<and> mem_queue b' = mem_queue b @ d \<or> r = -1 \<and> mem_queue b' = mem_queue b) \<and>
    (r = -1 \<longleftrightarrow> int (length (mem_queue b)) + int (length d) > INT_MAX \<or> r = -1 \<and> \<not> (\<forall>n < 2 ^ 63. alloc n)) \<and>
    bi_num b' = bi_num b \<and> BIO_get_retry_flags b' = 0 \<and> bi_num_read b' = bi_num_read b \<and> bi_num_write b' = bi_num_write b"
proof -
  obtain m where m: "bi_ptr b = Mem_ptr [] m" "buf_ok m" using assms(1) by (auto simp: mem_ok_def)
  have mb: "mem_buf b = m" "mem_before b = []" using m by (simp_all add: mem_buf_def mem_before_def)
  have q: "mem_queue b = bm_contents m" "length (bm_contents m) = bm_length m"
    using mb length_contents [OF m(2)] by (simp_all add: mem_queue_def)
  have ok: "bi_method b = BIO_MEM" "bi_init b" "\<not> mem_rdonly b" "int (bm_length m) \<le> INT_MAX"
    using assms(1) mb by (simp_all add: mem_ok_def)
  note i = int_of_size_small [OF ok(4)]
  show ?thesis
  proof (cases "INT_MAX - int (bm_length m) < int (length d)")
    case True
    then have "mem_write b d alloc = (-1, [], BIO_clear_retry_flags b)"
      using ok by (simp add: mem_write_def Let_def mb i)
    then show ?thesis using True assms q mb ok m by (auto simp: mem_ok_def mem_queue_def)
  next
    case False
    let ?n = "bm_length m + length d"
    have nat: "nat (int (bm_length m) + int (length d)) = ?n" by simp
    obtain n m1 where g: "BUF_MEM_grow m ?n alloc = (n, m1)" by fastforce
    note k = grow_ok [OF m(2) g]
    have small: "?n < 2 ^ 62" using False by (simp add: INT_MAX_def)
    show ?thesis
    proof (cases "n = ?n")
      case True
      have pos: "?n \<noteq> 0" using assms(2) by simp
      then have c1: "buf_ok m1" "bm_length m1 = ?n" "bm_contents m1 = bm_contents m @ replicate (length d) 0"
        using k True q(2) by auto
      obtain bs where bs: "bm_data m1 = Some bs" "length bs = bm_max m1" "?n \<le> bm_max m1"
        using c1 pos by (auto simp: buf_ok_def split: option.splits)
      define m2 where "m2 = m1\<lparr>bm_data := Some (put_bytes bs (bm_length m) d)\<rparr>"
      have r: "mem_write b d alloc = (int (length d), [], (BIO_clear_retry_flags b)\<lparr>bi_ptr := Mem_ptr [] m2\<rparr>)"
        using ok False g True bs by (simp add: mem_write_def Let_def mb i BUF_MEM_grow_clean_def nat m2_def)
      have "take (bm_length m) bs = bm_contents m"
      proof -
        have "take ?n bs = bm_contents m @ replicate (length d) 0" using c1 bs by (simp add: bm_contents_def)
        then have "take (bm_length m) (take ?n bs) = bm_contents m" using q(2) by simp
        then show ?thesis by (simp add: min_def)
      qed
      then have "bm_contents m2 = bm_contents m @ d" "buf_ok m2"
        using bs c1 take_put_bytes [of "bm_length m" bs d] length_put_bytes [of "bm_length m" d bs]
        by (auto simp: m2_def bm_contents_def buf_ok_def)
      moreover have "bm_length m2 = ?n" using c1 by (simp add: m2_def)
      ultimately show ?thesis using r ok False q by (auto simp: mem_ok_def mem_queue_def)
    next
      case ne: False
      then have "n = 0" "m1 = m" "\<not> (\<forall>n < 2 ^ 63. alloc n)" using k small by auto
      moreover have "mem_write b d alloc = (-1, [MALLOC_FAILURE], (BIO_clear_retry_flags b)\<lparr>bi_ptr := Mem_ptr [] m1\<rparr>)"
        using ok False g ne by (simp add: mem_write_def Let_def mb i BUF_MEM_grow_clean_def nat)
      ultimately show ?thesis using ok q m by (auto simp: mem_ok_def mem_queue_def)
    qed
  qed
qed


lemma line_length_bounds: "j \<noteq> 0 \<Longrightarrow> p \<noteq> [] \<Longrightarrow> 0 < line_length j p \<and> line_length j p \<le> j \<and> line_length j p \<le> length p"
proof (induction j p rule: line_length.induct)
  case (2 j p)
  then obtain c p' where p: "p = c # p'" by (cases p) auto
  show ?case using 2 p by (cases "j = 0"; cases "p' = []"; cases j) fastforce+
qed simp

lemma line_length_take: "j \<le> n \<Longrightarrow> line_length j (take n p) = line_length j p"
proof (induction j p arbitrary: n rule: line_length.induct)
  case (2 j p)
  then show ?case by (cases p; cases n) auto
qed simp

lemma mem_gets_exact:
  assumes "mem_ok b" "n \<le> INT_MAX"
  shows "\<exists>b'. mem_gets b n =
      (if n \<le> 1 \<or> mem_queue b = [] then 0 else int (line_length (min (nat (n - 1)) (length (mem_queue b))) (mem_queue b)),
       if n \<le> 1 then [] else take (line_length (min (nat (n - 1)) (length (mem_queue b))) (mem_queue b)) (mem_queue b), b') \<and>
    mem_ok b' \<and> bi_num b' = bi_num b \<and>
    mem_queue b' = (if n \<le> 1 then mem_queue b else drop (line_length (min (nat (n - 1)) (length (mem_queue b))) (mem_queue b)) (mem_queue b))"
proof -
  obtain m where m: "bi_ptr b = Mem_ptr [] m" "buf_ok m" using assms(1) by (auto simp: mem_ok_def)
  have mb: "mem_buf b = m" using m by (simp add: mem_buf_def)
  have q: "mem_queue b = bm_contents m" "length (bm_contents m) = bm_length m"
    using mb length_contents [OF m(2)] by (simp_all add: mem_queue_def)
  have ok: "int (bm_length m) \<le> INT_MAX" using assms(1) mb by (simp add: mem_ok_def)
  note i = int_of_size_small [OF ok]
  define j where "j = min (nat (n - 1)) (bm_length m)"
  show ?thesis
  proof (cases "n \<le> 1 \<or> bm_length m = 0")
    case True
    then have "mem_gets b n = (0, [], BIO_clear_retry_flags b)" by (auto simp: mem_gets_def Let_def mb i)
    moreover have "mem_ok (BIO_clear_retry_flags b)" "mem_queue (BIO_clear_retry_flags b) = mem_queue b"
      using assms(1) by (simp_all add: mem_ok_def mem_queue_def)
    moreover have "n \<le> 1 \<or> mem_queue b = []" using True q by auto
    ultimately show ?thesis using q by auto
  next
    case False
    then have j: "j \<noteq> 0" "j \<le> bm_length m" by (auto simp: j_def)
    obtain bs where bs: "bm_data m = Some bs"
      using m(2) False by (auto simp: buf_ok_def split: option.splits)
    define k where "k = line_length j (bm_contents m)"
    have "k = line_length j bs" using j(2) bs by (simp add: k_def bm_contents_def line_length_take)
    moreover have "nat (if n - 1 < int (bm_length m) then n - 1 else int (bm_length m)) = j"
      "\<not> (if n - 1 < int (bm_length m) then n - 1 else int (bm_length m)) \<le> 0"
      using False by (auto simp: j_def)
    ultimately have g: "mem_gets b n = mem_read (BIO_clear_retry_flags b) (int k)"
      unfolding mem_gets_def Let_def mb i using bs by simp
    have "bm_contents m \<noteq> []" using False q by auto
    from line_length_bounds [OF j(1) this] have k: "0 < k" "k \<le> j" "k \<le> bm_length m" using q by (auto simp: k_def)
    have c: "mem_ok (BIO_clear_retry_flags b)" "mem_queue (BIO_clear_retry_flags b) = mem_queue b"
      using assms(1) by (simp_all add: mem_ok_def mem_queue_def)
    have "int k \<le> INT_MAX" using k(3) ok by linarith
    from mem_read_exact [OF c(1) _ this] k obtain b' where "mem_read (BIO_clear_retry_flags b) (int k) =
        (int k, take k (mem_queue b), b')" "mem_ok b'" "mem_queue b' = drop k (mem_queue b)" "bi_num b' = bi_num b"
      using c(2) q \<open>bm_contents m \<noteq> []\<close> by (auto simp: min_def)
    then show ?thesis using g False q k_def j_def \<open>bm_contents m \<noteq> []\<close> by auto
  qed
qed

datatype mem_op = Mem_write "byte list" | Mem_read int | Mem_gets int | Mem_reset | Mem_eof | Mem_pending | Mem_eof_return int

text \<open>The abstract BIO: the bytes and what a read of no bytes returns.\<close>

fun mem_step :: "mem_op \<Rightarrow> byte list \<times> int \<Rightarrow> (int \<times> byte list) \<times> byte list \<times> int" where
  "mem_step (Mem_write d) (q, e) =
     (if d = [] then ((0, []), q, e)
      else if int (length q) + int (length d) > INT_MAX then ((-1, []), q, e)
      else ((int (length d), []), q @ d, e))"
| "mem_step (Mem_read n) (q, e) =
     (if n \<le> 0 then ((0, []), q, e)
      else if q = [] then ((e, []), q, e)
      else ((int (min (nat n) (length q)), take (nat n) q), drop (nat n) q, e))"
| "mem_step (Mem_gets n) (q, e) =
     (if n \<le> 1 \<or> q = [] then ((0, []), q, e)
      else let k = line_length (min (nat (n - 1)) (length q)) q in ((int k, take k q), drop k q, e))"
| "mem_step Mem_reset (q, e) = ((1, []), [], e)"
| "mem_step Mem_eof (q, e) = ((of_bool (q = []), []), q, e)"
| "mem_step Mem_pending (q, e) = ((int (length q), []), q, e)"
| "mem_step (Mem_eof_return n) (q, e) = ((1, []), q, n)"

fun run_mem :: "nat \<Rightarrow> (nat \<Rightarrow> bool) \<Rightarrow> mem_op \<Rightarrow> bio_state \<Rightarrow> ((int \<times> byte list) \<times> bio_state) option" where
  "run_mem a alloc (Mem_write d) st = map_option (\<lambda>(r, st). ((r, []), st)) (BIO_write (Some a) d alloc st)"
| "run_mem a alloc (Mem_read n) st = map_option (\<lambda>(r, bs, st). ((r, bs), st)) (BIO_read (Some a) n st)"
| "run_mem a alloc (Mem_gets n) st = (case BIO_gets (Some a) n st of (r, bs, st) \<Rightarrow> Some ((r, bs), st))"
| "run_mem a alloc Mem_reset st = (case BIO_reset (Some a) st of (r, st) \<Rightarrow> Some ((r, []), st))"
| "run_mem a alloc Mem_eof st = (case BIO_eof (Some a) st of (r, st) \<Rightarrow> Some ((r, []), st))"
| "run_mem a alloc Mem_pending st = Some ((int (BIO_pending (Some a) st), []), st)"
| "run_mem a alloc (Mem_eof_return n) st = (case BIO_ctrl (Some a) (C_SET_BUF_MEM_EOF_RETURN n) st of (r, st) \<Rightarrow> Some ((r, []), st))"

text \<open>The arguments that are an \<open>int\<close>.\<close>

fun op_int :: "mem_op \<Rightarrow> bool" where
  "op_int (Mem_read n) = (n \<le> INT_MAX)" | "op_int (Mem_gets n) = (n \<le> INT_MAX)" | "op_int op = True"

lemma mem_ok_num [simp]:
  "mem_ok (b\<lparr>bi_num_read := n\<rparr>) = mem_ok b" "mem_ok (b\<lparr>bi_num_write := n\<rparr>) = mem_ok b" "mem_ok (b\<lparr>bi_num := i\<rparr>) = mem_ok b"
  "mem_queue (b\<lparr>bi_num_read := n\<rparr>) = mem_queue b" "mem_queue (b\<lparr>bi_num_write := n\<rparr>) = mem_queue b"
  "mem_queue (b\<lparr>bi_num := i\<rparr>) = mem_queue b"
  by (simp_all add: mem_ok_def mem_queue_def) (simp_all add: mem_buf_def mem_rdonly_def)

lemma errors_bios [simp]: "the_bio (fold put_error es st) a = the_bio st a"
  by (induction es arbitrary: st) simp_all

lemma count_bios [simp]:
  "mem_ok (the_bio (count_read a r st) x) = mem_ok (the_bio st x)" "mem_queue (the_bio (count_read a r st) x) = mem_queue (the_bio st x)"
  "bi_num (the_bio (count_read a r st) x) = bi_num (the_bio st x)"
  "mem_ok (the_bio (count_write a r st) x) = mem_ok (the_bio st x)" "mem_queue (the_bio (count_write a r st) x) = mem_queue (the_bio st x)"
  "bi_num (the_bio (count_write a r st) x) = bi_num (the_bio st x)"
  by (simp_all add: count_read_def count_write_def upd_bio_def)

lemma run_mem_refines:
  assumes "mem_ok (the_bio st a)" "\<forall>n < 2 ^ 63. alloc n" "op_int op"
  shows "\<exists>r st'. run_mem a alloc op st = Some (r, st') \<and> mem_ok (the_bio st' a) \<and>
    mem_step op (mem_queue (the_bio st a), bi_num (the_bio st a)) = (r, mem_queue (the_bio st' a), bi_num (the_bio st' a))"
proof -
  let ?b = "the_bio st a"
  have ok: "bi_method ?b = BIO_MEM" "bi_init ?b" using assms(1) by (simp_all add: mem_ok_def)
  have len: "length (mem_queue ?b) = bm_length (mem_buf ?b)"
    using assms(1) by (auto simp: mem_ok_def mem_queue_def mem_buf_def length_contents)
  have ctrl: "BIO_ctrl (Some a) cmd st = (case mem_ctrl ?b cmd of (ret, b) \<Rightarrow> (ret, put_bio a b st))" for cmd
    using ok by (simp add: BIO_ctrl_def)
  show ?thesis
  proof (cases op)
    case (Mem_write d)
    show ?thesis
    proof (cases "d = []")
      case True
      then show ?thesis using Mem_write ok assms(1) by (simp add: BIO_write_def)
    next
      case False
      from mem_write_exact [OF assms(1) False, of alloc] obtain r es b' where
        w: "mem_write ?b d alloc = (r, es, b')" "mem_ok b'" "bi_num b' = bi_num ?b"
          "r = int (length d) \<and> mem_queue b' = mem_queue ?b @ d \<or> r = -1 \<and> mem_queue b' = mem_queue ?b"
          "r = -1 \<longleftrightarrow> int (length (mem_queue ?b)) + int (length d) > INT_MAX" using assms(2) by blast
      have "run_mem a alloc op st = Some ((r, []), count_write a r (fold put_error es (put_bio a b' st)))"
        using Mem_write ok False w(1) by (simp add: BIO_write_def method_write_def)
      then show ?thesis using Mem_write False w by auto
    qed
  next
    case (Mem_read n)
    show ?thesis
    proof (cases "n \<le> 0")
      case True
      then show ?thesis using Mem_read ok assms(1) by (simp add: BIO_read_def)
    next
      case False
      then have "0 < n" "n \<le> INT_MAX" using assms(3) Mem_read by simp_all
      from mem_read_exact [OF assms(1) this] obtain b' where
        w: "mem_read ?b n = (if mem_queue ?b = [] then bi_num ?b else int (min (nat n) (length (mem_queue ?b))),
            take (nat n) (mem_queue ?b), b')" "mem_ok b'" "mem_queue b' = drop (nat n) (mem_queue ?b)" "bi_num b' = bi_num ?b"
        by blast
      then show ?thesis using Mem_read ok False by (auto simp: BIO_read_def method_read_def)
    qed
  next
    case (Mem_gets n)
    show ?thesis
    proof (cases "n \<le> 0")
      case True
      then show ?thesis using Mem_gets ok assms(1) by (simp add: BIO_gets_def)
    next
      case False
      have "n \<le> INT_MAX" using assms(3) Mem_gets by simp
      from mem_gets_exact [OF assms(1) this] show ?thesis using Mem_gets ok False by (auto simp: BIO_gets_def Let_def)
    qed
  next
    case Mem_reset
    obtain m where m: "bi_ptr ?b = Mem_ptr [] m" "buf_ok m" using assms(1) by (auto simp: mem_ok_def)
    have mb: "mem_buf ?b = m" "mem_before ?b = []" using m by (simp_all add: mem_buf_def mem_before_def)
    show ?thesis
    proof (cases "bm_data m")
      case None
      then have "mem_queue ?b = []" using mb by (simp add: mem_queue_def bm_contents_def)
      then show ?thesis using Mem_reset assms(1) None mb by (simp add: BIO_reset_def ctrl mem_ctrl_def Let_def)
    next
      case (Some bs)
      then have "length (put_bytes bs 0 (replicate (bm_max m) 0)) = bm_max m"
        using m(2) length_put_bytes [of 0 "replicate (bm_max m) 0" bs] by (simp add: buf_ok_def)
      then show ?thesis
        using Mem_reset assms(1) Some mb
        by (simp add: BIO_reset_def ctrl mem_ctrl_def Let_def mem_ok_def mem_queue_def bm_contents_def buf_ok_def INT_MAX_def)
    qed
  next
    case Mem_eof
    then show ?thesis using assms(1) len by (auto simp: BIO_eof_def ctrl mem_ctrl_def Let_def)
  next
    case Mem_pending
    then show ?thesis using assms(1) len by (simp add: BIO_pending_def ctrl mem_ctrl_def Let_def)
  next
    case (Mem_eof_return n)
    then show ?thesis using assms(1) by (simp add: ctrl mem_ctrl_def Let_def)
  qed
qed


fun run_mems :: "nat \<Rightarrow> (nat \<Rightarrow> bool) \<Rightarrow> mem_op list \<Rightarrow> bio_state \<Rightarrow> ((int \<times> byte list) list \<times> bio_state) option" where
  "run_mems a alloc [] st = Some ([], st)"
| "run_mems a alloc (op # ops) st =
     (case run_mem a alloc op st of None \<Rightarrow> None
      | Some (r, st) \<Rightarrow> map_option (\<lambda>(rs, st). (r # rs, st)) (run_mems a alloc ops st))"

fun mem_steps :: "mem_op list \<Rightarrow> byte list \<times> int \<Rightarrow> (int \<times> byte list) list \<times> byte list \<times> int" where
  "mem_steps [] q = ([], q)"
| "mem_steps (op # ops) q = (case mem_step op q of (r, q) \<Rightarrow> case mem_steps ops q of (rs, q) \<Rightarrow> (r # rs, q))"

lemma run_mems_refine:
  "mem_ok (the_bio st a) \<Longrightarrow> \<forall>n < 2 ^ 63. alloc n \<Longrightarrow> list_all op_int ops \<Longrightarrow>
   \<exists>rs st'. run_mems a alloc ops st = Some (rs, st') \<and> mem_ok (the_bio st' a) \<and>
     mem_steps ops (mem_queue (the_bio st a), bi_num (the_bio st a)) = (rs, mem_queue (the_bio st' a), bi_num (the_bio st' a))"
proof (induction ops arbitrary: st)
  case (Cons op ops)
  have "op_int op" using Cons.prems(3) by simp
  from run_mem_refines [OF Cons.prems(1,2) this] obtain r st1 where 1: "run_mem a alloc op st = Some (r, st1)" "mem_ok (the_bio st1 a)"
    "mem_step op (mem_queue (the_bio st a), bi_num (the_bio st a)) = (r, mem_queue (the_bio st1 a), bi_num (the_bio st1 a))" by blast
  have "list_all op_int ops" using Cons.prems(3) by simp
  from Cons.IH [OF 1(2) Cons.prems(2) this] obtain rs st2 where "run_mems a alloc ops st1 = Some (rs, st2)" "mem_ok (the_bio st2 a)"
    "mem_steps ops (mem_queue (the_bio st1 a), bi_num (the_bio st1 a)) = (rs, mem_queue (the_bio st2 a), bi_num (the_bio st2 a))" by blast
  then show ?case using 1 by simp
qed simp

lemma new_mem:
  assumes "BIO_new BIO_MEM alloc st = (Some a, st')"
  shows "mem_ok (the_bio st' a) \<and> mem_queue (the_bio st' a) = [] \<and> bi_num (the_bio st' a) = -1"
proof -
  have "the_bio (s\<lparr>next_addr := n\<rparr>) x = the_bio s x" for s n x by (simp add: the_bio_def)
  then show ?thesis
    using assms by (auto simp: BIO_new_def method_new_def mem_new_def BUF_MEM_new_def mem_ok_def mem_queue_def mem_buf_def
        bm_contents_def buf_ok_def mem_rdonly_def INT_MAX_def split: if_splits)
qed



section \<open>A memory BIO as a channel\<close>

definition mem_snd :: "nat \<Rightarrow> (nat \<Rightarrow> bool) \<Rightarrow> bio_state \<Rightarrow> byte list \<Rightarrow> int \<times> bio_state" where
  "mem_snd a alloc st d = the (BIO_write (Some a) d alloc st)"

definition mem_rcv :: "nat \<Rightarrow> bio_state \<Rightarrow> int \<Rightarrow> int \<times> byte list \<times> bio_state" where
  "mem_rcv a st n = the (BIO_read (Some a) (min n INT_MAX) st)"

interpretation mem: byte_channel "mem_snd a alloc" "mem_rcv a" "\<lambda>st. mem_queue (the_bio st a)" "\<lambda>st. mem_ok (the_bio st a)"
  for a alloc
proof unfold_locales
  fix st d r st'
  assume ok: "mem_ok (the_bio st a)" and s: "mem_snd a alloc st d = (r, st')"
  then have b: "bi_method (the_bio st a) = BIO_MEM" "bi_init (the_bio st a)" by (simp_all add: mem_ok_def)
  show "mem_ok (the_bio st' a) \<and> nat r \<le> length d \<and> mem_queue (the_bio st' a) = mem_queue (the_bio st a) @ take (nat r) d"
  proof (cases "d = []")
    case True
    then show ?thesis using s ok b by (auto simp: mem_snd_def BIO_write_def)
  next
    case False
    from mem_write_exact [OF ok False, of alloc] obtain r1 es b' where
      w: "mem_write (the_bio st a) d alloc = (r1, es, b')" "mem_ok b'"
        "r1 = int (length d) \<and> mem_queue b' = mem_queue (the_bio st a) @ d \<or> r1 = -1 \<and> mem_queue b' = mem_queue (the_bio st a)"
      by blast
    have "r = r1" "st' = count_write a r1 (fold put_error es (put_bio a b' st))"
      using s b False w(1) by (auto simp: mem_snd_def BIO_write_def method_write_def)
    then show ?thesis using w(2,3) by auto
  qed
next
  fix st n r bs st'
  assume ok: "mem_ok (the_bio st a)" and s: "mem_rcv a st n = (r, bs, st')"
  then have b: "bi_method (the_bio st a) = BIO_MEM" "bi_init (the_bio st a)" by (simp_all add: mem_ok_def)
  show "mem_ok (the_bio st' a) \<and> bs @ mem_queue (the_bio st' a) = mem_queue (the_bio st a)"
  proof (cases "min n INT_MAX \<le> 0")
    case True
    then show ?thesis using s ok b by (auto simp: mem_rcv_def BIO_read_def)
  next
    case False
    then have "0 < min n INT_MAX" "min n INT_MAX \<le> INT_MAX" by linarith simp
    from mem_read_exact [OF ok this] obtain r1 b' where
      w: "mem_read (the_bio st a) (min n INT_MAX) = (r1, take (nat (min n INT_MAX)) (mem_queue (the_bio st a)), b')"
        "mem_ok b'" "mem_queue b' = drop (nat (min n INT_MAX)) (mem_queue (the_bio st a))" by blast
    have "bs = take (nat (min n INT_MAX)) (mem_queue (the_bio st a))" "st' = count_read a r1 (put_bio a b' st)"
      using s b False w(1) by (auto simp: mem_rcv_def BIO_read_def method_read_def)
    then show ?thesis using w(2,3) by simp
  qed
qed

lemma bio_mem_conserves:
  assumes "BIO_new BIO_MEM alloc st = (Some a, st1)" "run_channel (mem_snd a alloc) (mem_rcv a) ops st1 = (acc, out, st2)"
  shows "\<exists>rest. BIO_mem_contents (the_bio st2 a) = Some rest \<and> acc = out @ rest"
proof -
  note m = new_mem [OF assms(1)]
  have "mem_ok (the_bio st2 a) \<and> acc = out @ mem_queue (the_bio st2 a)"
    using mem.conserved [OF conjunct1 [OF m] assms(2)] m by simp
  then show ?thesis by (auto simp: BIO_mem_contents_def mem_ok_def mem_queue_def)
qed

end
