(* ===== verification/Bio_Asn1.thy ===== *)
theory Bio_Asn1
  imports Bio_Mem Der
begin

text \<open>
  Reading one ASN.1 element from a BIO (\<open>BIO_read_asn1\<close> in \<open>crypto/bio/bio.c\<close>). For a memory BIO the
  result is determined by its contents and its end-of-file value, and agrees with the parser of
  \<open>crypto/bytestring/cbs.c\<close> on definite lengths.
\<close>

definition BIO_set_mem_eof_return :: "nat option \<Rightarrow> int \<Rightarrow> bio_state \<Rightarrow> int \<times> bio_state" where
  "BIO_set_mem_eof_return a eof_value = BIO_ctrl a (C_SET_BUF_MEM_EOF_RETURN eof_value)"

section \<open>Reading into a block\<close>

text \<open>
  \<open>out\<close> is the block with the position written next. \<open>Inl\<close> is a failure with the value of
  \<open>*out_eof_on_first_read\<close>; the loop returns \<open>None\<close> if it never ends.
\<close>

partial_function (option) bio_read_full_loop ::
  "nat option \<Rightarrow> byte list \<Rightarrow> nat \<Rightarrow> nat \<Rightarrow> bool \<Rightarrow> bio_state \<Rightarrow> ((bool + byte list) \<times> bio_state) option"
where
  "bio_read_full_loop a out i len first_read st =
     (if len = 0 then Some (Inr out, st)
      else case BIO_read a (if int len \<le> INT_MAX then int len else INT_MAX) st of
             None \<Rightarrow> None
           | Some (ret, bs, st) \<Rightarrow>
               (if ret \<le> 0 then Some (Inl (first_read \<and> ret = 0), st)
                else bio_read_full_loop a (put_bytes out i bs) (i + nat ret) ((len + size_mod - nat ret) mod size_mod) False st))"

definition bio_read_full :: "nat option \<Rightarrow> byte list \<Rightarrow> nat \<Rightarrow> nat \<Rightarrow> bio_state \<Rightarrow> ((bool + byte list) \<times> bio_state) option" where
  "bio_read_full a out i len st = bio_read_full_loop a out i len True st"

definition kChunkSize :: nat where "kChunkSize = 4096"

partial_function (option) bio_read_all_loop ::
  "nat option \<Rightarrow> byte list \<Rightarrow> nat \<Rightarrow> nat \<Rightarrow> nat \<Rightarrow> (nat \<Rightarrow> bool) \<Rightarrow> bio_state \<Rightarrow> ((byte list \<times> nat) option \<times> bio_state) option"
where
  "bio_read_all_loop a out len done_len max_len alloc st =
     (if done_len = len then Some (None, st)
      else let todo = (len + size_mod - done_len) mod size_mod
           in case BIO_read a (int_of_size todo) st of
                None \<Rightarrow> None
              | Some (n, bs, st) \<Rightarrow>
                  (if n = 0 then Some (Some (out, done_len), st)
                   else if n = -1 then Some (None, st)
                   else
                     let out = put_bytes out done_len bs;
                         done_len = nat ((int done_len + n) mod int size_mod)
                     in if len < max_len \<and> (len + size_mod - done_len) mod size_mod < kChunkSize div 2
                        then (let len = (len + kChunkSize) mod size_mod;
                                  len = (if len < kChunkSize \<or> len > max_len then max_len else len)
                              in if \<not> alloc len then Some (None, st)
                                 else bio_read_all_loop a (realloc_bytes (Some out) len) len done_len max_len alloc st)
                        else bio_read_all_loop a out len done_len max_len alloc st))"

text \<open>The block and \<open>*out_len\<close>.\<close>

definition bio_read_all ::
  "nat option \<Rightarrow> byte list \<Rightarrow> nat \<Rightarrow> (nat \<Rightarrow> bool) \<Rightarrow> bio_state \<Rightarrow> ((byte list \<times> nat) option \<times> bio_state) option"
where
  "bio_read_all a prefix max_len alloc st =
     (let len = (length prefix + kChunkSize) mod size_mod;
          len = (if len > max_len then max_len else len)
      in if len < length prefix then Some (None, st)
         else if \<not> alloc len then Some (None, st)
         else bio_read_all_loop a (put_bytes (replicate len 0) 0 prefix) len (length prefix) max_len alloc st)"

section \<open>One ASN.1 element\<close>

text \<open>The end of the function: the limit on the length, and the rest of the element behind its header.\<close>

definition bio_read_body ::
  "nat option \<Rightarrow> byte list \<Rightarrow> nat \<Rightarrow> nat \<Rightarrow> nat \<Rightarrow> (nat \<Rightarrow> bool) \<Rightarrow> bio_state \<Rightarrow> ((byte list \<times> nat) option \<times> bio_state) option"
where
  "bio_read_body a header len header_len max_len alloc st =
     (if (len + header_len) mod size_mod < len \<or> (len + header_len) mod size_mod > max_len \<or> int len > INT_MAX
      then Some (None, put_error ASN1_TOO_LONG st)
      else let len = (len + header_len) mod size_mod
           in if \<not> alloc len then Some (None, put_error MALLOC_FAILURE st)
              else case bio_read_full a (put_bytes (replicate len 0) 0 (take header_len header)) header_len (len - header_len) st of
                     None \<Rightarrow> None
                   | Some (Inl eof, st) \<Rightarrow> Some (None, put_error ASN1_NOT_ENOUGH_DATA st)
                   | Some (Inr out, st) \<Rightarrow> Some (Some (out, len), st))"

definition BIO_read_asn1 ::
  "nat option \<Rightarrow> nat \<Rightarrow> (nat \<Rightarrow> bool) \<Rightarrow> bio_state \<Rightarrow> ((byte list \<times> nat) option \<times> bio_state) option"
where
  "BIO_read_asn1 a max_len alloc st =
     (case bio_read_full a (replicate 6 0) 0 2 st of
        None \<Rightarrow> None
      | Some (Inl eof_on_first_read, st) \<Rightarrow>
          Some (None, put_error (if eof_on_first_read then ASN1_HEADER_TOO_LONG else ASN1_NOT_ENOUGH_DATA) st)
      | Some (Inr header, st) \<Rightarrow>
          (let tag = header ! 0; length_byte = header ! 1
           in if tag AND 0x1f = 0x1f then Some (None, put_error ASN1_DECODE_ERROR st)
              else if length_byte AND 0x80 = 0 then bio_read_body a header (unat length_byte) 2 max_len alloc st
              else
                let num_bytes = unat (length_byte AND 0x7f)
                in if tag AND 0x20 \<noteq> 0 \<and> num_bytes = 0 then
                     (case bio_read_all a (take 2 header) max_len alloc st of
                        None \<Rightarrow> None
                      | Some (None, st) \<Rightarrow> Some (None, put_error ASN1_NOT_ENOUGH_DATA st)
                      | Some (Some r, st) \<Rightarrow> Some (Some r, st))
                   else if num_bytes = 0 \<or> num_bytes > 4 then Some (None, put_error ASN1_DECODE_ERROR st)
                   else
                     (case bio_read_full a header 2 num_bytes st of
                        None \<Rightarrow> None
                      | Some (Inl eof, st) \<Rightarrow> Some (None, put_error ASN1_NOT_ENOUGH_DATA st)
                      | Some (Inr header, st) \<Rightarrow>
                          (let len32 = foldl (\<lambda>v b. push_bit 8 v OR ucast b) 0 (take num_bytes (drop 2 header)) :: u32
                           in if len32 < 128 then Some (None, put_error ASN1_DECODE_ERROR st)
                              else if drop_bit ((num_bytes - 1) * 8) len32 = 0 then Some (None, put_error ASN1_DECODE_ERROR st)
                              else bio_read_body a header (unat len32) (2 + num_bytes) max_len alloc st))))"

section \<open>Reading from a memory BIO\<close>

lemma mem_bio_read:
  assumes "mem_ok (the_bio st a)" "0 < n" "n \<le> INT_MAX"
  shows "\<exists>st'. BIO_read (Some a) n st =
      Some (if mem_queue (the_bio st a) = [] then bi_num (the_bio st a) else int (min (nat n) (length (mem_queue (the_bio st a)))),
        take (nat n) (mem_queue (the_bio st a)), st') \<and>
    mem_ok (the_bio st' a) \<and> mem_queue (the_bio st' a) = drop (nat n) (mem_queue (the_bio st a)) \<and>
    bi_num (the_bio st' a) = bi_num (the_bio st a)"
proof -
  have ok: "bi_method (the_bio st a) = BIO_MEM" "bi_init (the_bio st a)" using assms(1) by (simp_all add: mem_ok_def)
  from mem_read_exact [OF assms] obtain b' where
    w: "mem_read (the_bio st a) n = (if mem_queue (the_bio st a) = [] then bi_num (the_bio st a)
          else int (min (nat n) (length (mem_queue (the_bio st a)))), take (nat n) (mem_queue (the_bio st a)), b')"
      "mem_ok b'" "mem_queue b' = drop (nat n) (mem_queue (the_bio st a))" "bi_num b' = bi_num (the_bio st a)" by blast
  then show ?thesis using ok assms(2) by (auto simp: BIO_read_def method_read_def)
qed

lemma size_sub: "k \<le> n \<Longrightarrow> n < m \<Longrightarrow> (n + m - k) mod m = n - (k :: nat)"
  by (metis add_diff_assoc2 mod_add_self2 mod_less less_imp_diff_less)

lemma size_sub_back:
  assumes "x < m" "n < m"
  shows "(n + m - (n + m - x) mod m) mod m = (x :: nat)"
proof (cases "x \<le> n")
  case True
  then have "(n + m - x) mod m = n - x" using assms(2) by (rule size_sub)
  moreover have "(n + m - (n - x)) mod m = n - (n - x)" by (rule size_sub) (use assms(2) in simp_all)
  ultimately show ?thesis using True by simp
next
  case False
  then have "(n + m - x) mod m = n + m - x" using assms by (intro mod_less) linarith
  moreover have "n + m - (n + m - x) = x" using False assms(1) by linarith
  ultimately show ?thesis using assms(1) by simp
qed

lemma mem_bio_read_data:
  assumes "mem_ok (the_bio st a)" "0 < n" "int n \<le> INT_MAX" "mem_queue (the_bio st a) = q" "q \<noteq> []"
  obtains st' where "BIO_read (Some a) (int n) st = Some (int (min n (length q)), take n q, st')" "mem_ok (the_bio st' a)"
    "mem_queue (the_bio st' a) = drop n q" "bi_num (the_bio st' a) = bi_num (the_bio st a)"
proof -
  have "0 < int n" using assms(2) by simp
  from mem_bio_read [OF assms(1) this assms(3)] show ?thesis using that assms(4,5) by (simp only: if_False nat_int) metis
qed

lemma mem_bio_read_dry:
  assumes "mem_ok (the_bio st a)" "0 < n" "n \<le> INT_MAX" "mem_queue (the_bio st a) = []"
  obtains st' where "BIO_read (Some a) n st = Some (bi_num (the_bio st a), [], st')" "mem_ok (the_bio st' a)"
    "mem_queue (the_bio st' a) = []" "bi_num (the_bio st' a) = bi_num (the_bio st a)"
  using mem_bio_read [OF assms(1-3)] assms(4) that by auto

lemma mem_queue_small: "mem_ok b \<Longrightarrow> int (length (mem_queue b)) \<le> INT_MAX"
  by (auto simp: mem_ok_def mem_queue_def mem_buf_def length_contents)

lemma read_full_dry:
  assumes "mem_ok (the_bio st a)" "0 < n" "bi_num (the_bio st a) \<le> 0" "mem_queue (the_bio st a) = []"
  shows "\<exists>st'. bio_read_full_loop (Some a) out i n first st = Some (Inl (first \<and> bi_num (the_bio st a) = 0), st') \<and>
    mem_ok (the_bio st' a) \<and> bi_num (the_bio st' a) = bi_num (the_bio st a)"
proof -
  define m where "m = (if int n \<le> INT_MAX then int n else INT_MAX)"
  have m: "0 < m" "m \<le> INT_MAX" using assms(2) by (simp_all add: m_def INT_MAX_def)
  from mem_bio_read [OF assms(1) m] obtain st1 where
    r: "BIO_read (Some a) m st = Some (bi_num (the_bio st a), [], st1)" "mem_ok (the_bio st1 a)"
      "bi_num (the_bio st1 a) = bi_num (the_bio st a)" using assms(4) by auto
  then show ?thesis
    by (subst bio_read_full_loop.simps, unfold m_def [symmetric] r(1)) (use assms in simp)
qed

lemma read_full_mem:
  assumes "mem_ok (the_bio st a)" "n < size_mod" "bi_num (the_bio st a) \<le> 0"
  shows "\<exists>r st'. bio_read_full_loop (Some a) out i n first st = Some (r, st') \<and> mem_ok (the_bio st' a) \<and>
    bi_num (the_bio st' a) = bi_num (the_bio st a) \<and>
    (if n \<le> length (mem_queue (the_bio st a))
     then r = Inr (if n = 0 then out else put_bytes out i (take n (mem_queue (the_bio st a)))) \<and>
       mem_queue (the_bio st' a) = drop n (mem_queue (the_bio st a))
     else \<exists>e. r = Inl e \<and> (e \<longleftrightarrow> first \<and> mem_queue (the_bio st a) = [] \<and> bi_num (the_bio st a) = 0))"
proof -
  let ?q = "mem_queue (the_bio st a)"
  have small: "int (length ?q) \<le> INT_MAX" using mem_queue_small [OF assms(1)] .
  define m where "m = (if int n \<le> INT_MAX then int n else INT_MAX)"
  consider (zero) "n = 0" | (short) "0 < n" "length ?q < n" | (full) "0 < n" "n \<le> length ?q" by linarith
  then show ?thesis
  proof cases
    case zero
    then show ?thesis using assms by (subst bio_read_full_loop.simps) simp
  next
    case full
    then have m: "m = int n" "0 < m" "m \<le> INT_MAX" using small by (simp_all add: m_def)
    have q: "?q \<noteq> []" "int n \<le> INT_MAX" using full m by auto
    obtain st1 where "BIO_read (Some a) (int n) st = Some (int (min n (length ?q)), take n ?q, st1)" "mem_ok (the_bio st1 a)"
      "mem_queue (the_bio st1 a) = drop n ?q" "bi_num (the_bio st1 a) = bi_num (the_bio st a)"
      using mem_bio_read_data [OF assms(1) full(1) q(2) refl q(1)] by metis
    then have r: "BIO_read (Some a) m st = Some (int n, take n ?q, st1)" "mem_ok (the_bio st1 a)" "mem_queue (the_bio st1 a) = drop n ?q"
        "bi_num (the_bio st1 a) = bi_num (the_bio st a)" using full m(1) by (simp_all add: min_absorb1)
    have "bio_read_full_loop (Some a) out i n first st =
        bio_read_full_loop (Some a) (put_bytes out i (take n ?q)) (i + n) 0 False st1"
      by (subst bio_read_full_loop.simps, unfold m_def [symmetric] r(1)) (use full in simp)
    then have "bio_read_full_loop (Some a) out i n first st = Some (Inr (put_bytes out i (take n ?q)), st1)"
      by (subst (asm) bio_read_full_loop.simps) simp
    then show ?thesis using r full by auto
  next
    case short
    show ?thesis
    proof (cases "?q = []")
      case True
      then show ?thesis using read_full_dry [OF assms(1) short(1) assms(3) True] short by auto
    next
      case False
      have m: "0 < m" "m \<le> INT_MAX" "length ?q \<le> nat m" using short small by (auto simp: m_def INT_MAX_def)
      from mem_bio_read [OF assms(1) m(1,2)] obtain st1 where
        r: "BIO_read (Some a) m st = Some (int (length ?q), ?q, st1)" "mem_ok (the_bio st1 a)" "mem_queue (the_bio st1 a) = []"
          "bi_num (the_bio st1 a) = bi_num (the_bio st a)" using False m(3) by (auto simp: min_def)
      have w: "(n + size_mod - length ?q) mod size_mod = n - length ?q"
        by (rule size_sub) (use short assms(2) in simp_all)
      have "bio_read_full_loop (Some a) out i n first st =
          bio_read_full_loop (Some a) (put_bytes out i ?q) (i + length ?q) (n - length ?q) False st1"
        by (subst bio_read_full_loop.simps, unfold m_def [symmetric] r(1)) (use short False w in simp)
      moreover have "0 < n - length ?q" using short by simp
      moreover obtain st2 where "bio_read_full_loop (Some a) (put_bytes out i ?q) (i + length ?q) (n - length ?q) False st1 =
          Some (Inl False, st2)" "mem_ok (the_bio st2 a)" "bi_num (the_bio st2 a) = bi_num (the_bio st a)"
        using read_full_dry [OF r(2) \<open>0 < n - length ?q\<close> _ r(3), of "put_bytes out i ?q" "i + length ?q" False] r(4) assms(3)
        by auto
      ultimately show ?thesis using short False by (auto intro: exI [of _ False])
    qed
  qed
qed

lemma take_put_bytes0: "i + length bs \<le> length blk \<Longrightarrow> take i (put_bytes blk i bs) = take i blk"
  by (simp add: put_bytes_def)

lemma put_bytes_end: "i + length bs = length blk \<Longrightarrow> put_bytes blk i bs = take i blk @ bs"
  by (simp add: put_bytes_def)

lemma read_body_mem:
  assumes "mem_ok (the_bio st a)" "bi_num (the_bio st a) \<le> 0" "\<forall>n < 2 ^ 63. alloc n"
    and "hl \<le> length h" "hl \<le> 6" "len < 2 ^ 32"
  shows "\<exists>r st'. bio_read_body (Some a) h len hl max_len alloc st = Some (r, st') \<and> mem_ok (the_bio st' a) \<and>
    (let q = mem_queue (the_bio st a)
     in r = (if len + hl \<le> max_len \<and> len \<le> length q then Some (take hl h @ take len q, len + hl) else None) \<and>
       (r \<noteq> None \<longrightarrow> mem_queue (the_bio st' a) = drop len q))"
proof -
  let ?q = "mem_queue (the_bio st a)"
  have small: "int (length ?q) \<le> INT_MAX" using mem_queue_small [OF assms(1)] .
  have w: "(len + hl) mod size_mod = len + hl" using assms(5,6) by simp
  show ?thesis
  proof (cases "len + hl > max_len \<or> int len > INT_MAX")
    case True
    then have "bio_read_body (Some a) h len hl max_len alloc st = Some (None, put_error ASN1_TOO_LONG st)"
      by (simp add: bio_read_body_def w)
    then show ?thesis using True small assms(1) by auto
  next
    case False
    have al: "alloc (len + hl)" using assms(3,5,6) by simp
    let ?blk = "put_bytes (replicate (len + hl) 0) 0 (take hl h)"
    have b: "bio_read_body (Some a) h len hl max_len alloc st =
        (case bio_read_full_loop (Some a) ?blk hl len True st of
           None \<Rightarrow> None
         | Some (Inl eof, st) \<Rightarrow> Some (None, put_error ASN1_NOT_ENOUGH_DATA st)
         | Some (Inr out, st) \<Rightarrow> Some (Some (out, len + hl), st))"
      using False al by (simp add: bio_read_body_def w bio_read_full_def Let_def)
    have blk: "length ?blk = len + hl" "take hl ?blk = take hl h"
      using assms(4) by (simp_all add: put_bytes_def)
    have "len < size_mod" using assms(6) by simp
    from read_full_mem [OF assms(1) this assms(2), of ?blk hl True] obtain r st1 where
      r: "bio_read_full_loop (Some a) ?blk hl len True st = Some (r, st1)" "mem_ok (the_bio st1 a)"
        "if len \<le> length ?q then r = Inr (if len = 0 then ?blk else put_bytes ?blk hl (take len ?q)) \<and>
           mem_queue (the_bio st1 a) = drop len ?q else \<exists>e. r = Inl e" by (auto split: if_splits)
    show ?thesis
    proof (cases "len \<le> length ?q")
      case True
      have "(if len = 0 then ?blk else put_bytes ?blk hl (take len ?q)) = take hl h @ take len ?q"
      proof (cases "len = 0")
        case True
        then show ?thesis using blk by auto
      next
        case False
        then show ?thesis using put_bytes_end [of hl "take len ?q" ?blk] blk True by simp
      qed
      then show ?thesis using r True False b by simp
    next
      case F: False
      then obtain e where "r = Inl e" using r(3) by auto
      then show ?thesis using r F b by simp
    qed
  qed
qed

section \<open>Indefinite lengths\<close>

lemma read_all_mem:
  assumes "mem_ok (the_bio st a)" "bi_num (the_bio st a) = 0 \<or> bi_num (the_bio st a) = -1" "\<forall>n < 2 ^ 63. alloc n"
    and "length out = len" "d \<le> len" "len \<le> max_len" "len \<le> d + 6144" "len < max_len \<longrightarrow> d < len"
    and "int d + int (length (mem_queue (the_bio st a))) \<le> INT_MAX + 2"
  shows "\<exists>r st'. bio_read_all_loop (Some a) out len d max_len alloc st = Some (r, st') \<and> mem_ok (the_bio st' a) \<and>
    (let q = mem_queue (the_bio st a); n = d + length q
     in if bi_num (the_bio st a) = 0 \<and> n < max_len
        then (\<exists>blk. r = Some (blk, n) \<and> take n blk = take d out @ q) \<and> mem_queue (the_bio st' a) = []
        else r = None)"
  using assms
proof (induction "length (mem_queue (the_bio st a))" arbitrary: st out len d rule: less_induct)
  case less
  let ?q = "mem_queue (the_bio st a)"
  note sp = bio_read_all_loop.simps [of "Some a" out len d max_len alloc st]
  show ?case
  proof (cases "d = len")
    case True
    then have "len = max_len" using less.prems by auto
    then show ?thesis using True sp less.prems by auto
  next
    case False
    define todo where "todo = len - d"
    have t: "0 < todo" "todo \<le> 6144" "(len + size_mod - d) mod size_mod = todo" "int_of_size todo = int todo"
    proof -
      show 1: "0 < todo" "todo \<le> 6144" using False less.prems by (simp_all add: todo_def)
      have "int len \<le> INT_MAX + 6146" using less.prems(7,9) by linarith
      then show "(len + size_mod - d) mod size_mod = todo"
        unfolding todo_def by (intro size_sub) (use less.prems(5) in \<open>simp_all add: INT_MAX_def\<close>)
      show "int_of_size todo = int todo" by (rule int_of_size_small) (use 1 in \<open>simp add: INT_MAX_def\<close>)
    qed
    have m: "0 < int todo" "int todo \<le> INT_MAX" using t by (simp_all add: INT_MAX_def)
    show ?thesis
    proof (cases "?q = []")
      case True
      obtain st1 where r: "BIO_read (Some a) (int todo) st = Some (bi_num (the_bio st a), [], st1)" "mem_ok (the_bio st1 a)"
          "mem_queue (the_bio st1 a) = []" using mem_bio_read_dry [OF less.prems(1) m True] by metis
      have "d < max_len" using False less.prems by linarith
      moreover have "bio_read_all_loop (Some a) out len d max_len alloc st =
          (if bi_num (the_bio st a) = 0 then Some (Some (out, d), st1) else Some (None, st1))"
        by (subst sp, unfold t(3,4) Let_def r(1)) (use False less.prems(2) in auto)
      ultimately show ?thesis using r True less.prems(2) by (simp add: Let_def)
    next
      case q: False
      have m': "0 < todo" "int todo \<le> INT_MAX" using m by simp_all
      obtain st1 where
        r: "BIO_read (Some a) (int todo) st = Some (int (min todo (length ?q)), take todo ?q, st1)"
          "mem_ok (the_bio st1 a)" "mem_queue (the_bio st1 a) = drop todo ?q" "bi_num (the_bio st1 a) = bi_num (the_bio st a)"
        using mem_bio_read_data [OF less.prems(1) m' refl q] by metis
      define k where "k = min todo (length ?q)"
      have k: "0 < k" "k \<le> todo" "k \<le> length ?q" "take todo ?q = take k ?q" "drop todo ?q = drop k ?q"
        using q t by (auto simp: k_def min_def)
      define out1 where "out1 = put_bytes out d (take k ?q)"
      have o: "length out1 = len" "take (d + k) out1 = take d out @ take k ?q"
      proof -
        have "length (take k ?q) = k" using k by simp
        then show "length out1 = len" "take (d + k) out1 = take d out @ take k ?q"
          using length_put_bytes [of d "take k ?q" out] take_put_bytes [of d out "take k ?q"] k less.prems
          by (auto simp: out1_def todo_def)
      qed
      have d1: "nat ((int d + int k) mod int size_mod) = d + k"
      proof -
        have "int d + int k < int size_mod" using k less.prems(9) by (simp add: INT_MAX_def)
        then show ?thesis by simp
      qed
      define grow where "grow \<longleftrightarrow> len < max_len \<and> len - (d + k) < 2048"
      have len_small: "int len \<le> INT_MAX + 6146" using less.prems(7,9) by linarith
      have g: "(len + size_mod - (d + k)) mod size_mod = len - (d + k)"
        by (rule size_sub) (use k less.prems(5) len_small in \<open>simp_all add: INT_MAX_def todo_def\<close>)
      have step: "bio_read_all_loop (Some a) out len d max_len alloc st =
          (if grow
           then (let len = (len + kChunkSize) mod size_mod; len = (if len < kChunkSize \<or> len > max_len then max_len else len)
                 in if \<not> alloc len then Some (None, st1)
                    else bio_read_all_loop (Some a) (realloc_bytes (Some out1) len) len (d + k) max_len alloc st1)
           else bio_read_all_loop (Some a) out1 len (d + k) max_len alloc st1)"
      proof -
        have n: "int (min todo (length ?q)) = int k" by (simp add: k_def)
        show ?thesis
          by (subst sp, unfold t(3,4) r(1) n Let_def option.case prod.case k(4) d1 g out1_def [symmetric])
            (use False k in \<open>simp add: grow_def kChunkSize_def\<close>)
      qed
      have less1: "length (mem_queue (the_bio st1 a)) < length ?q" using r(3) k by simp
      have q1: "mem_queue (the_bio st1 a) = drop k ?q" using r(3) k by simp
      have fold: "d + k + length (drop k ?q) = d + length ?q" "(take d out @ take k ?q) @ drop k ?q = take d out @ ?q"
        using k by simp_all
      have sum: "int (d + k) + int (length (mem_queue (the_bio st1 a))) \<le> INT_MAX + 2"
        using less.prems(9) k by (simp add: q1)
      show ?thesis
      proof (cases grow)
        case True
        define len1 where "len1 = min (len + 4096) max_len"
        have wl: "(let l = (len + kChunkSize) mod size_mod in if l < kChunkSize \<or> l > max_len then max_len else l) = len1"
        proof -
          have "len + 4096 < size_mod" using len_small by (simp add: INT_MAX_def)
          then show ?thesis by (simp add: kChunkSize_def len1_def Let_def)
        qed
        have al: "alloc len1"
        proof -
          have "len1 < 2 ^ 63" using len_small by (simp add: INT_MAX_def len1_def)
          then show ?thesis using less.prems(3) by simp
        qed
        have s2: "bio_read_all_loop (Some a) out len d max_len alloc st =
            bio_read_all_loop (Some a) (realloc_bytes (Some out1) len1) len1 (d + k) max_len alloc st1"
          using step True al wl by (simp add: Let_def)
        have ob: "length (realloc_bytes (Some out1) len1) = len1" by (simp add: realloc_bytes_def Let_def)
        have ot: "take (d + k) (realloc_bytes (Some out1) len1) = take d out @ take k ?q"
          using o less.prems k by (simp add: realloc_bytes_def Let_def len1_def todo_def min_def)
        have side: "d + k \<le> len1" "len1 \<le> max_len" "len1 \<le> d + k + 6144" "len1 < max_len \<longrightarrow> d + k < len1"
          using True k less.prems by (auto simp: len1_def grow_def todo_def)
        have "bi_num (the_bio st1 a) = 0 \<or> bi_num (the_bio st1 a) = -1" using r(4) less.prems(2) by simp
        from less.hyps [OF less1 r(2) this less.prems(3) ob side sum]
        show ?thesis unfolding s2 Let_def q1 r(4) ot fold .
      next
        case F: False
        have s2: "bio_read_all_loop (Some a) out len d max_len alloc st = bio_read_all_loop (Some a) out1 len (d + k) max_len alloc st1"
          using step F by simp
        have side: "d + k \<le> len" "len \<le> max_len" "len \<le> d + k + 6144" "len < max_len \<longrightarrow> d + k < len"
          using F k less.prems by (auto simp: grow_def todo_def)
        have "bi_num (the_bio st1 a) = 0 \<or> bi_num (the_bio st1 a) = -1" using r(4) less.prems(2) by simp
        from less.hyps [OF less1 r(2) this less.prems(3) o(1) side sum]
        show ?thesis unfolding s2 Let_def q1 r(4) o(2) fold .
      qed
    qed
  qed
qed

section \<open>The element in front of the bytes\<close>

definition indefinite_header :: "byte list \<Rightarrow> bool" where
  "indefinite_header q \<longleftrightarrow>
     (case q of t # l # rest \<Rightarrow> t AND 0x1f \<noteq> 0x1f \<and> t AND 0x20 \<noteq> 0 \<and> l = 0x80 | _ \<Rightarrow> False)"

text \<open>What a reader of the bytes \<open>q\<close>, followed by the end-of-file value \<open>eof\<close>, can take.\<close>

definition asn1_front :: "byte list \<Rightarrow> int \<Rightarrow> nat \<Rightarrow> byte list option" where
  "asn1_front q eof max_len =
     (if indefinite_header q then (if eof = 0 \<and> length q < max_len then Some q else None)
      else if q = [] \<or> hd q AND 0x1f = 0x1f then None
      else case CBS_get_any_asn1_element q of
             (None, rest) \<Rightarrow> None
           | (Some (e, tag, header_len), rest) \<Rightarrow> if length e \<le> max_len then Some e else None)"

lemma indefinite_byte: "l AND 0x80 \<noteq> 0 \<and> unat (l AND 0x7f :: byte) = 0 \<longleftrightarrow> l = 0x80"
proof
  assume "l AND 0x80 \<noteq> 0 \<and> unat (l AND 0x7f) = 0"
  then show "l = 0x80" using byte_len_long [of l 0] by simp
qed simp

lemma fold32: "(foldl (\<lambda>v b. push_bit 8 v OR ucast b) (ucast a) bs :: u32) = ucast (foldl (\<lambda>v b. push_bit 8 v OR ucast b) (a :: u64) bs)"
proof (induction bs arbitrary: a)
  case (Cons b bs)
  have "push_bit 8 (ucast a) OR ucast b = (ucast (push_bit 8 a OR ucast b :: u64) :: u32)"
    by (intro bit_word_eqI) (auto simp: bit_simps)
  then show ?case using Cons by simp
qed simp

lemma len32:
  assumes "length bs \<le> 4"
  shows "unat (foldl (\<lambda>v b. push_bit 8 v OR ucast b) 0 bs :: u32) = unat (be_val bs :: u64)" "unat (be_val bs :: u64) < 2 ^ 32"
proof -
  have "take_bit (8 * length bs) (be_val bs :: u64) = be_val bs"
    using be_val_be_bytes [of "length bs" "be_val bs :: u64"] be_bytes_be_val [of bs, where 'a = 64] assms by simp
  then have "unat (be_val bs :: u64) < 2 ^ (8 * length bs)" using take_bit_small by metis
  also have "\<dots> \<le> 2 ^ 32" using assms by (intro power_increasing) simp_all
  finally show l: "unat (be_val bs :: u64) < 2 ^ 32" .
  have "(foldl (\<lambda>v b. push_bit 8 v OR ucast b) 0 bs :: u32) = ucast (be_val bs :: u64)"
    using fold32 [of 0 bs] by (simp add: be_fold)
  then show "unat (foldl (\<lambda>v b. push_bit 8 v OR ucast b) 0 bs :: u32) = unat (be_val bs :: u64)"
    using l by (simp add: unsigned_ucast_eq take_bit_nat_eq_self)
qed

lemma cbs_element_short_tag:
  assumes "t AND 0x1f \<noteq> 0x1f"
  shows "\<exists>tag. CBS_get_any_asn1_element (t # l # q) =
    (let n = unat (l AND 0x7f); v = be_val (take n q) :: u64
     in if l AND 0x80 = 0 then cbs_take_element (t # l # q) tag (unat l + 2) 2
        else if n = 0 \<or> n > 4 \<or> length q < n \<or> v < 128 \<or> drop_bit ((n - 1) * 8) v = 0 then (None, t # l # q)
        else cbs_take_element (t # l # q) tag (unat v + 2 + n) (2 + n))"
proof -
  obtain tag where tag: "parse_asn1_tag (t # l # q) = (Some tag, l # q)"
    using assms by (simp add: parse_asn1_tag_def stream_simps Let_def)
  have v: "(unat (be_val (take n q) :: u64) + 2 + n) mod size_mod = unat (be_val (take n q) :: u64) + 2 + n" if "n \<le> 4" for n
  proof (rule mod_less)
    have "unat (be_val (take n q) :: u64) < 2 ^ 32" by (rule len32(2)) (use that in simp)
    then show "unat (be_val (take n q) :: u64) + 2 + n < size_mod" using that by simp
  qed
  have u: "cbs_get_u q n = (if length q < n then (None, q) else (Some (be_val (take n q)), drop n q))" for n
    by (simp add: cbs_get_u_def cbs_get_def be_fold)
  show ?thesis
    by (rule exI [of _ tag])
      (auto simp: CBS_get_any_asn1_element_def cbs_get_any_asn1_element_def tag stream_simps u v [simplified] Let_def)
qed

lemma take_element: "cbs_take_element q tag n hl =
    (if length q < n then (None, q) else (Some (take n q, tag, hl), drop n q))"
  by (simp add: cbs_take_element_def CBS_get_bytes_eq cbs_get_def)

text \<open>Behind a header \<open>h\<close> that announces \<open>n\<close> more bytes, the element is read to its end.\<close>

lemma read_body_front:
  assumes "mem_ok (the_bio st a)" "bi_num (the_bio st a) \<le> 0" "\<forall>n < 2 ^ 63. alloc n" "n < 2 ^ 32"
    and "length p = hl" "hl \<le> 6" "take hl h = p"
    and "CBS_get_any_asn1_element (p @ mem_queue (the_bio st a)) = cbs_take_element (p @ mem_queue (the_bio st a)) tag (n + hl) hl"
    and "p = t # q1" "t AND 0x1f \<noteq> 0x1f" "\<not> indefinite_header (p @ mem_queue (the_bio st a))"
  shows "\<exists>r st'. bio_read_body (Some a) h n hl max_len alloc st = Some (r, st') \<and> mem_ok (the_bio st' a) \<and>
    map_option (\<lambda>(out, n). take n out) r = asn1_front (p @ mem_queue (the_bio st a)) e max_len \<and>
    (\<forall>out n. r = Some (out, n) \<longrightarrow> n \<le> length out \<and> mem_queue (the_bio st' a) = drop n (p @ mem_queue (the_bio st a)))"
proof -
  let ?q = "mem_queue (the_bio st a)"
  have "hl \<le> length h" using assms(5,7) by (metis length_take min.cobounded1)
  from read_body_mem [OF assms(1-3) this assms(6,4), of max_len] obtain r st' where
    r: "bio_read_body (Some a) h n hl max_len alloc st = Some (r, st')" "mem_ok (the_bio st' a)"
      "r = (if n + hl \<le> max_len \<and> n \<le> length ?q then Some (p @ take n ?q, n + hl) else None)"
      "r \<noteq> None \<longrightarrow> mem_queue (the_bio st' a) = drop n ?q"
    unfolding Let_def assms(7) by blast
  have "asn1_front (p @ ?q) e max_len = (if length ?q < n \<or> \<not> n + hl \<le> max_len then None else Some (p @ take n ?q))"
  proof -
    have "asn1_front (p @ ?q) e max_len =
        (case CBS_get_any_asn1_element (p @ ?q) of
           (None, rest) \<Rightarrow> None
         | (Some (e, tag, header_len), rest) \<Rightarrow> if length e \<le> max_len then Some e else None)"
      using assms(9-11) by (simp add: asn1_front_def)
    then show ?thesis unfolding assms(8) take_element using assms(5) by (auto simp: min_absorb2)
  qed
  then show ?thesis using r assms(5) by auto
qed

lemma bio_asn1_mem:
  assumes "mem_ok (the_bio st a)" "bi_num (the_bio st a) = 0 \<or> bi_num (the_bio st a) = -1" "\<forall>n < 2 ^ 63. alloc n"
    and "max_len < size_mod"
  shows "\<exists>r st'. BIO_read_asn1 (Some a) max_len alloc st = Some (r, st') \<and> mem_ok (the_bio st' a) \<and>
    map_option (\<lambda>(out, n). take n out) r = asn1_front (mem_queue (the_bio st a)) (bi_num (the_bio st a)) max_len \<and>
    (\<forall>out n. r = Some (out, n) \<longrightarrow> n \<le> length out \<and> mem_queue (the_bio st' a) = drop n (mem_queue (the_bio st a)))"
proof -
  let ?q = "mem_queue (the_bio st a)" and ?e = "bi_num (the_bio st a)"
  have e: "?e \<le> 0" using assms(2) by auto
  show ?thesis
  proof (cases "length ?q < 2")
    case True
    then have "\<not> 2 \<le> length ?q" "(2 :: nat) < size_mod" by simp_all
    with read_full_mem [OF assms(1) this(2) e, of "replicate 6 0" 0 True] obtain r b st1 where
      r: "bio_read_full (Some a) (replicate 6 0) 0 2 st = Some (Inl b, st1)" "mem_ok (the_bio st1 a)"
      unfolding bio_read_full_def by auto
    have "asn1_front ?q ?e max_len = None"
    proof (cases ?q)
      case (Cons t q1)
      then have "q1 = []" using True by simp
      then show ?thesis using Cons
        by (auto simp: asn1_front_def indefinite_header_def CBS_get_any_asn1_element_def cbs_get_any_asn1_element_def
            parse_asn1_tag_def CBS_get_u8_def cbs_get_def Let_def split: option.split prod.split)
    qed (simp add: asn1_front_def indefinite_header_def)
    then show ?thesis using r by (simp add: BIO_read_asn1_def)
  next
    case False
    then obtain t l q where q: "?q = t # l # q" by (metis One_nat_def length_Cons list.exhaust list.size(3) less_2_cases_iff)
    have "2 \<le> length ?q" "(2 :: nat) < size_mod" using False by simp_all
    with read_full_mem [OF assms(1) this(2) e, of "replicate 6 0" 0 True] obtain st1 where
      r1: "bio_read_full (Some a) (replicate 6 0) 0 2 st = Some (Inr (put_bytes (replicate 6 0) 0 [t, l]), st1)"
        "mem_ok (the_bio st1 a)" "mem_queue (the_bio st1 a) = q" "bi_num (the_bio st1 a) = ?e"
      unfolding bio_read_full_def by (auto simp: q)
    have hd: "put_bytes (replicate 6 0) 0 [t, l] = [t, l, 0, 0, 0, 0]" by (simp add: put_bytes_def numeral_eq_Suc)
    define num where "num = unat (l AND 0x7f)"
    have b: "BIO_read_asn1 (Some a) max_len alloc st =
        (if t AND 0x1f = 0x1f then Some (None, put_error ASN1_DECODE_ERROR st1)
         else if l AND 0x80 = 0 then bio_read_body (Some a) [t, l, 0, 0, 0, 0] (unat l) 2 max_len alloc st1
         else if t AND 0x20 \<noteq> 0 \<and> num = 0 then
           (case bio_read_all (Some a) [t, l] max_len alloc st1 of
              None \<Rightarrow> None
            | Some (None, st) \<Rightarrow> Some (None, put_error ASN1_NOT_ENOUGH_DATA st)
            | Some (Some r, st) \<Rightarrow> Some (Some r, st))
         else if num = 0 \<or> num > 4 then Some (None, put_error ASN1_DECODE_ERROR st1)
         else
           (case bio_read_full (Some a) [t, l, 0, 0, 0, 0] 2 num st1 of
              None \<Rightarrow> None
            | Some (Inl eof, st) \<Rightarrow> Some (None, put_error ASN1_NOT_ENOUGH_DATA st)
            | Some (Inr header, st) \<Rightarrow>
                (let len32 = foldl (\<lambda>v b. push_bit 8 v OR ucast b) 0 (take num (drop 2 header)) :: u32
                 in if len32 < 128 then Some (None, put_error ASN1_DECODE_ERROR st)
                    else if drop_bit ((num - 1) * 8) len32 = 0 then Some (None, put_error ASN1_DECODE_ERROR st)
                    else bio_read_body (Some a) header (unat len32) (2 + num) max_len alloc st)))"
      unfolding BIO_read_asn1_def r1(1) hd num_def by (simp add: Let_def)
    have e1: "bi_num (the_bio st1 a) \<le> 0" using e r1(4) by simp
    have ind: "indefinite_header ?q \<longleftrightarrow> t AND 0x1f \<noteq> 0x1f \<and> t AND 0x20 \<noteq> 0 \<and> l AND 0x80 \<noteq> 0 \<and> num = 0"
      using indefinite_byte [of l] by (simp add: indefinite_header_def q num_def)
    consider (long_tag) "t AND 0x1f = 0x1f" | (short_len) "t AND 0x1f \<noteq> 0x1f" "l AND 0x80 = 0"
      | (indef) "t AND 0x1f \<noteq> 0x1f" "l AND 0x80 \<noteq> 0" "t AND 0x20 \<noteq> 0" "num = 0"
      | (bad) "t AND 0x1f \<noteq> 0x1f" "l AND 0x80 \<noteq> 0" "num = 0 \<longrightarrow> t AND 0x20 = 0" "num = 0 \<or> num > 4"
      | (long_len) "t AND 0x1f \<noteq> 0x1f" "l AND 0x80 \<noteq> 0" "0 < num" "num \<le> 4" by linarith
    then show ?thesis
    proof cases
      case long_tag
      then have "asn1_front ?q ?e max_len = None" using ind by (simp add: asn1_front_def q)
      then show ?thesis using long_tag b r1 by simp
    next
      case short_len
      obtain tag where c: "CBS_get_any_asn1_element (t # l # q) = cbs_take_element (t # l # q) tag (unat l + 2) 2"
        using cbs_element_short_tag [OF short_len(1), of l q] short_len(2) by (auto simp: Let_def)
      have "unat l < 2 ^ LENGTH(8)" by (rule unsigned_less)
      then have "unat l < 2 ^ 32" by simp
      then show ?thesis
        using read_body_front [OF r1(2) e1 assms(3), of "unat l" "[t, l]" 2 "[t, l, 0, 0, 0, 0]" tag t "[l]" max_len ?e]
          short_len b c ind by (simp add: r1(3) q)
    next
      case indef
      have f: "asn1_front ?q ?e max_len = (if ?e = 0 \<and> length ?q < max_len then Some ?q else None)"
        using ind indef by (simp add: asn1_front_def)
      show ?thesis
      proof (cases "max_len < 2")
        case True
        then have "bio_read_all (Some a) [t, l] max_len alloc st1 = Some (None, st1)"
          by (simp add: bio_read_all_def kChunkSize_def)
        then show ?thesis using indef b r1(2) f True by (simp add: q)
      next
        case m: False
        define len where "len = min 4098 max_len"
        define out where "out = put_bytes (replicate len 0) 0 [t, l]"
        have l2: "length [t, l] = 2" by simp
        have eq: "bio_read_all (Some a) [t, l] max_len alloc st1 = bio_read_all_loop (Some a) out len 2 max_len alloc st1"
          unfolding bio_read_all_def l2 using m assms(3) by (simp add: kChunkSize_def Let_def len_def out_def min_def)
        have o: "length out = len" "take 2 out = [t, l]"
          using m by (simp_all add: out_def put_bytes_def len_def)
        have sum: "int 2 + int (length (mem_queue (the_bio st1 a))) \<le> INT_MAX + 2"
          using mem_queue_small [OF r1(2)] by simp
        have side: "2 \<le> len" "len \<le> max_len" "len \<le> 2 + 6144" "len < max_len \<longrightarrow> 2 < len" using m by (auto simp: len_def)
        have "bi_num (the_bio st1 a) = 0 \<or> bi_num (the_bio st1 a) = -1" using r1(4) assms(2) by simp
        from read_all_mem [OF r1(2) this assms(3) o(1) side sum, unfolded Let_def r1(3,4) o(2), folded eq]
        obtain r st2 where
          r: "bio_read_all (Some a) [t, l] max_len alloc st1 = Some (r, st2)" "mem_ok (the_bio st2 a)"
            "if ?e = 0 \<and> 2 + length q < max_len then (\<exists>blk. r = Some (blk, 2 + length q) \<and> take (2 + length q) blk = [t, l] @ q) \<and>
               mem_queue (the_bio st2 a) = [] else r = None" by blast
        show ?thesis
        proof (cases "?e = 0 \<and> 2 + length q < max_len")
          case True
          then obtain blk where k: "r = Some (blk, 2 + length q)" "take (2 + length q) blk = ?q" "mem_queue (the_bio st2 a) = []"
            using r(3) by (auto simp: q)
          have "length (take (2 + length q) blk) = 2 + length q" unfolding k(2) q by simp
          then have "2 + length q \<le> length blk" by simp
          then show ?thesis using indef b r(1,2) f True k by (simp add: q)
        next
          case False
          then have "r = None" using r(3) by auto
          then show ?thesis using indef b r(1,2) f False by (auto simp: q)
        qed
      qed
    next
      case bad
      then have "asn1_front ?q ?e max_len = None"
        using ind cbs_element_short_tag [OF bad(1), of l q] by (auto simp: asn1_front_def q num_def Let_def)
      then show ?thesis using bad b r1 by auto
    next
      case long_len
      have n: "num < size_mod" "num \<noteq> 0" using long_len by simp_all
      obtain tag where c: "CBS_get_any_asn1_element (t # l # q) =
          (let v = be_val (take num q) :: u64
           in if length q < num \<or> v < 128 \<or> drop_bit ((num - 1) * 8) v = 0 then (None, t # l # q)
              else cbs_take_element (t # l # q) tag (unat v + 2 + num) (2 + num))"
        using cbs_element_short_tag [OF long_len(1), of l q] n(2) long_len(2,4) unfolding Let_def num_def [symmetric]
        by (simp only: if_False simp_thms not_less [symmetric]) blast
      from read_full_mem [OF r1(2) n(1) e1, of "[t, l, 0, 0, 0, 0]" 2 True] obtain r st2 where
        r: "bio_read_full (Some a) [t, l, 0, 0, 0, 0] 2 num st1 = Some (r, st2)" "mem_ok (the_bio st2 a)"
          "bi_num (the_bio st2 a) = ?e"
          "if num \<le> length q then r = Inr (put_bytes [t, l, 0, 0, 0, 0] 2 (take num q)) \<and> mem_queue (the_bio st2 a) = drop num q
           else \<exists>e. r = Inl e" unfolding bio_read_full_def r1(3,4) using n(2) by (auto split: if_splits)
      show ?thesis
      proof (cases "num \<le> length q")
        case False
        then obtain e1 where "r = Inl e1" using r(4) by auto
        moreover have "asn1_front ?q ?e max_len = None"
          using ind long_len False unfolding asn1_front_def q c by simp
        ultimately show ?thesis using long_len b r by simp
      next
        case True
        define h where "h = put_bytes [t, l, 0, 0, 0, 0] 2 (take num q)"
        have h: "take num (drop 2 h) = take num q" "take (2 + num) h = t # l # take num q"
          using True long_len by (simp_all add: h_def put_bytes_def)
        define v where "v = (be_val (take num q) :: u64)"
        define w where "w = (foldl (\<lambda>v b. push_bit 8 v OR ucast b) 0 (take num q) :: u32)"
        have vw: "unat w = unat v" "unat v < 2 ^ 32"
          using len32 [of "take num q"] long_len by (simp_all add: v_def w_def)
        have cond: "w < 128 \<longleftrightarrow> v < 128" "drop_bit k w = 0 \<longleftrightarrow> drop_bit k v = 0" for k
          using vw(1) by (simp_all add: word_less_nat_alt unat_eq_0 [symmetric] unat_drop_bit_eq)
        have b2: "BIO_read_asn1 (Some a) max_len alloc st =
            (if v < 128 \<or> drop_bit ((num - 1) * 8) v = 0 then Some (None, put_error ASN1_DECODE_ERROR st2)
             else bio_read_body (Some a) h (unat v) (2 + num) max_len alloc st2)"
          using b long_len r(1,4) True by (simp add: h_def [symmetric] h(1) w_def [symmetric] cond vw(1) Let_def)
        show ?thesis
        proof (cases "v < 128 \<or> drop_bit ((num - 1) * 8) v = 0")
          case True
          then have "asn1_front ?q ?e max_len = None"
            using ind long_len unfolding asn1_front_def q c v_def [symmetric] Let_def by auto
          then show ?thesis using b2 r(2) True by simp
        next
          case False
          have q2: "mem_queue (the_bio st2 a) = drop num q" using r(4) True by simp
          have c2: "CBS_get_any_asn1_element (t # l # q) = cbs_take_element (t # l # q) tag (unat v + (2 + num)) (2 + num)"
            using c True False by (simp add: v_def [symmetric] Let_def)
          have qq: "(t # l # take num q) @ mem_queue (the_bio st2 a) = ?q" by (simp add: q q2)
          have e2: "bi_num (the_bio st2 a) \<le> 0" using r(3) e by simp
          have nind: "\<not> indefinite_header ?q" using ind long_len by simp
          show ?thesis unfolding b2 if_not_P [OF False]
            using read_body_front [OF r(2) e2 assms(3) vw(2), of "t # l # take num q" "2 + num" h tag t "l # take num q" max_len ?e]
              True long_len h(2) c2 nind unfolding qq by (simp add: q)
        qed
      qed
    qed
  qed
qed

section \<open>Another end-of-file value\<close>

text \<open>
  A memory BIO may be given any negative value for the end of the file. \<open>bio_read_all\<close> takes every
  value but \<open>-1\<close> for a number of bytes.
\<close>

lemma int_of_size_big:
  assumes "2 ^ 31 \<le> t" "t \<le> 2 ^ 31 + 1"
  shows "int_of_size t < 0"
proof -
  have "t = 2147483648 \<or> t = 2147483649" using assms by auto
  then show ?thesis by (auto simp: int_of_size_def)
qed

lemma read_all_runs_away:
  assumes "mem_ok (the_bio st a)" "bi_num (the_bio st a) = -2" "mem_queue (the_bio st a) = []"
    and "0 < todo" "todo \<le> 2 ^ 31 + 1" "len \<le> max_len" "len \<le> 4098" "len < max_len \<longrightarrow> 4096 \<le> todo" "max_len < size_mod"
  shows "\<exists>t st'. bio_read_all_loop (Some a) out len ((len + size_mod - todo) mod size_mod) max_len alloc st =
      Some (Some (out, (len + size_mod - t) mod size_mod), st') \<and> 2 ^ 31 \<le> t \<and> t \<le> 2 ^ 31 + 1"
  using assms
proof (induction "2 ^ 31 + 2 - todo" arbitrary: todo st rule: less_induct)
  case less
  define d where "d = (len + size_mod - todo) mod size_mod"
  have small: "todo + 2 < size_mod" "len < size_mod" using less.prems(5,7) by simp_all
  have dl: "(len + size_mod - d) mod size_mod = todo"
    unfolding d_def by (rule size_sub_back) (use small in simp_all)
  have d_ne: "d \<noteq> len"
  proof
    assume "d = len"
    then have "(len + size_mod - d) mod size_mod = 0" by simp
    then show False using dl less.prems(4) by simp
  qed
  have bi: "bi_method (the_bio st a) = BIO_MEM" "bi_init (the_bio st a)" using less.prems(1) by (simp_all add: mem_ok_def)
  note sp = bio_read_all_loop.simps [of "Some a" out len d max_len alloc st]
  show ?case
  proof (cases "2 ^ 31 \<le> todo")
    case True
    have "BIO_read (Some a) (int_of_size todo) st = Some (0, [], st)"
      using bi int_of_size_big [OF True less.prems(5)] by (simp add: BIO_read_def)
    then have "bio_read_all_loop (Some a) out len d max_len alloc st = Some (Some (out, d), st)"
      using d_ne by (subst sp) (simp add: dl Let_def)
    then show ?thesis using True less.prems(5) unfolding d_def by blast
  next
    case False
    then have i: "int_of_size todo = int todo" "0 < int todo" "int todo \<le> INT_MAX"
      using less.prems(4) int_of_size_small [of todo] by (simp_all add: INT_MAX_def)
    obtain st1 where r: "BIO_read (Some a) (int todo) st = Some (-2, [], st1)" "mem_ok (the_bio st1 a)"
        "mem_queue (the_bio st1 a) = []" "bi_num (the_bio st1 a) = -2"
      using mem_bio_read_dry [OF less.prems(1) i(2,3) less.prems(3)] less.prems(2) by metis
    have d2: "nat ((int d + -2) mod int size_mod) = (len + size_mod - (todo + 2)) mod size_mod"
    proof -
      have "int d = int (len + size_mod - todo) mod int size_mod" by (simp add: d_def zmod_int)
      then have "(int d + -2) mod int size_mod = (int (len + size_mod - todo) + -2) mod int size_mod" by (simp add: mod_simps)
      also have "int (len + size_mod - todo) + -2 = int (len + size_mod - (todo + 2))" using less.prems(5) by simp
      finally show ?thesis by (simp add: nat_mod_distrib)
    qed
    have grow: "\<not> (len < max_len \<and> (len + size_mod - (len + size_mod - (todo + 2)) mod size_mod) mod size_mod < kChunkSize div 2)"
      unfolding size_sub_back [OF small] using less.prems(8) by (auto simp: kChunkSize_def)
    have "bio_read_all_loop (Some a) out len d max_len alloc st =
        bio_read_all_loop (Some a) out len ((len + size_mod - (todo + 2)) mod size_mod) max_len alloc st1"
      by (subst sp, unfold dl i(1) Let_def r(1) option.case prod.case d2 if_not_P [OF grow] if_not_P [OF d_ne])
        (simp add: put_bytes_def)
    moreover have "\<exists>t st'. bio_read_all_loop (Some a) out len ((len + size_mod - (todo + 2)) mod size_mod) max_len alloc st1 =
      Some (Some (out, (len + size_mod - t) mod size_mod), st') \<and> 2 ^ 31 \<le> t \<and> t \<le> 2 ^ 31 + 1"
      by (rule less.hyps) (use False less.prems r in auto)
    ultimately show ?thesis unfolding d_def by simp
  qed
qed

section \<open>Properties\<close>

text \<open>
  C14. On a memory BIO in any state with the end-of-file value 0 or -1, \<open>BIO_read_asn1\<close> returns exactly the
  element that \<open>CBS_get_any_asn1_element\<close> finds in front of the contents, if its tag has the short form
  and it has at most \<open>max_len\<close> bytes; for an indefinite length it returns the whole contents, if they end
  and have fewer than \<open>max_len\<close> bytes. What it returns is removed from the BIO.
\<close>

theorem BIO_read_asn1_exact:
  assumes "BIO_new BIO_MEM alloc st = (Some a, st1)" "\<forall>n < 2 ^ 63. alloc n" "list_all op_int ops"
    and "run_mems a alloc ops st1 = Some (rs, st2)" "BIO_mem_contents (the_bio st2 a) = Some q"
    and "bi_num (the_bio st2 a) = 0 \<or> bi_num (the_bio st2 a) = -1" "max_len < size_mod"
  shows "\<exists>r st3. BIO_read_asn1 (Some a) max_len alloc st2 = Some (r, st3) \<and>
    map_option (\<lambda>(out, n). take n out) r = asn1_front q (bi_num (the_bio st2 a)) max_len \<and>
    (\<forall>out n. r = Some (out, n) \<longrightarrow> n \<le> length out \<and> BIO_mem_contents (the_bio st3 a) = Some (drop n q))"
proof -
  have ok: "mem_ok (the_bio st2 a)"
    using run_mems_refine [OF conjunct1 [OF new_mem [OF assms(1)]] assms(2,3)] assms(4) by auto
  have c: "BIO_mem_contents (the_bio s a) = Some (mem_queue (the_bio s a))" if "mem_ok (the_bio s a)" for s
    using that by (simp add: BIO_mem_contents_def mem_ok_def mem_queue_def)
  have q: "mem_queue (the_bio st2 a) = q" using c [OF ok] assms(5) by simp
  from bio_asn1_mem [OF ok assms(6,2,7)] show ?thesis unfolding q using c by metis
qed

theorem BIO_read_asn1_exact_witness:
  "\<exists>a st1 rs st2 r st3. BIO_new BIO_MEM (\<lambda>n. True) \<lparr>bios = \<lambda>x. None, next_addr = 0, errq = []\<rparr> = (Some a, st1) \<and>
    run_mems a (\<lambda>n. True) [Mem_write [0x04, 0x02, 0x61, 0x62, 0x05]] st1 = Some (rs, st2) \<and>
    BIO_read_asn1 (Some a) 100 (\<lambda>n. True) st2 = Some (r, st3) \<and>
    map_option (\<lambda>(out, n). take n out) r = Some [0x04, 0x02, 0x61, 0x62]"
proof -
  let ?op = "Mem_write [0x04, 0x02, 0x61, 0x62, 0x05]"
  obtain a st1 where n: "BIO_new BIO_MEM (\<lambda>n. True) \<lparr>bios = \<lambda>x. None, next_addr = 0, errq = []\<rparr> = (Some a, st1)"
    by (simp add: BIO_new_def method_new_def mem_new_def BUF_MEM_new_def)
  have ops: "list_all op_int [?op]" "\<forall>n < 2 ^ 63. (\<lambda>n :: nat. True) n" by (simp_all add: INT_MAX_def)
  from run_mems_refine [OF conjunct1 [OF new_mem [OF n]] ops(2,1)] new_mem [OF n] obtain rs st2 where
    r: "run_mems a (\<lambda>n. True) [?op] st1 = Some (rs, st2)" "mem_ok (the_bio st2 a)"
      "mem_queue (the_bio st2 a) = [0x04, 0x02, 0x61, 0x62, 0x05]" "bi_num (the_bio st2 a) = -1"
    by (auto simp: INT_MAX_def)
  have q: "BIO_mem_contents (the_bio st2 a) = Some [0x04, 0x02, 0x61, 0x62, 0x05]"
    using r(2,3) by (simp add: BIO_mem_contents_def mem_ok_def mem_queue_def)
  have "asn1_front [0x04, 0x02, 0x61, 0x62, 0x05] (-1) 100 = Some [0x04, 0x02, 0x61, 0x62]"
    using der_any_element_enc [of "[0x61, 0x62]" 4 "[0x05]" False]
    by (simp add: asn1_front_def indefinite_header_def CBS_get_any_asn1_element_def der_element_def der_tag_def der_len_def)
  then show ?thesis
    using BIO_read_asn1_exact [OF n ops(2,1) r(1) q, of 100] n r(1,4) by auto
qed

lemma indefinite_runs_away:
  assumes "mem_ok (the_bio st a)" "mem_queue (the_bio st a) = [0x30, 0x80]" "bi_num (the_bio st a) = -2"
    and "\<forall>n < 2 ^ 63. alloc n" "2 < max_len" "max_len < 2 ^ 31"
  shows "\<exists>out n st2. BIO_read_asn1 (Some a) max_len alloc st = Some (Some (out, n), st2) \<and> length out \<le> max_len \<and> 2 ^ 63 < n"
proof -
  have e: "bi_num (the_bio st a) \<le> 0" using assms(3) by simp
  have "2 \<le> length (mem_queue (the_bio st a))" "(2 :: nat) < size_mod" by (simp_all add: assms(2))
  with read_full_mem [OF assms(1) this(2) e, of "replicate 6 0" 0 True] obtain st1 where
    r1: "bio_read_full (Some a) (replicate 6 0) 0 2 st = Some (Inr (put_bytes (replicate 6 0) 0 [0x30, 0x80]), st1)"
      "mem_ok (the_bio st1 a)" "mem_queue (the_bio st1 a) = []" "bi_num (the_bio st1 a) = -2"
    unfolding bio_read_full_def by (auto simp: assms(2,3))
  have hd: "put_bytes (replicate 6 0) 0 [0x30, 0x80] = [0x30, 0x80, 0, 0, 0, 0 :: byte]" by (simp add: put_bytes_def numeral_eq_Suc)
  define len where "len = min 4098 max_len"
  define out where "out = put_bytes (replicate len 0) 0 [0x30, 0x80 :: byte]"
  have len: "2 < len" "len \<le> max_len" "len \<le> 4098" "len < max_len \<longrightarrow> 4096 \<le> len - 2" using assms(5) by (auto simp: len_def)
  have l2: "length [0x30, 0x80 :: byte] = 2" by simp
  have all: "bio_read_all (Some a) [0x30, 0x80] max_len alloc st1 = bio_read_all_loop (Some a) out len 2 max_len alloc st1"
    unfolding bio_read_all_def l2 using assms(4,5) by (simp add: kChunkSize_def Let_def len_def out_def min_def)
  have two: "(len + size_mod - (len - 2)) mod size_mod = 2"
  proof -
    have "(len + size_mod - (len - 2)) mod size_mod = len - (len - 2)" by (rule size_sub) (use len in simp_all)
    then show ?thesis using len by simp
  qed
  have "0 < len - 2" "len - 2 \<le> 2 ^ 31 + 1" "max_len < size_mod" using len assms(6) by simp_all
  from read_all_runs_away [OF r1(2,4,3) this(1,2) len(2,3,4) this(3), of out alloc, unfolded two] obtain t st2 where
    t: "bio_read_all_loop (Some a) out len 2 max_len alloc st1 = Some (Some (out, (len + size_mod - t) mod size_mod), st2)"
      "2 ^ 31 \<le> t" "t \<le> 2 ^ 31 + 1" by blast
  have n: "2 ^ 63 < (len + size_mod - t) mod size_mod"
  proof -
    have "len + size_mod - t < size_mod" "2 ^ 63 < len + size_mod - t" using t(2,3) len by simp_all
    then show ?thesis by simp
  qed
  have "length out \<le> max_len" using len by (simp add: out_def put_bytes_def)
  moreover have "BIO_read_asn1 (Some a) max_len alloc st = Some (Some (out, (len + size_mod - t) mod size_mod), st2)"
    unfolding BIO_read_asn1_def r1(1) hd using all t(1) by simp
  ultimately show ?thesis using n by blast
qed



end
