(* ===== verification/Bn_Words.thy ===== *)
theory Bn_Words
  imports Const_Time
begin

text \<open>
  Model of the word loops of BoringSSL's big numbers on a machine with 64-bit words and a 128-bit
  product: \<open>crypto/fipsmodule/bn/generic.c\<close>, the schoolbook product of \<open>mul.c\<close> and \<open>bn_select_words\<close>. A number
  is an array of words, least significant first; every loop computes the sum, the difference or the
  product of the numbers, with the carry or the borrow that it returns. Code that the assembler
  versions replace is what is compiled with \<open>OPENSSL_NO_ASM\<close>.
\<close>

section \<open>Numbers in words\<close>

type_synonym u128 = "128 word"

text \<open>The number that an array of words stands for, least significant word first.\<close>

definition wval :: "u64 list \<Rightarrow> nat" where
  "wval ws = horner_sum unat (2 ^ 64) ws"

lemma wval_simps [simp]: "wval [] = 0" "wval (w # ws) = unat w + 2 ^ 64 * wval ws"
  by (simp_all add: wval_def)

lemma wval_append: "wval (xs @ ys) = wval xs + 2 ^ (64 * length xs) * wval ys"
proof (induction xs)
  case (Cons w xs)
  have "(2 :: nat) ^ (64 * length (w # xs)) = 2 ^ 64 * 2 ^ (64 * length xs)" by (simp add: power_add)
  then show ?case using Cons by (simp only: append_Cons wval_simps) (simp add: algebra_simps)
qed simp

lemma unat64: "unat (w :: u64) < 2 ^ 64"
  using unsigned_less [of w, where 'a = nat] by simp

lemma wval_less: "wval ws < 2 ^ (64 * length ws)"
proof (induction ws)
  case (Cons w ws)
  then have "Suc (wval ws) \<le> 2 ^ (64 * length ws)" by simp
  then have "2 ^ 64 * Suc (wval ws) \<le> 2 ^ 64 * 2 ^ (64 * length ws)" by (rule mult_le_mono2)
  moreover have "unat w + 2 ^ 64 * wval ws < 2 ^ 64 * Suc (wval ws)" using unat64 [of w] by simp
  moreover have "(2 :: nat) ^ (64 * length (w # ws)) = 2 ^ 64 * 2 ^ (64 * length ws)" by (simp add: power_add)
  ultimately show ?case by simp
qed simp

lemma wval_zeros [simp]: "wval (replicate n 0) = 0"
  by (induction n) simp_all

lemma wval_eq_0: "wval ws = 0 \<longleftrightarrow> (\<forall>w \<in> set ws. w = 0)"
  by (induction ws) (auto simp: unat_eq_0)

lemma wval_inj: "length xs = length ys \<Longrightarrow> wval xs = wval ys \<longleftrightarrow> xs = ys"
proof (induction xs ys rule: list_induct2)
  case (Cons x xs y ys)
  show ?case
  proof
    assume "wval (x # xs) = wval (y # ys)"
    then have e: "unat x + 2 ^ 64 * wval xs = unat y + 2 ^ 64 * wval ys" by simp
    have "(unat x + 2 ^ 64 * wval xs) mod 2 ^ 64 = unat x" "(unat y + 2 ^ 64 * wval ys) mod 2 ^ 64 = unat y"
      using unat64 [of x] unat64 [of y] by (simp_all only: mod_mult_self2 mod_less)
    then have "unat x = unat y" using e by metis
    then show "x # xs = y # ys" using e Cons.IH by (simp add: word_unat_eq_iff)
  qed simp
qed simp

section \<open>Addition and subtraction\<close>

text \<open>
  The loops of \<open>generic.c\<close> are unrolled four times; here they take one word at a time. \<open>ll\<close> is the
  128-bit accumulator.
\<close>

fun add_loop :: "u128 \<Rightarrow> (u64 \<times> u64) list \<Rightarrow> u64 list \<times> u128" where
  "add_loop ll [] = ([], ll)"
| "add_loop ll ((x, y) # xys) =
     (let ll = ll + (ucast x + ucast y)
      in case add_loop (drop_bit 64 ll) xys of (r, ll') \<Rightarrow> (ucast ll # r, ll'))"

definition bn_add_words :: "u64 list \<Rightarrow> u64 list \<Rightarrow> nat \<Rightarrow> u64 \<times> u64 list" where
  "bn_add_words a b n =
     (if n = 0 then (0, []) else case add_loop 0 (zip (take n a) (take n b)) of (r, ll) \<Rightarrow> (ucast ll, r))"

fun sub_loop :: "u64 \<Rightarrow> (u64 \<times> u64) list \<Rightarrow> u64 list \<times> u64" where
  "sub_loop c [] = ([], c)"
| "sub_loop c ((t1, t2) # xys) =
     (let r0 = t1 - t2 - c; c = (if t1 \<noteq> t2 then of_bool (t1 < t2) else c)
      in case sub_loop c xys of (r, c') \<Rightarrow> (r0 # r, c'))"

definition bn_sub_words :: "u64 list \<Rightarrow> u64 list \<Rightarrow> nat \<Rightarrow> u64 \<times> u64 list" where
  "bn_sub_words a b n =
     (if n = 0 then (0, []) else case sub_loop 0 (zip (take n a) (take n b)) of (r, c) \<Rightarrow> (c, r))"

text \<open>The low and the high half of a 128-bit number.\<close>

lemma unat_high: "unat (drop_bit 64 (t :: u128)) = unat t div 2 ^ 64"
  unfolding unat_drop_bit_eq by (rule drop_bit_eq_div)

lemma unat_low: "unat (ucast (t :: u128) :: u64) = unat t mod 2 ^ 64"
  unfolding unsigned_ucast_eq take_bit_eq_mod by simp

lemma unat_halves: "unat (ucast (t :: u128) :: u64) + 2 ^ 64 * unat (drop_bit 64 t) = unat t"
  unfolding unat_high unat_low by (rule mod_mult_div_eq)

lemma unat_ucast64: "unat (ucast (x :: u64) :: u128) = unat x"
  unfolding unsigned_ucast_eq by (rule take_bit_nat_eq_self) (use unat64 [of x] in simp)

lemma add_loop:
  "unat ll \<le> 1 \<Longrightarrow> add_loop ll xys = (r, ll') \<Longrightarrow>
   length r = length xys \<and> unat ll' \<le> 1 \<and>
   wval r + 2 ^ (64 * length xys) * unat ll' = wval (map fst xys) + wval (map snd xys) + unat ll"
proof (induction ll xys arbitrary: r ll' rule: add_loop.induct)
  case (2 ll x y xys)
  define t where "t = ll + (ucast x + ucast y)"
  have s: "unat ll + (unat x + unat y) < 2 ^ 128" using 2(2) unat64 [of x] unat64 [of y] by simp
  have t: "unat t = unat ll + (unat x + unat y)"
    unfolding t_def by (subst unat_add_lem [THEN iffD1]; (subst unat_add_lem [THEN iffD1])?) (use s in \<open>simp_all add: unat_ucast64\<close>)
  obtain r1 where r1: "add_loop (drop_bit 64 t) xys = (r1, ll')" "r = ucast t # r1"
    using 2(3) by (auto simp: t_def [symmetric] Let_def split: prod.splits)
  have c: "unat (drop_bit 64 t) \<le> 1"
  proof -
    have "unat t div 2 ^ 64 \<le> 1" using t 2(2) unat64 [of x] unat64 [of y] by simp
    then show ?thesis unfolding unat_high .
  qed
  from 2(1) [OF t_def c r1(1)] have IH: "length r1 = length xys" "unat ll' \<le> 1"
    "wval r1 + 2 ^ (64 * length xys) * unat ll' = wval (map fst xys) + wval (map snd xys) + unat (drop_bit 64 t)" by simp_all
  have "wval r + 2 ^ (64 * length ((x, y) # xys)) * unat ll' =
      unat (ucast t :: u64) + 2 ^ 64 * (wval r1 + 2 ^ (64 * length xys) * unat ll')"
    by (simp add: r1(2) power_add algebra_simps)
  also have "\<dots> = unat (ucast t :: u64) + 2 ^ 64 * unat (drop_bit 64 t) + 2 ^ 64 * (wval (map fst xys) + wval (map snd xys))"
    unfolding IH(3) by (simp only: distrib_left add.assoc add.commute)
  also have "\<dots> = unat t + 2 ^ 64 * (wval (map fst xys) + wval (map snd xys))" by (simp only: unat_halves)
  finally show ?case using IH(1,2) r1(2) t by simp
qed simp

lemma bn_add_words:
  assumes "bn_add_words a b n = (c, r)" "n \<le> length a" "n \<le> length b"
  shows "length r = n" "unat c \<le> 1" "wval r + 2 ^ (64 * n) * unat c = wval (take n a) + wval (take n b)"
proof -
  have "length r = n \<and> unat c \<le> 1 \<and> wval r + 2 ^ (64 * n) * unat c = wval (take n a) + wval (take n b)"
  proof (cases "n = 0")
    case True
    then show ?thesis using assms(1) by (simp add: bn_add_words_def)
  next
    case False
    obtain ll where l: "add_loop 0 (zip (take n a) (take n b)) = (r, ll)" "c = ucast ll"
      using assms(1) False by (auto simp: bn_add_words_def split: prod.splits)
    have len: "length (zip (take n a) (take n b)) = n" "map fst (zip (take n a) (take n b)) = take n a"
      "map snd (zip (take n a) (take n b)) = take n b" using assms(2,3) by simp_all
    have p: "length r = n" "unat ll \<le> 1" "wval r + 2 ^ (64 * n) * unat ll = wval (take n a) + wval (take n b)"
      using add_loop [OF _ l(1)] unfolding len by simp_all
    moreover have "unat c = unat ll" unfolding l(2) unat_low by (rule mod_less) (use p(2) in simp)
    ultimately show ?thesis by simp
  qed
  then show "length r = n" "unat c \<le> 1" "wval r + 2 ^ (64 * n) * unat c = wval (take n a) + wval (take n b)" by simp_all
qed

lemma sub_step:
  assumes "unat (c :: u64) \<le> 1" "c' = (if t1 \<noteq> t2 then of_bool (t1 < t2) else c)"
  shows "unat (c' :: u64) \<le> 1" "unat (t1 - t2 - c) + unat t2 + unat c = unat t1 + 2 ^ 64 * unat c'"
proof -
  show "unat c' \<le> 1" using assms by auto
  have u: "unat (x - y) = (if unat y \<le> unat x then unat x - unat y else unat x + 2 ^ 64 - unat y)" for x y :: u64
    using unat64 [of x] unat64 [of y] unat_sub_if_size [of x y] by (simp add: word_size)
  show "unat (t1 - t2 - c) + unat t2 + unat c = unat t1 + 2 ^ 64 * unat c'"
    using assms unat64 [of t1] unat64 [of t2] by (auto simp: u word_less_nat_alt word_unat_eq_iff)
qed

lemma sub_loop:
  "unat c \<le> 1 \<Longrightarrow> sub_loop c xys = (r, c') \<Longrightarrow>
   length r = length xys \<and> unat c' \<le> 1 \<and>
   wval r + wval (map snd xys) + unat c = wval (map fst xys) + 2 ^ (64 * length xys) * unat c'"
proof (induction c xys arbitrary: r c' rule: sub_loop.induct)
  case (2 c t1 t2 xys)
  define c1 where "c1 = (if t1 \<noteq> t2 then of_bool (t1 < t2) else c)"
  note s = sub_step [OF 2(2) c1_def]
  obtain r1 where r1: "sub_loop c1 xys = (r1, c')" "r = (t1 - t2 - c) # r1"
    using 2(3) by (auto simp: c1_def [symmetric] Let_def split: prod.splits)
  from 2(1) [OF refl c1_def s(1) r1(1)] have IH: "length r1 = length xys" "unat c' \<le> 1"
    "wval r1 + wval (map snd xys) + unat c1 = wval (map fst xys) + 2 ^ (64 * length xys) * unat c'" by simp_all
  have "wval r + wval (map snd ((t1, t2) # xys)) + unat c =
      (unat (t1 - t2 - c) + unat t2 + unat c) + 2 ^ 64 * (wval r1 + wval (map snd xys))"
    by (simp add: r1(2) algebra_simps)
  also have "\<dots> = unat t1 + 2 ^ 64 * (wval r1 + wval (map snd xys) + unat c1)"
    unfolding s(2) by (simp add: algebra_simps)
  also have "\<dots> = wval (map fst ((t1, t2) # xys)) + 2 ^ (64 * length ((t1, t2) # xys)) * unat c'"
    unfolding IH(3) by (simp add: power_add algebra_simps)
  finally show ?case using IH(1,2) r1(2) by simp
qed simp

lemma bn_sub_words:
  assumes "bn_sub_words a b n = (c, r)" "n \<le> length a" "n \<le> length b"
  shows "length r = n" "unat c \<le> 1" "wval r + wval (take n b) = wval (take n a) + 2 ^ (64 * n) * unat c"
proof -
  have "length r = n \<and> unat c \<le> 1 \<and> wval r + wval (take n b) = wval (take n a) + 2 ^ (64 * n) * unat c"
  proof (cases "n = 0")
    case True
    then show ?thesis using assms(1) by (simp add: bn_sub_words_def)
  next
    case False
    have l: "sub_loop 0 (zip (take n a) (take n b)) = (r, c)"
      using assms(1) False by (auto simp: bn_sub_words_def split: prod.splits)
    have len: "length (zip (take n a) (take n b)) = n" "map fst (zip (take n a) (take n b)) = take n a"
      "map snd (zip (take n a) (take n b)) = take n b" using assms(2,3) by simp_all
    show ?thesis using sub_loop [OF _ l] unfolding len by simp
  qed
  then show "length r = n" "unat c \<le> 1" "wval r + wval (take n b) = wval (take n a) + 2 ^ (64 * n) * unat c" by simp_all
qed

section \<open>Multiplication by a word\<close>

text \<open>The macros \<open>mul\<close> and \<open>mul_add\<close> on the 128-bit type: the low and the high half.\<close>

definition mul_step :: "u64 \<Rightarrow> u64 \<Rightarrow> u64 \<Rightarrow> u64 \<times> u64" where
  "mul_step a w c = (let t = ucast w * ucast a + ucast c :: u128 in (ucast t, ucast (drop_bit 64 t)))"

definition mul_add_step :: "u64 \<Rightarrow> u64 \<Rightarrow> u64 \<Rightarrow> u64 \<Rightarrow> u64 \<times> u64" where
  "mul_add_step r a w c = (let t = ucast w * ucast a + ucast r + ucast c :: u128 in (ucast t, ucast (drop_bit 64 t)))"

fun mul_loop :: "u64 list \<Rightarrow> u64 \<Rightarrow> u64 \<Rightarrow> u64 list \<times> u64" where
  "mul_loop [] w c1 = ([], c1)"
| "mul_loop (x # xs) w c1 =
     (case mul_step x w c1 of (r0, c1) \<Rightarrow> case mul_loop xs w c1 of (r, c1) \<Rightarrow> (r0 # r, c1))"

fun mul_add_loop :: "(u64 \<times> u64) list \<Rightarrow> u64 \<Rightarrow> u64 \<Rightarrow> u64 list \<times> u64" where
  "mul_add_loop [] w c1 = ([], c1)"
| "mul_add_loop ((r0, x) # xs) w c1 =
     (case mul_add_step r0 x w c1 of (r0, c1) \<Rightarrow> case mul_add_loop xs w c1 of (r, c1) \<Rightarrow> (r0 # r, c1))"

definition bn_mul_words :: "u64 list \<Rightarrow> nat \<Rightarrow> u64 \<Rightarrow> u64 \<times> u64 list" where
  "bn_mul_words ap num w = (if num = 0 then (0, []) else case mul_loop (take num ap) w 0 of (r, c1) \<Rightarrow> (c1, r))"

definition bn_mul_add_words :: "u64 list \<Rightarrow> u64 list \<Rightarrow> nat \<Rightarrow> u64 \<Rightarrow> u64 \<times> u64 list" where
  "bn_mul_add_words rp ap num w =
     (if num = 0 then (0, []) else case mul_add_loop (zip (take num rp) (take num ap)) w 0 of (r, c1) \<Rightarrow> (c1, r))"

fun bn_sqr_words :: "u64 list \<Rightarrow> u64 list" where
  "bn_sqr_words [] = []"
| "bn_sqr_words (x # a) = (let t = ucast x * ucast x :: u128 in ucast t # ucast (drop_bit 64 t) # bn_sqr_words a)"

lemma mul_bound: "a < B \<Longrightarrow> w < B \<Longrightarrow> r < B \<Longrightarrow> c < B \<Longrightarrow> w * a + r + c < B * (B :: nat)"
proof -
  assume "a < B" "w < B" "r < B" "c < B"
  then have "w * a \<le> (B - 1) * (B - 1)" by (intro mult_mono) simp_all
  moreover have "(B - 1) * (B - 1) + 2 * (B - 1) + 1 = B * B" using \<open>a < B\<close> by (cases B) simp_all
  ultimately show ?thesis using \<open>r < B\<close> \<open>c < B\<close> by linarith
qed

lemma mul_add_step:
  assumes "mul_add_step r a w c = (l, h)"
  shows "unat l + 2 ^ 64 * unat h = unat w * unat a + unat r + unat c"
proof -
  define t where "t = (ucast w * ucast a + ucast r + ucast c :: u128)"
  have b: "unat w * unat a + unat r + unat c < 2 ^ 128"
    using mul_bound [OF unat64 unat64 unat64 unat64, of w a r c] by (simp add: power_add [symmetric])
  have p: "unat (ucast w * ucast a :: u128) = unat w * unat a"
    by (subst unat_mult_lem [THEN iffD1]) (use b in \<open>simp_all add: unat_ucast64\<close>)
  have q: "unat (ucast w * ucast a + ucast r :: u128) = unat w * unat a + unat r"
    by (subst unat_add_lem [THEN iffD1]) (use b in \<open>simp_all add: unat_ucast64 p\<close>)
  have t: "unat t = unat w * unat a + unat r + unat c"
    unfolding t_def by (subst unat_add_lem [THEN iffD1]) (use b in \<open>simp_all add: unat_ucast64 q\<close>)
  have "l = ucast t" "h = ucast (drop_bit 64 t)"
    using assms by (simp_all add: mul_add_step_def t_def Let_def)
  moreover have "unat (ucast (drop_bit 64 t) :: u64) = unat (drop_bit 64 t)"
  proof -
    have "unat t div 2 ^ 64 < 2 ^ 64" using b t by (simp add: less_mult_imp_div_less)
    then show ?thesis unfolding unat_low unat_high by simp
  qed
  ultimately show ?thesis using unat_halves [of t] t by simp
qed

lemma mul_step:
  assumes "mul_step a w c = (l, h)"
  shows "unat l + 2 ^ 64 * unat h = unat w * unat a + unat c"
  using mul_add_step [of 0 a w c l h] assms by (simp add: mul_add_step_def mul_step_def)

lemma mul_add_loop:
  "mul_add_loop rxs w c = (r, c') \<Longrightarrow>
   length r = length rxs \<and> wval r + 2 ^ (64 * length rxs) * unat c' = wval (map fst rxs) + unat w * wval (map snd rxs) + unat c"
proof (induction rxs w c arbitrary: r c' rule: mul_add_loop.induct)
  case (2 r0 x xs w c)
  obtain l h where lh: "mul_add_step r0 x w c = (l, h)" by fastforce
  obtain r1 where r1: "mul_add_loop xs w h = (r1, c')" "r = l # r1"
    using 2(2) by (auto simp: lh split: prod.splits)
  have IH: "length r1 = length xs" "wval r1 + 2 ^ (64 * length xs) * unat c' = wval (map fst xs) + unat w * wval (map snd xs) + unat h"
    using 2(1) [OF lh [symmetric] r1(1)] by simp_all
  have "wval r + 2 ^ (64 * length ((r0, x) # xs)) * unat c' = unat l + 2 ^ 64 * (wval r1 + 2 ^ (64 * length xs) * unat c')"
    by (simp add: r1(2) power_add algebra_simps)
  also have "\<dots> = (unat l + 2 ^ 64 * unat h) + 2 ^ 64 * (wval (map fst xs) + unat w * wval (map snd xs))"
    unfolding IH(2) by (simp add: algebra_simps)
  also have "\<dots> = wval (map fst ((r0, x) # xs)) + unat w * wval (map snd ((r0, x) # xs)) + unat c"
    unfolding mul_add_step [OF lh] by (simp add: algebra_simps)
  finally show ?case using IH(1) r1(2) by simp
qed simp

lemma mul_loop_add: "mul_loop xs w c = mul_add_loop (zip (replicate (length xs) 0) xs) w c"
  by (induction xs arbitrary: c) (simp_all add: mul_step_def mul_add_step_def)

lemma bn_mul_add_words:
  assumes "bn_mul_add_words rp ap n w = (c, r)" "n \<le> length rp" "n \<le> length ap"
  shows "length r = n" "wval r + 2 ^ (64 * n) * unat c = wval (take n rp) + unat w * wval (take n ap)"
proof -
  have l: "mul_add_loop (zip (take n rp) (take n ap)) w 0 = (r, c)"
    using assms(1) by (auto simp: bn_mul_add_words_def split: prod.splits if_splits)
  have len: "length (zip (take n rp) (take n ap)) = n" "map fst (zip (take n rp) (take n ap)) = take n rp"
    "map snd (zip (take n rp) (take n ap)) = take n ap" using assms(2,3) by simp_all
  show "length r = n" "wval r + 2 ^ (64 * n) * unat c = wval (take n rp) + unat w * wval (take n ap)"
    using mul_add_loop [OF l] unfolding len by simp_all
qed

lemma bn_mul_words:
  assumes "bn_mul_words ap n w = (c, r)" "n \<le> length ap"
  shows "length r = n" "wval r + 2 ^ (64 * n) * unat c = unat w * wval (take n ap)"
proof -
  have "mul_loop (take n ap) w 0 = (r, c)"
    using assms(1) by (auto simp: bn_mul_words_def split: prod.splits if_splits)
  then have l: "mul_add_loop (zip (replicate n 0) (take n ap)) w 0 = (r, c)"
    using assms(2) by (simp add: mul_loop_add min_absorb2)
  have len: "length (zip (replicate n 0) (take n ap)) = n" "map fst (zip (replicate n 0) (take n ap)) = replicate n (0 :: u64)"
    "map snd (zip (replicate n (0 :: u64)) (take n ap)) = take n ap" using assms(2) by simp_all
  show "length r = n" "wval r + 2 ^ (64 * n) * unat c = unat w * wval (take n ap)"
    using mul_add_loop [OF l] unfolding len by simp_all
qed

lemma length_sqr_words: "length (bn_sqr_words a) = 2 * length a"
  by (induction a) (simp_all add: Let_def)

section \<open>Products\<close>

definition put_words :: "u64 list \<Rightarrow> nat \<Rightarrow> u64 list \<Rightarrow> u64 list" where
  "put_words d i ws = take i d @ ws @ drop (i + length ws) d"

lemma put_words [simp]:
  "i + length ws \<le> length d \<Longrightarrow> length (put_words d i ws) = length d"
  "i + length ws \<le> length d \<Longrightarrow> take i (put_words d i ws) = take i d"
  "i + length ws \<le> length d \<Longrightarrow> take (i + length ws) (put_words d i ws) = take i d @ ws"
  by (simp_all add: put_words_def)

text \<open>The rows from the second word of \<open>b\<close> on; the source writes four of them in one round of its loop.\<close>

fun mul_rows :: "u64 list \<Rightarrow> nat \<Rightarrow> u64 list \<Rightarrow> nat \<Rightarrow> u64 list \<Rightarrow> u64 list" where
  "mul_rows r j a na [] = r"
| "mul_rows r j a na (w # bs) =
     (case bn_mul_add_words (drop j r) a na w of (c, row) \<Rightarrow>
        mul_rows (put_words (put_words r j row) (na + j) [c]) (j + 1) a na bs)"

definition bn_mul_normal :: "u64 list \<Rightarrow> u64 list \<Rightarrow> nat \<Rightarrow> u64 list \<Rightarrow> nat \<Rightarrow> u64 list" where
  "bn_mul_normal r a na b nb =
     (let (a, na, b, nb) = (if na < nb then (b, nb, a, na) else (a, na, b, nb))
      in if nb = 0 then put_words r 0 (replicate na 0)
         else case bn_mul_words a na (b ! 0) of (c, row) \<Rightarrow>
                mul_rows (put_words (put_words r 0 row) na [c]) 1 a na (drop 1 (take nb b)))"

lemma wval_take: "i \<le> n \<Longrightarrow> n \<le> length r \<Longrightarrow> wval (take n r) = wval (take i r) + 2 ^ (64 * i) * wval (take (n - i) (drop i r))"
proof -
  assume "i \<le> n" "n \<le> length r"
  then have "take n r = take i r @ take (n - i) (drop i r)" by (metis le_add_diff_inverse take_add)
  then show ?thesis using \<open>i \<le> n\<close> \<open>n \<le> length r\<close> by (simp add: wval_append min_absorb2)
qed

lemma mul_row:
  assumes "bn_mul_add_words (drop j r) a na w = (c, row)" "na \<le> length a" "na + j < length r"
    and "r' = put_words (put_words r j row) (na + j) [c]"
  shows "length r' = length r" "wval (take (na + j + 1) r') = wval (take (na + j) r) + 2 ^ (64 * j) * unat w * wval (take na a)"
proof -
  have row: "length row = na" "wval row + 2 ^ (64 * na) * unat c = wval (take na (drop j r)) + unat w * wval (take na a)"
    using bn_mul_add_words [OF assms(1)] assms(2,3) by simp_all
  show "length r' = length r" using row assms(3,4) by (simp add: put_words_def)
  have l: "length (take j r) = j" using assms(3) by simp
  have "take (na + j + 1) r' = take j r @ row @ [c]"
    using row(1) assms(3) by (simp add: assms(4) put_words_def)
  then have "wval (take (na + j + 1) r') = wval (take j r) + 2 ^ (64 * j) * (wval row + 2 ^ (64 * na) * unat c)"
    by (simp only: wval_append l row(1) wval_simps) simp
  also have "\<dots> = (wval (take j r) + 2 ^ (64 * j) * wval (take na (drop j r))) + 2 ^ (64 * j) * unat w * wval (take na a)"
    unfolding row(2) by (simp add: algebra_simps)
  also have "wval (take j r) + 2 ^ (64 * j) * wval (take na (drop j r)) = wval (take (na + j) r)"
    using wval_take [of j "na + j" r] assms(3) by simp
  finally show "wval (take (na + j + 1) r') = wval (take (na + j) r) + 2 ^ (64 * j) * unat w * wval (take na a)" .
qed

lemma mul_rows:
  assumes "na \<le> length a" "na + j + length bs \<le> length r"
  shows "length (mul_rows r j a na bs) = length r \<and>
    wval (take (na + j + length bs) (mul_rows r j a na bs)) = wval (take (na + j) r) + 2 ^ (64 * j) * wval bs * wval (take na a)"
  using assms
proof (induction r j a na bs rule: mul_rows.induct)
  case (2 r j a na w bs)
  obtain c row where m: "bn_mul_add_words (drop j r) a na w = (c, row)" by fastforce
  define r' where "r' = put_words (put_words r j row) (na + j) [c]"
  have s: "length r' = length r" "wval (take (na + j + 1) r') = wval (take (na + j) r) + 2 ^ (64 * j) * unat w * wval (take na a)"
    using mul_row [OF m 2(2) _ r'_def] 2(3) by simp_all
  have "na + (j + 1) + length bs \<le> length r'" using 2(3) s(1) by simp
  from 2(1) [OF m [symmetric] 2(2), folded r'_def, OF this] s 2(3)
  have IH: "length (mul_rows r' (j + 1) a na bs) = length r"
    "wval (take (na + (j + 1) + length bs) (mul_rows r' (j + 1) a na bs)) =
      wval (take (na + j) r) + 2 ^ (64 * j) * unat w * wval (take na a) + 2 ^ (64 * (j + 1)) * wval bs * wval (take na a)" by simp_all
  have "mul_rows r j a na (w # bs) = mul_rows r' (j + 1) a na bs" by (simp add: m r'_def)
  moreover have "(2 :: nat) ^ (64 * (j + 1)) = 2 ^ (64 * j) * 2 ^ 64" by (simp add: power_add)
  ultimately show ?case using IH by (simp add: algebra_simps)
qed simp

lemma bn_mul_normal:
  assumes "na \<le> length a" "nb \<le> length b" "na + nb \<le> length r"
  shows "length (bn_mul_normal r a na b nb) = length r \<and>
    wval (take (na + nb) (bn_mul_normal r a na b nb)) = wval (take na a) * wval (take nb b)"
proof -
  have main: "length (bn_mul_normal r a na b nb) = length r \<and>
      wval (take (na + nb) (bn_mul_normal r a na b nb)) = wval (take na a) * wval (take nb b)"
    if "nb \<le> na" "na \<le> length a" "nb \<le> length b" "na + nb \<le> length r" for a na b nb
  proof (cases "nb = 0")
    case True
    then show ?thesis using that by (simp add: bn_mul_normal_def put_words_def)
  next
    case False
    have l: "length (take nb b) = nb" using that(3) by simp
    obtain w bs where b: "take nb b = w # bs" using False l by (cases "take nb b") auto
    have "take nb b ! 0 = b ! 0" using False by (intro nth_take) simp
    then have w: "b ! 0 = w" "drop 1 (take nb b) = bs" "length bs + 1 = nb" using b l by simp_all
    obtain c row where m: "bn_mul_words a na w = (c, row)" by fastforce
    define r1 where "r1 = put_words (put_words r 0 row) na [c]"
    note row = bn_mul_words [OF m that(2)]
    have r1: "length r1 = length r" "take (na + 1) r1 = row @ [c]"
      using row(1) that w(3) by (simp_all add: r1_def put_words_def)
    have v1: "wval (take (na + 1) r1) = unat w * wval (take na a)"
      unfolding r1(2) using row by (simp add: wval_append)
    have "bn_mul_normal r a na b nb = mul_rows r1 1 a na bs"
      using that(1) False w(2) by (simp add: bn_mul_normal_def w(1) m r1_def Let_def)
    moreover have "na + 1 + length bs \<le> length r1" using that w(3) r1 by simp
    ultimately show ?thesis using mul_rows [OF that(2), of 1 bs r1] v1 r1(1) b
      unfolding w(3) [symmetric] by (simp add: algebra_simps)
  qed
  show ?thesis
  proof (cases "na < nb")
    case True
    then have "bn_mul_normal r a na b nb = bn_mul_normal r b nb a na" by (simp add: bn_mul_normal_def)
    then show ?thesis using main [of na nb b a] True assms by (simp add: mult.commute add.commute)
  next
    case False
    then show ?thesis using main [of nb na a b] assms by simp
  qed
qed

section \<open>Carries and selection\<close>

text \<open>A carry is propagated through words; the words of \<open>a\<close> or of \<open>b\<close> are selected by a mask.\<close>

fun carry_loop :: "u64 \<Rightarrow> u64 list \<Rightarrow> u64 list \<times> u64" where
  "carry_loop c [] = ([], c)"
| "carry_loop c (x # a) =
     (let tmp = c + x; c = of_bool (tmp < x) in case carry_loop c a of (r, c) \<Rightarrow> (tmp # r, c))"

definition bn_select_words :: "u64 \<Rightarrow> u64 list \<Rightarrow> u64 list \<Rightarrow> nat \<Rightarrow> u64 list" where
  "bn_select_words m a b num = map2 (constant_time_select_w m) (take num a) (take num b)"

lemma unat_add64: "unat (x + y :: u64) = (if unat x + unat y < 2 ^ 64 then unat x + unat y else unat x + unat y - 2 ^ 64)"
  using unat_plus_if_size [of x y] by (simp add: word_size)

lemma unat_sub64: "unat (x - y :: u64) = (if unat y \<le> unat x then unat x - unat y else unat x + 2 ^ 64 - unat y)"
  using unat_sub_if_size [of x y] by (simp add: word_size)

lemma carry_loop:
  "carry_loop c a = (r, c') \<Longrightarrow>
   length r = length a \<and> (unat c \<le> 1 \<longrightarrow> unat c' \<le> 1) \<and> wval r + 2 ^ (64 * length a) * unat c' = wval a + unat c"
proof (induction c a arbitrary: r c' rule: carry_loop.induct)
  case (2 c x a)
  define tmp where "tmp = c + x"
  have s: "unat tmp + 2 ^ 64 * unat (of_bool (tmp < x) :: u64) = unat x + unat c"
    using unat64 [of c] unat64 [of x] by (auto simp: tmp_def word_less_nat_alt unat_add64)
  have "unat (of_bool (tmp < x) :: u64) \<le> 1" by simp
  moreover obtain r1 where r1: "carry_loop (of_bool (tmp < x)) a = (r1, c')" "r = tmp # r1"
    using 2(2) by (auto simp: tmp_def Let_def split: prod.splits)
  ultimately have IH: "length r1 = length a" "unat c' \<le> 1"
    "wval r1 + 2 ^ (64 * length a) * unat c' = wval a + unat (of_bool (tmp < x) :: u64)"
    using 2(1) [OF tmp_def refl, of r1 c'] by simp_all
  have "wval r + 2 ^ (64 * length (x # a)) * unat c' = unat tmp + 2 ^ 64 * (wval r1 + 2 ^ (64 * length a) * unat c')"
    by (simp add: r1(2) power_add algebra_simps)
  also have "\<dots> = (unat tmp + 2 ^ 64 * unat (of_bool (tmp < x) :: u64)) + 2 ^ 64 * wval a"
    unfolding IH(3) by (simp add: algebra_simps)
  finally show ?case using s IH(1,2) r1(2) by simp
qed simp

lemma bn_select_words:
  assumes "n \<le> length a" "n \<le> length b"
  shows "bn_select_words (if P then -1 else 0) a b n = (if P then take n a else take n b)"
proof -
  have "map2 (\<lambda>x y. x) xs ys = xs" "map2 (\<lambda>x y. y) xs ys = ys" if "length xs = length ys" for xs ys :: "u64 list"
    using that by (induction xs ys rule: list_induct2) simp_all
  then show ?thesis using assms by (simp add: bn_select_words_def)
qed

end
