(* ===== verification/Bn_Comba.thy ===== *)
theory Bn_Comba
  imports Bn_Words
begin

text \<open>
  The unrolled products and squares of four and eight words of \<open>generic.c\<close>, column by column with an
  accumulator of three words.
\<close>

section \<open>Products by columns\<close>

text \<open>The macros \<open>mul_add_c\<close> and \<open>mul_add_c2\<close>: a product, or twice a product, added to a number of three words.\<close>

definition mul_add_c :: "u64 \<Rightarrow> u64 \<Rightarrow> u64 \<times> u64 \<times> u64 \<Rightarrow> u64 \<times> u64 \<times> u64" where
  "mul_add_c a b c =
     (case c of (c0, c1, c2) \<Rightarrow>
        (let t = ucast a * ucast b + ucast c0 :: u128;
             c0 = ucast t;
             hi = ucast (drop_bit 64 t);
             c1 = c1 + hi
         in (c0, c1, if c1 < hi then c2 + 1 else c2)))"

definition mul_add_c2 :: "u64 \<Rightarrow> u64 \<Rightarrow> u64 \<times> u64 \<times> u64 \<Rightarrow> u64 \<times> u64 \<times> u64" where
  "mul_add_c2 a b c =
     (case c of (c0, c1, c2) \<Rightarrow>
        (let t = ucast a * ucast b :: u128;
             tt = t + ucast c0;
             c0 = ucast tt :: u64;
             hi = ucast (drop_bit 64 tt);
             c1 = c1 + hi;
             c2 = (if c1 < hi then c2 + 1 else c2);
             t = t + ucast c0;
             c0 = ucast t;
             hi = ucast (drop_bit 64 t);
             c1 = c1 + hi
         in (c0, c1, if c1 < hi then c2 + 1 else c2)))"

text \<open>
  The columns one after the other: the lowest word of the accumulator goes to the result, and the
  freed variable is the new highest word. After the last column the next word is stored as well.
\<close>

fun comba :: "('p \<Rightarrow> u64 \<times> u64 \<times> u64 \<Rightarrow> u64 \<times> u64 \<times> u64) \<Rightarrow> 'p list list \<Rightarrow> u64 \<times> u64 \<times> u64 \<Rightarrow> u64 list" where
  "comba add [] (c0, c1, c2) = [c0]"
| "comba add (col # cols) c = (case fold add col c of (c0, c1, c2) \<Rightarrow> c0 # comba add cols (c1, c2, 0))"

text \<open>The indices of the factors, column by column in the order of the source.\<close>

definition comba8_columns :: "(nat \<times> nat) list list" where
  "comba8_columns =
  [[(0, 0)],
   [(0, 1), (1, 0)],
   [(2, 0), (1, 1), (0, 2)],
   [(0, 3), (1, 2), (2, 1), (3, 0)],
   [(4, 0), (3, 1), (2, 2), (1, 3), (0, 4)],
   [(0, 5), (1, 4), (2, 3), (3, 2), (4, 1), (5, 0)],
   [(6, 0), (5, 1), (4, 2), (3, 3), (2, 4), (1, 5), (0, 6)],
   [(0, 7), (1, 6), (2, 5), (3, 4), (4, 3), (5, 2), (6, 1), (7, 0)],
   [(7, 1), (6, 2), (5, 3), (4, 4), (3, 5), (2, 6), (1, 7)],
   [(2, 7), (3, 6), (4, 5), (5, 4), (6, 3), (7, 2)],
   [(7, 3), (6, 4), (5, 5), (4, 6), (3, 7)],
   [(4, 7), (5, 6), (6, 5), (7, 4)],
   [(7, 5), (6, 6), (5, 7)],
   [(6, 7), (7, 6)],
   [(7, 7)]]"

definition comba4_columns :: "(nat \<times> nat) list list" where
  "comba4_columns =
  [[(0, 0)],
   [(0, 1), (1, 0)],
   [(2, 0), (1, 1), (0, 2)],
   [(0, 3), (1, 2), (2, 1), (3, 0)],
   [(3, 1), (2, 2), (1, 3)],
   [(2, 3), (3, 2)],
   [(3, 3)]]"

definition bn_mul_comba8 :: "u64 list \<Rightarrow> u64 list \<Rightarrow> u64 list" where
  "bn_mul_comba8 a b = comba (\<lambda>(i, j). mul_add_c (a ! i) (b ! j)) comba8_columns (0, 0, 0)"

definition bn_mul_comba4 :: "u64 list \<Rightarrow> u64 list \<Rightarrow> u64 list" where
  "bn_mul_comba4 a b = comba (\<lambda>(i, j). mul_add_c (a ! i) (b ! j)) comba4_columns (0, 0, 0)"

text \<open>In a square a term is \<open>sqr_add_c\<close> with one index or \<open>sqr_add_c2\<close> with two.\<close>

datatype sqr_term = SQ nat | SQ2 nat nat

definition sqr8_columns :: "sqr_term list list" where
  "sqr8_columns =
  [[SQ 0],
   [SQ2 1 0],
   [SQ 1, SQ2 2 0],
   [SQ2 3 0, SQ2 2 1],
   [SQ 2, SQ2 3 1, SQ2 4 0],
   [SQ2 5 0, SQ2 4 1, SQ2 3 2],
   [SQ 3, SQ2 4 2, SQ2 5 1, SQ2 6 0],
   [SQ2 7 0, SQ2 6 1, SQ2 5 2, SQ2 4 3],
   [SQ 4, SQ2 5 3, SQ2 6 2, SQ2 7 1],
   [SQ2 7 2, SQ2 6 3, SQ2 5 4],
   [SQ 5, SQ2 6 4, SQ2 7 3],
   [SQ2 7 4, SQ2 6 5],
   [SQ 6, SQ2 7 5],
   [SQ2 7 6],
   [SQ 7]]"

definition sqr4_columns :: "sqr_term list list" where
  "sqr4_columns =
  [[SQ 0],
   [SQ2 1 0],
   [SQ 1, SQ2 2 0],
   [SQ2 3 0, SQ2 2 1],
   [SQ 2, SQ2 3 1],
   [SQ2 3 2],
   [SQ 3]]"

primrec sqr_add :: "u64 list \<Rightarrow> sqr_term \<Rightarrow> u64 \<times> u64 \<times> u64 \<Rightarrow> u64 \<times> u64 \<times> u64" where
  "sqr_add a (SQ i) c = mul_add_c (a ! i) (a ! i) c"
| "sqr_add a (SQ2 i j) c = mul_add_c2 (a ! i) (a ! j) c"

definition bn_sqr_comba8 :: "u64 list \<Rightarrow> u64 list" where
  "bn_sqr_comba8 a = comba (sqr_add a) sqr8_columns (0, 0, 0)"

definition bn_sqr_comba4 :: "u64 list \<Rightarrow> u64 list" where
  "bn_sqr_comba4 a = comba (sqr_add a) sqr4_columns (0, 0, 0)"

text \<open>The value of an accumulator, and the effect of a product on it while the highest word has room.\<close>

definition cval :: "u64 \<times> u64 \<times> u64 \<Rightarrow> nat" where
  "cval c = unat (fst c) + 2 ^ 64 * unat (fst (snd c)) + 2 ^ 128 * unat (snd (snd c))"

lemma add_high:
  "unat c1 + unat hi = unat (c1 + hi :: u64) + 2 ^ 64 * of_bool (c1 + hi < hi)"
  using unat64 [of c1] unat64 [of hi] unat_plus_if_size [of c1 hi] by (auto simp: word_size word_less_nat_alt)

lemma mul_add_wide:
  assumes "t = (ucast (a :: u64) * ucast (b :: u64) :: u128)"
  shows "unat t = unat a * unat b" "unat (t + ucast (c :: u64)) = unat a * unat b + unat c"
    "unat (ucast (drop_bit 64 (t + ucast c)) :: u64) = unat (drop_bit 64 (t + ucast c))"
proof -
  have b: "unat a * unat b + unat c < 2 ^ 128"
    using mul_bound [OF unat64 unat64 unat64 unat64, of a b c 0] by (simp add: power_add [symmetric])
  show p: "unat t = unat a * unat b"
    unfolding assms by (subst unat_mult_lem [THEN iffD1]) (use b in \<open>simp_all add: unat_ucast64\<close>)
  show q: "unat (t + ucast c) = unat a * unat b + unat c"
    by (subst unat_add_lem [THEN iffD1]) (use b in \<open>simp_all add: unat_ucast64 p\<close>)
  have "unat (t + ucast c) div 2 ^ 64 < 2 ^ 64" unfolding q using b by (simp add: less_mult_imp_div_less)
  then show "unat (ucast (drop_bit 64 (t + ucast c)) :: u64) = unat (drop_bit 64 (t + ucast c))"
    unfolding unat_low unat_high by simp
qed

text \<open>Adding the two halves of a 128-bit number to the accumulator.\<close>

lemma add_halves:
  assumes "unat (ucast (drop_bit 64 t) :: u64) = unat (drop_bit 64 (t :: u128))" "unat c2 < 2 ^ 64 - 1"
    and "hi = ucast (drop_bit 64 t)" "c2' = (if c1 + hi < hi then c2 + 1 else c2)"
  shows "cval (ucast t, c1 + hi, c2') = cval (0, c1, c2) + unat t" "unat c2' \<le> unat c2 + 1"
proof -
  have c2': "unat c2' = unat c2 + of_bool (c1 + hi < hi)"
    using assms(2) unat_plus_if_size [of c2 1] by (auto simp: assms(4) word_size)
  then show "unat c2' \<le> unat c2 + 1" by simp
  have "unat (ucast t :: u64) + 2 ^ 64 * unat hi = unat t" using unat_halves [of t] assms(1,3) by simp
  then show "cval (ucast t, c1 + hi, c2') = cval (0, c1, c2) + unat t"
    using add_high [of c1 hi] c2' by (simp add: cval_def)
qed

lemma mul_add_c:
  assumes "mul_add_c a b c = c'" "unat (snd (snd c)) < 2 ^ 64 - 1"
  shows "cval c' = cval c + unat a * unat b" "unat (snd (snd c')) \<le> unat (snd (snd c)) + 1"
proof -
  obtain c0 c1 c2 where c: "c = (c0, c1, c2)" by (cases c)
  define t where "t = (ucast a * ucast b :: u128)"
  define hi :: u64 where "hi = ucast (drop_bit 64 (t + ucast c0))"
  have c': "c' = (ucast (t + ucast c0), c1 + hi, if c1 + hi < hi then c2 + 1 else c2)"
    using assms(1) unfolding mul_add_c_def c prod.case Let_def t_def hi_def by simp
  note w = mul_add_wide(2,3) [OF t_def, of c0]
  note h = add_halves [where ?c2.0 = c2 and ?c1.0 = c1, OF w(2) _ hi_def refl]
  show "cval c' = cval c + unat a * unat b" "unat (snd (snd c')) \<le> unat (snd (snd c)) + 1"
    using h assms(2) w(1) unfolding c' c by (simp_all add: cval_def)
qed

lemma mul_add_c2:
  assumes "mul_add_c2 a b c = c'" "unat (snd (snd c)) < 2 ^ 64 - 2"
  shows "cval c' = cval c + 2 * (unat a * unat b)" "unat (snd (snd c')) \<le> unat (snd (snd c)) + 2"
proof -
  obtain c0 c1 c2 where c: "c = (c0, c1, c2)" by (cases c)
  define d where "d = mul_add_c a b c"
  have d: "mul_add_c a b d = c'"
    unfolding assms(1) [symmetric] d_def c mul_add_c2_def mul_add_c_def Let_def prod.case ..
  have e: "unat (snd (snd c)) < 2 ^ 64 - 1" using assms(2) by linarith
  note x = mul_add_c [OF d_def [symmetric] e]
  have "unat (snd (snd d)) < 2 ^ 64 - 1" using x(2) assms(2) by linarith
  note y = mul_add_c [OF d this]
  show "cval c' = cval c + 2 * (unat a * unat b)" unfolding y(1) x(1) by linarith
  show "unat (snd (snd c')) \<le> unat (snd (snd c)) + 2" using y(2) x(2) by linarith
qed

text \<open>Columns of any terms with values \<open>v\<close>.\<close>

definition adds :: "('p \<Rightarrow> u64 \<times> u64 \<times> u64 \<Rightarrow> u64 \<times> u64 \<times> u64) \<Rightarrow> ('p \<Rightarrow> nat) \<Rightarrow> bool" where
  "adds add v \<longleftrightarrow> (\<forall>p c. unat (snd (snd c)) < 2 ^ 64 - 2 \<longrightarrow>
     cval (add p c) = cval c + v p \<and> unat (snd (snd (add p c))) \<le> unat (snd (snd c)) + 2)"

lemma fold_adds:
  assumes "adds add v" "unat (snd (snd c)) + 2 * length col < 2 ^ 64 - 2"
  shows "cval (fold add col c) = cval c + sum_list (map v col) \<and>
    unat (snd (snd (fold add col c))) \<le> unat (snd (snd c)) + 2 * length col"
  using assms(2)
proof (induction col arbitrary: c)
  case (Cons p col)
  have p: "cval (add p c) = cval c + v p" "unat (snd (snd (add p c))) \<le> unat (snd (snd c)) + 2"
    using assms(1) [unfolded adds_def, rule_format, of c p] Cons.prems by simp_all
  then have "unat (snd (snd (add p c))) + 2 * length col < 2 ^ 64 - 2" using Cons.prems by simp
  from Cons.IH [OF this] p show ?case by simp
qed simp

fun column_sum :: "('p \<Rightarrow> nat) \<Rightarrow> 'p list list \<Rightarrow> nat" where
  "column_sum v [] = 0"
| "column_sum v (col # cols) = sum_list (map v col) + 2 ^ 64 * column_sum v cols"

lemma comba_value:
  assumes "adds add v" "\<forall>col \<in> set cols. length col \<le> 100" "unat (snd (snd c)) = 0"
  shows "length (comba add cols c) = length cols + 1 \<and>
    (\<exists>k. wval (comba add cols c) + 2 ^ (64 * (length cols + 1)) * k = cval c + column_sum v cols)"
  using assms(2,3)
proof (induction cols arbitrary: c)
  case Nil
  obtain c0 c1 c2 where c: "c = (c0, c1, c2)" by (cases c)
  then show ?case using Nil by (auto simp: cval_def)
next
  case (Cons col cols)
  obtain c0 c1 c2 where f: "fold add col c = (c0, c1, c2)" by (cases "fold add col c")
  have a: "cval (c0, c1, c2) = cval c + sum_list (map v col)"
    using fold_adds [OF assms(1), of c col] Cons.prems f by simp
  from Cons.IH [of "(c1, c2, 0)"] Cons.prems(1) obtain k where
    k: "length (comba add cols (c1, c2, 0)) = length cols + 1"
      "wval (comba add cols (c1, c2, 0)) + 2 ^ (64 * (length cols + 1)) * k = cval (c1, c2, 0) + column_sum v cols"
    by auto
  have p: "(2 :: nat) ^ (64 * (length (col # cols) + 1)) = 2 ^ 64 * 2 ^ (64 * (length cols + 1))" by (simp add: power_add)
  have "wval (comba add (col # cols) c) + 2 ^ (64 * (length (col # cols) + 1)) * k =
      unat c0 + 2 ^ 64 * (wval (comba add cols (c1, c2, 0)) + 2 ^ (64 * (length cols + 1)) * k)"
    unfolding p by (simp add: f algebra_simps)
  also have "\<dots> = cval (c0, c1, c2) + 2 ^ 64 * column_sum v cols"
    unfolding k(2) by (simp add: cval_def)
  also have "\<dots> = cval c + column_sum v (col # cols)" unfolding a by simp
  finally show ?case using k(1) f by auto
qed

lemma wval_sum: "wval ws = (\<Sum>i < length ws. 2 ^ (64 * i) * unat (ws ! i))"
proof (induction ws rule: rev_induct)
  case (snoc w ws)
  then show ?case by (simp add: wval_append nth_append)
qed simp

definition pair_value :: "u64 list \<Rightarrow> u64 list \<Rightarrow> nat \<times> nat \<Rightarrow> nat" where
  "pair_value a b p = unat (a ! fst p) * unat (b ! snd p)"

text \<open>Column \<open>k\<close> has the pairs of indices with sum \<open>k\<close>, and every pair occurs once.\<close>

fun in_columns :: "nat \<Rightarrow> (nat \<times> nat) list list \<Rightarrow> bool" where
  "in_columns k [] \<longleftrightarrow> True"
| "in_columns k (col # cols) \<longleftrightarrow> list_all (\<lambda>p. fst p + snd p = k) col \<and> in_columns (k + 1) cols"

definition all_pairs :: "nat \<Rightarrow> (nat \<times> nat) list list \<Rightarrow> bool" where
  "all_pairs n cols \<longleftrightarrow> in_columns 0 cols \<and> distinct (concat cols) \<and> length (concat cols) = n * n \<and>
     list_all (\<lambda>p. fst p < n \<and> snd p < n) (concat cols)"

lemma column_sum_pairs:
  "in_columns k cols \<Longrightarrow> 2 ^ (64 * k) * column_sum (pair_value a b) cols =
    sum_list (map (\<lambda>p. (2 ^ (64 * fst p) * unat (a ! fst p)) * (2 ^ (64 * snd p) * unat (b ! snd p))) (concat cols))"
proof (induction k cols rule: in_columns.induct)
  case (2 k col cols)
  have col: "2 ^ (64 * k) * sum_list (map (pair_value a b) col) =
      sum_list (map (\<lambda>p. (2 ^ (64 * fst p) * unat (a ! fst p)) * (2 ^ (64 * snd p) * unat (b ! snd p))) col)"
  proof -
    have "2 ^ (64 * k) * pair_value a b p =
        (2 ^ (64 * fst p) * unat (a ! fst p)) * (2 ^ (64 * snd p) * unat (b ! snd p))" if "p \<in> set col" for p
    proof -
      have "k = fst p + snd p" using 2(2) that by (auto simp: list_all_iff)
      then show ?thesis by (simp add: pair_value_def power_add algebra_simps)
    qed
    then show ?thesis unfolding sum_list_const_mult [symmetric] by (intro arg_cong [where f = sum_list] map_cong) simp_all
  qed
  have "2 ^ (64 * k) * column_sum (pair_value a b) (col # cols) =
      2 ^ (64 * k) * sum_list (map (pair_value a b) col) + 2 ^ (64 * (k + 1)) * column_sum (pair_value a b) cols"
    by (simp add: power_add algebra_simps)
  then show ?case using 2 col by simp
qed simp

lemma all_pairs_product:
  assumes "all_pairs n cols" "length a = n" "length b = n"
  shows "column_sum (pair_value a b) cols = wval a * wval b"
proof -
  let ?f = "\<lambda>p. (2 ^ (64 * fst p) * unat (a ! fst p)) * (2 ^ (64 * snd p) * unat (b ! snd p))"
  have s: "set (concat cols) = {..<n} \<times> {..<n}"
  proof (rule card_subset_eq)
    show "set (concat cols) \<subseteq> {..<n} \<times> {..<n}" using assms(1) by (fastforce simp: all_pairs_def list_all_iff)
    show "card (set (concat cols)) = card ({..<n} \<times> {..<n})"
      using assms(1) distinct_card [of "concat cols"] by (simp add: all_pairs_def)
  qed simp
  have "column_sum (pair_value a b) cols = sum_list (map ?f (concat cols))"
    using column_sum_pairs [of 0 cols a b] assms(1) by (simp add: all_pairs_def)
  also have "\<dots> = sum ?f (set (concat cols))" using assms(1) by (intro sum_list_distinct_conv_sum_set) (simp add: all_pairs_def)
  also have "\<dots> = (\<Sum>i < n. \<Sum>j < n. (2 ^ (64 * i) * unat (a ! i)) * (2 ^ (64 * j) * unat (b ! j)))"
    unfolding s sum.cartesian_product by (intro sum.cong) auto
  also have "\<dots> = wval a * wval b" unfolding wval_sum assms(2,3) sum_product ..
  finally show ?thesis .
qed

lemma adds_mul: "adds (\<lambda>(i, j). mul_add_c (a ! i) (b ! j)) (pair_value a b)"
  unfolding adds_def
proof (intro allI impI)
  fix p and c :: "u64 \<times> u64 \<times> u64"
  assume "unat (snd (snd c)) < 2 ^ 64 - 2"
  then have "unat (snd (snd c)) < 2 ^ 64 - 1" by linarith
  note m = mul_add_c [OF refl this, of "a ! fst p" "b ! snd p"]
  show "cval ((case p of (i, j) \<Rightarrow> mul_add_c (a ! i) (b ! j)) c) = cval c + pair_value a b p \<and>
    unat (snd (snd ((case p of (i, j) \<Rightarrow> mul_add_c (a ! i) (b ! j)) c))) \<le> unat (snd (snd c)) + 2"
    using m by (simp add: split_beta pair_value_def)
qed

lemma comba_product:
  assumes "adds add v" "\<forall>col \<in> set cols. length col \<le> 100" "length cols + 1 = 2 * n"
    and "column_sum v cols = wval a * wval b" "length a = n" "length b = n"
  shows "length (comba add cols (0, 0, 0)) = 2 * n" "wval (comba add cols (0, 0, 0)) = wval a * wval b"
proof -
  obtain k where k: "length (comba add cols (0, 0, 0)) = 2 * n"
      "wval (comba add cols (0, 0, 0)) + 2 ^ (64 * (2 * n)) * k = wval a * wval b"
    using comba_value [OF assms(1,2), of "(0, 0, 0)"] unfolding assms(3,4) by (auto simp: cval_def)
  then show "length (comba add cols (0, 0, 0)) = 2 * n" by simp
  have "wval a * wval b < 2 ^ (64 * n) * 2 ^ (64 * n)"
    using wval_less [of a] wval_less [of b] assms(5,6) by (intro mult_strict_mono) simp_all
  also have "\<dots> = 2 ^ (64 * (2 * n))" by (simp add: power_add [symmetric])
  finally have "2 ^ (64 * (2 * n)) * k < 2 ^ (64 * (2 * n)) * 1" using k(2) by linarith
  then have "k = 0" by simp
  then show "wval (comba add cols (0, 0, 0)) = wval a * wval b" using k(2) by simp
qed

lemma comba_columns:
  "all_pairs 8 comba8_columns" "all_pairs 4 comba4_columns"
  "length comba8_columns + 1 = 2 * 8" "length comba4_columns + 1 = 2 * 4"
  "list_all (\<lambda>col. length col \<le> 100) comba8_columns" "list_all (\<lambda>col. length col \<le> 100) comba4_columns"
  by (simp_all add: all_pairs_def comba8_columns_def comba4_columns_def)

lemma bn_mul_comba8:
  assumes "length a = 8" "length b = 8"
  shows "length (bn_mul_comba8 a b) = 16" "wval (bn_mul_comba8 a b) = wval a * wval b"
  using comba_product [OF adds_mul _ comba_columns(3) all_pairs_product [OF comba_columns(1) assms] assms] comba_columns(5)
  unfolding bn_mul_comba8_def by (simp_all add: list_all_iff)

lemma bn_mul_comba4:
  assumes "length a = 4" "length b = 4"
  shows "length (bn_mul_comba4 a b) = 8" "wval (bn_mul_comba4 a b) = wval a * wval b"
  using comba_product [OF adds_mul _ comba_columns(4) all_pairs_product [OF comba_columns(2) assms] assms] comba_columns(6)
  unfolding bn_mul_comba4_def by (simp_all add: list_all_iff)

primrec sqr_pairs :: "sqr_term \<Rightarrow> (nat \<times> nat) list" where
  "sqr_pairs (SQ i) = [(i, i)]"
| "sqr_pairs (SQ2 i j) = [(i, j), (j, i)]"

definition sqr_value :: "u64 list \<Rightarrow> sqr_term \<Rightarrow> nat" where
  "sqr_value a p = sum_list (map (pair_value a a) (sqr_pairs p))"

lemma sqr_sum: "column_sum (sqr_value a) cols = column_sum (pair_value a a) (map (\<lambda>col. concat (map sqr_pairs col)) cols)"
proof (induction cols)
  case (Cons col cols)
  have "sum_list (map (sqr_value a) col) = sum_list (map (pair_value a a) (concat (map sqr_pairs col)))"
    by (induction col) (simp_all add: sqr_value_def)
  then show ?case using Cons by simp
qed simp

lemma adds_sqr: "adds (sqr_add a) (sqr_value a)"
  unfolding adds_def
proof (intro allI impI)
  fix p and c :: "u64 \<times> u64 \<times> u64"
  assume r2: "unat (snd (snd c)) < 2 ^ 64 - 2"
  then have r1: "unat (snd (snd c)) < 2 ^ 64 - 1" by linarith
  show "cval (sqr_add a p c) = cval c + sqr_value a p \<and> unat (snd (snd (sqr_add a p c))) \<le> unat (snd (snd c)) + 2"
  proof (cases p)
    case (SQ i)
    then show ?thesis using mul_add_c [OF refl r1, of "a ! i" "a ! i"] by (simp add: sqr_value_def pair_value_def)
  next
    case (SQ2 i j)
    then show ?thesis using mul_add_c2 [OF refl r2, of "a ! i" "a ! j"] by (simp add: sqr_value_def pair_value_def)
  qed
qed

lemma sqr_columns:
  "all_pairs 8 (map (\<lambda>col. concat (map sqr_pairs col)) sqr8_columns)"
  "all_pairs 4 (map (\<lambda>col. concat (map sqr_pairs col)) sqr4_columns)"
  "length sqr8_columns + 1 = 2 * 8" "length sqr4_columns + 1 = 2 * 4"
  "list_all (\<lambda>col. length col \<le> 100) sqr8_columns" "list_all (\<lambda>col. length col \<le> 100) sqr4_columns"
  by (simp_all add: all_pairs_def sqr8_columns_def sqr4_columns_def)

lemma bn_sqr_comba8:
  assumes "length a = 8"
  shows "length (bn_sqr_comba8 a) = 16" "wval (bn_sqr_comba8 a) = wval a * wval a"
  using comba_product [OF adds_sqr _ sqr_columns(3) _ assms assms, of a] sqr_columns(5)
    all_pairs_product [OF sqr_columns(1) assms assms]
  unfolding bn_sqr_comba8_def sqr_sum by (simp_all add: list_all_iff)

lemma bn_sqr_comba4:
  assumes "length a = 4"
  shows "length (bn_sqr_comba4 a) = 8" "wval (bn_sqr_comba4 a) = wval a * wval a"
  using comba_product [OF adds_sqr _ sqr_columns(4) _ assms assms, of a] sqr_columns(6)
    all_pairs_product [OF sqr_columns(2) assms assms]
  unfolding bn_sqr_comba4_def sqr_sum by (simp_all add: list_all_iff)

end
