(* ===== verification/Bn_Karatsuba.thy ===== *)
theory Bn_Karatsuba
  imports Bn_Comba
begin

text \<open>
  The recursive products of \<open>crypto/fipsmodule/bn/mul.c\<close>. The words of a result that were there before
  the call are an argument where the code leaves some of them as they are.
\<close>

section \<open>Differences of different lengths\<close>

text \<open>
  \<open>cl\<close> is the common length, \<open>dl\<close> the number of words that \<open>a\<close> has more, or \<open>b\<close> if it is negative. While
  there is a borrow, a word that is not zero takes it; the words after that are copied.
\<close>

fun neg_loop :: "u64 \<Rightarrow> u64 list \<Rightarrow> u64 list \<times> u64" where
  "neg_loop c [] = ([], c)"
| "neg_loop c (t # b) =
     (let r0 = 0 - t - c; c = (if t \<noteq> 0 then 1 else c) in case neg_loop c b of (r, c) \<Rightarrow> (r0 # r, c))"

fun dec_loop :: "u64 \<Rightarrow> u64 list \<Rightarrow> u64 list \<times> u64" where
  "dec_loop c [] = ([], c)"
| "dec_loop c (t # a) =
     (if c = 0 then (t # a, c)
      else let r0 = t - c; c = (if t \<noteq> 0 then 0 else c) in case dec_loop c a of (r, c) \<Rightarrow> (r0 # r, c))"

definition bn_sub_part_words :: "u64 list \<Rightarrow> u64 list \<Rightarrow> nat \<Rightarrow> int \<Rightarrow> u64 \<times> u64 list" where
  "bn_sub_part_words a b cl dl =
     (case bn_sub_words a b cl of
        (c, lo) \<Rightarrow>
          (if dl = 0 then (c, lo)
           else if dl < 0 then (case neg_loop c (take (nat (- dl)) (drop cl b)) of (hi, c) \<Rightarrow> (c, lo @ hi))
           else (case dec_loop c (take (nat dl) (drop cl a)) of (hi, c) \<Rightarrow> (c, lo @ hi))))"

definition bn_abs_sub_part_words :: "u64 list \<Rightarrow> u64 list \<Rightarrow> nat \<Rightarrow> int \<Rightarrow> u64 \<times> u64 list" where
  "bn_abs_sub_part_words a b cl dl =
     (case bn_sub_part_words a b cl dl of
        (borrow, tmp) \<Rightarrow>
          (case bn_sub_part_words b a cl (- dl) of
             (borrow', r) \<Rightarrow>
               (let borrow = 0 - borrow in (borrow, bn_select_words borrow r tmp (cl + nat \<bar>dl\<bar>)))))"

definition bn_abs_sub_words :: "u64 list \<Rightarrow> u64 list \<Rightarrow> nat \<Rightarrow> u64 list" where
  "bn_abs_sub_words a b num =
     (case bn_sub_words a b num of
        (borrow, tmp) \<Rightarrow> (case bn_sub_words b a num of (borrow', r) \<Rightarrow> bn_select_words (0 - borrow) r tmp num))"

lemma neg_loop: "unat c \<le> 1 \<Longrightarrow> neg_loop c b = sub_loop c (zip (replicate (length b) 0) b)"
proof (induction b arbitrary: c)
  case (Cons t b)
  have "(if t \<noteq> 0 then 1 else c) = (if 0 \<noteq> t then of_bool (0 < t) else c)" by (auto simp: word_neq_0_conv)
  moreover have "unat (if 0 \<noteq> t then of_bool (0 < t) else c) \<le> 1" using Cons.prems by simp
  ultimately show ?case using Cons.IH by (simp add: Let_def del: if_not_P)
qed simp

lemma sub_loop_0: "sub_loop 0 (zip a (replicate (length a) 0)) = (a, 0)"
  by (induction a) (simp_all add: Let_def)

lemma dec_loop: "unat c \<le> 1 \<Longrightarrow> dec_loop c a = sub_loop c (zip a (replicate (length a) 0))"
proof (induction a arbitrary: c)
  case (Cons t a)
  show ?case
  proof (cases "c = 0")
    case True
    then show ?thesis using sub_loop_0 [of "t # a"] by simp
  next
    case False
    have "unat (if t \<noteq> 0 then 0 else c) \<le> 1" using Cons.prems by simp
    then show ?thesis using False Cons.IH by (simp add: Let_def)
  qed
qed simp

lemma sub_loop_append:
  "sub_loop c (xs @ ys) = (case sub_loop c xs of (r, c) \<Rightarrow> case sub_loop c ys of (r', c) \<Rightarrow> (r @ r', c))"
  by (induction xs arbitrary: c) (auto simp: Let_def split: prod.split)

text \<open>The two operands, with zeros for the words that one of them does not have.\<close>

definition part_pairs :: "u64 list \<Rightarrow> u64 list \<Rightarrow> nat \<Rightarrow> int \<Rightarrow> (u64 \<times> u64) list" where
  "part_pairs a b cl dl =
     zip (take (cl + nat dl) a @ replicate (nat (- dl)) 0) (take (cl + nat (- dl)) b @ replicate (nat dl) 0)"

lemma bn_sub_part_words:
  assumes "cl + nat dl \<le> length a" "cl + nat (- dl) \<le> length b"
  shows "bn_sub_part_words a b cl dl = (case sub_loop 0 (part_pairs a b cl dl) of (r, c) \<Rightarrow> (c, r))"
proof -
  obtain lo c where lo: "sub_loop 0 (zip (take cl a) (take cl b)) = (lo, c)" by fastforce
  have s: "bn_sub_words a b cl = (c, lo)" using lo by (cases "cl = 0") (simp_all add: bn_sub_words_def)
  have c: "unat c \<le> 1" using sub_loop [OF _ lo] by simp
  consider "dl = 0" | "dl < 0" | "0 < dl" by linarith
  then show ?thesis
  proof cases
    case 1
    then show ?thesis using s lo by (simp add: bn_sub_part_words_def part_pairs_def)
  next
    case 2
    let ?b = "take (nat (- dl)) (drop cl b)"
    have "part_pairs a b cl dl = zip (take cl a) (take cl b) @ zip (replicate (length ?b) 0) ?b"
      using 2 assms by (simp add: part_pairs_def take_add min_absorb2)
    then show ?thesis using 2 s lo by (simp add: bn_sub_part_words_def neg_loop [OF c] sub_loop_append split: prod.split)
  next
    case 3
    let ?a = "take (nat dl) (drop cl a)"
    have "part_pairs a b cl dl = zip (take cl a) (take cl b) @ zip ?a (replicate (length ?a) 0)"
      using 3 assms by (simp add: part_pairs_def take_add min_absorb2)
    then show ?thesis using 3 s lo by (simp add: bn_sub_part_words_def dec_loop [OF c] sub_loop_append split: prod.split)
  qed
qed

lemma sub_part_value:
  assumes "bn_sub_part_words a b cl dl = (c, r)" "cl + nat dl \<le> length a" "cl + nat (- dl) \<le> length b"
  shows "length r = cl + nat \<bar>dl\<bar>" "unat c \<le> 1"
    "wval r + wval (take (cl + nat (- dl)) b) = wval (take (cl + nat dl) a) + 2 ^ (64 * (cl + nat \<bar>dl\<bar>)) * unat c"
proof -
  have s: "sub_loop 0 (part_pairs a b cl dl) = (r, c)"
    using assms(1) bn_sub_part_words [OF assms(2,3)] by (auto split: prod.splits)
  have l: "length (part_pairs a b cl dl) = cl + nat \<bar>dl\<bar>" using assms(2,3) by (simp add: part_pairs_def)
  have m: "map fst (part_pairs a b cl dl) = take (cl + nat dl) a @ replicate (nat (- dl)) 0"
    "map snd (part_pairs a b cl dl) = take (cl + nat (- dl)) b @ replicate (nat dl) 0"
    using assms(2,3) unfolding part_pairs_def by (intro map_fst_zip map_snd_zip; simp)+
  show "length r = cl + nat \<bar>dl\<bar>" "unat c \<le> 1"
    "wval r + wval (take (cl + nat (- dl)) b) = wval (take (cl + nat dl) a) + 2 ^ (64 * (cl + nat \<bar>dl\<bar>)) * unat c"
    using sub_loop [OF _ s] unfolding l m by (simp_all add: wval_append)
qed

text \<open>The distance of two numbers of at most \<open>n\<close> words, and the mask that tells which is smaller.\<close>

lemma borrow_iff:
  fixes x y r c :: nat
  assumes "r + y = x + W * c" "r < W" "c \<le> 1"
  shows "c = of_bool (x < y)" "c = 0 \<Longrightarrow> r = x - y"
proof -
  show "c = 0 \<Longrightarrow> r = x - y" using assms(1) by simp
  consider "c = 0" | "c = 1" using assms(3) by linarith
  then show "c = of_bool (x < y)" using assms(1,2) by cases auto
qed

lemma unat_mask: "unat (c :: u64) = of_bool P \<Longrightarrow> 0 - c = (if P then -1 else 0)"
proof -
  assume "unat c = of_bool P"
  then have "unat c = unat (of_bool P :: u64)" by simp
  then have "c = of_bool P" by (rule unsigned_word_eqI)
  then show ?thesis by simp
qed

lemma bn_abs_sub_part_words:
  assumes "bn_abs_sub_part_words a b cl dl = (m, r)" "cl + nat dl \<le> length a" "cl + nat (- dl) \<le> length b"
    and "x = wval (take (cl + nat dl) a)" "y = wval (take (cl + nat (- dl)) b)"
  shows "m = (if x < y then -1 else 0)" "length r = cl + nat \<bar>dl\<bar>" "int (wval r) = \<bar>int x - int y\<bar>"
proof -
  obtain c tmp where t: "bn_sub_part_words a b cl dl = (c, tmp)" by (rule prod.exhaust)
  obtain c' r' where u: "bn_sub_part_words b a cl (- dl) = (c', r')" by (rule prod.exhaust)
  have n: "cl + nat (- dl) \<le> length b" "cl + nat (- (- dl)) \<le> length a" using assms(2,3) by simp_all
  note p = sub_part_value [OF t assms(2,3), folded assms(4,5)]
  note q = sub_part_value [OF u n, unfolded minus_minus, folded assms(4,5), unfolded abs_minus_cancel]
  have lt: "wval tmp < 2 ^ (64 * (cl + nat \<bar>dl\<bar>))" "wval r' < 2 ^ (64 * (cl + nat \<bar>dl\<bar>))"
    using wval_less [of tmp] wval_less [of r'] p(1) q(1) by simp_all
  note bp = borrow_iff [OF p(3) lt(1) p(2)] and bq = borrow_iff [OF q(3) lt(2) q(2)]
  have e: "(0 - c, bn_select_words (0 - c) r' tmp (cl + nat \<bar>dl\<bar>)) = (m, r)"
    using assms(1) unfolding bn_abs_sub_part_words_def t u prod.case Let_def .
  have m: "m = 0 - c" "r = bn_select_words (0 - c) r' tmp (cl + nat \<bar>dl\<bar>)"
    by (rule Pair_inject [OF e], erule sym)+
  have c: "0 - c = (if x < y then -1 else 0)" by (rule unat_mask [OF bp(1)])
  show "m = (if x < y then -1 else 0)" unfolding m(1) by (rule c)
  have r: "r = (if x < y then r' else tmp)" unfolding m(2) c using p(1) q(1) by (subst bn_select_words) simp_all
  show "length r = cl + nat \<bar>dl\<bar>" using r p(1) q(1) by simp
  show "int (wval r) = \<bar>int x - int y\<bar>"
  proof (cases "x < y")
    case True
    then have "wval r = y - x" using bq r by simp
    then show ?thesis using True by simp
  next
    case False
    then have "wval r = x - y" using bp r by simp
    then show ?thesis using False by simp
  qed
qed

lemma bn_abs_sub_words:
  assumes "n \<le> length a" "n \<le> length b"
  shows "length (bn_abs_sub_words a b n) = n" "int (wval (bn_abs_sub_words a b n)) = \<bar>int (wval (take n a)) - int (wval (take n b))\<bar>"
proof -
  obtain m r where r: "bn_abs_sub_part_words a b n 0 = (m, r)" by fastforce
  have "bn_abs_sub_words a b n = r"
    using r by (auto simp: bn_abs_sub_words_def bn_abs_sub_part_words_def bn_sub_part_words_def Let_def split: prod.splits)
  then show "length (bn_abs_sub_words a b n) = n" "int (wval (bn_abs_sub_words a b n)) = \<bar>int (wval (take n a)) - int (wval (take n b))\<bar>"
    using bn_abs_sub_part_words [OF r _ _ refl refl] assms by simp_all
qed

section \<open>Karatsuba multiplication\<close>

text \<open>
  The common end of the two recursive functions. \<open>r\<close> has \<open>4 * n\<close> words, the products of the low and of
  the high halves; \<open>t23\<close> has \<open>2 * n\<close> words, the absolute value of the product of the differences, and
  \<open>neg\<close> is the mask of its sign. The result is given with the last carry, which the source asserts
  to be zero.
\<close>

definition mul_combine :: "u64 list \<Rightarrow> u64 list \<Rightarrow> u64 \<Rightarrow> nat \<Rightarrow> u64 list \<times> u64" where
  "mul_combine r t23 neg n =
     (let n2 = 2 * n
      in case bn_add_words r (drop n2 r) n2 of
           (c, t01) \<Rightarrow>
             (case bn_sub_words t01 t23 n2 of
                (borrow, d) \<Rightarrow>
                  (case bn_add_words t01 t23 n2 of
                     (carry, s) \<Rightarrow>
                       (let c_neg = c - borrow; c_pos = c + carry;
                            t23 = bn_select_words neg d s n2;
                            c = constant_time_select_w neg c_neg c_pos
                        in case bn_add_words (drop n r) t23 n2 of
                             (carry, mid) \<Rightarrow>
                               (case carry_loop (c + carry) (drop (n + n2) r) of
                                  (hi, c) \<Rightarrow> (take n r @ mid @ hi, c))))))"

text \<open>
  The scratch space \<open>t\<close> of the source is given by the values of its parts. The words of \<open>r\<close> are
  completely written: the functions return them.
\<close>

definition mul_normal_pad :: "u64 list \<Rightarrow> nat \<Rightarrow> u64 list \<Rightarrow> nat \<Rightarrow> nat \<Rightarrow> u64 list" where
  "mul_normal_pad a na b nb len = bn_mul_normal (replicate (na + nb) 0) a na b nb @ replicate (len - (na + nb)) 0"

function bn_mul_recursive :: "u64 list \<Rightarrow> u64 list \<Rightarrow> nat \<Rightarrow> int \<Rightarrow> int \<Rightarrow> u64 list" where
  "bn_mul_recursive a b n2 dna dnb =
     (if n2 = 8 \<and> dna = 0 \<and> dnb = 0 then bn_mul_comba8 (take 8 a) (take 8 b)
      else if n2 < 16 then mul_normal_pad a (nat (int n2 + dna)) b (nat (int n2 + dnb)) (2 * n2)
      else
        let n = n2 div 2; tna = nat (int n + dna); tnb = nat (int n + dnb)
        in case bn_abs_sub_part_words a (drop n a) tna (int n - int tna) of
             (neg0, t0) \<Rightarrow>
               (case bn_abs_sub_part_words (drop n b) b tnb (int tnb - int n) of
                  (neg1, t1) \<Rightarrow>
                    (let neg = neg0 XOR neg1;
                         (t23, r01, r23) =
                           (if n = 4 \<and> dna = 0 \<and> dnb = 0 then
                              (bn_mul_comba4 t0 t1, bn_mul_comba4 (take 4 a) (take 4 b),
                               bn_mul_comba4 (take 4 (drop n a)) (take 4 (drop n b)))
                            else if n = 8 \<and> dna = 0 \<and> dnb = 0 then
                              (bn_mul_comba8 t0 t1, bn_mul_comba8 (take 8 a) (take 8 b),
                               bn_mul_comba8 (take 8 (drop n a)) (take 8 (drop n b)))
                            else
                              (bn_mul_recursive t0 t1 n 0 0, bn_mul_recursive a b n 0 0,
                               bn_mul_recursive (drop n a) (drop n b) n dna dnb))
                     in fst (mul_combine (r01 @ r23) t23 neg n))))"
  by pat_completeness auto
termination by (relation "measure (\<lambda>(a, b, n2, dna, dnb). n2)") auto

declare bn_mul_recursive.simps [simp del]

text \<open>The size for the high halves, and whether both of them have at least that many words.\<close>

function part_size :: "nat \<Rightarrow> nat \<Rightarrow> nat \<Rightarrow> nat \<times> bool" where
  "part_size i tna tnb =
     (let i = i div 2
      in if i < tna \<or> i < tnb then (i, True) else if i = tna \<or> i = tnb then (i, False) else part_size i tna tnb)"
  by pat_completeness auto
termination by (relation "measure (\<lambda>(i, tna, tnb). i)") auto

declare part_size.simps [simp del]

lemma part_size_half: "part_size i tna tnb = (j, f) \<Longrightarrow> j \<le> i div 2"
proof (induction i tna tnb rule: part_size.induct)
  case (1 i tna tnb)
  show ?case
  proof (cases "i div 2 < tna \<or> i div 2 < tnb \<or> i div 2 = tna \<or> i div 2 = tnb")
    case True
    then show ?thesis using 1(2) by (subst (asm) part_size.simps) (auto simp: Let_def split: if_splits)
  next
    case False
    then have "part_size (i div 2) tna tnb = (j, f)" using 1(2) by (subst (asm) part_size.simps) (simp add: Let_def)
    then have "j \<le> i div 2 div 2" using 1(1) [OF refl] False by simp
    then show ?thesis using div_le_dividend [of "i div 2" 2] by linarith
  qed
qed

lemma part_size_less: "\<not> n < 8 \<Longrightarrow> fst (part_size n tna tnb) < n"
  using part_size_half [of n tna tnb] by (cases "part_size n tna tnb") fastforce

text \<open>
  \<open>memset\<close> on the first \<open>k\<close> bytes of words. The branch for a small \<open>n\<close> gives the number of words for the
  number of bytes, so that it needs the words that \<open>r\<close> had before.
\<close>

fun clear_bytes :: "nat \<Rightarrow> u64 list \<Rightarrow> u64 list" where
  "clear_bytes k [] = []"
| "clear_bytes k (w # ws) =
     (if 8 \<le> k then 0 # clear_bytes (k - 8) ws else push_bit (8 * k) (drop_bit (8 * k) w) # ws)"

function bn_mul_part_recursive :: "u64 list \<Rightarrow> u64 list \<Rightarrow> u64 list \<Rightarrow> nat \<Rightarrow> nat \<Rightarrow> nat \<Rightarrow> u64 list" where
  "bn_mul_part_recursive r a b n tna tnb =
     (let n2 = n * 2
      in if n < 8 then
           (let r = bn_mul_normal r a (n + tna) b (n + tnb); m = n2 + tna + tnb
            in take m r @ clear_bytes (n2 - tna - tnb) (drop m r))
         else
           case bn_abs_sub_part_words a (drop n a) tna (int n - int tna) of
             (neg0, t0) \<Rightarrow>
               (case bn_abs_sub_part_words (drop n b) b tnb (int tnb - int n) of
                  (neg1, t1) \<Rightarrow>
                    (let neg = neg0 XOR neg1;
                         (t23, r01, r23) =
                           (if n = 8 then
                              (bn_mul_comba8 t0 t1, bn_mul_comba8 (take 8 a) (take 8 b),
                               mul_normal_pad (drop n a) tna (drop n b) tnb n2)
                            else
                              (bn_mul_recursive t0 t1 n 0 0, bn_mul_recursive a b n 0 0,
                               if tna < 16 \<and> tnb < 16 then mul_normal_pad (drop n a) tna (drop n b) tnb n2
                               else
                                 let p = part_size n tna tnb; i = fst p
                                 in if snd p then
                                      bn_mul_part_recursive (replicate (4 * i) 0) (drop n a) (drop n b) i (tna - i) (tnb - i) @
                                      replicate (n2 - 4 * i) 0
                                    else
                                      bn_mul_recursive (drop n a) (drop n b) i (int tna - int i) (int tnb - int i) @
                                      replicate (n2 - 2 * i) 0))
                     in fst (mul_combine (r01 @ r23) t23 neg n))))"
  by pat_completeness auto
termination by (relation "measure (\<lambda>(r, a, b, n, tna, tnb). n)") (auto simp: part_size_less)

declare bn_mul_part_recursive.simps [simp del]

section \<open>The parts put together\<close>

lemma combine_arith:
  fixes x0 x1 y0 y1 W :: nat
  assumes "int t = \<bar>int x0 - int x1\<bar> * \<bar>int y1 - int y0\<bar>" "neg \<longleftrightarrow> (x0 < x1) \<noteq> (y1 < y0)"
  shows "neg \<Longrightarrow> t + (x0 * y1 + x1 * y0) = x0 * y0 + x1 * y1"
    "\<not> neg \<Longrightarrow> x0 * y0 + x1 * y1 + t = x0 * y1 + x1 * y0"
proof -
  have m: "int (x0 * y1 + x1 * y0) = (int x0 - int x1) * (int y1 - int y0) + int (x0 * y0 + x1 * y1)"
    by (simp add: algebra_simps)
  have "(int x0 - int x1) * (int y1 - int y0) = (if neg then - int t else int t)"
    unfolding assms(1) using assms(2) by (auto simp: abs_if algebra_simps)
  then have "int (x0 * y1 + x1 * y0) = (if neg then - int t else int t) + int (x0 * y0 + x1 * y1)" using m by simp
  then have "if neg then int (t + (x0 * y1 + x1 * y0)) = int (x0 * y0 + x1 * y1)
    else int (x0 * y0 + x1 * y1 + t) = int (x0 * y1 + x1 * y0)" by simp
  then show "neg \<Longrightarrow> t + (x0 * y1 + x1 * y0) = x0 * y0 + x1 * y1"
    "\<not> neg \<Longrightarrow> x0 * y0 + x1 * y1 + t = x0 * y1 + x1 * y0" by (simp_all only: if_True if_False of_nat_eq_iff)
qed

lemma add_small: "unat (c :: u64) \<le> 10 \<Longrightarrow> unat d \<le> 10 \<Longrightarrow> unat (c + d) = unat c + unat d"
  by (simp add: unat_add64)

lemma mul_combine:
  assumes len: "length r = 4 * n" "length t = 2 * n" and n: "0 < n"
    and v: "wval (take (2 * n) r) = x0 * y0" "wval (drop (2 * n) r) = x1 * y1"
      "P \<Longrightarrow> wval t + (x0 * y1 + x1 * y0) = x0 * y0 + x1 * y1"
      "\<not> P \<Longrightarrow> x0 * y0 + x1 * y1 + wval t = x0 * y1 + x1 * y0"
    and neg: "m = (if P then -1 else 0)"
    and b: "(x0 + 2 ^ (64 * n) * x1) * (y0 + 2 ^ (64 * n) * y1) < 2 ^ (64 * (4 * n))"
  shows "snd (mul_combine r t m n) = 0" "length (fst (mul_combine r t m n)) = 4 * n"
    "wval (fst (mul_combine r t m n)) = (x0 + 2 ^ (64 * n) * x1) * (y0 + 2 ^ (64 * n) * y1)"
proof -
  define W :: nat where "W = 2 ^ (64 * n)"
  have W: "2 ^ (64 * (2 * n)) = W * W" "2 ^ (64 * (3 * n)) = W * W * W" "2 ^ (64 * (4 * n)) = W * W * W * W"
    unfolding W_def power_add [symmetric] by (rule arg_cong; simp)+
  let ?n2 = "2 * n"
  obtain c t01 where a1: "bn_add_words r (drop ?n2 r) ?n2 = (c, t01)" by (rule prod.exhaust)
  obtain bw d where a2: "bn_sub_words t01 t ?n2 = (bw, d)" by (rule prod.exhaust)
  obtain cy s where a3: "bn_add_words t01 t ?n2 = (cy, s)" by (rule prod.exhaust)
  note p1 = bn_add_words [OF a1] and p2 = bn_sub_words [OF a2] and p3 = bn_add_words [OF a3]
  have l1: "?n2 \<le> length r" "?n2 \<le> length (drop ?n2 r)" using len by simp_all
  have q1: "length t01 = ?n2" "unat c \<le> 1" "wval t01 + W * W * unat c = x0 * y0 + x1 * y1"
    using p1 [OF l1] v len unfolding W by simp_all
  have l2: "?n2 \<le> length t01" "?n2 \<le> length t" using q1 len by simp_all
  have q2: "length d = ?n2" "unat bw \<le> 1" "wval d + wval t = wval t01 + W * W * unat bw"
    using p2 [OF l2] q1(1) len unfolding W by simp_all
  have q3: "length s = ?n2" "unat cy \<le> 1" "wval s + W * W * unat cy = wval t01 + wval t"
    using p3 [OF l2] q1(1) len unfolding W by simp_all
  define M where "M = x0 * y1 + x1 * y0"
  note ar = v(3,4) [folded M_def]
  define t' where "t' = (if P then d else s)"
  define c' where "c' = (if P then c - bw else c + cy)"
  have sel: "bn_select_words m d s ?n2 = t'" "constant_time_select_w m (c - bw) (c + cy) = c'"
    using q2(1) q3(1) by (simp_all add: neg bn_select_words t'_def c'_def)
  have lt: "wval d < W * W" using wval_less [of d] unfolding q2(1) W .
  have t': "length t' = ?n2" "unat c' \<le> 2" "wval t' + W * W * unat c' = M"
  proof -
    have "unat c' \<le> 2 \<and> wval t' + W * W * unat c' = M"
    proof (cases P)
      case True
      have e: "wval d + W * W * unat c = M + W * W * unat bw"
        using ar(1) [OF True] q1(3) q2(3) by linarith
      have "unat bw \<le> unat c"
      proof (rule ccontr)
        assume "\<not> unat bw \<le> unat c"
        then have "unat c = 0" "unat bw = 1" using q2(2) by linarith+
        then show False using e lt by simp
      qed
      moreover from this have "unat c' = unat c - unat bw" using True by (simp add: c'_def unat_sub64)
      moreover have "W * W * (unat c - unat bw) = W * W * unat c - W * W * unat bw" by (rule diff_mult_distrib2)
      moreover have "W * W * unat bw \<le> W * W * unat c" using \<open>unat bw \<le> unat c\<close> by (rule mult_le_mono2)
      ultimately show ?thesis using e q1(2) True by (simp add: t'_def)
    next
      case False
      then have "unat c' = unat c + unat cy" using q1(2) q3(2) by (simp add: c'_def add_small)
      moreover have "wval s + W * W * (unat c + unat cy) = M"
        using ar(2) [OF False] q1(3) q3(3) by (simp only: distrib_left)
      ultimately show ?thesis using q1(2) q3(2) False by (simp add: t'_def)
    qed
    then show "length t' = ?n2" "unat c' \<le> 2" "wval t' + W * W * unat c' = M" using q2(1) q3(1) by (simp_all add: t'_def)
  qed
  obtain cy2 mid where a4: "bn_add_words (drop n r) t' ?n2 = (cy2, mid)" by (rule prod.exhaust)
  have l4: "?n2 \<le> length (drop n r)" "?n2 \<le> length t'" using len t'(1) by simp_all
  have q4: "length mid = ?n2" "unat cy2 \<le> 1" "wval mid + W * W * unat cy2 = wval (take ?n2 (drop n r)) + wval t'"
    using bn_add_words [OF a4 l4] t'(1) unfolding W by simp_all
  obtain hi c2 where a5: "carry_loop (c' + cy2) (drop (n + ?n2) r) = (hi, c2)" by (rule prod.exhaust)
  have cc: "unat (c' + cy2) = unat c' + unat cy2" using t'(2) q4(2) by (simp add: add_small)
  have l5: "length (drop (n + ?n2) r) = n" using len by simp
  have q5: "length hi = n" "wval hi + W * unat c2 = wval (drop (n + ?n2) r) + (unat c' + unat cy2)"
    using carry_loop [OF a5] unfolding l5 cc W_def by simp_all
  have res: "mul_combine r t m n = (take n r @ mid @ hi, c2)"
    unfolding mul_combine_def Let_def a1 a2 a3 prod.case sel a4 a5 ..
  have l0: "length (take n r) = n" using len by simp
  have R: "wval (take n r) + W * (wval (take ?n2 (drop n r)) + W * W * wval (drop (n + ?n2) r)) = x0 * y0 + W * W * (x1 * y1)"
  proof -
    have "r = take n r @ take ?n2 (drop n r) @ drop (n + ?n2) r"
      by (metis append_take_drop_id drop_drop add.commute)
    then have "wval r = wval (take n r @ take ?n2 (drop n r) @ drop (n + ?n2) r)" by (rule arg_cong)
    also have "\<dots> = wval (take n r) + W * (wval (take ?n2 (drop n r)) + W * W * wval (drop (n + ?n2) r))"
      using len by (simp only: wval_append W_def [symmetric] l0 W(1) [symmetric]) (simp add: min_def)
    finally have "wval r = \<dots>" .
    moreover have "wval (take ?n2 r @ drop ?n2 r) = x0 * y0 + W * W * (x1 * y1)"
      unfolding wval_append v(1,2) using len n W(1) by (simp add: min_def)
    ultimately show ?thesis by simp
  qed
  have tot: "wval (take n r @ mid @ hi) + W * W * W * W * unat c2 = x0 * y0 + W * W * (x1 * y1) + W * M"
  proof -
    have "wval (take n r @ mid @ hi) + W * W * W * W * unat c2 =
        wval (take n r) + W * (wval mid + W * W * (wval hi + W * unat c2))"
      by (simp only: wval_append l0 q4(1) W W_def [symmetric]) (simp add: algebra_simps)
    also have "\<dots> = wval (take n r) + W * ((wval mid + W * W * unat cy2) + W * W * wval (drop (n + ?n2) r) + W * W * unat c')"
      unfolding q5(2) by (simp add: algebra_simps)
    also have "\<dots> = (wval (take n r) + W * (wval (take ?n2 (drop n r)) + W * W * wval (drop (n + ?n2) r))) + W * (wval t' + W * W * unat c')"
      unfolding q4(3) by (simp add: algebra_simps)
    finally show ?thesis unfolding R t'(3) .
  qed
  have prod: "x0 * y0 + W * W * (x1 * y1) + W * M = (x0 + W * x1) * (y0 + W * y1)"
    by (simp add: M_def algebra_simps)
  have "W * W * W * W * unat c2 < W * W * W * W * 1"
    using tot b [folded W_def, unfolded W, folded prod] by linarith
  then have "unat c2 = 0" by (simp only: mult_less_cancel1) simp
  then show "snd (mul_combine r t m n) = 0" "length (fst (mul_combine r t m n)) = 4 * n"
    using q4(1) q5(1) len unfolding res by (simp_all add: unat_eq_0)
  show "wval (fst (mul_combine r t m n)) = (x0 + 2 ^ (64 * n) * x1) * (y0 + 2 ^ (64 * n) * y1)"
    using tot \<open>unat c2 = 0\<close> unfolding res prod W_def [symmetric] by simp
qed

lemma mask_xor: "(if A then -1 else 0 :: u64) XOR (if B then -1 else 0) = (if A \<noteq> B then -1 else 0)"
  by (auto intro: bit_word_eqI simp: bit_simps)

lemma mul_normal_pad:
  assumes "na \<le> length a" "nb \<le> length b" "na + nb \<le> len"
  shows "length (mul_normal_pad a na b nb len) = len" "wval (mul_normal_pad a na b nb len) = wval (take na a) * wval (take nb b)"
proof -
  let ?r = "bn_mul_normal (replicate (na + nb) 0) a na b nb"
  have l: "length ?r = na + nb" "wval (take (na + nb) ?r) = wval (take na a) * wval (take nb b)"
    using bn_mul_normal [OF assms(1,2), of "replicate (na + nb) 0"] unfolding length_replicate by blast+
  have "take (na + nb) ?r = ?r" using l(1) by simp
  then show "length (mul_normal_pad a na b nb len) = len" "wval (mul_normal_pad a na b nb len) = wval (take na a) * wval (take nb b)"
    using l assms(3) by (simp_all add: mul_normal_pad_def wval_append)
qed

text \<open>The number of \<open>n + k\<close> words by its halves.\<close>

lemma halves: "n + k \<le> length a \<Longrightarrow> wval (take (n + k) a) = wval (take n a) + 2 ^ (64 * n) * wval (take k (drop n a))"
  using wval_take [of n "n + k" a] by simp

lemma product_less:
  assumes "na \<le> length a" "nb \<le> length b" "na + nb \<le> n"
  shows "wval (take na a) * wval (take nb b) < 2 ^ (64 * n)"
proof -
  have "wval (take na a) * wval (take nb b) < 2 ^ (64 * na) * 2 ^ (64 * nb)"
    using wval_less [of "take na a"] wval_less [of "take nb b"] assms(1,2) by (intro mult_strict_mono) simp_all
  also have "\<dots> \<le> 2 ^ (64 * n)" unfolding power_add [symmetric] using assms(3) by (intro power_increasing) simp_all
  finally show ?thesis .
qed

text \<open>One level of the recursion: what the differences are, and what the combination gives.\<close>

lemma karatsuba_level:
  assumes n: "0 < n" "tna \<le> n" "tnb \<le> n" and len: "n + tna \<le> length a" "n + tnb \<le> length b"
    and d0: "bn_abs_sub_part_words a (drop n a) tna (int n - int tna) = (m0, t0)"
    and d1: "bn_abs_sub_part_words (drop n b) b tnb (int tnb - int n) = (m1, t1)"
  shows "length t0 = n" "length t1 = n"
    and "length t23 = 2 * n \<Longrightarrow> wval t23 = wval t0 * wval t1 \<Longrightarrow>
      length r01 = 2 * n \<Longrightarrow> wval r01 = wval (take n a) * wval (take n b) \<Longrightarrow>
      length r23 = 2 * n \<Longrightarrow> wval r23 = wval (take tna (drop n a)) * wval (take tnb (drop n b)) \<Longrightarrow>
      snd (mul_combine (r01 @ r23) t23 (m0 XOR m1) n) = 0 \<and>
      length (fst (mul_combine (r01 @ r23) t23 (m0 XOR m1) n)) = 4 * n \<and>
      wval (fst (mul_combine (r01 @ r23) t23 (m0 XOR m1) n)) = wval (take (n + tna) a) * wval (take (n + tnb) b)"
proof -
  define x0 x1 where x: "x0 = wval (take n a)" "x1 = wval (take tna (drop n a))"
  define y0 y1 where y: "y0 = wval (take n b)" "y1 = wval (take tnb (drop n b))"
  have e: "tna + nat (int n - int tna) = n" "tna + nat (- (int n - int tna)) = tna" "tna + nat \<bar>int n - int tna\<bar> = n"
    "tnb + nat (int tnb - int n) = tnb" "tnb + nat (- (int tnb - int n)) = n" "tnb + nat \<bar>int tnb - int n\<bar> = n"
    using n by simp_all
  have u: "m0 = (if x0 < x1 then -1 else 0)" "length t0 = n" "int (wval t0) = \<bar>int x0 - int x1\<bar>"
    using bn_abs_sub_part_words [OF d0 _ _ refl refl, unfolded e, folded x] len by simp_all
  have w: "m1 = (if y1 < y0 then -1 else 0)" "length t1 = n" "int (wval t1) = \<bar>int y1 - int y0\<bar>"
    using bn_abs_sub_part_words [OF d1 _ _ refl refl, unfolded e, folded y] len by simp_all
  show "length t0 = n" "length t1 = n" by fact+
  assume h: "length t23 = 2 * n" "wval t23 = wval t0 * wval t1" "length r01 = 2 * n" "wval r01 = wval (take n a) * wval (take n b)"
    "length r23 = 2 * n" "wval r23 = wval (take tna (drop n a)) * wval (take tnb (drop n b))"
  have m: "m0 XOR m1 = (if (x0 < x1) \<noteq> (y1 < y0) then -1 else 0)" unfolding u(1) w(1) by (rule mask_xor)
  have t: "int (wval t23) = \<bar>int x0 - int x1\<bar> * \<bar>int y1 - int y0\<bar>" unfolding h(2) of_nat_mult u(3) w(3) ..
  have v: "length (r01 @ r23) = 4 * n" "wval (take (2 * n) (r01 @ r23)) = x0 * y0" "wval (drop (2 * n) (r01 @ r23)) = x1 * y1"
    using h by (simp_all add: x y)
  have f: "wval (take (n + tna) a) = x0 + 2 ^ (64 * n) * x1" "wval (take (n + tnb) b) = y0 + 2 ^ (64 * n) * y1"
    using halves len by (simp_all add: x y)
  have b: "(x0 + 2 ^ (64 * n) * x1) * (y0 + 2 ^ (64 * n) * y1) < 2 ^ (64 * (4 * n))"
    using product_less [OF len, of "4 * n"] n unfolding f by simp
  from mul_combine [OF v(1) h(1) n(1) v(2,3) combine_arith [OF t refl] m b]
  show "snd (mul_combine (r01 @ r23) t23 (m0 XOR m1) n) = 0 \<and>
      length (fst (mul_combine (r01 @ r23) t23 (m0 XOR m1) n)) = 4 * n \<and>
      wval (fst (mul_combine (r01 @ r23) t23 (m0 XOR m1) n)) = wval (take (n + tna) a) * wval (take (n + tnb) b)"
    unfolding f by simp
qed

lemma bn_mul_recursive:
  assumes "n2 = 2 ^ k" "- 8 \<le> dna" "dna \<le> 0" "- 8 \<le> dnb" "dnb \<le> 0" "0 \<le> int n2 + dna" "0 \<le> int n2 + dnb"
    and "nat (int n2 + dna) \<le> length a" "nat (int n2 + dnb) \<le> length b"
  shows "length (bn_mul_recursive a b n2 dna dnb) = 2 * n2 \<and>
    wval (bn_mul_recursive a b n2 dna dnb) = wval (take (nat (int n2 + dna)) a) * wval (take (nat (int n2 + dnb)) b)"
  using assms
proof (induction a b n2 dna dnb arbitrary: k rule: bn_mul_recursive.induct)
  case (1 a b n2 dna dnb)
  show ?case
  proof (cases "n2 < 16")
    case small: True
    show ?thesis
    proof (cases "n2 = 8 \<and> dna = 0 \<and> dnb = 0")
      case True
      then have "length (take 8 a) = 8" "length (take 8 b) = 8" using 1 by simp_all
      from bn_mul_comba8 [OF this] show ?thesis using True by (subst (1 2) bn_mul_recursive.simps) simp
    next
      case False
      have "nat (int n2 + dna) + nat (int n2 + dnb) \<le> 2 * n2" using 1(6,8) by linarith
      note p = mul_normal_pad [OF 1(11,12) this]
      show ?thesis using p small unfolding bn_mul_recursive.simps [of a b n2 dna dnb] if_not_P [OF False] by simp
    qed
  next
    case big: False
    define n where "n = n2 div 2"
    obtain k' where "k = Suc k'" using big 1(4) by (cases k) auto
    then have n: "n2 = 2 * n" "n = 2 ^ k'" using 1(4) by (simp_all add: n_def)
    have n8: "8 \<le> n" using big n(1) by simp
    define tna where "tna = nat (int n + dna)"
    define tnb where "tnb = nat (int n + dnb)"
    have tn: "tna \<le> n" "tnb \<le> n" "nat (int n2 + dna) = n + tna" "nat (int n2 + dnb) = n + tnb"
      using 1(5-8) n8 n(1) by (simp_all add: tna_def tnb_def)
    have len: "n + tna \<le> length a" "n + tnb \<le> length b" using 1(11,12) tn by simp_all
    obtain m0 t0 where d0: "bn_abs_sub_part_words a (drop n a) tna (int n - int tna) = (m0, t0)" by (rule prod.exhaust)
    obtain m1 t1 where d1: "bn_abs_sub_part_words (drop n b) b tnb (int tnb - int n) = (m1, t1)" by (rule prod.exhaust)
    note lv = karatsuba_level [OF _ tn(1,2) len d0 d1]
    have tl: "length t0 = n" "length t1 = n" using lv(1,2) n8 by simp_all
    have no8: "\<not> (n2 = 8 \<and> dna = 0 \<and> dnb = 0)" using big by simp
    have no4: "\<not> (n = 4 \<and> dna = 0 \<and> dnb = 0)" using n8 by simp
    define r where "r = (if n = 8 \<and> dna = 0 \<and> dnb = 0 then
        (bn_mul_comba8 t0 t1, bn_mul_comba8 (take 8 a) (take 8 b), bn_mul_comba8 (take 8 (drop n a)) (take 8 (drop n b)))
      else (bn_mul_recursive t0 t1 n 0 0, bn_mul_recursive a b n 0 0, bn_mul_recursive (drop n a) (drop n b) n dna dnb))"
    have eq: "bn_mul_recursive a b n2 dna dnb =
      fst (mul_combine (fst (snd r) @ snd (snd r)) (fst r) (m0 XOR m1) n)"
      unfolding bn_mul_recursive.simps [of a b n2 dna dnb] if_not_P [OF no8] if_not_P [OF big] Let_def n_def [symmetric]
        tna_def [symmetric] tnb_def [symmetric] d0 d1 prod.case if_not_P [OF no4] r_def by (simp split: prod.split)
    have rv: "length (fst r) = 2 * n \<and> wval (fst r) = wval t0 * wval t1 \<and>
      length (fst (snd r)) = 2 * n \<and> wval (fst (snd r)) = wval (take n a) * wval (take n b) \<and>
      length (snd (snd r)) = 2 * n \<and> wval (snd (snd r)) = wval (take tna (drop n a)) * wval (take tnb (drop n b))"
    proof (cases "n = 8 \<and> dna = 0 \<and> dnb = 0")
      case True
      then have "tna = 8" "tnb = 8" by (simp_all add: tna_def tnb_def)
      then show ?thesis using True len tl
        bn_mul_comba8 [of t0 t1] bn_mul_comba8 [of "take 8 a" "take 8 b"] bn_mul_comba8 [of "take 8 (drop n a)" "take 8 (drop n b)"]
        by (simp add: r_def)
    next
      case False
      note IH = 1(1-3) [OF no8 big n_def tna_def tnb_def d0 [symmetric] d1 [symmetric] refl no4 False]
      have "length (bn_mul_recursive t0 t1 n 0 0) = 2 * n \<and> wval (bn_mul_recursive t0 t1 n 0 0) = wval t0 * wval t1"
        using IH(1) [OF n(2)] tl by simp
      moreover have "length (bn_mul_recursive a b n 0 0) = 2 * n \<and> wval (bn_mul_recursive a b n 0 0) = wval (take n a) * wval (take n b)"
        using IH(2) [OF n(2)] len by simp
      moreover have "length (bn_mul_recursive (drop n a) (drop n b) n dna dnb) = 2 * n \<and>
          wval (bn_mul_recursive (drop n a) (drop n b) n dna dnb) = wval (take tna (drop n a)) * wval (take tnb (drop n b))"
        using IH(3) [OF n(2) 1(5-8)] n8 1(5-8) len by (simp add: tna_def [symmetric] tnb_def [symmetric])
      ultimately show ?thesis unfolding r_def if_not_P [OF False] by simp
    qed
    show ?thesis using lv(3) [of "fst r" "fst (snd r)" "snd (snd r)"] rv n8 unfolding eq tn(3,4) unfolding n(1) by simp
  qed
qed

lemma part_size:
  assumes "i = 2 ^ k" "tna < i" "tnb < i" "16 \<le> tna \<or> 16 \<le> tnb" "part_size i tna tnb = (j, f)"
  shows "(\<exists>k. j = 2 ^ k) \<and> 8 \<le> j \<and> tna < 2 * j \<and> tnb < 2 * j \<and>
    (if f then j < tna \<or> j < tnb else (j = tna \<or> j = tnb) \<and> tna \<le> j \<and> tnb \<le> j)"
  using assms
proof (induction i tna tnb arbitrary: k rule: part_size.induct)
  case (1 i tna tnb)
  obtain k' where "k = Suc k'" using 1(2-5) by (cases k) auto
  then have i: "i div 2 = 2 ^ k'" "i = 2 * 2 ^ k'" using 1(2) by simp_all
  show ?case
  proof (cases "i div 2 < tna \<or> i div 2 < tnb \<or> i div 2 = tna \<or> i div 2 = tnb")
    case True
    then have "(j, f) = (i div 2, i div 2 < tna \<or> i div 2 < tnb)"
      using 1(6) by (subst (asm) part_size.simps) (auto simp: Let_def split: if_splits)
    then show ?thesis using True i 1(3-5) by auto
  next
    case False
    then have "part_size (i div 2) tna tnb = (j, f)" using 1(6) by (subst (asm) part_size.simps) (simp add: Let_def)
    then show ?thesis using 1(1) [OF refl _ _ i(1)] False 1(5) by simp
  qed
qed

lemma bn_mul_part_recursive:
  assumes "n = 2 ^ k" "8 \<le> n" "tna < n" "tnb < n" "tna \<le> tnb + 1" "tnb \<le> tna + 1" "n + tna \<le> length a" "n + tnb \<le> length b"
  shows "length (bn_mul_part_recursive r a b n tna tnb) = 4 * n \<and>
    wval (bn_mul_part_recursive r a b n tna tnb) = wval (take (n + tna) a) * wval (take (n + tnb) b)"
  using assms
proof (induction r a b n tna tnb arbitrary: k rule: bn_mul_part_recursive.induct)
  case (1 r a b n tna tnb)
  obtain m0 t0 where d0: "bn_abs_sub_part_words a (drop n a) tna (int n - int tna) = (m0, t0)" by (rule prod.exhaust)
  obtain m1 t1 where d1: "bn_abs_sub_part_words (drop n b) b tnb (int tnb - int n) = (m1, t1)" by (rule prod.exhaust)
  have tn: "0 < n" "tna \<le> n" "tnb \<le> n" and big: "\<not> n < 8" using 1(3-5) by simp_all
  note lv = karatsuba_level [OF tn 1(8,9) d0 d1]
  have tl: "length t0 = n" "length t1 = n" using lv(1,2) by simp_all
  have hl: "tna \<le> length (drop n a)" "tnb \<le> length (drop n b)" "tna + tnb \<le> 2 * n" using 1(4,5,8,9) by simp_all
  note pad = mul_normal_pad [OF hl]
  define p where "p = part_size n tna tnb"
  define hi where "hi = (if tna < 16 \<and> tnb < 16 then mul_normal_pad (drop n a) tna (drop n b) tnb (2 * n)
    else if snd p then
      bn_mul_part_recursive (replicate (4 * fst p) 0) (drop n a) (drop n b) (fst p) (tna - fst p) (tnb - fst p) @
      replicate (2 * n - 4 * fst p) 0
    else bn_mul_recursive (drop n a) (drop n b) (fst p) (int tna - int (fst p)) (int tnb - int (fst p)) @
      replicate (2 * n - 2 * fst p) 0)"
  define q where "q = (if n = 8 then (bn_mul_comba8 t0 t1, bn_mul_comba8 (take 8 a) (take 8 b), mul_normal_pad (drop n a) tna (drop n b) tnb (2 * n))
    else (bn_mul_recursive t0 t1 n 0 0, bn_mul_recursive a b n 0 0, hi))"
  have eq: "bn_mul_part_recursive r a b n tna tnb = fst (mul_combine (fst (snd q) @ snd (snd q)) (fst q) (m0 XOR m1) n)"
    unfolding bn_mul_part_recursive.simps [of r a b n tna tnb] Let_def if_not_P [OF big] d0 d1 prod.case q_def hi_def p_def
    by (simp add: mult.commute split: prod.split)
  have hi: "length hi = 2 * n \<and> wval hi = wval (take tna (drop n a)) * wval (take tnb (drop n b))" if n8: "n \<noteq> 8"
  proof (cases "tna < 16 \<and> tnb < 16")
    case True
    then show ?thesis using pad by (simp add: hi_def)
  next
    case False
    obtain j f where jf: "part_size n tna tnb = (j, f)" by (rule prod.exhaust)
    have ge: "16 \<le> tna \<or> 16 \<le> tnb" using False by auto
    obtain k' where j: "j = 2 ^ k'" "8 \<le> j" "tna < 2 * j" "tnb < 2 * j"
      "if f then j < tna \<or> j < tnb else (j = tna \<or> j = tnb) \<and> tna \<le> j \<and> tnb \<le> j"
      using part_size [OF 1(2,4,5) ge jf] by blast
    have j2: "2 * j \<le> n" using part_size_half [OF jf] by linarith
    show ?thesis
    proof (cases f)
      case True
      then have g: "j \<le> tna" "j \<le> tnb" using j(5) 1(6,7) by auto
      have e: "j + (tna - j) = tna" "j + (tnb - j) = tnb" using g by simp_all
      have sp: "snd (part_size n tna tnb)" using jf True by simp
      note IH = 1(1) [OF refl big d0 [symmetric] d1 [symmetric] refl n8 False refl refl sp, unfolded jf fst_conv]
      have "length (bn_mul_part_recursive (replicate (4 * j) 0) (drop n a) (drop n b) j (tna - j) (tnb - j)) = 4 * j \<and>
        wval (bn_mul_part_recursive (replicate (4 * j) 0) (drop n a) (drop n b) j (tna - j) (tnb - j)) =
          wval (take tna (drop n a)) * wval (take tnb (drop n b))"
        using IH [OF j(1,2)] j(3,4) 1(6,7) hl g unfolding e by simp
      then show ?thesis unfolding hi_def if_not_P [OF False] p_def jf fst_conv snd_conv if_P [OF True]
        using j2 by (simp add: wval_append)
    next
      case F: False
      then have g: "j = tna \<or> j = tnb" "tna \<le> j" "tnb \<le> j" using j(5) by simp_all
      have e: "nat (int j + (int tna - int j)) = tna" "nat (int j + (int tnb - int j)) = tnb" by simp_all
      have b: "- 8 \<le> int tna - int j" "int tna - int j \<le> 0" "- 8 \<le> int tnb - int j" "int tnb - int j \<le> 0"
        "0 \<le> int j + (int tna - int j)" "0 \<le> int j + (int tnb - int j)"
        using g 1(6,7) by auto
      have l: "nat (int j + (int tna - int j)) \<le> length (drop n a)" "nat (int j + (int tnb - int j)) \<le> length (drop n b)"
        unfolding e using hl by simp_all
      have "length (bn_mul_recursive (drop n a) (drop n b) j (int tna - int j) (int tnb - int j)) = 2 * j \<and>
        wval (bn_mul_recursive (drop n a) (drop n b) j (int tna - int j) (int tnb - int j)) =
          wval (take tna (drop n a)) * wval (take tnb (drop n b))"
        using bn_mul_recursive [OF j(1) b l] unfolding e .
      then show ?thesis unfolding hi_def if_not_P [OF False] p_def jf fst_conv snd_conv if_not_P [OF F]
        using j2 by (simp add: wval_append)
    qed
  qed
  have qv: "length (fst q) = 2 * n \<and> wval (fst q) = wval t0 * wval t1 \<and>
      length (fst (snd q)) = 2 * n \<and> wval (fst (snd q)) = wval (take n a) * wval (take n b) \<and>
      length (snd (snd q)) = 2 * n \<and> wval (snd (snd q)) = wval (take tna (drop n a)) * wval (take tnb (drop n b))"
  proof (cases "n = 8")
    case True
    then show ?thesis using 1(8,9) tl pad bn_mul_comba8 [of t0 t1] bn_mul_comba8 [of "take 8 a" "take 8 b"] by (simp add: q_def)
  next
    case False
    then show ?thesis using bn_mul_recursive [OF 1(2), of 0 0 t0 t1] bn_mul_recursive [OF 1(2), of 0 0 a b] hi tl 1(8,9)
      unfolding q_def by simp
  qed
  show ?case using lv(3) [of "fst q" "fst (snd q)" "snd (snd q)"] qv unfolding eq by simp
qed

end
