(* ===== verification/Bn_Sqr.thy ===== *)
theory Bn_Sqr
  imports Bn_Karatsuba
begin

text \<open>
  The squares of \<open>crypto/fipsmodule/bn/mul.c\<close> and the products of numbers of at most
  \<open>BN_SMALL_MAX_WORDS\<close> words.
\<close>

section \<open>Squares\<close>

text \<open>
  The products of different words: the row of a word with the words behind it, at twice its index
  and one. Then they are doubled, and the squares of the words are added. The words of \<open>r\<close> between
  the first and the last are written before they are read.
\<close>

fun sqr_rows :: "u64 list \<Rightarrow> nat \<Rightarrow> u64 list \<Rightarrow> u64 list" where
  "sqr_rows r j [] = r"
| "sqr_rows r j (w # a) =
     (if a = [] then r
      else case bn_mul_add_words (drop j r) a (length a) w of
             (c, row) \<Rightarrow> sqr_rows (put_words (put_words r j row) (length a + j) [c]) (j + 2) a)"

definition bn_sqr_normal :: "u64 list \<Rightarrow> u64 list \<Rightarrow> nat \<Rightarrow> u64 list" where
  "bn_sqr_normal r a n =
     (if n = 0 then r
      else
        let mx = 2 * n;
            r = (r[mx - 1 := 0])[0 := 0];
            r = (if n > 1 then
                   (case bn_mul_words (drop 1 a) (n - 1) (a ! 0) of
                      (c, row) \<Rightarrow> put_words (put_words r 1 row) n [c])
                 else r);
            r = (if n > 2 then sqr_rows r 3 (take (n - 1) (drop 1 a)) else r);
            r = snd (bn_add_words r r mx);
            tmp = bn_sqr_words (take n a)
        in snd (bn_add_words r tmp mx))"

definition sqr_combine :: "u64 list \<Rightarrow> u64 list \<Rightarrow> nat \<Rightarrow> u64 list \<times> u64" where
  "sqr_combine r t23 n =
     (let n2 = 2 * n
      in case bn_add_words r (drop n2 r) n2 of
           (c, t01) \<Rightarrow>
             (case bn_sub_words t01 t23 n2 of
                (borrow, t23) \<Rightarrow>
                  (let c = c - borrow
                   in case bn_add_words (drop n r) t23 n2 of
                        (carry, mid) \<Rightarrow>
                          (case carry_loop (c + carry) (drop (n + n2) r) of (hi, c) \<Rightarrow> (take n r @ mid @ hi, c)))))"

function bn_sqr_recursive :: "u64 list \<Rightarrow> nat \<Rightarrow> u64 list" where
  "bn_sqr_recursive a n2 =
     (if n2 = 4 then bn_sqr_comba4 (take 4 a)
      else if n2 = 8 then bn_sqr_comba8 (take 8 a)
      else if n2 < 16 then bn_sqr_normal (replicate (2 * n2) 0) a n2
      else
        let n = n2 div 2;
            t0 = bn_abs_sub_words a (drop n a) n;
            t23 = bn_sqr_recursive t0 n;
            r01 = bn_sqr_recursive a n;
            r23 = bn_sqr_recursive (drop n a) n
        in fst (sqr_combine (r01 @ r23) t23 n))"
  by pat_completeness auto
termination by (relation "measure (\<lambda>(a, n2). n2)") auto

declare bn_sqr_recursive.simps [simp del]

text \<open>The sum of the products of different words, and the sum of the squares.\<close>

fun cross :: "u64 list \<Rightarrow> nat" where
  "cross [] = 0"
| "cross (w # a) = 2 ^ 64 * (unat w * wval a) + 2 ^ 128 * cross a"

fun squares :: "u64 list \<Rightarrow> nat" where
  "squares [] = 0"
| "squares (w # a) = unat w * unat w + 2 ^ 128 * squares a"

lemma square_split: "2 * cross a + squares a = wval a * wval a"
proof (induction a)
  case (Cons w a)
  have "2 * cross (w # a) + squares (w # a) =
      unat w * unat w + 2 * 2 ^ 64 * (unat w * wval a) + 2 ^ 128 * (2 * cross a + squares a)" by simp
  also have "\<dots> = wval (w # a) * wval (w # a)" unfolding Cons.IH by (simp add: algebra_simps)
  finally show ?case .
qed simp

lemma wval_sqr_words: "wval (bn_sqr_words a) = squares a"
proof (induction a)
  case (Cons x a)
  define t where "t = (ucast x * ucast x :: u128)"
  have h: "unat (ucast (drop_bit 64 t) :: u64) = unat (drop_bit 64 t)" "unat t = unat x * unat x"
    using mul_add_wide(3) [OF t_def, of 0] mul_add_wide(1) [OF t_def] by simp_all
  have "wval (bn_sqr_words (x # a)) = unat (ucast t :: u64) + 2 ^ 64 * unat (drop_bit 64 t) + 2 ^ 128 * squares a"
    using Cons by (simp add: Let_def t_def [symmetric] h)
  then show ?case unfolding unat_halves h(2) by simp
qed simp

lemma sqr_rows:
  "j + 2 * length a \<le> length r \<Longrightarrow> 0 < j \<Longrightarrow>
   length (sqr_rows r j (w # a)) = length r \<and>
   wval (take (j + 2 * length a) (sqr_rows r j (w # a))) = wval (take (j + length a) r) + 2 ^ (64 * (j - 1)) * cross (w # a)"
proof (induction a arbitrary: r j w)
  case (Cons x a)
  let ?a = "x # a"
  obtain c row where m: "bn_mul_add_words (drop j r) ?a (length ?a) w = (c, row)" by (rule prod.exhaust)
  define r' where "r' = put_words (put_words r j row) (length ?a + j) [c]"
  have le: "length ?a + j < length r" using Cons.prems by simp
  note s = mul_row [OF m le_refl le r'_def]
  have "j + 2 + 2 * length a \<le> length r'" using Cons.prems s(1) by simp
  note IH = Cons.IH [OF this, of x]
  have p: "(2 :: nat) ^ (64 * j) = 2 ^ 64 * 2 ^ (64 * (j - 1))" "(2 :: nat) ^ (64 * (j + 2 - 1)) = 2 ^ 128 * 2 ^ (64 * (j - 1))"
    using Cons.prems(2) by (cases j; simp add: power_add)+
  have "sqr_rows r j (w # ?a) = sqr_rows r' (j + 2) ?a" using m by (simp add: r'_def)
  moreover have "wval (take (j + 2 + 2 * length a) (sqr_rows r' (j + 2) ?a)) =
      wval (take (length ?a + j) r) + 2 ^ (64 * j) * unat w * wval ?a + 2 ^ (64 * (j + 2 - 1)) * cross ?a"
    using IH s(2) by (simp add: add.commute)
  moreover have "2 ^ (64 * j) * unat w * wval ?a + 2 ^ (64 * (j + 2 - 1)) * cross ?a = 2 ^ (64 * (j - 1)) * cross (w # ?a)"
    unfolding p by (simp add: algebra_simps)
  ultimately show ?case using IH s(1) by (simp add: add.commute add.left_commute)
qed simp

lemma mul_first_row:
  assumes "bn_mul_words a na w = (c, row)" "na \<le> length a" "na + 1 < length r" "r ! 0 = 0"
    and "r' = put_words (put_words r 1 row) (na + 1) [c]"
  shows "length r' = length r" "wval (take (na + 2) r') = 2 ^ 64 * (unat w * wval (take na a))"
proof -
  note row = bn_mul_words [OF assms(1,2)]
  show "length r' = length r" using row assms(3,5) by (simp add: put_words_def)
  obtain r0 where r: "r = 0 # r0" using assms(3,4) by (cases r) auto
  have "take (na + 2) r' = 0 # row @ [c]" using row(1) assms(3) by (simp add: assms(5) put_words_def r)
  then have "wval (take (na + 2) r') = 2 ^ 64 * (wval row + 2 ^ (64 * na) * unat c)"
    using row(1) by (simp add: wval_append)
  then show "wval (take (na + 2) r') = 2 ^ 64 * (unat w * wval (take na a))" unfolding row(2) .
qed

text \<open>Two sums of \<open>m\<close> words that have no carry.\<close>

lemma add_no_carry:
  assumes "length a = m" "length b = m" "wval a + wval b < 2 ^ (64 * m)"
  shows "length (snd (bn_add_words a b m)) = m" "wval (snd (bn_add_words a b m)) = wval a + wval b"
proof -
  obtain c r where cr: "bn_add_words a b m = (c, r)" by (rule prod.exhaust)
  have p: "length r = m" "wval r + 2 ^ (64 * m) * unat c = wval a + wval b"
    using bn_add_words [OF cr] assms(1,2) by simp_all
  have "2 ^ (64 * m) * unat c < 2 ^ (64 * m) * 1" using p(2) assms(3) by linarith
  then show "length (snd (bn_add_words a b m)) = m" "wval (snd (bn_add_words a b m)) = wval a + wval b"
    using p cr by simp_all
qed

text \<open>The last word of the products of different words is zero.\<close>

lemma last_word: "length r = Suc m \<Longrightarrow> r ! m = 0 \<Longrightarrow> wval r = wval (take m r)"
  by (subst id_take_nth_drop [of m r]) (simp_all add: wval_append)

lemma put_words_nth: "i + length ws \<le> k \<Longrightarrow> k < length d \<Longrightarrow> put_words d i ws ! k = d ! k"
  by (auto simp: put_words_def nth_append min_absorb2)

lemma sqr_rows_nth: "j + 2 * length a \<le> i \<Longrightarrow> i < length r \<Longrightarrow> sqr_rows r j (w # a) ! i = r ! i"
proof (induction a arbitrary: r j w)
  case (Cons x a)
  let ?a = "x # a"
  obtain c row where m: "bn_mul_add_words (drop j r) ?a (length ?a) w = (c, row)" by (rule prod.exhaust)
  define r' where "r' = put_words (put_words r j row) (length ?a + j) [c]"
  have "length row = length ?a" using bn_mul_add_words(1) [OF m] Cons.prems by simp
  then have "r' ! i = r ! i" "length r' = length r"
    using Cons.prems by (simp_all add: r'_def put_words_nth)
  moreover have "sqr_rows r j (w # ?a) = sqr_rows r' (j + 2) ?a" using m by (simp add: r'_def)
  ultimately show ?case using Cons.IH [of "j + 2" r' x] Cons.prems by simp
qed simp

lemma bn_sqr_normal:
  assumes "n \<le> length a" "length r = 2 * n"
  shows "length (bn_sqr_normal r a n) = 2 * n" "wval (bn_sqr_normal r a n) = wval (take n a) * wval (take n a)"
proof -
  have "length (bn_sqr_normal r a n) = 2 * n \<and> wval (bn_sqr_normal r a n) = wval (take n a) * wval (take n a)"
  proof (cases "n = 0")
    case True
    then show ?thesis using assms by (simp add: bn_sqr_normal_def)
  next
    case False
    have len: "length (take n a) = n" using assms(1) by simp
    then obtain w bs where wb: "take n a = w # bs" "length bs = n - 1" using False by (cases "take n a") auto
    have w0: "a ! 0 = w" "take (n - 1) (drop 1 a) = bs"
      using wb False nth_take [of 0 n a] by (simp, metis drop_take drop_Suc_Cons drop0 One_nat_def)
    define r0 where "r0 = (r[2 * n - 1 := 0])[0 := 0]"
    have r0: "length r0 = 2 * n" "r0 ! 0 = 0" "r0 ! (2 * n - 1) = 0"
      using assms(2) False by (simp_all add: r0_def nth_list_update)
    define r1 where "r1 = (if n > 1 then (case bn_mul_words (drop 1 a) (n - 1) (a ! 0) of
        (c, row) \<Rightarrow> put_words (put_words r0 1 row) n [c]) else r0)"
    define r2 where "r2 = (if n > 2 then sqr_rows r1 3 bs else r1)"
    have c2: "length r2 = 2 * n \<and> wval r2 = cross (w # bs)"
    proof (cases "n > 1")
      case F: False
      then have "n = 1" using False by simp
      then show ?thesis using r0 wb by (cases r0; cases "tl r0") (auto simp: r2_def r1_def)
    next
      case n1: True
      obtain c row where m: "bn_mul_words (drop 1 a) (n - 1) w = (c, row)" by (rule prod.exhaust)
      have r1: "r1 = put_words (put_words r0 1 row) (n - 1 + 1) [c]" using n1 m w0(1) by (simp add: r1_def)
      have le: "n - 1 \<le> length (drop 1 a)" "n - 1 + 1 < length r0" using assms(1) r0(1) n1 by simp_all
      note f = mul_first_row [OF m le r0(2) r1, unfolded w0(2)]
      have lr: "length row = n - 1" using bn_mul_words(1) [OF m le(1)] .
      have top: "r1 ! (2 * n - 1) = 0" using r0 lr n1 by (simp add: r1 put_words_nth)
      have e: "n - 1 + 2 = n + 1" using n1 by simp
      show ?thesis
      proof (cases "n > 2")
        case n2: True
        then obtain x xs where x: "bs = x # xs" "length xs = n - 2" using wb(2) by (cases bs) auto
        have r2: "r2 = sqr_rows r1 3 (x # xs)" using n2 x by (simp add: r2_def)
        have k: "3 + 2 * length xs = 2 * n - 1" "3 + length xs = n + 1" using x n2 by simp_all
        have q: "length r2 = 2 * n" "wval (take (2 * n - 1) r2) = wval (take (n + 1) r1) + 2 ^ 128 * cross (x # xs)"
          using sqr_rows [of 3 xs r1 x] k f(1) r0(1) r2 by simp_all
        have "r2 ! (2 * n - 1) = 0" using sqr_rows_nth [of 3 xs "2 * n - 1" r1 x] k f(1) r0(1) r2 top n2 by simp
        then have "wval r2 = wval (take (2 * n - 1) r2)" using last_word [of r2 "2 * n - 1"] q(1) n2 by simp
        then show ?thesis using q x f(2) [unfolded e] by simp
      next
        case False
        then have n: "n = 2" using n1 by simp
        then have "wval r1 = wval (take 3 r1)" using last_word [of r1 3] f(1) r0(1) top by simp
        moreover obtain x where "bs = [x]" using wb(2) n by (cases bs) auto
        ultimately show ?thesis using n f r0(1) by (simp add: r2_def numeral_3_eq_3)
      qed
    qed
    have P: "2 * cross (w # bs) + squares (w # bs) = wval (take n a) * wval (take n a)"
      using square_split [of "w # bs"] wb(1) by simp
    have L: "wval (take n a) * wval (take n a) < 2 ^ (64 * (2 * n))" by (rule product_less) (use assms in simp_all)
    have "wval r2 + wval r2 < 2 ^ (64 * (2 * n))" using c2 P L by linarith
    note d = add_no_carry [OF conjunct1 [OF c2] conjunct1 [OF c2] this]
    have s: "length (bn_sqr_words (take n a)) = 2 * n" "wval (bn_sqr_words (take n a)) = squares (w # bs)"
      unfolding length_sqr_words wval_sqr_words using len wb(1) by simp_all
    have "wval (snd (bn_add_words r2 r2 (2 * n))) + wval (bn_sqr_words (take n a)) < 2 ^ (64 * (2 * n))"
      using d(2) c2 s(2) P L by linarith
    note g = add_no_carry [OF d(1) s(1) this]
    have "bn_sqr_normal r a n = snd (bn_add_words (snd (bn_add_words r2 r2 (2 * n))) (bn_sqr_words (take n a)) (2 * n))"
      unfolding bn_sqr_normal_def if_not_P [OF False] Let_def r0_def [symmetric] r1_def [symmetric] w0(2) r2_def [symmetric] ..
    moreover have "wval (snd (bn_add_words r2 r2 (2 * n))) + wval (bn_sqr_words (take n a)) = wval (take n a) * wval (take n a)"
      unfolding P [symmetric] d(2) s(2) conjunct2 [OF c2] by (simp only: mult_2)
    ultimately show ?thesis using g by simp
  qed
  then show "length (bn_sqr_normal r a n) = 2 * n" "wval (bn_sqr_normal r a n) = wval (take n a) * wval (take n a)" by simp_all
qed

lemma sqr_combine: "n \<le> length t \<Longrightarrow> length r = 4 * n \<Longrightarrow> length t = 2 * n \<Longrightarrow> sqr_combine r t n = mul_combine r t (-1) n"
proof -
  assume h: "length r = 4 * n" "length t = 2 * n"
  obtain c t01 where a1: "bn_add_words r (drop (2 * n) r) (2 * n) = (c, t01)" by (rule prod.exhaust)
  obtain bw d where a2: "bn_sub_words t01 t (2 * n) = (bw, d)" by (rule prod.exhaust)
  obtain cy s where a3: "bn_add_words t01 t (2 * n) = (cy, s)" by (rule prod.exhaust)
  have l: "length t01 = 2 * n" using bn_add_words(1) [OF a1] h by simp
  have "length d = 2 * n" "length s = 2 * n" using bn_sub_words(1) [OF a2] bn_add_words(1) [OF a3] h l by simp_all
  then have "bn_select_words (-1) d s (2 * n) = d" using bn_select_words [of "2 * n" d s True] by simp
  then show ?thesis by (simp add: sqr_combine_def mul_combine_def Let_def a1 a2 a3)
qed

lemma bn_sqr_recursive:
  assumes "n2 = 2 ^ k" "n2 \<le> length a"
  shows "length (bn_sqr_recursive a n2) = 2 * n2 \<and> wval (bn_sqr_recursive a n2) = wval (take n2 a) * wval (take n2 a)"
  using assms
proof (induction a n2 arbitrary: k rule: bn_sqr_recursive.induct)
  case (1 a n2)
  consider (four) "n2 = 4" | (eight) "n2 = 8" | (small) "n2 \<noteq> 4" "n2 \<noteq> 8" "n2 < 16" | (big) "\<not> n2 < 16" by linarith
  then show ?case
  proof cases
    case four
    then show ?thesis using bn_sqr_comba4 [of "take 4 a"] 1(5) by (simp add: bn_sqr_recursive.simps)
  next
    case eight
    then show ?thesis using bn_sqr_comba8 [of "take 8 a"] 1(5) by (simp add: bn_sqr_recursive.simps)
  next
    case small
    then show ?thesis using bn_sqr_normal [OF 1(5), of "replicate (2 * n2) 0"] by (simp add: bn_sqr_recursive.simps)
  next
    case big
    then have no: "n2 \<noteq> 4" "n2 \<noteq> 8" by simp_all
    define n where "n = n2 div 2"
    obtain k' where "k = Suc k'" using big 1(4) by (cases k) auto
    then have n: "n2 = 2 * n" "n = 2 ^ k'" using 1(4) by (simp_all add: n_def)
    define t0 where "t0 = bn_abs_sub_words a (drop n a) n"
    define x0 where "x0 = wval (take n a)"
    define x1 where "x1 = wval (take n (drop n a))"
    have len: "n + n \<le> length a" using 1(5) n(1) by simp
    have t0: "length t0 = n" "int (wval t0) = \<bar>int x0 - int x1\<bar>"
      using bn_abs_sub_words [of n a "drop n a"] len by (simp_all add: t0_def x0_def x1_def)
    note IH = 1(1-3) [OF no big n_def]
    have t: "length (bn_sqr_recursive t0 n) = 2 * n" "wval (bn_sqr_recursive t0 n) = wval t0 * wval t0"
      using IH(1) [OF t0_def n(2)] t0(1) by simp_all
    have r: "length (bn_sqr_recursive a n) = 2 * n" "wval (bn_sqr_recursive a n) = x0 * x0"
      using IH(2) [OF t0_def refl n(2)] len by (simp_all add: x0_def)
    have s: "length (bn_sqr_recursive (drop n a) n) = 2 * n" "wval (bn_sqr_recursive (drop n a) n) = x1 * x1"
      using IH(3) [OF t0_def refl refl n(2)] len by (simp_all add: x1_def)
    let ?r = "bn_sqr_recursive a n @ bn_sqr_recursive (drop n a) n"
    have v: "length ?r = 4 * n" "wval (take (2 * n) ?r) = x0 * x0" "wval (drop (2 * n) ?r) = x1 * x1" using r s by simp_all
    have ti: "wval (bn_sqr_recursive t0 n) + (x0 * x1 + x1 * x0) = x0 * x0 + x1 * x1"
    proof -
      have "int (wval t0 * wval t0) = (int x0 - int x1) * (int x0 - int x1)" unfolding of_nat_mult t0(2) by simp
      then have "int (wval t0 * wval t0 + (x0 * x1 + x1 * x0)) = int (x0 * x0 + x1 * x1)" by (simp add: algebra_simps)
      then show ?thesis unfolding t(2) of_nat_eq_iff .
    qed
    have f: "wval (take n2 a) = x0 + 2 ^ (64 * n) * x1" using halves [OF len] n(1) by (simp add: x0_def x1_def mult_2)
    have b: "(x0 + 2 ^ (64 * n) * x1) * (x0 + 2 ^ (64 * n) * x1) < 2 ^ (64 * (4 * n))"
      using product_less [OF 1(5,5), of "4 * n"] n(1) unfolding f by simp
    have eq: "bn_sqr_recursive a n2 = fst (mul_combine ?r (bn_sqr_recursive t0 n) (-1) n)"
      using big no sqr_combine [OF _ v(1) t(1)] t(1)
      unfolding bn_sqr_recursive.simps [of a n2] by (simp add: Let_def n_def [symmetric] t0_def [symmetric])
    have "0 < n" using n(2) by simp
    from mul_combine [where P = True and m = "-1", OF v(1) t(1) this v(2,3) ti _ _ b]
    show ?thesis unfolding eq f using n(1) by simp
  qed
qed

section \<open>Numbers of at most nine words\<close>

definition BN_SMALL_MAX_WORDS :: nat where "BN_SMALL_MAX_WORDS = 9"

text \<open>The functions with lengths; \<open>None\<close> is \<open>abort\<close>.\<close>

definition bn_mul_small :: "u64 list \<Rightarrow> nat \<Rightarrow> u64 list \<Rightarrow> nat \<Rightarrow> u64 list \<Rightarrow> nat \<Rightarrow> u64 list option" where
  "bn_mul_small r num_r a num_a b num_b =
     (if num_r \<noteq> num_a + num_b then None
      else if num_a = 8 \<and> num_b = 8 then Some (put_words r 0 (bn_mul_comba8 (take 8 a) (take 8 b)))
      else Some (bn_mul_normal r a num_a b num_b))"

definition bn_sqr_small :: "u64 list \<Rightarrow> nat \<Rightarrow> u64 list \<Rightarrow> nat \<Rightarrow> u64 list option" where
  "bn_sqr_small r num_r a num_a =
     (if num_r \<noteq> 2 * num_a \<or> num_a > BN_SMALL_MAX_WORDS then None
      else if num_a = 4 then Some (put_words r 0 (bn_sqr_comba4 (take 4 a)))
      else if num_a = 8 then Some (put_words r 0 (bn_sqr_comba8 (take 8 a)))
      else Some (put_words r 0 (bn_sqr_normal (take num_r r) a num_a)))"

lemma bn_mul_small:
  assumes "num_a \<le> length a" "num_b \<le> length b" "num_a + num_b \<le> length r"
  shows "\<exists>r'. bn_mul_small r (num_a + num_b) a num_a b num_b = Some r' \<and> length r' = length r \<and>
    wval (take (num_a + num_b) r') = wval (take num_a a) * wval (take num_b b)"
proof (cases "num_a = 8 \<and> num_b = 8")
  case True
  then have l: "length (take 8 a) = 8" "length (take 8 b) = 8" using assms by simp_all
  show ?thesis using True assms(3) bn_mul_comba8 [OF l] put_words(1,3) [of 0 "bn_mul_comba8 (take 8 a) (take 8 b)" r]
    by (simp add: bn_mul_small_def)
next
  case False
  then show ?thesis using bn_mul_normal [OF assms] unfolding bn_mul_small_def by auto
qed

lemma bn_sqr_small:
  assumes "num_a \<le> length a" "2 * num_a \<le> length r" "num_a \<le> BN_SMALL_MAX_WORDS"
  shows "\<exists>r'. bn_sqr_small r (2 * num_a) a num_a = Some r' \<and> length r' = length r \<and>
    wval (take (2 * num_a) r') = wval (take num_a a) * wval (take num_a a)"
proof -
  have put: "length (put_words r 0 ws) = length r" "wval (take (2 * num_a) (put_words r 0 ws)) = wval ws"
    if "length ws = 2 * num_a" for ws
    using that assms(2) put_words(1,3) [of 0 ws r] by simp_all
  consider "num_a = 4" | "num_a = 8" | "num_a \<noteq> 4" "num_a \<noteq> 8" by blast
  then show ?thesis
  proof cases
    case 1
    then show ?thesis using put assms bn_sqr_comba4 [of "take 4 a"] by (simp add: bn_sqr_small_def)
  next
    case 2
    then show ?thesis using put assms bn_sqr_comba8 [of "take 8 a"] by (simp add: bn_sqr_small_def)
  next
    case 3
    then show ?thesis using put assms bn_sqr_normal [OF assms(1), of "take (2 * num_a) r"] by (simp add: bn_sqr_small_def)
  qed
qed

end
