(* ===== verification/Bn.thy ===== *)
theory Bn
  imports Bn_Words
begin

text \<open>
  Model of the numbers of \<open>crypto/fipsmodule/bn/bn.c\<close>, of \<open>cmp.c\<close> and of \<open>add.c\<close>. A \<open>BIGNUM\<close> is a record with the
  fields of \<open>bignum_st\<close>; the first argument of an operation is the number that the result is written to,
  a failed operation returns \<open>False\<close> with the number it leaves.
\<close>

section \<open>Numbers\<close>

text \<open>\<open>d\<close> has \<open>dmax\<close> words, of which \<open>width\<close> are valid; \<open>flags\<close> has the bits of \<open>BN_FLG_*\<close>.\<close>

record bignum =
  bn_d :: "u64 list"
  bn_width :: nat
  bn_dmax :: nat
  bn_neg :: bool
  bn_flags :: u32

definition BN_FLG_MALLOCED :: u32 where "BN_FLG_MALLOCED = 0x01"
definition BN_FLG_STATIC_DATA :: u32 where "BN_FLG_STATIC_DATA = 0x02"
definition BN_BITS2 :: nat where "BN_BITS2 = 64"
definition BN_BYTES :: nat where "BN_BYTES = 8"

definition BN_init :: bignum where
  "BN_init = \<lparr>bn_d = [], bn_width = 0, bn_dmax = 0, bn_neg = False, bn_flags = 0\<rparr>"

definition BN_new :: "(nat \<Rightarrow> bool) \<Rightarrow> bignum option" where
  "BN_new alloc = (if \<not> alloc 24 then None else Some (BN_init\<lparr>bn_flags := BN_FLG_MALLOCED\<rparr>))"

text \<open>The largest width is \<open>INT_MAX / (4 * BN_BITS2)\<close>; the words behind the valid ones have no specified value.\<close>

definition bn_max_words :: nat where "bn_max_words = 2147483647 div (4 * BN_BITS2)"

definition bn_wexpand :: "bignum \<Rightarrow> nat \<Rightarrow> (nat \<Rightarrow> bool) \<Rightarrow> bool \<times> bignum" where
  "bn_wexpand bn words alloc =
     (if words \<le> bn_dmax bn then (True, bn)
      else if words > bn_max_words then (False, bn)
      else if bn_flags bn AND BN_FLG_STATIC_DATA \<noteq> 0 then (False, bn)
      else if \<not> alloc (8 * words) then (False, bn)
      else (True, bn\<lparr>bn_d := take (bn_width bn) (bn_d bn) @ replicate (words - bn_width bn) 0, bn_dmax := words\<rparr>))"

definition bn_expand :: "bignum \<Rightarrow> nat \<Rightarrow> (nat \<Rightarrow> bool) \<Rightarrow> bool \<times> bignum" where
  "bn_expand bn bits alloc =
     (if (bits + BN_BITS2 - 1) mod size_mod < bits then (False, bn)
      else bn_wexpand bn ((bits + BN_BITS2 - 1) mod size_mod div BN_BITS2) alloc)"

definition BN_copy :: "bignum \<Rightarrow> bignum \<Rightarrow> (nat \<Rightarrow> bool) \<Rightarrow> bool \<times> bignum" where
  "BN_copy dest src alloc =
     (case bn_wexpand dest (bn_width src) alloc of
        (False, dest) \<Rightarrow> (False, dest)
      | (True, dest) \<Rightarrow>
          (True, dest\<lparr>bn_d := put_words (bn_d dest) 0 (take (bn_width src) (bn_d src)),
                      bn_width := bn_width src, bn_neg := bn_neg src\<rparr>))"

definition BN_dup :: "bignum option \<Rightarrow> (nat \<Rightarrow> bool) \<Rightarrow> bignum option" where
  "BN_dup src alloc =
     (case src of None \<Rightarrow> None
      | Some src \<Rightarrow>
          (case BN_new alloc of None \<Rightarrow> None
           | Some copy \<Rightarrow> (case BN_copy copy src alloc of (False, c) \<Rightarrow> None | (True, c) \<Rightarrow> Some c)))"

definition BN_clear :: "bignum \<Rightarrow> bignum" where
  "BN_clear bn = bn\<lparr>bn_d := replicate (bn_dmax bn) 0, bn_width := 0, bn_neg := False\<rparr>"

definition BN_vone :: bignum where
  "BN_vone = \<lparr>bn_d = [1], bn_width = 1, bn_dmax = 1, bn_neg = False, bn_flags = BN_FLG_STATIC_DATA\<rparr>"

text \<open>One of the blocks of \<open>BN_num_bits_word\<close>: the top half of the rest is looked at.\<close>

definition num_bits_block :: "nat \<Rightarrow> u32 \<times> u64 \<Rightarrow> u32 \<times> u64" where
  "num_bits_block k s =
     (let bits = fst s; l = snd s;
          x = drop_bit k l;
          m = 0 - x;
          m = 0 - drop_bit (BN_BITS2 - 1) m
      in (bits + ucast (of_nat k AND m), l XOR ((x XOR l) AND m)))"

definition BN_num_bits_word :: "u64 \<Rightarrow> u32" where
  "BN_num_bits_word l = fst (fold num_bits_block [32, 16, 8, 4, 2, 1] (of_bool (l \<noteq> 0), l))"

fun minimal_loop :: "u64 list \<Rightarrow> nat \<Rightarrow> nat" where
  "minimal_loop d 0 = 0"
| "minimal_loop d (Suc n) = (if d ! n = 0 then minimal_loop d n else Suc n)"

definition bn_minimal_width :: "bignum \<Rightarrow> nat" where
  "bn_minimal_width bn = minimal_loop (bn_d bn) (bn_width bn)"

definition bn_set_minimal_width :: "bignum \<Rightarrow> bignum" where
  "bn_set_minimal_width bn =
     (let bn = bn\<lparr>bn_width := bn_minimal_width bn\<rparr> in if bn_width bn = 0 then bn\<lparr>bn_neg := False\<rparr> else bn)"

text \<open>The width is at most \<open>bn_max_words\<close>, so that the number of bits is far below \<open>2^32\<close>.\<close>

definition BN_num_bits :: "bignum \<Rightarrow> nat" where
  "BN_num_bits bn =
     (let width = bn_minimal_width bn
      in if width = 0 then 0 else (width - 1) * BN_BITS2 + unat (BN_num_bits_word (bn_d bn ! (width - 1))))"

definition BN_num_bytes :: "bignum \<Rightarrow> nat" where
  "BN_num_bytes bn = (BN_num_bits bn + 7) div 8"

definition BN_zero :: "bignum \<Rightarrow> bignum" where
  "BN_zero bn = bn\<lparr>bn_width := 0, bn_neg := False\<rparr>"

definition BN_set_word :: "bignum \<Rightarrow> u64 \<Rightarrow> (nat \<Rightarrow> bool) \<Rightarrow> bool \<times> bignum" where
  "BN_set_word bn v alloc =
     (if v = 0 then (True, BN_zero bn)
      else case bn_wexpand bn 1 alloc of
             (False, bn) \<Rightarrow> (False, bn)
           | (True, bn) \<Rightarrow> (True, bn\<lparr>bn_neg := False, bn_d := (bn_d bn)[0 := v], bn_width := 1\<rparr>))"

definition BN_one :: "bignum \<Rightarrow> (nat \<Rightarrow> bool) \<Rightarrow> bool \<times> bignum" where
  "BN_one bn alloc = BN_set_word bn 1 alloc"

definition BN_set_u64 :: "bignum \<Rightarrow> u64 \<Rightarrow> (nat \<Rightarrow> bool) \<Rightarrow> bool \<times> bignum" where
  "BN_set_u64 bn v alloc = BN_set_word bn v alloc"

definition bn_set_words :: "bignum \<Rightarrow> u64 list \<Rightarrow> (nat \<Rightarrow> bool) \<Rightarrow> bool \<times> bignum" where
  "bn_set_words bn words alloc =
     (case bn_wexpand bn (length words) alloc of
        (False, bn) \<Rightarrow> (False, bn)
      | (True, bn) \<Rightarrow> (True, bn\<lparr>bn_d := put_words (bn_d bn) 0 words, bn_width := length words, bn_neg := False\<rparr>))"

text \<open>The words from \<open>from\<close> to below \<open>to\<close>, or-ed together.\<close>

definition or_words :: "u64 list \<Rightarrow> nat \<Rightarrow> nat \<Rightarrow> u64" where
  "or_words d i j = foldl (\<lambda>m w. m OR w) 0 (take (j - i) (drop i d))"

definition bn_fits_in_words :: "bignum \<Rightarrow> nat \<Rightarrow> bool" where
  "bn_fits_in_words bn num \<longleftrightarrow> or_words (bn_d bn) num (bn_width bn) = 0"

definition bn_copy_words :: "nat \<Rightarrow> bignum \<Rightarrow> u64 list option" where
  "bn_copy_words num bn =
     (if bn_neg bn then None
      else if bn_width bn > num \<and> \<not> bn_fits_in_words bn num then None
      else let width = (if bn_width bn > num then num else bn_width bn)
           in Some (put_words (replicate num 0) 0 (take width (bn_d bn))))"

definition BN_is_negative :: "bignum \<Rightarrow> bool" where
  "BN_is_negative bn \<longleftrightarrow> bn_neg bn"

definition BN_is_zero :: "bignum \<Rightarrow> bool" where
  "BN_is_zero bn \<longleftrightarrow> bn_fits_in_words bn 0"

definition BN_set_negative :: "bignum \<Rightarrow> bool \<Rightarrow> bignum" where
  "BN_set_negative bn sg = (if sg \<and> \<not> BN_is_zero bn then bn\<lparr>bn_neg := True\<rparr> else bn\<lparr>bn_neg := False\<rparr>)"

definition bn_resize_words :: "bignum \<Rightarrow> nat \<Rightarrow> (nat \<Rightarrow> bool) \<Rightarrow> bool \<times> bignum" where
  "bn_resize_words bn words alloc =
     (if bn_width bn \<le> words then
        (case bn_wexpand bn words alloc of
           (False, bn) \<Rightarrow> (False, bn)
         | (True, bn) \<Rightarrow>
             (True, bn\<lparr>bn_d := put_words (bn_d bn) (bn_width bn) (replicate (words - bn_width bn) 0), bn_width := words\<rparr>))
      else if \<not> bn_fits_in_words bn words then (False, bn)
      else (True, bn\<lparr>bn_width := words\<rparr>))"

section \<open>Comparison\<close>

definition cmp_step :: "u32 \<Rightarrow> u64 \<times> u64 \<Rightarrow> u32" where
  "cmp_step ret xy =
     (let eq = constant_time_eq_w (fst xy) (snd xy); lt = constant_time_lt_w (fst xy) (snd xy)
      in constant_time_select_int eq ret (constant_time_select_int lt (-1) 1))"

definition bn_cmp_words_consttime :: "u64 list \<Rightarrow> nat \<Rightarrow> u64 list \<Rightarrow> nat \<Rightarrow> int" where
  "bn_cmp_words_consttime a a_len b b_len =
     (let mn = (if a_len < b_len then a_len else b_len);
          ret = foldl cmp_step 0 (zip (take mn a) (take mn b))
      in sint (if a_len < b_len then constant_time_select_int (constant_time_is_zero_w (or_words b a_len b_len)) ret (-1)
               else if b_len < a_len then constant_time_select_int (constant_time_is_zero_w (or_words a b_len a_len)) ret 1
               else ret))"

definition BN_ucmp :: "bignum \<Rightarrow> bignum \<Rightarrow> int" where
  "BN_ucmp a b = bn_cmp_words_consttime (bn_d a) (bn_width a) (bn_d b) (bn_width b)"

definition BN_cmp :: "bignum option \<Rightarrow> bignum option \<Rightarrow> int" where
  "BN_cmp a b =
     (case (a, b) of
        (Some a, None) \<Rightarrow> -1
      | (None, Some b) \<Rightarrow> 1
      | (None, None) \<Rightarrow> 0
      | (Some a, Some b) \<Rightarrow>
          (if bn_neg a \<noteq> bn_neg b then (if bn_neg a then -1 else 1)
           else let ret = BN_ucmp a b in if bn_neg a then - ret else ret))"

definition bn_less_than_words :: "u64 list \<Rightarrow> u64 list \<Rightarrow> nat \<Rightarrow> bool" where
  "bn_less_than_words a b len \<longleftrightarrow> bn_cmp_words_consttime a len b len < 0"

definition BN_abs_is_word :: "bignum \<Rightarrow> u64 \<Rightarrow> bool" where
  "BN_abs_is_word bn w \<longleftrightarrow>
     (if bn_width bn = 0 then w = 0
      else foldl (\<lambda>m x. m OR x) (bn_d bn ! 0 XOR w) (take (bn_width bn - 1) (drop 1 (bn_d bn))) = 0)"

definition BN_cmp_word :: "bignum option \<Rightarrow> u64 \<Rightarrow> int" where
  "BN_cmp_word a b =
     BN_cmp a (Some (BN_init\<lparr>bn_d := [b], bn_width := of_bool (b > 0), bn_dmax := 1, bn_flags := BN_FLG_STATIC_DATA\<rparr>))"

definition BN_is_one :: "bignum \<Rightarrow> bool" where
  "BN_is_one bn \<longleftrightarrow> \<not> bn_neg bn \<and> BN_abs_is_word bn 1"

definition BN_is_word :: "bignum \<Rightarrow> u64 \<Rightarrow> bool" where
  "BN_is_word bn w \<longleftrightarrow> BN_abs_is_word bn w \<and> (w = 0 \<or> \<not> bn_neg bn)"

definition BN_is_odd :: "bignum \<Rightarrow> bool" where
  "BN_is_odd bn \<longleftrightarrow> bn_width bn > 0 \<and> bn_d bn ! 0 AND 1 = 1"

definition BN_is_pow2 :: "bignum \<Rightarrow> bool" where
  "BN_is_pow2 bn =
     (let width = bn_minimal_width bn
      in if width = 0 \<or> bn_neg bn then False
         else if list_ex (\<lambda>w. w \<noteq> 0) (take (width - 1) (bn_d bn)) then False
         else bn_d bn ! (width - 1) AND (bn_d bn ! (width - 1) - 1) = 0)"

definition BN_equal_consttime :: "bignum \<Rightarrow> bignum \<Rightarrow> bool" where
  "BN_equal_consttime a b =
     (let m = or_words (bn_d b) (bn_width a) (bn_width b);
          m = m OR or_words (bn_d a) (bn_width b) (bn_width a);
          mn = (if bn_width a < bn_width b then bn_width a else bn_width b);
          m = foldl (\<lambda>m xy. m OR (fst xy XOR snd xy)) m (zip (take mn (bn_d a)) (take mn (bn_d b)));
          m = m OR (of_bool (bn_neg a) XOR of_bool (bn_neg b))
      in m = 0)"

section \<open>Addition and subtraction\<close>

text \<open>
  \<open>r\<close> gives the block that the result is written to; an operand that is the same number as \<open>r\<close> is read
  before it is overwritten, word by word, so that the operands are values. The loops propagate the
  carry and the borrow through the words that only \<open>a\<close> has.
\<close>

fun borrow_loop :: "u64 \<Rightarrow> u64 list \<Rightarrow> u64 list \<times> u64" where
  "borrow_loop c [] = ([], c)"
| "borrow_loop c (x # a) =
     (let r0 = x - c; c = of_bool (x < r0) in case borrow_loop c a of (r, c) \<Rightarrow> (r0 # r, c))"

definition bn_uadd_consttime :: "bignum \<Rightarrow> bignum \<Rightarrow> bignum \<Rightarrow> (nat \<Rightarrow> bool) \<Rightarrow> bool \<times> bignum" where
  "bn_uadd_consttime r a b alloc =
     (let (a, b) = (if bn_width a < bn_width b then (b, a) else (a, b)); mx = bn_width a; mn = bn_width b
      in case bn_wexpand r (mx + 1) alloc of
           (False, r) \<Rightarrow> (False, r)
         | (True, r) \<Rightarrow>
             (case bn_add_words (bn_d a) (bn_d b) mn of
                (carry, lo) \<Rightarrow>
                  (case carry_loop carry (take (mx - mn) (drop mn (bn_d a))) of
                     (hi, carry) \<Rightarrow> (True, r\<lparr>bn_d := put_words (bn_d r) 0 (lo @ hi @ [carry]), bn_width := mx + 1\<rparr>))))"

definition BN_uadd :: "bignum \<Rightarrow> bignum \<Rightarrow> bignum \<Rightarrow> (nat \<Rightarrow> bool) \<Rightarrow> bool \<times> bignum" where
  "BN_uadd r a b alloc =
     (case bn_uadd_consttime r a b alloc of (False, r) \<Rightarrow> (False, r) | (True, r) \<Rightarrow> (True, bn_set_minimal_width r))"

definition bn_usub_consttime :: "bignum \<Rightarrow> bignum \<Rightarrow> bignum \<Rightarrow> (nat \<Rightarrow> bool) \<Rightarrow> bool \<times> bignum" where
  "bn_usub_consttime r a b alloc =
     (if bn_width b > bn_width a \<and> \<not> bn_fits_in_words b (bn_width a) then (False, r)
      else
        let b_width = (if bn_width b > bn_width a then bn_width a else bn_width b)
        in case bn_wexpand r (bn_width a) alloc of
             (False, r) \<Rightarrow> (False, r)
           | (True, r) \<Rightarrow>
               (case bn_sub_words (bn_d a) (bn_d b) b_width of
                  (borrow, lo) \<Rightarrow>
                    (case borrow_loop borrow (take (bn_width a - b_width) (drop b_width (bn_d a))) of
                       (hi, borrow) \<Rightarrow>
                         (let r = r\<lparr>bn_d := put_words (bn_d r) 0 (lo @ hi)\<rparr>
                          in if borrow \<noteq> 0 then (False, r) else (True, r\<lparr>bn_width := bn_width a, bn_neg := False\<rparr>)))))"

definition BN_usub :: "bignum \<Rightarrow> bignum \<Rightarrow> bignum \<Rightarrow> (nat \<Rightarrow> bool) \<Rightarrow> bool \<times> bignum" where
  "BN_usub r a b alloc =
     (case bn_usub_consttime r a b alloc of (False, r) \<Rightarrow> (False, r) | (True, r) \<Rightarrow> (True, bn_set_minimal_width r))"

text \<open>The difference of absolute values with its sign, the common end of \<open>BN_add\<close> and \<open>BN_sub\<close>.\<close>

definition signed_usub :: "bignum \<Rightarrow> bignum \<Rightarrow> bignum \<Rightarrow> (nat \<Rightarrow> bool) \<Rightarrow> bool \<times> bignum" where
  "signed_usub r a b alloc =
     (if BN_ucmp a b < 0 then
        (case BN_usub r b a alloc of (False, r) \<Rightarrow> (False, r) | (True, r) \<Rightarrow> (True, r\<lparr>bn_neg := True\<rparr>))
      else (case BN_usub r a b alloc of (False, r) \<Rightarrow> (False, r) | (True, r) \<Rightarrow> (True, r\<lparr>bn_neg := False\<rparr>)))"

definition BN_add :: "bignum \<Rightarrow> bignum \<Rightarrow> bignum \<Rightarrow> (nat \<Rightarrow> bool) \<Rightarrow> bool \<times> bignum" where
  "BN_add r a b alloc =
     (if bn_neg a \<noteq> bn_neg b then
        (let (a, b) = (if bn_neg a then (b, a) else (a, b)) in signed_usub r a b alloc)
      else case BN_uadd r a b alloc of (ret, r) \<Rightarrow> (ret, r\<lparr>bn_neg := bn_neg a\<rparr>))"

definition BN_sub :: "bignum \<Rightarrow> bignum \<Rightarrow> bignum \<Rightarrow> (nat \<Rightarrow> bool) \<Rightarrow> bool \<times> bignum" where
  "BN_sub r a b alloc =
     (if bn_neg a \<noteq> bn_neg b then
        (case BN_uadd r a b alloc of (False, r) \<Rightarrow> (False, r) | (True, r) \<Rightarrow> (True, r\<lparr>bn_neg := bn_neg a\<rparr>))
      else (let (a, b) = (if bn_neg a then (b, a) else (a, b)) in signed_usub r a b alloc))"

text \<open>The loop of \<open>BN_add_word\<close>: the words and the carry that is left.\<close>

fun add_word_loop :: "u64 list \<Rightarrow> u64 \<Rightarrow> u64 list \<times> u64" where
  "add_word_loop [] w = ([], w)"
| "add_word_loop (x # a) w =
     (if w = 0 then (x # a, w)
      else let l = x + w; w = (if w > l then 1 else 0) in case add_word_loop a w of (r, w) \<Rightarrow> (l # r, w))"

text \<open>The loop of \<open>BN_sub_word\<close> with the index it stops at; \<open>None\<close> if it runs out of the words.\<close>

fun sub_word_loop :: "u64 list \<Rightarrow> u64 \<Rightarrow> (u64 list \<times> nat) option" where
  "sub_word_loop [] w = None"
| "sub_word_loop (x # a) w =
     (if x \<ge> w then Some ((x - w) # a, 0)
      else map_option (\<lambda>(r, i). ((x - w) # r, i + 1)) (sub_word_loop a 1))"

text \<open>
  The common end of \<open>BN_add_word\<close> and \<open>BN_mul_word\<close>: the words replaced, and a last word pushed if it
  is not zero.
\<close>

definition push_nonzero :: "bignum \<Rightarrow> u64 list \<Rightarrow> u64 \<Rightarrow> (nat \<Rightarrow> bool) \<Rightarrow> bool \<times> bignum" where
  "push_nonzero b ws w alloc =
     (let b = b\<lparr>bn_d := put_words (bn_d b) 0 ws\<rparr>
      in if w \<noteq> 0 then
           (case bn_wexpand b (bn_width b + 1) alloc of
              (False, b) \<Rightarrow> (False, b)
            | (True, b) \<Rightarrow> (True, b\<lparr>bn_d := (bn_d b)[bn_width b := w], bn_width := bn_width b + 1\<rparr>))
         else (True, b))"

text \<open>The parts behind the tests for zero and for a negative number, where the two functions call each other.\<close>

definition add_word_abs :: "bignum \<Rightarrow> u64 \<Rightarrow> (nat \<Rightarrow> bool) \<Rightarrow> bool \<times> bignum" where
  "add_word_abs a w alloc =
     (case add_word_loop (take (bn_width a) (bn_d a)) w of (ws, w) \<Rightarrow> push_nonzero a ws w alloc)"

definition sub_word_abs :: "bignum \<Rightarrow> u64 \<Rightarrow> (bool \<times> bignum) option" where
  "sub_word_abs a w =
     (if bn_minimal_width a = 1 \<and> bn_d a ! 0 < w then
        Some (True, a\<lparr>bn_d := (bn_d a)[0 := w - bn_d a ! 0], bn_neg := True\<rparr>)
      else case sub_word_loop (take (bn_width a) (bn_d a)) w of
             None \<Rightarrow> None
           | Some (ws, i) \<Rightarrow>
               (let a = a\<lparr>bn_d := put_words (bn_d a) 0 ws\<rparr>
                in Some (True, if bn_d a ! i = 0 \<and> i = bn_width a - 1 then a\<lparr>bn_width := bn_width a - 1\<rparr> else a)))"

definition BN_add_word :: "bignum \<Rightarrow> u64 \<Rightarrow> (nat \<Rightarrow> bool) \<Rightarrow> (bool \<times> bignum) option" where
  "BN_add_word a w alloc =
     (if w = 0 then Some (True, a)
      else if BN_is_zero a then Some (BN_set_word a w alloc)
      else if bn_neg a then
        (case sub_word_abs (a\<lparr>bn_neg := False\<rparr>) w of
           None \<Rightarrow> None
         | Some (i, a) \<Rightarrow> Some (i, if \<not> BN_is_zero a then a\<lparr>bn_neg := \<not> bn_neg a\<rparr> else a))
      else Some (add_word_abs a w alloc))"

definition BN_sub_word :: "bignum \<Rightarrow> u64 \<Rightarrow> (nat \<Rightarrow> bool) \<Rightarrow> (bool \<times> bignum) option" where
  "BN_sub_word a w alloc =
     (if w = 0 then Some (True, a)
      else if BN_is_zero a then
        (case BN_set_word a w alloc of (i, a) \<Rightarrow> Some (i, if i then BN_set_negative a True else a))
      else if bn_neg a then
        (case add_word_abs (a\<lparr>bn_neg := False\<rparr>) w alloc of (i, a) \<Rightarrow> Some (i, a\<lparr>bn_neg := True\<rparr>))
      else sub_word_abs a w)"

definition BN_mul_word :: "bignum \<Rightarrow> u64 \<Rightarrow> (nat \<Rightarrow> bool) \<Rightarrow> bool \<times> bignum" where
  "BN_mul_word bn w alloc =
     (if bn_width bn = 0 then (True, bn)
      else if w = 0 then (True, BN_zero bn)
      else case bn_mul_words (bn_d bn) (bn_width bn) w of (ll, ws) \<Rightarrow> push_nonzero bn ws ll alloc)"

end
