(* ===== verification/Bn_Arith.thy ===== *)
theory Bn_Arith
  imports Bn
begin

text \<open>
  What the operations of Bn compute: the integer with the sign and the words of a number. Sums and
  differences are exact and have minimal width, the comparison orders the integers, and the loops of
  the word operations stay inside the words.
\<close>

section \<open>Values\<close>

definition bn_abs :: "bignum \<Rightarrow> nat" where
  "bn_abs b = wval (take (bn_width b) (bn_d b))"

definition bn_int :: "bignum \<Rightarrow> int" where
  "bn_int b = (if bn_neg b then - int (bn_abs b) else int (bn_abs b))"

text \<open>Well-formed numbers, and those of minimal width, whose zero is not negative.\<close>

definition bn_ok :: "bignum \<Rightarrow> bool" where
  "bn_ok b \<longleftrightarrow> length (bn_d b) = bn_dmax b \<and> bn_width b \<le> bn_dmax b"

definition bn_minimal :: "bignum \<Rightarrow> bool" where
  "bn_minimal b \<longleftrightarrow> (bn_width b \<noteq> 0 \<longrightarrow> bn_d b ! (bn_width b - 1) \<noteq> 0) \<and> (bn_width b = 0 \<longrightarrow> \<not> bn_neg b)"

text \<open>Room for \<open>n\<close> words.\<close>

definition bn_room :: "bignum \<Rightarrow> nat \<Rightarrow> (nat \<Rightarrow> bool) \<Rightarrow> bool" where
  "bn_room b n alloc \<longleftrightarrow> n \<le> bn_dmax b \<or> n \<le> bn_max_words \<and> bn_flags b AND BN_FLG_STATIC_DATA = 0 \<and> alloc (8 * n)"

lemma wexpand:
  assumes "bn_ok b" "bn_wexpand b n alloc = (ok, b')"
  shows "bn_ok b'" "bn_width b' = bn_width b" "bn_neg b' = bn_neg b" "bn_flags b' = bn_flags b"
    "take (bn_width b) (bn_d b') = take (bn_width b) (bn_d b)" "ok \<longleftrightarrow> bn_room b n alloc" "ok \<Longrightarrow> n \<le> bn_dmax b'" "\<not> ok \<Longrightarrow> b' = b"
    "bn_dmax b \<le> bn_dmax b'"
proof -
  consider "n \<le> bn_dmax b" "ok" "b' = b" | "\<not> n \<le> bn_dmax b" "\<not> ok" "b' = b" "\<not> bn_room b n alloc"
    | "\<not> n \<le> bn_dmax b" "ok" "b' = b\<lparr>bn_d := take (bn_width b) (bn_d b) @ replicate (n - bn_width b) 0, bn_dmax := n\<rparr>" "bn_room b n alloc"
    using assms(2) by (auto simp: bn_wexpand_def bn_room_def split: if_splits)
  then have "bn_ok b' \<and> bn_width b' = bn_width b \<and> bn_neg b' = bn_neg b \<and> bn_flags b' = bn_flags b \<and>
    take (bn_width b) (bn_d b') = take (bn_width b) (bn_d b) \<and> (ok \<longleftrightarrow> bn_room b n alloc) \<and> (ok \<longrightarrow> n \<le> bn_dmax b') \<and> (\<not> ok \<longrightarrow> b' = b) \<and>
    bn_dmax b \<le> bn_dmax b'"
    using assms(1) by cases (auto simp: bn_ok_def bn_room_def)
  then show "bn_ok b'" "bn_width b' = bn_width b" "bn_neg b' = bn_neg b" "bn_flags b' = bn_flags b"
    "take (bn_width b) (bn_d b') = take (bn_width b) (bn_d b)" "ok \<longleftrightarrow> bn_room b n alloc" "ok \<Longrightarrow> n \<le> bn_dmax b'" "\<not> ok \<Longrightarrow> b' = b"
    "bn_dmax b \<le> bn_dmax b'" by blast+
qed

text \<open>A number with the words \<open>ws\<close> written to the front of its block.\<close>

lemma bn_abs_put:
  assumes "length (bn_d r) = bn_dmax r" "length ws \<le> bn_dmax r"
  shows "bn_ok (r\<lparr>bn_d := put_words (bn_d r) 0 ws, bn_width := length ws\<rparr>)"
    "bn_abs (r\<lparr>bn_d := put_words (bn_d r) 0 ws, bn_width := length ws\<rparr>) = wval ws"
  using assms put_words(3) [of 0 ws "bn_d r"] by (simp_all add: bn_ok_def bn_abs_def)

lemma bn_abs_neg [simp]: "bn_abs (b\<lparr>bn_neg := s\<rparr>) = bn_abs b" "bn_ok (b\<lparr>bn_neg := s\<rparr>) = bn_ok b"
  by (simp_all add: bn_abs_def bn_ok_def)

lemma bn_abs_less: "bn_ok b \<Longrightarrow> bn_abs b < 2 ^ (64 * bn_width b)"
  using wval_less [of "take (bn_width b) (bn_d b)"] by (simp add: bn_abs_def bn_ok_def)

section \<open>Minimal width\<close>

lemma minimal_loop: "n \<le> length d \<Longrightarrow>
  minimal_loop d n \<le> n \<and> wval (take (minimal_loop d n) d) = wval (take n d) \<and>
  (minimal_loop d n \<noteq> 0 \<longrightarrow> d ! (minimal_loop d n - 1) \<noteq> 0)"
proof (induction n)
  case (Suc n)
  then have "wval (take (Suc n) d) = wval (take n d) + 2 ^ (64 * n) * unat (d ! n)"
    by (simp add: take_Suc_conv_app_nth wval_append)
  then show ?case using Suc by auto
qed simp

lemma set_minimal:
  assumes "bn_ok b"
  shows "bn_ok (bn_set_minimal_width b)" "bn_abs (bn_set_minimal_width b) = bn_abs b" "bn_minimal (bn_set_minimal_width b)"
    "bn_int (bn_set_minimal_width b) = bn_int b" "bn_dmax (bn_set_minimal_width b) = bn_dmax b"
    "bn_flags (bn_set_minimal_width b) = bn_flags b" "bn_width (bn_set_minimal_width b) \<le> bn_width b"
proof -
  note m = minimal_loop [of "bn_width b" "bn_d b"]
  have w: "minimal_loop (bn_d b) (bn_width b) = 0 \<Longrightarrow> bn_abs b = 0" using m assms by (simp add: bn_abs_def bn_ok_def)
  show "bn_ok (bn_set_minimal_width b)" "bn_abs (bn_set_minimal_width b) = bn_abs b" "bn_minimal (bn_set_minimal_width b)"
    "bn_dmax (bn_set_minimal_width b) = bn_dmax b" "bn_flags (bn_set_minimal_width b) = bn_flags b"
    "bn_width (bn_set_minimal_width b) \<le> bn_width b"
    using m assms by (auto simp: bn_set_minimal_width_def bn_minimal_width_def bn_ok_def bn_abs_def bn_minimal_def Let_def)
  then show "bn_int (bn_set_minimal_width b) = bn_int b"
    using w by (auto simp: bn_int_def bn_set_minimal_width_def bn_minimal_width_def Let_def)
qed

lemma or_fold: "foldl (\<lambda>m w. m OR w) a ws = (0 :: u64) \<longleftrightarrow> a = 0 \<and> (\<forall>w \<in> set ws. w = 0)"
proof -
  have "x OR y = 0 \<longleftrightarrow> x = 0 \<and> y = 0" for x y :: u64 by (metis or_eq_0_iff)
  then show ?thesis by (induction ws arbitrary: a) auto
qed

lemma or_words: "or_words d i j = 0 \<longleftrightarrow> wval (take (j - i) (drop i d)) = 0"
  by (simp add: or_words_def or_fold wval_eq_0)

lemma fits_in_words:
  assumes "bn_ok b"
  shows "bn_fits_in_words b n \<longleftrightarrow> bn_abs b < 2 ^ (64 * n)"
proof (cases "n \<le> bn_width b")
  case True
  have v: "bn_abs b = wval (take n (bn_d b)) + 2 ^ (64 * n) * wval (take (bn_width b - n) (drop n (bn_d b)))"
    using wval_take [OF True, of "bn_d b"] assms by (simp add: bn_abs_def bn_ok_def)
  have "wval (take n (bn_d b)) < 2 ^ (64 * n)"
    using wval_less [of "take n (bn_d b)"] True assms by (simp add: bn_ok_def)
  then have "bn_abs b < 2 ^ (64 * n) \<longleftrightarrow> wval (take (bn_width b - n) (drop n (bn_d b))) = 0"
    unfolding v by (cases "wval (take (bn_width b - n) (drop n (bn_d b)))") simp_all
  then show ?thesis by (simp add: bn_fits_in_words_def or_words)
next
  case False
  then have "bn_abs b < 2 ^ (64 * n)"
    by (intro order_less_le_trans [OF bn_abs_less [OF assms]] power_increasing) simp_all
  then show ?thesis using False by (simp add: bn_fits_in_words_def or_words)
qed

lemma is_zero: "bn_ok b \<Longrightarrow> BN_is_zero b \<longleftrightarrow> bn_abs b = 0"
  using fits_in_words [of b 0] by (simp add: BN_is_zero_def)

section \<open>Addition and subtraction of absolute values\<close>

lemma borrow_loop:
  "unat c \<le> 1 \<Longrightarrow> borrow_loop c a = (r, c') \<Longrightarrow>
   length r = length a \<and> unat c' \<le> 1 \<and> wval r + unat c = wval a + 2 ^ (64 * length a) * unat c'"
proof (induction c a arbitrary: r c' rule: borrow_loop.induct)
  case (2 c x a)
  define r0 where "r0 = x - c"
  have s: "unat r0 + unat c = unat x + 2 ^ 64 * unat (of_bool (x < r0) :: u64)"
    using 2(2) unat64 [of x] by (auto simp: r0_def word_less_nat_alt unat_sub64)
  have "unat (of_bool (x < r0) :: u64) \<le> 1" by simp
  moreover obtain r1 where r1: "borrow_loop (of_bool (x < r0)) a = (r1, c')" "r = r0 # r1"
    using 2(3) by (auto simp: r0_def Let_def split: prod.splits)
  ultimately have IH: "length r1 = length a" "unat c' \<le> 1"
    "wval r1 + unat (of_bool (x < r0) :: u64) = wval a + 2 ^ (64 * length a) * unat c'"
    using 2(1) [OF r0_def refl, of r1 c'] by simp_all
  have "wval r + unat c = (unat r0 + unat c) + 2 ^ 64 * wval r1" by (simp add: r1(2))
  also have "\<dots> = unat x + 2 ^ 64 * (wval r1 + unat (of_bool (x < r0) :: u64))" unfolding s by (simp add: algebra_simps)
  also have "\<dots> = wval (x # a) + 2 ^ (64 * length (x # a)) * unat c'"
    unfolding IH(3) by (simp add: power_add algebra_simps)
  finally show ?case using IH(1,2) r1(2) by simp
qed simp

lemma put_result:
  assumes "bn_ok r" "n \<le> bn_dmax r" "length ws = n"
  shows "bn_ok (r\<lparr>bn_d := put_words (bn_d r) 0 ws, bn_width := n\<rparr>)"
    "bn_abs (r\<lparr>bn_d := put_words (bn_d r) 0 ws, bn_width := n\<rparr>) = wval ws"
  using bn_abs_put [of r ws] assms by (simp_all add: bn_ok_def)

lemma split_words:
  assumes "bn_ok a" "n \<le> bn_width a"
  shows "bn_abs a = wval (take n (bn_d a)) + 2 ^ (64 * n) * wval (take (bn_width a - n) (drop n (bn_d a)))"
    "length (take (bn_width a - n) (drop n (bn_d a))) = bn_width a - n"
  using wval_take [OF assms(2), of "bn_d a"] assms by (auto simp: bn_abs_def bn_ok_def)

lemma uadd_consttime:
  assumes "bn_ok r" "bn_ok a" "bn_ok b" "bn_uadd_consttime r a b alloc = (ok, r')"
  shows "bn_ok r' \<and> (ok \<longleftrightarrow> bn_room r (max (bn_width a) (bn_width b) + 1) alloc) \<and> bn_neg r' = bn_neg r \<and>
    (ok \<longrightarrow> bn_abs r' = bn_abs a + bn_abs b) \<and> (\<not> ok \<longrightarrow> r' = r)"
proof -
  have main: "bn_ok r' \<and> (ok \<longleftrightarrow> bn_room r (bn_width a + 1) alloc) \<and> bn_neg r' = bn_neg r \<and>
      (ok \<longrightarrow> bn_abs r' = bn_abs a + bn_abs b) \<and> (\<not> ok \<longrightarrow> r' = r)"
    if "bn_ok a" "bn_ok b" "bn_width b \<le> bn_width a" "bn_uadd_consttime r a b alloc = (ok, r')" for a b
  proof -
    let ?n = "bn_width b" and ?m = "bn_width a"
    obtain e r1 where w: "bn_wexpand r (?m + 1) alloc = (e, r1)" by fastforce
    note x = wexpand [OF assms(1) w]
    show ?thesis
    proof (cases e)
      case False
      then have "ok = False" "r' = r1" using that(3,4) w by (auto simp: bn_uadd_consttime_def)
      then show ?thesis using False x assms(1) by auto
    next
      case True
      obtain c lo where lo: "bn_add_words (bn_d a) (bn_d b) ?n = (c, lo)" by fastforce
      obtain hi c2 where hi: "carry_loop c (take (?m - ?n) (drop ?n (bn_d a))) = (hi, c2)" by fastforce
      have r': "ok" "r' = r1\<lparr>bn_d := put_words (bn_d r1) 0 (lo @ hi @ [c2]), bn_width := ?m + 1\<rparr>"
        using that(3,4) w True lo hi by (auto simp: bn_uadd_consttime_def Let_def)
      have n: "?n \<le> length (bn_d a)" "?n \<le> length (bn_d b)" using that(1-3) by (simp_all add: bn_ok_def)
      note l = bn_add_words [OF lo n]
      note s = split_words [OF that(1,3)]
      note h = carry_loop [OF hi, unfolded s(2)]
      have len: "length (lo @ hi @ [c2]) = ?m + 1" using l(1) h that(3) by simp
      have "wval (lo @ hi @ [c2]) = wval lo + 2 ^ (64 * ?n) * (wval hi + 2 ^ (64 * (?m - ?n)) * unat c2)"
        using l(1) h by (simp add: wval_append)
      also have "\<dots> = (wval lo + 2 ^ (64 * ?n) * unat c) + 2 ^ (64 * ?n) * wval (take (?m - ?n) (drop ?n (bn_d a)))"
        using h by (simp add: algebra_simps)
      also have "\<dots> = bn_abs a + bn_abs b"
        using l(3) s(1) by (simp add: bn_abs_def [of b])
      finally have v: "wval (lo @ hi @ [c2]) = bn_abs a + bn_abs b" .
      have "bn_neg r' = bn_neg r" using r' x(3) by simp
      then show ?thesis using put_result [OF x(1) x(7) [OF True] len] v r' True x(6) by simp
    qed
  qed
  show ?thesis
  proof (cases "bn_width a < bn_width b")
    case True
    then have "bn_uadd_consttime r a b alloc = bn_uadd_consttime r b a alloc" by (simp add: bn_uadd_consttime_def)
    then show ?thesis using main [OF assms(3,2), unfolded max_def] True assms(4) by (simp add: max_def add.commute)
  next
    case False
    then show ?thesis using main [OF assms(2,3) _ assms(4)] by (simp add: max_def)
  qed
qed

lemma usub_consttime:
  assumes "bn_ok r" "bn_ok a" "bn_ok b" "bn_usub_consttime r a b alloc = (ok, r')"
  shows "bn_ok r' \<and> (ok \<longleftrightarrow> bn_room r (bn_width a) alloc \<and> bn_abs b \<le> bn_abs a) \<and>
    (ok \<longrightarrow> bn_abs r' = bn_abs a - bn_abs b \<and> \<not> bn_neg r')"
proof (cases "bn_width b > bn_width a \<and> \<not> bn_fits_in_words b (bn_width a)")
  case True
  then have "bn_abs a < bn_abs b"
    using fits_in_words [OF assms(3), of "bn_width a"] bn_abs_less [OF assms(2)] by simp
  then show ?thesis using True assms by (simp add: bn_usub_consttime_def)
next
  case False
  define n where "n = (if bn_width b > bn_width a then bn_width a else bn_width b)"
  let ?m = "bn_width a"
  have n: "n \<le> ?m" "n \<le> length (bn_d a)" "n \<le> length (bn_d b)"
    using assms(2,3) by (auto simp: n_def bn_ok_def)
  have vb: "bn_abs b = wval (take n (bn_d b))"
  proof (cases "bn_width b > ?m")
    case True
    then have "bn_abs b < 2 ^ (64 * ?m)" using False fits_in_words [OF assms(3)] by simp
    moreover have "bn_abs b = wval (take ?m (bn_d b)) + 2 ^ (64 * ?m) * wval (take (bn_width b - ?m) (drop ?m (bn_d b)))"
      using split_words [OF assms(3), of ?m] True by simp
    ultimately show ?thesis using True by (cases "wval (take (bn_width b - ?m) (drop ?m (bn_d b)))") (simp_all add: n_def)
  qed (simp add: n_def bn_abs_def)
  obtain e r1 where w: "bn_wexpand r ?m alloc = (e, r1)" by fastforce
  note x = wexpand [OF assms(1) w]
  have u: "bn_usub_consttime r a b alloc =
      (if \<not> e then (False, r1)
       else case bn_sub_words (bn_d a) (bn_d b) n of
         (borrow, lo) \<Rightarrow> (case borrow_loop borrow (take (?m - n) (drop n (bn_d a))) of
            (hi, borrow) \<Rightarrow> (let r = r1\<lparr>bn_d := put_words (bn_d r1) 0 (lo @ hi)\<rparr>
               in if borrow \<noteq> 0 then (False, r) else (True, r\<lparr>bn_width := ?m, bn_neg := False\<rparr>))))"
    unfolding bn_usub_consttime_def if_not_P [OF False] n_def [symmetric] Let_def [of n] w by simp
  show ?thesis
  proof (cases e)
    case F: False
    then show ?thesis using u x assms(4) by auto
  next
    case True
    obtain c lo where lo: "bn_sub_words (bn_d a) (bn_d b) n = (c, lo)" by fastforce
    obtain hi c2 where hi: "borrow_loop c (take (?m - n) (drop n (bn_d a))) = (hi, c2)" by fastforce
    note l = bn_sub_words [OF lo n(2,3)]
    note s = split_words [OF assms(2) n(1)]
    note h = borrow_loop [OF l(2) hi, unfolded s(2)]
    have len: "length (lo @ hi) = ?m" using l(1) h n(1) by simp
    have p: "(2 :: nat) ^ (64 * ?m) = 2 ^ (64 * n) * 2 ^ (64 * (?m - n))"
      using n(1) by (simp add: power_add [symmetric] algebra_simps)
    have "wval (lo @ hi) + bn_abs b + 2 ^ (64 * n) * unat c = (wval lo + wval (take n (bn_d b))) + 2 ^ (64 * n) * (wval hi + unat c)"
      using l(1) vb by (simp add: wval_append algebra_simps)
    also have "\<dots> = bn_abs a + 2 ^ (64 * n) * unat c + 2 ^ (64 * ?m) * unat c2"
      using l(3) h s(1) p by (simp add: algebra_simps)
    finally have v: "wval (lo @ hi) + bn_abs b = bn_abs a + 2 ^ (64 * ?m) * unat c2" by simp
    have c2: "c2 = 0 \<longleftrightarrow> bn_abs b \<le> bn_abs a"
    proof
      assume "bn_abs b \<le> bn_abs a"
      moreover have "wval (lo @ hi) < 2 ^ (64 * ?m)" using wval_less [of "lo @ hi"] unfolding len .
      ultimately have "2 ^ (64 * ?m) * unat c2 < 2 ^ (64 * ?m)" using v by linarith
      then show "c2 = 0" by (simp add: unat_eq_0)
    qed (use v in simp)
    have r': "ok = (c2 = 0)" "r' = (if c2 = 0 then r1\<lparr>bn_d := put_words (bn_d r1) 0 (lo @ hi), bn_width := ?m, bn_neg := False\<rparr>
        else r1\<lparr>bn_d := put_words (bn_d r1) 0 (lo @ hi)\<rparr>)"
      using u True lo hi assms(4) by (auto simp: Let_def split: if_splits)
    have lr: "length (bn_d r1) = bn_dmax r1" "?m \<le> bn_dmax r1" "bn_width r1 \<le> bn_dmax r1"
      using x(1) x(7) [OF True] by (simp_all add: bn_ok_def)
    have ok': "bn_ok (r1\<lparr>bn_d := put_words (bn_d r1) 0 (lo @ hi)\<rparr>)"
      using lr len by (simp add: bn_ok_def)
    have "bn_abs (r1\<lparr>bn_d := put_words (bn_d r1) 0 (lo @ hi), bn_width := ?m, bn_neg := False\<rparr>) = wval (lo @ hi)"
      "bn_ok (r1\<lparr>bn_d := put_words (bn_d r1) 0 (lo @ hi), bn_width := ?m, bn_neg := False\<rparr>)"
      using put_result [OF x(1) lr(2) len]
        bn_abs_neg [where b = "r1\<lparr>bn_d := put_words (bn_d r1) 0 (lo @ hi), bn_width := ?m\<rparr>" and s = False] by simp_all
    then show ?thesis using r' ok' c2 v x(6) True by auto
  qed
qed

section \<open>Comparison\<close>

lemma ucast_minus1 [simp]: "ucast (-1 :: u64) = (-1 :: u32)"
  by (rule bit_word_eqI) (simp add: bit_simps)

lemma cmp_step: "cmp_step ret (x, y) = (if x = y then ret else if x < y then -1 else 1)"
  by (simp add: cmp_step_def eq_mask lt_mask constant_time_select_int_def ucast_scast)

lemma cmp_loop:
  "length xs = length ys \<Longrightarrow>
   foldl cmp_step r (zip xs ys) = (if wval xs = wval ys then r else if wval xs < wval ys then -1 else 1)"
proof (induction xs ys arbitrary: r rule: list_induct2)
  case (Cons x xs y ys)
  have lt: "unat x + 2 ^ 64 * wval xs < unat y + 2 ^ 64 * wval ys" if "wval xs < wval ys"
  proof -
    have "2 ^ 64 * Suc (wval xs) \<le> 2 ^ 64 * wval ys" using that by simp
    then show ?thesis using unat64 [of x] by simp
  qed
  have gt: "unat y + 2 ^ 64 * wval ys < unat x + 2 ^ 64 * wval xs" if "wval ys < wval xs"
  proof -
    have "2 ^ 64 * Suc (wval ys) \<le> 2 ^ 64 * wval xs" using that by simp
    then show ?thesis using unat64 [of y] by simp
  qed
  consider "wval xs = wval ys" | "wval xs < wval ys" | "wval ys < wval xs" by linarith
  then show ?case
  proof cases
    case 1
    then show ?thesis using Cons by (simp add: cmp_step word_less_nat_alt word_unat_eq_iff)
  next
    case 2
    then show ?thesis using Cons lt by simp
  next
    case 3
    then show ?thesis using Cons gt by simp
  qed
qed simp

lemma sgn_diff: "sgn (int x - int y) = (if x = y then 0 else if x < y then -1 else 1)"
  by (simp add: sgn_if)

lemma cmp_words:
  assumes "n \<le> length a" "m \<le> length b"
  shows "bn_cmp_words_consttime a n b m = sgn (int (wval (take n a)) - int (wval (take m b)))"
proof -
  define mn where "mn = (if n < m then n else m)"
  have mn: "mn \<le> n" "mn \<le> m" by (simp_all add: mn_def)
  let ?x = "wval (take mn a)" and ?y = "wval (take mn b)"
  let ?r = "if ?x = ?y then 0 else if ?x < ?y then -1 else 1 :: u32"
  have f: "foldl cmp_step 0 (zip (take mn a) (take mn b)) = ?r"
    using mn assms by (intro cmp_loop) simp
  have l: "wval (take mn a) < 2 ^ (64 * mn)" "wval (take mn b) < 2 ^ (64 * mn)"
    using wval_less [of "take mn a"] wval_less [of "take mn b"] mn assms by simp_all
  have va: "wval (take n a) = ?x + 2 ^ (64 * mn) * wval (take (n - mn) (drop mn a))"
    using wval_take [OF mn(1) assms(1)] .
  have vb: "wval (take m b) = ?y + 2 ^ (64 * mn) * wval (take (m - mn) (drop mn b))"
    using wval_take [OF mn(2) assms(2)] .
  have sel: "constant_time_select_int (constant_time_is_zero_w w) x y = (if w = 0 then x else y)" for w x y
    by (simp add: zero_mask constant_time_select_int_def ucast_scast)
  have less: "x < y + 2 ^ (64 * mn) * k" if "x < 2 ^ (64 * mn)" "k \<noteq> 0" for x y k :: nat
  proof -
    have "(2 :: nat) ^ (64 * mn) * 1 \<le> 2 ^ (64 * mn) * k" using that(2) by (intro mult_le_mono) simp_all
    then show ?thesis using that(1) by linarith
  qed
  consider (lt) "n < m" | (gt) "m < n" | (eq) "n = m" by linarith
  then show ?thesis
  proof cases
    case lt
    then have e: "mn = n" by (simp add: mn_def)
    note h = f [unfolded e] va [unfolded e] vb [unfolded e] l [unfolded e] less [OF l(1), unfolded e]
    have "bn_cmp_words_consttime a n b m = sint (if wval (take (m - n) (drop n b)) = 0 then foldl cmp_step 0 (zip (take n a) (take n b)) else -1)"
      using lt by (simp add: bn_cmp_words_consttime_def sel or_words)
    then show ?thesis using h(6) [where k = "wval (take (m - n) (drop n b))" and y = "wval (take n b)"] unfolding h(1,3)
      by (cases "wval (take (m - n) (drop n b)) = 0") (auto simp: sgn_diff simp del: of_nat_add of_nat_mult)
  next
    case gt
    then have e: "mn = m" by (simp add: mn_def)
    note h = f [unfolded e] va [unfolded e] vb [unfolded e] l [unfolded e] less [OF l(2), unfolded e]
    have "bn_cmp_words_consttime a n b m = sint (if wval (take (n - m) (drop m a)) = 0 then foldl cmp_step 0 (zip (take m a) (take m b)) else 1)"
      using gt by (simp add: bn_cmp_words_consttime_def sel or_words)
    then show ?thesis using h(6) [where k = "wval (take (n - m) (drop m a))" and y = "wval (take m a)"] unfolding h(1,2)
      by (cases "wval (take (n - m) (drop m a)) = 0") (auto simp: sgn_diff simp del: of_nat_add of_nat_mult)
  next
    case eq
    then show ?thesis using f by (auto simp: bn_cmp_words_consttime_def mn_def sgn_if)
  qed
qed

lemma ucmp: "bn_ok a \<Longrightarrow> bn_ok b \<Longrightarrow> BN_ucmp a b = sgn (int (bn_abs a) - int (bn_abs b))"
  by (simp add: BN_ucmp_def bn_ok_def cmp_words bn_abs_def)

section \<open>Signed addition and subtraction\<close>

definition bn_add_room :: "bignum \<Rightarrow> bignum \<Rightarrow> bignum \<Rightarrow> (nat \<Rightarrow> bool) \<Rightarrow> bool" where
  "bn_add_room r a b alloc \<longleftrightarrow> bn_room r (max (bn_width a) (bn_width b) + 1) alloc \<and>
     bn_room r (bn_width a) alloc \<and> bn_room r (bn_width b) alloc"

lemma minimal_zero:
  assumes "bn_ok b" "bn_minimal b"
  shows "bn_width b = 0 \<longleftrightarrow> bn_abs b = 0"
proof (cases "bn_width b = 0")
  case False
  then have "bn_d b ! (bn_width b - 1) \<in> set (take (bn_width b) (bn_d b))"
    using assms(1) by (auto simp: in_set_conv_nth bn_ok_def intro!: exI [of _ "bn_width b - 1"])
  then show ?thesis using False assms(2) by (auto simp: bn_abs_def wval_eq_0 bn_minimal_def)
qed (simp add: bn_abs_def)

lemma uadd:
  assumes "bn_ok r" "bn_ok a" "bn_ok b" "BN_uadd r a b alloc = (ok, r')"
  shows "bn_ok r' \<and> (bn_add_room r a b alloc \<longrightarrow> ok) \<and>
    (ok \<longrightarrow> bn_abs r' = bn_abs a + bn_abs b \<and> bn_minimal r' \<and> (bn_width r' = 0 \<longleftrightarrow> bn_abs r' = 0))"
proof -
  obtain e r1 where u: "bn_uadd_consttime r a b alloc = (e, r1)" by fastforce
  note c = uadd_consttime [OF assms(1-3) u]
  show ?thesis
  proof (cases e)
    case True
    then have r: "ok" "r' = bn_set_minimal_width r1" using assms(4) u by (simp_all add: BN_uadd_def)
    have "bn_ok r1" using c by simp
    note m = set_minimal [OF this]
    show ?thesis using c True r m(1-3) minimal_zero [OF m(1,3)] by simp
  next
    case False
    then show ?thesis using assms(4) u c by (auto simp: BN_uadd_def bn_add_room_def)
  qed
qed

lemma usub:
  assumes "bn_ok r" "bn_ok a" "bn_ok b" "BN_usub r a b alloc = (ok, r')"
  shows "bn_ok r' \<and> (ok \<longleftrightarrow> bn_room r (bn_width a) alloc \<and> bn_abs b \<le> bn_abs a) \<and>
    (ok \<longrightarrow> bn_abs r' = bn_abs a - bn_abs b \<and> bn_minimal r' \<and> \<not> bn_neg r' \<and> (bn_width r' = 0 \<longleftrightarrow> bn_abs r' = 0))"
proof -
  obtain e r1 where u: "bn_usub_consttime r a b alloc = (e, r1)" by fastforce
  note c = usub_consttime [OF assms(1-3) u]
  show ?thesis
  proof (cases e)
    case True
    then have r: "ok" "r' = bn_set_minimal_width r1" using assms(4) u by (simp_all add: BN_usub_def)
    have "bn_ok r1" using c by simp
    note m = set_minimal [OF this]
    have "\<not> bn_neg r'" using c True r by (auto simp: bn_set_minimal_width_def Let_def)
    then show ?thesis using c True r m(1-3) minimal_zero [OF m(1,3)] by simp
  next
    case False
    then show ?thesis using assms(4) u c by (auto simp: BN_usub_def)
  qed
qed

text \<open>What the signed operations give: the value, in minimal width and without a negative zero.\<close>

definition bn_result :: "int \<Rightarrow> bignum \<Rightarrow> bool" where
  "bn_result v r \<longleftrightarrow> bn_ok r \<and> bn_minimal r \<and> bn_int r = v"

lemma bn_minimal_neg:
  assumes "bn_ok r" "bn_minimal r" "bn_width r = 0 \<longrightarrow> \<not> s"
  shows "bn_result (if s then - int (bn_abs r) else int (bn_abs r)) (r\<lparr>bn_neg := s\<rparr>)"
  using assms by (auto simp: bn_result_def bn_minimal_def bn_int_def)

lemma signed_usub:
  assumes "bn_ok r" "bn_ok a" "bn_ok b" "signed_usub r a b alloc = (ok, r')"
  shows "bn_ok r' \<and> (bn_room r (bn_width a) alloc \<and> bn_room r (bn_width b) alloc \<longrightarrow> ok) \<and>
    (ok \<longrightarrow> bn_result (int (bn_abs a) - int (bn_abs b)) r')"
proof (cases "bn_abs a < bn_abs b")
  case True
  then have "BN_ucmp a b < 0" using ucmp [OF assms(2,3)] by (simp add: sgn_if)
  moreover obtain e r1 where u: "BN_usub r b a alloc = (e, r1)" by fastforce
  ultimately have r: "ok = e" "r' = (if e then r1\<lparr>bn_neg := True\<rparr> else r1)"
    using assms(4) by (auto simp: signed_usub_def split: bool.splits)
  show ?thesis
    using usub [OF assms(1,3,2) u] r True bn_minimal_neg [of r1 True] by auto
next
  case False
  then have "\<not> BN_ucmp a b < 0" using ucmp [OF assms(2,3)] by (simp add: sgn_if)
  moreover obtain e r1 where u: "BN_usub r a b alloc = (e, r1)" by fastforce
  ultimately have r: "ok = e" "r' = (if e then r1\<lparr>bn_neg := False\<rparr> else r1)"
    using assms(4) by (auto simp: signed_usub_def split: bool.splits)
  show ?thesis
    using usub [OF assms(1-3) u] r False bn_minimal_neg [of r1 False] by auto
qed

lemma bn_add:
  assumes "bn_ok r" "bn_ok a" "bn_ok b" "BN_is_zero a \<longrightarrow> \<not> bn_neg a" "BN_add r a b alloc = (ok, r')"
  shows "bn_ok r' \<and> (bn_add_room r a b alloc \<longrightarrow> ok) \<and> (ok \<longrightarrow> bn_result (bn_int a + bn_int b) r')"
proof (cases "bn_neg a = bn_neg b")
  case True
  obtain e r1 where u: "BN_uadd r a b alloc = (e, r1)" by fastforce
  note c = uadd [OF assms(1-3) u]
  have r: "ok = e" "r' = r1\<lparr>bn_neg := bn_neg a\<rparr>" using True u assms(5) by (auto simp: BN_add_def)
  have "bn_abs r1 = 0 \<longrightarrow> \<not> bn_neg a" if e using c that assms(4) is_zero [OF assms(2)] by auto
  then show ?thesis using c r True bn_minimal_neg [of r1 "bn_neg a"] by (auto simp: bn_int_def)
next
  case False
  show ?thesis
  proof (cases "bn_neg a")
    case n: True
    then have "signed_usub r b a alloc = (ok, r')" using False assms(5) by (simp add: BN_add_def)
    then show ?thesis using signed_usub [OF assms(1,3,2)] n False by (auto simp: bn_add_room_def bn_int_def)
  next
    case p: False
    then have "signed_usub r a b alloc = (ok, r')" using False assms(5) by (simp add: BN_add_def)
    then show ?thesis using signed_usub [OF assms(1-3)] p False by (auto simp: bn_add_room_def bn_int_def)
  qed
qed

lemma bn_sub:
  assumes "bn_ok r" "bn_ok a" "bn_ok b" "BN_is_zero a \<longrightarrow> \<not> bn_neg a" "BN_sub r a b alloc = (ok, r')"
  shows "bn_ok r' \<and> (bn_add_room r a b alloc \<longrightarrow> ok) \<and> (ok \<longrightarrow> bn_result (bn_int a - bn_int b) r')"
proof (cases "bn_neg a = bn_neg b")
  case False
  obtain e r1 where u: "BN_uadd r a b alloc = (e, r1)" by fastforce
  note c = uadd [OF assms(1-3) u]
  have r: "ok = e" "r' = (if e then r1\<lparr>bn_neg := bn_neg a\<rparr> else r1)"
    using False u assms(5) by (auto simp: BN_sub_def split: bool.splits)
  have "bn_abs r1 = 0 \<longrightarrow> \<not> bn_neg a" if e using c that assms(4) is_zero [OF assms(2)] by auto
  then show ?thesis using c r False bn_minimal_neg [of r1 "bn_neg a"] by (auto simp: bn_int_def)
next
  case True
  show ?thesis
  proof (cases "bn_neg a")
    case n: True
    then have "signed_usub r b a alloc = (ok, r')" using True assms(5) by (simp add: BN_sub_def)
    then show ?thesis using signed_usub [OF assms(1,3,2)] n True by (auto simp: bn_add_room_def bn_int_def)
  next
    case p: False
    then have "signed_usub r a b alloc = (ok, r')" using True assms(5) by (simp add: BN_sub_def)
    then show ?thesis using signed_usub [OF assms(1-3)] p True by (auto simp: bn_add_room_def bn_int_def)
  qed
qed

lemma bn_cmp:
  assumes "bn_ok a" "bn_ok b" "BN_is_zero a \<longrightarrow> \<not> bn_neg a" "BN_is_zero b \<longrightarrow> \<not> bn_neg b"
  shows "BN_cmp (Some a) (Some b) = sgn (bn_int a - bn_int b)"
proof -
  have "bn_neg a \<longrightarrow> bn_abs a \<noteq> 0" "bn_neg b \<longrightarrow> bn_abs b \<noteq> 0" using assms by (auto simp: is_zero)
  then show ?thesis using ucmp [OF assms(1,2)] by (auto simp: BN_cmp_def bn_int_def sgn_if)
qed

section \<open>Minimal width by the value\<close>

lemma minimal_iff:
  assumes "bn_ok b"
  shows "bn_minimal b \<longleftrightarrow> (bn_width b \<noteq> 0 \<longrightarrow> 2 ^ (64 * (bn_width b - 1)) \<le> bn_abs b) \<and> (bn_width b = 0 \<longrightarrow> \<not> bn_neg b)"
proof (cases "bn_width b = 0")
  case False
  define n where "n = bn_width b - 1"
  have n: "bn_width b = Suc n" "Suc n \<le> length (bn_d b)" using False assms by (simp_all add: n_def bn_ok_def)
  have v: "bn_abs b = wval (take n (bn_d b)) + 2 ^ (64 * n) * unat (bn_d b ! n)"
    using n by (simp add: bn_abs_def take_Suc_conv_app_nth wval_append)
  have l: "wval (take n (bn_d b)) < 2 ^ (64 * n)" using wval_less [of "take n (bn_d b)"] n(2) by simp
  have "bn_d b ! n = 0 \<longleftrightarrow> bn_abs b < 2 ^ (64 * n)"
  proof
    assume "bn_abs b < 2 ^ (64 * n)"
    then have "2 ^ (64 * n) * unat (bn_d b ! n) < 2 ^ (64 * n) * 1" unfolding v by linarith
    then have "unat (bn_d b ! n) < 1" by (rule mult_less_cancel1 [THEN iffD1, THEN conjunct2])
    then show "bn_d b ! n = 0" by (simp add: unat_eq_0)
  next
    assume "bn_d b ! n = 0"
    then have "bn_abs b = wval (take n (bn_d b))" unfolding v by simp
    then show "bn_abs b < 2 ^ (64 * n)" using l by simp
  qed
  then show ?thesis unfolding bn_minimal_def n(1) by (simp add: not_less)
qed (simp add: bn_minimal_def)

section \<open>Operations with a word\<close>

lemma add_word_loop:
  "add_word_loop a w = (r, w') \<Longrightarrow> length r = length a \<and> wval r + 2 ^ (64 * length a) * unat w' = wval a + unat w"
proof (induction a w arbitrary: r w' rule: add_word_loop.induct)
  case (2 x a w)
  show ?case
  proof (cases "w = 0")
    case False
    define c :: u64 where "c = (if w > x + w then 1 else 0)"
    have s: "unat (x + w) + 2 ^ 64 * unat c = unat x + unat w"
      using unat64 [of x] unat64 [of w] by (auto simp: c_def word_less_nat_alt unat_add64)
    obtain r1 where r1: "add_word_loop a c = (r1, w')" "r = (x + w) # r1"
      using 2(2) False by (auto simp: c_def Let_def split: prod.splits)
    have IH: "length r1 = length a" "wval r1 + 2 ^ (64 * length a) * unat w' = wval a + unat c"
      using 2(1) [OF False refl c_def, of r1 w'] r1(1) by simp_all
    have "wval r + 2 ^ (64 * length (x # a)) * unat w' = unat (x + w) + 2 ^ 64 * (wval r1 + 2 ^ (64 * length a) * unat w')"
      by (simp add: r1(2) power_add algebra_simps)
    also have "\<dots> = (unat (x + w) + 2 ^ 64 * unat c) + 2 ^ 64 * wval a" unfolding IH(2) by (simp add: algebra_simps)
    finally show ?thesis using s IH(1) r1(2) by simp
  qed (use 2(2) in auto)
qed simp

lemma sub_word_loop:
  "unat w \<le> wval a \<Longrightarrow> a \<noteq> [] \<Longrightarrow>
   \<exists>r i. sub_word_loop a w = Some (r, i) \<and> length r = length a \<and> wval r + unat w = wval a \<and> i < length a \<and>
     (\<forall>j. i < j \<longrightarrow> j < length a \<longrightarrow> r ! j = a ! j)"
proof (induction a arbitrary: w)
  case (Cons x a)
  show ?case
  proof (cases "x \<ge> w")
    case True
    then have "unat (x - w) + unat w = unat x" by (simp add: word_le_nat_alt unat_sub)
    then show ?thesis using True by simp
  next
    case False
    then have xw: "unat x < unat w" by (simp add: word_le_nat_alt)
    have "wval a \<noteq> 0" using Cons.prems(1) xw by (auto simp: not_le [symmetric])
    then have "unat (1 :: u64) \<le> wval a" "a \<noteq> []" by auto
    from Cons.IH [OF this] obtain r i where r: "sub_word_loop a 1 = Some (r, i)" "length r = length a"
      "wval r + unat (1 :: u64) = wval a" "i < length a" "\<And>j. i < j \<Longrightarrow> j < length a \<Longrightarrow> r ! j = a ! j" by metis
    have u: "unat (x - w) + unat w = unat x + 2 ^ 64" using xw unat64 [of w] by (simp add: unat_sub64)
    have "wval ((x - w) # r) + unat w = (unat (x - w) + unat w) + 2 ^ 64 * wval r" by simp
    also have "\<dots> = wval (x # a)" unfolding u wval_simps r(3) [symmetric] by (simp add: distrib_left)
    finally have "wval ((x - w) # r) + unat w = wval (x # a)" .
    moreover have "((x - w) # r) ! j = (x # a) ! j" if "i + 1 < j" "j < length (x # a)" for j
      using r(5) [of "j - 1"] that by (cases j) simp_all
    ultimately show ?thesis using False r(1,2,4) by (intro exI [of _ "(x - w) # r"] exI [of _ "i + 1"]) auto
  qed
qed simp

text \<open>A word behind the valid ones, where there is room for it.\<close>

lemma push_word:
  assumes "bn_ok b" "bn_width b < bn_dmax b"
  shows "bn_ok (b\<lparr>bn_d := (bn_d b)[bn_width b := w], bn_width := bn_width b + 1\<rparr>)"
    "bn_abs (b\<lparr>bn_d := (bn_d b)[bn_width b := w], bn_width := bn_width b + 1\<rparr>) = bn_abs b + 2 ^ (64 * bn_width b) * unat w"
proof -
  have "take (Suc (bn_width b)) ((bn_d b)[bn_width b := w]) = take (bn_width b) (bn_d b) @ [w]"
    using assms by (simp add: take_Suc_conv_app_nth bn_ok_def)
  then show "bn_abs (b\<lparr>bn_d := (bn_d b)[bn_width b := w], bn_width := bn_width b + 1\<rparr>) = bn_abs b + 2 ^ (64 * bn_width b) * unat w"
    using assms by (simp add: bn_abs_def wval_append bn_ok_def)
qed (use assms in \<open>simp add: bn_ok_def\<close>)

lemma put_same_width:
  assumes "bn_ok b" "length ws = bn_width b"
  shows "bn_ok (b\<lparr>bn_d := put_words (bn_d b) 0 ws\<rparr>)" "bn_abs (b\<lparr>bn_d := put_words (bn_d b) 0 ws\<rparr>) = wval ws"
proof -
  have "b\<lparr>bn_d := put_words (bn_d b) 0 ws, bn_width := bn_width b\<rparr> = b\<lparr>bn_d := put_words (bn_d b) 0 ws\<rparr>" by simp
  then show "bn_ok (b\<lparr>bn_d := put_words (bn_d b) 0 ws\<rparr>)" "bn_abs (b\<lparr>bn_d := put_words (bn_d b) 0 ws\<rparr>) = wval ws"
    using put_result [OF assms(1) _ assms(2)] assms(1) by (simp_all add: bn_ok_def)
qed

lemma push_nonzero:
  assumes "bn_ok b" "length ws = bn_width b" "push_nonzero b ws w alloc = (ok, r)"
  shows "bn_ok r" "bn_room b (bn_width b + 1) alloc \<Longrightarrow> ok" "bn_neg r = bn_neg b"
    "ok \<Longrightarrow> bn_abs r = wval ws + 2 ^ (64 * bn_width b) * unat w"
    "ok \<Longrightarrow> bn_width r = (if w = 0 then bn_width b else bn_width b + 1)"
proof -
  define b1 where "b1 = b\<lparr>bn_d := put_words (bn_d b) 0 ws\<rparr>"
  note p = put_same_width [OF assms(1,2), folded b1_def]
  have f: "bn_width b1 = bn_width b" "bn_neg b1 = bn_neg b" "bn_dmax b1 = bn_dmax b" "bn_flags b1 = bn_flags b"
    by (simp_all add: b1_def)
  have "bn_ok r \<and> (bn_room b (bn_width b + 1) alloc \<longrightarrow> ok) \<and> bn_neg r = bn_neg b \<and>
    (ok \<longrightarrow> bn_abs r = wval ws + 2 ^ (64 * bn_width b) * unat w \<and> bn_width r = (if w = 0 then bn_width b else bn_width b + 1))"
  proof (cases "w = 0")
    case True
    then show ?thesis using assms(3) p f by (auto simp: push_nonzero_def b1_def)
  next
    case False
    obtain e b2 where e: "bn_wexpand b1 (bn_width b1 + 1) alloc = (e, b2)" by fastforce
    note x = wexpand [OF p(1) e]
    have r: "ok = e" "r = (if e then b2\<lparr>bn_d := (bn_d b2)[bn_width b2 := w], bn_width := bn_width b2 + 1\<rparr> else b2)"
      using assms(3) False e by (auto simp: push_nonzero_def b1_def Let_def split: bool.splits)
    have a: "bn_abs b2 = wval ws" using x(2,5) p(2) by (simp add: bn_abs_def)
    have "bn_room b (bn_width b + 1) alloc \<longleftrightarrow> e" using x(6) f by (simp add: bn_room_def)
    then show ?thesis using push_word [OF x(1), of w] x(1,2,3,7) r a f False by (cases e) auto
  qed
  then show "bn_ok r" "bn_room b (bn_width b + 1) alloc \<Longrightarrow> ok" "bn_neg r = bn_neg b"
    "ok \<Longrightarrow> bn_abs r = wval ws + 2 ^ (64 * bn_width b) * unat w"
    "ok \<Longrightarrow> bn_width r = (if w = 0 then bn_width b else bn_width b + 1)" by simp_all
qed

lemma push_minimal:
  assumes "bn_ok b" "length ws = bn_width b" "push_nonzero b ws w alloc = (ok, r)" "ok" "bn_minimal b"
    and "bn_width b \<noteq> 0 \<Longrightarrow> bn_abs b \<le> wval ws + 2 ^ (64 * bn_width b) * unat w"
  shows "bn_minimal r"
proof (cases "w = 0")
  case True
  then show ?thesis using push_nonzero [OF assms(1-3)] assms(4-6) minimal_iff [OF assms(1)] minimal_iff [of r] by auto
next
  case False
  then have "2 ^ (64 * bn_width b) * 1 \<le> 2 ^ (64 * bn_width b) * unat w" by (intro mult_le_mono) (simp_all add: unat_gt_0 Suc_leI)
  then have "2 ^ (64 * bn_width b) \<le> wval ws + 2 ^ (64 * bn_width b) * unat w" unfolding mult_1_right by (rule trans_le_add2)
  then show ?thesis using False push_nonzero [OF assms(1-3)] assms(4) minimal_iff [of r] by simp
qed

text \<open>Room for one more word and for a first one.\<close>

definition bn_word_room :: "bignum \<Rightarrow> (nat \<Rightarrow> bool) \<Rightarrow> bool" where
  "bn_word_room a alloc \<longleftrightarrow> bn_room a (bn_width a + 1) alloc \<and> bn_room a 1 alloc"

lemma words_length: "bn_ok a \<Longrightarrow> length (take (bn_width a) (bn_d a)) = bn_width a"
  by (simp add: bn_ok_def)

lemma add_word_abs:
  assumes "bn_ok a" "add_word_abs a w alloc = (ok, r)"
  shows "bn_ok r" "bn_room a (bn_width a + 1) alloc \<Longrightarrow> ok" "bn_neg r = bn_neg a" "ok \<Longrightarrow> bn_abs r = bn_abs a + unat w"
    "ok \<Longrightarrow> bn_minimal a \<Longrightarrow> bn_minimal r"
proof -
  obtain ws c where l: "add_word_loop (take (bn_width a) (bn_d a)) w = (ws, c)" by fastforce
  have p: "push_nonzero a ws c alloc = (ok, r)" using assms(2) l by (simp add: add_word_abs_def)
  have v: "length ws = bn_width a" "wval ws + 2 ^ (64 * bn_width a) * unat c = bn_abs a + unat w"
    using add_word_loop [OF l] unfolding words_length [OF assms(1)] by (simp_all add: bn_abs_def)
  note q = push_nonzero [OF assms(1) v(1) p]
  show "bn_ok r" "bn_room a (bn_width a + 1) alloc \<Longrightarrow> ok" "bn_neg r = bn_neg a" by (rule q; assumption)+
  show "bn_abs r = bn_abs a + unat w" if ok using q(4) [OF that] unfolding v(2) .
  show "bn_minimal r" if ok "bn_minimal a" by (rule push_minimal [OF assms(1) v(1) p that]) (simp add: v(2))
qed

lemma sub_word_neg:
  assumes "bn_ok a" "bn_minimal_width a = 1" "bn_d a ! 0 < w"
  shows "sub_word_abs a w = Some (True, a\<lparr>bn_d := (bn_d a)[0 := w - bn_d a ! 0], bn_neg := True\<rparr>)"
    "bn_abs (a\<lparr>bn_d := (bn_d a)[0 := w - bn_d a ! 0], bn_neg := True\<rparr>) + bn_abs a = unat w"
    "bn_abs a < unat w" "bn_width a \<noteq> 0"
proof -
  have m: "wval (take 1 (bn_d a)) = bn_abs a" "1 \<le> bn_width a"
    using minimal_loop [of "bn_width a" "bn_d a"] assms(1,2) by (simp_all add: bn_abs_def bn_minimal_width_def bn_ok_def)
  then obtain x xs where d: "take (bn_width a) (bn_d a) = x # xs" "bn_d a ! 0 = x" "bn_d a = x # drop 1 (bn_d a)"
    using assms(1) by (cases "bn_d a"; cases "bn_width a") (auto simp: bn_ok_def)
  have a: "bn_abs a = unat x" using m(1) by (subst (asm) d(3)) simp
  then have xs: "wval xs = 0" using d(1) by (simp add: bn_abs_def)
  have "take (bn_width a) ((bn_d a)[0 := w - x]) = (w - x) # xs" using d(1) by (simp add: take_update_swap)
  then have "bn_abs (a\<lparr>bn_d := (bn_d a)[0 := w - x], bn_neg := True\<rparr>) = unat (w - x)" by (simp add: bn_abs_def xs)
  then show "bn_abs (a\<lparr>bn_d := (bn_d a)[0 := w - bn_d a ! 0], bn_neg := True\<rparr>) + bn_abs a = unat w"
    using assms(3) d(2) a by (simp add: word_less_nat_alt unat_sub64)
  show "bn_abs a < unat w" using a assms(3) d(2) by (simp add: word_less_nat_alt)
  show "bn_width a \<noteq> 0" using m(2) by simp
qed (use assms in \<open>simp add: sub_word_abs_def\<close>)

lemma sub_word_pos:
  assumes "bn_ok a" "bn_abs a \<noteq> 0" "\<not> (bn_minimal_width a = 1 \<and> bn_d a ! 0 < w)"
  shows "unat w \<le> bn_abs a"
proof -
  define m where "m = bn_minimal_width a"
  have l: "m \<le> bn_width a" "wval (take m (bn_d a)) = bn_abs a" "m \<noteq> 0 \<longrightarrow> bn_d a ! (m - 1) \<noteq> 0"
    using minimal_loop [of "bn_width a" "bn_d a"] assms(1) by (simp_all add: bn_abs_def m_def bn_minimal_width_def bn_ok_def)
  have "m \<noteq> 0" using l(2) assms(2) by (cases m) auto
  then obtain k where k: "m = Suc k" by (cases m) auto
  have len: "k < length (bn_d a)" using l(1) k assms(1) by (simp add: bn_ok_def)
  have v: "bn_abs a = wval (take k (bn_d a)) + 2 ^ (64 * k) * unat (bn_d a ! k)"
    using l(2) len by (simp add: k take_Suc_conv_app_nth wval_append)
  show ?thesis
  proof (cases k)
    case 0
    then show ?thesis using assms(3) v k by (simp add: m_def [symmetric] word_less_nat_alt)
  next
    case (Suc j)
    have "(2 :: nat) ^ 64 \<le> 2 ^ (64 * k)" using Suc by (intro power_increasing) simp_all
    also have "\<dots> * 1 \<le> 2 ^ (64 * k) * unat (bn_d a ! k)"
      using l(3) k by (intro mult_le_mono) (simp_all add: unat_gt_0 Suc_leI)
    finally show ?thesis using unat64 [of w] unfolding v by simp
  qed
qed

lemma power_gap: "n \<ge> 2 \<Longrightarrow> (2 :: nat) ^ (64 * (n - 2)) + 2 ^ 64 \<le> 2 ^ (64 * (n - 1)) + 1"
proof -
  assume "n \<ge> 2"
  then obtain k where n: "n = k + 2" using le_Suc_ex by (metis add.commute)
  have "x + 2 ^ 64 \<le> x * 2 ^ 64 + 1" if "1 \<le> x" for x :: nat using that by simp
  from this [of "2 ^ (64 * k)"] show ?thesis by (simp add: n power_add)
qed

lemma drop_width:
  assumes "bn_ok b" "bn_width b = Suc i" "bn_d b ! i = 0"
  shows "bn_ok (b\<lparr>bn_width := i\<rparr>)" "bn_abs (b\<lparr>bn_width := i\<rparr>) = bn_abs b"
  using assms by (simp_all add: bn_ok_def bn_abs_def take_Suc_conv_app_nth wval_append)

lemma sub_word_abs:
  assumes "bn_ok a" "bn_abs a \<noteq> 0" "\<not> bn_neg a"
  shows "\<exists>r. sub_word_abs a w = Some (True, r) \<and> bn_ok r \<and> bn_int r = int (bn_abs a) - int (unat w) \<and>
    (bn_minimal a \<longrightarrow> bn_minimal r)"
proof (cases "bn_minimal_width a = 1 \<and> bn_d a ! 0 < w")
  case True
  note n = sub_word_neg [OF assms(1) conjunct1 [OF True] conjunct2 [OF True]]
  let ?r = "a\<lparr>bn_d := (bn_d a)[0 := w - bn_d a ! 0], bn_neg := True\<rparr>"
  have ok: "bn_ok ?r" using assms(1) by (simp add: bn_ok_def)
  have "bn_minimal ?r" if "bn_minimal a"
  proof -
    have "bn_width a = 1"
    proof (rule ccontr)
      assume "bn_width a \<noteq> 1"
      then obtain k where k: "bn_width a = Suc (Suc k)" using n(4) by (cases "bn_width a"; cases "bn_width a - 1") auto
      then have "bn_minimal_width a = bn_width a" using that by (simp add: bn_minimal_def bn_minimal_width_def)
      then show False using True k by simp
    qed
    moreover have "w - bn_d a ! 0 \<noteq> 0" using True by auto
    moreover have "bn_d a \<noteq> []" using assms(1) n(4) by (auto simp: bn_ok_def)
    ultimately show ?thesis by (simp add: bn_minimal_def)
  qed
  moreover have "bn_int ?r = int (bn_abs a) - int (unat w)" using n(2) by (simp add: bn_int_def del: bn_abs_neg of_nat_unat)
  ultimately show ?thesis using n(1) ok by blast
next
  case False
  note le = sub_word_pos [OF assms(1,2) False]
  let ?ws = "take (bn_width a) (bn_d a)"
  have "?ws \<noteq> []" using assms(2) unfolding bn_abs_def by (metis wval_simps(1))
  moreover have "unat w \<le> wval ?ws" using le by (simp add: bn_abs_def)
  ultimately obtain ws i where l: "sub_word_loop ?ws w = Some (ws, i)" "length ws = length ?ws" "wval ws + unat w = wval ?ws"
    "i < length ?ws" "\<And>j. i < j \<Longrightarrow> j < length ?ws \<Longrightarrow> ws ! j = ?ws ! j" using sub_word_loop [of w ?ws] by metis
  note len = words_length [OF assms(1)]
  define b where "b = a\<lparr>bn_d := put_words (bn_d a) 0 ws\<rparr>"
  have b: "bn_ok b" "bn_abs b = wval ws" "bn_width b = bn_width a" "bn_neg b = bn_neg a"
    using put_same_width [OF assms(1), of ws] l(2) len by (simp_all add: b_def)
  have v: "bn_abs b + unat w = bn_abs a" using b(2) l(3) by (simp add: bn_abs_def)
  have dj: "bn_d b ! j = ws ! j" if "j < bn_width a" for j
    using that l(2) len by (simp add: b_def put_words_def nth_append)
  define r where "r = (if bn_d b ! i = 0 \<and> i = bn_width b - 1 then b\<lparr>bn_width := bn_width b - 1\<rparr> else b)"
  have s: "sub_word_abs a w = Some (True, r)"
    unfolding sub_word_abs_def if_not_P [OF False] l(1) option.simps prod.simps Let_def r_def b_def by simp
  have i: "i < bn_width a" using l(4) len by simp
  have r: "bn_ok r \<and> bn_abs r = bn_abs b \<and> bn_neg r = bn_neg b"
    using drop_width [OF b(1), of i] b(1,3) i by (auto simp: r_def)
  have "bn_minimal r" if m: "bn_minimal a"
  proof (cases "bn_d b ! i = 0 \<and> i = bn_width b - 1")
    case True
    show ?thesis
    proof (cases "bn_width a \<ge> 2")
      case w2: True
      have "2 ^ (64 * (bn_width a - 1)) \<le> bn_abs a" using minimal_iff [OF assms(1)] m w2 by simp
      then have "2 ^ (64 * (bn_width a - 2)) \<le> bn_abs r" using power_gap [OF w2] v r unat64 [of w] by linarith
      moreover have "bn_width r = bn_width a - 1" "bn_width a - 1 \<noteq> 0" using True b(3) w2 unfolding r_def if_P [OF True] by simp_all
      moreover have "bn_width a - 1 - 1 = bn_width a - 2" using w2 by simp
      ultimately show ?thesis using minimal_iff [of r] r by simp
    next
      case False
      then show ?thesis using True b(3,4) assms(3) i by (simp add: r_def bn_minimal_def)
    qed
  next
    case F: False
    have "bn_d b ! (bn_width a - 1) \<noteq> 0"
    proof (cases "i = bn_width a - 1")
      case False
      then have "ws ! (bn_width a - 1) = bn_d a ! (bn_width a - 1)" using l(5) [of "bn_width a - 1"] i len by simp
      then show ?thesis using dj [of "bn_width a - 1"] m i by (simp add: bn_minimal_def)
    qed (use F b(3) in simp)
    then show ?thesis using i b(3) unfolding r_def if_not_P [OF F] by (simp add: bn_minimal_def)
  qed
  moreover have "bn_int r = int (bn_abs a) - int (unat w)" using r b(4) assms(3) v by (simp add: bn_int_def del: of_nat_unat)
  ultimately show ?thesis using s r by blast
qed

section \<open>Signed operations with a word\<close>

lemma set_word:
  assumes "bn_ok a" "BN_set_word a w alloc = (ok, r)"
  shows "bn_ok r \<and> (bn_room a 1 alloc \<longrightarrow> ok) \<and> (ok \<longrightarrow> bn_abs r = unat w \<and> bn_minimal r \<and> \<not> bn_neg r)"
proof (cases "w = 0")
  case True
  then show ?thesis using assms by (auto simp: BN_set_word_def BN_zero_def bn_ok_def bn_abs_def bn_minimal_def)
next
  case False
  obtain e b where e: "bn_wexpand a 1 alloc = (e, b)" by fastforce
  note x = wexpand [OF assms(1) e]
  show ?thesis
  proof (cases e)
    case True
    then obtain y d where d: "bn_d b = y # d" using x(1,7) by (cases "bn_d b") (auto simp: bn_ok_def)
    have "ok" "r = b\<lparr>bn_neg := False, bn_d := (bn_d b)[0 := w], bn_width := 1\<rparr>"
      using assms(2) False True e by (simp_all add: BN_set_word_def)
    then show ?thesis using x(1,7) [unfolded bn_ok_def] True False d by (simp add: bn_ok_def bn_abs_def bn_minimal_def)
  next
    case F: False
    then have "\<not> ok" "r = b" using assms(2) False e by (simp_all add: BN_set_word_def)
    then show ?thesis using x F by simp
  qed
qed

lemma set_word_int:
  assumes "bn_ok a" "BN_set_word a w alloc = (ok, r)"
  shows "bn_ok r" "bn_room a 1 alloc \<Longrightarrow> ok" "ok \<Longrightarrow> bn_result (int (unat w)) r"
    "ok \<Longrightarrow> bn_result (- int (unat w)) (BN_set_negative r True)"
  using set_word [OF assms] is_zero [of r] minimal_zero [of r]
  by (auto simp: bn_result_def bn_int_def BN_set_negative_def bn_minimal_def simp del: of_nat_unat)

lemma bn_add_word:
  assumes "bn_ok a"
  shows "\<exists>ok r. BN_add_word a w alloc = Some (ok, r) \<and> bn_ok r \<and> (bn_word_room a alloc \<longrightarrow> ok) \<and>
    (ok \<longrightarrow> bn_int r = bn_int a + int (unat w) \<and> (bn_minimal a \<longrightarrow> bn_minimal r))"
proof -
  consider "w = 0" | (zero) "w \<noteq> 0" "BN_is_zero a" | (neg) "w \<noteq> 0" "\<not> BN_is_zero a" "bn_neg a"
    | (pos) "w \<noteq> 0" "\<not> BN_is_zero a" "\<not> bn_neg a" by blast
  then show ?thesis
  proof cases
    case 1
    then show ?thesis using assms by (auto simp: BN_add_word_def)
  next
    case zero
    obtain ok r where s: "BN_set_word a w alloc = (ok, r)" by fastforce
    have "bn_int a = 0" using zero is_zero [OF assms] by (simp add: bn_int_def)
    then show ?thesis using zero s set_word_int [OF assms s]
      by (auto simp: BN_add_word_def bn_word_room_def bn_result_def)
  next
    case pos
    obtain ok r where s: "add_word_abs a w alloc = (ok, r)" by fastforce
    then show ?thesis using pos add_word_abs [OF assms s]
      by (auto simp: BN_add_word_def bn_word_room_def bn_int_def)
  next
    case neg
    let ?a = "a\<lparr>bn_neg := False\<rparr>"
    have a: "bn_ok ?a" "bn_abs ?a \<noteq> 0" "bn_abs ?a = bn_abs a" "\<not> bn_neg ?a" using assms neg is_zero [OF assms] by simp_all
    obtain r where r: "sub_word_abs ?a w = Some (True, r)" "bn_ok r" "bn_int r = int (bn_abs a) - int (unat w)"
      "bn_minimal ?a \<longrightarrow> bn_minimal r" using sub_word_abs [OF a(1,2,4), of w] a(3) by auto
    define r' where "r' = (if \<not> BN_is_zero r then r\<lparr>bn_neg := \<not> bn_neg r\<rparr> else r)"
    have "BN_add_word a w alloc = Some (True, r')" using neg r(1) by (simp add: BN_add_word_def r'_def)
    moreover have "bn_ok r'" using r(2) by (simp add: r'_def)
    moreover have "bn_int r' = bn_int a + int (unat w)"
      using r(3) neg is_zero [OF r(2)] by (auto simp: r'_def bn_int_def simp del: of_nat_unat split: if_splits)
    moreover have "bn_minimal r'" if "bn_minimal a"
    proof -
      have "bn_minimal ?a" using that by (simp add: bn_minimal_def)
      then have m: "bn_minimal r" using r(4) by simp
      show ?thesis using m minimal_zero [OF r(2) m] is_zero [OF r(2)] by (auto simp: r'_def bn_minimal_def)
    qed
    ultimately show ?thesis by auto
  qed
qed

lemma bn_sub_word:
  assumes "bn_ok a"
  shows "\<exists>ok r. BN_sub_word a w alloc = Some (ok, r) \<and> bn_ok r \<and> (bn_word_room a alloc \<longrightarrow> ok) \<and>
    (ok \<longrightarrow> bn_int r = bn_int a - int (unat w) \<and> (bn_minimal a \<longrightarrow> bn_minimal r))"
proof -
  consider "w = 0" | (zero) "w \<noteq> 0" "BN_is_zero a" | (neg) "w \<noteq> 0" "\<not> BN_is_zero a" "bn_neg a"
    | (pos) "w \<noteq> 0" "\<not> BN_is_zero a" "\<not> bn_neg a" by blast
  then show ?thesis
  proof cases
    case 1
    then show ?thesis using assms by (auto simp: BN_sub_word_def)
  next
    case zero
    obtain ok r where s: "BN_set_word a w alloc = (ok, r)" by fastforce
    have "bn_int a = 0" using zero is_zero [OF assms] by (simp add: bn_int_def)
    then show ?thesis using zero s set_word_int [OF assms s]
      by (cases ok) (auto simp: BN_sub_word_def bn_word_room_def bn_result_def)
  next
    case pos
    have "bn_abs a \<noteq> 0" using pos is_zero [OF assms] by simp
    from sub_word_abs [OF assms this pos(3), of w] show ?thesis using pos
      by (auto simp: BN_sub_word_def bn_int_def [of a])
  next
    case neg
    let ?a = "a\<lparr>bn_neg := False\<rparr>"
    have a: "bn_ok ?a" "bn_abs ?a = bn_abs a" using assms by simp_all
    obtain ok r where s: "add_word_abs ?a w alloc = (ok, r)" by fastforce
    note q = add_word_abs [OF a(1) s]
    have m: "bn_minimal (r\<lparr>bn_neg := True\<rparr>)" if "bn_minimal a" "ok"
    proof -
      have mr: "bn_minimal r" using q(5) [OF that(2)] that(1) by (simp add: bn_minimal_def)
      have "bn_abs r \<noteq> 0" using q(4) [OF that(2)] neg(1) by (simp add: unat_eq_0)
      then show ?thesis using mr minimal_zero [OF q(1) mr] by (simp add: bn_minimal_def)
    qed
    have "BN_sub_word a w alloc = Some (ok, r\<lparr>bn_neg := True\<rparr>)" using neg s by (simp add: BN_sub_word_def)
    moreover have "bn_room ?a n alloc = bn_room a n alloc" for n by (simp add: bn_room_def)
    ultimately show ?thesis using q neg m
      by (intro exI [of _ ok] exI [of _ "r\<lparr>bn_neg := True\<rparr>"]) (simp add: bn_word_room_def bn_int_def)
  qed
qed

lemma bn_mul_word:
  assumes "bn_ok a" "BN_mul_word a w alloc = (ok, r)"
  shows "bn_ok r \<and> (bn_word_room a alloc \<longrightarrow> ok) \<and> (ok \<longrightarrow> bn_int r = bn_int a * int (unat w) \<and> (bn_minimal a \<longrightarrow> bn_minimal r))"
proof -
  consider "bn_width a = 0" | "bn_width a \<noteq> 0" "w = 0" | (mul) "bn_width a \<noteq> 0" "w \<noteq> 0" by blast
  then show ?thesis
  proof cases
    case 1
    then show ?thesis using assms by (auto simp: BN_mul_word_def bn_int_def bn_abs_def)
  next
    case 2
    then show ?thesis using assms by (auto simp: BN_mul_word_def bn_int_def bn_abs_def BN_zero_def bn_ok_def bn_minimal_def)
  next
    case mul
    obtain ll ws where l: "bn_mul_words (bn_d a) (bn_width a) w = (ll, ws)" by fastforce
    have p: "push_nonzero a ws ll alloc = (ok, r)" using assms(2) l mul by (simp add: BN_mul_word_def)
    have "bn_width a \<le> length (bn_d a)" using assms(1) by (simp add: bn_ok_def)
    note v = bn_mul_words [OF l this]
    have v2: "wval ws + 2 ^ (64 * bn_width a) * unat ll = unat w * bn_abs a" using v(2) by (simp add: bn_abs_def)
    note q = push_nonzero [OF assms(1) v(1) p]
    have "bn_abs a \<le> unat w * bn_abs a" using mul(2) by (cases "unat w") (simp_all add: unat_eq_0)
    then have "bn_minimal r" if ok "bn_minimal a" by (intro push_minimal [OF assms(1) v(1) p that]) (simp add: v2)
    moreover have "int (bn_abs r) = int (bn_abs a) * int (unat w)" if ok
      using q(4) [OF that] unfolding v2 by (simp del: of_nat_unat)
    ultimately show ?thesis using q(1-3) by (auto simp: bn_word_room_def bn_int_def)
  qed
qed

end
