(* ===== verification/Bn_Ctx.thy ===== *)
theory Bn_Ctx
  imports Bn_Sqr Bn_Arith Stack
begin

text \<open>
  Model of \<open>crypto/fipsmodule/bn/ctx.c\<close>, whose pool of temporary numbers is the generic stack, and of the
  products of numbers in \<open>mul.c\<close>, which take their temporary numbers from it. The pool keeps its
  invariant, and frames are released in the order in which they were opened.
\<close>

section \<open>Temporary numbers\<close>

text \<open>
  \<open>indexes\<close> has the frames that are in use, \<open>size\<close> is the size of the allocated array. The numbers of a
  context live in its stack of pointers; a number that \<open>BN_CTX_get\<close> returns is named by its index.
\<close>

record bn_stack =
  bs_indexes :: "nat list"
  bs_size :: nat

record bn_ctx =
  ctx_bignums :: "bignum stack option"
  ctx_stack :: bn_stack
  ctx_used :: nat
  ctx_error :: bool
  ctx_defer_error :: bool

definition BN_CTX_START_FRAMES :: nat where "BN_CTX_START_FRAMES = 32"

definition BN_STACK_init :: bn_stack where
  "BN_STACK_init = \<lparr>bs_indexes = [], bs_size = 0\<rparr>"

definition BN_STACK_push :: "bn_stack \<Rightarrow> nat \<Rightarrow> (nat \<Rightarrow> bool) \<Rightarrow> bn_stack option" where
  "BN_STACK_push st idx alloc =
     (if length (bs_indexes st) = bs_size st then
        let new_size = (if bs_size st \<noteq> 0 then (bs_size st * 3) mod size_mod div 2 else BN_CTX_START_FRAMES)
        in if new_size \<le> bs_size st \<or> new_size > (size_mod - 1) div 8 then None
           else if \<not> alloc (8 * new_size) then None
           else Some \<lparr>bs_indexes = bs_indexes st @ [idx], bs_size = new_size\<rparr>
      else Some (st\<lparr>bs_indexes := bs_indexes st @ [idx]\<rparr>))"

definition BN_STACK_pop :: "bn_stack \<Rightarrow> (nat \<times> bn_stack) option" where
  "BN_STACK_pop st =
     (if bs_indexes st = [] then None
      else Some (last (bs_indexes st), st\<lparr>bs_indexes := butlast (bs_indexes st)\<rparr>))"

definition BN_CTX_new :: "(nat \<Rightarrow> bool) \<Rightarrow> bn_ctx option" where
  "BN_CTX_new alloc =
     (if \<not> alloc 48 then None
      else Some \<lparr>ctx_bignums = None, ctx_stack = BN_STACK_init, ctx_used = 0, ctx_error = False, ctx_defer_error = False\<rparr>)"

definition BN_CTX_start :: "bn_ctx \<Rightarrow> (nat \<Rightarrow> bool) \<Rightarrow> bn_ctx" where
  "BN_CTX_start ctx alloc =
     (if ctx_error ctx then ctx
      else case BN_STACK_push (ctx_stack ctx) (ctx_used ctx) alloc of
             None \<Rightarrow> ctx\<lparr>ctx_error := True, ctx_defer_error := True\<rparr>
           | Some st \<Rightarrow> ctx\<lparr>ctx_stack := st\<rparr>)"

text \<open>The number at an index, and the context with another one there.\<close>

definition ctx_number :: "bn_ctx \<Rightarrow> nat \<Rightarrow> bignum" where
  "ctx_number ctx i = (case sk_value (ctx_bignums ctx) i of None \<Rightarrow> BN_init | Some b \<Rightarrow> b)"

definition ctx_store :: "bn_ctx \<Rightarrow> nat \<Rightarrow> bignum \<Rightarrow> bn_ctx" where
  "ctx_store ctx i b = ctx\<lparr>ctx_bignums := snd (sk_set (ctx_bignums ctx) i (Some b))\<rparr>"

definition BN_CTX_get :: "bn_ctx \<Rightarrow> (nat \<Rightarrow> bool) \<Rightarrow> nat option \<times> bn_ctx" where
  "BN_CTX_get ctx alloc =
     (if ctx_error ctx then (None, ctx\<lparr>ctx_defer_error := False\<rparr>)
      else
        case (case ctx_bignums ctx of None \<Rightarrow> sk_new_null alloc | Some s \<Rightarrow> Some s) of
          None \<Rightarrow> (None, ctx\<lparr>ctx_error := True\<rparr>)
        | Some s \<Rightarrow>
            (let ctx = ctx\<lparr>ctx_bignums := Some s\<rparr>;
                 pushed =
                   (if ctx_used ctx = sk_num (Some s) then
                      (case BN_new alloc of
                         None \<Rightarrow> None
                       | Some bn \<Rightarrow> (case sk_push (Some s) (Some bn) alloc of (n, s) \<Rightarrow> if n = 0 then None else Some s))
                    else Some (Some s))
             in case pushed of
                  None \<Rightarrow> (None, ctx\<lparr>ctx_error := True\<rparr>)
                | Some s \<Rightarrow>
                    (let i = ctx_used ctx; ctx = ctx\<lparr>ctx_bignums := s, ctx_used := i + 1\<rparr>
                     in (Some i, ctx_store ctx i (BN_zero (ctx_number ctx i))))))"

definition BN_CTX_end :: "bn_ctx \<Rightarrow> bn_ctx option" where
  "BN_CTX_end ctx =
     (if ctx_error ctx then Some ctx
      else case BN_STACK_pop (ctx_stack ctx) of
             None \<Rightarrow> None
           | Some (used, st) \<Rightarrow> Some (ctx\<lparr>ctx_used := used, ctx_stack := st\<rparr>))"

section \<open>Products and squares of numbers\<close>

text \<open>The part of \<open>bn_mul_impl\<close> that writes the product to \<open>rr\<close>. The words of a temporary number have no specified value.\<close>

definition bn_mul_body :: "bignum \<Rightarrow> bignum \<Rightarrow> bignum \<Rightarrow> bn_ctx \<Rightarrow> (nat \<Rightarrow> bool) \<Rightarrow> bool \<times> bignum \<times> bn_ctx" where
  "bn_mul_body rr a b ctx alloc =
     (let al = bn_width a; bl = bn_width b; top = al + bl; rr = rr\<lparr>bn_neg := bn_neg a \<noteq> bn_neg b\<rparr>
      in if al = bl \<and> al = 8 then
           (case bn_wexpand rr 16 alloc of
              (False, rr) \<Rightarrow> (False, rr, ctx)
            | (True, rr) \<Rightarrow>
                (True, rr\<lparr>bn_width := 16, bn_d := put_words (bn_d rr) 0 (bn_mul_comba8 (take 8 (bn_d a)) (take 8 (bn_d b)))\<rparr>, ctx))
         else if al \<ge> 16 \<and> bl \<ge> 16 \<and> al \<le> bl + 1 \<and> bl \<le> al + 1 then
           (let j = BN_num_bits_word (if al \<ge> bl then of_nat al else of_nat bl); j = 2 ^ (unat j - 1)
            in case BN_CTX_get ctx alloc of
                 (None, ctx) \<Rightarrow> (False, rr, ctx)
               | (Some i, ctx) \<Rightarrow>
                   (let part = al > j \<or> bl > j
                    in case bn_wexpand (ctx_number ctx i) (if part then j * 8 else j * 4) alloc of
                         (False, t) \<Rightarrow> (False, rr, ctx_store ctx i t)
                       | (True, t) \<Rightarrow>
                           (case bn_wexpand rr (if part then j * 4 else j * 2) alloc of
                              (False, rr) \<Rightarrow> (False, rr, ctx_store ctx i t)
                            | (True, rr) \<Rightarrow>
                                (let ws = (if part then
                                             bn_mul_part_recursive (take (4 * j) (bn_d rr)) (bn_d a) (bn_d b) j (al - j) (bl - j)
                                           else bn_mul_recursive (bn_d a) (bn_d b) j (int al - int j) (int bl - int j))
                                 in (True, rr\<lparr>bn_d := put_words (bn_d rr) 0 ws, bn_width := top\<rparr>, ctx_store ctx i t)))))
         else
           (case bn_wexpand rr top alloc of
              (False, rr) \<Rightarrow> (False, rr, ctx)
            | (True, rr) \<Rightarrow> (True, rr\<lparr>bn_width := top, bn_d := bn_mul_normal (bn_d rr) (bn_d a) al (bn_d b) bl\<rparr>, ctx)))"

text \<open>\<open>same\<close> tells that \<open>r\<close> is one of the operands; then the product goes to a temporary number first.\<close>

definition bn_mul_impl :: "bignum \<Rightarrow> bignum \<Rightarrow> bignum \<Rightarrow> bool \<Rightarrow> bn_ctx \<Rightarrow> (nat \<Rightarrow> bool) \<Rightarrow> (bool \<times> bignum \<times> bn_ctx) option" where
  "bn_mul_impl r a b same ctx alloc =
     (if bn_width a = 0 \<or> bn_width b = 0 then Some (True, BN_zero r, ctx)
      else
        let ctx = BN_CTX_start ctx alloc
        in case (if same then
                   (case BN_CTX_get ctx alloc of
                      (None, ctx) \<Rightarrow> (False, r, ctx)
                    | (Some i, ctx) \<Rightarrow>
                        (case bn_mul_body (ctx_number ctx i) a b ctx alloc of
                           (False, rr, ctx) \<Rightarrow> (False, r, ctx_store ctx i rr)
                         | (True, rr, ctx) \<Rightarrow> (case BN_copy r rr alloc of (ok, r) \<Rightarrow> (ok, r, ctx_store ctx i rr))))
                 else bn_mul_body r a b ctx alloc) of
             (ok, r, ctx) \<Rightarrow> map_option (\<lambda>ctx. (ok, r, ctx)) (BN_CTX_end ctx))"

definition BN_mul :: "bignum \<Rightarrow> bignum \<Rightarrow> bignum \<Rightarrow> bool \<Rightarrow> bn_ctx \<Rightarrow> (nat \<Rightarrow> bool) \<Rightarrow> (bool \<times> bignum \<times> bn_ctx) option" where
  "BN_mul r a b same ctx alloc =
     map_option (\<lambda>(ok, r, ctx). (ok, if ok then bn_set_minimal_width r else r, ctx)) (bn_mul_impl r a b same ctx alloc)"

definition bn_mul_consttime :: "bignum \<Rightarrow> bignum \<Rightarrow> bignum \<Rightarrow> bool \<Rightarrow> bn_ctx \<Rightarrow> (nat \<Rightarrow> bool) \<Rightarrow> (bool \<times> bignum \<times> bn_ctx) option" where
  "bn_mul_consttime r a b same ctx alloc =
     (if bn_neg a \<or> bn_neg b then Some (False, r, ctx) else bn_mul_impl r a b same ctx alloc)"

text \<open>The words of a square, and the words that the temporary number needs.\<close>

definition sqr_words :: "u64 list \<Rightarrow> u64 list \<Rightarrow> nat \<Rightarrow> u64 list" where
  "sqr_words r a al =
     (if al = 4 then bn_sqr_comba4 (take 4 a)
      else if al = 8 then bn_sqr_comba8 (take 8 a)
      else if al < 16 then bn_sqr_normal r a al
      else if (of_nat al :: u32) AND (of_nat al - 1) = 0 then bn_sqr_recursive a al
      else bn_sqr_normal r a al)"

definition sqr_temporary :: "nat \<Rightarrow> nat" where
  "sqr_temporary al =
     (if al = 4 \<or> al = 8 \<or> al < 16 then 0 else if (of_nat al :: u32) AND (of_nat al - 1) = 0 then al * 4 else 2 * al)"

definition bn_sqr_body :: "bignum \<Rightarrow> bignum \<Rightarrow> nat \<Rightarrow> bn_ctx \<Rightarrow> (nat \<Rightarrow> bool) \<Rightarrow> bool \<times> bignum \<times> bn_ctx" where
  "bn_sqr_body rr a i ctx alloc =
     (let al = bn_width a; mx = 2 * al
      in case bn_wexpand rr mx alloc of
           (False, rr) \<Rightarrow> (False, rr, ctx)
         | (True, rr) \<Rightarrow>
             (case bn_wexpand (ctx_number ctx i) (sqr_temporary al) alloc of
                (False, t) \<Rightarrow> (False, rr, ctx_store ctx i t)
              | (True, t) \<Rightarrow>
                  (True, rr\<lparr>bn_d := put_words (bn_d rr) 0 (sqr_words (take mx (bn_d rr)) (bn_d a) al),
                            bn_neg := False, bn_width := mx\<rparr>, ctx_store ctx i t)))"

definition bn_sqr_consttime :: "bignum \<Rightarrow> bignum \<Rightarrow> bool \<Rightarrow> bn_ctx \<Rightarrow> (nat \<Rightarrow> bool) \<Rightarrow> (bool \<times> bignum \<times> bn_ctx) option" where
  "bn_sqr_consttime r a same ctx alloc =
     (if bn_width a \<le> 0 then Some (True, r\<lparr>bn_width := 0, bn_neg := False\<rparr>, ctx)
      else
        let ctx = BN_CTX_start ctx alloc
        in case (if same then
                   (case BN_CTX_get ctx alloc of
                      (None, ctx) \<Rightarrow> (False, r, snd (BN_CTX_get ctx alloc))
                    | (Some i, ctx) \<Rightarrow>
                        (case BN_CTX_get ctx alloc of
                           (None, ctx) \<Rightarrow> (False, r, ctx)
                         | (Some k, ctx) \<Rightarrow>
                             (case bn_sqr_body (ctx_number ctx i) a k ctx alloc of
                                (False, rr, ctx) \<Rightarrow> (False, r, ctx_store ctx i rr)
                              | (True, rr, ctx) \<Rightarrow> (case BN_copy r rr alloc of (ok, r) \<Rightarrow> (ok, r, ctx_store ctx i rr)))))
                 else
                   (case BN_CTX_get ctx alloc of
                      (None, ctx) \<Rightarrow> (False, r, ctx)
                    | (Some k, ctx) \<Rightarrow> bn_sqr_body r a k ctx alloc)) of
             (ok, r, ctx) \<Rightarrow> map_option (\<lambda>ctx. (ok, r, ctx)) (BN_CTX_end ctx))"

definition BN_sqr :: "bignum \<Rightarrow> bignum \<Rightarrow> bool \<Rightarrow> bn_ctx \<Rightarrow> (nat \<Rightarrow> bool) \<Rightarrow> (bool \<times> bignum \<times> bn_ctx) option" where
  "BN_sqr r a same ctx alloc =
     map_option (\<lambda>(ok, r, ctx). (ok, if ok then bn_set_minimal_width r else r, ctx)) (bn_sqr_consttime r a same ctx alloc)"

section \<open>The context keeps its numbers\<close>

definition bn_temp :: "bignum \<Rightarrow> bool" where
  "bn_temp b \<longleftrightarrow> bn_ok b \<and> bn_flags b AND BN_FLG_STATIC_DATA = 0"

definition ctx_ok :: "bn_ctx \<Rightarrow> bool" where
  "ctx_ok c \<longleftrightarrow>
     (case ctx_bignums c of
        None \<Rightarrow> ctx_used c = 0
      | Some s \<Rightarrow> ctx_used c \<le> length (sk_data s) \<and> length (sk_data s) < sk_num_alloc s \<and>
          (\<forall>x \<in> set (sk_data s). \<exists>b. x = Some b \<and> bn_temp b)) \<and>
     length (bs_indexes (ctx_stack c)) \<le> bs_size (ctx_stack c) \<and> bs_size (ctx_stack c) \<noteq> 1 \<and> (\<forall>i \<in> set (bs_indexes (ctx_stack c)). i \<le> ctx_used c)"

text \<open>Memory succeeds, nothing has failed, and the arrays are at most of size \<open>n\<close>.\<close>

definition ctx_room :: "bn_ctx \<Rightarrow> nat \<Rightarrow> (nat \<Rightarrow> bool) \<Rightarrow> bool" where
  "ctx_room c n alloc \<longleftrightarrow> (\<forall>k. alloc k) \<and> \<not> ctx_error c \<and> bs_size (ctx_stack c) \<le> n \<and>
     (case ctx_bignums c of None \<Rightarrow> True | Some s \<Rightarrow> sk_num_alloc s \<le> n)"

lemma new_ok: "BN_CTX_new alloc = Some c \<Longrightarrow> ctx_ok c \<and> ((\<forall>k. alloc k) \<longrightarrow> ctx_room c 0 alloc)"
  by (auto simp: BN_CTX_new_def ctx_ok_def ctx_room_def BN_STACK_init_def split: if_splits)

text \<open>A context inside a call that began with \<open>c0\<close>.\<close>

definition ctx_inside :: "bn_ctx \<Rightarrow> bn_ctx \<Rightarrow> bool" where
  "ctx_inside c0 c \<longleftrightarrow> ctx_ok c \<and>
     (\<not> ctx_error c \<longrightarrow> \<not> ctx_error c0 \<and> bs_indexes (ctx_stack c) = bs_indexes (ctx_stack c0) @ [ctx_used c0] \<and> ctx_used c0 \<le> ctx_used c \<and>
        (\<forall>i \<in> set (bs_indexes (ctx_stack c0)). i \<le> ctx_used c0))"

text \<open>And after the call, which releases the numbers it took.\<close>

definition ctx_after :: "bn_ctx \<Rightarrow> bn_ctx \<Rightarrow> bool" where
  "ctx_after c0 c \<longleftrightarrow> ctx_ok c \<and>
     (\<not> ctx_error c \<longrightarrow> \<not> ctx_error c0 \<and> bs_indexes (ctx_stack c) = bs_indexes (ctx_stack c0) \<and> ctx_used c = ctx_used c0)"

lemma stack_push:
  assumes "length (bs_indexes st) \<le> bs_size st" "bs_size st \<noteq> 1"
  shows "BN_STACK_push st i alloc = Some st' \<Longrightarrow>
      bs_indexes st' = bs_indexes st @ [i] \<and> length (bs_indexes st') \<le> bs_size st' \<and> bs_size st' \<noteq> 1 \<and> bs_size st' \<le> 2 * bs_size st + 32"
    "(\<forall>k. alloc k) \<Longrightarrow> bs_size st \<le> 2 ^ 50 \<Longrightarrow> BN_STACK_push st i alloc \<noteq> None"
proof -
  assume "BN_STACK_push st i alloc = Some st'"
  moreover have "(bs_size st * 3) mod size_mod div 2 \<le> 2 * bs_size st"
    using mod_less_eq_dividend [of "bs_size st * 3" size_mod] by linarith
  ultimately show "bs_indexes st' = bs_indexes st @ [i] \<and> length (bs_indexes st') \<le> bs_size st' \<and> bs_size st' \<noteq> 1 \<and> bs_size st' \<le> 2 * bs_size st + 32"
    using assms by (auto simp: BN_STACK_push_def BN_CTX_START_FRAMES_def Let_def split: if_splits)
next
  assume "\<forall>k. alloc k" "bs_size st \<le> 2 ^ 50"
  moreover from this have "(bs_size st * 3) mod size_mod = bs_size st * 3" by simp
  moreover have "bs_size st = 0 \<or> 2 \<le> bs_size st" using assms(2) by linarith
  ultimately show "BN_STACK_push st i alloc \<noteq> None"
    by (auto simp: BN_STACK_push_def BN_CTX_START_FRAMES_def Let_def)
qed

lemma ctx_start:
  assumes "ctx_ok c"
  shows "ctx_inside c (BN_CTX_start c alloc)"
    "ctx_room c n alloc \<Longrightarrow> n \<le> 2 ^ 50 \<Longrightarrow> ctx_room (BN_CTX_start c alloc) (2 * n + 32) alloc"
proof -
  have st: "length (bs_indexes (ctx_stack c)) \<le> bs_size (ctx_stack c)" "bs_size (ctx_stack c) \<noteq> 1"
    "\<And>i. i \<in> set (bs_indexes (ctx_stack c)) \<Longrightarrow> i \<le> ctx_used c" using assms by (auto simp: ctx_ok_def)
  show "ctx_inside c (BN_CTX_start c alloc)"
  proof (cases "ctx_error c")
    case True
    then show ?thesis using assms by (simp add: BN_CTX_start_def ctx_inside_def)
  next
    case False
    show ?thesis
    proof (cases "BN_STACK_push (ctx_stack c) (ctx_used c) alloc")
      case None
      then show ?thesis using assms False by (auto simp: BN_CTX_start_def ctx_inside_def ctx_ok_def split: option.splits)
    next
      case (Some s)
      then show ?thesis using stack_push(1) [OF st(1,2) Some] assms False st(3)
        by (auto simp: BN_CTX_start_def ctx_inside_def ctx_ok_def split: option.splits)
    qed
  qed
  assume r: "ctx_room c n alloc" "n \<le> 2 ^ 50"
  then have "BN_STACK_push (ctx_stack c) (ctx_used c) alloc \<noteq> None"
    by (intro stack_push(2) [OF st(1,2)]) (auto simp: ctx_room_def)
  then obtain s where s: "BN_STACK_push (ctx_stack c) (ctx_used c) alloc = Some s" by auto
  show "ctx_room (BN_CTX_start c alloc) (2 * n + 32) alloc"
    using stack_push(1) [OF st(1,2) s] r(1) s by (auto simp: BN_CTX_start_def ctx_room_def split: option.splits)
qed

lemma ctx_end:
  assumes "ctx_inside c0 c"
  shows "\<exists>c'. BN_CTX_end c = Some c' \<and> ctx_after c0 c' \<and> ctx_bignums c' = ctx_bignums c \<and> ctx_error c' = ctx_error c"
proof (cases "ctx_error c")
  case True
  then show ?thesis using assms by (auto simp: BN_CTX_end_def ctx_inside_def ctx_after_def)
next
  case False
  then have "bs_indexes (ctx_stack c) = bs_indexes (ctx_stack c0) @ [ctx_used c0]" "ctx_used c0 \<le> ctx_used c"
    "\<forall>i \<in> set (bs_indexes (ctx_stack c0)). i \<le> ctx_used c0" "\<not> ctx_error c0"
    using assms by (simp_all add: ctx_inside_def)
  then show ?thesis using assms False
    by (auto simp: BN_CTX_end_def BN_STACK_pop_def ctx_inside_def ctx_after_def ctx_ok_def split: option.splits)
qed

text \<open>An index that \<open>BN_CTX_get\<close> has returned.\<close>

definition ctx_has :: "bn_ctx \<Rightarrow> nat \<Rightarrow> bool" where
  "ctx_has c i \<longleftrightarrow> (\<exists>s. ctx_bignums c = Some s \<and> i < length (sk_data s))"

lemma ctx_number: "ctx_ok c \<Longrightarrow> ctx_has c i \<Longrightarrow> bn_temp (ctx_number c i)"
  by (force simp: ctx_ok_def ctx_has_def ctx_number_def sk_value_def dest: nth_mem split: option.splits)

lemma ctx_store:
  assumes "ctx_ok c" "ctx_has c i" "bn_temp b"
  shows "ctx_ok (ctx_store c i b)" "ctx_number (ctx_store c i b) i = b" "ctx_has (ctx_store c i b) k = ctx_has c k"
    "ctx_inside c0 (ctx_store c i b) = ctx_inside c0 c" "ctx_room (ctx_store c i b) n alloc = ctx_room c n alloc"
    "ctx_used (ctx_store c i b) = ctx_used c" "ctx_error (ctx_store c i b) = ctx_error c"
    "k \<noteq> i \<Longrightarrow> ctx_number (ctx_store c i b) k = ctx_number c k"
proof -
  obtain s where s: "ctx_bignums c = Some s" "i < length (sk_data s)" using assms(2) by (auto simp: ctx_has_def)
  have st: "ctx_store c i b = c\<lparr>ctx_bignums := Some (s\<lparr>sk_data := (sk_data s)[i := Some b]\<rparr>)\<rparr>"
    using s by (simp add: ctx_store_def sk_set_def)
  show ok: "ctx_ok (ctx_store c i b)"
    using assms(1,3) s unfolding st ctx_ok_def by (auto dest!: set_update_subset_insert [THEN subsetD])
  show "ctx_number (ctx_store c i b) i = b" "ctx_has (ctx_store c i b) k = ctx_has c k"
    "ctx_room (ctx_store c i b) n alloc = ctx_room c n alloc"
    "ctx_used (ctx_store c i b) = ctx_used c" "ctx_error (ctx_store c i b) = ctx_error c"
    "k \<noteq> i \<Longrightarrow> ctx_number (ctx_store c i b) k = ctx_number c k"
    using s unfolding st by (auto simp: ctx_number_def sk_value_def ctx_has_def ctx_room_def)
  have "ctx_stack (ctx_store c i b) = ctx_stack c" "ctx_used (ctx_store c i b) = ctx_used c" "ctx_error (ctx_store c i b) = ctx_error c"
    unfolding st by simp_all
  then show "ctx_inside c0 (ctx_store c i b) = ctx_inside c0 c" using ok assms(1) by (simp add: ctx_inside_def)
qed

lemma new_temp: "BN_new alloc = Some b \<Longrightarrow> bn_temp b"
  by (auto simp: BN_new_def bn_temp_def bn_ok_def BN_init_def BN_FLG_MALLOCED_def BN_FLG_STATIC_DATA_def split: if_splits)

lemma sk_grow_more:
  assumes "sk_grow num na alloc = Some n" "num < na"
  shows "num + 1 < n" "n \<le> 2 * na"
proof -
  have "num + 1 < n \<and> n \<le> 2 * na"
  proof (cases "na \<le> num + 1")
    case True
    define new where "new = (let new_alloc = (na * 2) mod size_mod; alloc_size = (new_alloc * 8) mod size_mod
      in if new_alloc < na \<or> alloc_size div 8 \<noteq> new_alloc then (na + 1) mod size_mod else new_alloc)"
    have "(if new < na \<or> (new * 8) mod size_mod div 8 \<noteq> new then None
        else if \<not> alloc ((new * 8) mod size_mod) then None else Some new) = Some n"
      using assms(1) unfolding sk_grow_def if_P [OF True] Let_def new_def .
    then have n: "n = new" "\<not> new < na" "(new * 8) mod size_mod div 8 = new" by (auto split: if_splits)
    have "(new * 8) mod size_mod < size_mod" by simp
    then have "new \<le> size_mod div 8" using n(3) by linarith
    then have small: "na \<le> size_mod div 8" using n(2) by linarith
    then have "(na * 2) mod size_mod = na * 2" "(na + 1) mod size_mod = na + 1" by simp_all
    then have "new = na * 2 \<or> new = na + 1" unfolding new_def Let_def by (simp only: if_split_asm) metis
    then show ?thesis using n(1) True assms(2) by linarith
  qed (use assms in \<open>auto simp: sk_grow_def\<close>)
  then show "num + 1 < n" "n \<le> 2 * na" by simp_all
qed

lemma push_number:
  assumes "length (sk_data s) < sk_num_alloc s" "\<forall>x \<in> set (sk_data s). \<exists>b. x = Some b \<and> bn_temp b" "bn_temp b"
    and "sk_push (Some s) (Some b) alloc = (k, s')"
  shows "k \<noteq> 0 \<Longrightarrow> \<exists>t. s' = Some t \<and> sk_data t = sk_data s @ [Some b] \<and> length (sk_data t) < sk_num_alloc t \<and>
      sk_num_alloc t \<le> 2 * sk_num_alloc s \<and> (\<forall>x \<in> set (sk_data t). \<exists>b. x = Some b \<and> bn_temp b)"
    "(\<forall>k. alloc k) \<Longrightarrow> sk_num_alloc s \<le> 2 ^ 51 \<Longrightarrow> k \<noteq> 0"
proof -
  show "k \<noteq> 0 \<Longrightarrow> \<exists>t. s' = Some t \<and> sk_data t = sk_data s @ [Some b] \<and> length (sk_data t) < sk_num_alloc t \<and>
      sk_num_alloc t \<le> 2 * sk_num_alloc s \<and> (\<forall>x \<in> set (sk_data t). \<exists>b. x = Some b \<and> bn_temp b)"
    using assms sk_grow_more [OF _ assms(1), of alloc]
    by (auto simp: sk_push_def sk_insert_def sk_num_def Let_def split: option.splits)
  assume "\<forall>k. alloc k" "sk_num_alloc s \<le> 2 ^ 51"
  then have "sk_grow (length (sk_data s)) (sk_num_alloc s) alloc \<noteq> None"
    using sk_grow_ok [OF assms(1), of alloc] by simp
  then show "k \<noteq> 0" using assms(4) by (auto simp: sk_push_def sk_insert_def sk_num_def Let_def split: option.splits)
qed

lemma new_stack: "sk_new_null alloc = Some s \<Longrightarrow> sk_data s = [] \<and> sk_num_alloc s = 4"
  by (auto simp: sk_new_null_def sk_new_def kMinSize_def split: if_splits)

lemma ctx_get:
  assumes "ctx_ok c" "BN_CTX_get c alloc = (res, c')"
  shows "ctx_ok c' \<and> (ctx_inside c0 c \<longrightarrow> ctx_inside c0 c') \<and> (res = None \<longrightarrow> ctx_error c') \<and>
    (\<forall>k. ctx_has c k \<longrightarrow> ctx_has c' k) \<and>
    (\<forall>i. res = Some i \<longrightarrow> \<not> ctx_error c' \<and> ctx_has c' i \<and> i = ctx_used c \<and> ctx_used c' = ctx_used c + 1 \<and> bn_abs (ctx_number c' i) = 0 \<and>
       \<not> bn_neg (ctx_number c' i) \<and> bn_width (ctx_number c' i) = 0 \<and> (\<forall>k. ctx_has c k \<longrightarrow> k \<noteq> i \<longrightarrow> ctx_number c' k = ctx_number c k)) \<and>
    (ctx_room c n alloc \<and> n \<le> 2 ^ 50 \<longrightarrow> res \<noteq> None \<and> ctx_room c' (2 * n + 32) alloc)"
proof (cases "ctx_error c")
  case True
  then have "res = None" "c' = c\<lparr>ctx_defer_error := False\<rparr>" using assms(2) by (simp_all add: BN_CTX_get_def)
  then show ?thesis using assms(1) True
    by (auto simp: ctx_ok_def ctx_inside_def ctx_has_def ctx_room_def split: option.splits)
next
  case False
  define st where "st = (case ctx_bignums c of None \<Rightarrow> sk_new_null alloc | Some s \<Rightarrow> Some s)"
  show ?thesis
  proof (cases st)
    case None
    then have "ctx_bignums c = None" "\<not> (\<forall>k. alloc k)"
      by (auto simp: st_def sk_new_null_def sk_new_def split: option.splits if_splits)
    moreover have "res = None" "c' = c\<lparr>ctx_error := True\<rparr>"
      using assms(2) False None by (simp_all add: BN_CTX_get_def st_def)
    ultimately show ?thesis using assms(1) by (auto simp: ctx_ok_def ctx_inside_def ctx_has_def ctx_room_def)
  next
    case (Some s)
    have s: "ctx_used c \<le> length (sk_data s)" "length (sk_data s) < sk_num_alloc s"
      "\<forall>x \<in> set (sk_data s). \<exists>b. x = Some b \<and> bn_temp b" "\<And>k. ctx_has c k \<Longrightarrow> k < length (sk_data s)"
      "ctx_room c n alloc \<Longrightarrow> sk_num_alloc s \<le> n + 4" "ctx_has c k \<Longrightarrow> ctx_bignums c = Some s" for k
      using assms(1) Some new_stack [of alloc s]
      by (auto simp: st_def ctx_ok_def ctx_has_def ctx_room_def split: option.splits)
    define p where "p = (if ctx_used c = sk_num (Some s) then
        (case BN_new alloc of None \<Rightarrow> None | Some bn \<Rightarrow> (case sk_push (Some s) (Some bn) alloc of (n, s) \<Rightarrow> if n = 0 then None else Some s))
      else Some (Some s))"
    have e: "ctx_used (c\<lparr>ctx_bignums := Some s\<rparr>) = ctx_used c" by simp
    have g: "BN_CTX_get c alloc = (case p of
        None \<Rightarrow> (None, c\<lparr>ctx_bignums := Some s, ctx_error := True\<rparr>)
      | Some t \<Rightarrow> (Some (ctx_used c), ctx_store (c\<lparr>ctx_bignums := t, ctx_used := ctx_used c + 1\<rparr>) (ctx_used c)
          (BN_zero (ctx_number (c\<lparr>ctx_bignums := t, ctx_used := ctx_used c + 1\<rparr>) (ctx_used c)))))"
      unfolding BN_CTX_get_def if_not_P [OF False] st_def [symmetric] Some option.case Let_def e p_def [symmetric]
      by (simp split: option.split)
    have push: "(\<exists>t. p = Some (Some t) \<and> take (length (sk_data s)) (sk_data t) = sk_data s \<and> ctx_used c < length (sk_data t) \<and>
        length (sk_data t) < sk_num_alloc t \<and> sk_num_alloc t \<le> 2 * sk_num_alloc s \<and>
        (\<forall>x \<in> set (sk_data t). \<exists>b. x = Some b \<and> bn_temp b)) \<or> p = None \<and> \<not> (ctx_room c n alloc \<and> n \<le> 2 ^ 50)"
    proof (cases "ctx_used c = sk_num (Some s)")
      case F: False
      then have "ctx_used c < length (sk_data s)" using s(1) by (simp add: sk_num_def)
      then show ?thesis using F s(2,3) by (simp add: p_def)
    next
      case True
      show ?thesis
      proof (cases "BN_new alloc")
        case None
        then show ?thesis using True by (auto simp: p_def BN_new_def ctx_room_def split: if_splits)
      next
        case (Some b)
        obtain k t where k: "sk_push (Some s) (Some b) alloc = (k, t)" by (rule prod.exhaust)
        note pn = push_number [OF s(2,3) new_temp [OF Some] k]
        have p: "p = (if k = 0 then None else Some t)" using True Some k by (simp add: p_def)
        show ?thesis
        proof (cases "k = 0")
          case k0: True
          have "\<not> (ctx_room c n alloc \<and> n \<le> 2 ^ 50)" using pn(2) k0 s(5) by (fastforce simp: ctx_room_def)
          then show ?thesis using p k0 by simp
        next
          case False
          from pn(1) [OF this] obtain t1 where "t = Some t1" "sk_data t1 = sk_data s @ [Some b]" "length (sk_data t1) < sk_num_alloc t1"
            "sk_num_alloc t1 \<le> 2 * sk_num_alloc s" "\<forall>x \<in> set (sk_data t1). \<exists>b. x = Some b \<and> bn_temp b" by blast
          then show ?thesis using p False True by (intro disjI1 exI [of _ t1]) (simp add: sk_num_def)
        qed
      qed
    qed
    from push show ?thesis
    proof (elim disjE exE conjE)
      assume p: "p = None" and nr: "\<not> (ctx_room c n alloc \<and> n \<le> 2 ^ 50)"
      have r: "res = None" "c' = c\<lparr>ctx_bignums := Some s, ctx_error := True\<rparr>" using g assms(2) p by simp_all
      have "ctx_ok c'" using assms(1) s(1-3) unfolding r by (simp add: ctx_ok_def)
      moreover have "ctx_has c' k" if "ctx_has c k" for k using s(4) [OF that] unfolding r by (simp add: ctx_has_def)
      moreover have "ctx_error c'" unfolding r by simp
      ultimately show ?thesis using r(1) nr by (simp add: ctx_inside_def)
    next
      fix t
      assume p: "p = Some (Some t)" and t: "take (length (sk_data s)) (sk_data t) = sk_data s" "ctx_used c < length (sk_data t)"
        "length (sk_data t) < sk_num_alloc t" "sk_num_alloc t \<le> 2 * sk_num_alloc s"
        "\<forall>x \<in> set (sk_data t). \<exists>b. x = Some b \<and> bn_temp b"
      define c1 where "c1 = c\<lparr>ctx_bignums := Some t, ctx_used := ctx_used c + 1\<rparr>"
      have r: "res = Some (ctx_used c)" "c' = ctx_store c1 (ctx_used c) (BN_zero (ctx_number c1 (ctx_used c)))"
        using g assms(2) p by (simp_all add: c1_def)
      have ok1: "ctx_ok c1" using assms(1) t by (auto simp: c1_def ctx_ok_def split: option.splits)
      have has: "ctx_has c1 (ctx_used c)" using t(2) by (simp add: c1_def ctx_has_def)
      have z: "bn_temp (BN_zero (ctx_number c1 (ctx_used c)))"
        using ctx_number [OF ok1 has] by (simp add: bn_temp_def bn_ok_def BN_zero_def)
      note st = ctx_store [OF ok1 has z]
      have lt: "length (sk_data s) \<le> length (sk_data t)" using t(1) by (metis length_take min.cobounded1)
      have hk: "ctx_has c' k \<and> (k \<noteq> ctx_used c \<longrightarrow> ctx_number c' k = ctx_number c k)" if h: "ctx_has c k" for k
      proof -
        have k: "k < length (sk_data s)" "ctx_bignums c = Some s" using s(4,6) [OF h] by simp_all
        have "sk_data t ! k = sk_data s ! k" using t(1) k(1) by (metis nth_take)
        then have "ctx_number c1 k = ctx_number c k" using k lt by (simp add: ctx_number_def sk_value_def c1_def)
        moreover have "ctx_has c1 k" using k(1) lt by (simp add: c1_def ctx_has_def)
        ultimately show ?thesis unfolding r using st(3) st(8) [of k] by simp
      qed
      have "ctx_inside c0 c'" if "ctx_inside c0 c" unfolding r st(4) using that ok1 by (auto simp: ctx_inside_def c1_def)
      moreover have "ctx_room c' (2 * n + 32) alloc" if "ctx_room c n alloc"
        unfolding r st(5) using that s(5) [OF that] t(4) by (simp add: ctx_room_def c1_def)
      moreover have "\<not> ctx_error c'" "ctx_used c' = ctx_used c + 1" unfolding r st(6,7) using False by (simp_all add: c1_def)
      moreover have "bn_abs (ctx_number c' (ctx_used c)) = 0 \<and> \<not> bn_neg (ctx_number c' (ctx_used c)) \<and> bn_width (ctx_number c' (ctx_used c)) = 0"
        unfolding r st(2) by (simp add: BN_zero_def bn_abs_def)
      moreover have "ctx_ok c'" unfolding r by (rule st(1))
      moreover have "ctx_has c' (ctx_used c)" unfolding r st(3) by (rule has)
      ultimately show ?thesis using r(1) hk by auto
    qed
  qed
qed

lemma ctx_get_some:
  assumes "ctx_ok c" "BN_CTX_get c alloc = (Some i, c')"
  shows "ctx_ok c'" "ctx_has c' i" "i = ctx_used c" "bn_width (ctx_number c' i) = 0" "\<not> bn_neg (ctx_number c' i)"
    "\<And>k. ctx_has c k \<Longrightarrow> k \<noteq> i \<Longrightarrow> ctx_number c' k = ctx_number c k" "\<And>k. ctx_has c k \<Longrightarrow> ctx_has c' k"
    "\<And>n. ctx_room c n alloc \<Longrightarrow> n \<le> 2 ^ 50 \<Longrightarrow> ctx_room c' (2 * n + 32) alloc"
  using ctx_get [OF assms] by blast+

end
