(* ===== verification/Bn_Bits.thy ===== *)
theory Bn_Bits
  imports Bn_Arith
begin

text \<open>
  The number of bits of a word and of a number, computed without branches.
\<close>

section \<open>The number of bits\<close>

fun bit_length :: "nat \<Rightarrow> nat" where
  "bit_length n = (if n = 0 then 0 else Suc (bit_length (n div 2)))"

declare bit_length.simps [simp del]

lemma bit_length_0 [simp]: "bit_length 0 = 0" "bit_length (Suc 0) = 1"
  by (simp_all add: bit_length.simps)

lemma bit_length_bounds: "0 < n \<Longrightarrow> 2 ^ (bit_length n - 1) \<le> n \<and> n < 2 ^ bit_length n \<and> 0 < bit_length n"
proof (induction n rule: bit_length.induct)
  case (1 n)
  have b: "bit_length n = Suc (bit_length (n div 2))" using 1(2) by (subst bit_length.simps) simp
  show ?case
  proof (cases "n div 2 = 0")
    case True
    then have "n = 1" using 1(2) by simp
    then show ?thesis by (simp add: bit_length.simps)
  next
    case False
    then have IH: "2 ^ (bit_length (n div 2) - 1) \<le> n div 2" "n div 2 < 2 ^ bit_length (n div 2)" "0 < bit_length (n div 2)"
      using 1 by simp_all
    obtain k where k: "bit_length (n div 2) = Suc k" using IH(3) by (cases "bit_length (n div 2)") auto
    show ?thesis using IH unfolding b k by simp linarith
  qed
qed

lemma bit_length_div: "n div 2 ^ k \<noteq> 0 \<Longrightarrow> bit_length n = k + bit_length (n div 2 ^ k)"
proof (induction k arbitrary: n)
  case (Suc k)
  have e: "n div 2 ^ Suc k = n div 2 div 2 ^ k" by (simp add: div_mult2_eq)
  then have "bit_length (n div 2) = k + bit_length (n div 2 div 2 ^ k)" using Suc by simp
  moreover have "n \<noteq> 0" using Suc.prems by (intro notI) simp
  ultimately show ?case unfolding e by (subst bit_length.simps) simp
qed simp

lemma top_bit_mask: "unat (x :: u64) < 2 ^ 63 \<Longrightarrow> 0 - drop_bit 63 (0 - x) = (if x = 0 then 0 else -1)"
proof (cases "x = 0")
  case False
  assume h: "unat x < 2 ^ 63"
  have u: "unat (0 - x) = 2 ^ 64 - unat x" using False by (simp add: unat_sub64 unat_eq_0 del: diff_0)
  have "bit (0 - x) 63" unfolding bit_63 u using h by simp
  then have "drop_bit 63 (0 - x) = 1"
    by (intro bit_word_eqI) (auto simp: bit_simps bit_1_iff dest: bit_imp_le_length split: nat.splits)
  then show ?thesis using False by simp
qed simp

lemma num_bits_block:
  assumes "k \<in> {1, 2, 4, 8, 16, 32}" "unat l < 2 ^ (2 * k)" "num_bits_block k (bits, l) = (bits', l')"
  shows "unat l' < 2 ^ k" "l' = 0 \<longleftrightarrow> l = 0" "bits' = bits + of_nat (bit_length (unat l) - bit_length (unat l'))" "bit_length (unat l') \<le> bit_length (unat l)"
proof -
  define x where "x = drop_bit k l"
  have x: "unat x = unat l div 2 ^ k" unfolding x_def unat_drop_bit_eq by (rule drop_bit_eq_div)
  have xl: "unat x < 2 ^ k" unfolding x using assms(2) by (simp add: less_mult_imp_div_less power_add [symmetric] mult_2)
  moreover have "(2 :: nat) ^ k \<le> 2 ^ 63" using assms(1) by (intro power_increasing) auto
  ultimately have m: "0 - drop_bit (BN_BITS2 - 1) (0 - x) = (if x = 0 then 0 else -1)"
    unfolding BN_BITS2_def using top_bit_mask [of x] by simp
  have r: "bits' = bits + (if x = 0 then 0 else of_nat k)" "l' = (if x = 0 then l else x)"
  proof -
    have "(bits', l') = (bits + ucast (of_nat k AND (if x = 0 then 0 else -1 :: u64)), l XOR ((x XOR l) AND (if x = 0 then 0 else -1)))"
      using assms(3) unfolding num_bits_block_def Let_def fst_conv snd_conv x_def [symmetric] m by simp
    moreover have "ucast (of_nat k :: u64) = (of_nat k :: u32)"
      using assms(1) by auto
    moreover have "l XOR (x XOR l) = x" by (rule bit_word_eqI) (auto simp: bit_simps)
    ultimately show "bits' = bits + (if x = 0 then 0 else of_nat k)" "l' = (if x = 0 then l else x)" by auto
  qed
  have "unat l' < 2 ^ k \<and> (l' = 0 \<longleftrightarrow> l = 0) \<and> bits' = bits + of_nat (bit_length (unat l) - bit_length (unat l')) \<and>
    bit_length (unat l') \<le> bit_length (unat l)"
  proof (cases "x = 0")
    case True
    then have "unat l div 2 ^ k = 0" unfolding x [symmetric] by simp
    then have "unat l < 2 ^ k" unfolding div_eq_0_iff by simp
    then show ?thesis using r True by simp
  next
    case False
    then have "unat l div 2 ^ k \<noteq> 0" using x by (metis unat_eq_0)
    from bit_length_div [OF this] have "bit_length (unat l) = k + bit_length (unat x)" unfolding x .
    moreover have "l \<noteq> 0" using False unfolding x_def by auto
    ultimately show ?thesis using r False xl by simp
  qed
  then show "unat l' < 2 ^ k" "l' = 0 \<longleftrightarrow> l = 0" "bits' = bits + of_nat (bit_length (unat l) - bit_length (unat l'))"
    "bit_length (unat l') \<le> bit_length (unat l)" by simp_all
qed

lemma num_bits_word: "BN_num_bits_word l = of_nat (bit_length (unat l))" "bit_length (unat l) \<le> 64"
proof -
  have step: "\<exists>b' l'. num_bits_block k (b, m) = (b', l') \<and> unat l' < 2 ^ k \<and> (l' = 0 \<longleftrightarrow> m = 0) \<and>
      b' + of_nat (bit_length (unat l')) = b + of_nat (bit_length (unat m)) \<and> bit_length (unat l') \<le> bit_length (unat m)"
    if "k \<in> {1, 2, 4, 8, 16, 32}" "unat m < 2 ^ (2 * k)" for k b and m :: u64
  proof -
    obtain b' l' where n: "num_bits_block k (b, m) = (b', l')" by (rule prod.exhaust)
    note q = num_bits_block [OF that n]
    have "b' + of_nat (bit_length (unat l')) = b + of_nat (bit_length (unat m))"
      unfolding q(3) using q(4) by (simp add: of_nat_diff)
    then show ?thesis using n q by blast
  qed
  have l0: "unat l < 2 ^ (2 * 32)" using unat64 [of l] by simp
  obtain b1 l1 where s1: "num_bits_block 32 (of_bool (l \<noteq> 0), l) = (b1, l1)" "unat l1 < 2 ^ 32" "l1 = 0 \<longleftrightarrow> l = 0"
    "b1 + of_nat (bit_length (unat l1)) = of_bool (l \<noteq> 0) + of_nat (bit_length (unat l))"
    using step [of 32 l "of_bool (l \<noteq> 0)"] l0 by auto
  obtain b2 l2 where s2: "num_bits_block 16 (b1, l1) = (b2, l2)" "unat l2 < 2 ^ 16" "l2 = 0 \<longleftrightarrow> l = 0"
    "b2 + of_nat (bit_length (unat l2)) = of_bool (l \<noteq> 0) + of_nat (bit_length (unat l))"
    using step [of 16 l1 b1] s1 by auto
  obtain b3 l3 where s3: "num_bits_block 8 (b2, l2) = (b3, l3)" "unat l3 < 2 ^ 8" "l3 = 0 \<longleftrightarrow> l = 0"
    "b3 + of_nat (bit_length (unat l3)) = of_bool (l \<noteq> 0) + of_nat (bit_length (unat l))"
    using step [of 8 l2 b2] s2 by auto
  obtain b4 l4 where s4: "num_bits_block 4 (b3, l3) = (b4, l4)" "unat l4 < 2 ^ 4" "l4 = 0 \<longleftrightarrow> l = 0"
    "b4 + of_nat (bit_length (unat l4)) = of_bool (l \<noteq> 0) + of_nat (bit_length (unat l))"
    using step [of 4 l3 b3] s3 by auto
  obtain b5 l5 where s5: "num_bits_block 2 (b4, l4) = (b5, l5)" "unat l5 < 2 ^ 2" "l5 = 0 \<longleftrightarrow> l = 0"
    "b5 + of_nat (bit_length (unat l5)) = of_bool (l \<noteq> 0) + of_nat (bit_length (unat l))"
    using step [of 2 l4 b4] s4 by auto
  obtain b6 l6 where s6: "num_bits_block 1 (b5, l5) = (b6, l6)" "unat l6 < 2 ^ 1" "l6 = 0 \<longleftrightarrow> l = 0"
    "b6 + of_nat (bit_length (unat l6)) = of_bool (l \<noteq> 0) + of_nat (bit_length (unat l))"
    using step [of 1 l5 b5] s5 by auto
  have "BN_num_bits_word l = b6"
    unfolding BN_num_bits_word_def fold_simps id_apply o_apply s1(1) s2(1) s3(1) s4(1) s5(1) s6(1) fst_conv ..
  moreover have "bit_length (unat l6) = of_bool (l \<noteq> 0)"
  proof (cases "l = 0")
    case False
    then have "unat l6 = 1" using s6(2,3) by (cases "unat l6") (auto simp: unat_eq_0)
    then show ?thesis using False by simp
  qed (use s6(3) in simp)
  ultimately show "BN_num_bits_word l = of_nat (bit_length (unat l))" using s6(4) by simp
  show "bit_length (unat l) \<le> 64"
  proof (rule ccontr)
    assume h: "\<not> bit_length (unat l) \<le> 64"
    then have "0 < unat l" by (intro gr0I) simp
    then have "2 ^ (bit_length (unat l) - 1) \<le> unat l" using bit_length_bounds by blast
    moreover have "(2 :: nat) ^ 64 \<le> 2 ^ (bit_length (unat l) - 1)" using h by (intro power_increasing) simp_all
    ultimately show False using unat64 [of l] by linarith
  qed
qed

lemma num_bits_word_nat: "unat (BN_num_bits_word l) = bit_length (unat l)"
proof -
  have "bit_length (unat l) < 2 ^ 32" by (rule le_less_trans [OF num_bits_word(2)]) simp
  then show ?thesis unfolding num_bits_word(1) by (simp add: unat_of_nat)
qed

lemma num_bits:
  assumes "bn_ok b"
  shows "BN_num_bits b = bit_length (bn_abs b)"
proof -
  define m where "m = bn_minimal_width b"
  have l: "m \<le> bn_width b" "wval (take m (bn_d b)) = bn_abs b" "m \<noteq> 0 \<longrightarrow> bn_d b ! (m - 1) \<noteq> 0"
    using minimal_loop [of "bn_width b" "bn_d b"] assms by (simp_all add: bn_abs_def m_def bn_minimal_width_def bn_ok_def)
  show ?thesis
  proof (cases m)
    case 0
    then have "bn_abs b = 0" using l(2) by simp
    then show ?thesis using 0 by (simp add: BN_num_bits_def m_def [symmetric])
  next
    case (Suc n)
    let ?w = "bn_d b ! n"
    have len: "n < length (bn_d b)" using l(1) Suc assms by (simp add: bn_ok_def)
    have v: "bn_abs b = wval (take n (bn_d b)) + 2 ^ (64 * n) * unat ?w"
      using l(2) len by (simp add: Suc take_Suc_conv_app_nth wval_append)
    have "wval (take n (bn_d b)) < 2 ^ (64 * n)" using wval_less [of "take n (bn_d b)"] len by simp
    then have d: "bn_abs b div 2 ^ (64 * n) = unat ?w" unfolding v by simp
    have "unat ?w \<noteq> 0" using l(3) Suc by (simp add: unat_eq_0)
    then have "bit_length (bn_abs b) = 64 * n + bit_length (unat ?w)" using bit_length_div [of "bn_abs b" "64 * n"] unfolding d by simp
    then show ?thesis using Suc by (simp add: BN_num_bits_def m_def [symmetric] num_bits_word_nat BN_BITS2_def)
  qed
qed

end
