(* ===== verification/Bn_Mul.thy ===== *)
theory Bn_Mul
  imports Bn_Ctx Bn_Bits
begin

text \<open>
  The products and squares of numbers are exact whatever routine is chosen by the widths, also if the
  result is one of the operands; the context is left as it was.
\<close>

section \<open>Products of numbers\<close>

text \<open>Temporary numbers grow if memory allows.\<close>

lemma temp_wexpand:
  assumes "bn_temp b" "bn_wexpand b n alloc = (ok, b')"
  shows "bn_temp b'" "(\<forall>k. alloc k) \<Longrightarrow> n \<le> bn_max_words \<Longrightarrow> ok"
  using wexpand [OF _ assms(2)] assms(1) by (auto simp: bn_temp_def bn_room_def)

text \<open>The product written to the front of a block that is large enough.\<close>

lemma put_product:
  assumes "bn_ok r" "length ws \<le> bn_dmax r" "m \<le> length ws" "wval ws < 2 ^ (64 * m)"
  shows "bn_ok (r\<lparr>bn_d := put_words (bn_d r) 0 ws, bn_width := m\<rparr>)"
    "bn_abs (r\<lparr>bn_d := put_words (bn_d r) 0 ws, bn_width := m\<rparr>) = wval ws"
proof -
  have l: "length ws \<le> length (bn_d r)" using assms(1,2) by (simp add: bn_ok_def)
  have "take m (put_words (bn_d r) 0 ws) = take m ws"
    using assms(3) by (simp add: put_words_def)
  moreover have "wval (take m ws) = wval ws"
  proof -
    have v: "wval ws = wval (take m ws) + 2 ^ (64 * m) * wval (drop m ws)"
      using wval_take [OF assms(3) order_refl] by simp
    then have "2 ^ (64 * m) * wval (drop m ws) < 2 ^ (64 * m) * 1" using assms(4) by linarith
    then have "wval (drop m ws) = 0" by simp
    then show ?thesis using v by simp
  qed
  ultimately show "bn_abs (r\<lparr>bn_d := put_words (bn_d r) 0 ws, bn_width := m\<rparr>) = wval ws" by (simp add: bn_abs_def)
  show "bn_ok (r\<lparr>bn_d := put_words (bn_d r) 0 ws, bn_width := m\<rparr>)"
    using assms l by (simp add: bn_ok_def)
qed

lemma abs_product_less: "bn_ok a \<Longrightarrow> bn_ok b \<Longrightarrow> bn_abs a * bn_abs b < 2 ^ (64 * (bn_width a + bn_width b))"
  using product_less [of "bn_width a" "bn_d a" "bn_width b" "bn_d b", OF _ _ order_refl] by (simp add: bn_abs_def bn_ok_def)

text \<open>The power of two below the larger of two sizes that are at most one apart.\<close>

lemma mul_size:
  assumes "16 \<le> al" "16 \<le> bl" "al \<le> bl + 1" "bl \<le> al + 1" "al < 2 ^ 32" "bl < 2 ^ 32"
    and "j = 2 ^ (unat (BN_num_bits_word (if al \<ge> bl then of_nat al else of_nat bl)) - 1)"
  shows "16 \<le> j" "al < 2 * j" "bl < 2 * j" "\<exists>k. j = 2 ^ k" "j \<le> max al bl"
    "al > j \<or> bl > j \<Longrightarrow> j \<le> al \<and> j \<le> bl"
proof -
  have mx: "(if al \<ge> bl then of_nat al else of_nat bl) = (of_nat (max al bl) :: u64)" by (simp add: max_def)
  have "unat (of_nat (max al bl) :: u64) = max al bl" using assms(5,6) by (simp add: unat_of_nat)
  then have j: "j = 2 ^ (bit_length (max al bl) - 1)" unfolding assms(7) mx num_bits_word_nat by simp
  have "0 < max al bl" using assms(1) by simp
  note b = bit_length_bounds [OF this]
  then have "(2 :: nat) ^ bit_length (max al bl) = 2 * j" unfolding j by (cases "bit_length (max al bl)") auto
  then have lt: "max al bl < 2 * j" using b by simp
  show le: "j \<le> max al bl" using b unfolding j by simp
  show "al < 2 * j" "bl < 2 * j" using lt by simp_all
  show k: "\<exists>k. j = 2 ^ k" using j by blast
  show "16 \<le> j"
  proof -
    obtain k where k: "j = 2 ^ k" using k by blast
    have "(2 :: nat) ^ 3 < 2 ^ k" using lt assms(1) unfolding k by simp
    then have "3 < k" by (rule power_less_imp_less_exp [rotated]) simp
    then have "(2 :: nat) ^ 4 \<le> 2 ^ k" by (intro power_increasing) simp_all
    then show ?thesis unfolding k by simp
  qed
  show "j \<le> al \<and> j \<le> bl" if "al > j \<or> bl > j" using that assms(3,4) by auto
qed

lemma width_max: "bn_width a \<le> bn_max_words \<Longrightarrow> bn_width a < 2 ^ 32"
  by (simp add: bn_max_words_def BN_BITS2_def)

lemma room_plain: "\<forall>k. alloc k \<Longrightarrow> bn_flags r AND BN_FLG_STATIC_DATA = 0 \<Longrightarrow> n \<le> bn_max_words \<Longrightarrow> bn_room r n alloc"
  by (simp add: bn_room_def)

text \<open>What the parts of the functions below promise: the temporary numbers are kept, and nothing fails without a reason.\<close>

definition ctx_step :: "bn_ctx \<Rightarrow> bn_ctx \<Rightarrow> bool" where
  "ctx_step c c' \<longleftrightarrow> ctx_ok c' \<and> (\<forall>c0. ctx_inside c0 c \<longrightarrow> ctx_inside c0 c') \<and> (\<forall>k. ctx_has c k \<longrightarrow> ctx_has c' k)"

lemma step_refl: "ctx_ok c \<Longrightarrow> ctx_step c c"
  by (simp add: ctx_step_def)

lemma step_get: "ctx_ok c \<Longrightarrow> BN_CTX_get c alloc = (res, c') \<Longrightarrow> ctx_step c c'"
  using ctx_get [of c alloc res c'] by (simp add: ctx_step_def)

lemma step_store: "ctx_ok c \<Longrightarrow> ctx_has c i \<Longrightarrow> bn_temp b \<Longrightarrow> ctx_step c (ctx_store c i b)"
  using ctx_store [of c i b] by (simp add: ctx_step_def)

lemma step_trans: "ctx_step c c' \<Longrightarrow> ctx_step c' c'' \<Longrightarrow> ctx_step c c''"
  by (simp add: ctx_step_def)

definition mul_done :: "bignum \<Rightarrow> bignum \<Rightarrow> bignum \<Rightarrow> bool \<Rightarrow> bignum \<Rightarrow> bool" where
  "mul_done rr a b ok r \<longleftrightarrow> bn_ok r \<and> bn_flags r = bn_flags rr \<and>
     (ok \<longrightarrow> bn_abs r = bn_abs a * bn_abs b \<and> bn_neg r = (bn_neg a \<noteq> bn_neg b) \<and> bn_width r = bn_width a + bn_width b)"

lemma mul_put:
  assumes "bn_ok rr" "bn_ok a" "bn_ok b" "length ws \<le> bn_dmax rr" "bn_width a + bn_width b \<le> length ws"
    and "wval ws = bn_abs a * bn_abs b" "bn_neg rr = (bn_neg a \<noteq> bn_neg b)" "bn_flags rr = f"
  shows "mul_done (r0\<lparr>bn_flags := f\<rparr>) a b True (rr\<lparr>bn_d := put_words (bn_d rr) 0 ws, bn_width := bn_width a + bn_width b\<rparr>)"
  using put_product [OF assms(1,4,5)] abs_product_less [OF assms(2,3)] assms(6-8) by (simp add: mul_done_def)

lemma mul_body:
  assumes rr: "bn_ok rr" and ab: "bn_ok a" "bn_ok b" "bn_width a \<le> bn_max_words" "bn_width b \<le> bn_max_words"
    and c: "ctx_ok c" and body: "bn_mul_body rr a b c alloc = (ok, r, c')"
  shows "mul_done rr a b ok r \<and> ctx_step c c' \<and>
    (ctx_room c n alloc \<and> n \<le> 2 ^ 50 \<and> bn_flags rr AND BN_FLG_STATIC_DATA = 0 \<and>
       8 * bn_width a \<le> bn_max_words \<and> 8 * bn_width b \<le> bn_max_words \<longrightarrow> ok)"
proof -
  define al where "al = bn_width a"
  define bl where "bl = bn_width b"
  define r0 where "r0 = rr\<lparr>bn_neg := bn_neg a \<noteq> bn_neg b\<rparr>"
  have r0: "bn_ok r0" "bn_neg r0 = (bn_neg a \<noteq> bn_neg b)" "bn_flags r0 = bn_flags rr" using rr by (simp_all add: r0_def)
  have l: "al \<le> length (bn_d a)" "bl \<le> length (bn_d b)" using ab by (simp_all add: al_def bl_def bn_ok_def)
  have fail: "mul_done rr a b False x" if "bn_wexpand r0 k alloc = (e, x)" for k e x
    using wexpand [OF r0(1) that] r0(3) by (simp add: mul_done_def)
  have fail0: "mul_done rr a b False r0" using r0 by (simp add: mul_done_def)
  have good: "mul_done rr a b True (x\<lparr>bn_d := put_words (bn_d x) 0 ws, bn_width := al + bl\<rparr>)"
    if "bn_wexpand r0 k alloc = (True, x)" "length ws \<le> k" "al + bl \<le> length ws" "wval ws = bn_abs a * bn_abs b" for k x ws
  proof -
    note x = wexpand [OF r0(1) that(1)]
    have "length ws \<le> bn_dmax x" using x(7) that(2) by simp
    from mul_put [OF x(1) ab(1,2) this] that(3,4) x(3,4) r0(2,3)
    show ?thesis unfolding al_def bl_def mul_done_def by simp
  qed
  have roomy: "e" if "bn_wexpand r0 k alloc = (e, x)" "ctx_room c n alloc" "bn_flags rr AND BN_FLG_STATIC_DATA = 0" "k \<le> bn_max_words" for k e x
  proof -
    have "bn_room r0 k alloc" using that(2-4) r0(3) by (intro room_plain) (simp_all add: ctx_room_def)
    then show ?thesis using wexpand(6) [OF r0(1) that(1)] by simp
  qed
  consider (comba) "al = bl \<and> al = 8"
    | (karatsuba) "\<not> (al = bl \<and> al = 8)" "al \<ge> 16 \<and> bl \<ge> 16 \<and> al \<le> bl + 1 \<and> bl \<le> al + 1"
    | (normal) "\<not> (al = bl \<and> al = 8)" "\<not> (al \<ge> 16 \<and> bl \<ge> 16 \<and> al \<le> bl + 1 \<and> bl \<le> al + 1)" by blast
  then show ?thesis
  proof cases
    case comba
    then have len: "length (take 8 (bn_d a)) = 8" "length (take 8 (bn_d b)) = 8" using l by simp_all
    have w8: "bn_width a = 8" "bn_width b = 8" using comba by (simp_all add: al_def bl_def)
    have v: "length (bn_mul_comba8 (take 8 (bn_d a)) (take 8 (bn_d b))) = 16"
      "wval (bn_mul_comba8 (take 8 (bn_d a)) (take 8 (bn_d b))) = bn_abs a * bn_abs b"
      using bn_mul_comba8 [OF len] w8 by (simp_all add: bn_abs_def)
    obtain e x where e: "bn_wexpand r0 16 alloc = (e, x)" by (rule prod.exhaust)
    have eq: "(ok, r, c') = (if e then (True, x\<lparr>bn_width := 16, bn_d := put_words (bn_d x) 0 (bn_mul_comba8 (take 8 (bn_d a)) (take 8 (bn_d b)))\<rparr>, c)
        else (False, x, c))"
      unfolding body [symmetric] bn_mul_body_def Let_def al_def [symmetric] bl_def [symmetric] if_P [OF comba] r0_def [symmetric] e
      by (simp split: bool.split)
    show ?thesis
    proof (cases e)
      case True
      have ab8: "al = 8" "bl = 8" using comba by simp_all
      have e': "bn_wexpand r0 16 alloc = (True, x)" using e True by simp
      have "mul_done rr a b True (x\<lparr>bn_d := put_words (bn_d x) 0 (bn_mul_comba8 (take 8 (bn_d a)) (take 8 (bn_d b))), bn_width := al + bl\<rparr>)"
        by (rule good [OF e']) (simp_all add: v ab8)
      then have "mul_done rr a b True (x\<lparr>bn_width := 16, bn_d := put_words (bn_d x) 0 (bn_mul_comba8 (take 8 (bn_d a)) (take 8 (bn_d b)))\<rparr>)"
        using w8 by (simp add: ab8 mul_done_def bn_ok_def bn_abs_def)
      then show ?thesis using eq True step_refl [OF c] by simp
    next
      case False
      have "\<not> (ctx_room c n alloc \<and> n \<le> 2 ^ 50 \<and> bn_flags rr AND BN_FLG_STATIC_DATA = 0 \<and>
         8 * bn_width a \<le> bn_max_words \<and> 8 * bn_width b \<le> bn_max_words)"
        using roomy [OF e] False comba al_def by fastforce
      then show ?thesis using eq False fail [OF e] step_refl [OF c] by simp
    qed
  next
    case normal
    obtain e x where e: "bn_wexpand r0 (al + bl) alloc = (e, x)" by (rule prod.exhaust)
    have eq: "(ok, r, c') = (if e then (True, x\<lparr>bn_width := al + bl, bn_d := bn_mul_normal (bn_d x) (bn_d a) al (bn_d b) bl\<rparr>, c)
        else (False, x, c))"
      unfolding body [symmetric] bn_mul_body_def Let_def al_def [symmetric] bl_def [symmetric] if_not_P [OF normal(1)] if_not_P [OF normal(2)]
        r0_def [symmetric] e by (simp split: bool.split)
    show ?thesis
    proof (cases e)
      case True
      note x = wexpand [OF r0(1) e]
      have len: "al + bl \<le> length (bn_d x)" using x(1,7) True by (simp add: bn_ok_def)
      have "mul_done rr a b True (x\<lparr>bn_width := al + bl, bn_d := bn_mul_normal (bn_d x) (bn_d a) al (bn_d b) bl\<rparr>)"
        using bn_mul_normal [OF l len] x(1,3,4,7) r0(2,3) True
        by (simp add: mul_done_def bn_ok_def bn_abs_def al_def [symmetric] bl_def [symmetric])
      then show ?thesis using eq True step_refl [OF c] by simp
    next
      case False
      have "\<not> (ctx_room c n alloc \<and> n \<le> 2 ^ 50 \<and> bn_flags rr AND BN_FLG_STATIC_DATA = 0 \<and>
         8 * bn_width a \<le> bn_max_words \<and> 8 * bn_width b \<le> bn_max_words)"
        using roomy [OF e] False unfolding al_def bl_def by fastforce
      then show ?thesis using eq False fail [OF e] step_refl [OF c] by simp
    qed
  next
    case karatsuba
    define j :: nat where "j = 2 ^ (unat (BN_num_bits_word (if al \<ge> bl then of_nat al else of_nat bl)) - 1)"
    have w: "al < 2 ^ 32" "bl < 2 ^ 32" using width_max ab(3,4) by (simp_all only: al_def bl_def)
    note k2 = karatsuba(2)
    have jj: "16 \<le> j" "al < 2 * j" "bl < 2 * j" "\<exists>k. j = 2 ^ k" "j \<le> max al bl" "al > j \<or> bl > j \<Longrightarrow> j \<le> al \<and> j \<le> bl"
      using mul_size [OF _ _ _ _ w j_def] k2 by simp_all
    obtain q where q: "j = 2 ^ q" using jj(4) by blast
    obtain res c1 where g: "BN_CTX_get c alloc = (res, c1)" by (rule prod.exhaust)
    define part where "part \<longleftrightarrow> al > j \<or> bl > j"
    have unf: "(ok, r, c') = (case (res, c1) of
        (None, ctx) \<Rightarrow> (False, r0, ctx)
      | (Some i, ctx) \<Rightarrow>
          (case bn_wexpand (ctx_number ctx i) (if part then j * 8 else j * 4) alloc of
             (False, t) \<Rightarrow> (False, r0, ctx_store ctx i t)
           | (True, t) \<Rightarrow>
               (case bn_wexpand r0 (if part then j * 4 else j * 2) alloc of
                  (False, rr) \<Rightarrow> (False, rr, ctx_store ctx i t)
                | (True, rr) \<Rightarrow>
                    (True, rr\<lparr>bn_d := put_words (bn_d rr) 0 (if part then
                        bn_mul_part_recursive (take (4 * j) (bn_d rr)) (bn_d a) (bn_d b) j (al - j) (bl - j)
                      else bn_mul_recursive (bn_d a) (bn_d b) j (int al - int j) (int bl - int j)), bn_width := al + bl\<rparr>,
                     ctx_store ctx i t))))"
      unfolding body [symmetric] bn_mul_body_def Let_def al_def [symmetric] bl_def [symmetric] if_not_P [OF karatsuba(1)] if_P [OF karatsuba(2)]
        r0_def [symmetric] j_def [symmetric] g part_def ..
    show ?thesis
    proof (cases res)
      case None
      have "ctx_step c c1" by (rule step_get [OF c g])
      moreover have "\<not> (ctx_room c n alloc \<and> n \<le> 2 ^ 50)" using ctx_get [OF c g, where n = n] None by blast
      ultimately show ?thesis using unf None fail0 by auto
    next
      case (Some i)
      note gs = ctx_get_some [OF c g [unfolded Some]]
      have c1: "ctx_ok c1" by (rule gs(1))
      have i: "ctx_has c1 i" "bn_width (ctx_number c1 i) = 0" by (rule gs)+
      obtain e1 t where e1: "bn_wexpand (ctx_number c1 i) (if part then j * 8 else j * 4) alloc = (e1, t)" by (rule prod.exhaust)
      note tw = temp_wexpand [OF ctx_number [OF c1 i(1)] e1]
      have st: "ctx_step c (ctx_store c1 i t)"
        by (rule step_trans [OF step_get [OF c g] step_store [OF c1 i(1) tw(1)]])
      have lim: "(if part then j * 8 else j * 4) \<le> bn_max_words" "(if part then j * 4 else j * 2) \<le> bn_max_words"
        if "8 * bn_width a \<le> bn_max_words" "8 * bn_width b \<le> bn_max_words"
        using that jj(5) unfolding al_def bl_def by (auto simp: max_def split: if_splits)
      show ?thesis
      proof (cases e1)
        case False
        then have "(ok, r, c') = (False, r0, ctx_store c1 i t)" using unf Some e1 by simp
        moreover have "\<not> (ctx_room c n alloc \<and> n \<le> 2 ^ 50 \<and> bn_flags rr AND BN_FLG_STATIC_DATA = 0 \<and>
           8 * bn_width a \<le> bn_max_words \<and> 8 * bn_width b \<le> bn_max_words)"
          using tw(2) lim(1) False by (auto simp: ctx_room_def)
        ultimately show ?thesis using fail0 st by simp
      next
        case e1T: True
        obtain e2 x where e2: "bn_wexpand r0 (if part then j * 4 else j * 2) alloc = (e2, x)" by (rule prod.exhaust)
        define ws where "ws = (if part then
            bn_mul_part_recursive (take (4 * j) (bn_d x)) (bn_d a) (bn_d b) j (al - j) (bl - j)
          else bn_mul_recursive (bn_d a) (bn_d b) j (int al - int j) (int bl - int j))"
        have r: "(ok, r, c') = (if e2 then (True, x\<lparr>bn_d := put_words (bn_d x) 0 ws, bn_width := al + bl\<rparr>, ctx_store c1 i t)
            else (False, x, ctx_store c1 i t))"
          using unf Some e1 e1T e2 ws_def by (simp split: bool.split)
        show ?thesis
        proof (cases e2)
          case False
          have "\<not> (ctx_room c n alloc \<and> n \<le> 2 ^ 50 \<and> bn_flags rr AND BN_FLG_STATIC_DATA = 0 \<and>
             8 * bn_width a \<le> bn_max_words \<and> 8 * bn_width b \<le> bn_max_words)"
            using roomy [OF e2] lim(2) False by blast
          then show ?thesis using r False fail [OF e2] st by simp
        next
          case True
          have ws: "length ws = (if part then j * 4 else j * 2) \<and> wval ws = bn_abs a * bn_abs b"
          proof (cases part)
            case P: True
            then have le: "j \<le> al" "j \<le> bl" using jj(6) by (simp_all add: part_def)
            have "al - j < j" "bl - j < j" "al - j \<le> bl - j + 1" "bl - j \<le> al - j + 1" "j + (al - j) \<le> length (bn_d a)"
              "j + (bl - j) \<le> length (bn_d b)" using jj(2,3) le k2 l by linarith+
            note m = bn_mul_part_recursive [OF q _ this, of "take (4 * j) (bn_d x)"]
            have "j + (al - j) = al" "j + (bl - j) = bl" using le by simp_all
            then show ?thesis using m jj(1) P by (simp add: ws_def bn_abs_def al_def [symmetric] bl_def [symmetric])
          next
            case F: False
            have "nat (int j + (int al - int j)) = al" "nat (int j + (int bl - int j)) = bl" by simp_all
            moreover have "- 8 \<le> int al - int j" "int al - int j \<le> 0" "- 8 \<le> int bl - int j" "int bl - int j \<le> 0"
              using F jj(5) k2 by (auto simp: part_def max_def split: if_splits)
            ultimately show ?thesis using bn_mul_recursive [OF q, of "int al - int j" "int bl - int j" "bn_d a" "bn_d b"] F l
              by (simp add: ws_def bn_abs_def al_def [symmetric] bl_def [symmetric])
          qed
          have "al + bl \<le> length ws" using ws jj(2,3) by (auto simp: part_def split: if_splits)
          moreover have "bn_wexpand r0 (if part then j * 4 else j * 2) alloc = (True, x)" using e2 True by simp
          ultimately show ?thesis using r True good [of "if part then j * 4 else j * 2" x ws] ws st by simp
        qed
      qed
    qed
  qed
qed

lemma bn_copy:
  assumes "bn_ok r" "bn_ok a" "BN_copy r a alloc = (ok, r')"
  shows "bn_ok r'" "bn_flags r' = bn_flags r" "ok \<longleftrightarrow> bn_room r (bn_width a) alloc"
    "ok \<Longrightarrow> bn_abs r' = bn_abs a \<and> bn_neg r' = bn_neg a \<and> bn_width r' = bn_width a"
proof -
  obtain e x where e: "bn_wexpand r (bn_width a) alloc = (e, x)" by (rule prod.exhaust)
  note w = wexpand [OF assms(1) e]
  have r: "ok = e" "r' = (if e then x\<lparr>bn_d := put_words (bn_d x) 0 (take (bn_width a) (bn_d a)), bn_width := bn_width a, bn_neg := bn_neg a\<rparr> else x)"
    using assms(3) e by (auto simp: BN_copy_def split: bool.splits)
  have "bn_ok r' \<and> bn_flags r' = bn_flags r \<and> (ok \<longrightarrow> bn_abs r' = bn_abs a \<and> bn_neg r' = bn_neg a \<and> bn_width r' = bn_width a)"
  proof (cases e)
    case True
    have l: "length (take (bn_width a) (bn_d a)) = bn_width a" using assms(2) by (simp add: bn_ok_def)
    note p = put_result [OF w(1) w(7) [OF True] l]
    let ?y = "x\<lparr>bn_d := put_words (bn_d x) 0 (take (bn_width a) (bn_d a)), bn_width := bn_width a\<rparr>"
    have "r' = ?y\<lparr>bn_neg := bn_neg a\<rparr>" using r True by simp
    then show ?thesis using p w(4) bn_abs_neg [of "bn_neg a" ?y] by (simp add: bn_abs_def [of a])
  qed (use r w in simp)
  then show "bn_ok r'" "bn_flags r' = bn_flags r" "ok \<longleftrightarrow> bn_room r (bn_width a) alloc"
    "ok \<Longrightarrow> bn_abs r' = bn_abs a \<and> bn_neg r' = bn_neg a \<and> bn_width r' = bn_width a" using r(1) w(6) by simp_all
qed

text \<open>No operation fails: memory succeeds, the result is not static and the operands are not too large.\<close>

definition mul_roomy :: "bignum \<Rightarrow> bignum \<Rightarrow> bignum \<Rightarrow> bn_ctx \<Rightarrow> (nat \<Rightarrow> bool) \<Rightarrow> bool" where
  "mul_roomy r a b c alloc \<longleftrightarrow> ctx_room c (2 ^ 40) alloc \<and> bn_flags r AND BN_FLG_STATIC_DATA = 0 \<and>
     8 * bn_width a \<le> bn_max_words \<and> 8 * bn_width b \<le> bn_max_words"

lemma after_step:
  assumes "ctx_ok c" "ctx_step (BN_CTX_start c alloc) c1"
  shows "\<exists>c2. BN_CTX_end c1 = Some c2 \<and> ctx_after c c2 \<and> ctx_bignums c2 = ctx_bignums c1 \<and> ctx_error c2 = ctx_error c1"
proof -
  have "ctx_inside c c1" using assms ctx_start(1) [OF assms(1)] by (simp add: ctx_step_def)
  from ctx_end [OF this] show ?thesis .
qed

text \<open>A product or a square that goes to a temporary number first.\<close>

lemma copy_back:
  assumes "bn_ok r" "ctx_ok c" "ctx_has c i" "bn_temp rr" "BN_copy r rr alloc = (ok, r')"
  shows "bn_ok r'" "bn_flags r' = bn_flags r" "ctx_step c (ctx_store c i rr)" "ok \<longleftrightarrow> bn_room r (bn_width rr) alloc"
    "ok \<Longrightarrow> bn_abs r' = bn_abs rr \<and> bn_neg r' = bn_neg rr \<and> bn_width r' = bn_width rr"
  using bn_copy [OF assms(1) _ assms(5)] assms(4) step_store [OF assms(2-4)] by (simp_all add: bn_temp_def)

lemma mul_impl:
  assumes "bn_ok r" "bn_ok a" "bn_ok b" "bn_width a \<le> bn_max_words" "bn_width b \<le> bn_max_words" "ctx_ok c"
  shows "\<exists>ok r' c'. bn_mul_impl r a b same c alloc = Some (ok, r', c') \<and> bn_ok r' \<and> bn_flags r' = bn_flags r \<and> ctx_after c c' \<and>
    (ok \<longrightarrow> bn_abs r' = bn_abs a * bn_abs b \<and> (bn_abs r' \<noteq> 0 \<longrightarrow> bn_neg r' = (bn_neg a \<noteq> bn_neg b)) \<and>
       (bn_neg r' \<longrightarrow> bn_neg a \<noteq> bn_neg b)) \<and>
    (mul_roomy r a b c alloc \<longrightarrow> ok)"
proof (cases "bn_width a = 0 \<or> bn_width b = 0")
  case True
  then have "bn_abs a * bn_abs b = 0" by (auto simp: bn_abs_def)
  moreover have "bn_mul_impl r a b same c alloc = Some (True, BN_zero r, c)" using True by (simp add: bn_mul_impl_def)
  moreover have "ctx_after c c" using assms(6) by (simp add: ctx_after_def)
  moreover have "bn_ok (BN_zero r)" "bn_abs (BN_zero r) = 0" "\<not> bn_neg (BN_zero r)" "bn_flags (BN_zero r) = bn_flags r"
    using assms(1) by (simp_all add: BN_zero_def bn_ok_def bn_abs_def)
  ultimately show ?thesis by auto
next
  case nz: False
  define cs where "cs = BN_CTX_start c alloc"
  have cs: "ctx_ok cs" using ctx_start(1) [OF assms(6), of alloc] by (simp add: cs_def ctx_inside_def)
  have rs: "ctx_room cs (2 ^ 42) alloc" if "mul_roomy r a b c alloc"
  proof -
    have "ctx_room c (2 ^ 40) alloc" using that by (simp add: mul_roomy_def)
    from ctx_start(2) [OF assms(6) this] show ?thesis unfolding cs_def [symmetric]
      by (auto simp: ctx_room_def split: option.splits)
  qed
  define p where "p = (if same then
      (case BN_CTX_get cs alloc of
         (None, ctx) \<Rightarrow> (False, r, ctx)
       | (Some i, ctx) \<Rightarrow>
           (case bn_mul_body (ctx_number ctx i) a b ctx alloc of
              (False, rr, ctx) \<Rightarrow> (False, r, ctx_store ctx i rr)
            | (True, rr, ctx) \<Rightarrow> (case BN_copy r rr alloc of (ok, r) \<Rightarrow> (ok, r, ctx_store ctx i rr))))
    else bn_mul_body r a b cs alloc)"
  have eq: "bn_mul_impl r a b same c alloc = (case p of (ok, r, ctx) \<Rightarrow> map_option (\<lambda>ctx. (ok, r, ctx)) (BN_CTX_end ctx))"
    unfolding bn_mul_impl_def if_not_P [OF nz] Let_def cs_def [symmetric] p_def ..
  obtain ok r' c1 where p: "p = (ok, r', c1)" by (rule prod_cases3)
  have main: "bn_ok r' \<and> bn_flags r' = bn_flags r \<and> ctx_step cs c1 \<and>
    (ok \<longrightarrow> bn_abs r' = bn_abs a * bn_abs b \<and> bn_neg r' = (bn_neg a \<noteq> bn_neg b)) \<and> (mul_roomy r a b c alloc \<longrightarrow> ok)"
  proof (cases same)
    case False
    then have "bn_mul_body r a b cs alloc = (ok, r', c1)" using p by (simp add: p_def)
    from mul_body [where n = "2 ^ 42", OF assms(1-5) cs this] rs show ?thesis by (auto simp: mul_done_def mul_roomy_def)
  next
    case True
    obtain res c2 where g: "BN_CTX_get cs alloc = (res, c2)" by (rule prod.exhaust)
    show ?thesis
    proof (cases res)
      case None
      then have "ok = False" "r' = r" "c1 = c2" using p True g by (simp_all add: p_def)
      moreover have "\<not> mul_roomy r a b c alloc" using ctx_get [where n = "2 ^ 42", OF cs g] None rs by auto
      ultimately show ?thesis using assms(1) step_get [OF cs g] by simp
    next
      case (Some i)
      note gs = ctx_get_some [OF cs g [unfolded Some]]
      have t: "bn_temp (ctx_number c2 i)" by (rule ctx_number [OF gs(1,2)])
      obtain e rr c3 where b: "bn_mul_body (ctx_number c2 i) a b c2 alloc = (e, rr, c3)" by (rule prod_cases3)
      have t1: "bn_ok (ctx_number c2 i)" "bn_flags (ctx_number c2 i) AND BN_FLG_STATIC_DATA = 0" using t by (simp_all add: bn_temp_def)
      have room2: "ctx_room c2 (2 ^ 44) alloc" if "mul_roomy r a b c alloc"
        using gs(8) [OF rs [OF that]] by (auto simp: ctx_room_def split: option.splits)
      note m = mul_body [where n = "2 ^ 44", OF t1(1) assms(2-5) gs(1) b]
      have m1: "mul_done (ctx_number c2 i) a b e rr" "ctx_step c2 c3" using m by simp_all
      have m2: "mul_roomy r a b c alloc \<longrightarrow> e" using m room2 t1(2) by (auto simp: mul_roomy_def)
      have s3: "ctx_ok c3" "ctx_has c3 i" using m1(2) gs(2) by (simp_all add: ctx_step_def)
      have trr: "bn_temp rr" using m1(1) t1(2) by (simp add: mul_done_def bn_temp_def)
      have st: "ctx_step cs (ctx_store c3 i rr)"
        by (rule step_trans [OF step_get [OF cs g] step_trans [OF m1(2) step_store [OF s3 trr]]])
      show ?thesis
      proof (cases e)
        case False
        then have "ok = False" "r' = r" "c1 = ctx_store c3 i rr" using p True g Some b by (simp_all add: p_def)
        then show ?thesis using assms(1) st m2 False by simp
      next
        case e: True
        obtain f r2 where k: "BN_copy r rr alloc = (f, r2)" by (rule prod.exhaust)
        then have r: "ok = f" "r' = r2" "c1 = ctx_store c3 i rr" using p True g Some b e by (simp_all add: p_def)
        note cb = copy_back [OF assms(1) s3 trr k]
        have wd: "bn_width rr = bn_width a + bn_width b" using m1(1) e by (simp add: mul_done_def)
        have "f" if "mul_roomy r a b c alloc"
        proof -
          have "bn_room r (bn_width rr) alloc"
            by (rule room_plain) (use that wd in \<open>auto simp: mul_roomy_def ctx_room_def\<close>)
          then show ?thesis using cb(4) by simp
        qed
        then show ?thesis using cb r st m1(1) e by (auto simp: mul_done_def)
      qed
    qed
  qed
  obtain c2 where c2: "BN_CTX_end c1 = Some c2" "ctx_after c c2"
    using after_step [OF assms(6), of alloc c1] main by (auto simp: cs_def)
  then have "bn_mul_impl r a b same c alloc = Some (ok, r', c2)" using eq p by simp
  then show ?thesis using main c2(2) by blast
qed

lemma bn_mul:
  assumes "bn_ok r" "bn_ok a" "bn_ok b" "bn_width a \<le> bn_max_words" "bn_width b \<le> bn_max_words" "ctx_ok c"
  shows "\<exists>ok r' c'. BN_mul r a b same c alloc = Some (ok, r', c') \<and> bn_ok r' \<and> ctx_after c c' \<and>
    (ok \<longrightarrow> bn_result (bn_int a * bn_int b) r') \<and> (mul_roomy r a b c alloc \<longrightarrow> ok)"
proof -
  obtain ok r' c' where m: "bn_mul_impl r a b same c alloc = Some (ok, r', c')" "bn_ok r'" "ctx_after c c'"
    "ok \<Longrightarrow> bn_abs r' = bn_abs a * bn_abs b" "ok \<Longrightarrow> bn_abs r' \<noteq> 0 \<Longrightarrow> bn_neg r' = (bn_neg a \<noteq> bn_neg b)"
    "mul_roomy r a b c alloc \<longrightarrow> ok"
    using mul_impl [OF assms, of same alloc] by blast
  note s = set_minimal [OF m(2)]
  have v: "bn_int r' = bn_int a * bn_int b" if ok
  proof (cases "bn_abs r' = 0")
    case True
    then have "bn_abs a = 0 \<or> bn_abs b = 0" using m(4) [OF that] by simp
    then show ?thesis using True by (auto simp: bn_int_def)
  next
    case False
    then show ?thesis using m(4,5) [OF that] by (auto simp: bn_int_def)
  qed
  show ?thesis using m(1-3,6) s(1,3,4) v by (auto simp: BN_mul_def bn_result_def)
qed

section \<open>Squares of numbers\<close>

lemma power_two_word:
  assumes "16 \<le> al" "al < 2 ^ 31" "(of_nat al :: u32) AND (of_nat al - 1) = 0"
  shows "\<exists>k. al = 2 ^ k"
proof -
  define n where "n = bit_length al - 1"
  have "0 < al" using assms(1) by simp
  note b = bit_length_bounds [OF this]
  have n: "2 ^ n \<le> al" "al < 2 ^ Suc n" using b unfolding n_def by (auto simp: Suc_pred')
  have top: "bit m n" if "2 ^ n \<le> m" "m < 2 ^ Suc n" for m :: nat
  proof -
    have "m div 2 ^ n = 1" using that by (intro div_nat_eqI) simp_all
    then show ?thesis unfolding bit_iff_odd by simp
  qed
  have "(2 :: nat) ^ n < 2 ^ 31" using n(1) assms(2) by linarith
  then have n31: "n < 31" by (rule power_less_imp_less_exp [rotated]) simp
  have "al = 2 ^ n"
  proof (rule ccontr)
    assume "al \<noteq> 2 ^ n"
    then have "2 ^ n \<le> al - 1" "al - 1 < 2 ^ Suc n" using n by linarith+
    then have "bit (al - 1) n" by (rule top)
    moreover have "bit al n" using n by (rule top)
    moreover have "(of_nat al :: u32) - 1 = of_nat (al - 1)" using \<open>0 < al\<close> by (simp add: of_nat_diff)
    ultimately have "bit ((of_nat al :: u32) AND (of_nat al - 1)) n" using n31 by (simp add: bit_simps)
    then show False unfolding assms(3) by simp
  qed
  then show ?thesis by blast
qed

lemma sqr_words:
  assumes "al \<le> length a" "length r = 2 * al" "al < 2 ^ 31"
  shows "length (sqr_words r a al) = 2 * al" "wval (sqr_words r a al) = wval (take al a) * wval (take al a)"
proof -
  have l: "length (take 4 a) = 4" if "al = 4" using that assms(1) by simp
  have l8: "length (take 8 a) = 8" if "al = 8" using that assms(1) by simp
  have "length (sqr_words r a al) = 2 * al \<and> wval (sqr_words r a al) = wval (take al a) * wval (take al a)"
    using bn_sqr_comba4 [OF l] bn_sqr_comba8 [OF l8] bn_sqr_normal [OF assms(1,2)]
      power_two_word [OF _ assms(3)] bn_sqr_recursive [OF _ assms(1)]
    by (auto simp: sqr_words_def)
  then show "length (sqr_words r a al) = 2 * al" "wval (sqr_words r a al) = wval (take al a) * wval (take al a)" by simp_all
qed

definition sqr_done :: "bignum \<Rightarrow> bignum \<Rightarrow> bool \<Rightarrow> bignum \<Rightarrow> bool" where
  "sqr_done rr a ok r \<longleftrightarrow> bn_ok r \<and> bn_flags r = bn_flags rr \<and>
     (ok \<longrightarrow> bn_abs r = bn_abs a * bn_abs a \<and> \<not> bn_neg r \<and> bn_width r = 2 * bn_width a)"

lemma sqr_body:
  assumes rr: "bn_ok rr" and a: "bn_ok a" "bn_width a \<le> bn_max_words"
    and c: "ctx_ok c" "ctx_has c i" and body: "bn_sqr_body rr a i c alloc = (ok, r, c')"
  shows "sqr_done rr a ok r \<and> ctx_step c c' \<and> (\<forall>k. k \<noteq> i \<longrightarrow> ctx_number c' k = ctx_number c k) \<and>
    ((\<forall>k. alloc k) \<and> bn_flags rr AND BN_FLG_STATIC_DATA = 0 \<and> 8 * bn_width a \<le> bn_max_words \<longrightarrow> ok)"
proof -
  define al where "al = bn_width a"
  obtain e x where e: "bn_wexpand rr (2 * al) alloc = (e, x)" by (rule prod.exhaust)
  obtain f t where f: "bn_wexpand (ctx_number c i) (sqr_temporary al) alloc = (f, t)" by (rule prod.exhaust)
  define ws where "ws = sqr_words (take (2 * al) (bn_d x)) (bn_d a) al"
  have eq: "(ok, r, c') = (if \<not> e then (False, x, c) else if \<not> f then (False, x, ctx_store c i t)
      else (True, x\<lparr>bn_d := put_words (bn_d x) 0 ws, bn_neg := False, bn_width := 2 * al\<rparr>, ctx_store c i t))"
    unfolding body [symmetric] bn_sqr_body_def Let_def al_def [symmetric] e f ws_def by (simp split: bool.split)
  note w = wexpand [OF rr e] and tw = temp_wexpand [OF ctx_number [OF c] f]
  have st: "ctx_step c (ctx_store c i t)" by (rule step_store [OF c tw(1)])
  have ck: "\<forall>k. k \<noteq> i \<longrightarrow> ctx_number (ctx_store c i t) k = ctx_number c k" using ctx_store(8) [OF c tw(1)] by blast
  have fail: "sqr_done rr a False x" using w by (simp add: sqr_done_def)
  have room: "e \<and> f" if h: "\<forall>k. alloc k" "bn_flags rr AND BN_FLG_STATIC_DATA = 0" "8 * bn_width a \<le> bn_max_words"
  proof
    have "bn_room rr (2 * al) alloc" using h by (intro room_plain) (simp_all add: al_def)
    then show e using w(6) by simp
    have "sqr_temporary al \<le> bn_max_words" using h(3) by (simp add: sqr_temporary_def al_def)
    then show f using tw(2) h(1) by blast
  qed
  show ?thesis
  proof (cases "e \<and> f")
    case False
    then have "(\<not> ok \<and> r = x) \<and> (c' = c \<or> c' = ctx_store c i t)" using eq by (auto split: if_splits)
    then show ?thesis using False room fail st ck step_refl [OF c(1)] by auto
  next
    case True
    have len: "al \<le> length (bn_d a)" "length (take (2 * al) (bn_d x)) = 2 * al" "al < 2 ^ 31"
      using a w(1,7) True by (auto simp: al_def bn_ok_def bn_max_words_def BN_BITS2_def)
    have ws: "length ws = 2 * al" "wval ws = bn_abs a * bn_abs a"
      using sqr_words [OF len] by (simp_all add: ws_def bn_abs_def al_def)
    have "2 * al \<le> bn_dmax x" using w(7) True by simp
    note p = put_result [OF w(1) this ws(1)]
    let ?y = "x\<lparr>bn_d := put_words (bn_d x) 0 ws, bn_width := 2 * al\<rparr>"
    have r: "ok" "r = ?y\<lparr>bn_neg := False\<rparr>" "c' = ctx_store c i t" using eq True by simp_all
    have "bn_ok r" "bn_abs r = bn_abs a * bn_abs a" unfolding r(2) bn_abs_neg p(2) by (rule p(1), rule ws(2))
    then have "sqr_done rr a ok r" using r(1,2) w(4) by (simp add: sqr_done_def al_def)
    then show ?thesis using r(1,3) st ck by simp
  qed
qed

definition sqr_roomy :: "bignum \<Rightarrow> bignum \<Rightarrow> bn_ctx \<Rightarrow> (nat \<Rightarrow> bool) \<Rightarrow> bool" where
  "sqr_roomy r a c alloc \<longleftrightarrow> ctx_room c (2 ^ 40) alloc \<and> bn_flags r AND BN_FLG_STATIC_DATA = 0 \<and> 8 * bn_width a \<le> bn_max_words"

lemma bn_sqr:
  assumes "bn_ok r" "bn_ok a" "bn_width a \<le> bn_max_words" "ctx_ok c"
  shows "\<exists>ok r' c'. BN_sqr r a same c alloc = Some (ok, r', c') \<and> bn_ok r' \<and> ctx_after c c' \<and>
    (ok \<longrightarrow> bn_result (bn_int a * bn_int a) r') \<and> (sqr_roomy r a c alloc \<longrightarrow> ok)"
proof (cases "bn_width a = 0")
  case True
  have r: "bn_ok (BN_zero r)" "bn_abs (BN_zero r) = 0" "\<not> bn_neg (BN_zero r)" using assms(1) by (simp_all add: BN_zero_def bn_ok_def bn_abs_def)
  have "BN_sqr r a same c alloc = Some (True, bn_set_minimal_width (BN_zero r), c)"
    using True by (simp add: BN_sqr_def bn_sqr_consttime_def BN_zero_def)
  moreover have "ctx_after c c" using assms(4) by (simp add: ctx_after_def)
  moreover have "bn_int (BN_zero r) = 0" "bn_int a = 0" using r True by (simp_all add: bn_int_def bn_abs_def)
  ultimately show ?thesis using set_minimal [OF r(1)] by (auto simp: bn_result_def)
next
  case nz: False
  define cs where "cs = BN_CTX_start c alloc"
  have cs: "ctx_ok cs" using ctx_start(1) [OF assms(4), of alloc] by (simp add: cs_def ctx_inside_def)
  have rs: "ctx_room cs (2 ^ 42) alloc" if "sqr_roomy r a c alloc"
  proof -
    have "ctx_room c (2 ^ 40) alloc" using that by (simp add: sqr_roomy_def)
    from ctx_start(2) [OF assms(4) this] show ?thesis unfolding cs_def [symmetric]
      by (auto simp: ctx_room_def split: option.splits)
  qed
  define p where "p = (if same then
      (case BN_CTX_get cs alloc of
         (None, ctx) \<Rightarrow> (False, r, snd (BN_CTX_get ctx alloc))
       | (Some i, ctx) \<Rightarrow>
           (case BN_CTX_get ctx alloc of
              (None, ctx) \<Rightarrow> (False, r, ctx)
            | (Some k, ctx) \<Rightarrow>
                (case bn_sqr_body (ctx_number ctx i) a k ctx alloc of
                   (False, rr, ctx) \<Rightarrow> (False, r, ctx_store ctx i rr)
                 | (True, rr, ctx) \<Rightarrow> (case BN_copy r rr alloc of (ok, r) \<Rightarrow> (ok, r, ctx_store ctx i rr)))))
    else
      (case BN_CTX_get cs alloc of
         (None, ctx) \<Rightarrow> (False, r, ctx)
       | (Some k, ctx) \<Rightarrow> bn_sqr_body r a k ctx alloc))"
  have eq: "bn_sqr_consttime r a same c alloc = (case p of (ok, r, ctx) \<Rightarrow> map_option (\<lambda>ctx. (ok, r, ctx)) (BN_CTX_end ctx))"
    unfolding bn_sqr_consttime_def Let_def cs_def [symmetric] p_def using nz by simp
  obtain ok r' c1 where p: "p = (ok, r', c1)" by (rule prod_cases3)
  have main: "bn_ok r' \<and> ctx_step cs c1 \<and> (ok \<longrightarrow> bn_abs r' = bn_abs a * bn_abs a \<and> \<not> bn_neg r') \<and> (sqr_roomy r a c alloc \<longrightarrow> ok)"
  proof -
    obtain res c2 where g: "BN_CTX_get cs alloc = (res, c2)" by (rule prod.exhaust)
    have st2: "ctx_step cs c2" by (rule step_get [OF cs g])
    show ?thesis
    proof (cases res)
      case None
      have "ctx_step c2 (snd (BN_CTX_get c2 alloc))"
        using step_get [of c2 alloc] st2 by (cases "BN_CTX_get c2 alloc") (simp add: ctx_step_def)
      then have "ctx_step cs c1 \<and> \<not> ok \<and> r' = r" using p g None st2 by (auto simp: p_def intro: step_trans split: if_splits)
      moreover have "\<not> sqr_roomy r a c alloc" using ctx_get [where n = "2 ^ 42", OF cs g] None rs by auto
      ultimately show ?thesis using assms(1) by simp
    next
      case (Some i)
      note gs = ctx_get_some [OF cs g [unfolded Some]]
      show ?thesis
      proof (cases same)
        case False
        then have b: "bn_sqr_body r a i c2 alloc = (ok, r', c1)" using p g Some by (simp add: p_def)
        from sqr_body [OF assms(1-3) gs(1,2) b] step_trans [OF st2] rs show ?thesis
          by (auto simp: sqr_done_def sqr_roomy_def ctx_room_def)
      next
        case same: True
        obtain res3 c3 where g3: "BN_CTX_get c2 alloc = (res3, c3)" by (rule prod.exhaust)
        have st3: "ctx_step cs c3" by (rule step_trans [OF st2 step_get [OF gs(1) g3]])
        have room2: "ctx_room c2 (2 ^ 44) alloc" if "sqr_roomy r a c alloc"
          using gs(8) [OF rs [OF that]] by (auto simp: ctx_room_def split: option.splits)
        show ?thesis
        proof (cases res3)
          case None
          then have "ok = False" "r' = r" "c1 = c3" using p same g Some g3 by (simp_all add: p_def)
          moreover have "\<not> sqr_roomy r a c alloc" using ctx_get [where n = "2 ^ 44", OF gs(1) g3] None room2 by auto
          ultimately show ?thesis using assms(1) st3 by simp
        next
          case k: (Some k)
          note gk = ctx_get_some [OF gs(1) g3 [unfolded k]]
          have i3: "ctx_has c3 i" by (rule gk(7) [OF gs(2)])
          have t: "bn_temp (ctx_number c3 i)" by (rule ctx_number [OF gk(1) i3])
          obtain e rr c4 where b: "bn_sqr_body (ctx_number c3 i) a k c3 alloc = (e, rr, c4)" by (rule prod_cases3)
          have t1: "bn_ok (ctx_number c3 i)" "bn_flags (ctx_number c3 i) AND BN_FLG_STATIC_DATA = 0" using t by (simp_all add: bn_temp_def)
          note m = sqr_body [OF t1(1) assms(2,3) gk(1,2) b]
          have m1: "sqr_done (ctx_number c3 i) a e rr" "ctx_step c3 c4" using m by simp_all
          have m2: "sqr_roomy r a c alloc \<longrightarrow> e" using m t1(2) by (auto simp: sqr_roomy_def ctx_room_def)
          have s4: "ctx_ok c4" "ctx_has c4 i" using m1(2) i3 by (simp_all add: ctx_step_def)
          have trr: "bn_temp rr" using m1(1) t1(2) by (simp add: sqr_done_def bn_temp_def)
          have st: "ctx_step cs (ctx_store c4 i rr)" by (rule step_trans [OF st3 step_trans [OF m1(2) step_store [OF s4 trr]]])
          show ?thesis
          proof (cases e)
            case False
            then have "ok = False" "r' = r" "c1 = ctx_store c4 i rr" using p same g Some g3 k b by (simp_all add: p_def)
            then show ?thesis using assms(1) st m2 False by simp
          next
            case e: True
            obtain f r2 where cp: "BN_copy r rr alloc = (f, r2)" by (rule prod.exhaust)
            then have r: "ok = f" "r' = r2" "c1 = ctx_store c4 i rr" using p same g Some g3 k b e by (simp_all add: p_def)
            note cb = copy_back [OF assms(1) s4 trr cp]
            have wd: "bn_width rr = 2 * bn_width a" using m1(1) e by (simp add: sqr_done_def)
            have "f" if "sqr_roomy r a c alloc"
            proof -
              have "bn_room r (bn_width rr) alloc"
                by (rule room_plain) (use that wd in \<open>auto simp: sqr_roomy_def ctx_room_def\<close>)
              then show ?thesis using cb(4) by simp
            qed
            then show ?thesis using cb r st m1(1) e by (auto simp: sqr_done_def)
          qed
        qed
      qed
    qed
  qed
  obtain c2 where c2: "BN_CTX_end c1 = Some c2" "ctx_after c c2"
    using after_step [OF assms(4), of alloc c1] main by (auto simp: cs_def)
  then have s: "BN_sqr r a same c alloc = Some (ok, if ok then bn_set_minimal_width r' else r', c2)" using eq p by (simp add: BN_sqr_def)
  have "bn_int r' = bn_int a * bn_int a" if ok using main that by (auto simp: bn_int_def)
  then show ?thesis using s main c2(2) set_minimal [of r'] by (auto simp: bn_result_def)
qed

end
