(* ===== verification/Bn_Bytes.thy ===== *)
theory Bn_Bytes
  imports Bn_Bits
begin

text \<open>
  Model of \<open>crypto/fipsmodule/bn/bytes.c\<close>, the conversions between numbers and strings of bytes.
\<close>

section \<open>Conversions\<close>

text \<open>The loop of \<open>BN_bin2bn\<close>: \<open>m\<close> more bytes belong to the current word.\<close>

fun bin_loop :: "byte list \<Rightarrow> u64 \<Rightarrow> nat \<Rightarrow> nat \<Rightarrow> u64 list \<Rightarrow> u64 list" where
  "bin_loop [] word m num_words d = d"
| "bin_loop (x # xs) word m num_words d =
     (let word = push_bit 8 word OR ucast x
      in if m = 0 then bin_loop xs 0 (BN_BYTES - 1) (num_words - 1) (d[num_words - 1 := word])
         else bin_loop xs word (m - 1) num_words d)"

definition BN_bin2bn :: "byte list \<Rightarrow> bignum option \<Rightarrow> (nat \<Rightarrow> bool) \<Rightarrow> bignum option" where
  "BN_bin2bn in' ret alloc =
     (case (case ret of None \<Rightarrow> BN_new alloc | Some r \<Rightarrow> Some r) of
        None \<Rightarrow> None
      | Some ret \<Rightarrow>
          (if in' = [] then Some (ret\<lparr>bn_width := 0\<rparr>)
           else
             let num_words = (length in' - 1) div BN_BYTES + 1; m = (length in' - 1) mod BN_BYTES
             in case bn_wexpand ret num_words alloc of
                  (False, ret) \<Rightarrow> None
                | (True, ret) \<Rightarrow>
                    Some (ret\<lparr>bn_width := num_words, bn_neg := False, bn_d := bin_loop in' 0 m num_words (bn_d ret)\<rparr>)))"

text \<open>The words that bytes stand for in memory, and the bytes of words.\<close>

function le_words :: "byte list \<Rightarrow> u64 list" where
  "le_words bs = (if bs = [] then [] else le_val (take 8 bs) # le_words (drop 8 bs))"
  by pat_completeness auto
termination by (relation "measure length") auto

declare le_words.simps [simp del]

definition word_bytes :: "u64 list \<Rightarrow> byte list" where
  "word_bytes ws = concat (map (le_bytes 8) ws)"

definition BN_le2bn :: "byte list \<Rightarrow> bignum option \<Rightarrow> (nat \<Rightarrow> bool) \<Rightarrow> bignum option" where
  "BN_le2bn in' ret alloc =
     (case (case ret of None \<Rightarrow> BN_new alloc | Some r \<Rightarrow> Some r) of
        None \<Rightarrow> None
      | Some ret \<Rightarrow>
          (if in' = [] then Some (ret\<lparr>bn_width := 0, bn_neg := False\<rparr>)
           else
             let num_words = (length in' - 1) div BN_BYTES + 1
             in case bn_wexpand ret num_words alloc of
                  (False, ret) \<Rightarrow> None
                | (True, ret) \<Rightarrow>
                    Some (ret\<lparr>bn_width := num_words, bn_d := put_words (bn_d ret) 0 (le_words in')\<rparr>)))"

definition BN_bn2bin :: "bignum \<Rightarrow> byte list" where
  "BN_bn2bin in' =
     map (\<lambda>i. ucast (drop_bit (8 * (i mod BN_BYTES)) (bn_d in' ! (i div BN_BYTES)))) (rev [0..<BN_num_bytes in'])"

definition fits_in_bytes :: "byte list \<Rightarrow> nat \<Rightarrow> nat \<Rightarrow> bool" where
  "fits_in_bytes bytes num_bytes len \<longleftrightarrow> foldl (\<lambda>m x. m OR x) 0 (take (num_bytes - len) (drop len bytes)) = 0"

definition BN_bn2le_padded :: "nat \<Rightarrow> bignum \<Rightarrow> byte list option" where
  "BN_bn2le_padded len in' =
     (let bytes = word_bytes (bn_d in'); num_bytes = bn_width in' * BN_BYTES
      in if len < num_bytes \<and> \<not> fits_in_bytes bytes num_bytes len then None
         else let num_bytes = (if len < num_bytes then len else num_bytes)
              in Some (take num_bytes bytes @ replicate (len - num_bytes) 0))"

definition BN_bn2bin_padded :: "nat \<Rightarrow> bignum \<Rightarrow> byte list option" where
  "BN_bn2bin_padded len in' =
     (let bytes = word_bytes (bn_d in'); num_bytes = bn_width in' * BN_BYTES
      in if len < num_bytes \<and> \<not> fits_in_bytes bytes num_bytes len then None
         else let num_bytes = (if len < num_bytes then len else num_bytes)
              in Some (replicate (len - num_bytes) 0 @ rev (take num_bytes bytes)))"

definition BN_get_word :: "bignum \<Rightarrow> u64" where
  "BN_get_word bn = (if bn_minimal_width bn = 0 then 0 else if bn_minimal_width bn = 1 then bn_d bn ! 0 else -1)"

definition BN_get_u64 :: "bignum \<Rightarrow> u64 option" where
  "BN_get_u64 bn = (if bn_minimal_width bn = 0 then Some 0 else if bn_minimal_width bn = 1 then Some (bn_d bn ! 0) else None)"

section \<open>Values of bytes\<close>

definition bval :: "byte list \<Rightarrow> nat" where
  "bval bs = horner_sum unat 256 bs"

lemma bval_simps [simp]: "bval [] = 0" "bval (x # bs) = unat x + 256 * bval bs"
  by (simp_all add: bval_def)

lemma bval_append: "bval (xs @ ys) = bval xs + 256 ^ length xs * bval ys"
  by (induction xs) (simp_all add: algebra_simps)

lemma unat_byte: "unat (x :: byte) < 256"
  using unsigned_less [of x, where 'a = nat] by simp

lemma bval_less: "bval bs < 256 ^ length bs"
proof (induction bs)
  case (Cons x bs)
  then have "256 * Suc (bval bs) \<le> 256 * 256 ^ length bs" by (intro mult_le_mono) simp_all
  then show ?case using unat_byte [of x] by simp
qed simp

lemma bval_zeros [simp]: "bval (replicate n 0) = 0"
  by (induction n) simp_all

lemma bval_eq_0: "bval bs = 0 \<longleftrightarrow> (\<forall>x \<in> set bs. x = 0)"
  by (induction bs) (auto simp: unat_eq_0)

lemma bval_inj: "length xs = length ys \<Longrightarrow> bval xs = bval ys \<longleftrightarrow> xs = ys"
proof (induction xs ys rule: list_induct2)
  case (Cons x xs y ys)
  show ?case
  proof
    assume "bval (x # xs) = bval (y # ys)"
    then have e: "unat x + 256 * bval xs = unat y + 256 * bval ys" by simp
    have "(unat x + 256 * bval xs) mod 256 = unat x" "(unat y + 256 * bval ys) mod 256 = unat y"
      using unat_byte [of x] unat_byte [of y] by (simp_all only: mod_mult_self2 mod_less)
    then have "unat x = unat y" using e by metis
    then show "x # xs = y # ys" using e Cons.IH by (simp add: word_unat_eq_iff)
  qed simp
qed simp

lemma bval_le_bytes: "bval (le_bytes k (w :: u64)) = unat w mod 256 ^ k"
proof (induction k w rule: le_bytes.induct)
  case (2 k v)
  have u: "unat (ucast v :: byte) = unat v mod 256" unfolding unsigned_ucast_eq take_bit_eq_mod by simp
  have d: "unat (drop_bit 8 v) = unat v div 256" 
    using drop_bit_eq_div [of 8 "unat v"] by (simp only: unat_drop_bit_eq) simp
  have "bval (le_bytes (Suc k) v) = unat v mod 256 + 256 * (unat v div 256 mod 256 ^ k)" using 2 by (simp add: u d)
  also have "\<dots> = unat v mod (256 * 256 ^ k)" by (simp add: mod_mult2_eq)
  finally show ?case by simp
qed simp

lemma bval_bytes_8: "bval (le_bytes 8 (w :: u64)) = unat w"
  unfolding bval_le_bytes using unat64 [of w] by simp

lemma unat_le_val: "length bs \<le> 8 \<Longrightarrow> unat (le_val bs :: u64) = bval bs"
proof -
  assume l: "length bs \<le> 8"
  have b: "le_bytes (length bs) (le_val bs :: u64) = bs" using le_bytes_le_val [of bs, where 'a = 64] l by simp
  then have "bval bs = unat (le_val bs :: u64) mod 256 ^ length bs" using bval_le_bytes [of "length bs" "le_val bs"] by simp
  also have "\<dots> = unat (take_bit (8 * length bs) (le_val bs :: u64))"
    unfolding unsigned_take_bit_eq by (simp add: take_bit_nat_def power_mult)
  also have "take_bit (8 * length bs) (le_val bs :: u64) = le_val bs"
    using le_val_le_bytes [of "length bs" "le_val bs :: u64"] b by simp
  finally show ?thesis by simp
qed

lemma shift_in: "unat (w :: u64) < 2 ^ 56 \<Longrightarrow> unat (push_bit 8 w OR ucast (x :: byte)) = 256 * unat w + unat x"
proof -
  assume w: "unat w < 2 ^ 56"
  have d: "push_bit 8 w AND ucast x = 0" by (rule bit_word_eqI) (auto simp: bit_simps dest: bit_imp_le_length)
  have p: "unat (push_bit 8 w) = 256 * unat w"
    using w by (simp add: push_bit_eq_mult unat_word_ariths)
  have u: "unat (ucast x :: u64) = unat x" by (simp add: unsigned_ucast_eq take_bit_nat_eq_self_iff) (use unat_byte [of x] in simp)
  have "push_bit 8 w OR ucast x = push_bit 8 w + ucast x" using d by (simp add: disjunctive_add_eq_or)
  then show ?thesis using w unat_byte [of x] p u by (simp add: unat_add64)
qed

lemma bval_le_words: "wval (le_words bs) = bval bs \<and> length (le_words bs) = (length bs + 7) div 8"
proof (induction bs rule: le_words.induct)
  case (1 bs)
  show ?case
  proof (cases "bs = []")
    case False
    have "unat (le_val (take 8 bs) :: u64) = bval (take 8 bs)" by (rule unat_le_val) simp
    moreover have "bval bs = bval (take 8 bs) + 2 ^ 64 * bval (drop 8 bs)"
    proof (cases "length bs \<le> 8")
      case False
      then show ?thesis using bval_append [of "take 8 bs" "drop 8 bs"] by simp
    qed simp
    ultimately have "wval (le_words bs) = bval bs" using False 1 by (subst le_words.simps) simp
    moreover have "length (le_words bs) = (length bs + 7) div 8"
      using False 1 by (subst le_words.simps) (cases "length bs \<le> 8"; simp; cases bs; simp)
    ultimately show ?thesis by simp
  qed (simp add: le_words.simps)
qed

lemma word_bytes: "bval (word_bytes ws) = wval ws" "length (word_bytes ws) = 8 * length ws"
proof -
  show "length (word_bytes ws) = 8 * length ws" by (induction ws) (simp_all add: word_bytes_def)
  show "bval (word_bytes ws) = wval ws"
  proof (induction ws)
    case (Cons w ws)
    have "word_bytes (w # ws) = le_bytes 8 w @ word_bytes ws" by (simp add: word_bytes_def)
    then show ?case using Cons bval_bytes_8 [of w] by (simp only: bval_append length_le_bytes wval_simps) simp
  qed (simp add: word_bytes_def)
qed

lemma word_bytes_take: "take (8 * n) (word_bytes ws) = word_bytes (take n ws)"
proof (induction ws arbitrary: n)
  case (Cons w ws)
  have w: "word_bytes (w # ws) = le_bytes 8 w @ word_bytes ws" for w ws by (simp add: word_bytes_def)
  show ?case
  proof (cases n)
    case (Suc k)
    have "take (8 * n) (word_bytes (w # ws)) = le_bytes 8 w @ take (8 * k) (word_bytes ws)"
      unfolding w Suc by (simp only: take_append length_le_bytes) (simp del: le_bytes_numeral)
    then show ?thesis using Cons unfolding Suc by (simp only: take_Suc_Cons w)
  qed (simp add: word_bytes_def)
qed (simp add: word_bytes_def)

section \<open>What the conversions compute\<close>

lemma bin_loop:
  assumes "length xs = m + 1 + 8 * (nw - 1)" "0 < nw" "nw \<le> length d" "m \<le> 7" "unat word < 2 ^ (8 * (7 - m))"
  shows "length (bin_loop xs word m nw d) = length d \<and> drop nw (bin_loop xs word m nw d) = drop nw d \<and>
    wval (take nw (bin_loop xs word m nw d)) = unat word * 256 ^ length xs + bval (rev xs)"
  using assms
proof (induction xs word m nw d rule: bin_loop.induct)
  case (2 x xs word m nw d)
  define word' where "word' = push_bit 8 word OR ucast x"
  have "(2 :: nat) ^ (8 * (7 - m)) \<le> 2 ^ 56" by (intro power_increasing) simp_all
  then have "unat word < 2 ^ 56" using 2(7) by linarith
  then have w: "unat word' = 256 * unat word + unat x" unfolding word'_def by (rule shift_in)
  have bv: "bval (rev (x # xs)) = bval (rev xs) + 256 ^ length xs * unat x" by (simp add: bval_append)
  show ?case
  proof (cases "m = 0")
    case True
    let ?d = "d[nw - 1 := word']"
    have eq: "bin_loop (x # xs) word m nw d = bin_loop xs 0 7 (nw - 1) ?d"
      using True by (simp add: word'_def BN_BYTES_def)
    have top: "take nw r = take (nw - 1) r @ [word']" if "length r = length d" "drop (nw - 1) r = drop (nw - 1) ?d" for r
    proof -
      have lt: "nw - 1 < length r" "nw - 1 < length ?d" using that(1) 2(4,5) by simp_all
      have "r ! (nw - 1) = hd (drop (nw - 1) ?d)" unfolding that(2) [symmetric] by (rule hd_drop_conv_nth [OF lt(1), symmetric])
      also have "\<dots> = ?d ! (nw - 1)" by (rule hd_drop_conv_nth [OF lt(2)])
      also have "\<dots> = word'" using lt(2) by simp
      finally have "r ! (nw - 1) = word'" .
      then show ?thesis using take_Suc_conv_app_nth [of "nw - 1" r] that(1) 2(4,5) by simp
    qed
    show ?thesis
    proof (cases "nw = 1")
      case n1: True
      then have "xs = []" using 2(3) True by simp
      then show ?thesis using n1 eq w top [of ?d] 2(5) by simp
    next
      case False
      have l: "length xs = 7 + 1 + 8 * (nw - 1 - 1)" "0 < nw - 1" using 2(3,4) True False by simp_all
      have le: "nw - 1 \<le> length ?d" using 2(5) by simp
      have IH: "length (bin_loop xs 0 7 (nw - 1) ?d) = length ?d" "drop (nw - 1) (bin_loop xs 0 7 (nw - 1) ?d) = drop (nw - 1) ?d"
        "wval (take (nw - 1) (bin_loop xs 0 7 (nw - 1) ?d)) = bval (rev xs)"
        using 2(1) [OF word'_def True] l le by (simp_all add: BN_BYTES_def)
      let ?r = "bin_loop xs 0 7 (nw - 1) ?d"
      have "wval (take nw ?r) = bval (rev xs) + 2 ^ (64 * (nw - 1)) * unat word'"
        using top [of ?r] IH 2(5) by (simp add: wval_append)
      moreover have "(2 :: nat) ^ (64 * (nw - 1)) = 256 ^ length xs"
      proof -
        have "length xs = 8 * (nw - 1)" using l by simp
        then have "(256 :: nat) ^ length xs = (256 ^ 8) ^ (nw - 1)" by (simp only: power_mult)
        then show ?thesis by (simp add: power_mult)
      qed
      moreover have "drop nw ?r = drop nw d"
      proof -
        have "drop nw ?r = drop 1 (drop (nw - 1) ?r)" using 2(4) by simp
        also have "\<dots> = drop nw ?d" unfolding IH(2) using 2(4) by simp
        finally show ?thesis using 2(4) by simp
      qed
      ultimately show ?thesis using IH(1) w unfolding eq bv by (simp add: algebra_simps)
    qed
  next
    case False
    have eq: "bin_loop (x # xs) word m nw d = bin_loop xs word' (m - 1) nw d"
      using False by (simp add: word'_def)
    have l: "length xs = m - 1 + 1 + 8 * (nw - 1)" "m - 1 \<le> 7" using 2(3,6) False by simp_all
    have lt: "unat word' < 2 ^ (8 * (7 - (m - 1)))"
    proof -
      have e: "(2 :: nat) ^ (8 * (7 - (m - 1))) = 256 * 2 ^ (8 * (7 - m))"
      proof -
        have "7 - (m - 1) = Suc (7 - m)" using 2(6) False by simp
        then show ?thesis by (simp add: power_add)
      qed
      have "256 * Suc (unat word) \<le> 256 * 2 ^ (8 * (7 - m))" using 2(7) by (intro mult_le_mono) simp_all
      then show ?thesis unfolding w e using unat_byte [of x] by simp
    qed
    show ?thesis using 2(2) [OF word'_def False l(1) 2(4,5) l(2) lt] unfolding eq bv w by (simp add: algebra_simps)
  qed
qed simp

lemma words_of_bytes:
  fixes n :: nat
  shows "0 < n \<Longrightarrow> n = (n - 1) mod 8 + 1 + 8 * ((n - 1) div 8)" "(n + 7) div 8 = (if n = 0 then 0 else (n - 1) div 8 + 1)"
proof -
  show "0 < n \<Longrightarrow> n = (n - 1) mod 8 + 1 + 8 * ((n - 1) div 8)" by presburger
  show "(n + 7) div 8 = (if n = 0 then 0 else (n - 1) div 8 + 1)" by (cases n) simp_all
qed

text \<open>The number that the bytes are read to: the given one, or a new one.\<close>

definition bn_target :: "bignum option \<Rightarrow> (nat \<Rightarrow> bool) \<Rightarrow> bignum option" where
  "bn_target ret alloc = (case ret of None \<Rightarrow> BN_new alloc | Some r \<Rightarrow> Some r)"

lemma new_ok_0: "BN_new alloc = Some b \<Longrightarrow> bn_ok b \<and> bn_abs b = 0 \<and> \<not> bn_neg b"
  by (auto simp: BN_new_def bn_ok_def BN_init_def bn_abs_def split: if_splits)

lemma bn_bin2bn:
  assumes "\<And>r. ret = Some r \<Longrightarrow> bn_ok r" "BN_bin2bn bs ret alloc = Some b"
  shows "bn_ok b" "bn_abs b = bval (rev bs)" "bs \<noteq> [] \<Longrightarrow> \<not> bn_neg b" "bn_width b = (length bs + 7) div 8"
proof -
  obtain r where r: "(case ret of None \<Rightarrow> BN_new alloc | Some r \<Rightarrow> Some r) = Some r"
    using assms(2) by (auto simp: BN_bin2bn_def split: option.splits)
  then have ok: "bn_ok r" using assms(1) new_ok_0 [of alloc r] by (auto split: option.splits)
  have "bn_ok b \<and> bn_abs b = bval (rev bs) \<and> (bs \<noteq> [] \<longrightarrow> \<not> bn_neg b) \<and> bn_width b = (length bs + 7) div 8"
  proof (cases "bs = []")
    case True
    then show ?thesis using assms(2) r ok by (auto simp: BN_bin2bn_def bn_ok_def bn_abs_def)
  next
    case False
    define nw where "nw = (length bs - 1) div 8 + 1"
    obtain e x where e: "bn_wexpand r nw alloc = (e, x)" by (rule prod.exhaust)
    have b: "e" "b = x\<lparr>bn_width := nw, bn_neg := False, bn_d := bin_loop bs 0 ((length bs - 1) mod 8) nw (bn_d x)\<rparr>"
      using assms(2) False e unfolding BN_bin2bn_def r by (auto simp: nw_def BN_BYTES_def Let_def split: bool.splits)
    note w = wexpand [OF ok e]
    have l: "length bs = (length bs - 1) mod 8 + 1 + 8 * (nw - 1)" "0 < nw" "nw \<le> length (bn_d x)" "(length bs - 1) mod 8 \<le> 7"
      "unat (0 :: u64) < 2 ^ (8 * (7 - (length bs - 1) mod 8))"
      using words_of_bytes(1) [of "length bs"] False w(1,7) b(1) by (simp_all add: nw_def bn_ok_def less_Suc_eq_le [symmetric])
    note p = bin_loop [OF l]
    have "nw = (length bs + 7) div 8" unfolding words_of_bytes(2) nw_def using False by simp
    then show ?thesis unfolding b(2) using p w(1) l(3) by (simp add: bn_ok_def bn_abs_def)
  qed
  then show "bn_ok b" "bn_abs b = bval (rev bs)" "bs \<noteq> [] \<Longrightarrow> \<not> bn_neg b" "bn_width b = (length bs + 7) div 8" by simp_all
qed

lemma bn_le2bn:
  assumes "\<And>r. ret = Some r \<Longrightarrow> bn_ok r" "BN_le2bn bs ret alloc = Some b"
  shows "bn_ok b" "bn_abs b = bval bs" "bn_width b = (length bs + 7) div 8"
    "bs \<noteq> [] \<Longrightarrow> bn_neg b = (case ret of None \<Rightarrow> False | Some r \<Rightarrow> bn_neg r)"
proof -
  obtain r where r: "(case ret of None \<Rightarrow> BN_new alloc | Some r \<Rightarrow> Some r) = Some r"
    using assms(2) by (auto simp: BN_le2bn_def split: option.splits)
  then have ok: "bn_ok r" "bn_neg r = (case ret of None \<Rightarrow> False | Some r \<Rightarrow> bn_neg r)"
    using assms(1) new_ok_0 [of alloc r] by (auto split: option.splits)
  have "bn_ok b \<and> bn_abs b = bval bs \<and> bn_width b = (length bs + 7) div 8 \<and> (bs \<noteq> [] \<longrightarrow> bn_neg b = bn_neg r)"
  proof (cases "bs = []")
    case True
    then show ?thesis using assms(2) r ok by (auto simp: BN_le2bn_def bn_ok_def bn_abs_def)
  next
    case False
    define nw where "nw = (length bs - 1) div 8 + 1"
    have nw: "nw = (length bs + 7) div 8" unfolding words_of_bytes(2) nw_def using False by simp
    obtain e x where e: "bn_wexpand r nw alloc = (e, x)" by (rule prod.exhaust)
    have b: "e" "b = x\<lparr>bn_width := nw, bn_d := put_words (bn_d x) 0 (le_words bs)\<rparr>"
      using assms(2) False e unfolding BN_le2bn_def r by (auto simp: nw_def BN_BYTES_def Let_def split: bool.splits)
    note w = wexpand [OF ok(1) e]
    have l: "length (le_words bs) = nw" "wval (le_words bs) = bval bs" using bval_le_words [of bs] nw by simp_all
    have "b = x\<lparr>bn_d := put_words (bn_d x) 0 (le_words bs), bn_width := nw\<rparr>" using b(2) by simp
    then show ?thesis using put_result [OF w(1) w(7) [OF b(1)] l(1)] l(2) w(3) nw by simp
  qed
  then show "bn_ok b" "bn_abs b = bval bs" "bn_width b = (length bs + 7) div 8"
    "bs \<noteq> [] \<Longrightarrow> bn_neg b = (case ret of None \<Rightarrow> False | Some r \<Rightarrow> bn_neg r)" using ok(2) by simp_all
qed

lemma bval_take: "n \<le> length bs \<Longrightarrow> bval bs = bval (take n bs) + 256 ^ n * bval (drop n bs)"
  using bval_append [of "take n bs" "drop n bs"] by (simp add: min_absorb2)

lemma bval_fits:
  assumes "n \<le> length bs"
  shows "bval (drop n bs) = 0 \<longleftrightarrow> bval bs < 256 ^ n" "bval bs < 256 ^ n \<Longrightarrow> bval (take n bs) = bval bs"
proof -
  have lt: "bval (take n bs) < 256 ^ n" using bval_less [of "take n bs"] assms by simp
  show z: "bval (drop n bs) = 0 \<longleftrightarrow> bval bs < 256 ^ n"
  proof
    assume "bval bs < 256 ^ n"
    then have "256 ^ n * bval (drop n bs) < 256 ^ n * 1" using bval_take [OF assms] by linarith
    then show "bval (drop n bs) = 0" by simp
  qed (use lt bval_take [OF assms] in simp)
  show "bval bs < 256 ^ n \<Longrightarrow> bval (take n bs) = bval bs" using z bval_take [OF assms] by simp
qed

text \<open>The bytes of the words of a number.\<close>

lemma number_bytes:
  assumes "bn_ok b"
  shows "length (word_bytes (bn_d b)) = 8 * bn_dmax b" "take (bn_width b * 8) (word_bytes (bn_d b)) = word_bytes (take (bn_width b) (bn_d b))"
    "bval (take (bn_width b * 8) (word_bytes (bn_d b))) = bn_abs b" "length (take (bn_width b * 8) (word_bytes (bn_d b))) = bn_width b * 8"
  using assms word_bytes_take [of "bn_width b" "bn_d b"]
  by (simp_all add: word_bytes bn_ok_def bn_abs_def mult.commute)

lemma nth_word_bytes: "i < 8 * length ws \<Longrightarrow> word_bytes ws ! i = ucast (drop_bit (8 * (i mod 8)) (ws ! (i div 8)))"
proof (induction ws arbitrary: i)
  case (Cons w ws)
  have e: "word_bytes (w # ws) = le_bytes 8 w @ word_bytes ws" by (simp add: word_bytes_def)
  show ?case
  proof (cases "i < 8")
    case True
    have "le_bytes 8 w ! i = ucast (drop_bit (8 * i) w)" by (rule nth_le_bytes [OF True])
    then show ?thesis using True unfolding e by (simp only: nth_append length_le_bytes if_True) simp
  next
    case False
    then have "i div 8 = Suc ((i - 8) div 8)" "i mod 8 = (i - 8) mod 8" by (simp_all add: le_div_geq le_mod_geq)
    then show ?thesis using False Cons unfolding e by (simp only: nth_append length_le_bytes if_False) simp
  qed
qed simp

lemma num_bytes_bounds:
  assumes "bn_ok b"
  shows "bn_abs b < 256 ^ BN_num_bytes b" "BN_num_bytes b \<le> bn_width b * 8" "BN_num_bytes b \<noteq> 0 \<Longrightarrow> 256 ^ (BN_num_bytes b - 1) \<le> bn_abs b"
proof -
  define k where "k = bit_length (bn_abs b)"
  have n: "BN_num_bytes b = (k + 7) div 8" using num_bits [OF assms] by (simp add: BN_num_bytes_def k_def)
  have z: "k = 0 \<longleftrightarrow> bn_abs b = 0" using bit_length_bounds [of "bn_abs b"] by (cases "bn_abs b = 0") (auto simp: k_def)
  have up: "bn_abs b < 2 ^ k"
    using bit_length_bounds [of "bn_abs b"] by (cases "bn_abs b = 0") (auto simp: k_def)
  have p: "(256 :: nat) ^ m = 2 ^ (8 * m)" for m by (simp add: power_mult)
  show "bn_abs b < 256 ^ BN_num_bytes b"
    unfolding p n by (rule less_le_trans [OF up]) (intro power_increasing; simp)
  have lo: "2 ^ (k - 1) \<le> bn_abs b" if "k \<noteq> 0"
    using bit_length_bounds [of "bn_abs b"] that z by (simp add: k_def)
  show "BN_num_bytes b \<le> bn_width b * 8"
  proof (cases "k = 0")
    case False
    have "(2 :: nat) ^ (k - 1) < 2 ^ (64 * bn_width b)" using lo [OF False] bn_abs_less [OF assms] by linarith
    then have "k - 1 < 64 * bn_width b" by (rule power_less_imp_less_exp [rotated]) simp
    then show ?thesis unfolding n by linarith
  qed (simp add: n)
  assume "BN_num_bytes b \<noteq> 0"
  then have k0: "k \<noteq> 0" using n by (intro notI) simp
  have "(256 :: nat) ^ (BN_num_bytes b - 1) \<le> 2 ^ (k - 1)"
    unfolding p n using k0 by (intro power_increasing; presburger)
  then show "256 ^ (BN_num_bytes b - 1) \<le> bn_abs b" using lo [OF k0] by linarith
qed

lemma bn_bn2bin:
  assumes "bn_ok b"
  shows "length (BN_bn2bin b) = BN_num_bytes b" "bval (rev (BN_bn2bin b)) = bn_abs b" "BN_bn2bin b \<noteq> [] \<Longrightarrow> hd (BN_bn2bin b) \<noteq> 0"
proof -
  let ?n = "BN_num_bytes b"
  show len: "length (BN_bn2bin b) = ?n" by (simp add: BN_bn2bin_def)
  note nb = num_bytes_bounds [OF assms] and wb = number_bytes [OF assms]
  have wd: "bn_width b * 8 \<le> 8 * length (bn_d b)" using assms by (simp add: bn_ok_def)
  have r: "rev (BN_bn2bin b) = take ?n (take (bn_width b * 8) (word_bytes (bn_d b)))"
  proof (rule nth_equalityI)
    show "length (rev (BN_bn2bin b)) = length (take ?n (take (bn_width b * 8) (word_bytes (bn_d b))))"
      using len nb(2) wb(4) by simp
    fix i
    assume "i < length (rev (BN_bn2bin b))"
    then have i: "i < ?n" using len by simp
    then show "rev (BN_bn2bin b) ! i = take ?n (take (bn_width b * 8) (word_bytes (bn_d b))) ! i"
      using nth_word_bytes [of i "bn_d b"] nb(2) wd by (simp add: BN_bn2bin_def rev_map BN_BYTES_def)
  qed
  show v: "bval (rev (BN_bn2bin b)) = bn_abs b"
    unfolding r using bval_fits(2) [of ?n "take (bn_width b * 8) (word_bytes (bn_d b))"] nb wb by simp
  assume ne: "BN_bn2bin b \<noteq> []"
  show "hd (BN_bn2bin b) \<noteq> 0"
  proof
    assume z: "hd (BN_bn2bin b) = 0"
    obtain ys where ys: "BN_bn2bin b = 0 # ys" using ne z by (cases "BN_bn2bin b") auto
    then have "bn_abs b = bval (rev ys)" using v by (simp add: bval_append)
    moreover have "bval (rev ys) < 256 ^ length ys" using bval_less [of "rev ys"] by simp
    moreover have "256 ^ (?n - 1) \<le> bn_abs b" using nb(3) len ys by (metis length_Cons nat.distinct(1))
    moreover have "?n - 1 = length ys" using len ys by simp
    ultimately show False by simp
  qed
qed

lemma fits_in_bytes: "fits_in_bytes bs n len \<longleftrightarrow> bval (take (n - len) (drop len bs)) = 0"
proof -
  have "x OR y = 0 \<longleftrightarrow> x = 0 \<and> y = 0" for x y :: byte by (metis or_eq_0_iff)
  then have "foldl (\<lambda>m x. m OR x) a ws = (0 :: byte) \<longleftrightarrow> a = 0 \<and> (\<forall>w \<in> set ws. w = 0)" for a ws
    by (induction ws arbitrary: a) auto
  then show ?thesis by (simp add: fits_in_bytes_def bval_eq_0)
qed

lemma bn_padded:
  assumes "bn_ok b"
  shows "bn_abs b < 256 ^ len \<Longrightarrow> \<exists>bs. BN_bn2le_padded len b = Some bs \<and> length bs = len \<and> bval bs = bn_abs b"
    "\<not> bn_abs b < 256 ^ len \<Longrightarrow> BN_bn2le_padded len b = None"
    "BN_bn2bin_padded len b = map_option rev (BN_bn2le_padded len b)"
proof -
  let ?bs = "word_bytes (bn_d b)" and ?n = "bn_width b * 8"
  note wb = number_bytes [OF assms]
  have f: "len < ?n \<Longrightarrow> fits_in_bytes ?bs ?n len \<longleftrightarrow> bn_abs b < 256 ^ len"
    using bval_fits(1) [of len "take ?n ?bs"] wb(3,4) by (simp add: fits_in_bytes drop_take)
  have g: "\<not> len < ?n \<Longrightarrow> bn_abs b < 256 ^ len"
  proof -
    assume "\<not> len < ?n"
    then have "(256 :: nat) ^ ?n \<le> 256 ^ len" by (intro power_increasing) simp_all
    moreover have "bn_abs b < 256 ^ ?n" using bval_less [of "take ?n ?bs"] unfolding wb(3,4) .
    ultimately show ?thesis by linarith
  qed
  have le: "BN_bn2le_padded len b = (if bn_abs b < 256 ^ len then
      Some (take (if len < ?n then len else ?n) ?bs @ replicate (len - (if len < ?n then len else ?n)) 0) else None)"
    using f g by (auto simp: BN_bn2le_padded_def BN_BYTES_def Let_def)
  have "BN_bn2bin_padded len b = (if bn_abs b < 256 ^ len then
      Some (replicate (len - (if len < ?n then len else ?n)) 0 @ rev (take (if len < ?n then len else ?n) ?bs)) else None)"
    using f g by (auto simp: BN_bn2bin_padded_def BN_BYTES_def Let_def)
  then show "BN_bn2bin_padded len b = map_option rev (BN_bn2le_padded len b)" unfolding le by simp
  show "\<not> bn_abs b < 256 ^ len \<Longrightarrow> BN_bn2le_padded len b = None" unfolding le by simp
  assume lt: "bn_abs b < 256 ^ len"
  let ?r = "take (if len < ?n then len else ?n) ?bs @ replicate (len - (if len < ?n then len else ?n)) 0"
  have "length ?r = len \<and> bval ?r = bn_abs b"
  proof (cases "len < ?n")
    case l: True
    have "take len ?bs = take len (take ?n ?bs)" using l by simp
    then have "bval (take len ?bs) = bn_abs b" using bval_fits(2) [of len "take ?n ?bs"] wb(3,4) l lt by simp
    moreover have "length (take len ?bs) = len" using wb(1) l assms by (simp add: bn_ok_def)
    ultimately show ?thesis using l by simp
  next
    case False
    then show ?thesis using wb(3,4) by (simp add: bval_append)
  qed
  then show "\<exists>bs. BN_bn2le_padded len b = Some bs \<and> length bs = len \<and> bval bs = bn_abs b"
    unfolding le if_P [OF lt] by blast
qed

end
