(* ===== verification/Bn_Shift.thy ===== *)
theory Bn_Shift
  imports Bn_Bits
begin

text \<open>
  Model of \<open>crypto/fipsmodule/bn/shift.c\<close>, and the value of every shift.
\<close>

section \<open>Shifts\<close>

text \<open>The loop of \<open>BN_lshift\<close> from the highest word down; an operand that is the result is read before it is overwritten.\<close>

fun lshift_loop :: "u64 list \<Rightarrow> nat \<Rightarrow> nat \<Rightarrow> u64 list \<Rightarrow> nat \<Rightarrow> u64 list" where
  "lshift_loop t nw lb f 0 = t"
| "lshift_loop t nw lb f (Suc i) =
     (let l = f ! i; rb = BN_BITS2 - lb;
          t = t[nw + i + 1 := t ! (nw + i + 1) OR drop_bit rb l];
          t = t[nw + i := push_bit lb l]
      in lshift_loop t nw lb f i)"

definition BN_lshift :: "bignum \<Rightarrow> bignum \<Rightarrow> int \<Rightarrow> (nat \<Rightarrow> bool) \<Rightarrow> bool \<times> bignum" where
  "BN_lshift r a n alloc =
     (if n < 0 then (False, r)
      else
        let r = r\<lparr>bn_neg := bn_neg a\<rparr>; nw = nat n div BN_BITS2
        in case bn_wexpand r (bn_width a + nw + 1) alloc of
             (False, r) \<Rightarrow> (False, r)
           | (True, r) \<Rightarrow>
               (let lb = nat n mod BN_BITS2;
                    t = (bn_d r)[bn_width a + nw := 0];
                    t = (if lb = 0 then put_words t nw (take (bn_width a) (bn_d a))
                         else lshift_loop t nw lb (bn_d a) (bn_width a));
                    t = put_words t 0 (replicate nw 0)
                in (True, bn_set_minimal_width (r\<lparr>bn_d := t, bn_width := bn_width a + nw + 1\<rparr>))))"

fun lshift1_loop :: "u64 \<Rightarrow> u64 list \<Rightarrow> u64 list \<times> u64" where
  "lshift1_loop c [] = ([], c)"
| "lshift1_loop c (t # ap) =
     (case lshift1_loop (drop_bit (BN_BITS2 - 1) t) ap of (rp, c') \<Rightarrow> ((push_bit 1 t OR c) # rp, c'))"

text \<open>\<open>same\<close> tells that \<open>r\<close> is \<open>a\<close>.\<close>

definition BN_lshift1 :: "bignum \<Rightarrow> bignum \<Rightarrow> bool \<Rightarrow> (nat \<Rightarrow> bool) \<Rightarrow> bool \<times> bignum" where
  "BN_lshift1 r a same alloc =
     (let r = (if same then r else r\<lparr>bn_neg := bn_neg a\<rparr>)
      in case bn_wexpand r (bn_width a + 1) alloc of
           (False, r) \<Rightarrow> (False, r)
         | (True, r) \<Rightarrow>
             (case lshift1_loop 0 (take (bn_width a) (bn_d a)) of
                (rp, c) \<Rightarrow>
                  (let r = r\<lparr>bn_d := put_words (bn_d r) 0 rp, bn_width := bn_width a\<rparr>
                   in (True, if c \<noteq> 0 then r\<lparr>bn_d := (bn_d r)[bn_width r := 1], bn_width := bn_width r + 1\<rparr> else r))))"

text \<open>The words of a right shift by less than a word.\<close>

fun rshift_loop :: "nat \<Rightarrow> u64 list \<Rightarrow> u64 list" where
  "rshift_loop s [] = []"
| "rshift_loop s [x] = [drop_bit s x]"
| "rshift_loop s (x # y # a) = (drop_bit s x OR push_bit (BN_BITS2 - s) y) # rshift_loop s (y # a)"

definition bn_rshift_words :: "u64 list \<Rightarrow> nat \<Rightarrow> nat \<Rightarrow> u64 list" where
  "bn_rshift_words a shift num =
     (let shift_bits = shift mod BN_BITS2; shift_words = shift div BN_BITS2
      in if shift_words \<ge> num then replicate num 0
         else (if shift_bits = 0 then take (num - shift_words) (drop shift_words a)
               else rshift_loop shift_bits (take (num - shift_words) (drop shift_words a))) @ replicate shift_words 0)"

definition BN_rshift :: "bignum \<Rightarrow> bignum \<Rightarrow> int \<Rightarrow> (nat \<Rightarrow> bool) \<Rightarrow> bool \<times> bignum" where
  "BN_rshift r a n alloc =
     (if n < 0 then (False, r)
      else case bn_wexpand r (bn_width a) alloc of
             (False, r) \<Rightarrow> (False, r)
           | (True, r) \<Rightarrow>
               (True, bn_set_minimal_width
                        (r\<lparr>bn_d := put_words (bn_d r) 0 (bn_rshift_words (bn_d a) (nat n) (bn_width a)),
                           bn_neg := bn_neg a, bn_width := bn_width a\<rparr>)))"

definition bn_rshift1_words :: "u64 list \<Rightarrow> nat \<Rightarrow> u64 list" where
  "bn_rshift1_words a num = (if num = 0 then [] else rshift_loop 1 (take num a))"

definition BN_rshift1 :: "bignum \<Rightarrow> bignum \<Rightarrow> (nat \<Rightarrow> bool) \<Rightarrow> bool \<times> bignum" where
  "BN_rshift1 r a alloc =
     (case bn_wexpand r (bn_width a) alloc of
        (False, r) \<Rightarrow> (False, r)
      | (True, r) \<Rightarrow>
          (True, bn_set_minimal_width
                   (r\<lparr>bn_d := put_words (bn_d r) 0 (bn_rshift1_words (bn_d a) (bn_width a)), bn_width := bn_width a, bn_neg := bn_neg a\<rparr>)))"

section \<open>Bits\<close>

definition BN_set_bit :: "bignum \<Rightarrow> int \<Rightarrow> (nat \<Rightarrow> bool) \<Rightarrow> bool \<times> bignum" where
  "BN_set_bit a n alloc =
     (if n < 0 then (False, a)
      else
        let i = nat n div BN_BITS2; j = nat n mod BN_BITS2;
            grown = (if bn_width a \<le> i then
                       (case bn_wexpand a (i + 1) alloc of
                          (False, a) \<Rightarrow> (False, a)
                        | (True, a) \<Rightarrow>
                            (True, a\<lparr>bn_d := put_words (bn_d a) (bn_width a) (replicate (i + 1 - bn_width a) 0), bn_width := i + 1\<rparr>))
                     else (True, a))
        in case grown of
             (False, a) \<Rightarrow> (False, a)
           | (True, a) \<Rightarrow> (True, a\<lparr>bn_d := (bn_d a)[i := bn_d a ! i OR push_bit j 1]\<rparr>))"

definition BN_clear_bit :: "bignum \<Rightarrow> int \<Rightarrow> bool \<times> bignum" where
  "BN_clear_bit a n =
     (if n < 0 then (False, a)
      else
        let i = nat n div BN_BITS2; j = nat n mod BN_BITS2
        in if bn_width a \<le> i then (False, a)
           else (True, bn_set_minimal_width (a\<lparr>bn_d := (bn_d a)[i := bn_d a ! i AND NOT (push_bit j 1)]\<rparr>)))"

definition bn_is_bit_set_words :: "u64 list \<Rightarrow> nat \<Rightarrow> nat \<Rightarrow> bool" where
  "bn_is_bit_set_words a num n =
     (let i = n div BN_BITS2; j = n mod BN_BITS2 in if i \<ge> num then False else drop_bit j (a ! i) AND 1 = 1)"

definition BN_is_bit_set :: "bignum \<Rightarrow> int \<Rightarrow> bool" where
  "BN_is_bit_set a n = (if n < 0 then False else bn_is_bit_set_words (bn_d a) (bn_width a) (nat n))"

definition BN_mask_bits :: "bignum \<Rightarrow> int \<Rightarrow> bool \<times> bignum" where
  "BN_mask_bits a n =
     (if n < 0 then (False, a)
      else
        let w = nat n div BN_BITS2; b = nat n mod BN_BITS2
        in if w \<ge> bn_width a then (True, a)
           else (True, bn_set_minimal_width
                         (if b = 0 then a\<lparr>bn_width := w\<rparr>
                          else a\<lparr>bn_width := w + 1, bn_d := (bn_d a)[w := bn_d a ! w AND NOT (push_bit b (-1))]\<rparr>)))"

text \<open>A block of \<open>bn_count_low_zero_bits_word\<close>: the low \<open>k\<close> bits are looked at.\<close>

definition low_zero_block :: "nat \<Rightarrow> u64 \<times> u64 \<Rightarrow> u64 \<times> u64" where
  "low_zero_block k s =
     (let bits = fst s; l = snd s; mask = constant_time_is_zero_w (push_bit (BN_BITS2 - k) l)
      in (bits + (of_nat k AND mask), constant_time_select_w mask (drop_bit k l) l))"

definition bn_count_low_zero_bits_word :: "u64 \<Rightarrow> u64" where
  "bn_count_low_zero_bits_word l =
     (let s = fold low_zero_block [32, 16, 8, 4, 2] (0, l);
          mask = constant_time_is_zero_w (push_bit (BN_BITS2 - 1) (snd s))
      in fst s + (1 AND mask))"

fun low_zero_loop :: "nat \<Rightarrow> u64 \<Rightarrow> u64 \<Rightarrow> u64 list \<Rightarrow> u64" where
  "low_zero_loop i ret saw_nonzero [] = ret"
| "low_zero_loop i ret saw_nonzero (w # d) =
     (let nonzero = NOT (constant_time_is_zero_w w);
          first_nonzero = NOT saw_nonzero AND nonzero;
          saw_nonzero = saw_nonzero OR nonzero;
          bits = bn_count_low_zero_bits_word w
      in low_zero_loop (i + 1) (ret OR (first_nonzero AND (of_nat (i * BN_BITS2) + bits))) saw_nonzero d)"

definition BN_count_low_zero_bits :: "bignum \<Rightarrow> nat" where
  "BN_count_low_zero_bits bn = unat (low_zero_loop 0 0 0 (take (bn_width bn) (bn_d bn)))"

section \<open>What the shifts compute\<close>

lemma unat_push64: "unat (push_bit k (x :: u64)) = (unat x * 2 ^ k) mod 2 ^ 64"
  unfolding unsigned_push_bit_eq by (simp add: take_bit_eq_mod push_bit_eq_mult)

lemma unat_drop64: "unat (drop_bit k (x :: u64)) = unat x div 2 ^ k"
  using drop_bit_eq_div [of k "unat x"] by (simp only: unat_drop_bit_eq)

lemma or_disjoint:
  fixes x y :: u64
  assumes "k \<le> 64" "2 ^ k dvd unat x" "unat y < 2 ^ k"
  shows "unat (x OR y) = unat x + unat y"
proof -
  have yb: "\<not> bit y i" if "k \<le> i" for i
  proof -
    have "unat y div 2 ^ i = 0"
    proof -
      have "(2 :: nat) ^ k \<le> 2 ^ i" using that by (intro power_increasing) simp_all
      then have "unat y < 2 ^ i" using assms(3) by linarith
      then show ?thesis by (rule div_less)
    qed
    then have "\<not> bit (unat y) i" unfolding bit_iff_odd by simp
    then show ?thesis using bit_imp_le_length [of y i] by (auto simp: bit_simps)
  qed
  have xb: "\<not> bit x i" if "i < k" for i
  proof -
    obtain m where m: "unat x = 2 ^ k * m" using assms(2) by blast
    have "(2 :: nat) ^ k = 2 ^ i * (2 * 2 ^ (k - i - 1))" using that by (simp add: power_add [symmetric] flip: power_Suc)
    then have "unat x div 2 ^ i = 2 * 2 ^ (k - i - 1) * m" unfolding m by simp
    then have "\<not> bit (unat x) i" unfolding bit_iff_odd by simp
    then show ?thesis using bit_imp_le_length [of x i] by (auto simp: bit_simps)
  qed
  have "x AND y = 0" by (rule bit_word_eqI) (use xb yb in \<open>auto simp: bit_simps not_less [symmetric]\<close>)
  then have e: "x OR y = x + y" by (simp add: disjunctive_add_eq_or)
  obtain m where m: "unat x = 2 ^ k * m" using assms(2) by blast
  have p: "(2 :: nat) ^ 64 = 2 ^ k * 2 ^ (64 - k)" using assms(1) by (simp add: power_add [symmetric])
  have "2 ^ k * m < 2 ^ k * 2 ^ (64 - k)" using unat64 [of x] unfolding m p .
  then have "Suc m \<le> 2 ^ (64 - k)" by simp
  then have "2 ^ k * Suc m \<le> 2 ^ k * 2 ^ (64 - k)" by (rule mult_le_mono2)
  then have "unat x + unat y < 2 ^ 64" unfolding p m using assms(3) by simp
  then show ?thesis unfolding e by (simp add: unat_add64)
qed

lemma push_dvd: "k \<le> 64 \<Longrightarrow> 2 ^ k dvd unat (push_bit k (x :: u64))"
  unfolding unat_push64 by (rule dvd_mod) (simp_all only: le_imp_power_dvd dvd_triv_right)

lemma push_drop: "k \<le> 64 \<Longrightarrow> unat (push_bit k (x :: u64)) + 2 ^ 64 * unat (drop_bit (64 - k) x) = 2 ^ k * unat x"
proof -
  assume k: "k \<le> 64"
  have p: "(2 :: nat) ^ 64 = 2 ^ (64 - k) * 2 ^ k" using k by (simp add: power_add [symmetric])
  have "(unat x * 2 ^ k) mod 2 ^ 64 = (unat x mod 2 ^ (64 - k)) * 2 ^ k"
    unfolding p by (rule mult_mod_left [symmetric])
  moreover have "2 ^ 64 * (unat x div 2 ^ (64 - k)) = (2 ^ (64 - k) * (unat x div 2 ^ (64 - k))) * 2 ^ k"
    unfolding p by (simp only: mult.assoc mult.commute mult.left_commute)
  moreover have "(unat x mod 2 ^ (64 - k)) * 2 ^ k + (2 ^ (64 - k) * (unat x div 2 ^ (64 - k))) * 2 ^ k = unat x * 2 ^ k"
    unfolding distrib_right [symmetric] mod_mult_div_eq ..
  ultimately show ?thesis unfolding unat_push64 unat_drop64 by (simp only: mult.commute)
qed

lemma lshift_loop:
  assumes "0 < lb" "lb < 64" "nw + n + 1 \<le> length t" "n \<le> length f"
    and "2 ^ lb dvd unat (t ! (nw + n))"
  shows "length (lshift_loop t nw lb f n) = length t \<and>
    wval (drop nw (take (nw + n + 1) (lshift_loop t nw lb f n))) = 2 ^ lb * wval (take n f) + 2 ^ (64 * n) * unat (t ! (nw + n)) \<and>
    drop (nw + n + 1) (lshift_loop t nw lb f n) = drop (nw + n + 1) t"
  using assms(3-5)
proof (induction n arbitrary: t)
  case 0
  have "drop nw (take (nw + 1) t) = [t ! nw]" using 0 by (simp add: drop_take Cons_nth_drop_Suc [symmetric])
  then show ?case by simp
next
  case (Suc i)
  let ?l = "f ! i"
  define t1 where "t1 = t[nw + i + 1 := t ! (nw + i + 1) OR drop_bit (64 - lb) ?l]"
  define t2 where "t2 = t1[nw + i := push_bit lb ?l]"
  have eq: "lshift_loop t nw lb f (Suc i) = lshift_loop t2 nw lb f i"
    by (simp add: t1_def t2_def BN_BITS2_def Let_def)
  have len: "length t2 = length t" by (simp add: t1_def t2_def)
  have n2: "t2 ! (nw + i) = push_bit lb ?l" "t2 ! (nw + i + 1) = t ! (nw + i + 1) OR drop_bit (64 - lb) ?l"
    using Suc.prems(1) by (simp_all add: t1_def t2_def)
  have "unat (drop_bit (64 - lb) ?l) < 2 ^ lb"
  proof -
    have "unat ?l < 2 ^ (64 - lb) * 2 ^ lb" using unat64 [of ?l] assms(2) by (simp add: power_add [symmetric])
    then show ?thesis unfolding unat_drop64 by (simp add: less_mult_imp_div_less mult.commute)
  qed
  moreover have "2 ^ lb dvd unat (t ! (nw + i + 1))" using Suc.prems(3) by simp
  ultimately have o: "unat (t2 ! (nw + i + 1)) = unat (t ! (nw + i + 1)) + unat (drop_bit (64 - lb) ?l)"
    unfolding n2(2) using assms(2) by (intro or_disjoint [of lb]) simp_all
  have dv: "2 ^ lb dvd unat (t2 ! (nw + i))" unfolding n2(1) by (rule push_dvd) (use assms(2) in simp)
  have l2: "nw + i + 1 \<le> length t2" "i \<le> length f" using Suc.prems len by simp_all
  note IH = Suc.IH [OF l2 dv]
  let ?r = "lshift_loop t2 nw lb f i"
  have nth: "?r ! (nw + i + 1) = t2 ! (nw + i + 1)"
  proof -
    have lt: "nw + i + 1 < length ?r" "nw + i + 1 < length t2" using IH len Suc.prems(1) by simp_all
    have "?r ! (nw + i + 1) = hd (drop (nw + i + 1) t2)" using IH hd_drop_conv_nth [OF lt(1)] by simp
    then show ?thesis using hd_drop_conv_nth [OF lt(2)] by simp
  qed
  have tk: "drop nw (take (nw + Suc i + 1) ?r) = drop nw (take (nw + i + 1) ?r) @ [t2 ! (nw + i + 1)]"
    using take_Suc_conv_app_nth [of "nw + i + 1" ?r] IH len Suc.prems(1) nth by simp
  have ll: "length (drop nw (take (nw + i + 1) ?r)) = i + 1" using IH len Suc.prems(1) by simp
  have "wval (drop nw (take (nw + Suc i + 1) ?r)) =
      2 ^ lb * wval (take i f) + 2 ^ (64 * i) * unat (push_bit lb ?l) + 2 ^ (64 * (i + 1)) * unat (t2 ! (nw + i + 1))"
    unfolding tk using IH ll n2(1) by (simp add: wval_append)
  also have "\<dots> = 2 ^ lb * wval (take i f) + 2 ^ (64 * i) * (unat (push_bit lb ?l) + 2 ^ 64 * unat (drop_bit (64 - lb) ?l)) +
      2 ^ (64 * (i + 1)) * unat (t ! (nw + i + 1))"
    unfolding o by (simp add: power_add algebra_simps)
  also have "\<dots> = 2 ^ lb * wval (take (Suc i) f) + 2 ^ (64 * Suc i) * unat (t ! (nw + Suc i))"
    using push_drop [of lb ?l] assms(2) Suc.prems(2) by (simp add: take_Suc_conv_app_nth wval_append algebra_simps)
  finally have v: "wval (drop nw (take (nw + Suc i + 1) ?r)) = \<dots>" .
  have "drop (nw + Suc i + 1) ?r = drop (nw + Suc i + 1) t"
  proof -
    have "drop (nw + Suc i + 1) ?r = drop 1 (drop (nw + i + 1) ?r)" by simp
    also have "\<dots> = drop (nw + Suc i + 1) t2" using IH by simp
    finally show ?thesis by (simp add: t1_def t2_def)
  qed
  then show ?case unfolding eq using IH len v by simp
qed

lemma rshift_loop:
  assumes "0 < s" "s < 64"
  shows "length (rshift_loop s ws) = length ws \<and> wval (rshift_loop s ws) = wval ws div 2 ^ s"
proof (induction ws rule: induct_list012)
  case (2 x)
  then show ?case by (simp add: unat_drop64)
next
  case (3 x y a)
  define V where "V = wval (y # a)"
  have p: "(2 :: nat) ^ 64 = 2 ^ s * 2 ^ (64 - s)" using assms by (simp add: power_add [symmetric])
  have d: "unat (drop_bit s x) < 2 ^ (64 - s)"
    using unat64 [of x] unfolding unat_drop64 p by (simp add: less_mult_imp_div_less mult.commute)
  have ps: "unat (push_bit (64 - s) y) = 2 ^ (64 - s) * (unat y mod 2 ^ s)"
    unfolding unat_push64 p by (simp only: mult.commute [of "unat y"] mult.commute [of "2 ^ s"] mult_mod_right)
  have "unat (push_bit (64 - s) y OR drop_bit s x) = unat (push_bit (64 - s) y) + unat (drop_bit s x)"
    by (rule or_disjoint [OF _ push_dvd d]) simp_all
  then have h: "unat (drop_bit s x OR push_bit (BN_BITS2 - s) y) = unat x div 2 ^ s + 2 ^ (64 - s) * (unat y mod 2 ^ s)"
    unfolding BN_BITS2_def or.commute [of "drop_bit s x"] ps unat_drop64 [of s x] by simp
  have "V = unat y + 2 ^ s * (2 ^ (64 - s) * wval a)" unfolding V_def wval_simps p by simp
  then have m: "V mod 2 ^ s = unat y mod 2 ^ s" by simp
  have "wval (x # y # a) div 2 ^ s = (unat x + 2 ^ s * (2 ^ (64 - s) * V)) div 2 ^ s"
    unfolding wval_simps(2) [of x] V_def [symmetric] p by (simp only: mult.assoc)
  also have "\<dots> = unat x div 2 ^ s + 2 ^ (64 - s) * V" by simp
  also have "2 ^ (64 - s) * V = 2 ^ (64 - s) * (2 ^ s * (V div 2 ^ s) + V mod 2 ^ s)" by simp
  also have "\<dots> = 2 ^ 64 * (V div 2 ^ s) + 2 ^ (64 - s) * (unat y mod 2 ^ s)"
    unfolding m p distrib_left by (simp only: mult.assoc mult.commute mult.left_commute)
  finally have "wval (x # y # a) div 2 ^ s = unat x div 2 ^ s + (2 ^ 64 * (V div 2 ^ s) + 2 ^ (64 - s) * (unat y mod 2 ^ s))" .
  then show ?case using 3 h by (simp add: V_def)
qed simp

lemma wval_drop: "wval ws div 2 ^ (64 * k) = wval (drop k ws)"
proof (cases "k \<le> length ws")
  case True
  have "wval ws = wval (take k ws) + 2 ^ (64 * k) * wval (drop k ws)" using wval_take [OF True order_refl] by simp
  moreover have "wval (take k ws) < 2 ^ (64 * k)" using wval_less [of "take k ws"] True by simp
  ultimately show ?thesis by simp
next
  case False
  then have "(2 :: nat) ^ (64 * length ws) \<le> 2 ^ (64 * k)" by (intro power_increasing) simp_all
  then have "wval ws < 2 ^ (64 * k)" using wval_less [of ws] by linarith
  then show ?thesis using False by simp
qed

lemma rshift_words:
  assumes "num \<le> length a"
  shows "length (bn_rshift_words a n num) = num" "wval (bn_rshift_words a n num) = wval (take num a) div 2 ^ n"
proof -
  define b where "b = n mod 64"
  define w where "w = n div 64"
  have n: "(2 :: nat) ^ n = 2 ^ (64 * w) * 2 ^ b" by (simp add: b_def w_def power_add [symmetric])
  have "length (bn_rshift_words a n num) = num \<and> wval (bn_rshift_words a n num) = wval (take num a) div 2 ^ n"
  proof (cases "w \<ge> num")
    case True
    then have "wval (take num a) div 2 ^ (64 * w) = 0" unfolding wval_drop using assms by simp
    then show ?thesis using True unfolding n div_mult2_eq by (simp add: bn_rshift_words_def Let_def w_def BN_BITS2_def)
  next
    case False
    let ?d = "take (num - w) (drop w a)"
    have d: "drop w (take num a) = ?d" "length ?d = num - w" using assms by (simp_all add: drop_take)
    have v: "wval (take num a) div 2 ^ n = wval ?d div 2 ^ b" unfolding n div_mult2_eq wval_drop d(1) ..
    have r: "bn_rshift_words a n num = (if b = 0 then ?d else rshift_loop b ?d) @ replicate w 0"
      using False by (simp add: bn_rshift_words_def Let_def w_def b_def BN_BITS2_def)
    show ?thesis
    proof (cases "b = 0")
      case True
      then show ?thesis using False d(2) unfolding v r by (simp add: wval_append)
    next
      case b: False
      then have "0 < b" "b < 64" by (simp_all add: b_def)
      from rshift_loop [OF this, of ?d] show ?thesis using False b d(2) unfolding v r by (simp add: wval_append)
    qed
  qed
  then show "length (bn_rshift_words a n num) = num" "wval (bn_rshift_words a n num) = wval (take num a) div 2 ^ n" by simp_all
qed

text \<open>The magnitude is shifted, so that a right shift rounds towards zero.\<close>

lemma bn_rshift:
  assumes "bn_ok r" "bn_ok a" "0 \<le> n" "BN_rshift r a n alloc = (ok, r')"
  shows "bn_ok r' \<and> (ok \<longleftrightarrow> bn_room r (bn_width a) alloc) \<and>
    (ok \<longrightarrow> bn_result ((if bn_neg a then -1 else 1) * int (bn_abs a div 2 ^ nat n)) r')"
proof -
  obtain e x where e: "bn_wexpand r (bn_width a) alloc = (e, x)" by (rule prod.exhaust)
  note w = wexpand [OF assms(1) e]
  show ?thesis
  proof (cases e)
    case True
    have "bn_width a \<le> length (bn_d a)" using assms(2) by (simp add: bn_ok_def)
    note rw = rshift_words [OF this, of "nat n"]
    note p = put_result [OF w(1) w(7) [OF True] rw(1)]
    let ?y = "x\<lparr>bn_d := put_words (bn_d x) 0 (bn_rshift_words (bn_d a) (nat n) (bn_width a)), bn_width := bn_width a\<rparr>"
    have y: "x\<lparr>bn_d := put_words (bn_d x) 0 (bn_rshift_words (bn_d a) (nat n) (bn_width a)), bn_neg := bn_neg a, bn_width := bn_width a\<rparr> =
      ?y\<lparr>bn_neg := bn_neg a\<rparr>" by simp
    have "(ok, r') = (True, bn_set_minimal_width (?y\<lparr>bn_neg := bn_neg a\<rparr>))"
      unfolding y [symmetric] assms(4) [symmetric] using assms(3) e True by (simp add: BN_rshift_def)
    then have r: "ok" "r' = bn_set_minimal_width (?y\<lparr>bn_neg := bn_neg a\<rparr>)" by blast+
    have ok: "bn_ok (?y\<lparr>bn_neg := bn_neg a\<rparr>)" unfolding bn_abs_neg by (rule p(1))
    note s = set_minimal [OF ok]
    have "bn_int (?y\<lparr>bn_neg := bn_neg a\<rparr>) = (if bn_neg a then -1 else 1) * int (bn_abs a div 2 ^ nat n)"
      using p(2) rw(2) bn_abs_neg(1) [of "bn_neg a" ?y] by (simp add: bn_int_def bn_abs_def)
    then show ?thesis using r s w(6) True by (simp add: bn_result_def)
  next
    case False
    then show ?thesis using assms(3,4) e w by (simp add: BN_rshift_def)
  qed
qed

lemma neg_width: "x\<lparr>bn_d := d, bn_neg := s, bn_width := w\<rparr> = (x :: bignum)\<lparr>bn_d := d, bn_width := w, bn_neg := s\<rparr>"
  by simp

lemma bn_rshift1:
  assumes "bn_ok r" "bn_ok a" "BN_rshift1 r a alloc = (ok, r')"
  shows "BN_rshift r a 1 alloc = (ok, r')"
proof -
  have l: "bn_width a \<le> length (bn_d a)" using assms(2) by (simp add: bn_ok_def)
  have "bn_rshift_words (bn_d a) 1 (bn_width a) = bn_rshift1_words (bn_d a) (bn_width a)"
    by (simp add: bn_rshift_words_def bn_rshift1_words_def BN_BITS2_def)
  then show ?thesis using assms(3) by (auto simp: BN_rshift_def BN_rshift1_def neg_width split: bool.splits prod.splits)
qed

lemma bn_lshift:
  assumes "bn_ok r" "bn_ok a" "0 \<le> n" "BN_lshift r a n alloc = (ok, r')"
  shows "bn_ok r' \<and> (ok \<longleftrightarrow> bn_room r (bn_width a + nat n div 64 + 1) alloc) \<and> (ok \<longrightarrow> bn_result (bn_int a * 2 ^ nat n) r')"
proof -
  define nw where "nw = nat n div 64"
  define lb where "lb = nat n mod 64"
  let ?w = "bn_width a" and ?f = "bn_d a"
  have pw: "(2 :: nat) ^ nat n = 2 ^ (64 * nw) * 2 ^ lb" by (simp add: nw_def lb_def power_add [symmetric])
  let ?r = "r\<lparr>bn_neg := bn_neg a\<rparr>"
  have ok0: "bn_ok ?r" using assms(1) by simp
  obtain e x where e: "bn_wexpand ?r (?w + nw + 1) alloc = (e, x)" by (rule prod.exhaust)
  note w = wexpand [OF ok0 e]
  have room: "bn_room ?r m alloc = bn_room r m alloc" for m by (simp add: bn_room_def)
  have f: "?w \<le> length ?f" using assms(2) by (simp add: bn_ok_def)
  define t where "t = (if lb = 0 then put_words ((bn_d x)[?w + nw := 0]) nw (take ?w ?f)
    else lshift_loop ((bn_d x)[?w + nw := 0]) nw lb ?f ?w)"
  have eq: "BN_lshift r a n alloc = (if e then (True, bn_set_minimal_width (x\<lparr>bn_d := put_words t 0 (replicate nw 0), bn_width := ?w + nw + 1\<rparr>)) else (False, x))"
    unfolding BN_lshift_def using assms(3) e by (simp add: BN_BITS2_def Let_def t_def nw_def lb_def)
  show ?thesis
  proof (cases e)
    case True
    have lx: "?w + nw + 1 \<le> length (bn_d x)" "length (bn_d x) = bn_dmax x" using w(1,7) True by (simp_all add: bn_ok_def)
    let ?t0 = "(bn_d x)[?w + nw := 0]"
    have t: "length t = length (bn_d x) \<and> wval (drop nw (take (nw + ?w + 1) t)) = 2 ^ lb * bn_abs a"
    proof (cases "lb = 0")
      case T: True
      have l: "length (take ?w ?f) = ?w" using f by simp
      have "t = take nw ?t0 @ take ?w ?f @ drop (nw + ?w) ?t0" using T l by (simp add: t_def put_words_def)
      moreover have "take 1 (drop (nw + ?w) ?t0) = [0]"
        using lx by (simp add: take_Suc_conv_app_nth take_Suc hd_drop_conv_nth add.commute)
      ultimately have "drop nw (take (nw + ?w + 1) t) = take ?w ?f @ [0]" using lx l by simp
      then show ?thesis using T lx l by (simp add: t_def wval_append bn_abs_def)
    next
      case False
      have "0 < lb" "lb < 64" using False by (simp_all add: lb_def)
      moreover have "nw + ?w + 1 \<le> length ?t0" "2 ^ lb dvd unat (?t0 ! (nw + ?w))" using lx by (simp_all add: add.commute)
      ultimately have "length (lshift_loop ?t0 nw lb ?f ?w) = length ?t0 \<and>
          wval (drop nw (take (nw + ?w + 1) (lshift_loop ?t0 nw lb ?f ?w))) = 2 ^ lb * wval (take ?w ?f) + 2 ^ (64 * ?w) * unat (?t0 ! (nw + ?w))"
        using lshift_loop [of lb nw ?w ?t0 ?f] f by blast
      then show ?thesis using False lx by (simp add: t_def bn_abs_def add.commute)
    qed
    let ?y = "x\<lparr>bn_d := put_words t 0 (replicate nw 0), bn_width := ?w + nw + 1\<rparr>"
    have lp: "length (put_words t 0 (replicate nw 0)) = length (bn_d x)" using t lx by (simp add: put_words_def)
    have oky: "bn_ok ?y" using lp lx by (simp add: bn_ok_def)
    have "take (?w + nw + 1) (put_words t 0 (replicate nw 0)) = replicate nw 0 @ drop nw (take (nw + ?w + 1) t)"
      by (simp add: put_words_def drop_take add.commute)
    moreover have "bn_abs ?y = wval (take (?w + nw + 1) (put_words t 0 (replicate nw 0)))" by (simp add: bn_abs_def)
    ultimately have "bn_abs ?y = 2 ^ (64 * nw) * (2 ^ lb * bn_abs a)" using t by (simp only: wval_append wval_zeros length_replicate add_0)
    then have ay: "bn_abs ?y = bn_abs a * 2 ^ nat n" unfolding pw by simp
    have "bn_neg ?y = bn_neg a" using w(3) by simp
    then have "bn_int ?y = bn_int a * 2 ^ nat n" using ay by (simp add: bn_int_def)
    then show ?thesis using eq assms(4) True w(6) room set_minimal [OF oky] by (auto simp: bn_result_def nw_def)
  next
    case False
    then show ?thesis using eq assms(4) w room by (auto simp: nw_def)
  qed
qed

lemma lshift1_loop:
  "unat c \<le> 1 \<Longrightarrow> lshift1_loop c a = (r, c') \<Longrightarrow>
   length r = length a \<and> unat c' \<le> 1 \<and> wval r + 2 ^ (64 * length a) * unat c' = 2 * wval a + unat c"
proof (induction c a arbitrary: r c' rule: lshift1_loop.induct)
  case (2 c t ap)
  have d: "unat (drop_bit 63 t) \<le> 1"
  proof -
    have "unat t div 2 ^ 63 < 2" using unat64 [of t] by (simp add: less_mult_imp_div_less)
    then show ?thesis unfolding unat_drop64 by simp
  qed
  obtain r1 where r1: "lshift1_loop (drop_bit 63 t) ap = (r1, c')" "r = (push_bit 1 t OR c) # r1"
    using 2(3) by (auto simp: BN_BITS2_def split: prod.splits)
  have IH: "length r1 = length ap" "unat c' \<le> 1" "wval r1 + 2 ^ (64 * length ap) * unat c' = 2 * wval ap + unat (drop_bit 63 t)"
    using 2(1) [of r1 c'] d r1(1) by (simp_all add: BN_BITS2_def)
  have o: "unat (push_bit 1 t OR c) = unat (push_bit 1 t) + unat c"
  proof (rule or_disjoint [where k = 1])
    show "2 ^ 1 dvd unat (push_bit 1 t)" by (rule push_dvd) simp
  qed (use 2(2) in simp_all)
  have s: "unat (push_bit 1 t) + 2 ^ 64 * unat (drop_bit 63 t) = 2 * unat t" using push_drop [of 1 t] by simp
  have "wval r + 2 ^ (64 * length (t # ap)) * unat c' = unat (push_bit 1 t) + unat c + 2 ^ 64 * (wval r1 + 2 ^ (64 * length ap) * unat c')"
    unfolding r1(2) wval_simps o by (simp add: power_add algebra_simps)
  also have "\<dots> = unat (push_bit 1 t) + 2 ^ 64 * unat (drop_bit 63 t) + unat c + 2 ^ 64 * (2 * wval ap)"
    unfolding IH(3) by (simp add: algebra_simps)
  also have "\<dots> = 2 * wval (t # ap) + unat c" unfolding s by simp
  finally show ?case using IH(1,2) r1(2) by simp
qed simp

lemma bn_lshift1:
  assumes "bn_ok r" "bn_ok a" "same \<longrightarrow> r = a" "BN_lshift1 r a same alloc = (ok, r')"
  shows "bn_ok r' \<and> (ok \<longleftrightarrow> bn_room r (bn_width a + 1) alloc) \<and> (ok \<longrightarrow> bn_int r' = 2 * bn_int a \<and> (bn_minimal a \<longrightarrow> bn_minimal r'))"
proof -
  define r0 where "r0 = (if same then r else r\<lparr>bn_neg := bn_neg a\<rparr>)"
  have r0: "bn_ok r0" "bn_neg r0 = bn_neg a" "bn_room r0 m alloc = bn_room r m alloc" for m
    using assms(1-3) by (auto simp: r0_def bn_room_def)
  obtain e x where e: "bn_wexpand r0 (bn_width a + 1) alloc = (e, x)" by (rule prod.exhaust)
  note w = wexpand [OF r0(1) e]
  obtain rp c where l: "lshift1_loop 0 (take (bn_width a) (bn_d a)) = (rp, c)" by (rule prod.exhaust)
  have f: "length (take (bn_width a) (bn_d a)) = bn_width a" using assms(2) by (simp add: bn_ok_def)
  have v: "length rp = bn_width a" "unat c \<le> 1" "wval rp + 2 ^ (64 * bn_width a) * unat c = 2 * bn_abs a"
    using lshift1_loop [OF _ l] unfolding f bn_abs_def by simp_all
  let ?y = "x\<lparr>bn_d := put_words (bn_d x) 0 rp, bn_width := bn_width a\<rparr>"
  have eq: "BN_lshift1 r a same alloc = (if e then (True, if c \<noteq> 0 then ?y\<lparr>bn_d := (bn_d ?y)[bn_width ?y := 1], bn_width := bn_width ?y + 1\<rparr> else ?y) else (False, x))"
    unfolding BN_lshift1_def Let_def r0_def [symmetric] e l prod.case by (cases e) simp_all
  show ?thesis
  proof (cases e)
    case True
    have "bn_width a \<le> bn_dmax x" using w(7) True by simp
    note p = put_result [OF w(1) this v(1)]
    have lt: "bn_width ?y < bn_dmax ?y" using w(7) True by simp
    note q = push_word [OF p(1) lt, of 1]
    have ny: "bn_neg ?y = bn_neg a" using w(3) r0(2) by simp
    define z where "z = (if c \<noteq> 0 then ?y\<lparr>bn_d := (bn_d ?y)[bn_width ?y := 1], bn_width := bn_width ?y + 1\<rparr> else ?y)"
    have z: "ok" "r' = z" using eq assms(4) True by (simp_all add: z_def)
    have ok: "bn_ok z" using p(1) q(1) by (simp add: z_def)
    have c1: "unat c = 1" if "c \<noteq> 0" using v(2) that by (cases "unat c") (simp_all add: unat_eq_0)
    have a: "bn_abs z = 2 * bn_abs a"
    proof (cases "c = 0")
      case False
      then have "bn_abs z = wval rp + 2 ^ (64 * bn_width a)" using q(2) p(2) by (simp add: z_def)
      then show ?thesis using v(3) c1 [OF False] by simp
    qed (use p(2) v(3) in \<open>simp add: z_def\<close>)
    have nz: "bn_neg z = bn_neg a" using ny by (simp add: z_def)
    have "bn_minimal z" if "bn_minimal a"
    proof (cases "c = 0")
      case True
      then have "bn_width z = bn_width a" by (simp add: z_def)
      then show ?thesis using that a nz unfolding minimal_iff [OF ok] minimal_iff [OF assms(2)] by auto
    next
      case False
      then have "bn_width z = bn_width a + 1" by (simp add: z_def)
      moreover have "2 ^ (64 * bn_width a) \<le> bn_abs z" unfolding a using v(3) c1 [OF False] by simp
      ultimately show ?thesis unfolding minimal_iff [OF ok] by simp
    qed
    then show ?thesis using z ok a nz w(6) r0(3) True by (simp add: bn_int_def)
  next
    case False
    then show ?thesis using eq assms(4) w(1,6) r0(3) by auto
  qed
qed

section \<open>What the bit operations compute\<close>

lemma bit_wval: "bit (wval ws) n \<longleftrightarrow> n div 64 < length ws \<and> bit (ws ! (n div 64)) (n mod 64)"
proof (cases "n div 64 < length ws")
  case True
  define j where "j = n mod 64"
  have j: "j < 64" by (simp add: j_def)
  obtain w v where d: "drop (n div 64) ws = w # v" using True by (cases "drop (n div 64) ws") auto
  have w: "ws ! (n div 64) = w" using True d by (metis hd_drop_conv_nth list.sel(1))
  have "(2 :: nat) ^ n = 2 ^ (64 * (n div 64)) * 2 ^ j" by (simp add: j_def power_add [symmetric])
  then have "wval ws div 2 ^ n = wval (w # v) div 2 ^ j" by (simp only: div_mult2_eq wval_drop d)
  also have "\<dots> = (unat w + 2 ^ j * (2 * (2 ^ (63 - j) * wval v))) div 2 ^ j"
  proof -
    have "(2 :: nat) ^ 64 = 2 ^ j * (2 * 2 ^ (63 - j))" using j by (simp add: power_add [symmetric] flip: power_Suc)
    then show ?thesis by (simp only: wval_simps mult.assoc)
  qed
  also have "\<dots> = unat w div 2 ^ j + 2 * (2 ^ (63 - j) * wval v)" by simp
  finally have "bit (wval ws) n \<longleftrightarrow> bit (unat w) j" unfolding bit_iff_odd by simp
  also have "\<dots> \<longleftrightarrow> bit w j" by (simp add: bit_simps)
  finally show ?thesis using True w by (simp add: j_def)
next
  case False
  have "wval ws div 2 ^ n = 0"
  proof -
    have "wval ws div 2 ^ (64 * (n div 64)) = 0" unfolding wval_drop using False by simp
    then have "wval ws < 2 ^ (64 * (n div 64))" unfolding div_eq_0_iff by simp
    moreover have "(2 :: nat) ^ (64 * (n div 64)) \<le> 2 ^ n" by (intro power_increasing) simp_all
    ultimately show ?thesis by (intro div_less) linarith
  qed
  then show ?thesis using False unfolding bit_iff_odd by simp
qed

lemma bit_abs: "bn_ok b \<Longrightarrow> bit (bn_abs b) n \<longleftrightarrow> n div 64 < bn_width b \<and> bit (bn_d b ! (n div 64)) (n mod 64)"
  unfolding bn_abs_def bit_wval by (auto simp: bn_ok_def)

lemma drop_and_1: "drop_bit j w AND 1 = 1 \<longleftrightarrow> bit (w :: u64) j"
  by (simp add: bit_iff_odd_drop_bit and_one_eq odd_iff_mod_2_eq_one)

lemma bn_is_bit_set: "bn_ok b \<Longrightarrow> 0 \<le> n \<Longrightarrow> BN_is_bit_set b n \<longleftrightarrow> bit (bn_abs b) (nat n)"
  by (simp add: BN_is_bit_set_def bn_is_bit_set_words_def Let_def BN_BITS2_def bit_abs drop_and_1 not_le del: One_nat_def)

end
