(* ===== verification/Bn_Programs.thy ===== *)
theory Bn_Programs
  imports Bn_Mul Bn_Bytes Bn_Shift
begin

text \<open>
  Programs of operations on numbers in registers, whose results may be written to one of the operands.
  Every operation keeps well-formed numbers well-formed and computes the integer that it should, or
  reports a failure; if memory is available and the numbers are of moderate size, none fails.
\<close>

section \<open>Sequences of operations\<close>

text \<open>
  A program has numbers in registers and a context, and calls one operation after the other; the first
  register of an operation receives the result, and it may be one of the operands. As the callers do,
  a program stops at the first call that fails.
\<close>

datatype bn_op =
    Op_add nat nat nat
  | Op_sub nat nat nat
  | Op_mul nat nat nat
  | Op_sqr nat nat
  | Op_add_word nat u64
  | Op_sub_word nat u64
  | Op_mul_word nat u64
  | Op_lshift nat nat int
  | Op_rshift nat nat int
  | Op_lshift1 nat nat
  | Op_rshift1 nat nat
  | Op_copy nat nat
  | Op_bin2bn nat "byte list"
  | Op_set_negative nat bool

fun op_registers :: "bn_op \<Rightarrow> nat list" where
  "op_registers (Op_add r a b) = [r, a, b]"
| "op_registers (Op_sub r a b) = [r, a, b]"
| "op_registers (Op_mul r a b) = [r, a, b]"
| "op_registers (Op_sqr r a) = [r, a]"
| "op_registers (Op_add_word r w) = [r]"
| "op_registers (Op_sub_word r w) = [r]"
| "op_registers (Op_mul_word r w) = [r]"
| "op_registers (Op_lshift r a n) = [r, a]"
| "op_registers (Op_rshift r a n) = [r, a]"
| "op_registers (Op_lshift1 r a) = [r, a]"
| "op_registers (Op_rshift1 r a) = [r, a]"
| "op_registers (Op_copy r a) = [r, a]"
| "op_registers (Op_bin2bn r bs) = [r]"
| "op_registers (Op_set_negative r s) = [r]"

text \<open>The call: the success, the new number of the first register and the context.\<close>

fun op_call :: "bn_op \<Rightarrow> bignum list \<Rightarrow> bn_ctx \<Rightarrow> (nat \<Rightarrow> bool) \<Rightarrow> (bool \<times> bignum \<times> bn_ctx) option" where
  "op_call (Op_add r a b) s c alloc = (case BN_add (s ! r) (s ! a) (s ! b) alloc of (ok, x) \<Rightarrow> Some (ok, x, c))"
| "op_call (Op_sub r a b) s c alloc = (case BN_sub (s ! r) (s ! a) (s ! b) alloc of (ok, x) \<Rightarrow> Some (ok, x, c))"
| "op_call (Op_mul r a b) s c alloc = BN_mul (s ! r) (s ! a) (s ! b) (r = a \<or> r = b) c alloc"
| "op_call (Op_sqr r a) s c alloc = BN_sqr (s ! r) (s ! a) (r = a) c alloc"
| "op_call (Op_add_word r w) s c alloc = map_option (\<lambda>(ok, x). (ok, x, c)) (BN_add_word (s ! r) w alloc)"
| "op_call (Op_sub_word r w) s c alloc = map_option (\<lambda>(ok, x). (ok, x, c)) (BN_sub_word (s ! r) w alloc)"
| "op_call (Op_mul_word r w) s c alloc = (case BN_mul_word (s ! r) w alloc of (ok, x) \<Rightarrow> Some (ok, x, c))"
| "op_call (Op_lshift r a n) s c alloc = (case BN_lshift (s ! r) (s ! a) n alloc of (ok, x) \<Rightarrow> Some (ok, x, c))"
| "op_call (Op_rshift r a n) s c alloc = (case BN_rshift (s ! r) (s ! a) n alloc of (ok, x) \<Rightarrow> Some (ok, x, c))"
| "op_call (Op_lshift1 r a) s c alloc = (case BN_lshift1 (s ! r) (s ! a) (r = a) alloc of (ok, x) \<Rightarrow> Some (ok, x, c))"
| "op_call (Op_rshift1 r a) s c alloc = (case BN_rshift1 (s ! r) (s ! a) alloc of (ok, x) \<Rightarrow> Some (ok, x, c))"
| "op_call (Op_copy r a) s c alloc = (case BN_copy (s ! r) (s ! a) alloc of (ok, x) \<Rightarrow> Some (ok, x, c))"
| "op_call (Op_bin2bn r bs) s c alloc =
     Some (case BN_bin2bn bs (Some (s ! r)) alloc of None \<Rightarrow> (False, s ! r, c) | Some x \<Rightarrow> (True, bn_set_minimal_width x, c))"
| "op_call (Op_set_negative r sg) s c alloc = Some (True, BN_set_negative (s ! r) sg, c)"

fun bn_run :: "bn_op list \<Rightarrow> bignum list \<Rightarrow> bn_ctx \<Rightarrow> (nat \<Rightarrow> bool) \<Rightarrow> (bool \<times> bignum list \<times> bn_ctx) option" where
  "bn_run [] s c alloc = Some (True, s, c)"
| "bn_run (p # ps) s c alloc =
     (case op_call p s c alloc of
        None \<Rightarrow> None
      | Some (ok, x, c) \<Rightarrow>
          (let s = s[hd (op_registers p) := x] in if ok then bn_run ps s c alloc else Some (False, s, c)))"

text \<open>The same programs on integers.\<close>

fun op_value :: "bn_op \<Rightarrow> int list \<Rightarrow> int" where
  "op_value (Op_add r a b) v = v ! a + v ! b"
| "op_value (Op_sub r a b) v = v ! a - v ! b"
| "op_value (Op_mul r a b) v = v ! a * v ! b"
| "op_value (Op_sqr r a) v = v ! a * v ! a"
| "op_value (Op_add_word r w) v = v ! r + int (unat w)"
| "op_value (Op_sub_word r w) v = v ! r - int (unat w)"
| "op_value (Op_mul_word r w) v = v ! r * int (unat w)"
| "op_value (Op_lshift r a n) v = v ! a * 2 ^ nat n"
| "op_value (Op_rshift r a n) v = sgn (v ! a) * (\<bar>v ! a\<bar> div 2 ^ nat n)"
| "op_value (Op_lshift1 r a) v = 2 * v ! a"
| "op_value (Op_rshift1 r a) v = sgn (v ! a) * (\<bar>v ! a\<bar> div 2)"
| "op_value (Op_copy r a) v = v ! a"
| "op_value (Op_bin2bn r bs) v = foldl (\<lambda>n x. 256 * n + int (unat x)) 0 bs"
| "op_value (Op_set_negative r s) v = (if s then - \<bar>v ! r\<bar> else \<bar>v ! r\<bar>)"

fun int_run :: "bn_op list \<Rightarrow> int list \<Rightarrow> int list" where
  "int_run [] v = v"
| "int_run (p # ps) v = int_run ps (v[hd (op_registers p) := op_value p v])"

text \<open>Numbers whose size is in the limit that \<open>bn_wexpand\<close> sets; every operation keeps the limit and the flags.\<close>

definition bn_sized :: "bignum \<Rightarrow> bool" where
  "bn_sized b \<longleftrightarrow> bn_ok b \<and> bn_dmax b \<le> bn_max_words"

definition bn_typed :: "bignum \<Rightarrow> bool" where
  "bn_typed b \<longleftrightarrow> bn_sized b \<and> bn_minimal b"

lemma max_wexpand: "bn_wexpand b n alloc = (ok, b') \<Longrightarrow> bn_dmax b \<le> m \<Longrightarrow> bn_max_words \<le> m \<Longrightarrow> bn_dmax b' \<le> m \<and> bn_flags b' = bn_flags b"
  by (auto simp: bn_wexpand_def split: if_splits)

lemma max_minimal [simp]: "bn_dmax (bn_set_minimal_width b) = bn_dmax b" "bn_flags (bn_set_minimal_width b) = bn_flags b"
  by (simp_all add: bn_set_minimal_width_def Let_def)

lemma max_uadd:
  assumes "bn_uadd_consttime r a b alloc = (ok, r')" "bn_dmax r \<le> bn_max_words"
  shows "bn_dmax r' \<le> bn_max_words \<and> bn_flags r' = bn_flags r"
  using assms max_wexpand [OF _ assms(2) order_refl]
  by (force simp: bn_uadd_consttime_def Let_def split: prod.splits bool.splits)

lemma max_usub:
  assumes "bn_usub_consttime r a b alloc = (ok, r')" "bn_dmax r \<le> bn_max_words"
  shows "bn_dmax r' \<le> bn_max_words \<and> bn_flags r' = bn_flags r"
  using assms max_wexpand [OF _ assms(2) order_refl]
  by (force simp: bn_usub_consttime_def Let_def split: prod.splits bool.splits if_splits)

lemma max_signed:
  assumes "signed_usub r a b alloc = (ok, r')" "bn_dmax r \<le> bn_max_words"
  shows "bn_dmax r' \<le> bn_max_words \<and> bn_flags r' = bn_flags r"
  using assms max_usub [OF _ assms(2)]
  by (fastforce simp: signed_usub_def BN_usub_def split: prod.splits bool.splits if_splits)

lemma max_add:
  assumes "BN_add r a b alloc = (ok, r')" "bn_dmax r \<le> bn_max_words"
  shows "bn_dmax r' \<le> bn_max_words \<and> bn_flags r' = bn_flags r"
  using assms max_uadd [OF _ assms(2)] max_signed [OF _ assms(2)]
  by (fastforce simp: BN_add_def BN_uadd_def Let_def split: prod.splits bool.splits if_splits)

lemma max_sub:
  assumes "BN_sub r a b alloc = (ok, r')" "bn_dmax r \<le> bn_max_words"
  shows "bn_dmax r' \<le> bn_max_words \<and> bn_flags r' = bn_flags r"
  using assms max_uadd [OF _ assms(2)] max_signed [OF _ assms(2)]
  by (fastforce simp: BN_sub_def BN_uadd_def Let_def split: prod.splits bool.splits if_splits)

lemma max_push:
  assumes "push_nonzero b ws w alloc = (ok, r')" "bn_dmax b \<le> bn_max_words"
  shows "bn_dmax r' \<le> bn_max_words \<and> bn_flags r' = bn_flags b"
  using assms max_wexpand [where b = "b\<lparr>bn_d := put_words (bn_d b) 0 ws\<rparr>" and m = bn_max_words]
  by (fastforce simp: push_nonzero_def Let_def split: prod.splits bool.splits if_splits)

lemma max_set_word:
  assumes "BN_set_word b w alloc = (ok, r')" "bn_dmax b \<le> bn_max_words"
  shows "bn_dmax r' \<le> bn_max_words \<and> bn_flags r' = bn_flags b"
  using assms max_wexpand [OF _ assms(2) order_refl]
  by (fastforce simp: BN_set_word_def BN_zero_def split: prod.splits bool.splits if_splits)

lemma max_sub_abs:
  assumes "sub_word_abs a w = Some (ok, r')" "bn_dmax a \<le> bn_max_words"
  shows "bn_dmax r' \<le> bn_max_words \<and> bn_flags r' = bn_flags a"
  using assms by (auto simp: sub_word_abs_def Let_def split: option.splits if_splits)

lemma max_add_abs:
  assumes "add_word_abs a w alloc = (ok, r')" "bn_dmax a \<le> bn_max_words"
  shows "bn_dmax r' \<le> bn_max_words \<and> bn_flags r' = bn_flags a"
  using assms max_push [OF _ assms(2)] by (auto simp: add_word_abs_def split: prod.splits)

lemma max_neg [simp]: "bn_dmax (BN_set_negative b s) = bn_dmax b" "bn_flags (BN_set_negative b s) = bn_flags b"
  by (simp_all add: BN_set_negative_def)

lemma max_add_word:
  assumes "BN_add_word a w alloc = Some (ok, r')" "bn_dmax a \<le> bn_max_words"
  shows "bn_dmax r' \<le> bn_max_words \<and> bn_flags r' = bn_flags a"
  using assms max_set_word [OF _ assms(2)] max_add_abs [OF _ assms(2)] max_sub_abs [where a = "a\<lparr>bn_neg := False\<rparr>"]
  by (fastforce simp: BN_add_word_def split: option.splits if_splits)

lemma max_sub_word:
  assumes "BN_sub_word a w alloc = Some (ok, r')" "bn_dmax a \<le> bn_max_words"
  shows "bn_dmax r' \<le> bn_max_words \<and> bn_flags r' = bn_flags a"
  using assms max_set_word [OF _ assms(2)] max_sub_abs [OF _ assms(2)] max_add_abs [where a = "a\<lparr>bn_neg := False\<rparr>"]
  by (fastforce simp: BN_sub_word_def split: option.splits if_splits prod.splits)

lemma max_mul_word:
  assumes "BN_mul_word a w alloc = (ok, r')" "bn_dmax a \<le> bn_max_words"
  shows "bn_dmax r' \<le> bn_max_words \<and> bn_flags r' = bn_flags a"
  using assms max_push [OF _ assms(2)]
  by (fastforce simp: BN_mul_word_def BN_zero_def split: if_splits prod.splits)


lemma max_copy:
  assumes "BN_copy r a alloc = (ok, r')" "bn_dmax r \<le> bn_max_words"
  shows "bn_dmax r' \<le> bn_max_words \<and> bn_flags r' = bn_flags r"
  using assms max_wexpand [OF _ assms(2) order_refl] by (fastforce simp: BN_copy_def split: prod.splits bool.splits)

lemma max_lshift:
  assumes "BN_lshift r a n alloc = (ok, r')" "bn_dmax r \<le> bn_max_words"
  shows "bn_dmax r' \<le> bn_max_words \<and> bn_flags r' = bn_flags r"
  using assms max_wexpand [where b = "r\<lparr>bn_neg := bn_neg a\<rparr>" and m = bn_max_words]
  by (fastforce simp: BN_lshift_def Let_def split: prod.splits bool.splits if_splits)

lemma max_lshift1:
  assumes "BN_lshift1 r a same alloc = (ok, r')" "bn_dmax r \<le> bn_max_words"
  shows "bn_dmax r' \<le> bn_max_words \<and> bn_flags r' = bn_flags r"
proof -
  define x where "x = (if same then r else r\<lparr>bn_neg := bn_neg a\<rparr>)"
  obtain e y where e: "bn_wexpand x (bn_width a + 1) alloc = (e, y)" by (rule prod.exhaust)
  have "bn_dmax y \<le> bn_max_words \<and> bn_flags y = bn_flags r" using max_wexpand [OF e, of bn_max_words] assms(2) by (simp add: x_def split: if_splits)
  then show ?thesis using assms(1) e unfolding BN_lshift1_def Let_def x_def [symmetric]
    by (auto split: prod.splits bool.splits)
qed

lemma max_rshift:
  assumes "BN_rshift r a n alloc = (ok, r')" "bn_dmax r \<le> bn_max_words"
  shows "bn_dmax r' \<le> bn_max_words \<and> bn_flags r' = bn_flags r"
  using assms max_wexpand [OF _ assms(2) order_refl]
  by (fastforce simp: BN_rshift_def split: prod.splits bool.splits if_splits)

lemma max_rshift1:
  assumes "BN_rshift1 r a alloc = (ok, r')" "bn_dmax r \<le> bn_max_words"
  shows "bn_dmax r' \<le> bn_max_words \<and> bn_flags r' = bn_flags r"
  using assms max_wexpand [OF _ assms(2) order_refl]
  by (fastforce simp: BN_rshift1_def split: prod.splits bool.splits)

lemma max_bin2bn:
  assumes "BN_bin2bn bs (Some r) alloc = Some r'" "bn_dmax r \<le> bn_max_words"
  shows "bn_dmax r' \<le> bn_max_words \<and> bn_flags r' = bn_flags r"
  using assms max_wexpand [OF _ assms(2) order_refl]
  by (fastforce simp: BN_bin2bn_def Let_def split: prod.splits bool.splits if_splits)

lemma max_mul_body:
  assumes "bn_mul_body rr a b c alloc = (ok, r', c')" "bn_dmax rr \<le> bn_max_words"
  shows "bn_dmax r' \<le> bn_max_words \<and> bn_flags r' = bn_flags rr"
proof -
  define x where "x = rr\<lparr>bn_neg := bn_neg a \<noteq> bn_neg b\<rparr>"
  define K where "K y \<longleftrightarrow> bn_dmax y \<le> bn_max_words \<and> bn_flags y = bn_flags rr" for y :: bignum
  have m: "\<And>n e y. bn_wexpand x n alloc = (e, y) \<Longrightarrow> K y"
    using max_wexpand [where b = x and m = bn_max_words] assms(2) by (auto simp: x_def K_def)
  have k: "K x" "\<And>y d. K (y\<lparr>bn_d := d\<rparr>) = K y" "\<And>y w. K (y\<lparr>bn_width := w\<rparr>) = K y" using assms(2) by (simp_all add: x_def K_def)
  define E where "E = (bn_width a = bn_width b \<and> bn_width a = 8)"
  define F where "F = (bn_width a \<ge> 16 \<and> bn_width b \<ge> 16 \<and> bn_width a \<le> bn_width b + 1 \<and> bn_width b \<le> bn_width a + 1)"
  have "K r'"
  proof (cases E)
    case True
    then show ?thesis using assms(1) m unfolding bn_mul_body_def Let_def x_def [symmetric] E_def [symmetric]
      by (auto split: prod.splits bool.splits simp: k)
  next
    case e: False
    show ?thesis
    proof (cases F)
      case False
      then show ?thesis using e assms(1) m unfolding bn_mul_body_def Let_def x_def [symmetric] E_def [symmetric] F_def [symmetric]
        by (auto split: prod.splits bool.splits simp: k)
    next
      case True
      define j where "j = (2 :: nat) ^ (unat (BN_num_bits_word (if bn_width b \<le> bn_width a then of_nat (bn_width a) else of_nat (bn_width b))) - 1)"
      define part where "part = (bn_width a > j \<or> bn_width b > j)"
      show ?thesis using True e assms(1) m k(1)
        unfolding bn_mul_body_def Let_def x_def [symmetric] E_def [symmetric] F_def [symmetric] j_def [symmetric] part_def [symmetric]
        by (auto split: prod.splits bool.splits option.splits simp: k(2,3))
    qed
  qed
  then show ?thesis by (simp add: K_def)
qed

lemma max_mul:
  assumes "BN_mul r a b same c alloc = Some (ok, r', c')" "bn_dmax r \<le> bn_max_words"
  shows "bn_dmax r' \<le> bn_max_words \<and> bn_flags r' = bn_flags r"
  using assms max_mul_body [OF _ assms(2)] max_copy [OF _ assms(2)]
  by (fastforce simp: BN_mul_def bn_mul_impl_def BN_zero_def Let_def split: prod.splits bool.splits if_splits option.splits)

lemma max_sqr_body:
  assumes "bn_sqr_body rr a i c alloc = (ok, r', c')" "bn_dmax rr \<le> bn_max_words"
  shows "bn_dmax r' \<le> bn_max_words \<and> bn_flags r' = bn_flags rr"
  using assms max_wexpand [OF _ assms(2) order_refl]
  by (fastforce simp: bn_sqr_body_def Let_def split: prod.splits bool.splits)

lemma max_sqr:
  assumes "BN_sqr r a same c alloc = Some (ok, r', c')" "bn_dmax r \<le> bn_max_words"
  shows "bn_dmax r' \<le> bn_max_words \<and> bn_flags r' = bn_flags r"
  using assms max_sqr_body [OF _ assms(2)] max_copy [OF _ assms(2)]
  by (fastforce simp: BN_sqr_def bn_sqr_consttime_def Let_def split: prod.splits bool.splits if_splits option.splits)

lemma set_negative:
  assumes "bn_ok b"
  shows "bn_ok (BN_set_negative b s) \<and> (bn_minimal b \<longrightarrow> bn_minimal (BN_set_negative b s)) \<and>
    bn_int (BN_set_negative b s) = (if s then - \<bar>bn_int b\<bar> else \<bar>bn_int b\<bar>)"
proof -
  have "bn_width b = 0 \<Longrightarrow> bn_abs b = 0" by (simp add: bn_abs_def)
  then show ?thesis using assms is_zero [OF assms] by (auto simp: BN_set_negative_def bn_int_def bn_minimal_def intro: gr0I)
qed

lemma bval_foldl: "int (bval (rev bs)) = foldl (\<lambda>n x. 256 * n + int (unat x)) 0 bs"
  by (induction bs rule: rev_induct) (simp_all add: bval_append)

text \<open>What a call of a function that may fail gives.\<close>

definition op_result :: "bignum \<Rightarrow> bool \<Rightarrow> bignum \<Rightarrow> int \<Rightarrow> bool" where
  "op_result r ok x v \<longleftrightarrow> bn_sized x \<and> bn_flags x = bn_flags r \<and> (ok \<longrightarrow> bn_minimal x \<and> bn_int x = v)"

lemma op_result_iff: "op_result r ok x v \<longleftrightarrow> bn_ok x \<and> bn_dmax x \<le> bn_max_words \<and> bn_flags x = bn_flags r \<and> (ok \<longrightarrow> bn_minimal x \<and> bn_int x = v)"
  by (simp add: op_result_def bn_sized_def)

lemma typed:
  assumes "bn_typed b"
  shows "bn_ok b" "bn_dmax b \<le> bn_max_words" "bn_minimal b" "bn_width b \<le> bn_max_words" "BN_is_zero b \<longrightarrow> \<not> bn_neg b"
proof -
  show o: "bn_ok b" "bn_dmax b \<le> bn_max_words" "bn_minimal b" using assms by (auto simp: bn_typed_def bn_sized_def)
  then show "bn_width b \<le> bn_max_words" by (simp add: bn_ok_def)
  show "BN_is_zero b \<longrightarrow> \<not> bn_neg b" using o is_zero [OF o(1)] minimal_zero [OF o(1,3)]
    by (simp add: bn_minimal_def)
qed

lemma call_add:
  assumes "bn_typed r" "bn_typed a" "bn_typed b" "BN_add r a b alloc = (ok, x)"
  shows "op_result r ok x (bn_int a + bn_int b)"
  using bn_add [OF typed(1) [OF assms(1)] typed(1) [OF assms(2)] typed(1) [OF assms(3)] typed(5) [OF assms(2)] assms(4)]
    max_add [OF assms(4) typed(2) [OF assms(1)]]
  by (simp add: op_result_iff bn_result_def)

lemma call_sub:
  assumes "bn_typed r" "bn_typed a" "bn_typed b" "BN_sub r a b alloc = (ok, x)"
  shows "op_result r ok x (bn_int a - bn_int b)"
  using bn_sub [OF typed(1) [OF assms(1)] typed(1) [OF assms(2)] typed(1) [OF assms(3)] typed(5) [OF assms(2)] assms(4)]
    max_sub [OF assms(4) typed(2) [OF assms(1)]]
  by (simp add: op_result_iff bn_result_def)

lemma call_mul:
  assumes "bn_typed r" "bn_typed a" "bn_typed b" "ctx_ok c"
  shows "\<exists>ok x c'. BN_mul r a b same c alloc = Some (ok, x, c') \<and> op_result r ok x (bn_int a * bn_int b) \<and> ctx_after c c'"
proof -
  obtain ok x c' where x: "BN_mul r a b same c alloc = Some (ok, x, c')" "bn_ok x" "ctx_after c c'"
    "ok \<longrightarrow> bn_result (bn_int a * bn_int b) x"
    using bn_mul [OF typed(1) [OF assms(1)] typed(1) [OF assms(2)] typed(1) [OF assms(3)] typed(4) [OF assms(2)]
        typed(4) [OF assms(3)] assms(4)] by blast
  then show ?thesis using max_mul [OF x(1) typed(2) [OF assms(1)]] by (simp add: op_result_iff bn_result_def)
qed

lemma call_sqr:
  assumes "bn_typed r" "bn_typed a" "ctx_ok c"
  shows "\<exists>ok x c'. BN_sqr r a same c alloc = Some (ok, x, c') \<and> op_result r ok x (bn_int a * bn_int a) \<and> ctx_after c c'"
proof -
  obtain ok x c' where x: "BN_sqr r a same c alloc = Some (ok, x, c')" "bn_ok x" "ctx_after c c'"
    "ok \<longrightarrow> bn_result (bn_int a * bn_int a) x"
    using bn_sqr [OF typed(1) [OF assms(1)] typed(1) [OF assms(2)] typed(4) [OF assms(2)] assms(3)] by blast
  then show ?thesis using max_sqr [OF x(1) typed(2) [OF assms(1)]] by (simp add: op_result_iff bn_result_def)
qed

lemma call_add_word:
  assumes "bn_typed r"
  shows "\<exists>ok x. BN_add_word r w alloc = Some (ok, x) \<and> op_result r ok x (bn_int r + int (unat w))"
proof -
  obtain ok x where x: "BN_add_word r w alloc = Some (ok, x)" "bn_ok x"
    "ok \<longrightarrow> bn_int x = bn_int r + int (unat w) \<and> (bn_minimal r \<longrightarrow> bn_minimal x)"
    using bn_add_word [OF typed(1) [OF assms]] by blast
  then show ?thesis using max_add_word [OF x(1) typed(2) [OF assms]] typed(3) [OF assms] by (simp add: op_result_iff)
qed

lemma call_sub_word:
  assumes "bn_typed r"
  shows "\<exists>ok x. BN_sub_word r w alloc = Some (ok, x) \<and> op_result r ok x (bn_int r - int (unat w))"
proof -
  obtain ok x where x: "BN_sub_word r w alloc = Some (ok, x)" "bn_ok x"
    "ok \<longrightarrow> bn_int x = bn_int r - int (unat w) \<and> (bn_minimal r \<longrightarrow> bn_minimal x)"
    using bn_sub_word [OF typed(1) [OF assms]] by blast
  then show ?thesis using max_sub_word [OF x(1) typed(2) [OF assms]] typed(3) [OF assms] by (simp add: op_result_iff)
qed

lemma call_mul_word:
  assumes "bn_typed r" "BN_mul_word r w alloc = (ok, x)"
  shows "op_result r ok x (bn_int r * int (unat w))"
  using bn_mul_word [OF typed(1) [OF assms(1)] assms(2)] max_mul_word [OF assms(2) typed(2) [OF assms(1)]] typed(3) [OF assms(1)]
  by (simp add: op_result_iff)

lemma call_lshift:
  assumes "bn_typed r" "bn_typed a" "BN_lshift r a n alloc = (ok, x)"
  shows "op_result r ok x (bn_int a * 2 ^ nat n)"
proof (cases "n < 0")
  case True
  then show ?thesis using assms typed [OF assms(1)] by (simp add: BN_lshift_def op_result_iff)
next
  case False
  then show ?thesis using bn_lshift [OF typed(1) [OF assms(1)] typed(1) [OF assms(2)] _ assms(3)]
      max_lshift [OF assms(3) typed(2) [OF assms(1)]] by (simp add: op_result_iff bn_result_def)
qed

lemma shifted_int: "(if bn_neg a then -1 else 1) * int (bn_abs a div 2 ^ k) = sgn (bn_int a) * (\<bar>bn_int a\<bar> div 2 ^ k)"
  by (simp add: bn_int_def sgn_if zdiv_int)

lemma call_rshift:
  assumes "bn_typed r" "bn_typed a" "BN_rshift r a n alloc = (ok, x)"
  shows "op_result r ok x (sgn (bn_int a) * (\<bar>bn_int a\<bar> div 2 ^ nat n))"
proof (cases "n < 0")
  case True
  then show ?thesis using assms typed [OF assms(1)] by (simp add: BN_rshift_def op_result_iff)
next
  case False
  then have n: "0 \<le> n" by simp
  show ?thesis using bn_rshift [OF typed(1) [OF assms(1)] typed(1) [OF assms(2)] n assms(3)]
      max_rshift [OF assms(3) typed(2) [OF assms(1)]] unfolding shifted_int by (simp add: op_result_iff bn_result_def)
qed

lemma call_lshift1:
  assumes "bn_typed r" "bn_typed a" "same \<longrightarrow> r = a" "BN_lshift1 r a same alloc = (ok, x)"
  shows "op_result r ok x (2 * bn_int a)"
  using bn_lshift1 [OF typed(1) [OF assms(1)] typed(1) [OF assms(2)] assms(3,4)] max_lshift1 [OF assms(4) typed(2) [OF assms(1)]]
    typed(3) [OF assms(2)] by (simp add: op_result_iff)

lemma call_rshift1:
  assumes "bn_typed r" "bn_typed a" "BN_rshift1 r a alloc = (ok, x)"
  shows "op_result r ok x (sgn (bn_int a) * (\<bar>bn_int a\<bar> div 2))"
  using call_rshift [OF assms(1,2) bn_rshift1 [OF typed(1) [OF assms(1)] typed(1) [OF assms(2)] assms(3)]] by simp

lemma call_copy:
  assumes "bn_typed r" "bn_typed a" "BN_copy r a alloc = (ok, x)"
  shows "op_result r ok x (bn_int a)"
proof -
  note c = bn_copy [OF typed(1) [OF assms(1)] typed(1) [OF assms(2)] assms(3)]
  have "bn_minimal x" if ok
    using c(1) c(4) [OF that] typed(3) [OF assms(2)] by (simp add: minimal_iff [OF c(1)] minimal_iff [OF typed(1) [OF assms(2)]])
  then show ?thesis using c(1,4) max_copy [OF assms(3) typed(2) [OF assms(1)]] by (simp add: op_result_iff bn_int_def)
qed

lemma call_bin2bn:
  assumes "bn_typed r" "BN_bin2bn bs (Some r) alloc = Some x"
  shows "op_result r True (bn_set_minimal_width x) (foldl (\<lambda>n x. 256 * n + int (unat x)) 0 bs)"
proof -
  have "\<And>y. Some r = Some y \<Longrightarrow> bn_ok y" using typed(1) [OF assms(1)] by simp
  note b = bn_bin2bn [OF this assms(2)]
  have "bn_int (bn_set_minimal_width x) = int (bval (rev bs))"
    using set_minimal(4) [OF b(1)] b(2,3) by (cases "bs = []") (simp_all add: bn_int_def)
  then show ?thesis using set_minimal [OF b(1)] max_bin2bn [OF assms(2) typed(2) [OF assms(1)]]
    by (simp add: op_result_iff bval_foldl)
qed

lemma call_set_negative:
  assumes "bn_typed r"
  shows "op_result r True (BN_set_negative r sg) (if sg then - \<bar>bn_int r\<bar> else \<bar>bn_int r\<bar>)"
  using set_negative [OF typed(1) [OF assms]] typed [OF assms] by (simp add: op_result_iff)

text \<open>Every operation returns, and keeps what the next one needs.\<close>

lemma op_step:
  assumes s: "\<And>k. k < length s \<Longrightarrow> bn_typed (s ! k)" and c: "ctx_ok c" and i: "list_all (\<lambda>i. i < length s) (op_registers p)"
  shows "\<exists>ok x c'. op_call p s c alloc = Some (ok, x, c') \<and> op_result (s ! hd (op_registers p)) ok x (op_value p (map bn_int s)) \<and> ctx_after c c'"
proof -
  have after: "ctx_after c c" using c by (simp add: ctx_after_def)
  show ?thesis
  proof (cases p)
    case (Op_mul r a b)
    then show ?thesis using i call_mul [OF s s s c] by simp
  next
    case (Op_sqr r a)
    then show ?thesis using i call_sqr [OF s s c] by simp
  next
    case (Op_add_word r w)
    then show ?thesis using i call_add_word [OF s, of r w alloc] after by auto
  next
    case (Op_sub_word r w)
    then show ?thesis using i call_sub_word [OF s, of r w alloc] after by auto
  next
    case (Op_mul_word r w)
    then show ?thesis using i call_mul_word [OF s, of r w alloc] after by (auto split: prod.splits)
  next
    case (Op_bin2bn r bs)
    then show ?thesis using i call_bin2bn [OF s, of r bs alloc] typed(1,2) [OF s, of r] after
      by (cases "BN_bin2bn bs (Some (s ! r)) alloc") (simp_all add: op_result_iff ex_bool_eq)
  next
    case (Op_set_negative r sg)
    then show ?thesis using i call_set_negative [OF s, of r sg] after by (cases sg) (simp_all add: ex_bool_eq)
  next
    case (Op_lshift1 r a)
    then show ?thesis using i call_lshift1 [OF s s, of r a "r = a" alloc] after by (auto split: prod.splits)
  qed (use i after in \<open>auto split: prod.splits intro: call_add call_sub call_mul_word call_lshift call_rshift call_rshift1 call_copy s\<close>)
qed

lemma after_trans: "ctx_after a b \<Longrightarrow> ctx_after b c \<Longrightarrow> ctx_after a c"
  by (auto simp: ctx_after_def)

lemma run_typed:
  assumes "\<And>k. k < length s \<Longrightarrow> bn_typed (s ! k)" "ctx_ok c" "list_all (\<lambda>p. list_all (\<lambda>i. i < length s) (op_registers p)) ps"
  shows "\<exists>ok s' c'. bn_run ps s c alloc = Some (ok, s', c') \<and> length s' = length s \<and> (\<forall>b \<in> set s'. bn_sized b) \<and> ctx_after c c' \<and>
    (ok \<longrightarrow> (\<forall>b \<in> set s'. bn_minimal b) \<and> map bn_int s' = int_run ps (map bn_int s))"
  using assms
proof (induction ps arbitrary: s c)
  case Nil
  have "bn_sized b \<and> bn_minimal b" if "b \<in> set s" for b
    using Nil(1) that by (auto simp: bn_typed_def in_set_conv_nth)
  moreover have "ctx_after c c" using Nil(2) by (simp add: ctx_after_def)
  ultimately show ?case by (simp add: ex_bool_eq)
next
  case (Cons p ps)
  obtain ok x c' where p: "op_call p s c alloc = Some (ok, x, c')" "op_result (s ! hd (op_registers p)) ok x (op_value p (map bn_int s))" "ctx_after c c'"
    using op_step [OF Cons.prems(1,2), of p alloc] Cons.prems(3) by auto
  define r where "r = hd (op_registers p)"
  have r: "r < length s" using Cons.prems(3) by (cases p) (simp_all add: r_def)
  show ?case
  proof (cases ok)
    case False
    have "\<forall>b \<in> set (s[r := x]). bn_sized b"
      using Cons.prems(1) p(2) r by (auto simp: in_set_conv_nth nth_list_update bn_typed_def op_result_def)
    moreover have "bn_run (p # ps) s c alloc = Some (False, s[r := x], c')" using p(1) False by (simp add: r_def)
    ultimately show ?thesis using p(3) by (simp add: ex_bool_eq del: bn_run.simps int_run.simps)
  next
    case True
    have t: "bn_typed (s[r := x] ! k)" if "k < length (s[r := x])" for k
      using Cons.prems(1) p(2) r True that by (auto simp: nth_list_update bn_typed_def op_result_def)
    have c': "ctx_ok c'" using p(3) by (simp add: ctx_after_def)
    obtain ok' s' c'' where "bn_run ps (s[r := x]) c' alloc = Some (ok', s', c'')" "length s' = length s" "\<forall>b \<in> set s'. bn_sized b" "ctx_after c' c''"
      "ok' \<longrightarrow> (\<forall>b \<in> set s'. bn_minimal b) \<and> map bn_int s' = int_run ps (map bn_int (s[r := x]))"
      using Cons.IH [OF t c'] Cons.prems(3) by auto
    moreover have "map bn_int (s[r := x]) = (map bn_int s)[r := op_value p (map bn_int s)]"
      using p(2) True by (simp add: map_update op_result_def)
    moreover have "bn_run (p # ps) s c alloc = bn_run ps (s[r := x]) c' alloc" using p(1) True by (simp add: r_def)
    moreover have "int_run (p # ps) (map bn_int s) = int_run ps ((map bn_int s)[r := op_value p (map bn_int s)])" by (simp add: r_def)
    ultimately show ?thesis using after_trans [OF p(3)] by metis
  qed
qed

section \<open>Programs that have memory\<close>

text \<open>
  A context never needs more than the first block of frames and the first block of its pool: a product
  takes at most two temporary numbers and gives them back.
\<close>

definition ctx_small :: "bn_ctx \<Rightarrow> bool" where
  "ctx_small c \<longleftrightarrow> \<not> ctx_error c \<and> bs_size (ctx_stack c) \<le> 32 \<and>
     (case ctx_bignums c of None \<Rightarrow> ctx_used c = 0 | Some s \<Rightarrow> length (sk_data s) \<le> 2 \<and> sk_num_alloc s = 4 \<and> ctx_used c \<le> length (sk_data s))"

definition ctx_idle :: "bn_ctx \<Rightarrow> bool" where
  "ctx_idle c \<longleftrightarrow> ctx_ok c \<and> ctx_small c \<and> bs_indexes (ctx_stack c) = [] \<and> ctx_used c = 0"

lemma small_store: "ctx_small c \<Longrightarrow> ctx_small (ctx_store c i b) \<and> ctx_used (ctx_store c i b) = ctx_used c"
  by (auto simp: ctx_small_def ctx_store_def sk_set_def split: option.splits)

lemma small_get:
  assumes "ctx_small c" "ctx_used c \<le> 1" "\<forall>k. alloc k"
  shows "\<exists>i c'. BN_CTX_get c alloc = (Some i, c') \<and> ctx_small c' \<and> ctx_used c' = ctx_used c + 1"
proof -
  obtain s where s: "(case ctx_bignums c of None \<Rightarrow> sk_new_null alloc | Some s \<Rightarrow> Some s) = Some s"
    "length (sk_data s) \<le> 2" "sk_num_alloc s = 4" "ctx_used c \<le> length (sk_data s)"
    using assms by (auto simp: ctx_small_def sk_new_null_def sk_new_def kMinSize_def split: option.splits)
  have e: "\<not> ctx_error c" "bs_size (ctx_stack c) \<le> 32" using assms(1) by (simp_all add: ctx_small_def)
  obtain b where b: "BN_new alloc = Some b" using assms(3) by (simp add: BN_new_def)
  define t where "t = (if ctx_used c = length (sk_data s) then s\<lparr>sk_data := sk_data s @ [Some b], sk_sorted := False\<rparr> else s)"
  have t: "length (sk_data t) \<le> 2" "sk_num_alloc t = 4" "ctx_used c < length (sk_data t)"
    using s assms(2) by (auto simp: t_def)
  have push: "(if ctx_used c = sk_num (Some s) then
      (case BN_new alloc of None \<Rightarrow> None | Some bn \<Rightarrow> (case sk_push (Some s) (Some bn) alloc of (n, s) \<Rightarrow> if n = 0 then None else Some s))
    else Some (Some s)) = Some (Some t)"
    using s assms(2) b
    by (cases s) (auto simp: t_def sk_num_def sk_push_def sk_insert_def sk_grow_def Let_def)
  define c1 where "c1 = c\<lparr>ctx_bignums := Some t, ctx_used := ctx_used c + 1\<rparr>"
  have "ctx_small c1" using t e by (simp add: c1_def ctx_small_def)
  moreover have "BN_CTX_get c alloc = (Some (ctx_used c), ctx_store c1 (ctx_used c) (BN_zero (ctx_number c1 (ctx_used c))))"
    unfolding BN_CTX_get_def s(1) using e(1) push by (simp add: Let_def c1_def)
  moreover have "ctx_used c1 = ctx_used c + 1" by (simp add: c1_def)
  ultimately show ?thesis using small_store by auto
qed

lemma small_start:
  assumes "ctx_idle c" "\<forall>k. alloc k"
  shows "ctx_small (BN_CTX_start c alloc) \<and> ctx_used (BN_CTX_start c alloc) = 0"
  using assms by (auto simp: ctx_idle_def ctx_small_def BN_CTX_start_def BN_STACK_push_def BN_CTX_START_FRAMES_def Let_def split: option.splits)

lemma small_mul_body:
  assumes "bn_mul_body rr a b c alloc = (ok, r', c')" "ctx_small c" "ctx_used c \<le> 1" "\<forall>k. alloc k"
  shows "ctx_small c'"
proof -
  obtain i d where g: "BN_CTX_get c alloc = (Some i, d)" "ctx_small d" using small_get [OF assms(2-4)] by blast
  have st: "\<And>t. ctx_small (ctx_store d i t)" using small_store [OF g(2)] by blast
  define x where "x = rr\<lparr>bn_neg := bn_neg a \<noteq> bn_neg b\<rparr>"
  define E where "E = (bn_width a = bn_width b \<and> bn_width a = 8)"
  define F where "F = (bn_width a \<ge> 16 \<and> bn_width b \<ge> 16 \<and> bn_width a \<le> bn_width b + 1 \<and> bn_width b \<le> bn_width a + 1)"
  define j where "j = (2 :: nat) ^ (unat (BN_num_bits_word (if bn_width b \<le> bn_width a then of_nat (bn_width a) else of_nat (bn_width b))) - 1)"
  define part where "part = (bn_width a > j \<or> bn_width b > j)"
  show ?thesis using assms(1,2)
    unfolding bn_mul_body_def Let_def x_def [symmetric] E_def [symmetric] F_def [symmetric] j_def [symmetric] part_def [symmetric] g(1)
    by (cases E; cases F) (auto split: prod.splits bool.splits simp: st)
qed

lemma end_small: "BN_CTX_end c = Some c' \<Longrightarrow> ctx_small c \<Longrightarrow> ctx_after c0 c' \<Longrightarrow> ctx_idle c0 \<Longrightarrow> ctx_idle c'"
  by (auto simp: BN_CTX_end_def BN_STACK_pop_def ctx_small_def ctx_after_def ctx_idle_def split: if_splits option.splits)

lemma mul_idle:
  assumes "BN_mul r a b same c alloc = Some (ok, x, c')" "ctx_idle c" "\<forall>k. alloc k" "ctx_after c c'"
  shows "ctx_idle c'"
proof (cases "bn_width a = 0 \<or> bn_width b = 0")
  case True
  then show ?thesis using assms(1,2) by (auto simp: BN_mul_def bn_mul_impl_def)
next
  case False
  define d where "d = BN_CTX_start c alloc"
  have d: "ctx_small d" "ctx_used d = 0" using small_start [OF assms(2,3)] by (simp_all add: d_def)
  obtain i e where g: "BN_CTX_get d alloc = (Some i, e)" "ctx_small e" "ctx_used e = 1" using small_get [OF d(1) _ assms(3)] d(2) by auto
  have body: "bn_mul_body y a b d alloc = (f, z, k) \<Longrightarrow> ctx_small k" "bn_mul_body y a b e alloc = (f, z, k) \<Longrightarrow> ctx_small k" for y f z k
    using small_mul_body [OF _ d(1) _ assms(3)] small_mul_body [OF _ g(2) _ assms(3)] d(2) g(3) by auto
  obtain m where "ctx_small m" "BN_CTX_end m = Some c'"
    using assms(1) False body small_store
    unfolding BN_mul_def bn_mul_impl_def Let_def d_def [symmetric] g(1)
    by (fastforce split: prod.splits if_splits bool.splits)
  then show ?thesis using end_small assms(2,4) by blast
qed

lemma small_sqr_body:
  assumes "bn_sqr_body rr a i c alloc = (ok, r', c')" "ctx_small c"
  shows "ctx_small c'"
  using assms small_store [OF assms(2)] by (fastforce simp: bn_sqr_body_def Let_def split: prod.splits bool.splits)

lemma sqr_idle:
  assumes "BN_sqr r a same c alloc = Some (ok, x, c')" "ctx_idle c" "\<forall>k. alloc k" "ctx_after c c'"
  shows "ctx_idle c'"
proof (cases "bn_width a = 0")
  case True
  then show ?thesis using assms(1,2) by (auto simp: BN_sqr_def bn_sqr_consttime_def)
next
  case False
  define d where "d = BN_CTX_start c alloc"
  have d: "ctx_small d" "ctx_used d = 0" using small_start [OF assms(2,3)] by (simp_all add: d_def)
  obtain i e where g: "BN_CTX_get d alloc = (Some i, e)" "ctx_small e" "ctx_used e = 1" using small_get [OF d(1) _ assms(3)] d(2) by auto
  obtain j k where h: "BN_CTX_get e alloc = (Some j, k)" "ctx_small k" using small_get [OF g(2) _ assms(3)] g(3) by auto
  have body: "bn_sqr_body y a l e alloc = (f, z, m) \<Longrightarrow> ctx_small m" "bn_sqr_body y a l k alloc = (f, z, m) \<Longrightarrow> ctx_small m" for y f z l m
    using small_sqr_body [OF _ g(2)] small_sqr_body [OF _ h(2)] by blast+
  define p where "p = (if same then
      (case bn_sqr_body (ctx_number k i) a j k alloc of
         (False, rr, ctx) \<Rightarrow> (False, r, ctx_store ctx i rr)
       | (True, rr, ctx) \<Rightarrow> (case BN_copy r rr alloc of (ok, r) \<Rightarrow> (ok, r, ctx_store ctx i rr)))
    else bn_sqr_body r a i e alloc)"
  have eq: "bn_sqr_consttime r a same c alloc = (case p of (ok, r, ctx) \<Rightarrow> map_option (\<lambda>ctx. (ok, r, ctx)) (BN_CTX_end ctx))"
    using False unfolding bn_sqr_consttime_def Let_def d_def [symmetric] g(1) p_def by (simp add: h(1))
  obtain f z m where p: "p = (f, z, m)" by (rule prod_cases3)
  have "ctx_small m"
  proof (cases same)
    case True
    obtain f1 rr m1 where b: "bn_sqr_body (ctx_number k i) a j k alloc = (f1, rr, m1)" by (rule prod_cases3)
    have "m = ctx_store m1 i rr" using p b True by (auto simp: p_def split: bool.splits prod.splits)
    then show ?thesis using small_store body(2) [OF b] by blast
  next
    case False
    then show ?thesis using p body(1) by (auto simp: p_def)
  qed
  moreover have "BN_CTX_end m = Some c'" using assms(1) eq p by (auto simp: BN_sqr_def)
  ultimately obtain m where "ctx_small m" "BN_CTX_end m = Some c'" by blast
  then show ?thesis using end_small assms(2,4) by blast
qed

lemma new_idle: "BN_CTX_new alloc = Some c \<Longrightarrow> ctx_idle c"
  by (auto simp: BN_CTX_new_def ctx_idle_def ctx_small_def ctx_ok_def BN_STACK_init_def split: if_splits)

lemma idle_room: "ctx_idle c \<Longrightarrow> \<forall>k. alloc k \<Longrightarrow> ctx_room c (2 ^ 40) alloc"
  by (auto simp: ctx_idle_def ctx_small_def ctx_room_def split: option.splits)


text \<open>
  Values of at most \<open>2^25\<close> bits, which have at most \<open>2^19\<close> words, far below the limit \<open>bn_max_words\<close>;
  a program all of whose values and arguments are small does not fail unless memory does.
\<close>

definition small_bits :: nat where "small_bits = 2 ^ 25"

definition small_value :: "int \<Rightarrow> bool" where
  "small_value v \<longleftrightarrow> \<bar>v\<bar> < 2 ^ small_bits"

fun small_op :: "bn_op \<Rightarrow> bool" where
  "small_op (Op_lshift r a n) = (0 \<le> n \<and> n \<le> 2 ^ 25)"
| "small_op (Op_rshift r a n) = (0 \<le> n)"
| "small_op (Op_bin2bn r bs) = (length bs \<le> 2 ^ 22)"
| "small_op p = True"

fun small_run :: "bn_op list \<Rightarrow> int list \<Rightarrow> bool" where
  "small_run [] v = list_all small_value v"
| "small_run (p # ps) v = (list_all small_value v \<and> small_op p \<and> small_run ps (v[hd (op_registers p) := op_value p v]))"

definition bn_dynamic :: "bignum \<Rightarrow> bool" where
  "bn_dynamic b \<longleftrightarrow> bn_flags b AND BN_FLG_STATIC_DATA = 0"

lemma small_word: "\<bar>v\<bar> < 2 ^ 64 \<Longrightarrow> small_value v"
proof -
  assume "\<bar>v\<bar> < 2 ^ 64"
  moreover have "(2 :: int) ^ 64 \<le> 2 ^ small_bits" by (rule power_increasing) (simp_all add: small_bits_def)
  ultimately show "small_value v" unfolding small_value_def by linarith
qed

lemma small_width:
  assumes "bn_typed b" "small_value (bn_int b)"
  shows "bn_width b \<le> 2 ^ 19"
proof (cases "bn_width b = 0")
  case False
  then have "2 ^ (64 * (bn_width b - 1)) \<le> bn_abs b"
    using minimal_iff [OF typed(1) [OF assms(1)]] typed(3) [OF assms(1)] by simp
  moreover have "int (bn_abs b) < 2 ^ small_bits" using assms(2) by (simp add: small_value_def bn_int_def split: if_splits)
  then have "bn_abs b < 2 ^ small_bits" by (simp only: of_nat_less_iff [where 'a = int, symmetric] of_nat_power of_nat_numeral)
  ultimately have "(2 :: nat) ^ (64 * (bn_width b - 1)) < 2 ^ small_bits" by (rule order.strict_trans1)
  then have "64 * (bn_width b - 1) < small_bits" by (rule power_less_imp_less_exp [rotated]) simp
  then show ?thesis by (simp add: small_bits_def)
qed simp

lemma op_success:
  assumes s: "\<And>k. k < length s \<Longrightarrow> bn_typed (s ! k) \<and> bn_dynamic (s ! k) \<and> small_value (bn_int (s ! k))"
    and c: "ctx_idle c" and i: "list_all (\<lambda>i. i < length s) (op_registers p)" and m: "\<forall>k. alloc k" "small_op p"
    and call: "op_call p s c alloc = Some (ok, x, c')"
  shows "ok \<and> ctx_idle c'"
proof -
  have ty: "bn_typed (s ! k)" "bn_ok (s ! k)" "BN_is_zero (s ! k) \<longrightarrow> \<not> bn_neg (s ! k)" "bn_width (s ! k) \<le> 2 ^ 19"
    "bn_flags (s ! k) AND BN_FLG_STATIC_DATA = 0" "bn_width (s ! k) \<le> bn_max_words" if "k < length s" for k
    using s [OF that] typed [of "s ! k"] small_width [of "s ! k"] by (simp_all add: bn_dynamic_def)
  have max: "bn_max_words = 8388607" by (simp add: bn_max_words_def BN_BITS2_def)
  have room: "bn_room (s ! k) n alloc" if "k < length s" "n \<le> 2 ^ 22" for k n
    by (rule room_plain [OF m(1) ty(5) [OF that(1)]]) (use that(2) in \<open>simp add: max\<close>)
  have cok: "ctx_ok c" using c by (simp add: ctx_idle_def)
  have ri: "\<And>k. k \<in> set (op_registers p) \<Longrightarrow> k < length s" using i by (auto simp: list_all_iff)
  show ?thesis
  proof (cases p)
    case (Op_add r a b)
    have r: "r < length s" "a < length s" "b < length s" using ri Op_add by simp_all
    obtain e y where y: "BN_add (s ! r) (s ! a) (s ! b) alloc = (e, y)" by (rule prod.exhaust)
    have "bn_add_room (s ! r) (s ! a) (s ! b) alloc"
      using room [OF r(1)] ty(4) [OF r(2)] ty(4) [OF r(3)] by (simp add: bn_add_room_def)
    then show ?thesis using bn_add [OF ty(2) [OF r(1)] ty(2) [OF r(2)] ty(2) [OF r(3)] ty(3) [OF r(2)] y] y call c Op_add by simp
  next
    case (Op_sub r a b)
    have r: "r < length s" "a < length s" "b < length s" using ri Op_sub by simp_all
    obtain e y where y: "BN_sub (s ! r) (s ! a) (s ! b) alloc = (e, y)" by (rule prod.exhaust)
    have "bn_add_room (s ! r) (s ! a) (s ! b) alloc"
      using room [OF r(1)] ty(4) [OF r(2)] ty(4) [OF r(3)] by (simp add: bn_add_room_def)
    then show ?thesis using bn_sub [OF ty(2) [OF r(1)] ty(2) [OF r(2)] ty(2) [OF r(3)] ty(3) [OF r(2)] y] y call c Op_sub by simp
  next
    case (Op_mul r a b)
    have r: "r < length s" "a < length s" "b < length s" using ri Op_mul by simp_all
    have "mul_roomy (s ! r) (s ! a) (s ! b) c alloc"
      using idle_room [OF c m(1)] ty(4,5) [OF r(1)] ty(4) [OF r(2)] ty(4) [OF r(3)] by (simp add: mul_roomy_def max)
    then show ?thesis
      using bn_mul [OF ty(2) [OF r(1)] ty(2) [OF r(2)] ty(2) [OF r(3)] ty(6) [OF r(2)] ty(6) [OF r(3)] cok, of "r = a \<or> r = b" alloc]
        mul_idle [OF _ c m(1)] call Op_mul by auto
  next
    case (Op_sqr r a)
    have r: "r < length s" "a < length s" using ri Op_sqr by simp_all
    have "sqr_roomy (s ! r) (s ! a) c alloc"
      using idle_room [OF c m(1)] ty(4,5) [OF r(1)] ty(4) [OF r(2)] by (simp add: sqr_roomy_def max)
    then show ?thesis
      using bn_sqr [OF ty(2) [OF r(1)] ty(2) [OF r(2)] ty(6) [OF r(2)] cok, of "r = a" alloc]
        sqr_idle [OF _ c m(1)] call Op_sqr by auto
  next
    case (Op_add_word r w)
    have r: "r < length s" using ri Op_add_word by simp
    have "bn_word_room (s ! r) alloc" using room [OF r] ty(4) [OF r] by (simp add: bn_word_room_def)
    then show ?thesis using bn_add_word [OF ty(2) [OF r], of w alloc] call c Op_add_word by auto
  next
    case (Op_sub_word r w)
    have r: "r < length s" using ri Op_sub_word by simp
    have "bn_word_room (s ! r) alloc" using room [OF r] ty(4) [OF r] by (simp add: bn_word_room_def)
    then show ?thesis using bn_sub_word [OF ty(2) [OF r], of w alloc] call c Op_sub_word by auto
  next
    case (Op_mul_word r w)
    have r: "r < length s" using ri Op_mul_word by simp
    have "bn_word_room (s ! r) alloc" using room [OF r] ty(4) [OF r] by (simp add: bn_word_room_def)
    moreover obtain e y where y: "BN_mul_word (s ! r) w alloc = (e, y)" by (rule prod.exhaust)
    ultimately show ?thesis using bn_mul_word [OF ty(2) [OF r] y] call c Op_mul_word by simp
  next
    case (Op_lshift r a n)
    have r: "r < length s" "a < length s" using ri Op_lshift by simp_all
    have n: "0 \<le> n" "nat n \<le> 2 ^ 25" using m(2) Op_lshift by (simp_all add: nat_le_iff)
    obtain e y where y: "BN_lshift (s ! r) (s ! a) n alloc = (e, y)" by (rule prod.exhaust)
    have "bn_room (s ! r) (bn_width (s ! a) + nat n div 64 + 1) alloc"
      by (rule room [OF r(1)]) (use ty(4) [OF r(2)] div_le_mono [OF n(2), of 64] in simp)
    then show ?thesis using bn_lshift [OF ty(2) [OF r(1)] ty(2) [OF r(2)] n(1) y] y call c Op_lshift by simp
  next
    case (Op_rshift r a n)
    have r: "r < length s" "a < length s" using ri Op_rshift by simp_all
    have n: "0 \<le> n" using m(2) Op_rshift by simp
    obtain e y where y: "BN_rshift (s ! r) (s ! a) n alloc = (e, y)" by (rule prod.exhaust)
    have "bn_room (s ! r) (bn_width (s ! a)) alloc" by (rule room [OF r(1)]) (use ty(4) [OF r(2)] in simp)
    then show ?thesis using bn_rshift [OF ty(2) [OF r(1)] ty(2) [OF r(2)] n y] y call c Op_rshift by simp
  next
    case (Op_lshift1 r a)
    have r: "r < length s" "a < length s" using ri Op_lshift1 by simp_all
    obtain e y where y: "BN_lshift1 (s ! r) (s ! a) (r = a) alloc = (e, y)" by (rule prod.exhaust)
    have "bn_room (s ! r) (bn_width (s ! a) + 1) alloc" by (rule room [OF r(1)]) (use ty(4) [OF r(2)] in simp)
    then show ?thesis using bn_lshift1 [OF ty(2) [OF r(1)] ty(2) [OF r(2)] _ y] y call c Op_lshift1 by simp
  next
    case (Op_rshift1 r a)
    have r: "r < length s" "a < length s" using ri Op_rshift1 by simp_all
    obtain e y where y: "BN_rshift1 (s ! r) (s ! a) alloc = (e, y)" by (rule prod.exhaust)
    have "bn_room (s ! r) (bn_width (s ! a)) alloc" by (rule room [OF r(1)]) (use ty(4) [OF r(2)] in simp)
    then show ?thesis
      using bn_rshift [OF ty(2) [OF r(1)] ty(2) [OF r(2)] _ bn_rshift1 [OF ty(2) [OF r(1)] ty(2) [OF r(2)] y]] y call c Op_rshift1 by simp
  next
    case (Op_copy r a)
    have r: "r < length s" "a < length s" using ri Op_copy by simp_all
    obtain e y where y: "BN_copy (s ! r) (s ! a) alloc = (e, y)" by (rule prod.exhaust)
    have "bn_room (s ! r) (bn_width (s ! a)) alloc" by (rule room [OF r(1)]) (use ty(4) [OF r(2)] in simp)
    then show ?thesis using bn_copy(3) [OF ty(2) [OF r(1)] ty(2) [OF r(2)] y] y call c Op_copy by simp
  next
    case (Op_bin2bn r bs)
    have r: "r < length s" using ri Op_bin2bn by simp
    have l: "length bs \<le> 2 ^ 22" using m(2) Op_bin2bn by simp
    obtain e y where y: "bn_wexpand (s ! r) ((length bs - 1) div BN_BYTES + 1) alloc = (e, y)" by (rule prod.exhaust)
    have "bn_room (s ! r) ((length bs - 1) div BN_BYTES + 1) alloc"
      by (rule room [OF r]) (use l in \<open>simp add: BN_BYTES_def\<close>)
    then have "e" using wexpand(6) [OF ty(2) [OF r] y] by simp
    then have "BN_bin2bn bs (Some (s ! r)) alloc \<noteq> None" using y by (simp add: BN_bin2bn_def Let_def)
    then show ?thesis using call c Op_bin2bn by auto
  next
    case (Op_set_negative r sg)
    then show ?thesis using call c by simp
  qed
qed

lemma run_success:
  assumes "\<And>k. k < length s \<Longrightarrow> bn_typed (s ! k) \<and> bn_dynamic (s ! k)" "ctx_idle c"
    and "list_all (\<lambda>p. list_all (\<lambda>i. i < length s) (op_registers p)) ps" "\<forall>k. alloc k" "small_run ps (map bn_int s)"
  shows "\<exists>s' c'. bn_run ps s c alloc = Some (True, s', c') \<and> ctx_idle c'"
  using assms(1-3,5)
proof (induction ps arbitrary: s c)
  case (Cons p ps)
  have tc: "\<And>k. k < length s \<Longrightarrow> bn_typed (s ! k)" "ctx_ok c" "list_all (\<lambda>i. i < length s) (op_registers p)"
    using Cons.prems(1-3) by (simp_all add: ctx_idle_def)
  obtain ok x c' where p: "op_call p s c alloc = Some (ok, x, c')" "op_result (s ! hd (op_registers p)) ok x (op_value p (map bn_int s))"
    using op_step [OF tc, of alloc] by auto
  have sv: "\<And>k. k < length s \<Longrightarrow> bn_typed (s ! k) \<and> bn_dynamic (s ! k) \<and> small_value (bn_int (s ! k))"
    using Cons.prems(1,4) by (simp add: list_all_length)
  have ok: "ok" "ctx_idle c'" using op_success [OF sv Cons.prems(2) tc(3) assms(4) _ p(1)] Cons.prems(4) by simp_all
  define r where "r = hd (op_registers p)"
  have r: "r < length s" using Cons.prems(3) by (cases p) (simp_all add: r_def)
  have x: "bn_typed x" "bn_dynamic x" "bn_int x = op_value p (map bn_int s)"
    using p(2) ok(1) Cons.prems(1) [OF r] by (simp_all add: op_result_def bn_typed_def bn_dynamic_def r_def)
  have "\<And>k. k < length (s[r := x]) \<Longrightarrow> bn_typed (s[r := x] ! k) \<and> bn_dynamic (s[r := x] ! k)"
    using Cons.prems(1) x(1,2) r by (auto simp: nth_list_update)
  moreover have "small_run ps (map bn_int (s[r := x]))" using Cons.prems(4) x(3) by (simp add: map_update r_def)
  moreover have "list_all (\<lambda>p. list_all (\<lambda>i. i < length (s[r := x])) (op_registers p)) ps" using Cons.prems(3) by simp
  ultimately have "\<exists>s' c''. bn_run ps (s[r := x]) c' alloc = Some (True, s', c'') \<and> ctx_idle c''"
    using Cons.IH [OF _ ok(2), of "s[r := x]"] by blast
  then show ?case using p(1) ok(1) by (simp add: r_def)
qed simp

end
