(* ===== verification/Bn_Correct.thy ===== *)
theory Bn_Correct
  imports Bn_Programs
begin

text \<open>
  The theorems on big numbers. The locale \<open>multiplier\<close> is what the callers of a product of words rely on;
  every routine is an instance, and therefore equal to the schoolbook product.
\<close>

section \<open>All products are the schoolbook product\<close>

text \<open>
  What the callers of a product of words rely on: the number of the words and their value. The result
  is then the schoolbook product, word for word, and the order of the factors does not matter.
\<close>

lemma same_words: "length xs = length ys \<Longrightarrow> wval xs = wval ys \<Longrightarrow> xs = ys"
  using wval_inj by blast

locale multiplier =
  fixes na nb len :: nat and f :: "u64 list \<Rightarrow> u64 list \<Rightarrow> u64 list"
  assumes room: "na + nb \<le> len"
    and words: "na \<le> length a \<Longrightarrow> nb \<le> length b \<Longrightarrow> length (f a b) = len"
    and product: "na \<le> length a \<Longrightarrow> nb \<le> length b \<Longrightarrow> wval (f a b) = wval (take na a) * wval (take nb b)"
begin

lemma schoolbook:
  assumes "na \<le> length a" "nb \<le> length b"
  shows "f a b = mul_normal_pad a na b nb len"
  by (rule same_words) (simp_all add: words [OF assms] product [OF assms] mul_normal_pad [OF assms room])

lemma swap:
  assumes "na \<le> length a" "nb \<le> length b"
  shows "f a b = mul_normal_pad b nb a na len"
proof -
  have r: "nb + na \<le> len" using room by simp
  show ?thesis
    by (rule same_words) (simp_all add: words [OF assms] product [OF assms] mul_normal_pad [OF assms(2,1) r] mult.commute)
qed

end

interpretation comba8: multiplier 8 8 16 "\<lambda>a b. bn_mul_comba8 (take 8 a) (take 8 b)"
  by unfold_locales (simp_all add: bn_mul_comba8)

interpretation comba4: multiplier 4 4 8 "\<lambda>a b. bn_mul_comba4 (take 4 a) (take 4 b)"
  by unfold_locales (simp_all add: bn_mul_comba4)

interpretation normal: multiplier na nb "na + nb" "\<lambda>a b. bn_mul_normal (replicate (na + nb) 0) a na b nb" for na nb
proof unfold_locales
  fix a b :: "u64 list"
  assume "na \<le> length a" "nb \<le> length b"
  then have n: "length (bn_mul_normal (replicate (na + nb) 0) a na b nb) = na + nb \<and>
      wval (take (na + nb) (bn_mul_normal (replicate (na + nb) 0) a na b nb)) = wval (take na a) * wval (take nb b)"
    using bn_mul_normal [of na a nb b "replicate (na + nb) 0"] unfolding length_replicate by blast
  then show "length (bn_mul_normal (replicate (na + nb) 0) a na b nb) = na + nb" by blast
  have "take (na + nb) (bn_mul_normal (replicate (na + nb) 0) a na b nb) = bn_mul_normal (replicate (na + nb) 0) a na b nb"
    by (rule take_all) (use n in simp)
  then show "wval (bn_mul_normal (replicate (na + nb) 0) a na b nb) = wval (take na a) * wval (take nb b)" using n by metis
qed simp

lemma padded_multiplier:
  assumes "n = 2 ^ k" "- 8 \<le> dna" "dna \<le> 0" "- 8 \<le> dnb" "dnb \<le> 0" "0 \<le> int n + dna" "0 \<le> int n + dnb"
  shows "multiplier (nat (int n + dna)) (nat (int n + dnb)) (2 * n) (\<lambda>a b. bn_mul_recursive a b n dna dnb)"
proof unfold_locales
  show "nat (int n + dna) + nat (int n + dnb) \<le> 2 * n" using assms(2-) by linarith
qed (use bn_mul_recursive [OF assms] in auto)

interpretation karatsuba: multiplier "2 ^ k" "2 ^ k" "2 * 2 ^ k" "\<lambda>a b. bn_mul_recursive a b (2 ^ k) 0 0" for k
  using padded_multiplier [of "2 ^ k" k 0 0] by (simp add: nat_power_eq)

lemma partial_multiplier:
  assumes "n = 2 ^ k" "8 \<le> n" "tna < n" "tnb < n" "tna \<le> tnb + 1" "tnb \<le> tna + 1"
  shows "multiplier (n + tna) (n + tnb) (4 * n) (\<lambda>a b. bn_mul_part_recursive r a b n tna tnb)"
  using bn_mul_part_recursive [OF assms] assms by unfold_locales auto

lemma sqr_schoolbook:
  assumes "n \<le> length a"
  shows "length r = 2 * n \<Longrightarrow> bn_sqr_normal r a n = mul_normal_pad a n a n (2 * n)"
    "n = 2 ^ k \<Longrightarrow> bn_sqr_recursive a n = mul_normal_pad a n a n (2 * n)"
proof -
  have p: "length (mul_normal_pad a n a n (2 * n)) = 2 * n" "wval (mul_normal_pad a n a n (2 * n)) = wval (take n a) * wval (take n a)"
    using mul_normal_pad [OF assms assms, of "2 * n"] by simp_all
  show "length r = 2 * n \<Longrightarrow> bn_sqr_normal r a n = mul_normal_pad a n a n (2 * n)"
    by (rule same_words) (simp_all only: p bn_sqr_normal [OF assms])
  show "n = 2 ^ k \<Longrightarrow> bn_sqr_recursive a n = mul_normal_pad a n a n (2 * n)"
    using bn_sqr_recursive [of n k a] assms p by (intro same_words) simp_all
qed

section \<open>The small case of the recursion\<close>

lemma drop_put: "i + length ws \<le> k \<Longrightarrow> k \<le> length d \<Longrightarrow> drop k (put_words d i ws) = drop k d"
proof -
  assume k: "i + length ws \<le> k" "k \<le> length d"
  then have l: "length (take i d @ ws) = i + length ws" by simp
  have "drop k ((take i d @ ws) @ drop (i + length ws) d) = drop k d" unfolding drop_append l using k l by simp
  then show ?thesis by (simp add: put_words_def)
qed

lemma rows_rest: "na \<le> length a \<Longrightarrow> na + j + length bs \<le> k \<Longrightarrow> k \<le> length r \<Longrightarrow> drop k (mul_rows r j a na bs) = drop k r"
proof (induction bs arbitrary: r j)
  case (Cons w bs)
  obtain c row where m: "bn_mul_add_words (drop j r) a na w = (c, row)" by (rule prod.exhaust)
  have "na \<le> length (drop j r)" using Cons.prems by simp
  then have l: "length row = na" using bn_mul_add_words [OF m _ Cons.prems(1)] by simp
  then show ?case using Cons m by (simp add: drop_put)
qed simp

lemma normal_rest:
  assumes "na \<le> length a" "nb \<le> length b" "na + nb \<le> k" "k \<le> length r"
  shows "drop k (bn_mul_normal r a na b nb) = drop k r"
proof -
  have main: "drop k (bn_mul_normal r a na b nb) = drop k r"
    if "nb \<le> na" "na \<le> length a" "nb \<le> length b" "na + nb \<le> k" for a na b nb
  proof (cases "nb = 0")
    case True
    then show ?thesis using that assms(4) by (simp add: bn_mul_normal_def drop_put)
  next
    case False
    obtain c row where m: "bn_mul_words a na (b ! 0) = (c, row)" by (rule prod.exhaust)
    have l: "length row = na" using bn_mul_words [OF m that(2)] by simp
    have "na + 1 + length (drop 1 (take nb b)) \<le> k" using that False by simp
    then show ?thesis using that False assms(4) l rows_rest [OF that(2)]
      by (simp add: bn_mul_normal_def m Let_def drop_put)
  qed
  show ?thesis
  proof (cases "na < nb")
    case True
    then have "bn_mul_normal r a na b nb = bn_mul_normal r b nb a na" by (simp add: bn_mul_normal_def)
    then show ?thesis using main [of na nb b a] True assms by simp
  qed (use main assms in simp)
qed

lemma clear_last: "k \<le> 8 * (length ws - 1) \<Longrightarrow> ws \<noteq> [] \<Longrightarrow> length (clear_bytes k ws) = length ws \<and> last (clear_bytes k ws) = last ws"
proof (induction k ws rule: clear_bytes.induct)
  case (2 k w ws)
  show ?case
  proof (cases ws)
    case Nil
    then show ?thesis using 2 by simp
  next
    case (Cons x xs)
    show ?thesis
    proof (cases "8 \<le> k")
      case True
      then have "length (clear_bytes (k - 8) ws) = length ws \<and> last (clear_bytes (k - 8) ws) = last ws" using 2 Cons by simp
      then show ?thesis using True Cons by (auto simp: last.simps)
    qed (simp add: Cons)
  qed
qed simp

lemma part_last:
  assumes "0 < n" "n < 8" "tna < n" "tnb < n" "n + tna \<le> length a" "n + tnb \<le> length b" "length r = 4 * n"
  shows "length (bn_mul_part_recursive r a b n tna tnb) = 4 * n" "last (bn_mul_part_recursive r a b n tna tnb) = last r"
proof -
  define m where "m = n * 2 + tna + tnb"
  define p where "p = bn_mul_normal r a (n + tna) b (n + tnb)"
  have l: "length p = 4 * n" using bn_mul_normal [of "n + tna" a "n + tnb" b r] assms by (simp add: p_def)
  have d: "drop m p = drop m r" using normal_rest [of "n + tna" a "n + tnb" b m r] assms by (simp add: p_def m_def)
  have e: "bn_mul_part_recursive r a b n tna tnb = take m p @ clear_bytes (n * 2 - tna - tnb) (drop m p)"
    using assms(2) by (simp add: bn_mul_part_recursive.simps [of r] p_def m_def Let_def)
  have k: "n * 2 - tna - tnb \<le> 8 * (length (drop m r) - 1)" "drop m r \<noteq> []" using assms by (auto simp: m_def)
  have c: "length (clear_bytes (n * 2 - tna - tnb) (drop m r)) = length (drop m r)"
    "last (clear_bytes (n * 2 - tna - tnb) (drop m r)) = last (drop m r)" using clear_last [OF k] by simp_all
  have ne: "clear_bytes (n * 2 - tna - tnb) (drop m r) \<noteq> []" using c(1) k(2) by auto
  show "length (bn_mul_part_recursive r a b n tna tnb) = 4 * n" unfolding e d using c(1) l assms by (simp add: m_def)
  show "last (bn_mul_part_recursive r a b n tna tnb) = last r" unfolding e d using c(2) ne k(2) by simp
qed

lemma wval_last: "ws \<noteq> [] \<Longrightarrow> last ws \<noteq> 0 \<Longrightarrow> 2 ^ (64 * (length ws - 1)) \<le> wval ws"
proof (induction ws rule: rev_induct)
  case (snoc w ws)
  have "1 \<le> unat w" using snoc by (simp add: Suc_le_eq unat_gt_0)
  then have "(2 :: nat) ^ (64 * length ws) * 1 \<le> 2 ^ (64 * length ws) * unat w" by (intro mult_le_mono) simp_all
  then show ?case by (simp add: wval_append trans_le_add2)
qed simp

section \<open>Comparisons and tests\<close>

lemma word_bignum:
  "bn_typed (BN_init\<lparr>bn_d := [w], bn_width := of_bool (w > 0), bn_dmax := 1, bn_flags := BN_FLG_STATIC_DATA\<rparr>)"
  "bn_int (BN_init\<lparr>bn_d := [w], bn_width := of_bool (w > 0), bn_dmax := 1, bn_flags := BN_FLG_STATIC_DATA\<rparr>) = int (unat w)"
  by (cases "w = 0", simp_all add: bn_typed_def bn_sized_def bn_ok_def bn_minimal_def BN_init_def bn_max_words_def BN_BITS2_def
      bn_int_def bn_abs_def word_neq_0_conv [symmetric])

lemma typed_int:
  assumes "bn_typed a"
  shows "bn_int a = 0 \<longleftrightarrow> bn_width a = 0" "bn_neg a \<longleftrightarrow> bn_int a < 0"
proof -
  note a = assms
  have z: "bn_width a = 0 \<longleftrightarrow> bn_abs a = 0" by (rule minimal_zero [OF typed(1) [OF a] typed(3) [OF a]])
  show "bn_int a = 0 \<longleftrightarrow> bn_width a = 0" by (simp add: z bn_int_def)
  show "bn_neg a \<longleftrightarrow> bn_int a < 0" using z typed(3) [OF a] by (auto simp: bn_int_def bn_minimal_def)
qed

lemma typed_words:
  assumes "bn_typed a" "bn_typed b"
  shows "bn_int a = bn_int b \<longleftrightarrow> bn_neg a = bn_neg b \<and> take (bn_width a) (bn_d a) = take (bn_width b) (bn_d b)"
proof
  assume e: "bn_int a = bn_int b"
  then have n: "bn_neg a = bn_neg b" using typed_int(2) [OF assms(1)] typed_int(2) [OF assms(2)] by simp
  then have v: "bn_abs a = bn_abs b" using e by (simp add: bn_int_def split: if_splits)
  have w: "bn_width x \<le> bn_width y" if "bn_abs x = bn_abs y" "bn_typed x" "bn_typed y" for x y
  proof (rule ccontr)
    assume "\<not> bn_width x \<le> bn_width y"
    then have l: "bn_width y < bn_width x" by simp
    then have "2 ^ (64 * (bn_width x - 1)) \<le> bn_abs x"
      using minimal_iff [OF typed(1) [OF that(2)]] typed(3) [OF that(2)] by simp
    moreover have "(2 :: nat) ^ (64 * bn_width y) \<le> 2 ^ (64 * (bn_width x - 1))" using l by (intro power_increasing) simp_all
    moreover have "bn_abs y < 2 ^ (64 * bn_width y)" by (rule bn_abs_less [OF typed(1) [OF that(3)]])
    ultimately show False using that(1) by linarith
  qed
  have "bn_width a = bn_width b" using w [OF v assms] w [OF v [symmetric] assms(2,1)] by simp
  then have "length (take (bn_width a) (bn_d a)) = length (take (bn_width b) (bn_d b))"
    using typed(1) [OF assms(1)] typed(1) [OF assms(2)] by (simp add: bn_ok_def)
  then show "bn_neg a = bn_neg b \<and> take (bn_width a) (bn_d a) = take (bn_width b) (bn_d b)"
    using n v same_words by (simp add: bn_abs_def)
qed (simp add: bn_int_def bn_abs_def)

lemma cmp_signed: "bn_typed a \<Longrightarrow> bn_typed b \<Longrightarrow> BN_cmp (Some a) (Some b) = sgn (bn_int a - bn_int b)"
  using bn_cmp [OF typed(1) typed(1) typed(5) typed(5)] by blast

lemma typed_odd: "bn_typed a \<Longrightarrow> BN_is_odd a \<longleftrightarrow> odd (bn_int a)"
proof -
  assume a: "bn_typed a"
  have "BN_is_odd a \<longleftrightarrow> bit (bn_abs a) 0"
    using bit_abs [OF typed(1) [OF a], of 0] drop_and_1 [of 0 "bn_d a ! 0"] by (simp add: BN_is_odd_def)
  then show ?thesis by (simp add: bit_0 bn_int_def)
qed

lemma xor_zero: "(x :: u64) XOR y = 0 \<longleftrightarrow> x = y"
proof
  assume "x XOR y = 0"
  then have "(x XOR y) XOR y = 0 XOR y" by (rule arg_cong)
  then show "x = y" by (simp only: xor.assoc xor_self_eq xor.right_neutral xor.left_neutral)
qed (simp only: xor_self_eq)

lemma or_zero: "(x :: u64) OR y = 0 \<longleftrightarrow> x = 0 \<and> y = 0"
  by (metis or_eq_0_iff)

lemma xor_fold: "foldl (\<lambda>m xy. m OR (fst xy XOR snd xy)) m ps = (0 :: u64) \<longleftrightarrow> m = 0 \<and> (\<forall>(x, y) \<in> set ps. x = y)"
proof (induction ps arbitrary: m)
  case (Cons p ps)
  obtain x y where p: "p = (x, y)" by (rule prod.exhaust)
  have "m OR (x XOR y) = 0 \<longleftrightarrow> m = 0 \<and> x = y" by (simp only: or_zero xor_zero)
  then show ?case using Cons.IH [of "m OR (x XOR y)"] by (simp add: p)
qed simp

lemma zip_equal: "length xs = length ys \<Longrightarrow> (\<forall>(x, y) \<in> set (zip xs ys). x = y) \<longleftrightarrow> xs = ys"
  by (induction xs ys rule: list_induct2) auto

lemma split_equal:
  assumes "n \<le> m" "m \<le> length b" "length xs = n"
  shows "wval (take m b) = wval xs \<longleftrightarrow> wval (take (m - n) (drop n b)) = 0 \<and> take n b = xs"
proof -
  have e: "wval (take m b) = wval (take n b) + 2 ^ (64 * n) * wval (take (m - n) (drop n b))"
    using wval_take [OF assms(1,2)] .
  have l: "wval xs < 2 ^ (64 * n)" "wval (take n b) < 2 ^ (64 * n)" using wval_less [of xs] wval_less [of "take n b"] assms by simp_all
  show ?thesis
  proof (cases "wval (take (m - n) (drop n b)) = 0")
    case True
    then show ?thesis unfolding e using wval_inj [of "take n b" xs] assms by simp
  next
    case False
    then have "2 ^ (64 * n) * 1 \<le> 2 ^ (64 * n) * wval (take (m - n) (drop n b))" by (intro mult_le_mono) simp_all
    then have "wval (take m b) \<noteq> wval xs" unfolding e using l by linarith
    then show ?thesis using False by blast
  qed
qed

lemma equal_consttime:
  assumes "bn_ok a" "bn_ok b"
  shows "BN_equal_consttime a b \<longleftrightarrow> bn_abs a = bn_abs b \<and> bn_neg a = bn_neg b"
proof -
  define mn where "mn = (if bn_width a < bn_width b then bn_width a else bn_width b)"
  have l: "length (take mn (bn_d a)) = mn" "length (take mn (bn_d b)) = mn" using assms by (auto simp: mn_def bn_ok_def)
  have n: "(of_bool p XOR of_bool q = (0 :: u64)) \<longleftrightarrow> p = q" for p q by (simp only: xor_zero of_bool_eq_iff)
  have z: "(\<forall>(x, y) \<in> set (zip (take mn (bn_d a)) (take mn (bn_d b))). x = y) \<longleftrightarrow> take mn (bn_d a) = take mn (bn_d b)"
    by (rule zip_equal) (simp only: l)
  have e: "BN_equal_consttime a b \<longleftrightarrow> or_words (bn_d b) (bn_width a) (bn_width b) = 0 \<and> or_words (bn_d a) (bn_width b) (bn_width a) = 0 \<and>
      take mn (bn_d a) = take mn (bn_d b) \<and> bn_neg a = bn_neg b"
    unfolding BN_equal_consttime_def Let_def mn_def [symmetric] or_zero xor_fold n z by (simp only: conj_assoc)
  show ?thesis
  proof (cases "bn_width a \<le> bn_width b")
    case True
    then have m: "mn = bn_width a" by (auto simp: mn_def)
    have "wval (take (bn_width b) (bn_d b)) = wval (take mn (bn_d a)) \<longleftrightarrow>
        wval (take (bn_width b - bn_width a) (drop (bn_width a) (bn_d b))) = 0 \<and> take (bn_width a) (bn_d b) = take mn (bn_d a)"
      by (rule split_equal) (use True assms(2) l(1) m in \<open>simp_all add: bn_ok_def\<close>)
    moreover have "or_words (bn_d a) (bn_width b) (bn_width a) = 0" using True by (simp add: or_words_def)
    ultimately show ?thesis unfolding e or_words bn_abs_def m by metis
  next
    case False
    then have m: "mn = bn_width b" by (auto simp: mn_def)
    have "wval (take (bn_width a) (bn_d a)) = wval (take mn (bn_d b)) \<longleftrightarrow>
        wval (take (bn_width a - bn_width b) (drop (bn_width b) (bn_d a))) = 0 \<and> take (bn_width b) (bn_d a) = take mn (bn_d b)"
      by (rule split_equal) (use False assms(1) l(2) m in \<open>simp_all add: bn_ok_def\<close>)
    moreover have "or_words (bn_d b) (bn_width a) (bn_width b) = 0" using False by (simp add: or_words_def)
    ultimately show ?thesis unfolding e or_words bn_abs_def m by metis
  qed
qed

lemma abs_is_word:
  assumes "bn_ok b"
  shows "BN_abs_is_word b w \<longleftrightarrow> bn_abs b = unat w"
proof (cases "bn_width b = 0")
  case True
  then show ?thesis by (auto simp: BN_abs_is_word_def bn_abs_def unat_eq_0)
next
  case False
  then have l: "1 \<le> bn_width b" "bn_width b \<le> length (bn_d b)" using assms by (simp_all add: bn_ok_def)
  have t: "take 1 (bn_d b) = [bn_d b ! 0]" using l by (cases "bn_d b") auto
  have "BN_abs_is_word b w \<longleftrightarrow> bn_d b ! 0 = w \<and> wval (take (bn_width b - 1) (drop 1 (bn_d b))) = 0"
    unfolding BN_abs_is_word_def or_fold xor_zero wval_eq_0 using False by simp
  also have "\<dots> \<longleftrightarrow> bn_abs b = wval [w]"
  proof -
    have "wval (take (bn_width b) (bn_d b)) = wval [w] \<longleftrightarrow> wval (take (bn_width b - 1) (drop 1 (bn_d b))) = 0 \<and> take 1 (bn_d b) = [w]"
      by (rule split_equal [OF l]) simp
    then show ?thesis unfolding bn_abs_def t list.inject by blast
  qed
  finally show ?thesis by simp
qed

section \<open>Strings of bytes\<close>

lemma leading:
  assumes "bs \<noteq> []" "hd bs \<noteq> (0 :: byte)"
  shows "256 ^ (length bs - 1) \<le> bval (rev bs)"
proof -
  obtain x xs where b: "bs = x # xs" using assms(1) by (cases bs) auto
  have "1 \<le> unat x" using assms(2) b by (simp add: Suc_le_eq unat_gt_0)
  then have "(256 :: nat) ^ length xs * 1 \<le> 256 ^ length xs * unat x" by (intro mult_le_mono) simp_all
  then show ?thesis by (simp add: b bval_append trans_le_add2)
qed

lemma leading_less:
  assumes "bval (rev xs) = bval (rev ys)" "ys \<noteq> [] \<longrightarrow> hd ys \<noteq> (0 :: byte)"
  shows "length ys \<le> length xs"
proof (rule ccontr)
  assume "\<not> length ys \<le> length xs"
  then have n: "ys \<noteq> []" "length xs \<le> length ys - 1" by auto
  have "(256 :: nat) ^ length xs \<le> 256 ^ (length ys - 1)" using n(2) by (intro power_increasing) simp_all
  moreover have "256 ^ (length ys - 1) \<le> bval (rev ys)" using leading [OF n(1)] assms(2) n(1) by blast
  moreover have "bval (rev xs) < 256 ^ length xs" using bval_less [of "rev xs"] by simp
  ultimately show False using assms(1) by linarith
qed

lemma leading_unique:
  assumes "bval (rev xs) = bval (rev ys)" "xs \<noteq> [] \<longrightarrow> hd xs \<noteq> 0" "ys \<noteq> [] \<longrightarrow> hd ys \<noteq> (0 :: byte)"
  shows "xs = ys"
proof -
  have "length xs = length ys" using leading_less [OF assms(1,3)] leading_less [OF assms(1) [symmetric] assms(2)] by simp
  then show ?thesis using bval_inj [of "rev xs" "rev ys"] assms(1) by simp
qed

lemma bval_strip: "bval (rev (dropWhile (\<lambda>x. x = 0) bs)) = bval (rev bs)"
  by (induction bs) (simp_all add: bval_append)

lemma bn2bin_exact:
  assumes "bn_ok b" "bn_abs b = bval (rev bs)"
  shows "BN_bn2bin b = dropWhile (\<lambda>x. x = 0) bs" "BN_bn2bin_padded (length bs) b = Some bs" "BN_bn2le_padded (length bs) b = Some (rev bs)"
proof -
  note x = bn_bn2bin [OF assms(1)]
  show "BN_bn2bin b = dropWhile (\<lambda>x. x = 0) bs"
    by (rule leading_unique) (use x assms(2) hd_dropWhile [of "\<lambda>x. x = 0" bs] bval_strip [of bs] in auto)
  have l: "bn_abs b < 256 ^ length bs" using bval_less [of "rev bs"] assms(2) by simp
  obtain cs where cs: "BN_bn2le_padded (length bs) b = Some cs" "length cs = length bs" "bval cs = bn_abs b"
    using bn_padded(1) [OF assms(1) l] by blast
  have "cs = rev bs" using bval_inj [of cs "rev bs"] cs(2,3) assms(2) by simp
  then show "BN_bn2le_padded (length bs) b = Some (rev bs)" "BN_bn2bin_padded (length bs) b = Some bs"
    using cs(1) bn_padded(3) [OF assms(1)] by simp_all
qed

section \<open>Theorems\<close>


lemma BN_init_typed: "bn_typed BN_init" "bn_dynamic BN_init" "bn_int BN_init = 0"
  by (simp_all add: bn_typed_def bn_sized_def bn_ok_def bn_minimal_def BN_init_def bn_dynamic_def bn_int_def bn_abs_def)




text \<open>
  C8. The recursive products (Karatsuba, also for factors that are shorter than the power of two, and its
  variant for the part behind a power of two), the recursive and the plain square and the unrolled
  products and squares of four and eight words all write the words of the schoolbook product.
\<close>

theorem BN_products_schoolbook:
  assumes "n = 2 ^ k"
  shows "(- 8 \<le> dna \<and> dna \<le> 0 \<and> - 8 \<le> dnb \<and> dnb \<le> 0 \<and> 0 \<le> int n + dna \<and> 0 \<le> int n + dnb \<and>
        nat (int n + dna) \<le> length a \<and> nat (int n + dnb) \<le> length b \<longrightarrow>
      bn_mul_recursive a b n dna dnb = mul_normal_pad a (nat (int n + dna)) b (nat (int n + dnb)) (2 * n)) \<and>
    (8 \<le> n \<and> tna < n \<and> tnb < n \<and> tna \<le> tnb + 1 \<and> tnb \<le> tna + 1 \<and> n + tna \<le> length a \<and> n + tnb \<le> length b \<longrightarrow>
      bn_mul_part_recursive r a b n tna tnb = mul_normal_pad a (n + tna) b (n + tnb) (4 * n)) \<and>
    (n \<le> length a \<longrightarrow> bn_sqr_recursive a n = mul_normal_pad a n a n (2 * n)) \<and>
    (m \<le> length a \<and> length r = 2 * m \<longrightarrow> bn_sqr_normal r a m = mul_normal_pad a m a m (2 * m)) \<and>
    (length a = 8 \<and> length b = 8 \<longrightarrow> bn_mul_comba8 a b = mul_normal_pad a 8 b 8 16) \<and>
    (length a = 4 \<and> length b = 4 \<longrightarrow> bn_mul_comba4 a b = mul_normal_pad a 4 b 4 8) \<and>
    (length a = 8 \<longrightarrow> bn_sqr_comba8 a = bn_mul_comba8 a a) \<and>
    (length a = 4 \<longrightarrow> bn_sqr_comba4 a = bn_mul_comba4 a a)"
proof (intro conjI impI)
  assume h: "- 8 \<le> dna \<and> dna \<le> 0 \<and> - 8 \<le> dnb \<and> dnb \<le> 0 \<and> 0 \<le> int n + dna \<and> 0 \<le> int n + dnb \<and>
    nat (int n + dna) \<le> length a \<and> nat (int n + dnb) \<le> length b"
  then show "bn_mul_recursive a b n dna dnb = mul_normal_pad a (nat (int n + dna)) b (nat (int n + dnb)) (2 * n)"
    using multiplier.schoolbook [OF padded_multiplier [OF assms]] by blast
next
  assume "8 \<le> n \<and> tna < n \<and> tnb < n \<and> tna \<le> tnb + 1 \<and> tnb \<le> tna + 1 \<and> n + tna \<le> length a \<and> n + tnb \<le> length b"
  then show "bn_mul_part_recursive r a b n tna tnb = mul_normal_pad a (n + tna) b (n + tnb) (4 * n)"
    using multiplier.schoolbook [OF partial_multiplier [OF assms]] by blast
next
  assume "n \<le> length a"
  then show "bn_sqr_recursive a n = mul_normal_pad a n a n (2 * n)" using sqr_schoolbook(2) assms by blast
next
  assume "m \<le> length a \<and> length r = 2 * m"
  then show "bn_sqr_normal r a m = mul_normal_pad a m a m (2 * m)" using sqr_schoolbook(1) by blast
next
  assume "length a = 8 \<and> length b = 8"
  then show "bn_mul_comba8 a b = mul_normal_pad a 8 b 8 16" using comba8.schoolbook [of a b] by simp
next
  assume "length a = 4 \<and> length b = 4"
  then show "bn_mul_comba4 a b = mul_normal_pad a 4 b 4 8" using comba4.schoolbook [of a b] by simp
next
  assume l: "length a = 8"
  show "bn_sqr_comba8 a = bn_mul_comba8 a a" by (rule same_words) (simp_all add: bn_sqr_comba8 bn_mul_comba8 l)
next
  assume l: "length a = 4"
  show "bn_sqr_comba4 a = bn_mul_comba4 a a" by (rule same_words) (simp_all add: bn_sqr_comba4 bn_mul_comba4 l)
qed

theorem BN_products_schoolbook_witness:
  "bn_mul_recursive (replicate 16 1) (replicate 16 2) 16 (- 1) 0 = mul_normal_pad (replicate 16 1) 15 (replicate 16 2) 16 32"
proof -
  have "bn_mul_recursive (replicate 16 1) (replicate 16 2) 16 (- 1) 0 =
      mul_normal_pad (replicate 16 1) (nat (int 16 + (- 1))) (replicate 16 2) (nat (int 16 + 0)) (2 * 16)"
    by (rule BN_products_schoolbook [where k = 4 and n = 16, THEN conjunct1, rule_format]) simp_all
  then show ?thesis by simp
qed



text \<open>
  C22. Bytes read as a big-endian number are written back without the leading zeros, or exactly if padded
  to their number, in both byte orders; reading what was written gives the same number; and the padded
  form fails exactly if the number does not fit.
\<close>

theorem BN_bytes_roundtrip:
  assumes "\<forall>x. ret = Some x \<longrightarrow> bn_ok x" "BN_bin2bn bs ret alloc = Some b"
  shows "BN_bn2bin b = dropWhile (\<lambda>x. x = 0) bs \<and> BN_bn2bin_padded (length bs) b = Some bs \<and>
    BN_bn2le_padded (length bs) b = Some (rev bs) \<and> BN_num_bytes b = length (dropWhile (\<lambda>x. x = 0) bs) \<and>
    (\<forall>c. BN_le2bn (rev bs) None alloc' = Some c \<longrightarrow> bn_abs c = bn_abs b) \<and>
    (\<forall>c. BN_bin2bn (BN_bn2bin b) None alloc' = Some c \<longrightarrow> bn_abs c = bn_abs b) \<and>
    (\<forall>len. BN_bn2bin_padded len b = None \<longleftrightarrow> 256 ^ len \<le> bn_abs b)"
proof -
  have "\<And>x. ret = Some x \<Longrightarrow> bn_ok x" using assms(1) by blast
  note b = bn_bin2bn [OF this assms(2)]
  note e = bn2bin_exact [OF b(1,2)]
  have "bn_abs c = bn_abs b" if "BN_le2bn (rev bs) None alloc' = Some c" for c
    using bn_le2bn(2) [OF _ that] b(2) by simp
  moreover have "bn_abs c = bn_abs b" if "BN_bin2bn (BN_bn2bin b) None alloc' = Some c" for c
    using bn_bin2bn(2) [OF _ that] bn_bn2bin(2) [OF b(1)] by simp
  moreover have "BN_bn2bin_padded len b = None \<longleftrightarrow> 256 ^ len \<le> bn_abs b" for len
    using bn_padded(1,2) [OF b(1), of len] bn_padded(3) [OF b(1), of len] by (cases "bn_abs b < 256 ^ len") auto
  moreover have "BN_num_bytes b = length (dropWhile (\<lambda>x. x = 0) bs)" using bn_bn2bin(1) [OF b(1)] e(1) by simp
  ultimately show ?thesis using e by blast
qed

theorem BN_bytes_roundtrip_witness:
  "\<exists>b. BN_bin2bn [0, 1, 2] (Some BN_init) (\<lambda>_. True) = Some b \<and> BN_bn2bin b = [1, 2] \<and> BN_bn2bin_padded 3 b = Some [0, 1, 2]"
proof -
  obtain b where b: "BN_bin2bn [0, 1, 2] (Some BN_init) (\<lambda>_. True) = Some b"
    by (simp add: BN_bin2bn_def BN_BYTES_def BN_init_def bn_wexpand_def bn_max_words_def BN_BITS2_def)
  then show ?thesis using BN_bytes_roundtrip [OF _ b] BN_init_typed by (simp add: bn_typed_def bn_sized_def numeral_3_eq_3)
qed

text \<open>
  C40. For fewer than eight words \<open>bn_mul_part_recursive\<close> clears too little of its result: the last word
  keeps the value that it had, so that, unless this is zero, the result is not the product.
\<close>

theorem bn_mul_part_recursive_small:
  assumes "0 < n" "n < 8" "tna < n" "tnb < n" "n + tna \<le> length a" "n + tnb \<le> length b" "length r = 4 * n" "last r \<noteq> 0"
  shows "last (bn_mul_part_recursive r a b n tna tnb) = last r \<and>
    wval (bn_mul_part_recursive r a b n tna tnb) \<noteq> wval (take (n + tna) a) * wval (take (n + tnb) b)"
proof -
  define p where "p = bn_mul_part_recursive r a b n tna tnb"
  have p: "length p = 4 * n" "last p = last r" using part_last [OF assms(1-7)] by (simp_all add: p_def)
  have "p \<noteq> []" using p(1) assms(1) by auto
  then have "2 ^ (64 * (4 * n - 1)) \<le> wval p" using wval_last [of p] p assms(8) by simp
  moreover have "wval (take (n + tna) a) * wval (take (n + tnb) b) < 2 ^ (64 * (4 * n - 1))"
    by (rule product_less) (use assms in simp_all)
  ultimately show ?thesis using p(2) by (simp add: p_def)
qed

theorem bn_mul_part_recursive_small_witness:
  "wval (bn_mul_part_recursive [7, 7, 7, 7] [1] [1] 1 0 0) \<noteq> 1"
  using bn_mul_part_recursive_small [of 1 0 0 "[1]" "[1]" "[7, 7, 7, 7]"] by simp

end
