(* ===== verification/Spec2Isabelle.thy ===== *)
theory Spec2Isabelle
  imports Pb_Wire_Correct Cbs_Correct Cbb_Correct String_Table Lhash Const_Time Base64 Bio_Pair Bio_Asn1 Bn_Correct
begin

text \<open>
  Verification of the C code that the chat application links through its pods: the protocol-buffer
  wire layer of nanopb (\<open>Pods/nanopb\<close>), on which Firestore encodes its local documents and its
  requests, and the base of the BoringSSL library of gRPC (\<open>Pods/BoringSSL-GRPC/src/crypto\<close>), on
  which its TLS connections parse certificates and move bytes. The application itself is a few
  screens of Swift that call Firebase; its C code is these libraries.

  Parts and how they interact. nanopb has one component, streams over caller-supplied buffers or
  callbacks, with the wire format on top. In BoringSSL the readers and writers of byte strings (CBS and
  CBB) carry every parser; the text readers and the ASN.1 strings are written with them, the string
  table calls the ASN.1 strings and keeps its entries in the generic stack; the hash table, the stack
  and the growing buffer are the containers; BIOs move bytes between the layers of a connection through
  ring buffers and growing buffers, and read ASN.1 elements from them.

  Theories, in the order of their imports:

  Prelude: machine types, the collections of simplification rules, facts on bytes, words and lists.
  Codec: the locales \<open>codec\<close> and \<open>canonical_codec\<close>, what follows from a round trip, unique decoding of
  sequences.
  Pb_Stream: \<open>nanopb/pb_decode.c\<close> (\<open>buf_read\<close>, \<open>pb_read\<close>, \<open>pb_readbyte\<close>) and \<open>pb_encode.c\<close> (\<open>buf_write\<close>,
  \<open>pb_write\<close>). Pb_Wire: varints, zigzag, fixed-width fields, tags, strings, substreams, skipping of
  fields. Pb_Wire_Laws and Pb_Wire_Correct: every decoder reads what its encoder wrote, the sizing stream
  counts exactly, no sequence of readers leaves the memory block, and the overlong varints that the
  32-bit decoder accepts.
  Cbs: \<open>crypto/bytestring/cbs.c\<close> without object identifiers. Der, Der_Values: the DER encoding as a
  function of tag and contents, against which the readers are proved. Cbs_Correct: the readers accept
  exactly the encodings.
  Cbb: \<open>crypto/bytestring/cbb.c\<close>, the tree of builders as a stack of open levels over one buffer that may
  grow or be fixed. Cbb_Laws: the invariant of the levels and the refinement of the tree of
  contents. Cbb_Values: DER values, object identifiers (with their text form from \<open>cbs.c\<close>) and the
  sorting of SET OF. Cbb_Correct: programs of operations, sticky errors, round trips with CBS.
  Unicode: \<open>crypto/bytestring/unicode.c\<close>. Mbstring: \<open>crypto/asn1/a_mbstr.c\<close>, the choice of a string type for
  multibyte text. String_Table: \<open>crypto/asn1/a_strnid.c\<close>, the table of the bounds of directory strings.
  Const_Time: the branch-free helpers of \<open>crypto/internal.h\<close>. Base64: \<open>crypto/base64/base64.c\<close>, block and
  streaming forms.
  Lhash: \<open>crypto/lhash/lhash.c\<close>, chains in buckets with incremental resizing, refined to a map.
  Stack: \<open>crypto/stack/stack.c\<close>, refined to a list; the locale \<open>order_contract\<close> is what the sorting and
  the binary search require of a comparison function.
  Mem: the string functions and the allocator of \<open>crypto/mem.c\<close> and \<open>crypto/buf/buf.c\<close>. Bio: the common
  layer \<open>crypto/bio/bio.c\<close> with reference counts and chains, memory BIOs (\<open>bio_mem.c\<close>) and pairs (\<open>pair.c\<close>);
  the locale \<open>byte_channel\<close> is what a one-way channel promises. Bio_Pair: pairs refine two bounded queues,
  keep the documented invariants and make progress. Bio_Mem: a memory BIO refines a byte string.
  Bio_Asn1: \<open>BIO_read_asn1\<close> against the parser of Cbs.
  Bn_Words, Bn_Comba, Bn_Karatsuba, Bn_Sqr: the word loops, the unrolled, the recursive and the squaring
  routines of \<open>crypto/fipsmodule/bn/generic.c\<close> and \<open>mul.c\<close>, each with the value of its result. Bn, Bn_Arith:
  numbers and their sums, differences, comparisons and word operations (\<open>bn.c\<close>, \<open>add.c\<close>, \<open>cmp.c\<close>).
  Bn_Bits, Bn_Bytes, Bn_Shift: bit lengths, conversions (\<open>bytes.c\<close>) and shifts (\<open>shift.c\<close>). Bn_Ctx, Bn_Mul: the
  pool of temporary numbers (\<open>ctx.c\<close>) and the products and squares of numbers. Bn_Programs, Bn_Correct:
  programs of operations refine the integers; the locale \<open>multiplier\<close> is what the callers of a product of
  words rely on, and makes all routines equal to the schoolbook product.

  How state and operations correspond to the code. A struct is a record with the fields of the
  source, an enumeration a datatype; a pointer into a buffer is an index or the list of the bytes from
  it on, a NULL pointer is \<open>None\<close>. A function that returns a flag and fills an out-parameter returns
  an option, together with the state it leaves. Memory is the predicate \<open>alloc\<close> that says for which sizes
  (or, for single allocations, whether) an allocation succeeds, so that every failure of malloc is a
  branch; the words that a grown number gets behind its valid ones, which have no specified value, are
  zeros in the model. An operation on big numbers takes the number that it writes to as its first
  argument; an operand that is the same number is passed again, and where the code tests for that, a flag
  says so. Machine integers are words, or naturals with the wrap-around written out
  (\<open>size_mod\<close> is the number of values of \<open>size_t\<close>). Loops over a list are recursive functions with a
  termination proof; the copying loops of the pairs, the chains of BIOs and the reading loops are
  \<open>partial_function (option)\<close>, and their properties state that they return.

  Bounds. Lengths of inputs are below \<open>2^64\<close>, the size of \<open>size_t\<close>, and where a property
  needs more it says so: contents of DER elements below \<open>2^32\<close> bytes (the code reads at most four length
  bytes), programs of insertions shorter than \<open>2^58\<close> (so that sizes doubled on growth do not wrap), memory
  BIOs of at most \<open>INT_MAX\<close> bytes. Numbers have at most \<open>bn_max_words\<close> words, the limit of \<open>bn_wexpand\<close>;
  that no operation fails is shown for values of at most \<open>2^25\<close> bits, whose products stay below it. No fuel
  is used.

  What is not modelled. Pointers handed out into a buffer and what callers do with them later; the values
  of uninitialised bytes; locks and threads (every operation is taken as atomic); the text of error
  messages. In nanopb the message layer (field iterators, submessages, callbacks and extensions of
  \<open>pb_common.c\<close>, \<open>pb_decode.c\<close> and \<open>pb_encode.c\<close>) and the generated field tables. In BoringSSL everything
  outside the theories above: division, modular arithmetic and primes, elliptic curves, ciphers, digests, X.509, PEM, the BIO methods
  that need system calls, and TLS (which is C++). The Swift application, Firebase, Firestore, gRPC,
  abseil, LevelDB and the user-interface pods are Swift, Objective-C or C++.
\<close>

end
